(* ===== verification/Prelude.thy ===== *)
theory Prelude imports
  Main "HOL-Library.Word" "HOL-Library.Code_Target_Nat"
begin

section \<open>What every component shares: strings, digits, bytes and their lemmas\<close>

text \<open>
  A JavaScript string is the list of its UTF-16 code units, each a \<open>nat\<close>; a literal of the
  source is written \<open>js ''abc''\<close>. The operations of \<open>String.prototype\<close> that the modelled
  files use (\<open>trim\<close>, \<open>split\<close>, \<open>indexOf\<close>, \<open>join\<close>, \<open>startsWith\<close>, \<open>endsWith\<close>), the digit classes
  of its regular expressions, \<open>Number.parseInt\<close> and \<open>Number.prototype.toString\<close> on naturals,
  and the 32-bit bitwise operators are defined here once, with the lemmas the components
  prove their round trips and bounds from.
\<close>

unbundle bit_operations_syntax

type_synonym str = "nat list"

abbreviation js :: "string \<Rightarrow> str" where
  "js s \<equiv> map of_char s"

subsection \<open>Searching and cutting\<close>

fun split_on :: "nat \<Rightarrow> str \<Rightarrow> str list" where
  "split_on sep [] = [[]]"
| "split_on sep (c # cs) =
     (if c = sep then [] # split_on sep cs
      else (case split_on sep cs of [] \<Rightarrow> [[c]] | p # ps \<Rightarrow> (c # p) # ps))"

fun join :: "str \<Rightarrow> str list \<Rightarrow> str" where
  "join sep [] = []"
| "join sep [p] = p"
| "join sep (p # q # ps) = p @ sep @ join sep (q # ps)"

definition starts_with :: "str \<Rightarrow> str \<Rightarrow> bool" where
  "starts_with p s \<longleftrightarrow> take (length p) s = p"

definition ends_with :: "str \<Rightarrow> str \<Rightarrow> bool" where
  "ends_with p s \<longleftrightarrow> length p \<le> length s \<and> drop (length s - length p) s = p"

fun index_of :: "str \<Rightarrow> str \<Rightarrow> nat option" where
  "index_of p [] = (if p = [] then Some 0 else None)"
| "index_of p (c # cs) =
     (if starts_with p (c # cs) then Some 0 else map_option Suc (index_of p cs))"

fun last_index_of :: "str \<Rightarrow> str \<Rightarrow> nat option" where
  "last_index_of p [] = (if p = [] then Some 0 else None)"
| "last_index_of p (c # cs) =
     (case last_index_of p cs of
        Some i \<Rightarrow> Some (Suc i)
      | None \<Rightarrow> if starts_with p (c # cs) then Some 0 else None)"

text \<open>The white space and line terminators that \<open>trim\<close> and \<open>\s\<close> mean (ECMA-262).\<close>

definition js_space :: "nat \<Rightarrow> bool" where
  "js_space c \<longleftrightarrow> (9 \<le> c \<and> c \<le> 13) \<or> c = 32 \<or> c = 160 \<or> c = 5760 \<or> (8192 \<le> c \<and> c \<le> 8202) \<or>
     c = 8232 \<or> c = 8233 \<or> c = 8239 \<or> c = 8287 \<or> c = 12288 \<or> c = 65279"

definition trim :: "str \<Rightarrow> str" where
  "trim s = rev (dropWhile js_space (rev (dropWhile js_space s)))"

subsection \<open>Digits and numbers\<close>

definition is_digit :: "nat \<Rightarrow> bool" where
  "is_digit c \<longleftrightarrow> 48 \<le> c \<and> c \<le> 57"

definition is_octal :: "nat \<Rightarrow> bool" where
  "is_octal c \<longleftrightarrow> 48 \<le> c \<and> c \<le> 55"

definition is_hex :: "nat \<Rightarrow> bool" where
  "is_hex c \<longleftrightarrow> (48 \<le> c \<and> c \<le> 57) \<or> (65 \<le> c \<and> c \<le> 70) \<or> (97 \<le> c \<and> c \<le> 102)"

definition digit_value :: "nat \<Rightarrow> nat" where
  "digit_value c = (if c \<le> 57 then c - 48 else if c \<le> 70 then c - 55 else c - 87)"

definition digit_char :: "nat \<Rightarrow> nat" where
  "digit_char d = (if d < 10 then 48 + d else 87 + d)"

text \<open>\<open>Number.parseInt (s, b)\<close> for a string of digits of base \<open>b\<close>, exact.\<close>

definition parse_int :: "nat \<Rightarrow> str \<Rightarrow> nat" where
  "parse_int b s = foldl (\<lambda>v c. b * v + digit_value c) 0 s"

text \<open>\<open>(n).toString (b)\<close> for a natural \<open>n\<close>.\<close>

function to_string :: "nat \<Rightarrow> nat \<Rightarrow> str" where
  "to_string b n =
     (if n < b \<or> b < 2 then [digit_char n]
      else to_string b (n div b) @ [digit_char (n mod b)])"
  by pat_completeness auto
termination
  by (relation "measure snd") auto

declare to_string.simps [simp del]

text \<open>The naturals from here on round to \<open>Infinity\<close> as a double.\<close>

definition double_overflow :: nat where
  "double_overflow = 2 ^ 1024 - 2 ^ 970"

subsection \<open>32-bit operators and bytes\<close>

text \<open>\<open>(a & b) >>> 0\<close> and \<open>(a << n) >>> 0\<close>, the operands taken modulo \<open>2 ^ 32\<close>.\<close>

definition js_and :: "nat \<Rightarrow> nat \<Rightarrow> nat" where
  "js_and a b = unat ((of_nat a :: 32 word) AND of_nat b)"

definition js_shl :: "nat \<Rightarrow> nat \<Rightarrow> nat" where
  "js_shl a n = unat (push_bit (n mod 32) (of_nat a :: 32 word))"

definition js_ushr :: "nat \<Rightarrow> nat \<Rightarrow> nat" where
  "js_ushr a n = unat (drop_bit (n mod 32) (of_nat a :: 32 word))"

definition js_or :: "nat \<Rightarrow> nat \<Rightarrow> nat" where
  "js_or a b = unat ((of_nat a :: 32 word) OR of_nat b)"

type_synonym bytes = "8 word list"

text \<open>\<open>bytes[i] ?? 0\<close>.\<close>

definition byte_at :: "bytes \<Rightarrow> nat \<Rightarrow> nat" where
  "byte_at bs i = (if i < length bs then unat (bs ! i) else 0)"

subsection \<open>Untrusted values\<close>

text \<open>
  What a value that arrives over IPC or from a JSON document can be at run time, whatever its
  compile-time type says. Of a number the code asks whether it is an integer and then compares
  it; \<open>NonInt\<close> stands for \<open>NaN\<close>, the infinities and every fraction.
\<close>

datatype js_number = IntNum int | NonInt

datatype jsv =
  VUndefined
| VNull
| VBool bool
| VNumber js_number
| VString str
| VArray "jsv list"
| VObject "(str \<times> jsv) list"
| VOther

section \<open>Lemmas on the shared operations\<close>

subsection \<open>Splitting and joining\<close>

lemma split_on_not_Nil [simp]: "split_on sep s \<noteq> []"
  by (cases s) (auto split: list.splits)

lemma length_split_on_pos [simp]: "0 < length (split_on sep s)"
  by simp

lemma split_on_no_sep: "sep \<notin> set s \<Longrightarrow> split_on sep s = [s]"
  by (induction s) auto

lemma split_on_append: "sep \<notin> set p \<Longrightarrow> split_on sep (p @ sep # s) = p # split_on sep s"
  by (induction p) auto

lemma split_on_join:
  "ps \<noteq> [] \<Longrightarrow> \<forall>p\<in>set ps. sep \<notin> set p \<Longrightarrow> split_on sep (join [sep] ps) = ps"
  by (induction "[sep]" ps rule: join.induct) (simp_all add: split_on_no_sep split_on_append)

lemma join_split_on: "join [sep] (split_on sep s) = s"
proof (induction s)
  case (Cons c cs)
  show ?case
  proof (cases "split_on sep cs")
    case (Cons p ps)
    with Cons.IH show ?thesis by (cases ps) auto
  qed simp
qed simp

lemma split_on_parts: "p \<in> set (split_on sep s) \<Longrightarrow> sep \<notin> set p \<and> set p \<subseteq> set s"
proof (induction s arbitrary: p)
  case (Cons c cs)
  obtain q qs where "split_on sep cs = q # qs"
    by (cases "split_on sep cs") auto
  then show ?case using Cons by (fastforce split: if_splits)
qed simp

lemma join_Cons: "ps \<noteq> [] \<Longrightarrow> join sep (p # ps) = p @ sep @ join sep ps"
  by (cases ps) auto

lemma set_join_subset: "set (join sep ps) \<subseteq> set sep \<union> \<Union> (set ` set ps)"
  by (induction sep ps rule: join.induct) auto

lemma join_eq_Nil: "\<forall>p\<in>set ps. p \<noteq> [] \<Longrightarrow> join sep ps = [] \<longleftrightarrow> ps = []"
  by (induction sep ps rule: join.induct) auto

lemma length_join_le:
  "\<forall>p\<in>set ps. length p \<le> k \<Longrightarrow> length (join [sep] ps) \<le> length ps * Suc k"
  by (induction "[sep]" ps rule: join.induct) auto

lemma hd_join: "ps \<noteq> [] \<Longrightarrow> hd ps \<noteq> [] \<Longrightarrow> hd (join sep ps) = hd (hd ps)"
  by (cases ps; cases "tl ps") auto

lemma last_join: "ps \<noteq> [] \<Longrightarrow> last ps \<noteq> [] \<Longrightarrow> join sep ps \<noteq> [] \<and> last (join sep ps) = last (last ps)"
  by (induction sep ps rule: join.induct) auto

subsection \<open>Trimming\<close>

lemma dropWhile_id: "s = [] \<or> \<not> P (hd s) \<Longrightarrow> dropWhile P s = s"
  by (cases s) auto

lemma trim_id: "\<forall>c\<in>set s. \<not> js_space c \<Longrightarrow> trim s = s"
  unfolding trim_def
  by (metis dropWhile_id hd_in_set rev_rev_ident set_rev)

lemma set_trim: "set (trim s) \<subseteq> set s"
  by (auto simp: trim_def dest!: set_dropWhileD)

lemma length_trim_le: "length (trim s) \<le> length s"
proof -
  have "length (dropWhile js_space t) \<le> length t" for t
    by (simp add: length_dropWhile_le)
  from this [of "rev (dropWhile js_space s)"] this [of s] show ?thesis
    by (simp add: trim_def)
qed

lemma hd_dropWhile_not: "dropWhile P s \<noteq> [] \<Longrightarrow> \<not> P (hd (dropWhile P s))"
  by (rule hd_dropWhile)

lemma last_dropWhile: "dropWhile P s \<noteq> [] \<Longrightarrow> last (dropWhile P s) = last s"
  by (induction s) auto

lemma trim_trim [simp]: "trim (trim s) = trim s"
proof (cases "trim s = []")
  case False
  let ?u = "dropWhile js_space s"
  let ?v = "dropWhile js_space (rev ?u)"
  from False have v: "?v \<noteq> []" by (simp add: trim_def)
  then have u: "?u \<noteq> []" by (metis dropWhile.simps(1) rev.simps(1))
  have "\<not> js_space (hd (trim s))"
    using v u last_dropWhile [OF v] hd_dropWhile [OF u] by (simp add: trim_def hd_rev last_rev)
  moreover have "\<not> js_space (hd (rev (trim s)))"
    using hd_dropWhile [OF v] by (simp add: trim_def)
  ultimately show ?thesis
    by (simp add: trim_def [of "trim s"] dropWhile_id)
next
  case True
  moreover have "trim [] = []" by (simp add: trim_def)
  ultimately show ?thesis by simp
qed

subsection \<open>Digits\<close>

lemma digit_value_char [simp]: "d < 16 \<Longrightarrow> digit_value (digit_char d) = d"
  by (auto simp: digit_value_def digit_char_def)

lemma is_hex_digit_char: "d < 16 \<Longrightarrow> is_hex (digit_char d)"
  by (auto simp: is_hex_def digit_char_def)

lemma is_digit_digit_char: "d < 10 \<Longrightarrow> is_digit (digit_char d)"
  by (auto simp: is_digit_def digit_char_def)

lemma digit_value_less: "is_hex c \<Longrightarrow> digit_value c < 16"
  by (auto simp: is_hex_def digit_value_def)

lemma digit_value_less10: "is_digit c \<Longrightarrow> digit_value c < 10"
  by (auto simp: is_digit_def digit_value_def)

lemma is_hex_if_digit: "is_digit c \<Longrightarrow> is_hex c"
  by (auto simp: is_digit_def is_hex_def)

lemma parse_int_Nil [simp]: "parse_int b [] = 0"
  by (simp add: parse_int_def)

lemma parse_int_snoc: "parse_int b (s @ [c]) = b * parse_int b s + digit_value c"
  by (simp add: parse_int_def)

lemma parse_int_to_string:
  "2 \<le> b \<Longrightarrow> b \<le> 16 \<Longrightarrow> parse_int b (to_string b n) = n"
proof (induction b n rule: to_string.induct)
  case (1 b n)
  show ?case
  proof (cases "n < b")
    case True
    with 1 show ?thesis by (simp add: to_string.simps [of b n] parse_int_def)
  next
    case False
    from "1.prems" have "n mod b < 16"
      by (meson mod_less_divisor order_less_le_trans zero_less_numeral)
    with False 1 show ?thesis by (simp add: to_string.simps [of b n] parse_int_snoc)
  qed
qed

lemma to_string_not_Nil [simp]: "to_string b n \<noteq> []"
  by (simp add: to_string.simps [of b n])

lemma to_string_hex: "2 \<le> b \<Longrightarrow> b \<le> 16 \<Longrightarrow> c \<in> set (to_string b n) \<Longrightarrow> is_hex c"
proof (induction b n rule: to_string.induct)
  case (1 b n)
  have "n mod b < 16"
    using 1(2,3) by (meson mod_less_divisor order_less_le_trans zero_less_numeral)
  with 1 show ?case
    by (auto simp: to_string.simps [of b n] is_hex_digit_char split: if_splits)
qed

lemma to_string_digit: "c \<in> set (to_string 10 n) \<Longrightarrow> is_digit c"
proof (induction "10::nat" n rule: to_string.induct)
  case (1 n)
  then show ?case
    by (auto simp: to_string.simps [of 10 n] is_digit_digit_char split: if_splits)
qed

lemma to_string_length: "2 \<le> b \<Longrightarrow> n < b ^ Suc k \<Longrightarrow> length (to_string b n) \<le> Suc k"
proof (induction k arbitrary: n)
  case 0
  then show ?case by (simp add: to_string.simps [of b n])
next
  case (Suc k)
  then have "n div b < b ^ Suc k"
    by (simp add: less_mult_imp_div_less mult.commute)
  then have "length (to_string b (n div b)) \<le> Suc k" using Suc by simp
  then show ?case by (simp add: to_string.simps [of b n])
qed

text \<open>No leading zero: the first digit is \<open>0\<close> for \<open>0\<close> alone.\<close>

lemma to_string_hd:
  "2 \<le> b \<Longrightarrow> b \<le> 16 \<Longrightarrow> hd (to_string b n) = 48 \<longleftrightarrow> n = 0"
proof (induction b n rule: to_string.induct)
  case (1 b n)
  show ?case
  proof (cases "n < b")
    case True
    with 1 show ?thesis by (auto simp: to_string.simps [of b n] digit_char_def)
  next
    case False
    with 1 have "0 < n div b" by (simp add: div_greater_zero_iff)
    with False 1 show ?thesis by (auto simp: to_string.simps [of b n])
  qed
qed

lemma to_string_zero [simp]: "2 \<le> b \<Longrightarrow> to_string b 0 = [48]"
  by (simp add: to_string.simps [of b 0] digit_char_def)

lemma parse_int_less:
  assumes "\<forall>c\<in>set s. digit_value c < b"
  shows "parse_int b s < b ^ length s"
  using assms
proof (induction s rule: rev_induct)
  case (snoc c cs)
  then have "parse_int b cs + 1 \<le> b ^ length cs" by simp
  then have "b * (parse_int b cs + 1) \<le> b * b ^ length cs" by (rule mult_le_mono2)
  with snoc.prems show ?case by (simp add: parse_int_snoc algebra_simps)
qed simp

text \<open>The rounding bound as a literal, for evaluation.\<close>

lemma double_overflow_code [code]:
  "double_overflow =
     179769313486231580793728971405303415079934132710037826936173778980444968292764750946649017977587207096330286416692887910946555547851940402630657488671505820681908902000708383676273854845817711531764475730270069855571366959622842914819860834936475292719074168444365510704342711559699508093042880177904174497792"
  by (simp add: double_overflow_def)

lemma less_double_overflow: "n < 2 ^ 53 \<Longrightarrow> n < double_overflow"
  by (simp add: double_overflow_def)

subsection \<open>Bytes and 32-bit operators\<close>

lemma byte_at_less: "byte_at bs i < 256"
proof -
  have "unat (w :: 8 word) < 256" for w
    using unsigned_less [of w] by simp
  then show ?thesis by (simp add: byte_at_def)
qed

lemma js_and_less: "js_and a b < 2 ^ 32"
  using unsigned_less [of "(of_nat a :: 32 word) AND of_nat b"] by (simp add: js_and_def)

lemma js_and_low:
  assumes "a < 2 ^ 32" and "k \<le> 32"
  shows "js_and a (2 ^ k - 1) = a mod 2 ^ k"
proof -
  have a: "unat (of_nat a :: 32 word) = a"
    using assms(1) by (simp add: unat_of_nat)
  have "js_and a (2 ^ k - 1) = unat (take_bit k (of_nat a :: 32 word))"
    by (simp add: js_and_def take_bit_eq_mask mask_eq_exp_minus_1 of_nat_diff)
  also have "\<dots> = take_bit k a"
    by (simp add: unsigned_take_bit_eq a)
  finally show ?thesis by (simp add: take_bit_eq_mod)
qed

lemma js_ushr_div:
  assumes "a < 2 ^ 32" and "k < 32"
  shows "js_ushr a k = a div 2 ^ k"
proof -
  have "take_bit 32 a = a"
    using assms(1) by (simp add: take_bit_nat_eq_self_iff)
  then have "js_ushr a k = drop_bit k a"
    using assms(2) by (simp add: js_ushr_def unsigned_drop_bit_eq unsigned_of_nat)
  then show ?thesis by (simp add: drop_bit_eq_div)
qed

lemma push_bit_take_bit_and_eq_0: "push_bit k (a::nat) AND take_bit k b = 0"
  by (rule bit_eqI) (auto simp: bit_simps)

lemma js_or_shl8:
  assumes "a < 256" and "b < 256"
  shows "js_or (js_shl a 8) b = a * 256 + b"
proof -
  have s: "js_shl a 8 = a * 256"
    using assms(1) by (simp add: js_shl_def push_bit_eq_mult unat_word_ariths unat_of_nat)
  have "(of_nat (a * 256) :: 32 word) OR of_nat b = of_nat (a * 256) + of_nat b"
  proof -
    have "a * 256 = push_bit 8 a" "b = take_bit 8 b"
      using assms(2) by (simp_all add: push_bit_eq_mult take_bit_nat_eq_self)
    then have z: "a * 256 AND b = 0"
      using push_bit_take_bit_and_eq_0 [of 8 a b] by argo
    have "(of_nat (a * 256) :: 32 word) AND of_nat b = of_nat (a * 256 AND b)"
      by (rule of_nat_and_eq [symmetric])
    also have "\<dots> = 0"
      unfolding z by simp
    finally have "(of_nat (a * 256) :: 32 word) AND of_nat b = 0" .
    then show ?thesis by (simp add: disjunctive_add_eq_or)
  qed
  then have "js_or (a * 256) b = unat (of_nat (a * 256 + b) :: 32 word)"
    by (simp add: js_or_def)
  also have "\<dots> = a * 256 + b"
    using assms by (simp only: unat_of_nat) simp
  finally show ?thesis by (simp add: s)
qed

end
