(* ===== verification/AddressParse.thy ===== *)
theory AddressParse imports Prelude begin

section \<open>IPv4 and IPv6 literal parsers (broker/policy/address-parse.ts)\<close>

text \<open>
  The parsers of \<open>address-parse.ts\<close>: an IPv4 literal in every form \<open>inet_aton\<close> accepts as a
  packed number, an IPv6 literal as its sixteen bytes; \<open>None\<close> is the source's \<open>null\<close>.
  \<open>parseInt\<close> is exact below \<open>2 ^ 53\<close>; above it the double nearest to the value is still above
  every bound the code compares it with, and from \<open>double_overflow\<close> on it is \<open>Infinity\<close>,
  which the code turns into \<open>null\<close>.
\<close>

definition IPV4_MAX :: nat where
  "IPV4_MAX = 0xffffffff"

subsection \<open>The regular expressions\<close>

text \<open>\<open>/^0[xX][0-9a-fA-F]+$/\<close>, \<open>/^0[0-7]+$/\<close>, \<open>/^(0|[1-9][0-9]*)$/\<close>,
  \<open>/^(0|[1-9][0-9]{0,2})$/\<close> and \<open>/^[0-9a-fA-F]{1,4}$/\<close>.\<close>

definition re_hex :: "str \<Rightarrow> bool" where
  "re_hex text = (case text of c0 # c1 # ds \<Rightarrow>
     c0 = 48 \<and> (c1 = 120 \<or> c1 = 88) \<and> ds \<noteq> [] \<and> list_all is_hex ds | _ \<Rightarrow> False)"

definition re_octal :: "str \<Rightarrow> bool" where
  "re_octal text = (case text of c0 # ds \<Rightarrow> c0 = 48 \<and> ds \<noteq> [] \<and> list_all is_octal ds | _ \<Rightarrow> False)"

definition re_decimal :: "str \<Rightarrow> bool" where
  "re_decimal text = (case text of c0 # ds \<Rightarrow>
     (c0 = 48 \<and> ds = []) \<or> (49 \<le> c0 \<and> c0 \<le> 57 \<and> list_all is_digit ds) | _ \<Rightarrow> False)"

definition re_octet :: "str \<Rightarrow> bool" where
  "re_octet part \<longleftrightarrow> re_decimal part \<and> length part \<le> 3"

definition re_group :: "str \<Rightarrow> bool" where
  "re_group g \<longleftrightarrow> 1 \<le> length g \<and> length g \<le> 4 \<and> list_all is_hex g"

subsection \<open>IPv4\<close>

definition parseComponent :: "str \<Rightarrow> nat option" where
  "parseComponent text =
     (case (if re_hex text then Some (parse_int 16 (drop 2 text))
            else if re_octal text then Some (parse_int 8 (drop 1 text))
            else if re_decimal text then Some (parse_int 10 text)
            else None) of
        None \<Rightarrow> None
      | Some value \<Rightarrow> if value < double_overflow then Some value else None)"

text \<open>The loop that adds \<open>leading[i] * 2 ** (8 * (3 - i))\<close>.\<close>

fun place_leading :: "nat \<Rightarrow> nat list \<Rightarrow> nat" where
  "place_leading i [] = 0"
| "place_leading i (v # vs) = v * 2 ^ (8 * (3 - i)) + place_leading (Suc i) vs"

definition parseIpv4 :: "str \<Rightarrow> nat option" where
  "parseIpv4 text =
     (let parts = split_on 46 text in
      if length parts > 4 then None
      else (case those (map parseComponent parts) of
              None \<Rightarrow> None
            | Some vals \<Rightarrow>
                let lst = last vals;
                    leading = butlast vals;
                    lastBits = (5 - length vals) * 8;
                    lastMax = (if lastBits \<ge> 32 then IPV4_MAX else 2 ^ lastBits - 1)
                in if list_ex (\<lambda>value. value > 0xff) leading then None
                   else if lst > lastMax then None
                   else Some (place_leading 0 leading + lst)))"

subsection \<open>IPv6\<close>

fun quad_loop :: "nat \<Rightarrow> str list \<Rightarrow> nat option" where
  "quad_loop value [] = Some value"
| "quad_loop value (part # parts) =
     (if \<not> re_octet part then None
      else let octet = parse_int 10 part in
           if octet > 0xff then None else quad_loop (value * 0x100 + octet) parts)"

definition parseDottedQuad :: "str \<Rightarrow> nat option" where
  "parseDottedQuad text =
     (let parts = split_on 46 text in
      if length parts \<noteq> 4 then None else quad_loop 0 parts)"

text \<open>The words are returned instead of pushed on \<open>out\<close>; \<open>None\<close> is the source's \<open>false\<close>.\<close>

fun expandGroups :: "bool \<Rightarrow> str list \<Rightarrow> nat list option" where
  "expandGroups quadAllowed [] = Some []"
| "expandGroups quadAllowed (g # gs) =
     (if 46 \<in> set g then
        (if \<not> quadAllowed \<or> gs \<noteq> [] then None
         else (case parseDottedQuad g of
                 None \<Rightarrow> None
               | Some quad \<Rightarrow> Some [js_and (js_ushr quad 16) 0xffff, js_and quad 0xffff]))
      else if \<not> re_group g then None
      else map_option ((#) (parse_int 16 g)) (expandGroups quadAllowed gs))"

text \<open>\<open>new Uint8Array (16)\<close>, filled word by word, high byte first.\<close>

definition words_to_bytes :: "nat list \<Rightarrow> bytes" where
  "words_to_bytes ws = concat (map (\<lambda>w. [of_nat (w div 256), of_nat w]) ws)"

definition ipv6_halves :: "nat option \<Rightarrow> str \<Rightarrow> str list \<times> str list" where
  "ipv6_halves gap text =
     (let headText = (case gap of None \<Rightarrow> text | Some i \<Rightarrow> take i text);
          tailText = (case gap of None \<Rightarrow> [] | Some i \<Rightarrow> drop (i + 2) text)
      in (if headText = [] then [] else split_on 58 headText,
          if tailText = [] then [] else split_on 58 tailText))"

definition parseIpv6 :: "str \<Rightarrow> bytes option" where
  "parseIpv6 text =
     (if length text = 0 then None
      else if 58 \<notin> set text then None
      else let gap = index_of (js ''::'') text in
        if gap \<noteq> last_index_of (js ''::'') text then None
        else let (head, tail) = ipv6_halves gap text in
          if [] \<in> set head \<or> [] \<in> set tail then None
          else (case (expandGroups (gap = None) head,
                      expandGroups (gap \<noteq> None \<and> tail \<noteq> []) tail) of
              (Some headWords, Some tailWords) \<Rightarrow>
                let total = length headWords + length tailWords in
                if (if gap = None then total \<noteq> 8 else total > 7) then None
                else Some (words_to_bytes (headWords @ replicate (8 - total) 0 @ tailWords))
            | _ \<Rightarrow> None))"

section \<open>Bounds\<close>

lemma those_Some_length: "those xs = Some ys \<Longrightarrow> length ys = length xs"
  by (induction xs arbitrary: ys) (auto split: option.splits)

lemma those_map_Some_conv:
  "those (map f xs) = Some ys \<longleftrightarrow> map f xs = map Some ys"
  by (induction xs arbitrary: ys) (auto split: option.splits simp: Cons_eq_map_conv)

lemma place_leading_less:
  "\<forall>v\<in>set vs. v \<le> 0xff \<Longrightarrow> i + length vs \<le> 3 \<Longrightarrow>
     place_leading i vs + 2 ^ (8 * (4 - i - length vs)) \<le> 2 ^ (8 * (4 - i))"
proof (induction i vs rule: place_leading.induct)
  case (2 i v vs)
  have e: "(2::nat) ^ (8 * (4 - i)) = 256 * 2 ^ (8 * (3 - i))"
  proof -
    from 2 have "8 * (4 - i) = 8 + 8 * (3 - i)" by auto
    then show ?thesis by (simp add: power_add)
  qed
  have a: "v * 2 ^ (8 * (3 - i)) \<le> 255 * 2 ^ (8 * (3 - i))"
    using 2 by simp
  have b: "place_leading (Suc i) vs + 2 ^ (8 * (3 - i - length vs)) \<le> 2 ^ (8 * (3 - i))"
    using 2 by simp
  have k: "4 - i - length (v # vs) = 3 - i - length vs"
    by simp
  show ?case
    using a b unfolding e place_leading.simps k by linarith
qed simp

text \<open>Whatever is parsed fits 32 bits: the arithmetic never leaves the range the table
  compares against.\<close>

lemma parseIpv4_le:
  assumes "parseIpv4 text = Some v"
  shows "v \<le> IPV4_MAX"
proof -
  from assms obtain vs where vs: "those (map parseComponent (split_on 46 text)) = Some vs"
    and len: "length (split_on 46 text) \<le> 4"
    and lead: "\<forall>x\<in>set (butlast vs). x \<le> 255"
    and lst: "last vs \<le> (if (5 - length vs) * 8 \<ge> 32 then IPV4_MAX else 2 ^ ((5 - length vs) * 8) - 1)"
    and v: "v = place_leading 0 (butlast vs) + last vs"
    by (auto simp: parseIpv4_def Let_def list_ex_iff not_less split: if_splits option.splits)
  from vs len have n: "1 \<le> length vs" "length vs \<le> 4"
    by (auto dest!: those_Some_length) (metis One_nat_def length_split_on_pos less_eq_Suc_le)
  have "place_leading 0 (butlast vs) + 2 ^ (8 * (4 - 0 - length (butlast vs))) \<le> 2 ^ (8 * (4 - 0))"
    using lead n by (intro place_leading_less) auto
  moreover have "last vs < 2 ^ (8 * (4 - length (butlast vs)))"
  proof (cases "length vs = 1")
    case True
    with lst show ?thesis by (simp add: IPV4_MAX_def)
  next
    case False
    with n have small: "\<not> 32 \<le> (5 - length vs) * 8"
      and e: "8 * (4 - length (butlast vs)) = (5 - length vs) * 8"
      by auto
    have "last vs \<le> 2 ^ ((5 - length vs) * 8) - 1" using lst small by presburger
    moreover have "0 < (2::nat) ^ ((5 - length vs) * 8)" by simp
    ultimately show ?thesis unfolding e by linarith
  qed
  ultimately show ?thesis
    unfolding v IPV4_MAX_def by simp
qed

lemma length_words_to_bytes [simp]: "length (words_to_bytes ws) = 2 * length ws"
  by (induction ws) (auto simp: words_to_bytes_def)

lemma parseIpv6_length: "parseIpv6 text = Some bs \<Longrightarrow> length bs = 16"
  by (auto simp: parseIpv6_def Let_def split: if_splits option.splits prod.splits)

end
