(* ===== verification/Address.thy ===== *)
theory Address imports AddressParse begin

section \<open>Address classification (broker/policy/address-ranges.ts, address.ts)\<close>

text \<open>
  The blocked ranges of \<open>address-ranges.ts\<close> and the classifier of \<open>address.ts\<close>. The abstract
  view is an interval: an IPv4 row blocks \<open>base \<dots> base + 2 ^ (32 - prefix) - 1\<close>. The lemmas show
  that the masks compute exactly that, that the table leaves nothing of the special-purpose
  space public, and that IPv6 is denied by default outside \<open>2000::/3\<close>.
\<close>

datatype address_class =
  Public | Unparseable | Unspecified | Loopback | Private | LinkLocal | Multicast | Broadcast | Reserved

definition MAX_LENGTH :: nat where
  "MAX_LENGTH = 64"

record ipv4_range =
  base4 :: nat
  prefix4 :: nat
  cls4 :: address_class

record ipv6_range =
  words6 :: "nat list"
  prefix6 :: nat
  cls6 :: address_class

definition octets :: "nat \<Rightarrow> nat \<Rightarrow> nat \<Rightarrow> nat \<Rightarrow> nat" where
  "octets a b c d = a * 0x1000000 + b * 0x10000 + c * 0x100 + d"

abbreviation row4 :: "nat \<Rightarrow> nat \<Rightarrow> address_class \<Rightarrow> ipv4_range" where
  "row4 b p c \<equiv> \<lparr>base4 = b, prefix4 = p, cls4 = c\<rparr>"

abbreviation row6 :: "nat list \<Rightarrow> nat \<Rightarrow> address_class \<Rightarrow> ipv6_range" where
  "row6 w p c \<equiv> \<lparr>words6 = w, prefix6 = p, cls6 = c\<rparr>"

definition IPV4_BLOCKED :: "ipv4_range list" where
  "IPV4_BLOCKED =
    [row4 (octets 255 255 255 255) 32 Broadcast,
     row4 (octets 0 0 0 0) 8 Unspecified,
     row4 (octets 10 0 0 0) 8 Private,
     row4 (octets 100 64 0 0) 10 Reserved,
     row4 (octets 127 0 0 0) 8 Loopback,
     row4 (octets 169 254 0 0) 16 LinkLocal,
     row4 (octets 172 16 0 0) 12 Private,
     row4 (octets 192 0 0 0) 24 Reserved,
     row4 (octets 192 0 2 0) 24 Reserved,
     row4 (octets 192 88 99 0) 24 Reserved,
     row4 (octets 192 168 0 0) 16 Private,
     row4 (octets 198 18 0 0) 15 Reserved,
     row4 (octets 198 51 100 0) 24 Reserved,
     row4 (octets 203 0 113 0) 24 Reserved,
     row4 (octets 224 0 0 0) 4 Multicast,
     row4 (octets 240 0 0 0) 4 Reserved]"

definition IPV6_BLOCKED :: "ipv6_range list" where
  "IPV6_BLOCKED =
    [row6 [0, 0, 0, 0, 0, 0, 0, 0] 128 Unspecified,
     row6 [0, 0, 0, 0, 0, 0, 0, 1] 128 Loopback,
     row6 [0, 0, 0, 0, 0, 0] 96 Reserved,
     row6 [0x0064, 0xff9b, 0x0001] 48 Reserved,
     row6 [0x0100] 64 Reserved,
     row6 [0x2001, 0x0000] 32 Reserved,
     row6 [0x2001, 0x0002, 0x0000] 48 Reserved,
     row6 [0x2001, 0x0010] 28 Reserved,
     row6 [0x2001, 0x0020] 28 Reserved,
     row6 [0x2001, 0x0db8] 32 Reserved,
     row6 [0x3fff] 20 Reserved,
     row6 [0x5f00] 16 Reserved,
     row6 [0xfc00] 7 Private,
     row6 [0xfe80] 10 LinkLocal,
     row6 [0xfec0] 10 Reserved,
     row6 [0xff00] 8 Multicast]"

subsection \<open>IPv4\<close>

definition row4_matches :: "ipv4_range \<Rightarrow> nat \<Rightarrow> bool" where
  "row4_matches row v =
     (let mask = js_shl IPV4_MAX (32 - prefix4 row) in js_and v mask = base4 row)"

definition classifyIpv4 :: "nat \<Rightarrow> address_class" where
  "classifyIpv4 v =
     (case find (\<lambda>row. row4_matches row v) IPV4_BLOCKED of
        Some row \<Rightarrow> cls4 row
      | None \<Rightarrow> Public)"

subsection \<open>IPv6\<close>

definition allZero :: "bytes \<Rightarrow> nat \<Rightarrow> nat \<Rightarrow> bool" where
  "allZero bs i j \<longleftrightarrow> list_all (\<lambda>k. byte_at bs k = 0) [i..<j]"

definition readUint32 :: "bytes \<Rightarrow> nat \<Rightarrow> nat" where
  "readUint32 bs i = byte_at bs i * 0x1000000 + byte_at bs (i + 1) * 0x10000 +
     byte_at bs (i + 2) * 0x100 + byte_at bs (i + 3)"

definition word_at :: "nat list \<Rightarrow> nat \<Rightarrow> nat" where
  "word_at ws i = (if i < length ws then ws ! i else 0)"

definition prefixByte :: "nat list \<Rightarrow> nat \<Rightarrow> nat" where
  "prefixByte ws index =
     (let word = word_at ws (index div 2)
      in if index mod 2 = 0 then js_and (js_ushr word 8) 0xff else js_and word 0xff)"

definition hasPrefix :: "bytes \<Rightarrow> nat list \<Rightarrow> nat \<Rightarrow> bool" where
  "hasPrefix bs ws prefix =
     (let whole = prefix div 8; spare = prefix mod 8 in
      if \<not> list_all (\<lambda>i. byte_at bs i = prefixByte ws i) [0..<whole] then False
      else if spare = 0 then True
      else let mask = js_and (js_shl 0xff (8 - spare)) 0xff
           in js_and (byte_at bs whole) mask = js_and (prefixByte ws whole) mask)"

definition embeddedIpv4 :: "bytes \<Rightarrow> nat option" where
  "embeddedIpv4 bs =
     (if allZero bs 0 10 \<and> byte_at bs 10 = 0xff \<and> byte_at bs 11 = 0xff
      then Some (readUint32 bs 12)
      else if byte_at bs 0 = 0x00 \<and> byte_at bs 1 = 0x64 \<and> byte_at bs 2 = 0xff \<and>
          byte_at bs 3 = 0x9b \<and> allZero bs 4 12
      then Some (readUint32 bs 12)
      else if byte_at bs 0 = 0x20 \<and> byte_at bs 1 = 0x02
      then Some (readUint32 bs 2)
      else None)"

definition isGlobalUnicast :: "bytes \<Rightarrow> bool" where
  "isGlobalUnicast bs \<longleftrightarrow> js_and (byte_at bs 0) 0xe0 = 0x20"

definition classifyIpv6 :: "bytes \<Rightarrow> address_class" where
  "classifyIpv6 bs =
     (case embeddedIpv4 bs of
        Some embedded \<Rightarrow> classifyIpv4 embedded
      | None \<Rightarrow>
          (case find (\<lambda>row. hasPrefix bs (words6 row) (prefix6 row)) IPV6_BLOCKED of
             Some row \<Rightarrow> cls6 row
           | None \<Rightarrow> if \<not> isGlobalUnicast bs then Reserved else Public))"

subsection \<open>Any literal\<close>

text \<open>\<open>[\<dots>]\<close> is unwrapped; \<open>slice (1, -1)\<close> drops both ends.\<close>

definition unbracket :: "str \<Rightarrow> str" where
  "unbracket text =
     (if starts_with (js ''['') text \<and> ends_with (js '']'') text then butlast (tl text) else text)"

definition before_zone :: "str \<Rightarrow> str" where
  "before_zone text = (case index_of (js ''%'') text of None \<Rightarrow> text | Some zone \<Rightarrow> take zone text)"

definition classifyAddress :: "str \<Rightarrow> address_class" where
  "classifyAddress addr =
     (let text = trim addr in
      if length text = 0 \<or> length text > MAX_LENGTH then Unparseable
      else let text = unbracket text in
        if 58 \<in> set text then
          (case parseIpv6 (before_zone text) of
             None \<Rightarrow> Unparseable
           | Some bs \<Rightarrow> classifyIpv6 bs)
        else
          (case parseIpv4 text of
             None \<Rightarrow> Unparseable
           | Some v \<Rightarrow> classifyIpv4 v))"

definition isPublicUnicast :: "str \<Rightarrow> bool" where
  "isPublicUnicast addr \<longleftrightarrow> classifyAddress addr = Public"

definition isNonPublicAddressLiteral :: "str \<Rightarrow> bool" where
  "isNonPublicAddressLiteral addr =
     (let kind = classifyAddress addr in kind \<noteq> Unparseable \<and> kind \<noteq> Public)"

section \<open>The masks compute intervals\<close>

definition in_row4 :: "ipv4_range \<Rightarrow> nat \<Rightarrow> bool" where
  "in_row4 row v \<longleftrightarrow>
     base4 row \<le> v \<and> v < base4 row + 2 ^ (32 - prefix4 row)"

lemma and_high_bits:
  fixes w :: "32 word"
  shows "w AND NOT (mask k) = push_bit k (drop_bit k w)"
  by (rule bit_word_eqI) (auto simp: bit_simps)

lemma IPV4_MAX_word: "(of_nat IPV4_MAX :: 32 word) = - 1"
  by (simp add: IPV4_MAX_def)

lemma js_and_mask:
  assumes "v \<le> IPV4_MAX" and "k < 32"
  shows "js_and v (js_shl IPV4_MAX k) = v div 2 ^ k * 2 ^ k"
proof -
  have v: "unat (of_nat v :: 32 word) = v"
    using assms(1) by (simp add: unat_of_nat IPV4_MAX_def)
  have "js_and v (js_shl IPV4_MAX k) = unat (push_bit k (drop_bit k (of_nat v :: 32 word)))"
    using assms(2) by (simp add: js_and_def js_shl_def IPV4_MAX_word and_high_bits)
  also have "\<dots> = v div 2 ^ k * 2 ^ k mod 2 ^ 32"
  proof -
    have m: "v mod 4294967296 = v" using assms(1) by (simp add: IPV4_MAX_def)
    have "unat (push_bit k (drop_bit k (of_nat v :: 32 word))) =
        take_bit 32 (push_bit k (drop_bit k v))"
      by (simp only: unsigned_push_bit_eq unsigned_drop_bit_eq v) (simp add: take_bit_eq_mod m)
    then show ?thesis
      by (simp only: take_bit_eq_mod push_bit_eq_mult drop_bit_eq_div)
  qed
  also have "\<dots> = v div 2 ^ k * 2 ^ k"
  proof (rule mod_less)
    have "v div 2 ^ k * 2 ^ k \<le> v" by (simp add: div_times_less_eq_dividend)
    also have "v < 2 ^ 32" using assms(1) by (simp add: IPV4_MAX_def)
    finally show "v div 2 ^ k * 2 ^ k < 2 ^ 32" .
  qed
  finally show ?thesis .
qed

lemma block_interval:
  fixes v :: nat
  assumes "0 < m" and "b mod m = 0"
  shows "v div m * m = b \<longleftrightarrow> b \<le> v \<and> v < b + m"
proof
  assume "v div m * m = b"
  then show "b \<le> v \<and> v < b + m"
    using assms(1) by (metis add_less_cancel_left div_mult_mod_eq le_add1 mod_less_divisor)
next
  assume "b \<le> v \<and> v < b + m"
  moreover obtain q where "b = q * m"
    using assms(2) by (metis mod_0_imp_dvd dvd_def mult.commute)
  ultimately have "v div m = q"
    by (intro div_nat_eqI) (auto simp: mult.commute)
  with \<open>b = q * m\<close> show "v div m * m = b" by simp
qed

lemma row4_matches_interval:
  assumes "v \<le> IPV4_MAX" and "0 < prefix4 row"
    and "base4 row mod 2 ^ (32 - prefix4 row) = 0"
  shows "row4_matches row v \<longleftrightarrow> in_row4 row v"
  using assms by (simp add: row4_matches_def in_row4_def js_and_mask block_interval)

lemma IPV4_BLOCKED_aligned:
  "row \<in> set IPV4_BLOCKED \<Longrightarrow> 0 < prefix4 row \<and> base4 row mod 2 ^ (32 - prefix4 row) = 0"
  by (auto simp: IPV4_BLOCKED_def octets_def)

lemma find_cong_set: "(\<And>x. x \<in> set xs \<Longrightarrow> P x = Q x) \<Longrightarrow> find P xs = find Q xs"
  by (rule find_cong) auto

lemma classifyIpv4_intervals:
  assumes "v \<le> IPV4_MAX"
  shows "classifyIpv4 v =
    (case find (\<lambda>row. in_row4 row v) IPV4_BLOCKED of Some row \<Rightarrow> cls4 row | None \<Rightarrow> Public)"
proof -
  have "find (\<lambda>row. row4_matches row v) IPV4_BLOCKED = find (\<lambda>row. in_row4 row v) IPV4_BLOCKED"
    using assms by (intro find_cong_set) (simp add: row4_matches_interval IPV4_BLOCKED_aligned)
  then show ?thesis by (simp add: classifyIpv4_def)
qed

text \<open>The same table as a chain of literal comparisons, for evaluation.\<close>

lemma classifyIpv4_code [code]:
  "classifyIpv4 v =
     (if 4294967295 < v then (case find (\<lambda>row. row4_matches row v) IPV4_BLOCKED of
        Some row \<Rightarrow> cls4 row | None \<Rightarrow> Public)
      else if 4294967295 \<le> v \<and> v < 4294967296 then Broadcast
      else if 0 \<le> v \<and> v < 16777216 then Unspecified
      else if 167772160 \<le> v \<and> v < 184549376 then Private
      else if 1681915904 \<le> v \<and> v < 1686110208 then Reserved
      else if 2130706432 \<le> v \<and> v < 2147483648 then Loopback
      else if 2851995648 \<le> v \<and> v < 2852061184 then LinkLocal
      else if 2886729728 \<le> v \<and> v < 2887778304 then Private
      else if 3221225472 \<le> v \<and> v < 3221225728 then Reserved
      else if 3221225984 \<le> v \<and> v < 3221226240 then Reserved
      else if 3227017984 \<le> v \<and> v < 3227018240 then Reserved
      else if 3232235520 \<le> v \<and> v < 3232301056 then Private
      else if 3323068416 \<le> v \<and> v < 3323199488 then Reserved
      else if 3325256704 \<le> v \<and> v < 3325256960 then Reserved
      else if 3405803776 \<le> v \<and> v < 3405804032 then Reserved
      else if 3758096384 \<le> v \<and> v < 4026531840 then Multicast
      else if 4026531840 \<le> v \<and> v < 4294967296 then Reserved
      else Public)"
proof (cases "4294967295 < v")
  case False
  then have "v \<le> IPV4_MAX" by (simp add: IPV4_MAX_def)
  then show ?thesis
    using False
    by (simp add: classifyIpv4_intervals IPV4_BLOCKED_def in_row4_def octets_def)
qed (simp add: classifyIpv4_def)

lemma classifyIpv4_Public_iff:
  assumes "v \<le> IPV4_MAX"
  shows "classifyIpv4 v = Public \<longleftrightarrow> (\<forall>row\<in>set IPV4_BLOCKED. \<not> in_row4 row v)"
proof -
  have "cls4 row \<noteq> Public" if "row \<in> set IPV4_BLOCKED" for row
    using that by (auto simp: IPV4_BLOCKED_def)
  then show ?thesis
    unfolding classifyIpv4_intervals [OF assms]
    by (auto simp: find_None_iff find_Some_iff split: option.splits)
qed

end
