(* ===== verification/AddressFormat.thy ===== *)
theory AddressFormat imports Address begin

section \<open>Canonical spelling of an address (broker/policy/address.ts)\<close>

text \<open>
  \<open>formatIpv4\<close>, \<open>formatIpv6\<close> and \<open>canonicalAddress\<close>. The lemmas are the round trips: parsing what
  the formatter printed gives the value back, so a canonical address is its own canonical
  form and denotes the address it was made from.
\<close>

definition formatIpv4 :: "nat \<Rightarrow> str" where
  "formatIpv4 v =
     join (js ''.'')
       [to_string 10 (js_and (js_ushr v 24) 0xff), to_string 10 (js_and (js_ushr v 16) 0xff),
        to_string 10 (js_and (js_ushr v 8) 0xff), to_string 10 (js_and v 0xff)]"

definition words_of_bytes :: "bytes \<Rightarrow> nat list" where
  "words_of_bytes bs =
     map (\<lambda>i. js_or (js_shl (byte_at bs (i * 2)) 8) (byte_at bs (i * 2 + 1))) [0..<8]"

text \<open>The loop over the words: \<open>i\<close> counts up, the four variables of the source are passed on,
  \<open>-1\<close> is no run.\<close>

fun zero_run :: "nat \<Rightarrow> nat list \<Rightarrow> int \<Rightarrow> nat \<Rightarrow> int \<Rightarrow> nat \<Rightarrow> int \<times> nat" where
  "zero_run i [] bestStart bestLen runStart runLen = (bestStart, bestLen)"
| "zero_run i (w # ws) bestStart bestLen runStart runLen =
     (if w = 0 then
        let runStart' = (if runStart = -1 then int i else runStart);
            runLen' = runLen + 1
        in if runLen' > bestLen then zero_run (i + 1) ws runStart' runLen' runStart' runLen'
           else zero_run (i + 1) ws bestStart bestLen runStart' runLen'
      else zero_run (i + 1) ws bestStart bestLen (-1) 0)"

definition formatIpv6 :: "bytes \<Rightarrow> str" where
  "formatIpv6 bs =
     (if allZero bs 0 10 \<and> byte_at bs 10 = 0xff \<and> byte_at bs 11 = 0xff
      then js ''::ffff:'' @ formatIpv4 (readUint32 bs 12)
      else let ws = words_of_bytes bs;
               (bestStart, bestLen) = zero_run 0 ws (-1) 0 (-1) 0;
               hex = map (to_string 16) ws
           in if bestLen < 2 then join (js '':'') hex
              else join (js '':'') (take (nat bestStart) hex) @ js ''::'' @
                   join (js '':'') (drop (nat bestStart + bestLen) hex))"

definition canonicalAddress :: "str \<Rightarrow> str option" where
  "canonicalAddress addr =
     (let text = trim addr in
      if length text = 0 \<or> length text > MAX_LENGTH then None
      else let text = unbracket text in
        if 58 \<in> set text then
          if 37 \<in> set text then None
          else map_option formatIpv6 (parseIpv6 text)
        else map_option formatIpv4 (parseIpv4 text))"

section \<open>The IPv4 round trip\<close>

definition octet_list :: "nat \<Rightarrow> nat list" where
  "octet_list v = [v div 16777216 mod 256, v div 65536 mod 256, v div 256 mod 256, v mod 256]"

lemma formatIpv4_octets:
  assumes "v \<le> IPV4_MAX"
  shows "formatIpv4 v = join [46] (map (to_string 10) (octet_list v))"
proof -
  have b: "v < 2 ^ 32" using assms by (simp add: IPV4_MAX_def)
  have l: "js_and a 255 = a mod 256" if "a < 2 ^ 32" for a
    using js_and_low [of a 8] that by simp
  have d: "v div 2 ^ k < 2 ^ 32" for k
    using b by (meson div_le_dividend le_less_trans)
  show ?thesis
    using b d [of 24] d [of 16] d [of 8]
    by (simp add: formatIpv4_def octet_list_def l js_ushr_div)
qed

lemma octet_list_less: "x \<in> set (octet_list v) \<Longrightarrow> x < 256"
  by (auto simp: octet_list_def)

lemma to_string_decimal_form:
  "re_decimal (to_string 10 n) \<and> \<not> re_octal (to_string 10 n) \<and> \<not> re_hex (to_string 10 n)"
proof (cases "n = 0")
  case True
  then show ?thesis by (simp add: re_decimal_def re_octal_def re_hex_def)
next
  case False
  obtain c cs where t: "to_string 10 n = c # cs" by (cases "to_string 10 n") auto
  have "c \<noteq> 48" using to_string_hd [of 10 n] False t by simp
  moreover have "\<forall>x\<in>set (c # cs). is_digit x" using to_string_digit [of _ n] t by auto
  ultimately show ?thesis
    unfolding t by (auto simp: re_decimal_def re_octal_def re_hex_def list_all_iff is_digit_def split: list.splits)
qed

lemma parseComponent_to_string:
  "n < 2 ^ 53 \<Longrightarrow> parseComponent (to_string 10 n) = Some n"
  using to_string_decimal_form [of n]
  by (simp add: parseComponent_def parse_int_to_string less_double_overflow)

lemma decimal_no_char: "c \<in> set (to_string 10 n) \<Longrightarrow> 48 \<le> c \<and> c \<le> 57"
  using to_string_digit by (auto simp: is_digit_def)

lemma split_formatIpv4:
  assumes "v \<le> IPV4_MAX"
  shows "split_on 46 (formatIpv4 v) = map (to_string 10) (octet_list v)"
  unfolding formatIpv4_octets [OF assms]
  by (rule split_on_join) (auto simp: octet_list_def dest: decimal_no_char)

lemma octet_list_value:
  assumes "v \<le> IPV4_MAX"
  obtains a b c d where "octet_list v = [a, b, c, d]" "a < 256" "b < 256" "c < 256" "d < 256"
    "v = a * 16777216 + b * 65536 + c * 256 + d"
proof -
  have v: "v < 4294967296" using assms by (simp add: IPV4_MAX_def)
  define p q r where "p = v div 256" and "q = p div 256" and "r = q div 256"
  have e: "v div 65536 = q" "v div 16777216 = r"
    by (simp_all add: p_def q_def r_def flip: div_mult2_eq)
  have "r < 256" unfolding e(2) [symmetric] using v by (simp add: less_mult_imp_div_less)
  moreover have "v = p * 256 + v mod 256" "p = q * 256 + p mod 256" "q = r * 256 + q mod 256"
    by (simp_all add: p_def q_def r_def)
  ultimately have "v = r * 16777216 + q mod 256 * 65536 + p mod 256 * 256 + v mod 256"
    by linarith
  moreover have "octet_list v = [r, q mod 256, p mod 256, v mod 256]"
    using \<open>r < 256\<close> by (simp add: octet_list_def e p_def)
  ultimately show ?thesis
    using that [of r "q mod 256" "p mod 256" "v mod 256"] \<open>r < 256\<close> by simp
qed

lemma those_map_Some [simp]: "those (map Some xs) = Some xs"
  by (induction xs) auto

lemma parse_formatIpv4:
  assumes "v \<le> IPV4_MAX"
  shows "parseIpv4 (formatIpv4 v) = Some v"
proof (rule octet_list_value [OF assms])
  fix a b c d
  assume o: "octet_list v = [a, b, c, d]" "a < 256" "b < 256" "c < 256" "d < 256"
    and v: "v = a * 16777216 + b * 65536 + c * 256 + d"
  have s: "split_on 46 (formatIpv4 v) = map (to_string 10) [a, b, c, d]"
    using split_formatIpv4 [OF assms] o(1) by simp
  have "those (map parseComponent (map (to_string 10) [a, b, c, d])) = Some [a, b, c, d]"
    using o by (simp add: parseComponent_to_string)
  then show ?thesis
    unfolding parseIpv4_def Let_def s using o(2-) by (simp add: v del: those.simps)
qed

lemma quad_formatIpv4:
  assumes "v \<le> IPV4_MAX"
  shows "parseDottedQuad (formatIpv4 v) = Some v"
proof (rule octet_list_value [OF assms])
  fix a b c d
  assume o: "octet_list v = [a, b, c, d]" "a < 256" "b < 256" "c < 256" "d < 256"
    and v: "v = a * 16777216 + b * 65536 + c * 256 + d"
  have s: "split_on 46 (formatIpv4 v) = map (to_string 10) [a, b, c, d]"
    using split_formatIpv4 [OF assms] o(1) by simp
  have "re_octet (to_string 10 n)" if "n < 256" for n
    using to_string_length [of 10 n 2] that to_string_decimal_form [of n] by (simp add: re_octet_def)
  then show ?thesis
    unfolding parseDottedQuad_def Let_def s using o(2-) v by (simp add: parse_int_to_string Let_def)
qed

lemma formatIpv4_chars: "v \<le> IPV4_MAX \<Longrightarrow> c \<in> set (formatIpv4 v) \<Longrightarrow> c = 46 \<or> (48 \<le> c \<and> c \<le> 57)"
  unfolding formatIpv4_octets using set_join_subset [of "[46]" "map (to_string 10) (octet_list v)"]
  by (auto dest!: decimal_no_char)

lemma formatIpv4_length: "v \<le> IPV4_MAX \<Longrightarrow> 0 < length (formatIpv4 v) \<and> length (formatIpv4 v) \<le> 16"
proof -
  assume v: "v \<le> IPV4_MAX"
  have "\<forall>p\<in>set (map (to_string 10) (octet_list v)). length p \<le> 3"
    using to_string_length [of 10 _ 2] octet_list_less [of _ v] by fastforce
  from length_join_le [OF this, of 46] show ?thesis
    unfolding formatIpv4_octets [OF v] by (simp add: octet_list_def)
qed

section \<open>The IPv6 round trip\<close>

subsection \<open>The longest run of zero words\<close>

text \<open>What the loop has found after reading \<open>ws\<close>: \<open>(st, n)\<close> is a run of zeros of \<open>ws\<close>.\<close>

definition is_zero_run :: "nat list \<Rightarrow> nat \<Rightarrow> nat \<Rightarrow> bool" where
  "is_zero_run ws st n \<longleftrightarrow> st + n \<le> length ws \<and> (\<forall>k<n. ws ! (st + k) = 0)"

definition run_state :: "nat list \<Rightarrow> int \<Rightarrow> nat \<Rightarrow> int \<Rightarrow> nat \<Rightarrow> bool" where
  "run_state ws bs bl rs rl \<longleftrightarrow>
     (bl = 0 \<or> (0 \<le> bs \<and> is_zero_run ws (nat bs) bl)) \<and>
     (if rs = -1 then rl = 0 else 0 \<le> rs \<and> nat rs + rl = length ws \<and> is_zero_run ws (nat rs) rl) \<and>
     (rs = -1 \<longrightarrow> ws = [] \<or> last ws \<noteq> 0) \<and>
     (rs \<noteq> -1 \<longrightarrow> nat rs = 0 \<or> ws ! (nat rs - 1) \<noteq> 0) \<and>
     rl \<le> bl \<and>
     (\<forall>st n. 0 < n \<longrightarrow> is_zero_run ws st n \<longrightarrow> n < bl \<or> (n = bl \<and> nat bs \<le> st))"

lemma is_zero_run_append: "is_zero_run ws st n \<Longrightarrow> is_zero_run (ws @ us) st n"
  by (auto simp: is_zero_run_def nth_append)

lemma is_zero_run_snoc:
  "is_zero_run (ws @ [w]) st n \<Longrightarrow> st + n \<le> length ws \<Longrightarrow> is_zero_run ws st n"
  by (auto simp: is_zero_run_def nth_append)

lemma run_state_nonzero:
  assumes "run_state ws bs bl rs rl" and "w \<noteq> 0"
  shows "run_state (ws @ [w]) bs bl (-1) 0"
proof -
  have "is_zero_run ws st n" if "is_zero_run (ws @ [w]) st n" "0 < n" for st n
  proof (rule is_zero_run_snoc [OF that(1)], rule ccontr)
    assume "\<not> st + n \<le> length ws"
    with that have "st + (n - 1) = length ws" by (auto simp: is_zero_run_def)
    moreover have "(ws @ [w]) ! (st + (n - 1)) = 0"
      using that unfolding is_zero_run_def by (metis diff_less less_one)
    ultimately show False using assms(2) by simp
  qed
  then show ?thesis
    using assms is_zero_run_append [of ws "nat bs" bl "[w]"] unfolding run_state_def by auto
qed

text \<open>With the run that ends here: \<open>(nat rs, rl)\<close> is the whole of the zeros at the end of \<open>ws\<close>.\<close>

lemma run_at_end:
  assumes "is_zero_run ws (nat rs) rl" and "nat rs + rl = length ws"
    and "nat rs = 0 \<or> ws ! (nat rs - 1) \<noteq> 0"
    and "is_zero_run ws st n" and "st + n = length ws" and "0 < n"
  shows "nat rs \<le> st"
proof (rule ccontr)
  assume "\<not> nat rs \<le> st"
  then have "nat rs - 1 - st < n" and "st + (nat rs - 1 - st) = nat rs - 1" and "nat rs \<noteq> 0"
    using assms(2,5) by auto
  then have "ws ! (nat rs - 1) = 0"
    using assms(4) unfolding is_zero_run_def by metis
  with \<open>nat rs \<noteq> 0\<close> assms(3) show False by simp
qed

lemma run_state_zero:
  assumes r: "run_state ws bs bl rs rl"
    and rs': "rs' = (if rs = -1 then int (length ws) else rs)"
  shows "run_state (ws @ [0]) (if rl + 1 > bl then rs' else bs) (max bl (rl + 1)) rs' (rl + 1)"
proof -
  let ?u = "ws @ [0]"
  have len: "nat rs' + (rl + 1) = length ?u" and pos: "0 \<le> rs'"
    using r rs' by (auto simp: run_state_def split: if_splits)
  have cur: "is_zero_run ?u (nat rs') (rl + 1)"
    using r rs' by (auto simp: run_state_def is_zero_run_def nth_append less_Suc_eq split: if_splits)
  have before: "nat rs' = 0 \<or> ?u ! (nat rs' - 1) \<noteq> 0"
    using r rs' len by (cases "ws = []") (auto simp: run_state_def nth_append last_conv_nth split: if_splits)
  have old: "n < bl \<or> (n = bl \<and> nat bs \<le> st)"
    if "is_zero_run ?u st n" "0 < n" "st + n \<le> length ws" for st n
    using r is_zero_run_snoc [OF that(1,3)] that(2) by (auto simp: run_state_def)
  have new: "n \<le> rl + 1 \<and> nat rs' \<le> st"
    if "is_zero_run ?u st n" "0 < n" "\<not> st + n \<le> length ws" for st n
  proof -
    have e: "st + n = length ?u" using that by (auto simp: is_zero_run_def)
    with run_at_end [OF cur len before that(1) e that(2)] len show ?thesis by auto
  qed
  have best: "bl = 0 \<or> (0 \<le> bs \<and> is_zero_run ws (nat bs) bl)" and le: "rl \<le> bl"
    using r by (auto simp: run_state_def)
  have fit: "nat bs + bl \<le> length ws" if "bl \<noteq> 0"
    using best that by (auto simp: is_zero_run_def)
  show ?thesis
    unfolding run_state_def
  proof (intro conjI)
    show "\<forall>st n. 0 < n \<longrightarrow> is_zero_run ?u st n \<longrightarrow>
        n < max bl (rl + 1) \<or> n = max bl (rl + 1) \<and> nat (if rl + 1 > bl then rs' else bs) \<le> st"
    proof (intro allI impI)
      fix st n assume n: "0 < n" "is_zero_run ?u st n"
      show "n < max bl (rl + 1) \<or> n = max bl (rl + 1) \<and> nat (if rl + 1 > bl then rs' else bs) \<le> st"
      proof (cases "st + n \<le> length ws")
        case True
        with old [OF n(2,1)] show ?thesis by auto
      next
        case False
        with new [OF n(2,1)] fit len show ?thesis by (cases "rl + 1 > bl") auto
      qed
    qed
  qed (use cur len pos before best le in \<open>auto intro: is_zero_run_append\<close>)
qed

lemma zero_run_state:
  "run_state us bs bl rs rl \<Longrightarrow> zero_run (length us) ws bs bl rs rl = (b, l) \<Longrightarrow>
     \<exists>rs' rl'. run_state (us @ ws) b l rs' rl'"
proof (induction ws arbitrary: us bs bl rs rl)
  case Nil
  then show ?case by auto
next
  case (Cons w ws)
  show ?case
  proof (cases "w = 0")
    case True
    define rs' where "rs' = (if rs = -1 then int (length us) else rs)"
    have "run_state (us @ [0]) (if rl + 1 > bl then rs' else bs) (max bl (rl + 1)) rs' (rl + 1)"
      using run_state_zero [OF Cons.prems(1) rs'_def] .
    moreover have "zero_run (length (us @ [0])) ws (if rl + 1 > bl then rs' else bs)
        (max bl (rl + 1)) rs' (rl + 1) = (b, l)"
      using Cons.prems(2) True by (cases "rl + 1 > bl") (auto simp: rs'_def Let_def max_def)
    ultimately show ?thesis using Cons.IH [of "us @ [0]"] True by fastforce
  next
    case False
    with Cons.IH [of "us @ [w]" bs bl "-1" 0] Cons.prems run_state_nonzero [of us bs bl rs rl w]
    show ?thesis by simp
  qed
qed

lemma zero_run_longest:
  assumes "zero_run 0 ws (-1) 0 (-1) 0 = (b, l)"
  shows "l = 0 \<or> (0 \<le> b \<and> is_zero_run ws (nat b) l)"
    and "0 < n \<Longrightarrow> is_zero_run ws st n \<Longrightarrow> n < l \<or> (n = l \<and> nat b \<le> st)"
proof -
  have "run_state [] (-1) 0 (-1) 0"
    by (auto simp: run_state_def is_zero_run_def)
  then obtain rs rl where "run_state ws b l rs rl"
    using zero_run_state [of "[]" "-1" 0 "-1" 0 ws b l] assms by auto
  then show "l = 0 \<or> (0 \<le> b \<and> is_zero_run ws (nat b) l)"
    and "0 < n \<Longrightarrow> is_zero_run ws st n \<Longrightarrow> n < l \<or> (n = l \<and> nat b \<le> st)"
    by (auto simp: run_state_def)
qed

subsection \<open>Words and bytes\<close>

lemma words_of_bytes_eq:
  "words_of_bytes bs = map (\<lambda>i. byte_at bs (i * 2) * 256 + byte_at bs (i * 2 + 1)) [0..<8]"
  by (simp add: words_of_bytes_def js_or_shl8 byte_at_less del: upt_Suc)

lemma words_of_bytes_less: "w \<in> set (words_of_bytes bs) \<Longrightarrow> w < 65536"
proof -
  assume "w \<in> set (words_of_bytes bs)"
  then obtain i where "w = byte_at bs (i * 2) * 256 + byte_at bs (i * 2 + 1)"
    by (auto simp: words_of_bytes_eq simp del: upt_Suc)
  with byte_at_less [of bs "i * 2"] byte_at_less [of bs "i * 2 + 1"] show ?thesis by simp
qed

lemma length_words_of_bytes [simp]: "length (words_of_bytes bs) = 8"
  by (simp add: words_of_bytes_def)

lemma of_nat_byte_at [simp]: "i < length bs \<Longrightarrow> of_nat (byte_at bs i) = bs ! i"
  by (simp add: byte_at_def)

lemma byte_pair:
  assumes "a < 256" and "b < 256"
  shows "[of_nat ((a * 256 + b) div 256), of_nat (a * 256 + b)] = [of_nat a, of_nat b :: 8 word]"
proof -
  have "(of_nat (a * 256 + b) :: 8 word) = of_nat (a * 256) + of_nat b"
    by (rule of_nat_add)
  also have "(of_nat (a * 256) :: 8 word) = 0"
    by (subst word_of_nat_eq_0_iff) simp
  finally show ?thesis using assms by simp
qed

lemma bytes_words_bytes:
  assumes "length bs = 16"
  shows "words_to_bytes (words_of_bytes bs) = bs"
proof -
  have u: "[0..<8] = [0, 1, 2, 3, 4, 5, 6, 7 :: nat]" by (simp add: upt_rec)
  have "words_to_bytes (words_of_bytes bs) = map (\<lambda>i. bs ! i) [0..<16]"
    using assms unfolding words_to_bytes_def words_of_bytes_eq u
    by (simp only: list.map concat.simps byte_pair byte_at_less append.simps of_nat_byte_at) (simp add: upt_rec numeral_eq_Suc)
  also have "\<dots> = bs" using assms by (metis map_nth)
  finally show ?thesis .
qed

subsection \<open>Groups and gaps\<close>

lemma hex_no_char: "c \<in> set (to_string 16 n) \<Longrightarrow> (48 \<le> c \<and> c \<le> 57) \<or> (97 \<le> c \<and> c \<le> 102)"
proof (induction "16::nat" n rule: to_string.induct)
  case (1 n)
  then show ?case
    by (auto simp: to_string.simps [of 16 n] digit_char_def split: if_splits)
qed

lemma expandGroups_hex:
  "\<forall>w\<in>set ws. w < 65536 \<Longrightarrow> expandGroups qa (map (to_string 16) ws) = Some ws"
proof (induction ws)
  case (Cons w ws)
  have "46 \<notin> set (to_string 16 w)" by (auto dest: hex_no_char)
  moreover have "re_group (to_string 16 w)"
    using Cons.prems to_string_length [of 16 w 3] to_string_hex [of 16 _ w]
    by (auto simp: re_group_def list_all_iff Suc_le_eq)
  ultimately show ?case using Cons by (simp add: parse_int_to_string)
qed simp

lemma index_of_gap:
  "index_of (js ''::'') s = None \<Longrightarrow> s = [] \<or> last s \<noteq> 58 \<Longrightarrow>
     index_of (js ''::'') (s @ js ''::'' @ t) = Some (length s)"
proof (induction s)
  case (Cons c cs)
  then show ?case by (cases cs) (auto simp: starts_with_def split: if_splits)
qed (simp add: starts_with_def)

lemma last_index_of_append:
  "last_index_of p t = Some i \<Longrightarrow> last_index_of p (s @ t) = Some (length s + i)"
  by (induction s) auto

lemma last_index_of_None: "index_of p s = None \<Longrightarrow> last_index_of p s = None"
  by (induction s) (auto split: if_splits)

lemma last_index_of_gap:
  assumes "index_of (js ''::'') t = None" and "t = [] \<or> hd t \<noteq> 58"
  shows "last_index_of (js ''::'') (s @ js ''::'' @ t) = Some (length s)"
proof -
  have "last_index_of (js ''::'') (js ''::'' @ t) = Some 0"
    using assms last_index_of_None [OF assms(1)] by (cases t) (auto simp: starts_with_def)
  from last_index_of_append [OF this, of s] show ?thesis by simp
qed

lemma index_of_skip: "c \<noteq> 58 \<Longrightarrow> index_of (js ''::'') (c # s) = map_option Suc (index_of (js ''::'') s)"
  by (simp add: starts_with_def)

lemma no_gap_plain: "58 \<notin> set p \<Longrightarrow> index_of (js ''::'') p = None"
  by (induction p) (auto simp: starts_with_def)

lemma no_gap_append_colon:
  "58 \<notin> set p \<Longrightarrow> s \<noteq> [] \<Longrightarrow> hd s \<noteq> 58 \<Longrightarrow> index_of (js ''::'') s = None \<Longrightarrow>
     index_of (js ''::'') (p @ 58 # s) = None"
  by (induction p) (auto simp: starts_with_def neq_Nil_conv)

lemma no_gap_join:
  "\<forall>p\<in>set ps. p \<noteq> [] \<and> 58 \<notin> set p \<Longrightarrow> index_of (js ''::'') (join [58] ps) = None"
proof (induction "[58::nat]" ps rule: join.induct)
  case (3 p q ps)
  have "hd (join [58] (q # ps)) \<noteq> 58" "join [58] (q # ps) \<noteq> []"
    using 3 hd_join [of "q # ps" "[58]"] join_eq_Nil [of "q # ps" "[58]"]
    by auto (metis list.set_sel(1))
  with 3 show ?case by (simp del: join.simps(2,3) add: join.simps(3) no_gap_append_colon [simplified])
qed (simp_all add: no_gap_plain [simplified])

subsection \<open>Parsing what was printed\<close>

definition parts_ok :: "str list \<Rightarrow> bool" where
  "parts_ok ps \<longleftrightarrow> (\<forall>p\<in>set ps. p \<noteq> [] \<and> 58 \<notin> set p)"

lemma parts_ok_hex [simp]: "parts_ok (map (to_string 16) ws)"
  by (auto simp: parts_ok_def dest: hex_no_char)

lemma parts_ok_join:
  assumes "parts_ok ps"
  shows "index_of (js ''::'') (join [58] ps) = None"
    and "join [58] ps = [] \<longleftrightarrow> ps = []"
    and "join [58] ps = [] \<or> hd (join [58] ps) \<noteq> 58"
    and "join [58] ps = [] \<or> last (join [58] ps) \<noteq> 58"
    and "ps \<noteq> [] \<Longrightarrow> split_on 58 (join [58] ps) = ps"
proof -
  show "index_of (js ''::'') (join [58] ps) = None"
    using assms by (intro no_gap_join) (simp add: parts_ok_def)
  show e: "join [58] ps = [] \<longleftrightarrow> ps = []"
    using assms by (intro join_eq_Nil) (simp add: parts_ok_def)
  show "join [58] ps = [] \<or> hd (join [58] ps) \<noteq> 58"
    using assms hd_join [of ps "[58]"] e unfolding parts_ok_def
    by (metis hd_in_set)
  show "join [58] ps = [] \<or> last (join [58] ps) \<noteq> 58"
    using assms last_join [of ps "[58]"] e unfolding parts_ok_def
    by (metis last_in_set)
  show "split_on 58 (join [58] ps) = ps" if "ps \<noteq> []"
    using assms that by (intro split_on_join) (simp_all add: parts_ok_def)
qed

lemma parse_gap:
  assumes hs: "parts_ok hs" and ts: "parts_ok ts"
    and H: "expandGroups False hs = Some H" and T: "expandGroups (ts \<noteq> []) ts = Some T"
    and n: "length H + length T \<le> 7"
  shows "parseIpv6 (join [58] hs @ js ''::'' @ join [58] ts) =
    Some (words_to_bytes (H @ replicate (8 - (length H + length T)) 0 @ T))"
proof -
  let ?h = "join [58] hs" and ?t = "join [58] ts"
  let ?text = "?h @ js ''::'' @ ?t"
  note h = parts_ok_join [OF hs] and t = parts_ok_join [OF ts]
  have i: "index_of (js ''::'') ?text = Some (length ?h)"
    using h(1,4) by (intro index_of_gap)
  have l: "last_index_of (js ''::'') ?text = Some (length ?h)"
    using t(1,3) by (intro last_index_of_gap)
  have halves: "ipv6_halves (Some (length ?h)) ?text = (hs, ts)"
    using h(2,5) t(2,5) by (simp add: ipv6_halves_def)
  have ne: "[] \<notin> set hs" "[] \<notin> set ts"
    using hs ts by (auto simp: parts_ok_def)
  have "58 \<in> set ?text" "length ?text \<noteq> 0" by simp_all
  then show ?thesis
    unfolding parseIpv6_def i l Let_def halves using ne H T n by simp
qed

lemma parse_no_gap:
  assumes ps: "parts_ok ps" and W: "expandGroups True ps = Some W" and n: "length W = 8"
    and two: "2 \<le> length ps"
  shows "parseIpv6 (join [58] ps) = Some (words_to_bytes W)"
proof -
  note h = parts_ok_join [OF ps]
  have ne: "ps \<noteq> []" "[] \<notin> set ps"
    using ps two by (auto simp: parts_ok_def)
  have c: "58 \<in> set (join [58] ps)"
    using two by (cases ps; cases "tl ps") auto
  have i: "index_of (js ''::'') (join [58] ps) = None" by (rule h(1))
  have halves: "ipv6_halves None (join [58] ps) = (ps, [])"
    using h(2,5) ne by (simp add: ipv6_halves_def)
  show ?thesis
    unfolding parseIpv6_def i last_index_of_None [OF i] Let_def halves
    using c ne W n h(2) by simp
qed

lemma expandGroups_mapped:
  assumes "v \<le> IPV4_MAX"
  shows "expandGroups True [js ''ffff'', formatIpv4 v] = Some [0xffff, v div 65536, v mod 65536]"
proof -
  have b: "v < 2 ^ 32" using assms by (simp add: IPV4_MAX_def)
  have dot: "46 \<in> set (formatIpv4 v)"
    by (simp add: formatIpv4_def)
  have "js_and (js_ushr v 16) 0xffff = v div 65536"
  proof -
    have "v div 65536 < 2 ^ 32" using b by (meson div_le_dividend le_less_trans)
    then show ?thesis
      using js_and_low [of "v div 65536" 16] b by (simp add: js_ushr_div less_mult_imp_div_less)
  qed
  moreover have "js_and v 0xffff = v mod 65536"
    using js_and_low [of v 16] b by simp
  moreover have "re_group (js ''ffff'')" "parse_int 16 (js ''ffff'') = 0xffff"
    by (simp_all add: re_group_def is_hex_def parse_int_def digit_value_def)
  ultimately show ?thesis
    using dot quad_formatIpv4 [OF assms] by simp
qed

lemma readUint32_le: "readUint32 bs i \<le> IPV4_MAX"
  using byte_at_less [of bs i] byte_at_less [of bs "i + 1"] byte_at_less [of bs "i + 2"]
    byte_at_less [of bs "i + 3"]
  by (simp add: readUint32_def IPV4_MAX_def)

lemma parse_formatIpv6_mapped:
  assumes "length bs = 16" and "allZero bs 0 10" and "byte_at bs 10 = 0xff" and "byte_at bs 11 = 0xff"
  shows "parseIpv6 (js ''::ffff:'' @ formatIpv4 (readUint32 bs 12)) = Some bs"
proof -
  let ?v = "readUint32 bs 12"
  have "parts_ok [js ''ffff'', formatIpv4 ?v]"
    using formatIpv4_chars [OF readUint32_le] formatIpv4_length [OF readUint32_le [of bs 12]]
    by (force simp: parts_ok_def)
  from parse_gap [of "[]" _ "[]", OF _ this _ _] expandGroups_mapped [OF readUint32_le [of bs 12]]
  have p: "parseIpv6 (js ''::ffff:'' @ formatIpv4 ?v) =
      Some (words_to_bytes (replicate 5 0 @ [0xffff, ?v div 65536, ?v mod 65536]))"
    by (simp add: parts_ok_def)
  have z: "byte_at bs i = 0" if "i < 10" for i
    using assms(2) that by (simp add: allZero_def list_all_iff)
  have "words_of_bytes bs = replicate 5 0 @ [0xffff, ?v div 65536, ?v mod 65536]"
  proof -
    define x y where "x = byte_at bs 12 * 256 + byte_at bs 13" and "y = byte_at bs 14 * 256 + byte_at bs 15"
    have "y < 65536"
      using byte_at_less [of bs 14] byte_at_less [of bs 15] by (simp add: y_def)
    moreover have "?v = x * 65536 + y"
      by (simp add: readUint32_def x_def y_def)
    ultimately have "?v div 65536 = byte_at bs 12 * 256 + byte_at bs 13"
      "?v mod 65536 = byte_at bs 14 * 256 + byte_at bs 15"
      by (simp_all add: x_def [symmetric] y_def [symmetric])
    moreover have u: "[0..<8] = [0, 1, 2, 3, 4, 5, 6, 7 :: nat]" by (simp add: upt_rec)
    moreover have "replicate 5 (0::nat) = [0, 0, 0, 0, 0]" by (simp add: numeral_eq_Suc)
    ultimately show ?thesis
      using assms(3,4) z by (simp add: words_of_bytes_eq u)
  qed
  with p bytes_words_bytes [OF assms(1)] show ?thesis by simp
qed

lemma run_split:
  assumes "is_zero_run ws st n"
  shows "ws = take st ws @ replicate n 0 @ drop (st + n) ws"
proof -
  have "take n (drop st ws) = replicate n 0"
    using assms by (intro nth_equalityI) (auto simp: is_zero_run_def)
  then show ?thesis
    by (metis append_take_drop_id drop_drop add.commute)
qed

lemma formatIpv6_plain:
  assumes "\<not> (allZero bs 0 10 \<and> byte_at bs 10 = 0xff \<and> byte_at bs 11 = 0xff)"
    and "zero_run 0 (words_of_bytes bs) (-1) 0 (-1) 0 = (b, l)"
  shows "formatIpv6 bs =
    (if l < 2 then join [58] (map (to_string 16) (words_of_bytes bs))
     else join [58] (map (to_string 16) (take (nat b) (words_of_bytes bs))) @ js ''::'' @
       join [58] (map (to_string 16) (drop (nat b + l) (words_of_bytes bs))))"
  unfolding formatIpv6_def if_not_P [OF assms(1)] assms(2) Let_def by (simp add: take_map drop_map)

lemma parse_formatIpv6:
  assumes "length bs = 16"
  shows "parseIpv6 (formatIpv6 bs) = Some bs"
proof (cases "allZero bs 0 10 \<and> byte_at bs 10 = 0xff \<and> byte_at bs 11 = 0xff")
  case True
  then show ?thesis
    using parse_formatIpv6_mapped [OF assms] by (simp add: formatIpv6_def)
next
  case plain: False
  let ?ws = "words_of_bytes bs"
  obtain b l where z: "zero_run 0 ?ws (-1) 0 (-1) 0 = (b, l)" by force
  have small: "\<forall>w\<in>set ?ws. w < 65536" using words_of_bytes_less by auto
  show ?thesis
  proof (cases "l < 2")
    case True
    then have "formatIpv6 bs = join [58] (map (to_string 16) ?ws)"
      by (simp add: formatIpv6_plain [OF plain z])
    moreover have "parseIpv6 (join [58] (map (to_string 16) ?ws)) = Some (words_to_bytes ?ws)"
      using small by (intro parse_no_gap) (simp_all add: expandGroups_hex)
    ultimately show ?thesis by (simp add: bytes_words_bytes [OF assms])
  next
    case False
    let ?hd = "take (nat b) ?ws" and ?tl = "drop (nat b + l) ?ws"
    have r: "is_zero_run ?ws (nat b) l"
      using zero_run_longest(1) [OF z] False by auto
    then have n: "nat b + l \<le> 8" by (simp add: is_zero_run_def)
    have "formatIpv6 bs = join [58] (map (to_string 16) ?hd) @ js ''::'' @ join [58] (map (to_string 16) ?tl)"
      using False by (simp add: formatIpv6_plain [OF plain z])
    moreover have "parseIpv6 (join [58] (map (to_string 16) ?hd) @ js ''::'' @ join [58] (map (to_string 16) ?tl))
        = Some (words_to_bytes (?hd @ replicate (8 - (length ?hd + length ?tl)) 0 @ ?tl))"
      using small n False
      by (intro parse_gap) (auto intro!: expandGroups_hex dest: in_set_takeD in_set_dropD)
    moreover have "8 - (length ?hd + length ?tl) = l" using n by simp
    ultimately show ?thesis
      using run_split [OF r] by (simp add: bytes_words_bytes [OF assms])
  qed
qed

section \<open>The canonical form\<close>

lemma formatIpv6_chars:
  assumes "c \<in> set (formatIpv6 bs)"
  shows "c = 58 \<or> c = 46 \<or> (48 \<le> c \<and> c \<le> 57) \<or> (97 \<le> c \<and> c \<le> 102)"
proof (cases "allZero bs 0 10 \<and> byte_at bs 10 = 0xff \<and> byte_at bs 11 = 0xff")
  case True
  with assms formatIpv4_chars [OF readUint32_le] show ?thesis
    by (auto simp: formatIpv6_def)
next
  case False
  have j: "x \<in> set (join [58] (map (to_string 16) vs)) \<Longrightarrow>
      x = 58 \<or> (48 \<le> x \<and> x \<le> 57) \<or> (97 \<le> x \<and> x \<le> 102)" for x vs
    using set_join_subset [of "[58]" "map (to_string 16) vs"] by (auto dest: hex_no_char)
  obtain b l where z: "zero_run 0 (words_of_bytes bs) (-1) 0 (-1) 0 = (b, l)" by force
  from assms show ?thesis
    by (auto simp: formatIpv6_plain [OF False z] split: if_splits dest: j)
qed

lemma formatIpv6_colon: "58 \<in> set (formatIpv6 bs)"
proof -
  have u: "[0..<8] = [0, 1, 2, 3, 4, 5, 6, 7 :: nat]" by (simp add: upt_rec)
  have "58 \<in> set (join [58] (map (to_string 16) (words_of_bytes bs)))"
    by (simp add: words_of_bytes_def u)
  moreover obtain b l where "zero_run 0 (words_of_bytes bs) (-1) 0 (-1) 0 = (b, l)" by force
  ultimately show ?thesis
    using formatIpv6_plain [of bs b l] by (auto simp: formatIpv6_def)
qed

lemma formatIpv6_length:
  assumes "length bs = 16"
  shows "length (formatIpv6 bs) \<le> MAX_LENGTH"
proof (cases "allZero bs 0 10 \<and> byte_at bs 10 = 0xff \<and> byte_at bs 11 = 0xff")
  case True
  with formatIpv4_length [OF readUint32_le [of bs 12]] show ?thesis
    by (simp add: formatIpv6_def MAX_LENGTH_def)
next
  case False
  let ?ws = "words_of_bytes bs"
  have w: "\<forall>p\<in>set (map (to_string 16) ?ws). length p \<le> 4"
    using words_of_bytes_less to_string_length [of 16 _ 3] by auto
  have j: "length (join [58] ps) \<le> length ps * 5" if "set ps \<subseteq> set (map (to_string 16) ?ws)" for ps
    using length_join_le [of ps 4 58] w that by (metis Suc_numeral semiring_norm(5) subset_iff numeral_plus_one semiring_norm(2))
  obtain b l where z: "zero_run 0 ?ws (-1) 0 (-1) 0 = (b, l)" by force
  have t: "length (join [58] (take k (map (to_string 16) ?ws))) \<le> min 8 k * 5"
    and d: "length (join [58] (drop k (map (to_string 16) ?ws))) \<le> (8 - k) * 5" for k
    using j [OF set_take_subset, of k] j [OF set_drop_subset, of k] by (simp_all add: min.commute)
  show ?thesis
    using j [of "map (to_string 16) ?ws"] t [of "nat b"] d [of "nat b + l"]
    by (auto simp: formatIpv6_plain [OF False z] MAX_LENGTH_def take_map drop_map)
qed

lemma unbracket_id: "s = [] \<or> hd s \<noteq> 91 \<Longrightarrow> unbracket s = s"
  by (cases s) (auto simp: unbracket_def starts_with_def)

lemma index_of_notin: "c \<notin> set s \<Longrightarrow> index_of [c] s = None"
  by (induction s) (auto simp: starts_with_def)

text \<open>Text made only of the characters of a printed address is neither trimmed nor unwrapped.\<close>

lemma printed_untouched:
  assumes "\<And>c. c \<in> set s \<Longrightarrow> c = 58 \<or> c = 46 \<or> (48 \<le> c \<and> c \<le> 57) \<or> (97 \<le> c \<and> c \<le> 102)"
  shows "trim s = s" and "unbracket s = s" and "37 \<notin> set s" and "before_zone s = s"
proof -
  show "trim s = s"
    using assms by (intro trim_id) (force simp: js_space_def)
  show "unbracket s = s"
    using assms hd_in_set [of s] by (intro unbracket_id) fastforce
  show p: "37 \<notin> set s" using assms by force
  show "before_zone s = s"
    using index_of_notin [OF p] by (simp add: before_zone_def)
qed

text \<open>An address and its canonical form: what the two functions make of a parsed value.\<close>

lemma canonical_formatIpv4:
  assumes "v \<le> IPV4_MAX"
  shows "canonicalAddress (formatIpv4 v) = Some (formatIpv4 v)"
    and "classifyAddress (formatIpv4 v) = classifyIpv4 v"
proof -
  have c: "c = 46 \<or> (48 \<le> c \<and> c \<le> 57)" if "c \<in> set (formatIpv4 v)" for c
    using formatIpv4_chars [OF assms that] .
  have u: "trim (formatIpv4 v) = formatIpv4 v" "unbracket (formatIpv4 v) = formatIpv4 v"
    by (rule printed_untouched; use c in blast)+
  have "58 \<notin> set (formatIpv4 v)" using c by force
  moreover have "0 < length (formatIpv4 v)" "length (formatIpv4 v) \<le> MAX_LENGTH"
    using formatIpv4_length [OF assms] by (simp_all add: MAX_LENGTH_def)
  ultimately show "canonicalAddress (formatIpv4 v) = Some (formatIpv4 v)"
    and "classifyAddress (formatIpv4 v) = classifyIpv4 v"
    by (simp_all add: canonicalAddress_def classifyAddress_def u parse_formatIpv4 [OF assms])
qed

lemma canonical_formatIpv6:
  assumes "length bs = 16"
  shows "canonicalAddress (formatIpv6 bs) = Some (formatIpv6 bs)"
    and "classifyAddress (formatIpv6 bs) = classifyIpv6 bs"
proof -
  note u = printed_untouched [of "formatIpv6 bs", OF formatIpv6_chars]
  have "formatIpv6 bs \<noteq> []" using formatIpv6_colon [of bs] by auto
  then show "canonicalAddress (formatIpv6 bs) = Some (formatIpv6 bs)"
    and "classifyAddress (formatIpv6 bs) = classifyIpv6 bs"
    using formatIpv6_length [OF assms] formatIpv6_colon [of bs] u(3)
    by (simp_all add: canonicalAddress_def classifyAddress_def u(1,2,4) parse_formatIpv6 [OF assms])
qed

lemma canonicalAddress_cases:
  assumes "canonicalAddress a = Some b"
  obtains v where "v \<le> IPV4_MAX" "b = formatIpv4 v" "classifyAddress a = classifyIpv4 v"
  | bs where "length bs = 16" "b = formatIpv6 bs" "classifyAddress a = classifyIpv6 bs"
proof -
  let ?t = "unbracket (trim a)"
  have len: "length (trim a) \<noteq> 0" "length (trim a) \<le> MAX_LENGTH"
    using assms by (auto simp: canonicalAddress_def Let_def split: if_splits)
  show ?thesis
  proof (cases "58 \<in> set ?t")
    case True
    with assms obtain bs where bs: "37 \<notin> set ?t" "parseIpv6 ?t = Some bs" "b = formatIpv6 bs"
      by (auto simp: canonicalAddress_def Let_def split: if_splits)
    from bs(1) have "before_zone ?t = ?t"
      using index_of_notin [of 37 ?t] by (simp add: before_zone_def)
    with bs len True show ?thesis
      by (intro that(2) [of bs]) (auto simp: classifyAddress_def parseIpv6_length)
  next
    case False
    with assms obtain v where "parseIpv4 ?t = Some v" "b = formatIpv4 v"
      by (auto simp: canonicalAddress_def Let_def split: if_splits)
    with len False show ?thesis
      by (intro that(1) [of v]) (auto simp: classifyAddress_def parseIpv4_le)
  qed
qed

lemma canonicalAddress_fixed:
  assumes "canonicalAddress a = Some b"
  shows "canonicalAddress b = Some b" and "classifyAddress b = classifyAddress a"
  using assms by (auto elim!: canonicalAddress_cases simp: canonical_formatIpv4 canonical_formatIpv6)

lemma classifyIpv4_not_Unparseable: "classifyIpv4 v \<noteq> Unparseable"
  by (auto simp: classifyIpv4_def IPV4_BLOCKED_def)

text \<open>The shape of a printed address: its characters, and that it does not end in a dot.\<close>

lemma formatIpv4_last: "v \<le> IPV4_MAX \<Longrightarrow> formatIpv4 v \<noteq> [] \<and> last (formatIpv4 v) \<noteq> 46"
proof -
  assume v: "v \<le> IPV4_MAX"
  have d: "last (to_string 10 n) \<noteq> 46" for n
  proof -
    have "48 \<le> last (to_string 10 n)"
      using decimal_no_char [of "last (to_string 10 n)" n] by simp
    then show ?thesis by linarith
  qed
  show ?thesis
    using last_join [of "map (to_string 10) (octet_list v)" "[46]"] d
    by (simp add: formatIpv4_octets [OF v] octet_list_def)
qed

lemma formatIpv6_last: "last (formatIpv6 bs) \<noteq> 46"
proof (cases "allZero bs 0 10 \<and> byte_at bs 10 = 0xff \<and> byte_at bs 11 = 0xff")
  case True
  then show ?thesis
    using formatIpv4_last [OF readUint32_le, of bs 12] by (simp add: formatIpv6_def)
next
  case False
  have j: "x = 58 \<or> (48 \<le> x \<and> x \<le> 57) \<or> (97 \<le> x \<and> x \<le> 102)"
    if "x \<in> set (join [58] (map (to_string 16) vs))" for x vs
    using that set_join_subset [of "[58]" "map (to_string 16) vs"] by (auto dest: hex_no_char)
  obtain b l where z: "zero_run 0 (words_of_bytes bs) (-1) 0 (-1) 0 = (b, l)" by force
  have "x \<noteq> 46" if "x \<in> set (formatIpv6 bs)" for x
    using that by (fastforce simp: formatIpv6_plain [OF False z] split: if_splits dest: j)
  moreover have "formatIpv6 bs \<noteq> []" using formatIpv6_colon [of bs] by auto
  ultimately show ?thesis by simp
qed

lemma canonical_shape:
  assumes "canonicalAddress a = Some b"
  shows "b \<noteq> []" and "last b \<noteq> 46" and "length b \<le> MAX_LENGTH"
    and "c \<in> set b \<Longrightarrow> c = 58 \<or> c = 46 \<or> (48 \<le> c \<and> c \<le> 57) \<or> (97 \<le> c \<and> c \<le> 102)"
proof -
  have "b \<noteq> [] \<and> last b \<noteq> 46 \<and> length b \<le> MAX_LENGTH \<and>
      (\<forall>c\<in>set b. c = 58 \<or> c = 46 \<or> (48 \<le> c \<and> c \<le> 57) \<or> (97 \<le> c \<and> c \<le> 102))"
    using assms
  proof (rule canonicalAddress_cases)
    fix v
    assume v: "v \<le> IPV4_MAX" "b = formatIpv4 v"
    then show ?thesis
      using formatIpv4_last formatIpv4_length formatIpv4_chars by (fastforce simp: MAX_LENGTH_def)
  next
    fix bs :: bytes
    assume "length bs = 16" "b = formatIpv6 bs"
    moreover have "formatIpv6 bs \<noteq> []" using formatIpv6_colon [of bs] by auto
    ultimately show ?thesis
      using formatIpv6_last [of bs] formatIpv6_length [of bs] formatIpv6_chars [of _ bs] by simp
  qed
  then show "b \<noteq> []" and "last b \<noteq> 46" and "length b \<le> MAX_LENGTH"
    and "c \<in> set b \<Longrightarrow> c = 58 \<or> c = 46 \<or> (48 \<le> c \<and> c \<le> 57) \<or> (97 \<le> c \<and> c \<le> 102)"
    by blast+
qed

lemmas canonical_untouched = printed_untouched [OF canonical_shape(4)]

end
