(* ===== verification/HostPatterns.thy ===== *)
theory HostPatterns imports AddressFormat begin

section \<open>Host and port patterns (canonical-host.ts, connect-patterns.ts, reserved-ports.ts)\<close>

text \<open>
  String-level host validation, the \<open>host:port\<close> pattern grammar and the decision whether one
  pattern authorises one address, in the order of the three files of \<open>broker/policy\<close>. A
  pattern is an untrusted value (\<open>jsv\<close>): the code checks \<open>typeof pattern\<close> at run time.
  The lemmas say what a pattern can authorise at all (public unicast, the literal it spells
  out, or the two loopback literals for \<open>localhost\<close>) and that the check made before a name is
  resolved never refuses what the check after it would allow.
\<close>

subsection \<open>canonical-host.ts\<close>

definition MAX_PORT :: int where
  "MAX_PORT = 65535"

definition MIN_UNPRIVILEGED_PORT :: int where
  "MIN_UNPRIVILEGED_PORT = 1024"

definition MAX_HOST_LENGTH :: nat where
  "MAX_HOST_LENGTH = 253"

definition ascii_lower :: "nat \<Rightarrow> nat" where
  "ascii_lower c = (if 65 \<le> c \<and> c \<le> 90 then c + 32 else c)"

definition normalizeHost :: "str \<Rightarrow> str" where
  "normalizeHost value =
     (let text = map ascii_lower (trim value);
          text = unbracket text
      in if length text > 1 \<and> ends_with (js ''.'') text then butlast text else text)"

definition isAsciiHost :: "str \<Rightarrow> bool" where
  "isAsciiHost value \<longleftrightarrow> list_all (\<lambda>c. 0x20 \<le> c \<and> c \<le> 0x7e) value"

definition isValidPort :: "js_number \<Rightarrow> bool" where
  "isValidPort port = (case port of IntNum p \<Rightarrow> 1 \<le> p \<and> p \<le> MAX_PORT | NonInt \<Rightarrow> False)"

subsection \<open>connect-patterns.ts: the grammar\<close>

definition MAX_PATTERN_LENGTH :: nat where
  "MAX_PATTERN_LENGTH = 300"

definition LOCALHOST :: str where
  "LOCALHOST = js ''localhost''"

definition LOOPBACK_LITERALS :: "str list" where
  "LOOPBACK_LITERALS = [js ''127.0.0.1'', js ''::1'']"

definition localhostAuthorises :: "str \<Rightarrow> str \<Rightarrow> bool" where
  "localhostAuthorises requested address \<longleftrightarrow>
     address \<in> set LOOPBACK_LITERALS \<and> (requested = LOCALHOST \<or> requested = address)"

record parsed_pattern =
  pat_host :: str
  pat_port :: str

definition parsePattern :: "jsv \<Rightarrow> parsed_pattern option" where
  "parsePattern pattern =
     (case pattern of VString raw \<Rightarrow>
        let text = trim raw in
        if length text = 0 \<or> length text > MAX_PATTERN_LENGTH then None
        else if \<not> isAsciiHost text then None
        else if starts_with (js ''['') text then
          (case index_of (js '']'') text of
             None \<Rightarrow> None
           | Some e \<Rightarrow>
               let rest = drop (e + 1) text in
               if \<not> starts_with (js '':'') rest then None
               else let h = take (e - 1) (drop 1 text); p = drop 1 rest in
                 if length h > 0 \<and> length p > 0 then Some \<lparr>pat_host = h, pat_port = p\<rparr> else None)
        else
          (case last_index_of (js '':'') text of
             None \<Rightarrow> None
           | Some i \<Rightarrow>
               let h = take i text; p = drop (i + 1) text in
               if length h = 0 \<or> length p = 0 then None
               else if 58 \<in> set h then None
               else Some \<lparr>pat_host = h, pat_port = p\<rparr>)
      | _ \<Rightarrow> None)"

datatype port_spec = AnyPort | PortSpan int int

text \<open>\<open>[1-9][0-9]{0,4}\<close>, one side of \<open>/^([1-9][0-9]{0,4})(?:-([1-9][0-9]{0,4}))?$/\<close>.\<close>

definition re_port :: "str \<Rightarrow> bool" where
  "re_port p = (case p of c # ds \<Rightarrow>
     49 \<le> c \<and> c \<le> 57 \<and> length ds \<le> 4 \<and> list_all is_digit ds | _ \<Rightarrow> False)"

definition parsePortSpec :: "str \<Rightarrow> port_spec option" where
  "parsePortSpec spec =
     (if spec = js ''*'' then Some AnyPort
      else (case (case split_on 45 spec of
                    [a] \<Rightarrow> if re_port a then Some (a, None) else None
                  | [a, b] \<Rightarrow> if re_port a \<and> re_port b then Some (a, Some b) else None
                  | _ \<Rightarrow> None) of
              None \<Rightarrow> None
            | Some (loText, hiText) \<Rightarrow>
                let lo = int (parse_int 10 loText);
                    hi = (case hiText of None \<Rightarrow> lo | Some h \<Rightarrow> int (parse_int 10 h))
                in if lo > MAX_PORT \<or> hi > MAX_PORT \<or> lo > hi then None
                   else Some (PortSpan lo hi)))"

definition portMatches :: "str \<Rightarrow> int \<Rightarrow> bool" where
  "portMatches spec port =
     (case parsePortSpec spec of
        None \<Rightarrow> False
      | Some AnyPort \<Rightarrow> True
      | Some (PortSpan lo hi) \<Rightarrow> lo \<le> port \<and> port \<le> hi)"

datatype host_spec_kind = AnyPublicUnicast | AddressLiteral | Hostname | AuthorisesNothing

definition hostSpecKind :: "str \<Rightarrow> host_spec_kind" where
  "hostSpecKind spec =
     (if spec = js ''*'' then AnyPublicUnicast
      else let host = normalizeHost spec in
        if classifyAddress host \<noteq> Unparseable then
          (if canonicalAddress host = Some host then AddressLiteral else AuthorisesNothing)
        else if 42 \<in> set host then AuthorisesNothing
        else Hostname)"

subsection \<open>connect-patterns.ts: matching\<close>

definition hostMatches :: "str \<Rightarrow> str \<Rightarrow> str \<Rightarrow> bool" where
  "hostMatches spec requested address =
     (let host = normalizeHost spec in
      case hostSpecKind spec of
        AnyPublicUnicast \<Rightarrow> isPublicUnicast address
      | AuthorisesNothing \<Rightarrow> False
      | AddressLiteral \<Rightarrow>
          let addressClass = classifyAddress address in
          host = address \<and> addressClass \<noteq> Multicast \<and> addressClass \<noteq> Broadcast
      | Hostname \<Rightarrow>
          if host = LOCALHOST then localhostAuthorises requested address
          else host = requested \<and> isPublicUnicast address)"

definition patternAuthorises :: "parsed_pattern option \<Rightarrow> str \<Rightarrow> str \<Rightarrow> int \<Rightarrow> bool" where
  "patternAuthorises parsed requested address port =
     (case parsed of
        None \<Rightarrow> False
      | Some pat \<Rightarrow>
          if \<not> portMatches (pat_port pat) port then False
          else hostMatches (pat_host pat) requested address)"

fun couldAnyPatternMatch :: "parsed_pattern option list \<Rightarrow> str \<Rightarrow> int \<Rightarrow> bool" where
  "couldAnyPatternMatch [] requested port = False"
| "couldAnyPatternMatch (None # ps) requested port = couldAnyPatternMatch ps requested port"
| "couldAnyPatternMatch (Some pat # ps) requested port =
     (if \<not> portMatches (pat_port pat) port then couldAnyPatternMatch ps requested port
      else if pat_host pat = js ''*'' then True
      else let host = normalizeHost (pat_host pat) in
        if classifyAddress host \<noteq> Unparseable then True
        else if host = requested then True
        else if host = LOCALHOST \<and> requested \<in> set LOOPBACK_LITERALS then True
        else couldAnyPatternMatch ps requested port)"

subsection \<open>connect-patterns.ts: what may be declared\<close>

datatype connect_kind = TcpConnect | HttpsConnect | UdpSend

datatype host_rejection =
  WildcardNeedsWildcardPort | BracketedWildcard | SubGlob | NonAscii | TooLong | NotCanonical
| EmptyLabel | AddressNotCanonical

definition declarableConnectHostRejection :: "str \<Rightarrow> str \<Rightarrow> connect_kind \<Rightarrow> host_rejection option" where
  "declarableConnectHostRejection host wholePattern kind =
     (if host = js ''*'' then
        if starts_with (js ''['') wholePattern then Some BracketedWildcard
        else let pairsWithAnyPort = (kind = TcpConnect \<or> kind = HttpsConnect);
                 isUdpAnyPort = (kind = UdpSend \<and> wholePattern = js ''*:*'')
             in if pairsWithAnyPort \<or> isUdpAnyPort then None else Some WildcardNeedsWildcardPort
      else if 42 \<in> set host then Some SubGlob
      else if \<not> isAsciiHost host then Some NonAscii
      else if length host > MAX_HOST_LENGTH then Some TooLong
      else if list_ex js_space host \<or> normalizeHost host \<noteq> host then Some NotCanonical
      else if list_ex (\<lambda>label. length label = 0) (split_on 46 host) then Some EmptyLabel
      else if classifyAddress host \<noteq> Unparseable \<and> canonicalAddress host \<noteq> Some host
      then Some AddressNotCanonical
      else None)"

definition isDeclarableConnectPattern :: "jsv \<Rightarrow> connect_kind \<Rightarrow> bool" where
  "isDeclarableConnectPattern pattern kind =
     (case pattern of VString text \<Rightarrow>
        if text \<noteq> trim text then False
        else (case parsePattern pattern of
                None \<Rightarrow> False
              | Some parsed \<Rightarrow>
                  if pat_port parsed \<noteq> js ''*'' \<and> parsePortSpec (pat_port parsed) = None then False
                  else declarableConnectHostRejection (pat_host parsed) text kind = None)
      | _ \<Rightarrow> False)"

subsection \<open>reserved-ports.ts\<close>

definition RESERVED_PORTS :: "int list" where
  "RESERVED_PORTS = [23, 25, 465, 587, 53, 139, 445, 3389, 6667, 6697]"

definition isReservedPort :: "int \<Rightarrow> bool" where
  "isReservedPort port \<longleftrightarrow> port \<in> set RESERVED_PORTS"

definition patternNamesPortExactly :: "parsed_pattern option \<Rightarrow> int \<Rightarrow> bool" where
  "patternNamesPortExactly pattern port =
     (case pattern of
        None \<Rightarrow> False
      | Some pat \<Rightarrow> (case parsePortSpec (pat_port pat) of
            Some (PortSpan lo hi) \<Rightarrow> lo = port \<and> hi = port
          | _ \<Rightarrow> False))"

section \<open>Lemmas\<close>

subsection \<open>Ports\<close>

lemma parse_int_foldl_ge: "v \<le> foldl (\<lambda>v c. 10 * v + digit_value c) v s"
proof (induction s arbitrary: v)
  case (Cons c s)
  have "v \<le> 10 * v + digit_value c" by simp
  also have "\<dots> \<le> foldl (\<lambda>v c. 10 * v + digit_value c) (10 * v + digit_value c) s"
    by (rule Cons.IH)
  finally show ?case by simp
qed simp

lemma re_port_pos:
  assumes "re_port p"
  shows "1 \<le> parse_int 10 p"
proof -
  obtain c ds where p: "p = c # ds" "49 \<le> c" "c \<le> 57"
    using assms by (auto simp: re_port_def split: list.splits)
  then have "1 \<le> digit_value c" by (simp add: digit_value_def)
  also have "\<dots> \<le> parse_int 10 p"
    using parse_int_foldl_ge [of "digit_value c" ds] by (simp add: parse_int_def p(1))
  finally show ?thesis .
qed

lemma parsePortSpec_bounds:
  assumes "parsePortSpec spec = Some (PortSpan lo hi)"
  shows "1 \<le> lo \<and> lo \<le> hi \<and> hi \<le> MAX_PORT"
  using assms re_port_pos
  by (fastforce simp: parsePortSpec_def Let_def split: if_splits option.splits list.splits)

lemma portMatches_span:
  "parsePortSpec spec = Some (PortSpan lo hi) \<Longrightarrow> portMatches spec p \<longleftrightarrow> lo \<le> p \<and> p \<le> hi"
  by (simp add: portMatches_def)

lemma portMatches_valid:
  "portMatches spec p \<Longrightarrow> parsePortSpec spec \<noteq> Some AnyPort \<Longrightarrow> isValidPort (IntNum p)"
  by (auto simp: portMatches_def isValidPort_def dest: parsePortSpec_bounds
      split: option.splits port_spec.splits)

subsection \<open>Hosts\<close>

lemma couldAnyPatternMatch_iff:
  "couldAnyPatternMatch ps requested port \<longleftrightarrow>
     (\<exists>pat. Some pat \<in> set ps \<and> portMatches (pat_port pat) port \<and>
        (pat_host pat = js ''*'' \<or> classifyAddress (normalizeHost (pat_host pat)) \<noteq> Unparseable \<or>
         normalizeHost (pat_host pat) = requested \<or>
         (normalizeHost (pat_host pat) = LOCALHOST \<and> requested \<in> set LOOPBACK_LITERALS)))"
  by (induction ps requested port rule: couldAnyPatternMatch.induct) (auto simp: Let_def)

lemma couldAnyPatternMatch_complete:
  "pat \<in> set ps \<Longrightarrow> patternAuthorises pat requested address port \<Longrightarrow>
     couldAnyPatternMatch ps requested port"
  unfolding couldAnyPatternMatch_iff
  by (cases pat)
    (auto simp: patternAuthorises_def hostMatches_def hostSpecKind_def Let_def
      localhostAuthorises_def split: if_splits)

text \<open>What a pattern can authorise at all.\<close>

lemma hostMatches_reach:
  assumes "hostMatches spec requested address"
  shows "isPublicUnicast address \<or>
    (normalizeHost spec = address \<and> canonicalAddress address = Some address \<and>
     classifyAddress address \<notin> {Unparseable, Multicast, Broadcast}) \<or>
    (normalizeHost spec = LOCALHOST \<and> address \<in> set LOOPBACK_LITERALS)"
  using assms
  by (auto simp: hostMatches_def hostSpecKind_def Let_def localhostAuthorises_def split: if_splits)

lemma loopback_literals_class: "a \<in> set LOOPBACK_LITERALS \<Longrightarrow> classifyAddress a = Loopback"
proof -
  have "list_all (\<lambda>a. classifyAddress a = Loopback) LOOPBACK_LITERALS" by code_simp
  then show "a \<in> set LOOPBACK_LITERALS \<Longrightarrow> classifyAddress a = Loopback"
    by (simp add: list_all_iff)
qed

lemma hostMatches_not_group:
  assumes "hostMatches spec requested address"
  shows "classifyAddress address \<noteq> Multicast \<and> classifyAddress address \<noteq> Broadcast"
  using hostMatches_reach [OF assms] loopback_literals_class [of address]
  by (auto simp: isPublicUnicast_def)

subsection \<open>What normalisation leaves alone\<close>

lemma ascii_lower_id: "\<not> (65 \<le> c \<and> c \<le> 90) \<Longrightarrow> ascii_lower c = c"
  by (simp add: ascii_lower_def)

lemma ends_with_single [simp]: "ends_with [c] s \<longleftrightarrow> s \<noteq> [] \<and> last s = c"
  by (cases s rule: rev_cases) (auto simp: ends_with_def)

lemma normalizeHost_canonical:
  assumes "canonicalAddress a = Some b"
  shows "normalizeHost b = b"
proof -
  note shape = canonical_shape [OF assms]
  have "map ascii_lower b = b"
    using shape(4) by (intro map_idI ascii_lower_id) fastforce
  then show ?thesis
    using shape(1,2) canonical_untouched(1,2) [OF assms] by (simp add: normalizeHost_def)
qed

lemma normalizeHost_localhost [simp]: "normalizeHost LOCALHOST = LOCALHOST"
  by (simp add: LOCALHOST_def; code_simp)

lemma localhost_name:
  shows "classifyAddress LOCALHOST = Unparseable" and "canonicalAddress LOCALHOST = None"
  by code_simp+

end
