(* ===== verification/Decision.thy ===== *)
theory Decision imports Prelude begin

section \<open>The contract every grant check keeps\<close>

text \<open>
  Each check of \<open>broker/policy\<close> (plain connect re-check, TLS connect, lookup, bind) takes a
  granted pattern list and a request. The interface says what they all promise: a malformed
  request is refused whatever is granted, an empty or over-long list grants nothing, and
  otherwise the answer is that some one pattern, by itself, authorises the request. The lemmas
  proved from it once are the facts an app author relies on: no pattern lends its
  authority to another (the cross-pattern hole \<open>connect-preflight.ts\<close> tells of), order and
  repetition do not matter, a longer grant never allows less, and a decision about a union of
  grants is the union of the decisions.
\<close>

locale pattern_decision =
  fixes decides :: "'p list \<Rightarrow> 'q \<Rightarrow> bool"
    and valid :: "'q \<Rightarrow> bool"
    and one :: "'p \<Rightarrow> 'q \<Rightarrow> bool"
    and bound :: nat
  assumes decides_iff:
      "decides ps q \<longleftrightarrow> valid q \<and> length ps \<le> bound \<and> (\<exists>p\<in>set ps. one p q)"
    and bound_pos: "0 < bound"
begin

lemma empty_denies: "\<not> decides [] q"
  by (simp add: decides_iff)

lemma over_long_denies: "bound < length ps \<Longrightarrow> \<not> decides ps q"
  by (simp add: decides_iff)

lemma invalid_denies: "\<not> valid q \<Longrightarrow> \<not> decides ps q"
  by (simp add: decides_iff)

lemma single_iff: "decides [p] q \<longleftrightarrow> valid q \<and> one p q"
  using bound_pos by (auto simp: decides_iff)

text \<open>Whatever a list allows, one of its members allows alone.\<close>

lemma no_cross_pattern: "decides ps q \<Longrightarrow> \<exists>p\<in>set ps. decides [p] q"
  using bound_pos by (auto simp: decides_iff)

lemma decides_set_iff:
  "length ps \<le> bound \<Longrightarrow> decides ps q \<longleftrightarrow> (\<exists>p\<in>set ps. decides [p] q)"
  using bound_pos by (auto simp: decides_iff)

lemma monotone: "set ps \<subseteq> set qs \<Longrightarrow> length qs \<le> bound \<Longrightarrow> decides ps q \<Longrightarrow> decides qs q"
  by (auto simp: decides_iff)

lemma reorder: "set ps = set qs \<Longrightarrow> length ps = length qs \<Longrightarrow> decides ps q = decides qs q"
  by (simp add: decides_iff)

lemma union_iff:
  "length (ps @ qs) \<le> bound \<Longrightarrow> decides (ps @ qs) q \<longleftrightarrow> decides ps q \<or> decides qs q"
  by (auto simp: decides_iff)

text \<open>A grant whose every pattern is matched by a stronger one allows no less.\<close>

lemma stronger_patterns:
  assumes "\<And>p. p \<in> set ps \<Longrightarrow> one p q \<Longrightarrow> \<exists>p'\<in>set qs. one p' q"
    and "length qs \<le> bound" and "decides ps q"
  shows "decides qs q"
  using assms by (auto simp: decides_iff)

end

end
