(* ===== verification/Connect.thy ===== *)
theory Connect imports HostPatterns Decision begin

section \<open>Outbound connections: the plain, the secure and the routed check\<close>

text \<open>
  \<open>connect-preflight.ts\<close>, \<open>connect.ts\<close>, \<open>connect-secure.ts\<close>, \<open>connect-routed.ts\<close>,
  \<open>own-loopback.ts\<close>, \<open>proxy-guard.ts\<close> and \<open>isLocalhostName\<close> of \<open>origin.ts\<close>. The resolver is
  a parameter: it answers with an exception (\<open>Inl\<close>) or with a list of untrusted values
  (\<open>Inr\<close>), and an exception passes through the check as it does in the code. Denial reasons
  of the three checks are one datatype, as \<open>connect-routed.ts\<close> unites them.
\<close>

datatype denial_reason =
  NotDeclared | TooManyPatterns | BadPort | BadHost | NonCanonicalHost | NoPatternPossible
| EmptyResolution | TooManyAnswers | BadAnswer | NoPatternMatch | ReservedPort
| NonPublicAddress | SystemProxy

subsection \<open>connect-preflight.ts\<close>

definition MAX_PATTERNS :: nat where
  "MAX_PATTERNS = 256"

record preflight_passed =
  requested :: str
  eligible :: "parsed_pattern option list"
  isLiteral :: bool

definition preflightConnect ::
  "jsv \<Rightarrow> jsv \<Rightarrow> js_number \<Rightarrow> parsed_pattern option list option \<Rightarrow>
     denial_reason + preflight_passed" where
  "preflightConnect patterns hostArg port parsedPatterns =
     (case patterns of VArray ps \<Rightarrow>
        if length ps = 0 then Inl NotDeclared
        else if length ps > MAX_PATTERNS then Inl TooManyPatterns
        else (case hostArg of VString h \<Rightarrow>
          if \<not> isValidPort port then Inl BadPort
          else (case port of NonInt \<Rightarrow> Inl BadPort | IntNum p \<Rightarrow>
            let req = normalizeHost h in
            if length req = 0 \<or> length req > MAX_HOST_LENGTH then Inl BadHost
            else if \<not> isAsciiHost req then Inl BadHost
            else let lit = classifyAddress req \<noteq> Unparseable in
              if \<not> lit \<and> 58 \<in> set req then Inl BadHost
              else (case (if lit then
                            (case canonicalAddress req of
                               None \<Rightarrow> None
                             | Some canonical \<Rightarrow>
                                 if canonical \<noteq> req \<and> 58 \<notin> set req then None
                                 else Some canonical)
                          else Some req) of
                      None \<Rightarrow> Inl NonCanonicalHost
                    | Some req' \<Rightarrow>
                        let parsed = (case parsedPatterns of
                                        Some cached \<Rightarrow> if length cached = length ps then cached
                                                       else map parsePattern ps
                                      | None \<Rightarrow> map parsePattern ps);
                            reserved = isReservedPort p;
                            elig = (if reserved
                                    then map (\<lambda>pattern. if patternNamesPortExactly pattern p
                                                        then pattern else None) parsed
                                    else parsed)
                        in if reserved \<and> list_all (\<lambda>pattern. pattern = None) elig
                           then Inl ReservedPort
                           else Inr \<lparr>requested = req', eligible = elig, isLiteral = lit\<rparr>))
        | _ \<Rightarrow> Inl BadHost)
      | _ \<Rightarrow> Inl NotDeclared)"

subsection \<open>connect.ts\<close>

definition MAX_ANSWERS :: nat where
  "MAX_ANSWERS = 64"

datatype connect_decision =
  ConnectAllowed "str list"
| ConnectDenied denial_reason "str list option"

type_synonym 'e resolver = "str \<Rightarrow> 'e + jsv list"

text \<open>\<open>port\<close> as a number, after \<open>isValidPort\<close> has held.\<close>

definition port_value :: "js_number \<Rightarrow> int" where
  "port_value port = (case port of IntNum p \<Rightarrow> p | NonInt \<Rightarrow> 0)"

definition any_authorises :: "parsed_pattern option list \<Rightarrow> str \<Rightarrow> str \<Rightarrow> int \<Rightarrow> bool" where
  "any_authorises elig req address port \<longleftrightarrow>
     list_ex (\<lambda>pattern. patternAuthorises pattern req address port) elig"

definition connectStillAuthorised :: "jsv \<Rightarrow> jsv \<Rightarrow> str \<Rightarrow> js_number \<Rightarrow> bool" where
  "connectStillAuthorised patterns hostArg address port =
     (case preflightConnect patterns hostArg port None of
        Inl _ \<Rightarrow> False
      | Inr pre \<Rightarrow>
          (case canonicalAddress address of
             None \<Rightarrow> False
           | Some reached \<Rightarrow>
               any_authorises (eligible pre) (requested pre) reached (port_value port)))"

text \<open>The loop over the answers; \<open>addresses\<close> is what it has accepted so far.\<close>

fun check_answers ::
  "parsed_pattern option list \<Rightarrow> str \<Rightarrow> int \<Rightarrow> str list \<Rightarrow> jsv list \<Rightarrow> connect_decision" where
  "check_answers elig req port addresses [] = ConnectAllowed addresses"
| "check_answers elig req port addresses (answer # answers) =
     (case answer of VString text \<Rightarrow>
        let address = normalizeHost text in
        if canonicalAddress address \<noteq> Some address
        then ConnectDenied BadAnswer (Some (addresses @ [address]))
        else if \<not> any_authorises elig req address port
        then ConnectDenied NoPatternMatch (Some (addresses @ [address]))
        else check_answers elig req port
               (if address \<in> set addresses then addresses else addresses @ [address]) answers
      | _ \<Rightarrow> ConnectDenied BadAnswer (Some addresses))"

definition checkConnect ::
  "jsv \<Rightarrow> jsv \<Rightarrow> js_number \<Rightarrow> 'e resolver \<Rightarrow> parsed_pattern option list option \<Rightarrow>
     'e + connect_decision" where
  "checkConnect patterns hostArg port resolveFn parsedPatterns =
     (case preflightConnect patterns hostArg port parsedPatterns of
        Inl reason \<Rightarrow> Inr (ConnectDenied reason None)
      | Inr pre \<Rightarrow>
          let req = requested pre; elig = eligible pre; p = port_value port in
          if \<not> couldAnyPatternMatch elig req p then Inr (ConnectDenied NoPatternPossible None)
          else if req = LOCALHOST then
            (let covered = filter (\<lambda>address. any_authorises elig req address p) LOOPBACK_LITERALS
             in if length covered = 0 then Inr (ConnectDenied NoPatternMatch (Some LOOPBACK_LITERALS))
                else Inr (ConnectAllowed covered))
          else (case (if isLiteral pre then Inr [VString req] else resolveFn req) of
                  Inl e \<Rightarrow> Inl e
                | Inr answers \<Rightarrow>
                    if length answers = 0 then Inr (ConnectDenied EmptyResolution None)
                    else if length answers > MAX_ANSWERS
                    then Inr (ConnectDenied TooManyAnswers None)
                    else Inr (check_answers elig req p [] answers)))"

subsection \<open>origin.ts: localhost names\<close>

definition isLocalhostName :: "str \<Rightarrow> bool" where
  "isLocalhostName host =
     (let normalized = normalizeHost host in
      normalized = js ''localhost'' \<or> ends_with (js ''.localhost'') normalized)"

definition isLoopbackHost :: "str \<Rightarrow> bool" where
  "isLoopbackHost host \<longleftrightarrow> isLocalhostName host \<or> classifyAddress host = Loopback"

subsection \<open>connect-secure.ts\<close>

datatype secure_decision = SecureAllowed str | SecureDenied denial_reason

definition hostMatchesSecure :: "parsed_pattern option \<Rightarrow> str \<Rightarrow> int \<Rightarrow> bool" where
  "hostMatchesSecure parsed req port =
     (case parsed of
        None \<Rightarrow> False
      | Some pat \<Rightarrow>
          if \<not> portMatches (pat_port pat) port then False
          else if pat_host pat = js ''*''
          then \<not> isNonPublicAddressLiteral req \<and> \<not> isLocalhostName req
          else normalizeHost (pat_host pat) = req)"

definition wildcardEligibleAt :: "parsed_pattern option list \<Rightarrow> int \<Rightarrow> bool" where
  "wildcardEligibleAt elig port \<longleftrightarrow>
     list_ex (\<lambda>pattern. case pattern of
                None \<Rightarrow> False
              | Some pat \<Rightarrow> pat_host pat = js ''*'' \<and> portMatches (pat_port pat) port) elig"

definition checkConnectSecure :: "jsv \<Rightarrow> jsv \<Rightarrow> js_number \<Rightarrow> secure_decision" where
  "checkConnectSecure patterns hostArg port =
     (case preflightConnect patterns hostArg port None of
        Inl reason \<Rightarrow> SecureDenied reason
      | Inr pre \<Rightarrow>
          let req = requested pre; elig = eligible pre; p = port_value port in
          if \<not> list_ex (\<lambda>pattern. hostMatchesSecure pattern req p) elig then
            (if wildcardEligibleAt elig p \<and> isNonPublicAddressLiteral req
             then SecureDenied NonPublicAddress
             else SecureDenied NoPatternMatch)
          else SecureAllowed req)"

subsection \<open>connect-routed.ts\<close>

datatype routed_decision = RoutedAllowed str | RoutedDenied denial_reason

definition NO_RESOLVER :: "str resolver" where
  "NO_RESOLVER host = Inl (js ''a routed connection resolves no name on this machine'')"

definition isLoopbackTarget :: "str \<Rightarrow> bool" where
  "isLoopbackTarget host =
     (let normalized = normalizeHost host in
      normalized = LOCALHOST \<or> classifyAddress normalized = Loopback)"

definition checkRoutedConnect :: "jsv \<Rightarrow> jsv \<Rightarrow> js_number \<Rightarrow> str + routed_decision" where
  "checkRoutedConnect patterns hostArg port =
     (case preflightConnect patterns hostArg port None of
        Inl reason \<Rightarrow> Inr (RoutedDenied reason)
      | Inr pre \<Rightarrow>
          if isLiteral pre then
            (case checkConnect patterns hostArg port NO_RESOLVER None of
               Inl e \<Rightarrow> Inl e
             | Inr (ConnectAllowed []) \<Rightarrow> Inr (RoutedDenied EmptyResolution)
             | Inr (ConnectAllowed (address # _)) \<Rightarrow> Inr (RoutedAllowed address)
             | Inr (ConnectDenied reason _) \<Rightarrow> Inr (RoutedDenied reason))
          else
            (case checkConnectSecure patterns hostArg port of
               SecureAllowed host \<Rightarrow> Inr (RoutedAllowed host)
             | SecureDenied reason \<Rightarrow> Inr (RoutedDenied reason)))"

definition routedStillAuthorised :: "jsv \<Rightarrow> str \<Rightarrow> js_number \<Rightarrow> bool" where
  "routedStillAuthorised patterns host port =
     (if classifyAddress host = Unparseable
      then (case checkConnectSecure patterns (VString host) port of
              SecureAllowed _ \<Rightarrow> True | SecureDenied _ \<Rightarrow> False)
      else connectStillAuthorised patterns (VString host) host port)"

subsection \<open>own-loopback.ts and proxy-guard.ts\<close>

definition reachesOwnLoopbackPort :: "str list \<Rightarrow> int \<Rightarrow> (int \<Rightarrow> bool) option \<Rightarrow> bool" where
  "reachesOwnLoopbackPort hosts port isOwnPort =
     (case isOwnPort of
        None \<Rightarrow> False
      | Some own \<Rightarrow>
          if \<not> own port then False
          else list_ex (\<lambda>host. let normalized = normalizeHost host; cls = classifyAddress normalized
                               in normalized = LOCALHOST \<or> cls = Loopback \<or> cls = Unspecified) hosts)"

text \<open>\<open>/^(?:[A-Za-z0-9._-]+|[0-9A-Fa-f:.]+:[0-9A-Fa-f:.]*)$/\<close>\<close>

definition PROBE_HOST :: "str \<Rightarrow> bool" where
  "PROBE_HOST host \<longleftrightarrow>
     (host \<noteq> [] \<and> list_all (\<lambda>c. (65 \<le> c \<and> c \<le> 90) \<or> (97 \<le> c \<and> c \<le> 122) \<or> is_digit c \<or>
                               c = 46 \<or> c = 95 \<or> c = 45) host) \<or>
     (host \<noteq> [] \<and> list_all (\<lambda>c. is_hex c \<or> c = 58 \<or> c = 46) host \<and> 58 \<in> set (tl host))"

definition proxyProbeUrl :: "jsv \<Rightarrow> js_number option \<Rightarrow> str option" where
  "proxyProbeUrl hostArg port =
     (case hostArg of VString host \<Rightarrow>
        if length host = 0 \<or> length host > MAX_HOST_LENGTH \<or> \<not> PROBE_HOST host then None
        else let authority = (if 58 \<in> set host then js ''['' @ host @ js '']'' else host) in
          (case port of
             None \<Rightarrow> Some (js ''https://'' @ authority @ js ''/'')
           | Some NonInt \<Rightarrow> None
           | Some (IntNum p) \<Rightarrow>
               if p < 0 \<or> p > 65535 then None
               else Some (js ''https://'' @ authority @ js '':'' @ to_string 10 (nat p) @ js ''/''))
      | _ \<Rightarrow> None)"

definition GENERIC_PROXY_PROBE_URL :: str where
  "GENERIC_PROXY_PROBE_URL = js ''https://example.com/''"

section \<open>The shared prologue\<close>

text \<open>What the prologue makes of the host argument, and what it leaves of one pattern.\<close>

definition canonical_request :: "str \<Rightarrow> str option" where
  "canonical_request h =
     (let req = normalizeHost h in
      if length req = 0 \<or> length req > MAX_HOST_LENGTH \<or> \<not> isAsciiHost req then None
      else if classifyAddress req = Unparseable then (if 58 \<in> set req then None else Some req)
      else (case canonicalAddress req of
              None \<Rightarrow> None
            | Some c \<Rightarrow> if c \<noteq> req \<and> 58 \<notin> set req then None else Some c))"

definition narrow :: "int \<Rightarrow> parsed_pattern option \<Rightarrow> parsed_pattern option" where
  "narrow p pattern = (if isReservedPort p \<and> \<not> patternNamesPortExactly pattern p then None else pattern)"

definition valid_request :: "str \<Rightarrow> int \<Rightarrow> bool" where
  "valid_request h p \<longleftrightarrow> isValidPort (IntNum p) \<and> canonical_request h \<noteq> None"

lemma narrow_None [simp]: "narrow p None = None"
  by (simp add: narrow_def)

lemma narrow_Some: "narrow p pattern = Some pat \<Longrightarrow> pattern = Some pat"
  by (simp add: narrow_def split: if_splits)

lemma canonical_request_class:
  assumes "canonical_request h = Some req"
  shows "classifyAddress req = classifyAddress (normalizeHost h)"
    and "classifyAddress req \<noteq> Unparseable \<Longrightarrow> canonicalAddress req = Some req"
    and "classifyAddress req = Unparseable \<Longrightarrow> req = normalizeHost h"
  using assms canonicalAddress_fixed
  by (auto simp: canonical_request_def Let_def split: if_splits option.splits)

text \<open>Which refusal a malformed host gets.\<close>

definition host_refusal :: "str \<Rightarrow> denial_reason" where
  "host_refusal h =
     (let req = normalizeHost h in
      if length req = 0 \<or> length req > MAX_HOST_LENGTH \<or> \<not> isAsciiHost req \<or>
         (classifyAddress req = Unparseable \<and> 58 \<in> set req)
      then BadHost else NonCanonicalHost)"

lemma narrow_map:
  "(if isReservedPort p
    then map (\<lambda>pattern. if patternNamesPortExactly pattern p then pattern else None) xs
    else xs) = map (narrow p) xs"
  by (induction xs) (auto simp: narrow_def)

lemma preflight_eq:
  "preflightConnect (VArray ps) (VString h) (IntNum p) None =
     (if length ps = 0 then Inl NotDeclared
      else if length ps > MAX_PATTERNS then Inl TooManyPatterns
      else if \<not> isValidPort (IntNum p) then Inl BadPort
      else (case canonical_request h of
              None \<Rightarrow> Inl (host_refusal h)
            | Some req \<Rightarrow>
                let elig = map (narrow p) (map parsePattern ps) in
                if isReservedPort p \<and> list_all (\<lambda>pattern. pattern = None) elig then Inl ReservedPort
                else Inr \<lparr>requested = req, eligible = elig,
                          isLiteral = (classifyAddress req \<noteq> Unparseable)\<rparr>))"
proof -
  have "preflightConnect (VArray ps) (VString h) (IntNum p) None =
     (if length ps = 0 then Inl NotDeclared
      else if length ps > MAX_PATTERNS then Inl TooManyPatterns
      else if \<not> isValidPort (IntNum p) then Inl BadPort
      else (case canonical_request h of
              None \<Rightarrow> Inl (host_refusal h)
            | Some req \<Rightarrow>
                let elig = map (narrow p) (map parsePattern ps) in
                if isReservedPort p \<and> list_all (\<lambda>pattern. pattern = None) elig then Inl ReservedPort
                else Inr \<lparr>requested = req, eligible = elig,
                          isLiteral = (classifyAddress (normalizeHost h) \<noteq> Unparseable)\<rparr>))"
    unfolding preflightConnect_def narrow_map canonical_request_def host_refusal_def Let_def
    by (cases "canonicalAddress (normalizeHost h)";
        cases "classifyAddress (normalizeHost h) = Unparseable"; cases "58 \<in> set (normalizeHost h)";
        cases "canonicalAddress (normalizeHost h) = Some (normalizeHost h)"; simp)
  then show ?thesis
    by (auto simp: canonical_request_class(1) Let_def split: option.splits)
qed

lemma preflight_Inr_iff:
  "preflightConnect (VArray ps) (VString h) (IntNum p) None = Inr pre \<longleftrightarrow>
     0 < length ps \<and> length ps \<le> MAX_PATTERNS \<and> isValidPort (IntNum p) \<and>
     canonical_request h = Some (requested pre) \<and>
     (isReservedPort p \<longrightarrow> (\<exists>pattern\<in>set ps. narrow p (parsePattern pattern) \<noteq> None)) \<and>
     pre = \<lparr>requested = requested pre, eligible = map (\<lambda>pattern. narrow p (parsePattern pattern)) ps,
            isLiteral = (classifyAddress (requested pre) \<noteq> Unparseable)\<rparr>"
  unfolding preflight_eq
  by (cases pre) (auto simp: Let_def list_all_iff comp_def split: option.splits)

lemma preflight_fields:
  assumes "preflightConnect (VArray ps) (VString h) (IntNum p) None = Inr pre"
  shows "0 < length ps" and "length ps \<le> MAX_PATTERNS" and "isValidPort (IntNum p)"
    and "canonical_request h = Some (requested pre)"
    and "eligible pre = map (\<lambda>pattern. narrow p (parsePattern pattern)) ps"
    and "isLiteral pre \<longleftrightarrow> classifyAddress (requested pre) \<noteq> Unparseable"
  using assms unfolding preflight_Inr_iff by (cases pre, simp)+

lemma preflight_cache:
  assumes "cached = map parsePattern ps \<or> length cached \<noteq> length ps"
  shows "preflightConnect (VArray ps) hostArg port (Some cached) =
    preflightConnect (VArray ps) hostArg port None"
proof -
  have c: "(if length cached = length ps then cached else map parsePattern ps) = map parsePattern ps"
    using assms by auto
  show ?thesis
    unfolding preflightConnect_def jsv.case option.case c ..
qed

text \<open>Only an array of patterns, a string and a number pass.\<close>

lemma preflight_shape:
  assumes "preflightConnect patterns hostArg port cached = Inr pre"
  obtains ps h p where "patterns = VArray ps" "hostArg = VString h" "port = IntNum p"
    "isValidPort (IntNum p)" "0 < length ps" "length ps \<le> MAX_PATTERNS"
  using assms by (fastforce simp: preflightConnect_def split: jsv.splits js_number.splits if_splits)

section \<open>The plain check\<close>

subsection \<open>The answers\<close>

definition first_occurrences :: "'a list \<Rightarrow> 'a list" where
  "first_occurrences xs = rev (remdups (rev xs))"

lemma first_occurrences_snoc:
  "first_occurrences (xs @ [x]) =
     (if x \<in> set xs then first_occurrences xs else first_occurrences xs @ [x])"
  by (simp add: first_occurrences_def)

lemma first_occurrences_props [simp]:
  "set (first_occurrences xs) = set xs" "distinct (first_occurrences xs)"
  "length (first_occurrences xs) \<le> length xs"
  by (simp_all add: first_occurrences_def order_trans [OF length_remdups_leq])

lemma first_occurrences_foldl:
  "foldl (\<lambda>acc a. if a \<in> set acc then acc else acc @ [a]) [] xs = first_occurrences xs"
proof (induction xs rule: rev_induct)
  case (snoc x xs)
  then show ?case by (simp add: first_occurrences_snoc)
qed (simp add: first_occurrences_def)

text \<open>An answer the loop accepts: a string that is a canonical literal and is authorised.\<close>

definition good_answer :: "parsed_pattern option list \<Rightarrow> str \<Rightarrow> int \<Rightarrow> str \<Rightarrow> bool" where
  "good_answer elig req port text \<longleftrightarrow>
     canonicalAddress (normalizeHost text) = Some (normalizeHost text) \<and>
     any_authorises elig req (normalizeHost text) port"

lemma ex_strings_Cons:
  "(\<exists>xs. VString s # ys = map VString xs \<and> P xs) \<longleftrightarrow> (\<exists>zs. ys = map VString zs \<and> P (s # zs))"
  by (auto simp: Cons_eq_map_conv)

lemma check_answers_foldl:
  "check_answers elig req port acc answers = ConnectAllowed dial \<longleftrightarrow>
     (\<exists>texts. answers = map VString texts \<and> (\<forall>t\<in>set texts. good_answer elig req port t) \<and>
        dial = foldl (\<lambda>acc a. if a \<in> set acc then acc else acc @ [a]) acc (map normalizeHost texts))"
proof (induction elig req port acc answers rule: check_answers.induct)
  case (2 elig req port addresses answer answers)
  show ?case
  proof (cases answer)
    case (VString s)
    let ?add = "(if normalizeHost s \<in> set addresses then addresses
                else addresses @ [normalizeHost s])"
    have "check_answers elig req port addresses (answer # answers) = ConnectAllowed dial \<longleftrightarrow>
        good_answer elig req port s \<and>
        check_answers elig req port ?add answers = ConnectAllowed dial"
      by (simp add: VString good_answer_def Let_def)
    also have "\<dots> \<longleftrightarrow> good_answer elig req port s \<and>
        (\<exists>texts. answers = map VString texts \<and> (\<forall>t\<in>set texts. good_answer elig req port t) \<and>
          dial = foldl (\<lambda>acc a. if a \<in> set acc then acc else acc @ [a]) ?add (map normalizeHost texts))"
      using 2 [OF VString refl] by (auto simp: good_answer_def)
    finally show ?thesis
      by (simp add: VString ex_strings_Cons) blast
  qed (auto simp: Cons_eq_map_conv)
qed auto

lemma check_answers_allowed:
  "check_answers elig req port [] answers = ConnectAllowed dial \<longleftrightarrow>
     (\<exists>texts. answers = map VString texts \<and> (\<forall>t\<in>set texts. good_answer elig req port t) \<and>
        dial = first_occurrences (map normalizeHost texts))"
  by (simp add: check_answers_foldl first_occurrences_foldl)

lemma any_authorises_could:
  "any_authorises elig req address port \<Longrightarrow> couldAnyPatternMatch elig req port"
  by (auto simp: any_authorises_def list_ex_iff dest: couldAnyPatternMatch_complete)

subsection \<open>One pattern against one request\<close>

definition connect_one :: "jsv \<Rightarrow> str \<times> str \<times> int \<Rightarrow> bool" where
  "connect_one pattern q = (case q of (h, a, p) \<Rightarrow>
     (case (canonical_request h, canonicalAddress a) of
        (Some req, Some reached) \<Rightarrow> patternAuthorises (narrow p (parsePattern pattern)) req reached p
      | _ \<Rightarrow> False))"

lemma patternAuthorises_None [simp]: "\<not> patternAuthorises None req a p"
  by (simp add: patternAuthorises_def)

lemma any_authorises_narrow:
  "any_authorises (map (\<lambda>pattern. narrow p (parsePattern pattern)) ps) req a p \<longleftrightarrow>
     (\<exists>pattern\<in>set ps. patternAuthorises (narrow p (parsePattern pattern)) req a p)"
  by (auto simp: any_authorises_def list_ex_iff)

lemma still_iff:
  "connectStillAuthorised (VArray ps) (VString h) a (IntNum p) \<longleftrightarrow>
     valid_request h p \<and> length ps \<le> MAX_PATTERNS \<and> (\<exists>pattern\<in>set ps. connect_one pattern (h, a, p))"
proof (cases "preflightConnect (VArray ps) (VString h) (IntNum p) None")
  case (Inl e)
  then have "\<not> (valid_request h p \<and> length ps \<le> MAX_PATTERNS \<and>
      (\<exists>pattern\<in>set ps. connect_one pattern (h, a, p)))"
    by (auto simp: preflight_eq valid_request_def connect_one_def Let_def list_all_iff
        split: if_splits option.splits)
  with Inl show ?thesis by (simp add: connectStillAuthorised_def)
next
  case (Inr pre)
  note f = preflight_fields [OF Inr]
  from Inr show ?thesis
    by (auto simp: f connectStillAuthorised_def valid_request_def connect_one_def port_value_def
        any_authorises_narrow split: option.splits)
qed

definition still_open :: "jsv list \<Rightarrow> str \<times> str \<times> int \<Rightarrow> bool" where
  "still_open ps q = (case q of (h, a, p) \<Rightarrow>
     connectStillAuthorised (VArray ps) (VString h) a (IntNum p))"

interpretation reconnect: pattern_decision still_open "\<lambda>(h, a, p). valid_request h p" connect_one MAX_PATTERNS
  by unfold_locales (auto simp: still_open_def still_iff MAX_PATTERNS_def)

subsection \<open>When the plain check allows, and what it hands back\<close>

definition dial_set :: "'e resolver \<Rightarrow> str \<Rightarrow> str list \<Rightarrow> bool" where
  "dial_set r req texts \<longleftrightarrow>
     (if classifyAddress req \<noteq> Unparseable then texts = [req] else r req = Inr (map VString texts))"

lemma loopback_literals_canonical: "a \<in> set LOOPBACK_LITERALS \<Longrightarrow> canonicalAddress a = Some a"
proof -
  have "list_all (\<lambda>a. canonicalAddress a = Some a) LOOPBACK_LITERALS" by code_simp
  then show "a \<in> set LOOPBACK_LITERALS \<Longrightarrow> canonicalAddress a = Some a"
    by (simp add: list_all_iff)
qed

lemma still_open_canonical:
  assumes "preflightConnect (VArray ps) (VString h) (IntNum p) None = Inr pre"
    and "canonicalAddress a = Some a"
  shows "still_open ps (h, a, p) \<longleftrightarrow> any_authorises (eligible pre) (requested pre) a p"
  using assms by (simp add: still_open_def connectStillAuthorised_def port_value_def)

lemma checkConnect_allowed_iff:
  "checkConnect (VArray ps) (VString h) (IntNum p) r None = Inr (ConnectAllowed dial) \<longleftrightarrow>
     (\<exists>req. canonical_request h = Some req \<and>
       (if req = LOCALHOST
        then dial \<noteq> [] \<and> dial = filter (\<lambda>a. still_open ps (h, a, p)) LOOPBACK_LITERALS
        else \<exists>texts. dial_set r req texts \<and> texts \<noteq> [] \<and> length texts \<le> MAX_ANSWERS \<and>
          (\<forall>t\<in>set texts. canonicalAddress (normalizeHost t) = Some (normalizeHost t) \<and>
             still_open ps (h, normalizeHost t, p)) \<and>
          dial = first_occurrences (map normalizeHost texts)))"
proof (cases "preflightConnect (VArray ps) (VString h) (IntNum p) None")
  case (Inl e)
  then have "\<not> still_open ps (h, a, p)" for a
    by (simp add: still_open_def connectStillAuthorised_def)
  then show ?thesis
    using Inl by (auto simp: checkConnect_def neq_Nil_conv)
next
  case (Inr pre)
  let ?req = "requested pre" and ?elig = "eligible pre"
  have req: "canonical_request h = Some ?req"
    and lit: "isLiteral pre \<longleftrightarrow> classifyAddress ?req \<noteq> Unparseable"
    using preflight_fields [OF Inr] by simp_all
  have could: "couldAnyPatternMatch ?elig ?req p" if "any_authorises ?elig ?req a p" for a
    using any_authorises_could [OF that] .
  show ?thesis
  proof (cases "?req = LOCALHOST")
    case True
    have "filter (\<lambda>a. still_open ps (h, a, p)) LOOPBACK_LITERALS =
        filter (\<lambda>a. any_authorises ?elig ?req a p) LOOPBACK_LITERALS"
      by (rule filter_cong [OF refl]) (simp add: still_open_canonical [OF Inr] loopback_literals_canonical)
    then show ?thesis
      using could by (auto simp: checkConnect_def Inr req True port_value_def Let_def filter_empty_conv)
  next
    case False
    have good: "good_answer ?elig ?req p t \<longleftrightarrow>
        canonicalAddress (normalizeHost t) = Some (normalizeHost t) \<and>
        still_open ps (h, normalizeHost t, p)" for t
      using still_open_canonical [OF Inr] by (auto simp: good_answer_def)
    let ?answers = "if isLiteral pre then Inr [VString ?req] else r ?req"
    have "checkConnect (VArray ps) (VString h) (IntNum p) r None = Inr (ConnectAllowed dial) \<longleftrightarrow>
        couldAnyPatternMatch ?elig ?req p \<and> (\<exists>answers. ?answers = Inr answers \<and> answers \<noteq> [] \<and>
          length answers \<le> MAX_ANSWERS \<and> check_answers ?elig ?req p [] answers = ConnectAllowed dial)"
      by (auto simp: checkConnect_def Inr False port_value_def Let_def split: sum.splits if_splits)
    also have "\<dots> \<longleftrightarrow> (\<exists>texts. ?answers = Inr (map VString texts) \<and> texts \<noteq> [] \<and>
          length texts \<le> MAX_ANSWERS \<and> (\<forall>t\<in>set texts. good_answer ?elig ?req p t) \<and>
          dial = first_occurrences (map normalizeHost texts))"
      unfolding check_answers_allowed
      by (fastforce simp: good_answer_def neq_Nil_conv intro: could)
    also have "\<dots> \<longleftrightarrow> (\<exists>texts. dial_set r ?req texts \<and> texts \<noteq> [] \<and>
          length texts \<le> MAX_ANSWERS \<and> (\<forall>t\<in>set texts. good_answer ?elig ?req p t) \<and>
          dial = first_occurrences (map normalizeHost texts))"
      by (simp add: dial_set_def lit Cons_eq_map_conv)
    finally show ?thesis
      by (simp add: req False good)
  qed
qed

text \<open>Every address handed back is a literal no dialer resolves again, and still authorised.\<close>

lemma checkConnect_dial:
  assumes "checkConnect (VArray ps) (VString h) (IntNum p) r None = Inr (ConnectAllowed dial)"
  shows "dial \<noteq> []" and "distinct dial" and "length dial \<le> MAX_ANSWERS"
    and "a \<in> set dial \<Longrightarrow> canonicalAddress a = Some a"
    and "a \<in> set dial \<Longrightarrow> still_open ps (h, a, p)"
proof -
  have two: "length (filter P LOOPBACK_LITERALS) \<le> MAX_ANSWERS" "distinct (filter P LOOPBACK_LITERALS)" for P
    by (simp_all add: LOOPBACK_LITERALS_def MAX_ANSWERS_def)
  obtain req where "canonical_request h = Some req"
    and d: "if req = LOCALHOST
        then dial \<noteq> [] \<and> dial = filter (\<lambda>a. still_open ps (h, a, p)) LOOPBACK_LITERALS
        else \<exists>texts. dial_set r req texts \<and> texts \<noteq> [] \<and> length texts \<le> MAX_ANSWERS \<and>
          (\<forall>t\<in>set texts. canonicalAddress (normalizeHost t) = Some (normalizeHost t) \<and>
             still_open ps (h, normalizeHost t, p)) \<and>
          dial = first_occurrences (map normalizeHost texts)"
    using assms unfolding checkConnect_allowed_iff by blast
  have "dial \<noteq> [] \<and> distinct dial \<and> length dial \<le> MAX_ANSWERS \<and>
    (\<forall>a\<in>set dial. canonicalAddress a = Some a \<and> still_open ps (h, a, p))"
  proof (cases "req = LOCALHOST")
    case True
    have n: "dial \<noteq> []" and e: "dial = filter (\<lambda>a. still_open ps (h, a, p)) LOOPBACK_LITERALS"
      using d [unfolded if_P [OF True]] by blast+
    have "length dial \<le> MAX_ANSWERS" "distinct dial"
      using two unfolding e by blast+
    moreover have "\<forall>a\<in>set dial. canonicalAddress a = Some a \<and> still_open ps (h, a, p)"
      unfolding e by (auto simp: loopback_literals_canonical)
    ultimately show ?thesis using n by blast
  next
    case False
    then obtain texts where t: "texts \<noteq> []" "length texts \<le> MAX_ANSWERS"
      "\<forall>t\<in>set texts. canonicalAddress (normalizeHost t) = Some (normalizeHost t) \<and>
         still_open ps (h, normalizeHost t, p)"
      "dial = first_occurrences (map normalizeHost texts)"
      using d by (auto split: if_splits)
    moreover have "length dial \<le> length texts"
      using first_occurrences_props(3) [of "map normalizeHost texts"] by (simp add: t(4))
    moreover have "set dial = normalizeHost ` set texts" by (simp add: t(4))
    ultimately show ?thesis
      by (metis (no_types, lifting) first_occurrences_props(2) image_iff image_is_empty
          le_trans set_empty)
  qed
  then show "dial \<noteq> []" and "distinct dial" and "length dial \<le> MAX_ANSWERS"
    and "a \<in> set dial \<Longrightarrow> canonicalAddress a = Some a"
    and "a \<in> set dial \<Longrightarrow> still_open ps (h, a, p)"
    by blast+
qed

text \<open>What one pattern that keeps an address open must be.\<close>

lemma connect_one_reach:
  assumes "connect_one pattern (h, a, p)" and "canonicalAddress a = Some a"
  shows "\<exists>pat req. parsePattern pattern = Some pat \<and> canonical_request h = Some req \<and>
    portMatches (pat_port pat) p \<and> hostMatches (pat_host pat) req a \<and>
    (isReservedPort p \<longrightarrow> patternNamesPortExactly (Some pat) p)"
  using assms
  by (auto simp: connect_one_def narrow_def patternAuthorises_def split: option.splits if_splits)

text \<open>The resolver is asked for nothing but the requested name, and only when that is one.\<close>

lemma checkConnect_resolver:
  assumes "\<And>req. canonical_request h = Some req \<Longrightarrow> classifyAddress req = Unparseable \<Longrightarrow>
      req \<noteq> LOCALHOST \<Longrightarrow>
      couldAnyPatternMatch (map (\<lambda>pattern. narrow p (parsePattern pattern)) ps) req p \<Longrightarrow>
      r req = r' req"
  shows "checkConnect (VArray ps) (VString h) (IntNum p) r None =
    checkConnect (VArray ps) (VString h) (IntNum p) r' None"
proof (cases "preflightConnect (VArray ps) (VString h) (IntNum p) None")
  case (Inr pre)
  have "couldAnyPatternMatch (eligible pre) (requested pre) p \<Longrightarrow> \<not> isLiteral pre \<Longrightarrow>
      requested pre \<noteq> LOCALHOST \<Longrightarrow> r (requested pre) = r' (requested pre)"
    using assms [of "requested pre"] preflight_fields [OF Inr] by simp
  then show ?thesis
    by (cases "couldAnyPatternMatch (eligible pre) (requested pre) p"; cases "isLiteral pre";
        cases "requested pre = LOCALHOST"; simp add: checkConnect_def Inr port_value_def Let_def)
qed (simp add: checkConnect_def)

lemma checkConnect_raises:
  assumes "checkConnect (VArray ps) (VString h) (IntNum p) r None = Inl e"
  shows "\<exists>req. canonical_request h = Some req \<and> classifyAddress req = Unparseable \<and>
    req \<noteq> LOCALHOST \<and> r req = Inl e \<and>
    couldAnyPatternMatch (map (\<lambda>pattern. narrow p (parsePattern pattern)) ps) req p"
proof (cases "preflightConnect (VArray ps) (VString h) (IntNum p) None")
  case (Inr pre)
  note f = preflight_fields [OF Inr]
  show ?thesis
    using assms f(4,5,6)
    by (auto simp: checkConnect_def Inr port_value_def Let_def split: if_splits sum.splits)
qed (use assms in \<open>simp add: checkConnect_def\<close>)

section \<open>The secure check\<close>

definition secure_one :: "jsv \<Rightarrow> str \<times> int \<Rightarrow> bool" where
  "secure_one pattern q = (case q of (h, p) \<Rightarrow>
     (case canonical_request h of
        Some req \<Rightarrow> hostMatchesSecure (narrow p (parsePattern pattern)) req p
      | None \<Rightarrow> False))"

definition secure_allowed :: "jsv list \<Rightarrow> str \<times> int \<Rightarrow> bool" where
  "secure_allowed ps q = (case q of (h, p) \<Rightarrow>
     (\<exists>host. checkConnectSecure (VArray ps) (VString h) (IntNum p) = SecureAllowed host))"

lemma secure_allowed_host:
  "checkConnectSecure (VArray ps) (VString h) (IntNum p) = SecureAllowed host \<longleftrightarrow>
     canonical_request h = Some host \<and> valid_request h p \<and> length ps \<le> MAX_PATTERNS \<and>
     (\<exists>pattern\<in>set ps. secure_one pattern (h, p))"
proof (cases "preflightConnect (VArray ps) (VString h) (IntNum p) None")
  case (Inl e)
  then have "\<not> (valid_request h p \<and> length ps \<le> MAX_PATTERNS \<and>
      (\<exists>pattern\<in>set ps. secure_one pattern (h, p)))"
    by (auto simp: preflight_eq valid_request_def secure_one_def Let_def list_all_iff
        hostMatchesSecure_def split: if_splits option.splits)
  with Inl show ?thesis by (simp add: checkConnectSecure_def)
next
  case (Inr pre)
  note f = preflight_fields [OF Inr]
  have "list_ex (\<lambda>pattern. hostMatchesSecure pattern (requested pre) p) (eligible pre) \<longleftrightarrow>
      (\<exists>pattern\<in>set ps. secure_one pattern (h, p))"
    by (auto simp: f secure_one_def list_ex_iff)
  then show ?thesis
    using f(2,3,4)
    by (auto simp: checkConnectSecure_def Inr port_value_def Let_def valid_request_def)
qed

lemma secure_allowed_iff:
  "secure_allowed ps (h, p) \<longleftrightarrow>
     valid_request h p \<and> length ps \<le> MAX_PATTERNS \<and> (\<exists>pattern\<in>set ps. secure_one pattern (h, p))"
  by (auto simp: secure_allowed_def secure_allowed_host valid_request_def)

interpretation secure: pattern_decision secure_allowed "\<lambda>(h, p). valid_request h p" secure_one MAX_PATTERNS
  by unfold_locales (auto simp: secure_allowed_iff MAX_PATTERNS_def)

text \<open>
  What a TLS grant reaches: a name or literal a pattern spells out, or, by a bare \<open>*\<close>, a host
  that is neither a literal outside public unicast nor a localhost name. On a reserved port the
  pattern names that very port.
\<close>

lemma secure_one_reach:
  assumes "secure_one pattern (h, p)"
  shows "\<exists>pat req. parsePattern pattern = Some pat \<and> canonical_request h = Some req \<and>
    portMatches (pat_port pat) p \<and>
    (if pat_host pat = js ''*'' then \<not> isNonPublicAddressLiteral req \<and> \<not> isLocalhostName req
     else normalizeHost (pat_host pat) = req) \<and>
    (isReservedPort p \<longrightarrow> patternNamesPortExactly (Some pat) p)"
  using assms
  by (auto simp: secure_one_def narrow_def hostMatchesSecure_def split: option.splits if_splits)

section \<open>The routed check\<close>

lemma literal_localhost: "classifyAddress req \<noteq> Unparseable \<Longrightarrow> req \<noteq> LOCALHOST"
  using localhost_name by auto

lemma classifyIpv6_not_Unparseable: "classifyIpv6 bs \<noteq> Unparseable"
proof -
  have "cls6 row \<noteq> Unparseable" if "row \<in> set IPV6_BLOCKED" for row
    using that by (auto simp: IPV6_BLOCKED_def)
  then show ?thesis
    using classifyIpv4_not_Unparseable
    by (auto simp: classifyIpv6_def find_Some_iff split: option.splits)
qed

lemma canonical_literal: "canonicalAddress a = Some b \<Longrightarrow> classifyAddress a \<noteq> Unparseable"
  using classifyIpv4_not_Unparseable classifyIpv6_not_Unparseable
  by (auto elim: canonicalAddress_cases)

lemma canonical_request_literal:
  assumes "canonicalAddress a = Some a"
  shows "canonical_request a = Some a"
proof -
  note shape = canonical_shape [OF assms]
  have "isAsciiHost a"
    using shape(4) by (fastforce simp: isAsciiHost_def list_all_iff)
  then show ?thesis
    using shape(1,3) assms canonical_literal [OF assms]
    by (simp add: canonical_request_def normalizeHost_canonical [OF assms] MAX_LENGTH_def
        MAX_HOST_LENGTH_def)
qed

text \<open>A literal request: the check needs no resolver and hands back the literal itself.\<close>

lemma checkConnect_literal:
  assumes "canonical_request h = Some req" and "classifyAddress req \<noteq> Unparseable"
  shows "checkConnect (VArray ps) (VString h) (IntNum p) r None = Inr (ConnectAllowed dial) \<longleftrightarrow>
    dial = [req] \<and> still_open ps (h, req, p)"
proof -
  have c: "canonicalAddress req = Some req"
    using canonical_request_class(2) [OF assms(1,2)] .
  show ?thesis
    unfolding checkConnect_allowed_iff
    using assms literal_localhost [OF assms(2)]
    by (auto simp: dial_set_def c normalizeHost_canonical [OF c] first_occurrences_def MAX_ANSWERS_def)
qed

lemma checkRoutedConnect_no_raise: "\<exists>d. checkRoutedConnect patterns hostArg port = Inr d"
proof (cases "preflightConnect patterns hostArg port None")
  case (Inr pre)
  then obtain ps h p where a: "patterns = VArray ps" "hostArg = VString h" "port = IntNum p"
    by (rule preflight_shape)
  have "checkConnect (VArray ps) (VString h) (IntNum p) NO_RESOLVER None \<noteq> Inl e" if "isLiteral pre" for e
  proof
    assume "checkConnect (VArray ps) (VString h) (IntNum p) NO_RESOLVER None = Inl e"
    from checkConnect_raises [OF this] show False
      using that preflight_fields(4,6) [OF Inr [unfolded a]] by auto
  qed
  then have "isLiteral pre \<Longrightarrow> \<exists>d. checkConnect patterns hostArg port NO_RESOLVER None = Inr d"
    unfolding a by (metis sum.exhaust)
  then show ?thesis
    by (auto simp: checkRoutedConnect_def Inr split: connect_decision.splits secure_decision.splits
        list.splits)
qed (simp add: checkRoutedConnect_def)

lemma checkRoutedConnect_allowed:
  "checkRoutedConnect (VArray ps) (VString h) (IntNum p) = Inr (RoutedAllowed host) \<longleftrightarrow>
     canonical_request h = Some host \<and>
     (if classifyAddress host \<noteq> Unparseable then still_open ps (h, host, p)
      else secure_allowed ps (h, p))"
proof (cases "preflightConnect (VArray ps) (VString h) (IntNum p) None")
  case (Inl e)
  then have "\<not> still_open ps (h, host, p)" "\<not> secure_allowed ps (h, p)"
    by (simp_all add: still_open_def connectStillAuthorised_def secure_allowed_def checkConnectSecure_def)
  then show ?thesis using Inl by (auto simp: checkRoutedConnect_def)
next
  case (Inr pre)
  note f = preflight_fields [OF Inr]
  show ?thesis
  proof (cases "isLiteral pre")
    case True
    then have lit: "classifyAddress (requested pre) \<noteq> Unparseable" using f(6) by simp
    have "checkRoutedConnect (VArray ps) (VString h) (IntNum p) = Inr (RoutedAllowed host) \<longleftrightarrow>
        (\<exists>rest. checkConnect (VArray ps) (VString h) (IntNum p) NO_RESOLVER None =
          Inr (ConnectAllowed (host # rest)))"
      using True
      by (auto simp: checkRoutedConnect_def Inr split: sum.splits connect_decision.splits list.splits)
    then show ?thesis
      using lit f(4) by (auto simp: checkConnect_literal [OF f(4) lit])
  next
    case False
    then have "classifyAddress (requested pre) = Unparseable" using f(6) by simp
    moreover have "checkRoutedConnect (VArray ps) (VString h) (IntNum p) = Inr (RoutedAllowed host) \<longleftrightarrow>
        checkConnectSecure (VArray ps) (VString h) (IntNum p) = SecureAllowed host"
      using False by (auto simp: checkRoutedConnect_def Inr split: secure_decision.splits)
    ultimately show ?thesis
      using f(4) by (auto simp: secure_allowed_host secure_allowed_iff)
  qed
qed

lemma routed_still_authorised:
  assumes "checkRoutedConnect (VArray ps) (VString h) (IntNum p) = Inr (RoutedAllowed host)"
    and "classifyAddress host = Unparseable \<Longrightarrow> normalizeHost host = host"
  shows "routedStillAuthorised (VArray ps) host (IntNum p)"
proof -
  have req: "canonical_request h = Some host"
    and d: "if classifyAddress host \<noteq> Unparseable then still_open ps (h, host, p)
      else secure_allowed ps (h, p)"
    using assms(1) unfolding checkRoutedConnect_allowed by simp_all
  have again: "canonical_request host = Some host"
  proof (cases "classifyAddress host = Unparseable")
    case True
    then have "host = normalizeHost h" using canonical_request_class(3) [OF req] by simp
    then show ?thesis
      using req assms(2) [OF True] True
      by (simp add: canonical_request_def Let_def split: if_splits)
  next
    case False
    then show ?thesis
      using canonical_request_literal canonical_request_class(2) [OF req] by blast
  qed
  then have v: "valid_request host p = valid_request h p"
    and o: "\<And>pattern. connect_one pattern (host, host, p) = connect_one pattern (h, host, p)"
    and s: "\<And>pattern. secure_one pattern (host, p) = secure_one pattern (h, p)"
    using req by (simp_all add: valid_request_def connect_one_def secure_one_def)
  show ?thesis
  proof (cases "classifyAddress host = Unparseable")
    case True
    then have "secure_allowed ps (host, p)"
      using d v s by (simp add: secure_allowed_iff)
    then show ?thesis
      using True by (auto simp: routedStillAuthorised_def secure_allowed_def)
  next
    case False
    then have "connectStillAuthorised (VArray ps) (VString host) host (IntNum p)"
      using d v o by (simp add: still_iff still_open_def)
    then show ?thesis using False by (simp add: routedStillAuthorised_def)
  qed
qed

end
