(* ===== verification/Bind.thy ===== *)
theory Bind imports Connect begin

section \<open>Name lookups and inbound sockets (lookup.ts, bind.ts, bind-scope.ts)\<close>

text \<open>
  The two remaining users of the pattern grammar: \<open>checkLookup\<close> matches a name against the host
  part of the granted patterns alone, \<open>checkBind\<close> matches a port against patterns that are bare
  port specs, and \<open>chooseBindGrant\<close> picks the first grant that covers a port. The lemmas show that a
  bind never reaches a privileged port nor leaves the ranges some granted pattern spells out.
\<close>

subsection \<open>lookup.ts\<close>

record lookup_address =
  address :: str
  family4 :: bool

definition LOCALHOST_ANSWERS :: "lookup_address list" where
  "LOCALHOST_ANSWERS =
     [\<lparr>address = js ''127.0.0.1'', family4 = True\<rparr>, \<lparr>address = js ''::1'', family4 = False\<rparr>]"

datatype lookup_decision =
  LookupAllowed str "lookup_address list option"
| LookupDenied denial_reason

definition hostAuthorisesLookup :: "parsed_pattern option \<Rightarrow> str \<Rightarrow> bool" where
  "hostAuthorisesLookup parsed req =
     (case parsed of
        None \<Rightarrow> False
      | Some pat \<Rightarrow>
          (case hostSpecKind (pat_host pat) of
             AnyPublicUnicast \<Rightarrow> True
           | Hostname \<Rightarrow> normalizeHost (pat_host pat) = req
           | _ \<Rightarrow> False))"

definition checkLookup :: "jsv \<Rightarrow> jsv \<Rightarrow> lookup_decision" where
  "checkLookup patterns hostnameArg =
     (case patterns of VArray ps \<Rightarrow>
        if length ps = 0 then LookupDenied NotDeclared
        else if length ps > MAX_PATTERNS then LookupDenied TooManyPatterns
        else (case hostnameArg of VString h \<Rightarrow>
          let req = normalizeHost h in
          if length req = 0 \<or> length req > MAX_HOST_LENGTH \<or> \<not> isAsciiHost req
          then LookupDenied BadHost
          else let parsed = map parsePattern ps in
            if \<not> list_ex (\<lambda>pattern. hostAuthorisesLookup pattern req) parsed
            then LookupDenied NoPatternMatch
            else if req = LOCALHOST \<and>
              list_ex (\<lambda>pattern. case pattern of
                         None \<Rightarrow> False
                       | Some pat \<Rightarrow> normalizeHost (pat_host pat) = LOCALHOST) parsed
            then LookupAllowed req (Some LOCALHOST_ANSWERS)
            else LookupAllowed req None
        | _ \<Rightarrow> LookupDenied BadHost)
      | _ \<Rightarrow> LookupDenied NotDeclared)"

subsection \<open>bind.ts\<close>

record port_range =
  range_lo :: int
  range_hi :: int

datatype bind_denial =
  BindNotDeclared | BindTooManyPatterns | BindBadPort | PrivilegedPort | WildcardPattern
| PrivilegedPattern | UnparseablePattern | BindNoPatternMatch

datatype bind_decision = BindAllowed "port_range list" | BindDenied bind_denial

text \<open>One turn of the loop over the patterns: \<open>usable\<close> grows, or the first \<open>problem\<close> is kept.\<close>

definition keep_first :: "bind_denial option \<Rightarrow> bind_denial \<Rightarrow> bind_denial option" where
  "keep_first problem reason = (case problem of None \<Rightarrow> Some reason | Some r \<Rightarrow> Some r)"

fun usable_ranges ::
  "jsv list \<Rightarrow> port_range list \<Rightarrow> bind_denial option \<Rightarrow> port_range list \<times> bind_denial option" where
  "usable_ranges [] usable problem = (usable, problem)"
| "usable_ranges (pattern # patterns) usable problem =
     (case pattern of VString text \<Rightarrow>
        (case parsePortSpec (trim text) of
           None \<Rightarrow> usable_ranges patterns usable (keep_first problem UnparseablePattern)
         | Some AnyPort \<Rightarrow> usable_ranges patterns usable (keep_first problem WildcardPattern)
         | Some (PortSpan lo hi) \<Rightarrow>
             if lo < MIN_UNPRIVILEGED_PORT
             then usable_ranges patterns usable (keep_first problem PrivilegedPattern)
             else usable_ranges patterns (usable @ [\<lparr>range_lo = lo, range_hi = hi\<rparr>]) problem)
      | _ \<Rightarrow> usable_ranges patterns usable (keep_first problem UnparseablePattern))"

definition checkBind :: "jsv \<Rightarrow> js_number \<Rightarrow> bind_decision" where
  "checkBind patterns port =
     (case patterns of VArray ps \<Rightarrow>
        if length ps = 0 then BindDenied BindNotDeclared
        else if length ps > MAX_PATTERNS then BindDenied BindTooManyPatterns
        else (case port of NonInt \<Rightarrow> BindDenied BindBadPort | IntNum p \<Rightarrow>
          if p < 0 \<or> p > MAX_PORT then BindDenied BindBadPort
          else if p \<noteq> 0 \<and> p < MIN_UNPRIVILEGED_PORT then BindDenied PrivilegedPort
          else (case usable_ranges ps [] None of (usable, problem) \<Rightarrow>
            if length usable = 0
            then BindDenied (case problem of None \<Rightarrow> BindNoPatternMatch | Some r \<Rightarrow> r)
            else if p = 0 then BindAllowed usable
            else let covered = list_ex (\<lambda>r. p \<ge> range_lo r \<and> p \<le> range_hi r) usable in
              if covered then BindAllowed [\<lparr>range_lo = p, range_hi = p\<rparr>]
              else BindDenied BindNoPatternMatch))
      | _ \<Rightarrow> BindDenied BindNotDeclared)"

subsection \<open>bind-scope.ts\<close>

datatype bind_family = TcpListen | UdpBind

definition LOOPBACK_ADDRESS :: str where
  "LOOPBACK_ADDRESS = js ''127.0.0.1''"

definition ANY_ADDRESS :: str where
  "ANY_ADDRESS = js ''0.0.0.0''"

definition isBindScope :: "jsv \<Rightarrow> bool" where
  "isBindScope value \<longleftrightarrow> value = VString (js ''local'') \<or> value = VString (js ''network'')"

text \<open>Any value but \<open>'network'\<close>, a wrongly typed one included, gets loopback.\<close>

definition bindAddressFor :: "jsv \<Rightarrow> str" where
  "bindAddressFor scope = (if scope = VString (js ''network'') then ANY_ADDRESS else LOOPBACK_ADDRESS)"

definition family_name :: "bind_family \<Rightarrow> str" where
  "family_name family = (case family of TcpListen \<Rightarrow> js ''tcp.listen'' | UdpBind \<Rightarrow> js ''udp.bind'')"

definition bindCapabilitiesFor :: "bind_family \<Rightarrow> jsv \<Rightarrow> str list" where
  "bindCapabilitiesFor family scope =
     (if scope = VString (js ''network'') then [family_name family @ js ''.network'']
      else [family_name family @ js ''.local'', family_name family @ js ''.network''])"

fun chooseBindGrant :: "('g \<Rightarrow> jsv) \<Rightarrow> 'g list \<Rightarrow> js_number \<Rightarrow> ('g \<times> port_range list) option" where
  "chooseBindGrant patterns_of [] port = None"
| "chooseBindGrant patterns_of (grant # grants) port =
     (case checkBind (patterns_of grant) port of
        BindAllowed ranges \<Rightarrow> Some (grant, ranges)
      | BindDenied _ \<Rightarrow> chooseBindGrant patterns_of grants port)"

section \<open>Lookups\<close>

definition lookup_valid :: "str \<Rightarrow> bool" where
  "lookup_valid h \<longleftrightarrow> normalizeHost h \<noteq> [] \<and> length (normalizeHost h) \<le> MAX_HOST_LENGTH \<and>
     isAsciiHost (normalizeHost h)"

definition lookup_one :: "jsv \<Rightarrow> str \<Rightarrow> bool" where
  "lookup_one pattern h = hostAuthorisesLookup (parsePattern pattern) (normalizeHost h)"

definition lookup_allowed :: "jsv list \<Rightarrow> str \<Rightarrow> bool" where
  "lookup_allowed ps h \<longleftrightarrow>
     (case checkLookup (VArray ps) (VString h) of LookupAllowed _ _ \<Rightarrow> True | LookupDenied _ \<Rightarrow> False)"

lemma lookup_allowed_iff:
  "lookup_allowed ps h \<longleftrightarrow> lookup_valid h \<and> length ps \<le> MAX_PATTERNS \<and> (\<exists>p\<in>set ps. lookup_one p h)"
  by (auto simp: lookup_allowed_def checkLookup_def lookup_valid_def lookup_one_def Let_def list_ex_iff
      split: if_splits)

interpretation lookup: pattern_decision lookup_allowed lookup_valid lookup_one MAX_PATTERNS
  by unfold_locales (simp_all add: lookup_allowed_iff MAX_PATTERNS_def)

text \<open>The loopback answer is given only for \<open>localhost\<close>, and only by a pattern that names it.\<close>

lemma lookup_answers:
  assumes "checkLookup (VArray ps) (VString h) = LookupAllowed name (Some answers)"
  shows "name = LOCALHOST \<and> answers = LOCALHOST_ANSWERS \<and>
    (\<exists>p\<in>set ps. \<exists>pat. parsePattern p = Some pat \<and> normalizeHost (pat_host pat) = LOCALHOST)"
  using assms
  by (auto simp: checkLookup_def Let_def list_ex_iff split: if_splits option.splits)

section \<open>Binds\<close>

text \<open>The ranges one pattern contributes.\<close>

definition pattern_ranges :: "jsv \<Rightarrow> port_range list" where
  "pattern_ranges pattern =
     (case pattern of VString text \<Rightarrow>
        (case parsePortSpec (trim text) of
           Some (PortSpan lo hi) \<Rightarrow>
             if lo < MIN_UNPRIVILEGED_PORT then [] else [\<lparr>range_lo = lo, range_hi = hi\<rparr>]
         | _ \<Rightarrow> [])
      | _ \<Rightarrow> [])"

lemma usable_ranges_eq: "fst (usable_ranges ps usable problem) = usable @ concat (map pattern_ranges ps)"
  by (induction ps usable problem rule: usable_ranges.induct)
    (auto simp: pattern_ranges_def split: jsv.split option.split port_spec.split)

lemma pattern_ranges_bounds:
  "r \<in> set (pattern_ranges pattern) \<Longrightarrow>
     MIN_UNPRIVILEGED_PORT \<le> range_lo r \<and> range_lo r \<le> range_hi r \<and> range_hi r \<le> MAX_PORT"
  by (auto simp: pattern_ranges_def dest: parsePortSpec_bounds parsePortSpec_bounds [OF sym]
      split: jsv.splits option.splits port_spec.splits if_splits)

definition bind_valid :: "int \<Rightarrow> bool" where
  "bind_valid p \<longleftrightarrow> MIN_UNPRIVILEGED_PORT \<le> p \<and> p \<le> MAX_PORT"

definition bind_one :: "jsv \<Rightarrow> int \<Rightarrow> bool" where
  "bind_one pattern p \<longleftrightarrow> list_ex (\<lambda>r. range_lo r \<le> p \<and> p \<le> range_hi r) (pattern_ranges pattern)"

text \<open>A bind to an explicit port (0 asks for an ephemeral one).\<close>

definition bind_allowed :: "jsv list \<Rightarrow> int \<Rightarrow> bool" where
  "bind_allowed ps p \<longleftrightarrow> p \<noteq> 0 \<and>
     (case checkBind (VArray ps) (IntNum p) of BindAllowed _ \<Rightarrow> True | BindDenied _ \<Rightarrow> False)"

lemma checkBind_eq:
  "checkBind (VArray ps) (IntNum p) =
     (let usable = concat (map pattern_ranges ps) in
      if length ps = 0 then BindDenied BindNotDeclared
      else if length ps > MAX_PATTERNS then BindDenied BindTooManyPatterns
      else if p < 0 \<or> p > MAX_PORT then BindDenied BindBadPort
      else if p \<noteq> 0 \<and> p < MIN_UNPRIVILEGED_PORT then BindDenied PrivilegedPort
      else if usable = []
      then BindDenied (case snd (usable_ranges ps [] None) of None \<Rightarrow> BindNoPatternMatch | Some r \<Rightarrow> r)
      else if p = 0 then BindAllowed usable
      else if list_ex (\<lambda>r. range_lo r \<le> p \<and> p \<le> range_hi r) usable
      then BindAllowed [\<lparr>range_lo = p, range_hi = p\<rparr>]
      else BindDenied BindNoPatternMatch)"
proof -
  obtain usable problem where u: "usable_ranges ps [] None = (usable, problem)" by force
  then have "usable = concat (map pattern_ranges ps)"
    using usable_ranges_eq [of ps "[]" None] by simp
  with u show ?thesis by (simp add: checkBind_def Let_def)
qed

lemma bind_allowed_iff:
  "bind_allowed ps p \<longleftrightarrow> bind_valid p \<and> length ps \<le> MAX_PATTERNS \<and> (\<exists>q\<in>set ps. bind_one q p)"
  by (auto simp: bind_allowed_def checkBind_eq Let_def bind_valid_def bind_one_def list_ex_iff
      MIN_UNPRIVILEGED_PORT_def split: if_splits)

interpretation bind: pattern_decision bind_allowed bind_valid bind_one MAX_PATTERNS
  by unfold_locales (simp_all add: bind_allowed_iff MAX_PATTERNS_def)

lemma checkBind_allowed_shape:
  assumes "checkBind patterns port = BindAllowed ranges"
  obtains ps p where "patterns = VArray ps" "port = IntNum p"
  using assms by (auto simp: checkBind_def split: jsv.splits js_number.splits if_splits)

text \<open>The ranges of an allowed bind: never empty, all unprivileged, all granted.\<close>

lemma checkBind_ranges:
  assumes "checkBind (VArray ps) (IntNum p) = BindAllowed ranges"
  shows "ranges \<noteq> []"
    and "r \<in> set ranges \<Longrightarrow>
      MIN_UNPRIVILEGED_PORT \<le> range_lo r \<and> range_lo r \<le> range_hi r \<and> range_hi r \<le> MAX_PORT \<and>
      (\<exists>q\<in>set ps. \<exists>g\<in>set (pattern_ranges q). range_lo g \<le> range_lo r \<and> range_hi r \<le> range_hi g)"
    and "p \<noteq> 0 \<Longrightarrow> ranges = [\<lparr>range_lo = p, range_hi = p\<rparr>]"
  using assms pattern_ranges_bounds
  by (auto simp: checkBind_eq Let_def list_ex_iff split: if_splits) (fastforce)+

lemma first_split_Cons:
  "(\<exists>before after. x # xs = before @ g # after \<and> P \<and> (\<forall>b\<in>set before. Q b)) \<longleftrightarrow>
     (x = g \<and> P) \<or> (Q x \<and> (\<exists>before after. xs = before @ g # after \<and> P \<and> (\<forall>b\<in>set before. Q b)))"
  (is "?l \<longleftrightarrow> ?r")
proof
  assume ?l
  then obtain before after where "x # xs = before @ g # after" "P" "\<forall>b\<in>set before. Q b" by blast
  then show ?r by (cases before) auto
next
  assume ?r
  then consider "x = g" "P"
    | before after where "Q x" "xs = before @ g # after" "P" "\<forall>b\<in>set before. Q b" by blast
  then show ?l
  proof cases
    case 1
    then have "x # xs = [] @ g # xs \<and> P \<and> (\<forall>b\<in>set []. Q b)" by simp
    then show ?thesis by blast
  next
    case 2
    then have "x # xs = (x # before) @ g # after \<and> P \<and> (\<forall>b\<in>set (x # before). Q b)" by simp
    then show ?thesis by blast
  qed
qed

text \<open>The chosen grant is the first that covers the port.\<close>

lemma chooseBindGrant_first:
  "chooseBindGrant patterns_of grants port = Some (g, ranges) \<longleftrightarrow>
     (\<exists>before after. grants = before @ g # after \<and>
        checkBind (patterns_of g) port = BindAllowed ranges \<and>
        (\<forall>b\<in>set before. \<exists>reason. checkBind (patterns_of b) port = BindDenied reason))"
proof (induction grants)
  case (Cons x grants)
  then show ?case
    unfolding first_split_Cons by (cases "checkBind (patterns_of x) port") auto
qed simp

lemma chooseBindGrant_none:
  "chooseBindGrant patterns_of grants port = None \<longleftrightarrow>
     (\<forall>g\<in>set grants. \<exists>reason. checkBind (patterns_of g) port = BindDenied reason)"
proof (induction grants)
  case (Cons x grants)
  then show ?case by (cases "checkBind (patterns_of x) port") auto
qed simp

end
