(* ===== verification/Version.thy ===== *)
theory Version imports Prelude "HOL-Library.List_Lexorder" begin

section \<open>Version ordering (version-order.ts)\<close>

text \<open>
  The semver comparison behind the version floor. The two loops over components are one
  definition, \<open>first_difference\<close>, applied to what the code compares at each index. The locale
  \<open>comparator\<close> states what a sort order must promise of a three-way comparison; it is
  interpreted on the release comparison, the prerelease comparison and their composition, which
  gives that \<open>compareVersions\<close> is a total preorder on everything it can parse.
\<close>

subsection \<open>Comparisons by index\<close>

definition sign :: "int \<Rightarrow> int" where
  "sign d = (if d = 0 then 0 else if d < 0 then -1 else 1)"

definition head :: "'a list \<Rightarrow> 'a option" where
  "head xs = (case xs of [] \<Rightarrow> None | x # _ \<Rightarrow> Some x)"

text \<open>
  \<open>for (i = 0; i < max (a.length, b.length); i += 1)\<close> with \<open>a[i]\<close> and \<open>b[i]\<close> possibly
  undefined: the first comparison that is not 0, or 0.
\<close>

function first_difference :: "('a option \<Rightarrow> 'a option \<Rightarrow> int) \<Rightarrow> 'a list \<Rightarrow> 'a list \<Rightarrow> int" where
  "first_difference c xs ys =
     (if xs = [] \<and> ys = [] then 0
      else let d = c (head xs) (head ys) in
        if d \<noteq> 0 then d else first_difference c (tl xs) (tl ys))"
  by pat_completeness auto
termination
  by (relation "measure (\<lambda>(c, xs, ys). length xs + length ys)") (auto simp: neq_Nil_conv)

declare first_difference.simps [simp del]

subsection \<open>version-order.ts\<close>

record parsed_version =
  release :: "nat list"
  prerelease :: "str list"

definition RELEASE_COMPONENT :: "str \<Rightarrow> bool" where
  "RELEASE_COMPONENT s \<longleftrightarrow> 1 \<le> length s \<and> length s \<le> 9 \<and> list_all is_digit s"

definition PRERELEASE_IDENTIFIER :: "str \<Rightarrow> bool" where
  "PRERELEASE_IDENTIFIER s \<longleftrightarrow> s \<noteq> [] \<and>
     list_all (\<lambda>c. is_digit c \<or> (65 \<le> c \<and> c \<le> 90) \<or> (97 \<le> c \<and> c \<le> 122) \<or> c = 45) s"

definition splitOnce :: "str \<Rightarrow> str \<Rightarrow> str \<times> str option" where
  "splitOnce t separator =
     (case index_of separator t of
        None \<Rightarrow> (t, None)
      | Some i \<Rightarrow> (take i t, Some (drop (i + length separator) t)))"

definition parseVersion :: "str \<Rightarrow> parsed_version option" where
  "parseVersion raw =
     (let t = trim raw in
      if length t = 0 then None
      else let withoutBuild = fst (splitOnce t (js ''+''));
               (core, prereleaseText) = splitOnce withoutBuild (js ''-'');
               components = split_on 46 core
           in if \<not> list_all RELEASE_COMPONENT components then None
              else let numbers = map (parse_int 10) components in
                (case prereleaseText of
                   None \<Rightarrow> Some \<lparr>release = numbers, prerelease = []\<rparr>
                 | Some pt \<Rightarrow>
                     let identifiers = split_on 46 pt in
                     if \<not> list_all PRERELEASE_IDENTIFIER identifiers then None
                     else Some \<lparr>release = numbers, prerelease = identifiers\<rparr>))"

definition or_zero :: "nat option \<Rightarrow> int" where
  "or_zero n = (case n of None \<Rightarrow> 0 | Some k \<Rightarrow> int k)"

definition compare_component :: "nat option \<Rightarrow> nat option \<Rightarrow> int" where
  "compare_component l r = sign (or_zero l - or_zero r)"

definition compare_identifier :: "str option \<Rightarrow> str option \<Rightarrow> int" where
  "compare_identifier l r =
     (case (l, r) of
        (None, None) \<Rightarrow> 0
      | (None, Some _) \<Rightarrow> -1
      | (Some _, None) \<Rightarrow> 1
      | (Some a, Some b) \<Rightarrow>
          let leftIsNumeric = RELEASE_COMPONENT a; rightIsNumeric = RELEASE_COMPONENT b in
          if leftIsNumeric \<and> rightIsNumeric
          then sign (int (parse_int 10 a) - int (parse_int 10 b))
          else if leftIsNumeric \<noteq> rightIsNumeric then (if leftIsNumeric then -1 else 1)
          else if a \<noteq> b then (if a < b then -1 else 1)
          else 0)"

definition comparePrerelease :: "str list \<Rightarrow> str list \<Rightarrow> int" where
  "comparePrerelease a b =
     (if length a = 0 \<and> length b = 0 then 0
      else if length a = 0 then 1
      else if length b = 0 then -1
      else first_difference compare_identifier a b)"

definition compareVersions :: "str \<Rightarrow> str \<Rightarrow> int option" where
  "compareVersions a b =
     (case (parseVersion a, parseVersion b) of
        (Some left, Some right) \<Rightarrow>
          let d = first_difference compare_component (release left) (release right) in
          if d \<noteq> 0 then Some d else Some (comparePrerelease (prerelease left) (prerelease right))
      | _ \<Rightarrow> None)"

section \<open>The contract of a comparison\<close>

locale comparator =
  fixes cmp :: "'a \<Rightarrow> 'a \<Rightarrow> int"
  assumes unit: "cmp a b = -1 \<or> cmp a b = 0 \<or> cmp a b = 1"
    and swap: "cmp b a = - cmp a b"
    and trans: "cmp a b \<le> 0 \<Longrightarrow> cmp b c \<le> 0 \<Longrightarrow> cmp a c \<le> 0"
begin

lemma refl [simp]: "cmp a a = 0"
  using swap [of a a] by simp

lemma same_left: "cmp a b = 0 \<Longrightarrow> cmp a c = cmp b c"
  using trans [of a b c] trans [of b a c] trans [of c b a] trans [of c a b]
    swap [of a b] swap [of a c] swap [of b c] unit [of a c] unit [of b c] by force

lemma strict: "cmp a b \<le> 0 \<Longrightarrow> cmp b c \<le> 0 \<Longrightarrow> cmp a b < 0 \<or> cmp b c < 0 \<Longrightarrow> cmp a c < 0"
  using trans [of a b c] same_left [of a c b] swap [of a b] swap [of b c] unit [of a c] unit [of b c]
    same_left [of c a b] swap [of a c] by force

lemma total: "cmp a b \<le> 0 \<or> cmp b a \<le> 0"
  using swap [of a b] by linarith

text \<open>Never below what one has already reached.\<close>

lemma at_or_above_trans: "0 \<le> cmp b a \<Longrightarrow> 0 \<le> cmp c b \<Longrightarrow> 0 \<le> cmp c a"
  using trans [of a b c] swap [of a b] swap [of b c] swap [of a c] by linarith

end

text \<open>Composing two comparisons, and comparing by index, keep the contract.\<close>

lemma comparator_then:
  assumes f: "comparator f" and g: "comparator g"
  shows "comparator (\<lambda>a b. if f a b \<noteq> 0 then f a b else g a b)"
proof
  fix a b c
  let ?h = "\<lambda>a b. if f a b \<noteq> 0 then f a b else g a b"
  show "?h a b = -1 \<or> ?h a b = 0 \<or> ?h a b = 1"
    using comparator.unit [OF f, of a b] comparator.unit [OF g, of a b] by auto
  show "?h b a = - ?h a b"
    using comparator.swap [OF f, of b a] comparator.swap [OF g, of b a] by auto
  show "?h a c \<le> 0" if "?h a b \<le> 0" "?h b c \<le> 0"
  proof (cases "f a b = 0 \<and> f b c = 0")
    case True
    then have "f a c = 0" using comparator.same_left [OF f, of a b c] by simp
    then show ?thesis using True that comparator.trans [OF g, of a b c] by simp
  next
    case False
    then have "f a b \<le> 0" "f b c \<le> 0" "f a b < 0 \<or> f b c < 0"
      using that by (auto split: if_splits)
    then have "f a c < 0" by (rule comparator.strict [OF f])
    then show ?thesis by simp
  qed
qed

lemma comparator_pullback:
  assumes c: "comparator c"
  shows "comparator (\<lambda>a b. c (k a) (k b))"
proof
  fix x y z
  show "c (k x) (k y) = -1 \<or> c (k x) (k y) = 0 \<or> c (k x) (k y) = 1"
    by (rule comparator.unit [OF c])
  show "c (k y) (k x) = - c (k x) (k y)"
    by (rule comparator.swap [OF c])
  show "c (k x) (k y) \<le> 0 \<Longrightarrow> c (k y) (k z) \<le> 0 \<Longrightarrow> c (k x) (k z) \<le> 0"
    by (rule comparator.trans [OF c])
qed

lemma first_difference_Nil [simp]: "first_difference c [] [] = 0"
  by (simp add: first_difference.simps)

lemma tails_shorter: "\<not> (xs = [] \<and> ys = []) \<Longrightarrow> length (tl xs) + length (tl ys) < length xs + length ys"
  by (auto simp: neq_Nil_conv)

lemma first_difference_step:
  assumes "comparator c"
  shows "first_difference c xs ys =
    (if c (head xs) (head ys) \<noteq> 0 then c (head xs) (head ys) else first_difference c (tl xs) (tl ys))"
proof (cases "xs = [] \<and> ys = []")
  case True
  then show ?thesis by (simp add: first_difference_Nil comparator.refl [OF assms])
next
  case False
  then show ?thesis by (simp only: first_difference.simps [of c xs ys] if_not_P [OF False] Let_def if_False)
qed

lemma first_difference_self: "comparator c \<Longrightarrow> first_difference c xs xs = 0"
  by (induction xs) (simp_all add: first_difference.simps [of c] comparator.refl Let_def)

lemma comparator_first_difference:
  assumes c: "comparator c"
  shows "comparator (first_difference c)"
proof
  note step = first_difference_step [OF c]
  fix xs ys zs
  show "first_difference c xs ys = -1 \<or> first_difference c xs ys = 0 \<or> first_difference c xs ys = 1"
  proof (induction "length xs + length ys" arbitrary: xs ys rule: less_induct)
    case less
    show ?case
    proof (cases "xs = [] \<and> ys = []")
      case False
      then show ?thesis
        using less [OF tails_shorter [OF False]] comparator.unit [OF c, of "head xs" "head ys"]
          step [of xs ys] by presburger
    qed simp
  qed
  show "first_difference c ys xs = - first_difference c xs ys"
  proof (induction "length xs + length ys" arbitrary: xs ys rule: less_induct)
    case less
    show ?case
    proof (cases "xs = [] \<and> ys = []")
      case False
      then have "first_difference c (tl ys) (tl xs) = - first_difference c (tl xs) (tl ys)"
        using less [OF tails_shorter [OF False]] by simp
      then show ?thesis
        using comparator.swap [OF c, of "head ys" "head xs"] step [of xs ys] step [of ys xs] by presburger
    qed simp
  qed
  show "first_difference c xs ys \<le> 0 \<Longrightarrow> first_difference c ys zs \<le> 0 \<Longrightarrow>
      first_difference c xs zs \<le> 0"
  proof (induction "length xs + length ys + length zs" arbitrary: xs ys zs rule: less_induct)
    case less
    let ?x = "head xs" and ?y = "head ys" and ?z = "head zs"
    show ?case
    proof (cases "xs = [] \<and> ys = [] \<and> zs = []")
      case False
      have ih: "first_difference c (tl xs) (tl ys) \<le> 0 \<Longrightarrow> first_difference c (tl ys) (tl zs) \<le> 0 \<Longrightarrow>
          first_difference c (tl xs) (tl zs) \<le> 0"
        using False less.hyps [of "tl xs" "tl ys" "tl zs"] by (auto simp: neq_Nil_conv)
      show ?thesis
      proof (cases "c ?x ?y = 0 \<and> c ?y ?z = 0")
        case True
        then have "c ?x ?z = 0" using comparator.same_left [OF c, of ?x ?y ?z] by simp
        then show ?thesis
          using True ih less.prems step [of xs ys] step [of ys zs] step [of xs zs] by simp
      next
        case False
        then have "c ?x ?y \<le> 0" "c ?y ?z \<le> 0" "c ?x ?y < 0 \<or> c ?y ?z < 0"
          using less.prems step [of xs ys] step [of ys zs] by (auto split: if_splits)
        then have "c ?x ?z < 0" by (rule comparator.strict [OF c])
        then show ?thesis using step [of xs zs] by simp
      qed
    qed simp
  qed
qed

section \<open>The interpretations\<close>

interpretation component: comparator compare_component
  by unfold_locales (auto simp: compare_component_def sign_def split: if_splits)

lemma compare_identifier_laws: "comparator compare_identifier"
proof
  fix a b c
  show "compare_identifier a b = -1 \<or> compare_identifier a b = 0 \<or> compare_identifier a b = 1"
    by (auto simp: compare_identifier_def sign_def Let_def split: option.splits)
  show "compare_identifier b a = - compare_identifier a b"
    by (auto simp: compare_identifier_def sign_def Let_def split: option.splits)
  show "compare_identifier a b \<le> 0 \<Longrightarrow> compare_identifier b c \<le> 0 \<Longrightarrow> compare_identifier a c \<le> 0"
    by (auto simp: compare_identifier_def sign_def Let_def split: option.splits if_splits)
qed

interpretation ident_order: comparator compare_identifier
  by (rule compare_identifier_laws)

interpretation release_order: comparator "first_difference compare_component"
  by (rule comparator_first_difference) (rule component.comparator_axioms)

interpretation prerelease_order: comparator comparePrerelease
proof
  note fd = comparator_first_difference [OF compare_identifier_laws]
  fix a b c
  show "comparePrerelease a b = -1 \<or> comparePrerelease a b = 0 \<or> comparePrerelease a b = 1"
    using comparator.unit [OF fd, of a b] by (simp add: comparePrerelease_def)
  show "comparePrerelease b a = - comparePrerelease a b"
    using comparator.swap [OF fd, of b a] by (simp add: comparePrerelease_def)
  show "comparePrerelease a b \<le> 0 \<Longrightarrow> comparePrerelease b c \<le> 0 \<Longrightarrow> comparePrerelease a c \<le> 0"
    using comparator.trans [OF fd, of a b c]
    by (cases "a = []"; cases "b = []"; cases "c = []") (simp_all add: comparePrerelease_def)
qed

definition compare_parsed :: "parsed_version \<Rightarrow> parsed_version \<Rightarrow> int" where
  "compare_parsed left right =
     (if first_difference compare_component (release left) (release right) \<noteq> 0
      then first_difference compare_component (release left) (release right)
      else comparePrerelease (prerelease left) (prerelease right))"

interpretation version_order: comparator compare_parsed
  unfolding compare_parsed_def
  by (rule comparator_then [OF comparator_pullback [OF release_order.comparator_axioms, of release]
        comparator_pullback [OF prerelease_order.comparator_axioms, of prerelease]])

lemma compareVersions_eq:
  "compareVersions a b =
     (case (parseVersion a, parseVersion b) of
        (Some u, Some v) \<Rightarrow> Some (compare_parsed u v) | _ \<Rightarrow> None)"
  by (simp add: compareVersions_def compare_parsed_def Let_def split: option.split)

lemma compareVersions_swap:
  "compareVersions b a = map_option uminus (compareVersions a b)"
proof (cases "parseVersion a")
  case a: (Some u)
  show ?thesis
  proof (cases "parseVersion b")
    case (Some v)
    then show ?thesis using a version_order.swap [of v u] by (simp add: compareVersions_eq)
  qed (simp add: compareVersions_eq a)
qed (simp add: compareVersions_eq split: option.split)

lemma compareVersions_trans:
  assumes "compareVersions a b = Some d" and "compareVersions b c = Some e" and "d \<le> 0" and "e \<le> 0"
  shows "\<exists>k\<le>0. compareVersions a c = Some k \<and> (d < 0 \<or> e < 0 \<longrightarrow> k < 0)"
proof -
  obtain u v w where p: "parseVersion a = Some u" "parseVersion b = Some v" "parseVersion c = Some w"
    and "compare_parsed u v = d" "compare_parsed v w = e"
    using assms(1,2) by (auto simp: compareVersions_eq split: option.splits)
  then show ?thesis
    using assms(3,4) version_order.trans [of u v w] version_order.strict [of u v w]
    by (simp add: compareVersions_eq)
qed

lemma compareVersions_refl: "compareVersions a a = (if parseVersion a = None then None else Some 0)"
  by (simp add: compareVersions_eq split: option.split)

lemma compareVersions_None_iff:
  "compareVersions a b = None \<longleftrightarrow> parseVersion a = None \<or> parseVersion b = None"
  by (auto simp: compareVersions_eq split: option.split)

lemma compareVersions_values: "compareVersions a b = Some d \<Longrightarrow> d \<in> {-1, 0, 1}"
  using version_order.unit by (fastforce simp: compareVersions_eq split: option.splits)

end
