(* ===== verification/Update.thy ===== *)
theory Update imports Bind Version "HOL-Library.AList" "HOL-Library.Multiset" begin

section \<open>The update decision (own-property.ts, update.ts)\<close>

text \<open>
  When a new bundle of an app the user granted something to may install silently. A pattern set
  is an object keyed by capability kind, the association list of its own properties in their
  order; a property whose value is not an array is \<open>None\<close>. \<open>covers\<close> decides, without a network,
  whether one pattern is contained in another; the lemmas relate it to the run-time checks of
  Connect and Bind, which is what the comment of \<open>covers\<close> promises.
  \<open>String.prototype.toLowerCase\<close> (Unicode tables) is the parameter \<open>lower\<close> of the bundle check.
\<close>

subsection \<open>Pattern sets\<close>

type_synonym pattern_set = "(str \<times> str list option) list"

text \<open>\<open>ownProperty (set, kind, isArray)\<close>.\<close>

definition patternsFor :: "pattern_set \<Rightarrow> str \<Rightarrow> str list option" where
  "patternsFor s kind =
     (case map_of s kind of None \<Rightarrow> None | Some v \<Rightarrow> v)"

record grant =
  grant_id :: str
  grant_origin :: str
  capability :: str
  patterns :: "str list"
  grantedAt :: int

fun patternSetFromGrants_from :: "pattern_set \<Rightarrow> grant list \<Rightarrow> pattern_set" where
  "patternSetFromGrants_from result [] = result"
| "patternSetFromGrants_from result (g # grants) =
     patternSetFromGrants_from (AList.update (capability g) (Some (patterns g)) result) grants"

definition patternSetFromGrants :: "grant list \<Rightarrow> pattern_set" where
  "patternSetFromGrants grants = patternSetFromGrants_from [] grants"

definition sameOwnPatterns :: "str list \<Rightarrow> str list \<Rightarrow> bool" where
  "sameOwnPatterns a b =
     (if length a \<noteq> length b then False
      else let left = sort a; right = sort b in
        list_all (\<lambda>i. left ! i = right ! i) [0..<length left])"

subsection \<open>Pattern coverage\<close>

datatype covered_pattern =
  HostPort parsed_pattern port_range
| Ports port_range

definition ORIGIN_SHAPED :: "str \<Rightarrow> bool" where
  "ORIGIN_SHAPED s \<longleftrightarrow> starts_with (js ''http://'') s \<or> starts_with (js ''https://'') s"

definition is_lower_hex :: "nat \<Rightarrow> bool" where
  "is_lower_hex c \<longleftrightarrow> is_digit c \<or> (97 \<le> c \<and> c \<le> 102)"

text \<open>\<open>/^vendor=[0-9a-f]{4}(?:,|$)/\<close>\<close>

definition HID_SHAPED :: "str \<Rightarrow> bool" where
  "HID_SHAPED s \<longleftrightarrow> starts_with (js ''vendor='') s \<and>
     (let rest = drop 7 s in
      4 \<le> length rest \<and> list_all is_lower_hex (take 4 rest) \<and>
      (length rest = 4 \<or> rest ! 4 = 44))"

definition portRange :: "str \<Rightarrow> port_range option" where
  "portRange t =
     (case parsePortSpec t of
        None \<Rightarrow> None
      | Some AnyPort \<Rightarrow> Some \<lparr>range_lo = 0, range_hi = 65535\<rparr>
      | Some (PortSpan lo hi) \<Rightarrow> Some \<lparr>range_lo = lo, range_hi = hi\<rparr>)"

definition parseForCoverage :: "str \<Rightarrow> covered_pattern option" where
  "parseForCoverage raw =
     (let t = trim raw in
      if length t = 0 then None
      else (case parsePattern (VString t) of
              Some pattern \<Rightarrow>
                (case portRange (pat_port pattern) of
                   None \<Rightarrow> None | Some ports \<Rightarrow> Some (HostPort pattern ports))
            | None \<Rightarrow>
                (case portRange t of None \<Rightarrow> None | Some ports \<Rightarrow> Some (Ports ports))))"

definition wildcardReaches :: "str \<Rightarrow> bool" where
  "wildcardReaches req =
     (let host = normalizeHost req in
      case hostSpecKind req of
        AnyPublicUnicast \<Rightarrow> True
      | Hostname \<Rightarrow> \<not> isLocalhostName host
      | AddressLiteral \<Rightarrow> isPublicUnicast host
      | AuthorisesNothing \<Rightarrow> False)"

definition hostCovers :: "str \<Rightarrow> str \<Rightarrow> bool" where
  "hostCovers granted req =
     (if hostSpecKind granted = AnyPublicUnicast then wildcardReaches req
      else let grantedHost = normalizeHost granted; requestedHost = normalizeHost req in
        if classifyAddress grantedHost \<noteq> Unparseable \<and> classifyAddress requestedHost \<noteq> Unparseable
        then canonicalAddress grantedHost = canonicalAddress requestedHost
        else grantedHost = requestedHost)"

definition ports_of :: "covered_pattern \<Rightarrow> port_range" where
  "ports_of c = (case c of HostPort _ ports \<Rightarrow> ports | Ports ports \<Rightarrow> ports)"

definition covers :: "str \<Rightarrow> str \<Rightarrow> bool" where
  "covers granted req =
     (if ORIGIN_SHAPED granted \<or> ORIGIN_SHAPED req then granted = req
      else if HID_SHAPED granted \<or> HID_SHAPED req then granted = req
      else (case (parseForCoverage granted, parseForCoverage req) of
              (Some src, Some to) \<Rightarrow>
                if (case (src, to) of
                      (HostPort f _, HostPort t _) \<Rightarrow> \<not> hostCovers (pat_host f) (pat_host t)
                    | (HostPort _ _, Ports _) \<Rightarrow> True
                    | (Ports _, HostPort _ _) \<Rightarrow> True
                    | (Ports _, Ports _) \<Rightarrow> False) then False
                else if range_lo (ports_of src) > range_lo (ports_of to) \<or>
                        range_hi (ports_of to) > range_hi (ports_of src) then False
                else let namesReservedPort =
                           (case to of
                              HostPort _ ports \<Rightarrow>
                                range_lo ports = range_hi ports \<and> isReservedPort (range_lo ports)
                            | Ports _ \<Rightarrow> False)
                     in \<not> namesReservedPort \<or>
                        (case src of
                           HostPort f _ \<Rightarrow> patternNamesPortExactly (Some f) (range_lo (ports_of to))
                         | Ports _ \<Rightarrow> False)
            | _ \<Rightarrow> False))"

subsection \<open>The widening check\<close>

definition widensAuthority :: "pattern_set \<Rightarrow> pattern_set \<Rightarrow> bool" where
  "widensAuthority granted req =
     list_ex (\<lambda>kind.
        case patternsFor req kind of
          None \<Rightarrow> False
        | Some wanted \<Rightarrow>
            (case patternsFor granted kind of
               None \<Rightarrow> True
             | Some held \<Rightarrow>
                 list_ex (\<lambda>pattern. \<not> list_ex (\<lambda>g. covers g pattern) held) wanted))
       (map fst req)"

fun union_from :: "pattern_set \<Rightarrow> pattern_set \<Rightarrow> pattern_set \<Rightarrow> str list \<Rightarrow> pattern_set" where
  "union_from a b out [] = out"
| "union_from a b out (kind # kinds) =
     (case patternsFor b kind of
        None \<Rightarrow> union_from a b out kinds
      | Some extra \<Rightarrow>
          let old = (case patternsFor a kind of None \<Rightarrow> [] | Some ps \<Rightarrow> ps) in
          union_from a b (AList.update kind (Some (old @ extra)) out) kinds)"

definition unionPatterns :: "pattern_set \<Rightarrow> pattern_set option \<Rightarrow> pattern_set" where
  "unionPatterns a b = (case b of None \<Rightarrow> a | Some b \<Rightarrow> union_from a b a (map fst b))"

subsection \<open>The decision\<close>

datatype update_decision =
  Silent | Reconsent | CapabilityPrompt | RollbackChoice | RollbackNotice

record update_input =
  pinnedHash :: str
  newHash :: str
  grantedPatterns :: pattern_set
  newPatterns :: pattern_set
  version :: str
  versionFloor :: str
  rollbackAcknowledged :: bool
  previouslyDeclaredPatterns :: "pattern_set option"

definition isSameBundle :: "(str \<Rightarrow> str) \<Rightarrow> str \<Rightarrow> str \<Rightarrow> bool" where
  "isSameBundle lower pinned_hash new_hash =
     (let pinned = lower (trim pinned_hash); fetched = lower (trim new_hash) in
      if length pinned = 0 \<or> length fetched = 0 then False else pinned = fetched)"

definition ordinaryEscalation :: "(str \<Rightarrow> str) \<Rightarrow> update_input \<Rightarrow> update_decision option" where
  "ordinaryEscalation lower update =
     (if widensAuthority (unionPatterns (grantedPatterns update) (previouslyDeclaredPatterns update))
           (newPatterns update)
      then Some CapabilityPrompt
      else if \<not> isSameBundle lower (pinnedHash update) (newHash update) then Some Reconsent
      else None)"

definition isAtOrAboveFloor :: "str \<Rightarrow> str \<Rightarrow> bool" where
  "isAtOrAboveFloor v floor =
     (case compareVersions v floor of None \<Rightarrow> False | Some order \<Rightarrow> order \<ge> 0)"

definition decideUpdate :: "(str \<Rightarrow> str) \<Rightarrow> update_input \<Rightarrow> update_decision" where
  "decideUpdate lower update =
     (if \<not> isAtOrAboveFloor (version update) (versionFloor update) then
        (if \<not> rollbackAcknowledged update then RollbackChoice
         else (case ordinaryEscalation lower update of None \<Rightarrow> RollbackNotice | Some d \<Rightarrow> d))
      else (case ordinaryEscalation lower update of None \<Rightarrow> Silent | Some d \<Rightarrow> d))"

section \<open>Coverage is sound for the run-time checks\<close>

subsection \<open>Hosts\<close>

text \<open>A host part that the declaration check of \<open>connect-patterns.ts\<close> lets through.\<close>

definition plain_host :: "str \<Rightarrow> bool" where
  "plain_host spec \<longleftrightarrow> spec = js ''*'' \<or>
     (42 \<notin> set spec \<and> normalizeHost spec = spec \<and>
      (classifyAddress spec \<noteq> Unparseable \<longrightarrow> canonicalAddress spec = Some spec))"

lemma declarable_plain:
  assumes "isDeclarableConnectPattern (VString g) kind" and "parsePattern (VString g) = Some pat"
  shows "plain_host (pat_host pat)"
  using assms
  by (auto simp: isDeclarableConnectPattern_def declarableConnectHostRejection_def plain_host_def Let_def
      split: if_splits)

lemma wildcard_kind: "hostSpecKind spec = AnyPublicUnicast \<longleftrightarrow> spec = js ''*''"
  by (simp add: hostSpecKind_def Let_def)

lemma wildcard_name: "normalizeHost [42] = [42]" "classifyAddress [42] = Unparseable"
  by code_simp+

lemma ends_with_subset: "ends_with p s \<Longrightarrow> set p \<subseteq> set s"
  unfolding ends_with_def by (metis set_drop_subset)

lemma localhost_is_localhost: "isLocalhostName LOCALHOST"
  by code_simp

lemma dot_localhost_not_literal:
  assumes "canonicalAddress a = Some a"
  shows "\<not> isLocalhostName a"
proof
  assume "isLocalhostName a"
  then have e: "ends_with (js ''.localhost'') a \<or> a = js ''localhost''"
    by (auto simp: isLocalhostName_def normalizeHost_canonical [OF assms])
  then have "116 \<in> set a"
  proof
    assume "ends_with (js ''.localhost'') a"
    then have "set (js ''.localhost'') \<subseteq> set a" by (rule ends_with_subset)
    then show ?thesis by simp
  next
    assume "a = js ''localhost''" then show ?thesis by simp
  qed
  then show False using canonical_shape(4) [OF assms, of 116] by simp
qed

lemma hostCovers_matches:
  assumes "plain_host g" and "hostCovers g r" and "hostMatches r req a"
  shows "hostMatches g req a"
proof (cases "g = js ''*''")
  case True
  then have w: "wildcardReaches r"
    using assms(2) by (simp add: hostCovers_def wildcard_kind)
  have "isPublicUnicast a"
  proof (cases "hostSpecKind r")
    case Hostname
    then have "normalizeHost r \<noteq> LOCALHOST"
      using w Hostname localhost_is_localhost by (auto simp: wildcardReaches_def Let_def)
    then show ?thesis using assms(3) Hostname by (simp add: hostMatches_def Let_def)
  next
    case AddressLiteral
    then show ?thesis using assms(3) w by (simp add: hostMatches_def wildcardReaches_def Let_def)
  qed (use assms(3) in \<open>simp_all add: hostMatches_def Let_def\<close>)
  then show ?thesis using True by (simp add: hostMatches_def hostSpecKind_def)
next
  case False
  then have g: "42 \<notin> set g" "normalizeHost g = g"
      "classifyAddress g \<noteq> Unparseable \<Longrightarrow> canonicalAddress g = Some g"
    using assms(1) by (auto simp: plain_host_def)
  have r: "r \<noteq> js ''*''"
  proof
    assume "r = js ''*''"
    then have "g = js ''*''"
      using assms(2) False g by (auto simp: hostCovers_def wildcard_kind wildcard_name Let_def)
    with False show False by simp
  qed
  have "normalizeHost r = g"
  proof (cases "classifyAddress g \<noteq> Unparseable \<and> classifyAddress (normalizeHost r) \<noteq> Unparseable")
    case True
    then have "canonicalAddress (normalizeHost r) = Some g"
      using assms(2) False g by (simp add: hostCovers_def wildcard_kind)
    moreover have "canonicalAddress (normalizeHost r) = Some (normalizeHost r)"
      using assms(3) True r by (auto simp: hostMatches_def hostSpecKind_def Let_def split: if_splits)
    ultimately show ?thesis by simp
  next
    case nl: False
    then show ?thesis using assms(2) False g by (auto simp: hostCovers_def wildcard_kind)
  qed
  then show ?thesis
    using assms(3) False r g(2) by (simp add: hostMatches_def hostSpecKind_def)
qed

text \<open>The same for the name-matching checks.\<close>

lemma hostCovers_names:
  assumes "plain_host g" and "g \<noteq> js ''*''" and "hostCovers g r"
    and "classifyAddress (normalizeHost r) \<noteq> Unparseable \<Longrightarrow>
      canonicalAddress (normalizeHost r) = Some (normalizeHost r)"
  shows "r \<noteq> js ''*''" and "normalizeHost g = normalizeHost r"
proof -
  have g: "42 \<notin> set g" "normalizeHost g = g"
      "classifyAddress g \<noteq> Unparseable \<Longrightarrow> canonicalAddress g = Some g"
    using assms(1,2) by (auto simp: plain_host_def)
  show "r \<noteq> js ''*''"
  proof
    assume "r = js ''*''"
    then have "g = js ''*''"
      using assms(3) g by (auto simp: hostCovers_def wildcard_kind wildcard_name Let_def split: if_splits)
    with assms(2) show False by simp
  qed
  show "normalizeHost g = normalizeHost r"
    using assms(2-4) g
    by (cases "classifyAddress g \<noteq> Unparseable \<and> classifyAddress (normalizeHost r) \<noteq> Unparseable")
      (auto simp: hostCovers_def wildcard_kind)
qed

lemma hostCovers_secure:
  assumes "plain_host g" and "hostCovers g r" and "canonical_request h = Some req"
    and "if r = js ''*'' then \<not> isNonPublicAddressLiteral req \<and> \<not> isLocalhostName req
      else normalizeHost r = req"
  shows "if g = js ''*'' then \<not> isNonPublicAddressLiteral req \<and> \<not> isLocalhostName req
      else normalizeHost g = req"
proof -
  have req: "classifyAddress req \<noteq> Unparseable \<Longrightarrow> canonicalAddress req = Some req"
    using canonical_request_class(2) [OF assms(3)] .
  show ?thesis
  proof (cases "g = js ''*''")
    case True
    then have w: "wildcardReaches r"
      using assms(2) by (simp add: hostCovers_def wildcard_kind)
    show ?thesis
    proof (cases "hostSpecKind r")
      case AnyPublicUnicast
      then show ?thesis using assms(4) True by (simp add: wildcard_kind)
    next
      case AddressLiteral
      then have "r \<noteq> js ''*''" "classifyAddress (normalizeHost r) \<noteq> Unparseable"
        by (auto simp: hostSpecKind_def Let_def split: if_splits)
      moreover have "isPublicUnicast (normalizeHost r)"
        using w AddressLiteral by (simp add: wildcardReaches_def Let_def)
      ultimately show ?thesis
        using assms(4) True req dot_localhost_not_literal [of req]
        by (auto simp: isNonPublicAddressLiteral_def isPublicUnicast_def Let_def)
    next
      case Hostname
      then have "r \<noteq> js ''*''" "classifyAddress (normalizeHost r) = Unparseable"
        by (auto simp: hostSpecKind_def Let_def split: if_splits)
      then show ?thesis
        using assms(4) w True Hostname
        by (auto simp: isNonPublicAddressLiteral_def wildcardReaches_def Let_def)
    next
      case AuthorisesNothing
      then show ?thesis using w by (simp add: wildcardReaches_def)
    qed
  next
    case False
    have "r = js ''*'' \<Longrightarrow> classifyAddress (normalizeHost r) = Unparseable"
      using wildcard_name by simp
    then have "classifyAddress (normalizeHost r) \<noteq> Unparseable \<Longrightarrow>
        canonicalAddress (normalizeHost r) = Some (normalizeHost r)"
      using assms(4) req by (auto split: if_splits)
    from hostCovers_names [OF assms(1) False assms(2) this] show ?thesis
      using assms(4) False by simp
  qed
qed

subsection \<open>Ports and whole patterns\<close>

lemma portRange_covers:
  assumes "portRange g = Some G" and "portRange r = Some R"
    and "range_lo G \<le> range_lo R" and "range_hi R \<le> range_hi G" and "portMatches r p"
  shows "portMatches g p"
proof (cases "parsePortSpec g")
  case (Some s)
  show ?thesis
  proof (cases s)
    case (PortSpan lo hi)
    have b: "1 \<le> lo" "G = \<lparr>range_lo = lo, range_hi = hi\<rparr>"
      using parsePortSpec_bounds Some PortSpan assms(1) by (auto simp: portRange_def)
    then show ?thesis
      using assms(2-5) Some PortSpan
      by (auto simp: portRange_def portMatches_def split: option.splits port_spec.splits)
  qed (simp add: portMatches_def Some)
qed (use assms(1) in \<open>simp add: portRange_def\<close>)

lemma names_exactly_span:
  "patternNamesPortExactly (Some pat) p \<longleftrightarrow> parsePortSpec (pat_port pat) = Some (PortSpan p p)"
  by (auto simp: patternNamesPortExactly_def split: option.splits port_spec.splits)

lemma parsePattern_trim [simp]: "parsePattern (VString (trim s)) = parsePattern (VString s)"
  by (simp add: parsePattern_def)

lemma parseForCoverage_pattern:
  assumes "parsePattern (VString s) = Some pat"
  shows "parseForCoverage s =
    (case portRange (pat_port pat) of None \<Rightarrow> None | Some ports \<Rightarrow> Some (HostPort pat ports))"
proof -
  have "trim s \<noteq> []" using assms by (auto simp: parsePattern_def Let_def split: if_splits)
  then show ?thesis using assms by (simp add: parseForCoverage_def Let_def)
qed

lemma parseForCoverage_HostPort:
  "parseForCoverage s = Some (HostPort pat ports) \<longleftrightarrow>
     parsePattern (VString s) = Some pat \<and> portRange (pat_port pat) = Some ports"
  by (cases "parsePattern (VString s)")
    (auto simp: parseForCoverage_pattern, auto simp: parseForCoverage_def Let_def split: option.splits if_splits)

text \<open>What it takes for one pattern to cover a \<open>host:port\<close> pattern it is not equal to.\<close>

lemma covers_HostPort:
  assumes "covers g r" and "parsePattern (VString r) = Some t" and "g \<noteq> r"
  obtains f F T where "parsePattern (VString g) = Some f" "hostCovers (pat_host f) (pat_host t)"
    "portRange (pat_port f) = Some F" "portRange (pat_port t) = Some T"
    "range_lo F \<le> range_lo T" "range_hi T \<le> range_hi F"
    "range_lo T = range_hi T \<Longrightarrow> isReservedPort (range_lo T) \<Longrightarrow>
       patternNamesPortExactly (Some f) (range_lo T)"
proof -
  obtain G R where c: "parseForCoverage g = Some G" "parseForCoverage r = Some R"
    using assms(1,3) by (auto simp: covers_def split: if_splits option.splits)
  obtain T where R: "R = HostPort t T" "portRange (pat_port t) = Some T"
    using c(2) by (auto simp: parseForCoverage_pattern [OF assms(2)] split: option.splits)
  have cov: "\<not> ORIGIN_SHAPED g \<and> \<not> ORIGIN_SHAPED r \<and> \<not> HID_SHAPED g \<and> \<not> HID_SHAPED r"
    using assms(1,3) unfolding covers_def by presburger
  obtain f F where G: "G = HostPort f F"
    using assms(1) cov c R by (cases G) (auto simp: covers_def)
  then have "parsePattern (VString g) = Some f" "portRange (pat_port f) = Some F"
    using c(1) by (simp_all add: parseForCoverage_HostPort)
  moreover have "hostCovers (pat_host f) (pat_host t)" "range_lo F \<le> range_lo T" "range_hi T \<le> range_hi F"
    "range_lo T = range_hi T \<Longrightarrow> isReservedPort (range_lo T) \<Longrightarrow>
       patternNamesPortExactly (Some f) (range_lo T)"
    using assms(1) cov c R G by (auto simp: covers_def ports_of_def Let_def split: if_splits)
  ultimately show thesis using R(2) that by blast
qed

text \<open>The port side of soundness, reserved ports included.\<close>

lemma covers_ports:
  assumes "covers g r" and "parsePattern (VString r) = Some t" and "g \<noteq> r"
    and "narrow p (Some t) = Some t" and "portMatches (pat_port t) p"
  obtains f where "parsePattern (VString g) = Some f" "hostCovers (pat_host f) (pat_host t)"
    "narrow p (Some f) = Some f" "portMatches (pat_port f) p"
proof -
  from covers_HostPort [OF assms(1-3)] obtain f F T
    where f: "parsePattern (VString g) = Some f" "hostCovers (pat_host f) (pat_host t)"
    and F: "portRange (pat_port f) = Some F" "portRange (pat_port t) = Some T"
      "range_lo F \<le> range_lo T" "range_hi T \<le> range_hi F"
    and names: "range_lo T = range_hi T \<Longrightarrow> isReservedPort (range_lo T) \<Longrightarrow>
       patternNamesPortExactly (Some f) (range_lo T)"
    by blast
  have "patternNamesPortExactly (Some f) p" if "isReservedPort p"
  proof -
    have "patternNamesPortExactly (Some t) p"
      using assms(4) that by (simp add: narrow_def split: if_splits)
    then have "T = \<lparr>range_lo = p, range_hi = p\<rparr>"
      using F(2) by (simp add: names_exactly_span portRange_def)
    then show ?thesis using names that by simp
  qed
  then have "narrow p (Some f) = Some f" by (simp add: narrow_def)
  with f portRange_covers [OF F assms(5)] show thesis using that by blast
qed

subsection \<open>Soundness for the four run-time checks\<close>

definition declarable :: "connect_kind \<Rightarrow> str \<Rightarrow> bool" where
  "declarable kind g \<longleftrightarrow> isDeclarableConnectPattern (VString g) kind"

lemma covers_connect:
  assumes "declarable kind g" and "covers g r" and "connect_one (VString r) q"
  shows "connect_one (VString g) q"
proof (cases "g = r")
  case False
  obtain h a p where q: "q = (h, a, p)" by (cases q)
  obtain req reached t where c: "canonical_request h = Some req" "canonicalAddress a = Some reached"
    and t: "parsePattern (VString r) = Some t" "narrow p (Some t) = Some t"
      "portMatches (pat_port t) p" "hostMatches (pat_host t) req reached"
    using assms(3)
    by (auto simp: q connect_one_def patternAuthorises_def narrow_def split: option.splits if_splits)
  obtain f where f: "parsePattern (VString g) = Some f" "hostCovers (pat_host f) (pat_host t)"
      "narrow p (Some f) = Some f" "portMatches (pat_port f) p"
    using covers_ports [OF assms(2) t(1) False t(2,3)] .
  have "hostMatches (pat_host f) req reached"
    using hostCovers_matches declarable_plain assms(1) f(1,2) t(4) by (auto simp: declarable_def)
  then show ?thesis
    using c f by (simp add: q connect_one_def patternAuthorises_def)
qed (use assms(3) in simp)

lemma covers_secure:
  assumes "declarable kind g" and "covers g r" and "secure_one (VString r) q"
  shows "secure_one (VString g) q"
proof (cases "g = r")
  case False
  obtain h p where q: "q = (h, p)" by (cases q)
  obtain req t where c: "canonical_request h = Some req"
    and t: "parsePattern (VString r) = Some t" "narrow p (Some t) = Some t" "portMatches (pat_port t) p"
      "if pat_host t = js ''*'' then \<not> isNonPublicAddressLiteral req \<and> \<not> isLocalhostName req
       else normalizeHost (pat_host t) = req"
    using assms(3)
    by (auto simp: q secure_one_def hostMatchesSecure_def narrow_def split: option.splits if_splits)
  obtain f where f: "parsePattern (VString g) = Some f" "hostCovers (pat_host f) (pat_host t)"
      "narrow p (Some f) = Some f" "portMatches (pat_port f) p"
    using covers_ports [OF assms(2) t(1) False t(2,3)] .
  have "plain_host (pat_host f)"
    using declarable_plain assms(1) f(1) by (auto simp: declarable_def)
  from hostCovers_secure [OF this f(2) c t(4)] show ?thesis
    using c f by (simp add: q secure_one_def hostMatchesSecure_def split: if_splits)
qed (use assms(3) in simp)

lemma covers_lookup:
  assumes "declarable kind g" and "covers g r" and "lookup_one (VString r) h"
  shows "lookup_one (VString g) h"
proof (cases "g = r")
  case False
  obtain t where t: "parsePattern (VString r) = Some t" "hostAuthorisesLookup (Some t) (normalizeHost h)"
    using assms(3)
    by (cases "parsePattern (VString r)") (auto simp: lookup_one_def hostAuthorisesLookup_def)
  from covers_HostPort [OF assms(2) t(1) False] obtain f where
    f: "parsePattern (VString g) = Some f" "hostCovers (pat_host f) (pat_host t)" by blast
  have plain: "plain_host (pat_host f)"
    using declarable_plain assms(1) f(1) by (auto simp: declarable_def)
  show ?thesis
  proof (cases "pat_host f = js ''*''")
    case True
    then show ?thesis
      by (simp add: lookup_one_def f(1) hostAuthorisesLookup_def hostSpecKind_def)
  next
    case wild: False
    have k: "hostSpecKind (pat_host t) = AnyPublicUnicast \<or>
        (hostSpecKind (pat_host t) = Hostname \<and> normalizeHost (pat_host t) = normalizeHost h)"
      using t(2) by (simp add: hostAuthorisesLookup_def split: host_spec_kind.splits)
    then have "classifyAddress (normalizeHost (pat_host t)) = Unparseable"
      by (auto simp: hostSpecKind_def Let_def wildcard_name split: if_splits)
    with hostCovers_names [OF plain wild f(2)]
    have "pat_host t \<noteq> js ''*''" "normalizeHost (pat_host f) = normalizeHost (pat_host t)" by simp_all
    then show ?thesis
      using k wild by (auto simp: lookup_one_def f(1) hostAuthorisesLookup_def hostSpecKind_def Let_def
          split: if_splits)
  qed
qed (use assms(3) in simp)

lemma parseForCoverage_Ports:
  assumes "parseForCoverage s = Some (Ports R)"
  shows "portRange (trim s) = Some R" and "parsePattern (VString s) = None"
  using assms by (auto simp: parseForCoverage_def Let_def split: if_splits option.splits)

lemma re_port_chars: "re_port p \<Longrightarrow> c \<in> set p \<Longrightarrow> is_digit c"
  by (auto simp: re_port_def list_all_iff is_digit_def split: list.splits)

lemma port_spec_chars:
  assumes "parsePortSpec s = Some sp" and "c \<in> set s"
  shows "is_digit c \<or> c = 42 \<or> c = 45"
proof (cases "s = js ''*''")
  case False
  then have "\<forall>q\<in>set (split_on 45 s). re_port q"
    using assms(1) by (auto simp: parsePortSpec_def split: list.splits if_splits)
  moreover have "set s \<subseteq> {45} \<union> \<Union> (set ` set (split_on 45 s))"
    using set_join_subset [of "[45]" "split_on 45 s"] by (simp add: join_split_on)
  ultimately show ?thesis using assms(2) re_port_chars by blast
qed (use assms(2) in simp)

lemma parsePattern_port_spec:
  assumes "parsePortSpec (trim s) = Some sp"
  shows "parsePattern (VString s) = None"
proof -
  have n: "58 \<notin> set (trim s)" "91 \<notin> set (trim s)"
    using port_spec_chars [OF assms, of 58] port_spec_chars [OF assms, of 91]
    by (auto simp: is_digit_def)
  then have "last_index_of [58] (trim s) = None"
    using last_index_of_None index_of_notin by blast
  moreover have "\<not> starts_with [91] (trim s)"
    using n(2) by (cases "trim s") (auto simp: starts_with_def)
  ultimately show ?thesis by (simp add: parsePattern_def Let_def)
qed

lemma parseForCoverage_span:
  assumes "parsePortSpec (trim s) = Some (PortSpan lo hi)"
  shows "parseForCoverage s = Some (Ports \<lparr>range_lo = lo, range_hi = hi\<rparr>)"
proof -
  have "trim s \<noteq> []"
    using assms by (auto simp: parsePortSpec_def re_port_def split: if_splits list.splits)
  then show ?thesis
    using assms parsePattern_port_spec [OF assms] by (simp add: parseForCoverage_def portRange_def Let_def)
qed

lemma pattern_ranges_span:
  "R \<in> set (pattern_ranges (VString s)) \<longleftrightarrow>
     parsePortSpec (trim s) = Some (PortSpan (range_lo R) (range_hi R)) \<and>
     MIN_UNPRIVILEGED_PORT \<le> range_lo R"
  by (cases R; cases "parsePortSpec (trim s)"; cases "the (parsePortSpec (trim s))")
    (auto simp: pattern_ranges_def)

text \<open>A listen pattern that a bind would use is contained, range in range.\<close>

lemma covers_bind:
  assumes "pattern_ranges (VString g) \<noteq> []" and "covers g r" and "bind_one (VString r) p"
  shows "bind_one (VString g) p"
proof (cases "g = r")
  case False
  obtain G where G: "G \<in> set (pattern_ranges (VString g))"
    using assms(1) by (meson hd_in_set)
  obtain R where R: "R \<in> set (pattern_ranges (VString r))" "range_lo R \<le> p" "p \<le> range_hi R"
    using assms(3) by (auto simp: bind_one_def list_ex_iff)
  have s: "parsePortSpec (trim g) = Some (PortSpan (range_lo G) (range_hi G))"
      "parsePortSpec (trim r) = Some (PortSpan (range_lo R) (range_hi R))"
    using G R(1) unfolding pattern_ranges_span by blast+
  have "range_lo G \<le> range_lo R \<and> range_hi R \<le> range_hi G"
    using assms(2) False
    by (simp add: covers_def parseForCoverage_span [OF s(1)] parseForCoverage_span [OF s(2)]
        ports_of_def split: if_splits)
  then have "range_lo G \<le> p \<and> p \<le> range_hi G" using R(2,3) by linarith
  with G show ?thesis by (auto simp: bind_one_def list_ex_iff)
qed (use assms(3) in simp)

section \<open>The widening check and the decision\<close>

lemma patternsFor_key: "patternsFor s kind = Some ps \<Longrightarrow> kind \<in> set (map fst s)"
  by (force simp: patternsFor_def split: option.splits dest: map_of_SomeD)

lemma not_widens:
  assumes "\<not> widensAuthority granted req" and "patternsFor req kind = Some wanted"
  shows "\<exists>held. patternsFor granted kind = Some held \<and> (\<forall>w\<in>set wanted. \<exists>g\<in>set held. covers g w)"
proof -
  have "kind \<in> set (map fst req)" by (rule patternsFor_key [OF assms(2)])
  then have "case patternsFor granted kind of None \<Rightarrow> False
      | Some held \<Rightarrow> \<not> list_ex (\<lambda>pattern. \<not> list_ex (\<lambda>g. covers g pattern) held) wanted"
    using assms unfolding widensAuthority_def list_ex_iff by (force split: option.splits)
  then show ?thesis by (auto simp: list_ex_iff split: option.splits)
qed

lemma widens_new_kind:
  "patternsFor req kind = Some wanted \<Longrightarrow> patternsFor granted kind = None \<Longrightarrow>
     widensAuthority granted req"
  using not_widens by fastforce

lemma patternsFor_update [simp]:
  "patternsFor (AList.update k (Some v) s) kind = (if kind = k then Some v else patternsFor s kind)"
  by (simp add: patternsFor_def update_conv')

lemma union_from_patterns:
  "patternsFor (union_from a b out kinds) kind =
     (if kind \<in> set kinds \<and> patternsFor b kind \<noteq> None
      then Some ((case patternsFor a kind of None \<Rightarrow> [] | Some ps \<Rightarrow> ps) @ the (patternsFor b kind))
      else patternsFor out kind)"
  by (induction a b out kinds rule: union_from.induct) (auto simp: Let_def split: option.splits)

lemma unionPatterns_patterns:
  "patternsFor (unionPatterns a (Some b)) kind =
     (case patternsFor b kind of
        None \<Rightarrow> patternsFor a kind
      | Some extra \<Rightarrow> Some ((case patternsFor a kind of None \<Rightarrow> [] | Some ps \<Rightarrow> ps) @ extra))"
  using patternsFor_key [of b kind]
  by (auto simp: unionPatterns_def union_from_patterns split: option.split)

lemma unionPatterns_None [simp]: "unionPatterns a None = a"
  by (simp add: unionPatterns_def)

text \<open>One requested pattern that nothing held or asked about before covers is a widening.\<close>

definition held_patterns :: "update_input \<Rightarrow> str \<Rightarrow> str list" where
  "held_patterns u kind =
     (let pats = (\<lambda>s. case patternsFor s kind of None \<Rightarrow> [] | Some ps \<Rightarrow> ps) in
      pats (grantedPatterns u) @
      (case previouslyDeclaredPatterns u of None \<Rightarrow> [] | Some d \<Rightarrow> pats d))"

lemma uncovered_widens:
  assumes "patternsFor (newPatterns u) kind = Some wanted" and "w \<in> set wanted"
    and "\<forall>g\<in>set (held_patterns u kind). \<not> covers g w"
  shows "widensAuthority (unionPatterns (grantedPatterns u) (previouslyDeclaredPatterns u)) (newPatterns u)"
proof (rule ccontr)
  assume "\<not> ?thesis"
  from not_widens [OF this assms(1)] obtain held
    where h: "patternsFor (unionPatterns (grantedPatterns u) (previouslyDeclaredPatterns u)) kind = Some held"
      "\<exists>g\<in>set held. covers g w"
    using assms(2) by blast
  have "set held = set (held_patterns u kind)"
    using h(1)
    by (cases "previouslyDeclaredPatterns u"; cases "patternsFor (grantedPatterns u) kind";
        cases "patternsFor (the (previouslyDeclaredPatterns u)) kind")
      (auto simp: held_patterns_def unionPatterns_patterns)
  with h(2) assms(3) show False by blast
qed

lemma decideUpdate_silent:
  "decideUpdate lower u = Silent \<longleftrightarrow>
     isAtOrAboveFloor (version u) (versionFloor u) \<and>
     \<not> widensAuthority (unionPatterns (grantedPatterns u) (previouslyDeclaredPatterns u)) (newPatterns u) \<and>
     isSameBundle lower (pinnedHash u) (newHash u)"
  by (auto simp: decideUpdate_def ordinaryEscalation_def)

text \<open>A decision that installs without asking anything about authority.\<close>

lemma decideUpdate_no_prompt:
  assumes "decideUpdate lower u \<in> {Silent, Reconsent, RollbackNotice}"
  shows "\<not> widensAuthority (unionPatterns (grantedPatterns u) (previouslyDeclaredPatterns u)) (newPatterns u)"
  using assms by (auto simp: decideUpdate_def ordinaryEscalation_def split: if_splits)

text \<open>
  A client of the decision contract: a pattern list whose members are covered by declarable
  patterns allows nothing more.
\<close>

lemma covered_connect:
  assumes "\<forall>w\<in>set wanted. \<exists>g\<in>set held. covers g w" and "\<forall>g\<in>set held. declarable kind g"
    and "length held \<le> MAX_PATTERNS" and "still_open (map VString wanted) q"
  shows "still_open (map VString held) q"
proof (rule reconnect.stronger_patterns)
  fix w
  assume "w \<in> set (map VString wanted)" "connect_one w q"
  then obtain r g where "connect_one (VString r) q" "g \<in> set held" "covers g r"
    using assms(1) by auto
  then show "\<exists>p'\<in>set (map VString held). connect_one p' q"
    using covers_connect [of kind g r q] assms(2) by auto
qed (use assms in simp_all)

lemma covered_secure:
  assumes "\<forall>w\<in>set wanted. \<exists>g\<in>set held. covers g w" and "\<forall>g\<in>set held. declarable kind g"
    and "length held \<le> MAX_PATTERNS" and "secure_allowed (map VString wanted) q"
  shows "secure_allowed (map VString held) q"
proof (rule secure.stronger_patterns)
  fix w
  assume "w \<in> set (map VString wanted)" "secure_one w q"
  then obtain r g where "secure_one (VString r) q" "g \<in> set held" "covers g r"
    using assms(1) by auto
  then show "\<exists>p'\<in>set (map VString held). secure_one p' q"
    using covers_secure [of kind g r q] assms(2) by auto
qed (use assms in simp_all)

lemma covered_bind:
  assumes "\<forall>w\<in>set wanted. \<exists>g\<in>set held. covers g w"
    and "\<forall>g\<in>set held. pattern_ranges (VString g) \<noteq> []"
    and "length held \<le> MAX_PATTERNS" and "bind_allowed (map VString wanted) p"
  shows "bind_allowed (map VString held) p"
proof (rule bind.stronger_patterns)
  fix w
  assume "w \<in> set (map VString wanted)" "bind_one w p"
  then obtain r g where "bind_one (VString r) p" "g \<in> set held" "covers g r"
    using assms(1) by auto
  then show "\<exists>p'\<in>set (map VString held). bind_one p' p"
    using covers_bind [of g r p] assms(2) by auto
qed (use assms in simp_all)

text \<open>What is declared again unchanged is covered: an unchanged manifest never prompts.\<close>

lemma hostCovers_refl: "plain_host g \<Longrightarrow> hostCovers g g"
  by (auto simp: hostCovers_def wildcard_kind wildcardReaches_def plain_host_def Let_def hostSpecKind_def)

lemma covers_refl:
  assumes "declarable kind g"
  shows "covers g g"
proof -
  obtain pat where p: "parsePattern (VString g) = Some pat"
    and d: "pat_port pat = js ''*'' \<or> parsePortSpec (pat_port pat) \<noteq> None"
    using assms by (auto simp: declarable_def isDeclarableConnectPattern_def split: if_splits option.splits)
  have h: "hostCovers (pat_host pat) (pat_host pat)"
    using hostCovers_refl declarable_plain p assms by (auto simp: declarable_def)
  obtain R where R: "portRange (pat_port pat) = Some R"
  proof -
    obtain sp where "parsePortSpec (pat_port pat) = Some sp" using d by (auto simp: parsePortSpec_def)
    then show thesis using that by (cases sp) (auto simp: portRange_def)
  qed
  have "patternNamesPortExactly (Some pat) (range_lo R)"
    if "range_lo R = range_hi R" "isReservedPort (range_lo R)"
    using R that by (auto simp: portRange_def names_exactly_span split: option.splits port_spec.splits)
  then show ?thesis
    by (auto simp: covers_def parseForCoverage_pattern [OF p] R h ports_of_def Let_def)
qed

lemma mset_sort_eq: "mset (sort (xs :: str list)) = mset xs"
  by simp

lemma sameOwnPatterns_mset: "sameOwnPatterns a b \<longleftrightarrow> mset a = mset b"
proof -
  have "sameOwnPatterns a b \<longleftrightarrow> sort a = sort b"
  proof
    assume "sameOwnPatterns a b"
    then have "length (sort a) = length (sort b)" "\<forall>i<length (sort a). sort a ! i = sort b ! i"
      by (auto simp: sameOwnPatterns_def list_all_iff split: if_splits)
    then show "sort a = sort b" by (simp add: list_eq_iff_nth_eq)
  next
    assume e: "sort a = sort b"
    then have "length a = length b" by (metis length_sort)
    with e show "sameOwnPatterns a b" by (simp add: sameOwnPatterns_def list_all_iff)
  qed
  also have "\<dots> \<longleftrightarrow> mset a = mset b"
  proof
    assume "sort a = sort b"
    then show "mset a = mset b" using mset_sort_eq [of a] mset_sort_eq [of b] by simp
  next
    assume "mset a = mset b"
    then show "sort a = sort b"
      by (intro properties_for_sort) (simp_all add: mset_sort_eq)
  qed
  finally show ?thesis .
qed

lemma patternSetFromGrants_last:
  "patternsFor (patternSetFromGrants grants) kind =
     (case find (\<lambda>g. capability g = kind) (rev grants) of None \<Rightarrow> None | Some g \<Rightarrow> Some (patterns g))"
proof -
  have "patternsFor (patternSetFromGrants_from s grants) kind =
     (case find (\<lambda>g. capability g = kind) (rev grants) of
        None \<Rightarrow> patternsFor s kind | Some g \<Rightarrow> Some (patterns g))" for s
  proof (induction s grants rule: patternSetFromGrants_from.induct)
    case (2 result g grants)
    have f: "find P (xs @ [x]) = (case find P xs of None \<Rightarrow> if P x then Some x else None | Some y \<Rightarrow> Some y)"
      for P :: "grant \<Rightarrow> bool" and xs x
      by (induction xs) auto
    show ?case by (auto simp: 2 f split: option.split)
  qed simp
  moreover have "patternsFor [] kind = None" by (simp add: patternsFor_def)
  ultimately show ?thesis by (simp add: patternSetFromGrants_def split: option.split)
qed

end
