(* ===== verification/GrantRequest.thy ===== *)
theory GrantRequest imports Update begin

section \<open>What a manifest declares and what may be granted of it\<close>

text \<open>
  \<open>hid-pattern.ts\<close>, \<open>manifest-patterns.ts\<close> and \<open>request-grant.ts\<close>, with the parts of
  \<open>contracts/manifest.ts\<close> they read (numbers are integers there, as the manifest validator
  requires). A capability set is turned into the pattern set the widening check compares, and a
  request is granted only inside it. The lemmas: the canonical string of a HID filter is read
  back as that filter and nothing else is read; a request is allowed only for a declared kind,
  with declarable patterns each covered by a declared one.
\<close>

subsection \<open>contracts/manifest.ts, contracts/devices.ts, contracts/limits.ts\<close>

record bind_scopes =
  local_patterns :: "str list option"
  network_patterns :: "str list option"

record tcp_capability =
  tcp_connect :: "str list option"
  tcp_listen :: "bind_scopes option"

record udp_capability =
  udp_bind :: "bind_scopes option"
  udp_send :: "str list option"

record https_capability =
  https_connect :: "str list option"

record net_capability =
  tcp :: "tcp_capability option"
  udp :: "udp_capability option"
  https :: "https_capability option"
  concurrentSockets :: "int option"

record hid_filter =
  vendorId :: nat
  productId :: "nat option"
  usagePage :: "nat option"
  usage :: "nat option"

record web_capability =
  contexts :: "str list option"
  embed_origins :: "str list option"

record media_capability =
  camera :: bool
  microphone :: bool
  screen :: bool

text \<open>\<open>fs\<close> is its optional quota, \<open>id\<close> its optional curves, \<open>trust\<close> whether it asks for the score.\<close>

record capabilities =
  net :: "net_capability option"
  fs :: "int option option"
  curves :: "str list option option"
  web :: "web_capability option"
  media :: "media_capability option"
  secrets :: bool
  trust_score :: "bool option"
  hid :: "hid_filter list option"

record manifest =
  app_name :: str
  app_version :: str
  app_capabilities :: capabilities

definition LIMIT_concurrentSockets :: int where
  "LIMIT_concurrentSockets = 512"

definition LIMIT_defaultConcurrentSockets :: int where
  "LIMIT_defaultConcurrentSockets = 64"

subsection \<open>hid-pattern.ts\<close>

definition pad_start :: "nat \<Rightarrow> nat \<Rightarrow> str \<Rightarrow> str" where
  "pad_start n c s = replicate (n - length s) c @ s"

definition hex :: "nat \<Rightarrow> str" where
  "hex value = pad_start 4 48 (to_string 16 value)"

definition hidFilterToPattern :: "hid_filter \<Rightarrow> str" where
  "hidFilterToPattern f =
     (let parts = [js ''vendor='' @ hex (vendorId f)];
          parts = (case productId f of None \<Rightarrow> parts | Some v \<Rightarrow> parts @ [js ''product='' @ hex v]);
          parts = (case usagePage f of None \<Rightarrow> parts | Some v \<Rightarrow> parts @ [js ''usagePage='' @ hex v]);
          parts = (case usage f of None \<Rightarrow> parts | Some v \<Rightarrow> parts @ [js ''usage='' @ hex v])
      in join (js '','') parts)"

definition ORDER :: "str list" where
  "ORDER = [js ''vendor'', js ''product'', js ''usagePage'', js ''usage'']"

text \<open>\<open>/^(vendor|product|usagePage|usage)=([0-9a-f]{4})$/\<close>, the name and the digits.\<close>

definition FIELD :: "str \<Rightarrow> (str \<times> str) option" where
  "FIELD part =
     (case index_of (js ''='') part of
        None \<Rightarrow> None
      | Some i \<Rightarrow>
          let name = take i part; digits = drop (Suc i) part in
          if name \<in> set ORDER \<and> length digits = 4 \<and> list_all is_lower_hex digits
          then Some (name, digits) else None)"

fun position :: "str \<Rightarrow> str list \<Rightarrow> int" where
  "position name [] = -1"
| "position name (n # ns) =
     (if n = name then 0 else let p = position name ns in if p = -1 then -1 else p + 1)"

fun hid_fields :: "int \<Rightarrow> (str \<times> nat) list \<Rightarrow> str list \<Rightarrow> (str \<times> nat) list option" where
  "hid_fields prev flds [] = Some flds"
| "hid_fields prev flds (part # parts) =
     (case FIELD part of
        None \<Rightarrow> None
      | Some (name, digits) \<Rightarrow>
          let pos = position name ORDER in
          if pos \<le> prev then None
          else hid_fields pos (AList.update name (parse_int 16 digits) flds) parts)"

definition parseHidPattern :: "str \<Rightarrow> hid_filter option" where
  "parseHidPattern pattern =
     (case hid_fields (-1) [] (split_on 44 pattern) of
        None \<Rightarrow> None
      | Some flds \<Rightarrow>
          (case map_of flds (js ''vendor'') of
             None \<Rightarrow> None
           | Some v \<Rightarrow>
               let page = map_of flds (js ''usagePage''); use = map_of flds (js ''usage'') in
               if use \<noteq> None \<and> page = None then None
               else Some \<lparr>vendorId = v, productId = map_of flds (js ''product''),
                          usagePage = page, usage = use\<rparr>))"

subsection \<open>manifest-patterns.ts\<close>

text \<open>\<open>if (value !== undefined) set[kind] = value\<close>.\<close>

definition put :: "str \<Rightarrow> str list option \<Rightarrow> pattern_set \<Rightarrow> pattern_set" where
  "put kind value s = (case value of None \<Rightarrow> s | Some ps \<Rightarrow> AList.update kind (Some ps) s)"

definition present :: "bool \<Rightarrow> str list option" where
  "present b = (if b then Some [] else None)"

definition patternSetFromCapabilities :: "capabilities \<Rightarrow> pattern_set" where
  "patternSetFromCapabilities c =
     (let n_tcp = Option.bind (net c) tcp; n_udp = Option.bind (net c) udp;
          n_https = Option.bind (net c) https;
          s = put (js ''tcp.connect'') (Option.bind n_tcp tcp_connect) [];
          s = put (js ''tcp.listen.local'') (Option.bind (Option.bind n_tcp tcp_listen) local_patterns) s;
          s = put (js ''tcp.listen.network'') (Option.bind (Option.bind n_tcp tcp_listen) network_patterns) s;
          s = put (js ''udp.bind.local'') (Option.bind (Option.bind n_udp udp_bind) local_patterns) s;
          s = put (js ''udp.bind.network'') (Option.bind (Option.bind n_udp udp_bind) network_patterns) s;
          s = put (js ''udp.send'') (Option.bind n_udp udp_send) s;
          s = put (js ''https.connect'') (Option.bind n_https https_connect) s;
          s = put (js ''fs'') (present (fs c \<noteq> None)) s;
          s = put (js ''id'') (present (curves c \<noteq> None)) s;
          s = put (js ''secrets'') (present (secrets c)) s;
          s = put (js ''trust.score'') (present (trust_score c = Some True)) s;
          s = put (js ''media.camera'') (present (case media c of None \<Rightarrow> False | Some m \<Rightarrow> camera m)) s;
          s = put (js ''media.microphone'') (present (case media c of None \<Rightarrow> False | Some m \<Rightarrow> microphone m)) s;
          s = put (js ''media.screen'') (present (case media c of None \<Rightarrow> False | Some m \<Rightarrow> screen m)) s;
          s = put (js ''devices.hid'') (map_option (map hidFilterToPattern) (hid c)) s;
          s = put (js ''web.context'') (Option.bind (web c) contexts) s;
          s = put (js ''web.embed'') (Option.bind (web c) embed_origins) s
      in s)"

text \<open>An absent quota is \<open>Number.POSITIVE_INFINITY\<close>.\<close>

definition quota_greater :: "int option \<Rightarrow> int option \<Rightarrow> bool" where
  "quota_greater nextQuota previousQuota =
     (case previousQuota of
        None \<Rightarrow> False
      | Some q \<Rightarrow> (case nextQuota of None \<Rightarrow> True | Some n \<Rightarrow> n > q))"

record invisible_limits =
  lim_id :: "str list option option"
  lim_fs :: "int option option"
  lim_net :: "net_capability option"

definition sockets_of :: "net_capability option \<Rightarrow> int" where
  "sockets_of n =
     (case Option.bind n concurrentSockets of None \<Rightarrow> LIMIT_defaultConcurrentSockets | Some k \<Rightarrow> k)"

definition curves_of :: "str list option option \<Rightarrow> str list" where
  "curves_of c = (case Option.bind c id of None \<Rightarrow> [] | Some cs \<Rightarrow> cs)"

definition widensInvisibleLimits :: "invisible_limits option \<Rightarrow> capabilities \<Rightarrow> bool" where
  "widensInvisibleLimits previous n =
     (let previousCurves = curves_of (Option.bind previous lim_id) in
      if list_ex (\<lambda>curve. curve \<notin> set previousCurves) (curves_of (curves n)) then True
      else if quota_greater (Option.bind (fs n) id) (Option.bind (Option.bind previous lim_fs) id) then True
      else sockets_of (net n) > sockets_of (Option.bind previous lim_net))"

fun delete_unheld :: "pattern_set \<Rightarrow> pattern_set \<Rightarrow> str list \<Rightarrow> pattern_set" where
  "delete_unheld granted result [] = result"
| "delete_unheld granted result (kind # kinds) =
     delete_unheld granted
       (if kind \<in> set (map fst granted) then result else AList.delete kind result) kinds"

definition withoutSwitchedOffCapabilities ::
  "pattern_set \<Rightarrow> pattern_set \<Rightarrow> str list option \<Rightarrow> pattern_set" where
  "withoutSwitchedOffCapabilities declared granted declined =
     (case declined of
        None \<Rightarrow> declared
      | Some kinds \<Rightarrow> if length kinds = 0 then declared else delete_unheld granted declared kinds)"

subsection \<open>request-grant.ts\<close>

definition CAPABILITY_KINDS :: "str list" where
  "CAPABILITY_KINDS =
     [js ''tcp.connect'', js ''tcp.listen.local'', js ''tcp.listen.network'', js ''udp.bind.local'',
      js ''udp.bind.network'', js ''udp.send'', js ''https.connect'', js ''fs'', js ''id'',
      js ''web.context'', js ''web.embed'', js ''secrets'', js ''trust.score'', js ''media.camera'',
      js ''media.microphone'', js ''media.screen'', js ''devices.hid'']"

definition CONNECT_SHAPED_CAPABILITIES :: "(str \<times> connect_kind) list" where
  "CONNECT_SHAPED_CAPABILITIES =
     [(js ''tcp.connect'', TcpConnect), (js ''https.connect'', HttpsConnect), (js ''udp.send'', UdpSend)]"

definition isCapabilityKind :: "str \<Rightarrow> bool" where
  "isCapabilityKind value \<longleftrightarrow> value \<in> set CAPABILITY_KINDS"

record grant_request_decision =
  allowed :: bool
  to_grant :: "str list"

definition decideGrantRequest :: "manifest \<Rightarrow> str \<Rightarrow> str list option \<Rightarrow> grant_request_decision" where
  "decideGrantRequest m kind requestedPatterns =
     (case patternsFor (patternSetFromCapabilities (app_capabilities m)) kind of
        None \<Rightarrow> \<lparr>allowed = False, to_grant = []\<rparr>
      | Some declaredForKind \<Rightarrow>
          if (case (requestedPatterns, map_of CONNECT_SHAPED_CAPABILITIES kind) of
                (Some req, Some shape) \<Rightarrow>
                  list_ex (\<lambda>pattern. \<not> isDeclarableConnectPattern (VString pattern) shape) req
              | _ \<Rightarrow> False)
          then \<lparr>allowed = False, to_grant = []\<rparr>
          else let wanted = (case requestedPatterns of None \<Rightarrow> declaredForKind | Some req \<Rightarrow> req) in
            if widensAuthority [(kind, Some declaredForKind)] [(kind, Some wanted)]
            then \<lparr>allowed = False, to_grant = []\<rparr>
            else \<lparr>allowed = True, to_grant = wanted\<rparr>)"

section \<open>The HID filter string\<close>

subsection \<open>Four lowercase hex digits\<close>

lemma to_string_lower_hex: "c \<in> set (to_string 16 n) \<Longrightarrow> is_lower_hex c"
  using hex_no_char [of c n] by (auto simp: is_lower_hex_def is_digit_def)

lemma hex_form:
  assumes "v < 65536"
  shows "length (hex v) = 4" and "list_all is_lower_hex (hex v)" and "parse_int 16 (hex v) = v"
proof -
  have "length (to_string 16 v) \<le> 4"
    using to_string_length [of 16 v 3] assms by simp
  then show "length (hex v) = 4" by (simp add: hex_def pad_start_def)
  show "list_all is_lower_hex (hex v)"
    using to_string_lower_hex
    by (auto simp: hex_def pad_start_def list_all_iff is_lower_hex_def is_digit_def)
  have "parse_int 16 (replicate k 48 @ s) = parse_int 16 s" for k and s :: str
  proof (induction k)
    case (Suc k)
    have "parse_int 16 (48 # t) = parse_int 16 t" for t by (simp add: parse_int_def digit_value_def)
    with Suc show ?case by simp
  qed simp
  then show "parse_int 16 (hex v) = v"
    by (simp add: hex_def pad_start_def parse_int_to_string)
qed

text \<open>Different strings of four lowercase digits are different numbers.\<close>

lemma digit_value_inj:
  "is_lower_hex c \<Longrightarrow> is_lower_hex d \<Longrightarrow> digit_value c = digit_value d \<Longrightarrow> c = d"
  by (auto simp: is_lower_hex_def is_digit_def digit_value_def split: if_splits)

lemma lower_hex_less: "is_lower_hex c \<Longrightarrow> digit_value c < 16"
  by (auto simp: is_lower_hex_def is_digit_def digit_value_def)

lemma parse_int_inj:
  assumes "length s = length t" and "list_all is_lower_hex s" and "list_all is_lower_hex t"
    and "parse_int 16 s = parse_int 16 t"
  shows "s = t"
  using assms
proof (induction s arbitrary: t rule: rev_induct)
  case (snoc c s)
  then obtain d u where t: "t = u @ [d]" by (cases t rule: rev_cases) auto
  have "16 * parse_int 16 s + digit_value c = 16 * parse_int 16 u + digit_value d"
    using snoc.prems(4) by (simp add: t parse_int_snoc)
  moreover have "digit_value c < 16" "digit_value d < 16"
    using snoc.prems lower_hex_less by (auto simp: t)
  ultimately have "parse_int 16 s = parse_int 16 u" "digit_value c = digit_value d" by presburger+
  then show ?case
    using snoc digit_value_inj by (auto simp: t)
qed simp

lemma hex_parse:
  assumes "length digits = 4" and "list_all is_lower_hex digits"
  shows "hex (parse_int 16 digits) = digits" and "parse_int 16 digits < 65536"
proof -
  show l: "parse_int 16 digits < 65536"
    using parse_int_less [of digits 16] assms lower_hex_less by (auto simp: list_all_iff)
  show "hex (parse_int 16 digits) = digits"
    using parse_int_inj [of "hex (parse_int 16 digits)" digits] hex_form [OF l] assms by simp
qed

subsection \<open>Fields\<close>

lemma field_name_chars: "name \<in> set ORDER \<Longrightarrow> 61 \<notin> set name \<and> 44 \<notin> set name"
  by (auto simp: ORDER_def)

lemma index_of_after: "c \<notin> set s \<Longrightarrow> index_of [c] (s @ c # t) = Some (length s)"
  by (induction s) (auto simp: starts_with_def)

lemma index_of_split: "index_of [c] s = Some i \<Longrightarrow> s = take i s @ c # drop (Suc i) s \<and> c \<notin> set (take i s)"
  by (induction s arbitrary: i) (auto simp: starts_with_def split: if_splits)

lemma FIELD_eq:
  "FIELD part = Some (name, digits) \<longleftrightarrow>
     part = name @ 61 # digits \<and> name \<in> set ORDER \<and> length digits = 4 \<and> list_all is_lower_hex digits"
proof
  assume F: "FIELD part = Some (name, digits)"
  obtain i where i: "index_of [61] part = Some i"
    using F by (cases "index_of [61] part") (simp_all add: FIELD_def)
  then have "name = take i part" "digits = drop (Suc i) part"
      "name \<in> set ORDER \<and> length digits = 4 \<and> list_all is_lower_hex digits"
    using F by (auto simp: FIELD_def Let_def split: if_splits)
  with index_of_split [OF i]
  show "part = name @ 61 # digits \<and> name \<in> set ORDER \<and> length digits = 4 \<and> list_all is_lower_hex digits"
    by metis
next
  assume r: "part = name @ 61 # digits \<and> name \<in> set ORDER \<and> length digits = 4 \<and> list_all is_lower_hex digits"
  then have "index_of [61] part = Some (length name)"
    using index_of_after field_name_chars by blast
  with r show "FIELD part = Some (name, digits)"
    by (simp add: FIELD_def Let_def)
qed

lemma field_print: "name \<in> set ORDER \<Longrightarrow> v < 65536 \<Longrightarrow> FIELD (name @ 61 # hex v) = Some (name, hex v)"
  using hex_form [of v] by (simp add: FIELD_eq)

definition valid_hid :: "hid_filter \<Rightarrow> bool" where
  "valid_hid f \<longleftrightarrow> vendorId f < 65536 \<and> pred_option (\<lambda>v. v < 65536) (productId f) \<and>
     pred_option (\<lambda>v. v < 65536) (usagePage f) \<and> pred_option (\<lambda>v. v < 65536) (usage f) \<and>
     (usage f \<noteq> None \<longrightarrow> usagePage f \<noteq> None)"

text \<open>The parts of the printed string, as optional fields in order.\<close>

definition hid_parts :: "hid_filter \<Rightarrow> str list" where
  "hid_parts f =
     (js ''vendor'' @ 61 # hex (vendorId f)) #
     (case productId f of None \<Rightarrow> [] | Some v \<Rightarrow> [js ''product'' @ 61 # hex v]) @
     (case usagePage f of None \<Rightarrow> [] | Some v \<Rightarrow> [js ''usagePage'' @ 61 # hex v]) @
     (case usage f of None \<Rightarrow> [] | Some v \<Rightarrow> [js ''usage'' @ 61 # hex v])"

lemma hidFilterToPattern_parts: "hidFilterToPattern f = join [44] (hid_parts f)"
  by (simp add: hidFilterToPattern_def hid_parts_def Let_def split: option.splits)

lemma hex_no_comma: "v < 65536 \<Longrightarrow> 44 \<notin> set (hex v)"
  using hex_form(2) [of v] by (auto simp: list_all_iff is_lower_hex_def is_digit_def)

lemma hid_parts_no_comma: "valid_hid f \<Longrightarrow> \<forall>p\<in>set (hid_parts f). 44 \<notin> set p"
  using hex_no_comma
  by (cases "productId f"; cases "usagePage f"; cases "usage f") (auto simp: hid_parts_def valid_hid_def)

lemma position_values:
  "position (js ''vendor'') ORDER = 0" "position (js ''product'') ORDER = 1"
  "position (js ''usagePage'') ORDER = 2" "position (js ''usage'') ORDER = 3"
  by (simp_all add: ORDER_def)

lemma hid_round_trip:
  assumes "valid_hid f"
  shows "parseHidPattern (hidFilterToPattern f) = Some f"
proof -
  have s: "split_on 44 (hidFilterToPattern f) = hid_parts f"
    using split_on_join [of "hid_parts f" 44] hid_parts_no_comma [OF assms]
    by (simp add: hidFilterToPattern_parts) (simp add: hid_parts_def)
  have names: "js ''vendor'' \<in> set ORDER" "js ''product'' \<in> set ORDER"
    "js ''usagePage'' \<in> set ORDER" "js ''usage'' \<in> set ORDER"
    by (simp_all add: ORDER_def)
  note printed = field_print [OF names(1)] field_print [OF names(2)] field_print [OF names(3)]
    field_print [OF names(4)]
  show ?thesis
    using assms unfolding parseHidPattern_def s
    by (cases f; cases "productId f"; cases "usagePage f"; cases "usage f")
      (auto simp: hid_parts_def valid_hid_def printed [simplified] position_values [simplified] hex_form(3) Let_def)
qed

text \<open>Reading field by field: at position \<open>k\<close> the next field is used or skipped.\<close>

definition four_digits :: "str \<Rightarrow> bool" where
  "four_digits d \<longleftrightarrow> length d = 4 \<and> list_all is_lower_hex d"

lemma position_nth: "k < 4 \<Longrightarrow> position (ORDER ! k) ORDER = int k"
  by (auto simp: ORDER_def less_Suc_eq numeral_eq_Suc)

lemma hid_fields_next:
  assumes "hid_fields (int k - 1) fl parts = Some out" and "k < 4"
  shows "hid_fields (int k) fl parts = Some out \<or>
    (\<exists>d rest. parts = (ORDER ! k @ 61 # d) # rest \<and> four_digits d \<and>
       hid_fields (int k) (AList.update (ORDER ! k) (parse_int 16 d) fl) rest = Some out)"
proof (cases parts)
  case (Cons part rest)
  obtain name d where F: "FIELD part = Some (name, d)" and "int k - 1 < position name ORDER"
    and h: "hid_fields (position name ORDER) (AList.update name (parse_int 16 d) fl) rest = Some out"
    using assms(1) by (auto simp: Cons Let_def split: option.splits if_splits)
  moreover have "length ORDER = 4" by (simp add: ORDER_def)
  then obtain j where "j < 4" "name = ORDER ! j"
    using F unfolding FIELD_eq in_set_conv_nth by metis
  ultimately have j: "k \<le> j" "name = ORDER ! j" "j < 4" "position name ORDER = int j"
    using position_nth [of j] by auto
  show ?thesis
  proof (cases "j = k")
    case True
    then show ?thesis using F h j by (auto simp: Cons FIELD_eq four_digits_def)
  next
    case False
    then have "hid_fields (int k) fl parts = Some out"
      using F h j by (simp add: Cons Let_def)
    then show ?thesis by simp
  qed
qed (use assms in simp)

lemma hid_fields_end: "hid_fields 3 fl parts = Some out \<Longrightarrow> parts = [] \<and> out = fl"
proof (cases parts)
  case (Cons part rest)
  assume "hid_fields 3 fl parts = Some out"
  then obtain name d where "FIELD part = Some (name, d)" "3 < position name ORDER"
    by (auto simp: Cons Let_def split: option.splits if_splits)
  then show ?thesis by (auto simp: FIELD_eq ORDER_def split: if_splits)
qed simp

definition field_part :: "nat \<Rightarrow> str option \<Rightarrow> str list" where
  "field_part k digits = (case digits of None \<Rightarrow> [] | Some d \<Rightarrow> [ORDER ! k @ 61 # d])"

definition field_put :: "nat \<Rightarrow> str option \<Rightarrow> (str \<times> nat) list \<Rightarrow> (str \<times> nat) list" where
  "field_put k digits fl =
     (case digits of None \<Rightarrow> fl | Some d \<Rightarrow> AList.update (ORDER ! k) (parse_int 16 d) fl)"

lemma hid_fields_step:
  assumes "hid_fields (int k - 1) fl parts = Some out" and "k < 4"
  obtains digits rest where "parts = field_part k digits @ rest" "pred_option four_digits digits"
    "hid_fields (int k) (field_put k digits fl) rest = Some out"
  using hid_fields_next [OF assms]
proof
  assume "hid_fields (int k) fl parts = Some out"
  then show thesis using that [of None parts] by (simp add: field_part_def field_put_def)
next
  assume "\<exists>d rest. parts = (ORDER ! k @ 61 # d) # rest \<and> four_digits d \<and>
       hid_fields (int k) (AList.update (ORDER ! k) (parse_int 16 d) fl) rest = Some out"
  then obtain d rest where "parts = (ORDER ! k @ 61 # d) # rest" "four_digits d"
    "hid_fields (int k) (AList.update (ORDER ! k) (parse_int 16 d) fl) rest = Some out" by blast
  then show thesis using that [of "Some d" rest] by (simp add: field_part_def field_put_def)
qed

lemma hid_canonical:
  assumes "parseHidPattern s = Some f"
  shows "hidFilterToPattern f = s \<and> valid_hid f"
proof -
  obtain out where out: "hid_fields (-1) [] (split_on 44 s) = Some out"
    using assms by (auto simp: parseHidPattern_def split: option.splits)
  have ORDER_nth: "ORDER ! 0 = js ''vendor''" "ORDER ! 1 = js ''product''" "ORDER ! 2 = js ''usagePage''"
    "ORDER ! 3 = js ''usage''" by (simp_all add: ORDER_def)
  have hex: "hex (parse_int 16 d) = d" "parse_int 16 d < 65536" if "four_digits d" for d
    using hex_parse that by (auto simp: four_digits_def)
  obtain o0 r0 where 0: "split_on 44 s = field_part 0 o0 @ r0" "pred_option four_digits o0"
      "hid_fields 0 (field_put 0 o0 []) r0 = Some out"
    using hid_fields_step [of 0 "[]" "split_on 44 s" out] out by auto
  obtain o1 r1 where 1: "r0 = field_part 1 o1 @ r1" "pred_option four_digits o1"
      "hid_fields 1 (field_put 1 o1 (field_put 0 o0 [])) r1 = Some out"
    using hid_fields_step [of 1 "field_put 0 o0 []" r0 out] 0(3) by auto
  obtain o2 r2 where 2: "r1 = field_part 2 o2 @ r2" "pred_option four_digits o2"
      "hid_fields 2 (field_put 2 o2 (field_put 1 o1 (field_put 0 o0 []))) r2 = Some out"
    using hid_fields_step [of 2 "field_put 1 o1 (field_put 0 o0 [])" r1 out] 1(3) by auto
  obtain o3 r3 where 3: "r2 = field_part 3 o3 @ r3" "pred_option four_digits o3"
      "hid_fields 3 (field_put 3 o3 (field_put 2 o2 (field_put 1 o1 (field_put 0 o0 [])))) r3 = Some out"
    using hid_fields_step [of 3 "field_put 2 o2 (field_put 1 o1 (field_put 0 o0 []))" r2 out] 2(3) by auto
  have parts: "split_on 44 s = field_part 0 o0 @ field_part 1 o1 @ field_part 2 o2 @ field_part 3 o3"
    and out_eq: "out = field_put 3 o3 (field_put 2 o2 (field_put 1 o1 (field_put 0 o0 [])))"
    using 0(1) 1(1) 2(1) 3(1) hid_fields_end [OF 3(3)] by simp_all
  have look: "map_of out (js ''vendor'') = map_option (parse_int 16) o0"
      "map_of out (js ''product'') = map_option (parse_int 16) o1"
      "map_of out (js ''usagePage'') = map_option (parse_int 16) o2"
      "map_of out (js ''usage'') = map_option (parse_int 16) o3"
    unfolding out_eq field_put_def ORDER_nth
    by (cases o0; cases o1; cases o2; cases o3; simp)+
  then obtain d0 where d0: "o0 = Some d0" and f: "f = \<lparr>vendorId = parse_int 16 d0,
      productId = map_option (parse_int 16) o1, usagePage = map_option (parse_int 16) o2,
      usage = map_option (parse_int 16) o3\<rparr>" and page: "o3 \<noteq> None \<longrightarrow> o2 \<noteq> None"
    using assms by (auto simp: parseHidPattern_def out Let_def split: option.splits if_splits)
  have "split_on 44 s = hid_parts f"
    using 0(2) 1(2) 2(2) 3(2)
    by (cases o1; cases o2; cases o3)
      (auto simp: parts f d0 hid_parts_def field_part_def ORDER_nth [simplified] hex)
  moreover have "valid_hid f"
    using 0(2) 1(2) 2(2) 3(2) page by (cases o1; cases o2; cases o3) (auto simp: f d0 valid_hid_def hex)
  ultimately show ?thesis
    using join_split_on [of 44 s] by (simp add: hidFilterToPattern_parts)
qed

section \<open>What is declared and what is granted\<close>

lemma patternsFor_Nil [simp]: "patternsFor [] kind = None"
  by (simp add: patternsFor_def)

lemma patternsFor_single [simp]: "patternsFor [(k, v)] kind = (if kind = k then v else None)"
  by (simp add: patternsFor_def)

lemma patternsFor_put [simp]:
  "patternsFor (put k v s) kind = (if kind = k \<and> v \<noteq> None then v else patternsFor s kind)"
  by (cases v) (auto simp: put_def)

lemma keys_put: "k \<in> A \<Longrightarrow> set (map fst s) \<subseteq> A \<Longrightarrow> set (map fst (put k v s)) \<subseteq> A"
  by (cases v) (auto simp: put_def dom_update)

lemma declared_kinds: "set (map fst (patternSetFromCapabilities c)) \<subseteq> set CAPABILITY_KINDS"
  unfolding patternSetFromCapabilities_def Let_def
  by (intro keys_put) (simp_all add: CAPABILITY_KINDS_def)

lemma widens_single:
  "\<not> widensAuthority [(kind, Some declared)] [(kind, Some wanted)] \<longleftrightarrow>
     (\<forall>w\<in>set wanted. \<exists>g\<in>set declared. covers g w)"
  by (auto simp: widensAuthority_def list_ex_iff)

lemma decideGrantRequest_allowed:
  assumes "allowed (decideGrantRequest m kind req)"
  obtains declared where "patternsFor (patternSetFromCapabilities (app_capabilities m)) kind = Some declared"
    "to_grant (decideGrantRequest m kind req) = (case req of None \<Rightarrow> declared | Some ps \<Rightarrow> ps)"
    "\<forall>w\<in>set (to_grant (decideGrantRequest m kind req)). \<exists>g\<in>set declared. covers g w"
    "\<And>ps shape. req = Some ps \<Longrightarrow> map_of CONNECT_SHAPED_CAPABILITIES kind = Some shape \<Longrightarrow>
       \<forall>p\<in>set ps. isDeclarableConnectPattern (VString p) shape"
proof -
  obtain declared where d: "patternsFor (patternSetFromCapabilities (app_capabilities m)) kind = Some declared"
    using assms by (cases "patternsFor (patternSetFromCapabilities (app_capabilities m)) kind")
      (auto simp: decideGrantRequest_def)
  let ?wanted = "case req of None \<Rightarrow> declared | Some ps \<Rightarrow> ps"
  have "\<not> widensAuthority [(kind, Some declared)] [(kind, Some ?wanted)]"
    and "\<not> (case (req, map_of CONNECT_SHAPED_CAPABILITIES kind) of
                (Some req, Some shape) \<Rightarrow>
                  list_ex (\<lambda>pattern. \<not> isDeclarableConnectPattern (VString pattern) shape) req
              | _ \<Rightarrow> False)"
    and "to_grant (decideGrantRequest m kind req) = ?wanted"
    using assms by (simp_all add: decideGrantRequest_def d Let_def split: if_splits)
  then show thesis
    using d by (intro that [OF d]) (auto simp: widens_single list_ex_iff split: option.splits)
qed

lemma decideGrantRequest_refused: "\<not> allowed (decideGrantRequest m kind req) \<Longrightarrow> to_grant (decideGrantRequest m kind req) = []"
  by (auto simp: decideGrantRequest_def Let_def split: option.splits)

text \<open>Asking for exactly what is declared is allowed when every declared pattern covers itself.\<close>

lemma decideGrantRequest_declared:
  assumes "patternsFor (patternSetFromCapabilities (app_capabilities m)) kind = Some declared"
    and "\<forall>g\<in>set declared. covers g g"
  shows "decideGrantRequest m kind None = \<lparr>allowed = True, to_grant = declared\<rparr>"
proof -
  have "\<not> widensAuthority [(kind, Some declared)] [(kind, Some declared)]"
    using assms(2) by (auto simp: widens_single)
  then show ?thesis by (simp add: decideGrantRequest_def assms(1) Let_def)
qed

subsection \<open>Limits and switched-off capabilities\<close>

definition limits_of :: "capabilities \<Rightarrow> invisible_limits" where
  "limits_of c = \<lparr>lim_id = curves c, lim_fs = fs c, lim_net = net c\<rparr>"

lemma invisible_limits_refl: "\<not> widensInvisibleLimits (Some (limits_of c)) c"
  by (auto simp: widensInvisibleLimits_def limits_of_def quota_greater_def list_ex_iff Let_def
      split: option.splits)

lemma invisible_limits_trans:
  assumes "\<not> widensInvisibleLimits (Some (limits_of a)) b" and "\<not> widensInvisibleLimits (Some (limits_of b)) c"
  shows "\<not> widensInvisibleLimits (Some (limits_of a)) c"
  using assms
  by (auto simp: widensInvisibleLimits_def limits_of_def quota_greater_def list_ex_iff Let_def
      split: option.splits if_splits)

lemma patternsFor_delete: "patternsFor (AList.delete k s) kind = (if kind = k then None else patternsFor s kind)"
  by (simp add: patternsFor_def delete_conv')

lemma delete_unheld_patterns:
  "patternsFor (delete_unheld granted result kinds) kind =
     (if kind \<in> set kinds \<and> kind \<notin> set (map fst granted) then None else patternsFor result kind)"
  by (induction granted result kinds rule: delete_unheld.induct) (auto simp: patternsFor_delete)

lemma switched_off_patterns:
  "patternsFor (withoutSwitchedOffCapabilities declared granted declined) kind =
     (if kind \<in> set (case declined of None \<Rightarrow> [] | Some ks \<Rightarrow> ks) \<and> kind \<notin> set (map fst granted)
      then None else patternsFor declared kind)"
  by (auto simp: withoutSwitchedOffCapabilities_def delete_unheld_patterns split: option.splits)

end
