(* ===== verification/Origin.thy ===== *)
theory Origin imports Connect begin

section \<open>Origin derivation, the isolation key (origin.ts)\<close>

text \<open>
  The key under which everything of an app is stored and granted. The WHATWG URL parser is the
  parameter \<open>parse\<close> (\<open>None\<close> when \<open>new URL\<close> throws); the lemmas name what they need of its
  results: a port is empty or digits, a hostname has no slash, and a colon in it only inside the
  brackets of an IPv6 literal. They show that the key string determines scheme, host and port
  (two apps never share a key), that a frame speaks only for an origin its URL and Chromium both
  give, and that nothing plain-http or loopback is ever persistable.
\<close>

record url =
  protocol :: str
  hostname :: str
  port :: str
  pathname :: str

type_synonym url_parser = "str \<Rightarrow> url option"

definition ORIGIN_BEARING_SCHEMES :: "str list" where
  "ORIGIN_BEARING_SCHEMES = [js ''http:'', js ''https:'']"

definition canonicalHost :: "str \<Rightarrow> str option" where
  "canonicalHost name =
     (let host = (if ends_with (js ''.'') name then butlast name else name) in
      if length host = 0 then None
      else if length host > MAX_HOST_LENGTH then None
      else if list_ex (\<lambda>label. length label = 0) (split_on 46 host) then None
      else Some host)"

definition originFromUrl :: "url_parser \<Rightarrow> str \<Rightarrow> str option" where
  "originFromUrl parse u =
     (case parse u of
        None \<Rightarrow> None
      | Some parsed \<Rightarrow>
          if protocol parsed \<notin> set ORIGIN_BEARING_SCHEMES then None
          else (case canonicalHost (hostname parsed) of
                  None \<Rightarrow> None
                | Some host \<Rightarrow>
                    let p = (if port parsed = [] then [] else js '':'' @ port parsed)
                    in Some (protocol parsed @ js ''//'' @ host @ p)))"

definition MAX_LOCAL_FILE_KEY_LENGTH :: nat where
  "MAX_LOCAL_FILE_KEY_LENGTH = 2048"

definition localFileKey :: "url_parser \<Rightarrow> str \<Rightarrow> str option" where
  "localFileKey parse u =
     (case parse u of
        None \<Rightarrow> None
      | Some parsed \<Rightarrow>
          if protocol parsed \<noteq> js ''file:'' \<or> hostname parsed \<noteq> [] then None
          else if starts_with (js ''//'') (pathname parsed) then None
          else let key = js ''file://'' @ pathname parsed in
            if length key > MAX_LOCAL_FILE_KEY_LENGTH then None else Some key)"

definition isLocalFileKey :: "url_parser \<Rightarrow> str \<Rightarrow> bool" where
  "isLocalFileKey parse key \<longleftrightarrow> localFileKey parse key = Some key"

definition isolationKeyFromUrl :: "url_parser \<Rightarrow> str \<Rightarrow> str option" where
  "isolationKeyFromUrl parse u =
     (case originFromUrl parse u of None \<Rightarrow> localFileKey parse u | Some key \<Rightarrow> Some key)"

definition isPersistableOrigin :: "url_parser \<Rightarrow> str \<Rightarrow> bool" where
  "isPersistableOrigin parse origin =
     (case parse origin of
        None \<Rightarrow> False
      | Some parsed \<Rightarrow>
          if protocol parsed = js ''file:'' then isLocalFileKey parse origin
          else if protocol parsed \<noteq> js ''https:'' then False
          else (case canonicalHost (hostname parsed) of
                  None \<Rightarrow> False
                | Some host \<Rightarrow>
                    if isLocalhostName host then False
                    else let cls = classifyAddress host in cls \<noteq> Loopback \<and> cls \<noteq> Unspecified))"

text \<open>A frame whose properties throw on access is \<open>Disposed\<close>; otherwise both are untrusted values.\<close>

datatype sender_frame = Disposed | Frame jsv jsv

definition originFromSenderFrame :: "url_parser \<Rightarrow> sender_frame option \<Rightarrow> str option" where
  "originFromSenderFrame parse frame =
     (case frame of
        None \<Rightarrow> None
      | Some Disposed \<Rightarrow> None
      | Some (Frame u claimed) \<Rightarrow>
          (case (u, claimed) of
             (VString url_text, VString claimed_text) \<Rightarrow>
               (case originFromUrl parse url_text of
                  None \<Rightarrow> None
                | Some derived \<Rightarrow>
                    if originFromUrl parse claimed_text \<noteq> Some derived then None else Some derived)
           | _ \<Rightarrow> None))"

definition LOCAL_FILE_FRAME_ORIGIN :: str where
  "LOCAL_FILE_FRAME_ORIGIN = js ''file://''"

definition callerKeyFromSenderFrame :: "url_parser \<Rightarrow> sender_frame option \<Rightarrow> str option" where
  "callerKeyFromSenderFrame parse frame =
     (let web = originFromSenderFrame parse frame in
      if web \<noteq> None \<or> frame = None then web
      else (case frame of
              Some (Frame (VString url_text) claimed) \<Rightarrow>
                if claimed \<noteq> VString LOCAL_FILE_FRAME_ORIGIN then None else localFileKey parse url_text
            | _ \<Rightarrow> None))"

text \<open>Frames are compared by identity; \<open>None\<close> is a null frame or an undefined sender.\<close>

definition isAttributedSession ::
  "'f option \<Rightarrow> ('s \<times> 'f option) option \<Rightarrow> str \<Rightarrow> ('s \<Rightarrow> str \<Rightarrow> bool) \<Rightarrow> bool" where
  "isAttributedSession senderFrame sender origin attributed =
     (case sender of
        None \<Rightarrow> False
      | Some (s, mainFrame) \<Rightarrow>
          if senderFrame = None then False
          else if senderFrame \<noteq> mainFrame then False
          else attributed s origin)"

section \<open>Keys do not collide\<close>

lemma canonicalHost_props:
  assumes "canonicalHost name = Some host"
  shows "host \<noteq> []" and "length host \<le> MAX_HOST_LENGTH" and "\<forall>l\<in>set (split_on 46 host). l \<noteq> []"
    and "set host \<subseteq> set name" and "last host \<noteq> 46"
proof -
  have h: "host = (if ends_with (js ''.'') name then butlast name else name)"
    and l: "\<forall>l\<in>set (split_on 46 host). l \<noteq> []" and n: "host \<noteq> []"
    using assms by (auto simp: canonicalHost_def Let_def list_ex_iff split: if_splits)
  show "host \<noteq> []" by (rule n)
  show "length host \<le> MAX_HOST_LENGTH"
    using assms by (auto simp: canonicalHost_def Let_def split: if_splits)
  show "\<forall>l\<in>set (split_on 46 host). l \<noteq> []" by (rule l)
  show "set host \<subseteq> set name"
    using h by (auto dest: in_set_butlastD split: if_splits)
  show "last host \<noteq> 46"
  proof
    assume "last host = 46"
    then obtain t where t: "host = t @ [46]" using n by (metis append_butlast_last_id)
    have "split_on 46 (s @ [46]) = split_on 46 s @ [[]]" for s
      by (induction s) (auto split: list.splits)
    then have "[] \<in> set (split_on 46 host)" by (simp add: t)
    with l show False by blast
  qed
qed

text \<open>What is relied on of the parser's results.\<close>

definition url_form :: "url \<Rightarrow> bool" where
  "url_form u \<longleftrightarrow> list_all is_digit (port u) \<and>
     (58 \<in> set (hostname u) \<longrightarrow> (\<exists>inner. hostname u = 91 # inner @ [93] \<and> 93 \<notin> set inner)) \<and>
     (58 \<notin> set (hostname u) \<longrightarrow> 91 \<notin> set (hostname u))"

definition port_suffix :: "str \<Rightarrow> str" where
  "port_suffix p = (if p = [] then [] else 58 # p)"

lemma host_port_split:
  assumes "58 \<notin> set h" and "58 \<notin> set h'"
    and "list_all is_digit p" and "list_all is_digit p'" and "h @ port_suffix p = h' @ port_suffix p'"
  shows "h = h' \<and> p = p'"
proof -
  have cut: "takeWhile (\<lambda>c. c \<noteq> 58) (h @ port_suffix p) = h" if "58 \<notin> set h" for h p
    using that by (auto simp: port_suffix_def takeWhile_append)
  have "h = h'" using cut [OF assms(1), of p] cut [OF assms(2), of p'] assms(5) by metis
  then show ?thesis using assms(5) by (auto simp: port_suffix_def split: if_splits)
qed

lemma bracket_port_split:
  assumes "93 \<notin> set i" and "93 \<notin> set i'" and "91 # i @ 93 # port_suffix p = 91 # i' @ 93 # port_suffix p'"
  shows "i = i' \<and> p = p'"
proof -
  have cut: "takeWhile (\<lambda>c. c \<noteq> 93) (i @ 93 # t) = i" if "93 \<notin> set i" for i t
    using that by (simp add: takeWhile_append)
  have "i = i'" using cut [OF assms(1)] cut [OF assms(2)] assms(3) by (metis list.inject)
  then show ?thesis using assms(3) by (auto simp: port_suffix_def split: if_splits)
qed

lemma originFromUrl_Some:
  "originFromUrl parse u = Some key \<longleftrightarrow>
     (\<exists>parsed host. parse u = Some parsed \<and> protocol parsed \<in> set ORIGIN_BEARING_SCHEMES \<and>
        canonicalHost (hostname parsed) = Some host \<and>
        key = protocol parsed @ js ''//'' @ host @ port_suffix (port parsed))"
  by (auto simp: originFromUrl_def port_suffix_def Let_def split: option.splits)

text \<open>A host with a colon ends in a bracket, so no dot was stripped from it.\<close>

lemma canonicalHost_form:
  assumes "url_form u" and "canonicalHost (hostname u) = Some host"
  shows "(58 \<notin> set host \<and> 91 \<notin> set host) \<or> (\<exists>i. host = 91 # i @ [93] \<and> 93 \<notin> set i)"
proof (cases "58 \<in> set (hostname u)")
  case True
  then obtain inner where "hostname u = 91 # inner @ [93]" "93 \<notin> set inner"
    using assms(1) by (auto simp: url_form_def)
  moreover from this have "host = hostname u"
    using assms(2) by (auto simp: canonicalHost_def Let_def split: if_splits)
  ultimately show ?thesis by blast
next
  case False
  then have "91 \<notin> set (hostname u)" using assms(1) by (simp add: url_form_def)
  then show ?thesis using False canonicalHost_props(4) [OF assms(2)] by blast
qed

lemma origin_key_injective:
  assumes "originFromUrl parse u = Some key" and "originFromUrl parse v = Some key"
    and "parse u = Some a" and "parse v = Some b" and "url_form a" and "url_form b"
  shows "protocol a = protocol b \<and> canonicalHost (hostname a) = canonicalHost (hostname b) \<and> port a = port b"
proof -
  obtain h where h: "canonicalHost (hostname a) = Some h" "protocol a \<in> set ORIGIN_BEARING_SCHEMES"
      "key = protocol a @ js ''//'' @ h @ port_suffix (port a)"
    using assms(1,3) unfolding originFromUrl_Some by auto
  obtain k where k: "canonicalHost (hostname b) = Some k" "protocol b \<in> set ORIGIN_BEARING_SCHEMES"
      "key = protocol b @ js ''//'' @ k @ port_suffix (port b)"
    using assms(2,4) unfolding originFromUrl_Some by auto
  have "protocol a = protocol b" and e: "h @ port_suffix (port a) = k @ port_suffix (port b)"
    using h(2,3) k(2,3) by (auto simp: ORIGIN_BEARING_SCHEMES_def)
  moreover have ports: "list_all is_digit (port a)" "list_all is_digit (port b)"
    using assms(5,6) by (simp_all add: url_form_def)
  have "h = k \<and> port a = port b"
    using canonicalHost_form [OF assms(5) h(1)] canonicalHost_form [OF assms(6) k(1)]
  proof (elim disjE exE conjE)
    assume "58 \<notin> set h" "58 \<notin> set k"
    then show ?thesis using host_port_split ports e by blast
  next
    fix i j
    assume "h = 91 # i @ [93]" "93 \<notin> set i" "k = 91 # j @ [93]" "93 \<notin> set j"
    then show ?thesis using bracket_port_split [of i j "port a" "port b"] e by auto
  next
    fix i
    assume "k = 91 # i @ [93]" "91 \<notin> set h"
    then show ?thesis using e canonicalHost_props(1) [OF h(1)] by (cases h) auto
  next
    fix i
    assume "h = 91 # i @ [93]" "91 \<notin> set k"
    then show ?thesis using e canonicalHost_props(1) [OF k(1)] by (cases k) auto
  qed
  ultimately show ?thesis using h(1) k(1) by simp
qed

lemma isolation_keys_disjoint:
  assumes "originFromUrl parse u = Some key"
  shows "localFileKey parse' v \<noteq> Some key"
  using assms
  by (auto simp: originFromUrl_Some ORIGIN_BEARING_SCHEMES_def localFileKey_def Let_def
      split: option.splits if_splits)

lemma persistable_never_loopback:
  assumes "isPersistableOrigin parse origin" and "parse origin = Some u"
  shows "(protocol u = js ''file:'' \<and> localFileKey parse origin = Some origin) \<or>
    (protocol u = js ''https:'' \<and> (\<exists>host. canonicalHost (hostname u) = Some host \<and>
       \<not> isLocalhostName host \<and> classifyAddress host \<notin> {Loopback, Unspecified}))"
  using assms
  by (auto simp: isPersistableOrigin_def isLocalFileKey_def Let_def split: if_splits option.splits)

lemma sender_frame_agrees:
  assumes "originFromSenderFrame parse frame = Some key"
  shows "\<exists>u claimed. frame = Some (Frame (VString u) (VString claimed)) \<and>
    originFromUrl parse u = Some key \<and> originFromUrl parse claimed = Some key"
  using assms
  by (auto simp: originFromSenderFrame_def split: option.splits sender_frame.splits jsv.splits if_splits)

lemma caller_key_cases:
  assumes "callerKeyFromSenderFrame parse frame = Some key"
  shows "\<exists>u claimed. frame = Some (Frame (VString u) (VString claimed)) \<and>
    ((originFromUrl parse u = Some key \<and> originFromUrl parse claimed = Some key) \<or>
     (claimed = LOCAL_FILE_FRAME_ORIGIN \<and> localFileKey parse u = Some key))"
proof (cases "originFromSenderFrame parse frame")
  case None
  then show ?thesis
    using assms
    by (auto simp: callerKeyFromSenderFrame_def split: option.splits sender_frame.splits jsv.splits if_splits)
next
  case (Some k)
  then show ?thesis
    using assms sender_frame_agrees [OF Some] by (auto simp: callerKeyFromSenderFrame_def Let_def)
qed

end
