(* ===== verification/Ledger.thy ===== *)
theory Ledger imports GrantRequest Origin begin

section \<open>The grant ledger and its persistence\<close>

text \<open>
  \<open>grant-ledger.ts\<close>, \<open>grant-persistence.ts\<close>, \<open>update-safety.ts\<close>, \<open>declined-consent.ts\<close> and
  \<open>resource-limits.ts\<close>. Every operation takes and returns the whole ledger: the \<open>#origins\<close> map
  (an association list in insertion order), what \<open>LedgerStorage\<close> holds, and how many grant ids
  have been minted. A write that throws is an input of the operation (\<open>fails\<close>) and leaves behind
  exactly the memory the code had changed by then; its result is \<open>Threw\<close>. The \<open>n\<close>-th random id is
  \<open>mint env n\<close>, a parameter, as is the URL parser.
\<close>

subsection \<open>State\<close>

record persisted_grant =
  p_patterns :: "str list"
  p_grantedAt :: int

record grants_file =
  file_name :: "str option"
  file_grants :: "(str \<times> persisted_grant) list"

record disk =
  disk_floor :: "(str \<times> str) list"
  disk_ack :: "(str \<times> str) list"
  disk_grants :: "(str \<times> grants_file) list"
  disk_declined :: "(str \<times> str list) list"

datatype disk_op =
  WriteFloor | DeleteFloor | WriteAck | DeleteAck | WriteGrants | DeleteGrants
| WriteDeclined | DeleteDeclined

record origin_record =
  rec_manifest :: "manifest option"
  rec_grants :: "(str \<times> grant) list"
  rec_hydrated :: bool
  rec_fs :: int
  rec_floor :: str
  rec_ack :: "str option"
  rec_declined :: "str list option"

record ledger =
  origins :: "(str \<times> origin_record) list"
  ledger_disk :: disk
  minted :: nat

record env =
  url_parse :: url_parser
  mint :: "nat \<Rightarrow> str"
  has_storage :: bool

datatype 'a outcome = Returns 'a | Threw

definition persists :: "env \<Rightarrow> str \<Rightarrow> bool" where
  "persists env origin \<longleftrightarrow> has_storage env \<and> isPersistableOrigin (url_parse env) origin"

text \<open>\<open>appName\<close> omitted keeps the name the file already holds.\<close>

definition write_grants :: "str \<Rightarrow> (str \<times> persisted_grant) list \<Rightarrow> str option \<Rightarrow> disk \<Rightarrow> disk" where
  "write_grants origin gs appName d =
     (let old = Option.bind (map_of (disk_grants d) origin) file_name;
          name = (case appName of None \<Rightarrow> old | Some n \<Rightarrow> Some n)
      in d\<lparr>disk_grants := AList.update origin \<lparr>file_name = name, file_grants = gs\<rparr> (disk_grants d)\<rparr>)"

subsection \<open>update-safety.ts\<close>

definition hydrateFloor :: "env \<Rightarrow> disk \<Rightarrow> str \<Rightarrow> origin_record \<Rightarrow> origin_record" where
  "hydrateFloor env d origin r =
     (if \<not> persists env origin then r
      else (case map_of (disk_floor d) origin of
              None \<Rightarrow> r
            | Some persisted \<Rightarrow>
                if compareVersions persisted persisted = None then r\<lparr>rec_floor := persisted\<rparr>
                else if compareVersions persisted (rec_floor r) = Some 1 then r\<lparr>rec_floor := persisted\<rparr>
                else r))"

definition hydrateRollbackAcknowledgedVersion ::
  "env \<Rightarrow> disk \<Rightarrow> str \<Rightarrow> origin_record \<Rightarrow> origin_record" where
  "hydrateRollbackAcknowledgedVersion env d origin r =
     (if \<not> persists env origin then r
      else (case map_of (disk_ack d) origin of
              None \<Rightarrow> r | Some persisted \<Rightarrow> r\<lparr>rec_ack := Some persisted\<rparr>))"

definition acknowledge_record ::
  "env \<Rightarrow> (disk_op \<Rightarrow> bool) \<Rightarrow> disk \<Rightarrow> str \<Rightarrow> origin_record \<Rightarrow> str \<Rightarrow>
     origin_record \<times> disk \<times> unit outcome" where
  "acknowledge_record env fails d origin r v =
     (let r = r\<lparr>rec_ack := Some v\<rparr> in
      if persists env origin then
        (if fails WriteAck then (r, d, Threw)
         else (r, d\<lparr>disk_ack := AList.update origin v (disk_ack d)\<rparr>, Returns ()))
      else (r, d, Returns ()))"

definition raiseFloor ::
  "env \<Rightarrow> (disk_op \<Rightarrow> bool) \<Rightarrow> disk \<Rightarrow> str \<Rightarrow> origin_record \<Rightarrow> str \<Rightarrow>
     origin_record \<times> disk \<times> bool outcome" where
  "raiseFloor env fails d origin r v =
     (if compareVersions v (rec_floor r) \<noteq> Some 1 then (r, d, Returns False)
      else let r = r\<lparr>rec_floor := v\<rparr> in
        if persists env origin then
          (if fails WriteFloor then (r, d, Threw)
           else (r, d\<lparr>disk_floor := AList.update origin v (disk_floor d)\<rparr>, Returns True))
        else (r, d, Returns True))"

subsection \<open>declined-consent.ts\<close>

definition hydrateDeclinedCapabilities :: "env \<Rightarrow> disk \<Rightarrow> str \<Rightarrow> origin_record \<Rightarrow> origin_record" where
  "hydrateDeclinedCapabilities env d origin r =
     (if \<not> persists env origin then r
      else (case map_of (disk_declined d) origin of
              None \<Rightarrow> r
            | Some persisted \<Rightarrow>
                let filtered = filter isCapabilityKind persisted in
                if length filtered > 0 then r\<lparr>rec_declined := Some filtered\<rparr> else r))"

definition record_declined ::
  "env \<Rightarrow> (disk_op \<Rightarrow> bool) \<Rightarrow> disk \<Rightarrow> str \<Rightarrow> origin_record \<Rightarrow> str list \<Rightarrow> origin_record \<times> disk" where
  "record_declined env fails d origin r kinds =
     (let r = r\<lparr>rec_declined := Some kinds\<rparr> in
      if \<not> persists env origin \<or> fails WriteDeclined then (r, d)
      else (r, d\<lparr>disk_declined := AList.update origin kinds (disk_declined d)\<rparr>))"

definition clear_declined ::
  "env \<Rightarrow> (disk_op \<Rightarrow> bool) \<Rightarrow> disk \<Rightarrow> str \<Rightarrow> origin_record \<Rightarrow> origin_record \<times> disk" where
  "clear_declined env fails d origin r =
     (let r = r\<lparr>rec_declined := None\<rparr> in
      if \<not> persists env origin \<or> fails DeleteDeclined then (r, d)
      else (r, d\<lparr>disk_declined := AList.delete origin (disk_declined d)\<rparr>))"

subsection \<open>grant-persistence.ts\<close>

record superseded =
  sup_capability :: str
  sup_id :: str

text \<open>The loop over \<open>Object.entries (persisted)\<close>; the count of minted ids is threaded through.\<close>

fun hydrate_entries ::
  "env \<Rightarrow> str \<Rightarrow> manifest \<Rightarrow> nat \<Rightarrow> (str \<times> grant) list \<Rightarrow> (str \<times> persisted_grant) list \<Rightarrow>
     (str \<times> grant) list \<times> nat" where
  "hydrate_entries env origin m n restored [] = (restored, n)"
| "hydrate_entries env origin m n restored ((key, entry) # entries) =
     (if \<not> isCapabilityKind key then hydrate_entries env origin m n restored entries
      else let decision = decideGrantRequest m key (Some (p_patterns entry)) in
        if \<not> allowed decision then hydrate_entries env origin m n restored entries
        else hydrate_entries env origin m (Suc n)
               (AList.update key \<lparr>grant_id = mint env n, grant_origin = origin, capability = key,
                  patterns = to_grant decision, grantedAt = p_grantedAt entry\<rparr> restored) entries)"

definition hydrateGrants ::
  "env \<Rightarrow> disk \<Rightarrow> str \<Rightarrow> manifest \<Rightarrow> nat \<Rightarrow> (str \<times> grant) list \<times> nat" where
  "hydrateGrants env d origin m n =
     (case map_of (disk_grants d) origin of
        None \<Rightarrow> ([], n)
      | Some file \<Rightarrow> hydrate_entries env origin m n [] (file_grants file))"

fun keep_unchanged ::
  "(str \<times> grant) list \<Rightarrow> superseded list \<Rightarrow> (str \<times> grant) list \<Rightarrow>
     (str \<times> grant) list \<times> superseded list" where
  "keep_unchanged restored out [] = (restored, out)"
| "keep_unchanged restored out ((cap, existing) # rest) =
     (case map_of restored cap of
        Some nxt \<Rightarrow>
          if sameOwnPatterns (patterns nxt) (patterns existing)
          then keep_unchanged (AList.update cap existing restored) out rest
          else keep_unchanged restored (out @ [\<lparr>sup_capability = cap, sup_id = grant_id existing\<rparr>]) rest
      | None \<Rightarrow> keep_unchanged restored (out @ [\<lparr>sup_capability = cap, sup_id = grant_id existing\<rparr>]) rest)"

definition replaceHydratedGrants ::
  "env \<Rightarrow> disk \<Rightarrow> str \<Rightarrow> manifest \<Rightarrow> (str \<times> grant) list \<Rightarrow> nat \<Rightarrow>
     (str \<times> grant) list \<times> superseded list \<times> nat" where
  "replaceHydratedGrants env d origin m gs n =
     (let (restored, n) = hydrateGrants env d origin m n;
          (live, out) = keep_unchanged restored [] gs
      in (live, out, n))"

definition grantsToPersist :: "(str \<times> grant) list \<Rightarrow> (str \<times> persisted_grant) list" where
  "grantsToPersist gs =
     map (\<lambda>(cap, g). (cap, \<lparr>p_patterns = patterns g, p_grantedAt = grantedAt g\<rparr>)) gs"

definition persistGrants ::
  "env \<Rightarrow> (disk_op \<Rightarrow> bool) \<Rightarrow> disk \<Rightarrow> str \<Rightarrow> (str \<times> grant) list \<Rightarrow> str option \<Rightarrow> disk \<times> unit outcome" where
  "persistGrants env fails d origin gs appName =
     (if \<not> persists env origin then (d, Returns ())
      else if fails WriteGrants then (d, Threw)
      else (write_grants origin (grantsToPersist gs) appName d, Returns ()))"

subsection \<open>resource-limits.ts\<close>

definition socketAllowance :: "origin_record option \<Rightarrow> int" where
  "socketAllowance r =
     (case Option.bind (Option.bind (Option.bind r rec_manifest) (\<lambda>m. net (app_capabilities m)))
             concurrentSockets of
        None \<Rightarrow> LIMIT_defaultConcurrentSockets
      | Some declared \<Rightarrow> min declared LIMIT_concurrentSockets)"

definition quota_of :: "origin_record \<Rightarrow> int option" where
  "quota_of r = Option.bind (Option.bind (rec_manifest r) (\<lambda>m. fs (app_capabilities m))) id"

definition reserveFsBytes :: "origin_record \<Rightarrow> int \<Rightarrow> origin_record \<times> bool" where
  "reserveFsBytes r bytes =
     (if (case quota_of r of None \<Rightarrow> False | Some quotaBytes \<Rightarrow> rec_fs r + bytes > quotaBytes)
      then (r, False)
      else (r\<lparr>rec_fs := rec_fs r + bytes\<rparr>, True))"

definition chargeFsBytes :: "origin_record \<Rightarrow> int \<Rightarrow> origin_record" where
  "chargeFsBytes r bytes = r\<lparr>rec_fs := rec_fs r + bytes\<rparr>"

definition releaseFsBytes :: "origin_record \<Rightarrow> int \<Rightarrow> origin_record" where
  "releaseFsBytes r bytes = r\<lparr>rec_fs := max 0 (rec_fs r - bytes)\<rparr>"

subsection \<open>grant-ledger.ts\<close>

definition fresh_record :: origin_record where
  "fresh_record =
     \<lparr>rec_manifest = None, rec_grants = [], rec_hydrated = False, rec_fs = 0,
      rec_floor = js ''0.0.0'', rec_ack = None, rec_declined = None\<rparr>"

text \<open>\<open>#record\<close>: the record of an origin, created and hydrated on the first touch.\<close>

definition record_of :: "env \<Rightarrow> ledger \<Rightarrow> str \<Rightarrow> ledger \<times> origin_record" where
  "record_of env L origin =
     (case map_of (origins L) origin of
        Some existing \<Rightarrow> (L, existing)
      | None \<Rightarrow>
          let d = ledger_disk L;
              r = hydrateDeclinedCapabilities env d origin
                    (hydrateRollbackAcknowledgedVersion env d origin
                      (hydrateFloor env d origin fresh_record))
          in (L\<lparr>origins := AList.update origin r (origins L)\<rparr>, r))"

definition put_record :: "str \<Rightarrow> origin_record \<Rightarrow> ledger \<Rightarrow> ledger" where
  "put_record origin r L = L\<lparr>origins := AList.update origin r (origins L)\<rparr>"

text \<open>\<open>#hydrateGrants\<close>.\<close>

definition hydrate_record ::
  "env \<Rightarrow> ledger \<Rightarrow> origin_record \<Rightarrow> str \<Rightarrow> manifest \<Rightarrow> origin_record \<times> superseded list \<times> nat" where
  "hydrate_record env L r origin m =
     (if \<not> persists env origin then (r, [], minted L)
      else (case replaceHydratedGrants env (ledger_disk L) origin m (rec_grants r) (minted L) of
              (live, out, n) \<Rightarrow> (r\<lparr>rec_grants := live\<rparr>, out, n)))"

definition hydrateGrantsOnFirstRegistration ::
  "env \<Rightarrow> ledger \<Rightarrow> str \<Rightarrow> manifest \<Rightarrow> ledger \<times> superseded list" where
  "hydrateGrantsOnFirstRegistration env L origin m =
     (case record_of env L origin of (L, r) \<Rightarrow>
        if rec_hydrated r then (L, [])
        else (case hydrate_record env L (r\<lparr>rec_hydrated := True\<rparr>) origin m of
                (r, out, n) \<Rightarrow> ((put_record origin r L)\<lparr>minted := n\<rparr>, out)))"

definition hydrateFromPinnedManifest ::
  "env \<Rightarrow> ledger \<Rightarrow> str \<Rightarrow> manifest \<Rightarrow> ledger \<times> superseded list" where
  "hydrateFromPinnedManifest env L origin m =
     (case record_of env L origin of (L, r) \<Rightarrow>
        if rec_hydrated r then (L, [])
        else (case hydrate_record env L r origin m of
                (r, out, n) \<Rightarrow> ((put_record origin r L)\<lparr>minted := n\<rparr>, out)))"

definition registerApp ::
  "env \<Rightarrow> (disk_op \<Rightarrow> bool) \<Rightarrow> ledger \<Rightarrow> str \<Rightarrow> manifest \<Rightarrow> ledger \<times> unit outcome" where
  "registerApp env fails L origin m =
     (case record_of env L origin of (L, r) \<Rightarrow>
      let L = put_record origin (r\<lparr>rec_manifest := Some m\<rparr>) L;
          L = fst (hydrateGrantsOnFirstRegistration env L origin m) in
      case record_of env L origin of (L, r) \<Rightarrow>
      case raiseFloor env fails (ledger_disk L) origin r (app_version m) of (r, d, res) \<Rightarrow>
        ((put_record origin r L)\<lparr>ledger_disk := d\<rparr>,
         (case res of Returns _ \<Rightarrow> Returns () | Threw \<Rightarrow> Threw)))"

text \<open>The four deletions run in order; the first that throws stops them and keeps the memory.\<close>

fun run_deletes :: "(disk_op \<Rightarrow> bool) \<Rightarrow> (disk_op \<times> (disk \<Rightarrow> disk)) list \<Rightarrow> disk \<Rightarrow> disk \<times> bool" where
  "run_deletes fails [] d = (d, True)"
| "run_deletes fails ((op, change) # ops) d =
     (if fails op then (d, False) else run_deletes fails ops (change d))"

definition forgetOrigin :: "env \<Rightarrow> (disk_op \<Rightarrow> bool) \<Rightarrow> ledger \<Rightarrow> str \<Rightarrow> ledger" where
  "forgetOrigin env fails L origin =
     (case (if has_storage env then
              run_deletes fails
                [(DeleteFloor, disk_floor_update (AList.delete origin)),
                 (DeleteAck, disk_ack_update (AList.delete origin)),
                 (DeleteGrants, disk_grants_update (AList.delete origin)),
                 (DeleteDeclined, disk_declined_update (AList.delete origin))] (ledger_disk L)
            else (ledger_disk L, True)) of
        (d, ok) \<Rightarrow>
          if \<not> ok then L\<lparr>ledger_disk := d\<rparr>
          else L\<lparr>ledger_disk := d, origins := AList.delete origin (origins L)\<rparr>)"

definition manifestFor :: "ledger \<Rightarrow> str \<Rightarrow> manifest option" where
  "manifestFor L origin = Option.bind (map_of (origins L) origin) rec_manifest"

definition versionFloorFor :: "env \<Rightarrow> ledger \<Rightarrow> str \<Rightarrow> ledger \<times> str" where
  "versionFloorFor env L origin = (case record_of env L origin of (L, r) \<Rightarrow> (L, rec_floor r))"

definition rollbackAcknowledgedVersionFor :: "env \<Rightarrow> ledger \<Rightarrow> str \<Rightarrow> ledger \<times> str option" where
  "rollbackAcknowledgedVersionFor env L origin =
     (case record_of env L origin of (L, r) \<Rightarrow> (L, rec_ack r))"

definition acknowledgeRollback ::
  "env \<Rightarrow> (disk_op \<Rightarrow> bool) \<Rightarrow> ledger \<Rightarrow> str \<Rightarrow> str \<Rightarrow> ledger \<times> unit outcome" where
  "acknowledgeRollback env fails L origin v =
     (case record_of env L origin of (L, r) \<Rightarrow>
      case acknowledge_record env fails (ledger_disk L) origin r v of (r, d, res) \<Rightarrow>
        ((put_record origin r L)\<lparr>ledger_disk := d\<rparr>, res))"

definition declinedCapabilitiesFor :: "env \<Rightarrow> ledger \<Rightarrow> str \<Rightarrow> ledger \<times> str list option" where
  "declinedCapabilitiesFor env L origin =
     (case record_of env L origin of (L, r) \<Rightarrow> (L, rec_declined r))"

definition recordDeclinedConsent ::
  "env \<Rightarrow> (disk_op \<Rightarrow> bool) \<Rightarrow> ledger \<Rightarrow> str \<Rightarrow> str list \<Rightarrow> ledger" where
  "recordDeclinedConsent env fails L origin kinds =
     (case record_of env L origin of (L, r) \<Rightarrow>
      case record_declined env fails (ledger_disk L) origin r kinds of (r, d) \<Rightarrow>
        (put_record origin r L)\<lparr>ledger_disk := d\<rparr>)"

definition clearDeclinedConsent :: "env \<Rightarrow> (disk_op \<Rightarrow> bool) \<Rightarrow> ledger \<Rightarrow> str \<Rightarrow> ledger" where
  "clearDeclinedConsent env fails L origin =
     (case record_of env L origin of (L, r) \<Rightarrow>
      case clear_declined env fails (ledger_disk L) origin r of (r, d) \<Rightarrow>
        (put_record origin r L)\<lparr>ledger_disk := d\<rparr>)"

definition registeredOrigins :: "ledger \<Rightarrow> str list" where
  "registeredOrigins L = map fst (filter (\<lambda>(origin, r). rec_manifest r \<noteq> None) (origins L))"

definition persistedApps :: "env \<Rightarrow> ledger \<Rightarrow> (str \<times> grants_file) list" where
  "persistedApps env L = (if has_storage env then disk_grants (ledger_disk L) else [])"

definition revokePersisted ::
  "env \<Rightarrow> (disk_op \<Rightarrow> bool) \<Rightarrow> ledger \<Rightarrow> str \<Rightarrow> str \<Rightarrow> ledger \<times> bool outcome" where
  "revokePersisted env fails L origin kind =
     (let r = map_of (origins L) origin;
          wasLive = (case r of None \<Rightarrow> False | Some r \<Rightarrow> kind \<in> set (map fst (rec_grants r)));
          L = (case r of
                 None \<Rightarrow> L
               | Some r \<Rightarrow> put_record origin (r\<lparr>rec_grants := AList.delete kind (rec_grants r)\<rparr>) L)
      in if \<not> has_storage env then (L, Returns wasLive)
         else (case map_of (disk_grants (ledger_disk L)) origin of
                 None \<Rightarrow> (L, Returns wasLive)
               | Some file \<Rightarrow>
                   if kind \<notin> set (map fst (file_grants file)) then (L, Returns wasLive)
                   else if fails WriteGrants then (L, Threw)
                   else (L\<lparr>ledger_disk := write_grants origin (AList.delete kind (file_grants file))
                             (map_option app_name (Option.bind r rec_manifest)) (ledger_disk L)\<rparr>,
                         Returns True)))"

definition grantsFor :: "ledger \<Rightarrow> str \<Rightarrow> grant list" where
  "grantsFor L origin =
     (case map_of (origins L) origin of None \<Rightarrow> [] | Some r \<Rightarrow> map snd (rec_grants r))"

definition currentGrant :: "ledger \<Rightarrow> str \<Rightarrow> str \<Rightarrow> grant option" where
  "currentGrant L origin kind = Option.bind (map_of (origins L) origin) (\<lambda>r. map_of (rec_grants r) kind)"

text \<open>\<open>parsedPatternsFor\<close>: the cache of \<open>parsed-patterns-cache.ts\<close> holds \<open>patterns.map (parsePattern)\<close>
  of the grant object it is asked for and never anything else.\<close>

definition parsedPatternsFor :: "grant \<Rightarrow> parsed_pattern option list" where
  "parsedPatternsFor g = map (\<lambda>p. parsePattern (VString p)) (patterns g)"

definition grant_capability ::
  "env \<Rightarrow> (disk_op \<Rightarrow> bool) \<Rightarrow> ledger \<Rightarrow> str \<Rightarrow> str \<Rightarrow> str list \<Rightarrow> int \<Rightarrow>
     ledger \<times> (grant \<times> grant option) outcome" where
  "grant_capability env fails L origin kind ps at_time =
     (let g = \<lparr>grant_id = mint env (minted L), grant_origin = origin, capability = kind,
               patterns = ps, grantedAt = at_time\<rparr>;
          L = L\<lparr>minted := Suc (minted L)\<rparr> in
      case record_of env L origin of (L, r) \<Rightarrow>
      let replaced = map_of (rec_grants r) kind;
          r = r\<lparr>rec_grants := AList.update kind g (rec_grants r)\<rparr>;
          L = put_record origin r L in
      case persistGrants env fails (ledger_disk L) origin (rec_grants r)
             (map_option app_name (rec_manifest r)) of
        (d, Returns _) \<Rightarrow> (L\<lparr>ledger_disk := d\<rparr>, Returns (g, replaced))
      | (d, Threw) \<Rightarrow> (L\<lparr>ledger_disk := d\<rparr>, Threw))"

definition revoke_grant ::
  "env \<Rightarrow> (disk_op \<Rightarrow> bool) \<Rightarrow> ledger \<Rightarrow> str \<Rightarrow> str \<Rightarrow> ledger \<times> unit outcome" where
  "revoke_grant env fails L origin gid =
     (case map_of (origins L) origin of
        None \<Rightarrow> (L, Returns ())
      | Some r \<Rightarrow>
          (case find (\<lambda>(cap, g). grant_id g = gid) (rec_grants r) of
             None \<Rightarrow> (L, Returns ())
           | Some (cap, g) \<Rightarrow>
               let r = r\<lparr>rec_grants := AList.delete cap (rec_grants r)\<rparr>;
                   L = put_record origin r L in
               (case persistGrants env fails (ledger_disk L) origin (rec_grants r) None of
                  (d, res) \<Rightarrow> (L\<lparr>ledger_disk := d\<rparr>, res))))"

definition ledger_socketAllowance :: "ledger \<Rightarrow> str \<Rightarrow> int" where
  "ledger_socketAllowance L origin = socketAllowance (map_of (origins L) origin)"

definition fsBytesUsed :: "ledger \<Rightarrow> str \<Rightarrow> int" where
  "fsBytesUsed L origin = (case map_of (origins L) origin of None \<Rightarrow> 0 | Some r \<Rightarrow> rec_fs r)"

definition ledger_reserveFsBytes :: "env \<Rightarrow> ledger \<Rightarrow> str \<Rightarrow> int \<Rightarrow> ledger \<times> bool" where
  "ledger_reserveFsBytes env L origin bytes =
     (case record_of env L origin of (L, r) \<Rightarrow>
      case reserveFsBytes r bytes of (r, ok) \<Rightarrow> (put_record origin r L, ok))"

definition ledger_chargeFsBytes :: "env \<Rightarrow> ledger \<Rightarrow> str \<Rightarrow> int \<Rightarrow> ledger" where
  "ledger_chargeFsBytes env L origin bytes =
     (case record_of env L origin of (L, r) \<Rightarrow> put_record origin (chargeFsBytes r bytes) L)"

definition ledger_releaseFsBytes :: "env \<Rightarrow> ledger \<Rightarrow> str \<Rightarrow> int \<Rightarrow> ledger" where
  "ledger_releaseFsBytes env L origin bytes =
     (case record_of env L origin of (L, r) \<Rightarrow> put_record origin (releaseFsBytes r bytes) L)"

section \<open>The ledger as a transition system\<close>

text \<open>
  One step is one public method call, with any arguments and any set of failing writes; only
  \<open>forgetOrigin\<close> is labelled, because it is the one operation the version floor does not survive.
\<close>

datatype ledger_event = Forgets str | Calls

inductive ledger_step :: "env \<Rightarrow> ledger \<Rightarrow> ledger_event \<Rightarrow> ledger \<Rightarrow> bool" for env where
  step_touch: "record_of env L origin = (L', r) \<Longrightarrow> ledger_step env L Calls L'"
| step_register: "registerApp env fails L origin m = (L', res) \<Longrightarrow> ledger_step env L Calls L'"
| step_first: "hydrateGrantsOnFirstRegistration env L origin m = (L', out) \<Longrightarrow> ledger_step env L Calls L'"
| step_pinned: "hydrateFromPinnedManifest env L origin m = (L', out) \<Longrightarrow> ledger_step env L Calls L'"
| step_forget: "ledger_step env L (Forgets origin) (forgetOrigin env fails L origin)"
| step_ack: "acknowledgeRollback env fails L origin v = (L', res) \<Longrightarrow> ledger_step env L Calls L'"
| step_decline: "ledger_step env L Calls (recordDeclinedConsent env fails L origin kinds)"
| step_clear: "ledger_step env L Calls (clearDeclinedConsent env fails L origin)"
| step_revokePersisted: "revokePersisted env fails L origin kind = (L', res2) \<Longrightarrow> ledger_step env L Calls L'"
| step_grant: "grant_capability env fails L origin kind ps t = (L', res3) \<Longrightarrow> ledger_step env L Calls L'"
| step_revoke: "revoke_grant env fails L origin gid = (L', res) \<Longrightarrow> ledger_step env L Calls L'"
| step_reserve: "ledger_reserveFsBytes env L origin n = (L', ok) \<Longrightarrow> ledger_step env L Calls L'"
| step_charge: "ledger_step env L Calls (ledger_chargeFsBytes env L origin n)"
| step_release: "ledger_step env L Calls (ledger_releaseFsBytes env L origin n)"

inductive ledger_run :: "env \<Rightarrow> ledger \<Rightarrow> ledger_event list \<Rightarrow> ledger \<Rightarrow> bool" for env where
  run_done: "ledger_run env L [] L"
| run_step: "ledger_run env L es L' \<Longrightarrow> ledger_step env L' e L'' \<Longrightarrow> ledger_run env L (es @ [e]) L''"

definition empty_ledger :: "disk \<Rightarrow> ledger" where
  "empty_ledger d = \<lparr>origins = [], ledger_disk = d, minted = 0\<rparr>"

subsection \<open>What the small steps change\<close>

named_theorems ledger_simps \<open>how the parts of the ledger change\<close>

lemma origins_put [ledger_simps]:
  "map_of (origins (put_record origin r L)) o' = (if o' = origin then Some r else map_of (origins L) o')"
  by (simp add: put_record_def update_conv')

lemma put_record_fields [simp]:
  "ledger_disk (put_record origin r L) = ledger_disk L" "minted (put_record origin r L) = minted L"
  by (simp_all add: put_record_def)

lemma distinct_put [simp]: "distinct (map fst (origins L)) \<Longrightarrow> distinct (map fst (origins (put_record origin r L)))"
  by (simp add: put_record_def distinct_update)

lemma hydrate_fields [simp]:
  "rec_grants (hydrateFloor env d o' r) = rec_grants r"
  "rec_grants (hydrateRollbackAcknowledgedVersion env d o' r) = rec_grants r"
  "rec_grants (hydrateDeclinedCapabilities env d o' r) = rec_grants r"
  "rec_floor (hydrateRollbackAcknowledgedVersion env d o' r) = rec_floor r"
  "rec_floor (hydrateDeclinedCapabilities env d o' r) = rec_floor r"
  by (simp_all add: hydrateFloor_def hydrateRollbackAcknowledgedVersion_def
      hydrateDeclinedCapabilities_def Let_def split: option.split)

lemma fresh_record_grants [simp]: "rec_grants fresh_record = []"
  by (simp add: fresh_record_def)

lemma record_of_props:
  assumes "record_of env L origin = (L', r)"
  shows "map_of (origins L') origin = Some r"
    and "ledger_disk L' = ledger_disk L" and "minted L' = minted L"
    and "map_of (origins L) origin = Some r' \<Longrightarrow> L' = L \<and> r = r'"
    and "map_of (origins L) origin = None \<Longrightarrow> rec_grants r = []"
    and "o' \<noteq> origin \<Longrightarrow> map_of (origins L') o' = map_of (origins L) o'"
    and "distinct (map fst (origins L)) \<Longrightarrow> distinct (map fst (origins L'))"
  using assms
  by (auto simp: record_of_def update_conv' distinct_update Let_def split: option.splits)

lemma currentGrant_record_of [simp]:
  "record_of env L origin = (L', r) \<Longrightarrow> currentGrant L' o' k = currentGrant L o' k"
  using record_of_props [of env L origin L' r]
  by (cases "map_of (origins L) origin"; cases "o' = origin") (auto simp: currentGrant_def)

lemma currentGrant_put [ledger_simps]:
  "currentGrant (put_record origin r L) o' k =
     (if o' = origin then map_of (rec_grants r) k else currentGrant L o' k)"
  by (simp add: currentGrant_def origins_put)

lemma currentGrant_record:
  "record_of env L origin = (L', r) \<Longrightarrow> map_of (rec_grants r) k = currentGrant L origin k"
  using record_of_props(1) [of env L origin L' r] currentGrant_record_of [of env L origin L' r origin k]
  by (simp add: currentGrant_def)

lemma currentGrant_updates [simp]:
  "currentGrant (L\<lparr>ledger_disk := d\<rparr>) o' k = currentGrant L o' k"
  "currentGrant (L\<lparr>minted := n\<rparr>) o' k = currentGrant L o' k"
  by (simp_all add: currentGrant_def)

section \<open>Hydration\<close>

definition kept :: "(str \<times> grant) list \<Rightarrow> str \<Rightarrow> grant \<Rightarrow> bool" where
  "kept restored cap existing \<longleftrightarrow>
     (case map_of restored cap of
        None \<Rightarrow> False | Some n \<Rightarrow> sameOwnPatterns (patterns n) (patterns existing))"

lemma keep_unchanged_live:
  "distinct (map fst gs) \<Longrightarrow>
   map_of (fst (keep_unchanged restored out gs)) k =
     (case map_of gs k of
        Some e \<Rightarrow> if kept restored k e then Some e else map_of restored k
      | None \<Rightarrow> map_of restored k)"
proof (induction restored out gs rule: keep_unchanged.induct)
  case (2 restored out cap existing rest)
  have cap: "map_of rest cap = None" using "2.prems" by (simp add: map_of_eq_None_iff)
  have k: "kept (AList.update cap x restored) k' e = kept restored k' e" if "k' \<noteq> cap" for x k' e
    using that by (simp add: kept_def update_conv')
  show ?case
  proof (cases "kept restored cap existing")
    case True
    then obtain n where n: "map_of restored cap = Some n" "sameOwnPatterns (patterns n) (patterns existing)"
      by (auto simp: kept_def split: option.splits)
    have "map_of (fst (keep_unchanged (AList.update cap existing restored) out rest)) k =
      (case map_of rest k of
        Some e \<Rightarrow> if kept (AList.update cap existing restored) k e then Some e
                  else map_of (AList.update cap existing restored) k
      | None \<Rightarrow> map_of (AList.update cap existing restored) k)"
      using 2 n by simp
    then show ?thesis
      using n True cap k by (auto simp: update_conv' split: option.split)
  next
    case False
    then have "keep_unchanged restored out ((cap, existing) # rest) =
        keep_unchanged restored (out @ [\<lparr>sup_capability = cap, sup_id = grant_id existing\<rparr>]) rest"
      by (auto simp: kept_def split: option.splits)
    moreover have "map_of (fst (keep_unchanged restored
        (out @ [\<lparr>sup_capability = cap, sup_id = grant_id existing\<rparr>]) rest)) k =
      (case map_of rest k of Some e \<Rightarrow> if kept restored k e then Some e else map_of restored k
       | None \<Rightarrow> map_of restored k)"
      using 2 False by (auto simp: kept_def split: option.splits)
    ultimately show ?thesis using False cap by (auto split: option.split)
  qed
qed simp

lemma keep_unchanged_superseded:
  "distinct (map fst gs) \<Longrightarrow>
   snd (keep_unchanged restored out gs) =
     out @ map (\<lambda>(cap, e). \<lparr>sup_capability = cap, sup_id = grant_id e\<rparr>)
       (filter (\<lambda>(cap, e). \<not> kept restored cap e) gs)"
proof (induction restored out gs rule: keep_unchanged.induct)
  case (2 restored out cap existing rest)
  have "filter (\<lambda>(c, e). \<not> kept (AList.update cap x restored) c e) rest =
      filter (\<lambda>(c, e). \<not> kept restored c e) rest" for x
    using "2.prems" by (intro filter_cong) (auto simp: kept_def update_conv' image_iff)
  then show ?case
    using 2 by (auto simp: kept_def split: option.splits)
qed simp

text \<open>What hydration restores: fresh ids, one per key, each entry one a live request would get.\<close>

definition hydrated :: "env \<Rightarrow> str \<Rightarrow> manifest \<Rightarrow> nat \<Rightarrow> nat \<Rightarrow> (str \<times> grant) list \<Rightarrow> bool" where
  "hydrated env origin m n0 n gs \<longleftrightarrow> n0 \<le> n \<and> distinct (map fst gs) \<and>
     (\<forall>k g. map_of gs k = Some g \<longrightarrow> isCapabilityKind k \<and> capability g = k \<and> grant_origin g = origin \<and>
        decideGrantRequest m k (Some (patterns g)) = \<lparr>allowed = True, to_grant = patterns g\<rparr> \<and>
        (\<exists>i. n0 \<le> i \<and> i < n \<and> grant_id g = mint env i)) \<and>
     (\<forall>k k' g g'. map_of gs k = Some g \<longrightarrow> map_of gs k' = Some g' \<longrightarrow> grant_id g = grant_id g' \<longrightarrow> k = k')"

lemma decide_idem:
  assumes "allowed (decideGrantRequest m k (Some ps))"
  shows "decideGrantRequest m k (Some ps) = \<lparr>allowed = True, to_grant = ps\<rparr>"
  using decideGrantRequest_allowed [OF assms] assms
  by (metis (mono_tags, lifting) grant_request_decision.surjective grant_request_decision.select_convs
      old.unit.exhaust option.simps(5))

lemma hydrated_update:
  assumes "inj (mint env)" and h: "hydrated env origin m n0 n gs"
    and g: "isCapabilityKind key" "capability g = key" "grant_origin g = origin" "grant_id g = mint env n"
      "decideGrantRequest m key (Some (patterns g)) = \<lparr>allowed = True, to_grant = patterns g\<rparr>"
  shows "hydrated env origin m n0 (Suc n) (AList.update key g gs)"
  unfolding hydrated_def
proof (intro conjI allI impI)
  show "n0 \<le> Suc n" using h by (simp add: hydrated_def)
  show "distinct (map fst (AList.update key g gs))"
    using h by (simp add: hydrated_def distinct_update)
next
  fix k x
  assume "map_of (AList.update key g gs) k = Some x"
  then consider "k = key" "x = g" | "k \<noteq> key" "map_of gs k = Some x"
    by (auto simp: update_conv' split: if_splits)
  then have "isCapabilityKind k \<and> capability x = k \<and> grant_origin x = origin \<and>
      decideGrantRequest m k (Some (patterns x)) = \<lparr>allowed = True, to_grant = patterns x\<rparr> \<and>
      (\<exists>i. n0 \<le> i \<and> i < Suc n \<and> grant_id x = mint env i)"
  proof cases
    case 1
    have "n0 \<le> n" using h by (simp add: hydrated_def)
    with 1 g show ?thesis by auto
  next
    case 2
    then obtain i where "n0 \<le> i" "i < n" "grant_id x = mint env i"
      using h unfolding hydrated_def by blast
    moreover have "isCapabilityKind k \<and> capability x = k \<and> grant_origin x = origin \<and>
      decideGrantRequest m k (Some (patterns x)) = \<lparr>allowed = True, to_grant = patterns x\<rparr>"
      using h 2(2) unfolding hydrated_def by blast
    ultimately show ?thesis using less_SucI by blast
  qed
  then show "isCapabilityKind k" "capability x = k" "grant_origin x = origin"
    "decideGrantRequest m k (Some (patterns x)) = \<lparr>allowed = True, to_grant = patterns x\<rparr>"
    "\<exists>i. n0 \<le> i \<and> i < Suc n \<and> grant_id x = mint env i" by blast+
next
  fix k k' x x'
  assume a: "map_of (AList.update key g gs) k = Some x" "map_of (AList.update key g gs) k' = Some x'"
    "grant_id x = grant_id x'"
  have old: "grant_id y \<noteq> mint env n" if "map_of gs j = Some y" for j y
    using h that assms(1) by (fastforce simp: hydrated_def dest: injD)
  show "k = k'"
    using a h old g(4) by (auto simp: update_conv' hydrated_def split: if_splits)
qed

lemma hydrate_entries_hydrated:
  assumes "inj (mint env)" and "hydrated env origin m n0 n restored"
  shows "hydrated env origin m n0 (snd (hydrate_entries env origin m n restored entries))
    (fst (hydrate_entries env origin m n restored entries))"
  using assms
proof (induction env origin m n restored entries rule: hydrate_entries.induct)
  case (2 env origin m n restored key entry entries)
  show ?case
  proof (cases "isCapabilityKind key \<and> allowed (decideGrantRequest m key (Some (p_patterns entry)))")
    case True
    let ?d = "decideGrantRequest m key (Some (p_patterns entry))"
    let ?g = "\<lparr>grant_id = mint env n, grant_origin = origin, capability = key,
                  patterns = to_grant ?d, grantedAt = p_grantedAt entry\<rparr>"
    have d: "?d = \<lparr>allowed = True, to_grant = p_patterns entry\<rparr>"
      using decide_idem True by blast
    have "hydrated env origin m n0 (Suc n) (AList.update key ?g restored)"
      using hydrated_update [OF "2.prems", of key ?g] True d by simp
    then show ?thesis using 2 True by (simp add: Let_def)
  qed (use 2 in \<open>auto simp: Let_def\<close>)
qed simp

end
