(* ===== verification/LedgerRuns.thy ===== *)
theory LedgerRuns imports Ledger begin

section \<open>What any sequence of ledger calls keeps\<close>

text \<open>
  The ledger of \<open>grant-ledger.ts\<close> as a transition system. Every call is shown to be one step of a
  small relation between the record of one origin before and after (\<open>record_step\<close>), and what
  holds of whole runs (grant ids are unique, the version floor only rises, in memory and on disk)
  follows from that relation alone.
\<close>

subsection \<open>Versions ordered as the floor orders them\<close>

definition floor_le :: "str \<Rightarrow> str \<Rightarrow> bool" where
  "floor_le f f' \<longleftrightarrow> f = f' \<or> (\<exists>d\<le>0. compareVersions f f' = Some d)"

lemma floor_le_refl [simp]: "floor_le f f"
  by (simp add: floor_le_def)

lemma floor_le_trans: "floor_le f g \<Longrightarrow> floor_le g h \<Longrightarrow> floor_le f h"
  unfolding floor_le_def using compareVersions_trans by metis

lemma floor_le_raise: "compareVersions v f = Some 1 \<Longrightarrow> floor_le f v"
  using compareVersions_swap [of f v] by (simp add: floor_le_def)

text \<open>A floor rules a version out when nothing below that version passes the floor any more.\<close>

definition rules_out_below :: "str \<Rightarrow> str \<Rightarrow> bool" where
  "rules_out_below floor v \<longleftrightarrow> (\<forall>w. compareVersions w v = Some (-1) \<longrightarrow> \<not> isAtOrAboveFloor w floor)"

lemma rules_out_self: "rules_out_below v v"
  by (simp add: rules_out_below_def isAtOrAboveFloor_def)

lemma rules_out_below_le:
  assumes "rules_out_below f v" and "floor_le f f'"
  shows "rules_out_below f' v"
  unfolding rules_out_below_def
proof (intro allI impI)
  fix w assume w: "compareVersions w v = Some (-1)"
  have below: "\<not> isAtOrAboveFloor w f" using assms(1) w by (simp add: rules_out_below_def)
  show "\<not> isAtOrAboveFloor w f'"
  proof (cases "f = f'")
    case False
    then obtain e where f: "compareVersions f f' = Some e" "e \<le> 0" using assms(2) by (auto simp: floor_le_def)
    show ?thesis
    proof (cases "compareVersions w f")
      case None
      then have "compareVersions w f' = None"
        using f(1) compareVersions_None_iff [of w f] compareVersions_None_iff [of f f']
          compareVersions_None_iff [of w f'] by auto
      then show ?thesis by (simp add: isAtOrAboveFloor_def)
    next
      case (Some d)
      then have "d < 0" using below by (simp add: isAtOrAboveFloor_def)
      then show ?thesis using compareVersions_trans [OF Some f(1)] f(2) by (auto simp: isAtOrAboveFloor_def)
    qed
  qed (use below in simp)
qed

lemma rules_out_registered:
  "compareVersions v f \<noteq> Some 1 \<Longrightarrow> rules_out_below f v"
  unfolding rules_out_below_def isAtOrAboveFloor_def
proof (intro allI impI)
  fix w assume a: "compareVersions v f \<noteq> Some 1" and w: "compareVersions w v = Some (-1)"
  show "\<not> (case compareVersions w f of None \<Rightarrow> False | Some order \<Rightarrow> 0 \<le> order)"
  proof (cases "compareVersions v f")
    case None
    then have "compareVersions w f = None"
      using w compareVersions_None_iff [of v f] compareVersions_None_iff [of w f] compareVersions_None_iff [of w v]
      by auto
    then show ?thesis by simp
  next
    case (Some d)
    then have "d \<le> 0" using a compareVersions_values [OF Some] by auto
    then show ?thesis using compareVersions_trans [OF w Some] by auto
  qed
qed

subsection \<open>One origin's record, from one call to the next\<close>

definition grants_ok :: "env \<Rightarrow> str \<Rightarrow> nat \<Rightarrow> (str \<times> grant) list \<Rightarrow> bool" where
  "grants_ok env origin n gs \<longleftrightarrow> distinct (map fst gs) \<and>
     (\<forall>k g. map_of gs k = Some g \<longrightarrow>
        capability g = k \<and> grant_origin g = origin \<and> (\<exists>i<n. grant_id g = mint env i)) \<and>
     (\<forall>k k' g g'. map_of gs k = Some g \<longrightarrow> map_of gs k' = Some g' \<longrightarrow> grant_id g = grant_id g' \<longrightarrow> k = k')"

definition fresh_or_old :: "env \<Rightarrow> nat \<Rightarrow> (str \<times> grant) list \<Rightarrow> (str \<times> grant) list \<Rightarrow> bool" where
  "fresh_or_old env n gs gs' \<longleftrightarrow>
     (\<forall>k g. map_of gs' k = Some g \<longrightarrow> map_of gs k = Some g \<or> (\<exists>i\<ge>n. grant_id g = mint env i))"

definition record_step :: "env \<Rightarrow> str \<Rightarrow> nat \<Rightarrow> origin_record \<Rightarrow> nat \<Rightarrow> origin_record \<Rightarrow> bool" where
  "record_step env origin n r n' r' \<longleftrightarrow> n \<le> n' \<and> floor_le (rec_floor r) (rec_floor r') \<and>
     (inj (mint env) \<longrightarrow> grants_ok env origin n (rec_grants r) \<longrightarrow>
        fresh_or_old env n (rec_grants r) (rec_grants r') \<and> grants_ok env origin n' (rec_grants r'))"

lemma fresh_or_old_refl [simp]: "fresh_or_old env n gs gs"
  by (simp add: fresh_or_old_def)

lemma fresh_or_old_trans:
  "fresh_or_old env n gs gs' \<Longrightarrow> fresh_or_old env n' gs' gs'' \<Longrightarrow> n \<le> n' \<Longrightarrow> fresh_or_old env n gs gs''"
  unfolding fresh_or_old_def by (meson le_trans)

lemma record_step_trans:
  "record_step env o' n r n' r' \<Longrightarrow> record_step env o' n' r' n'' r'' \<Longrightarrow> record_step env o' n r n'' r''"
  unfolding record_step_def using floor_le_trans fresh_or_old_trans by (meson le_trans)

lemma record_step_same:
  "rec_grants r' = rec_grants r \<Longrightarrow> rec_floor r' = rec_floor r \<Longrightarrow> record_step env o' n r n r'"
  by (simp add: record_step_def)

lemma record_step_floor:
  "rec_grants r' = rec_grants r \<Longrightarrow> floor_le (rec_floor r) (rec_floor r') \<Longrightarrow> record_step env o' n r n r'"
  by (simp add: record_step_def)

lemma grants_ok_delete:
  "grants_ok env o' n gs \<Longrightarrow> grants_ok env o' n (AList.delete k gs)"
  unfolding grants_ok_def by (auto simp: distinct_delete delete_conv')

lemma record_step_delete:
  "rec_floor r' = rec_floor r \<Longrightarrow> rec_grants r' = AList.delete k (rec_grants r) \<Longrightarrow>
   record_step env o' n r n r'"
  using grants_ok_delete [of env o' n "rec_grants r" k]
  by (simp add: record_step_def fresh_or_old_def delete_conv')

lemma grants_ok_insert:
  assumes "inj (mint env)" and ok: "grants_ok env o' n gs"
    and g: "capability g = key" "grant_origin g = o'" "grant_id g = mint env n"
  shows "grants_ok env o' (Suc n) (AList.update key g gs)"
proof -
  have old: "grant_id x \<noteq> mint env n" if "map_of gs k = Some x" for k x
  proof -
    from that ok obtain i where "i < n" "grant_id x = mint env i"
      unfolding grants_ok_def by blast
    then show ?thesis using assms(1) by (auto dest: injD)
  qed
  have kept: "capability x = k \<and> grant_origin x = o' \<and> (\<exists>i<Suc n. grant_id x = mint env i)"
    if "map_of (AList.update key g gs) k = Some x" for k x
  proof (cases "k = key")
    case True
    then have "x = g" using that by (simp add: update_conv')
    then show ?thesis using True g by blast
  next
    case False
    then have "map_of gs k = Some x" using that by (simp add: update_conv')
    then have "capability x = k \<and> grant_origin x = o' \<and> (\<exists>i<n. grant_id x = mint env i)"
      using ok unfolding grants_ok_def by blast
    then show ?thesis using less_SucI by blast
  qed
  have same: "k = k'"
    if "map_of (AList.update key g gs) k = Some x" "map_of (AList.update key g gs) k' = Some x'"
      "grant_id x = grant_id x'" for k k' x x'
  proof (cases "k = key \<or> k' = key")
    case True
    then show ?thesis
      using that old [of k x] old [of k' x'] g(3) by (auto simp: update_conv' split: if_splits)
  next
    case False
    then have "map_of gs k = Some x" "map_of gs k' = Some x'" using that(1,2) by (simp_all add: update_conv')
    then show ?thesis using ok that(3) unfolding grants_ok_def by blast
  qed
  have "distinct (map fst (AList.update key g gs))"
    using ok by (simp add: grants_ok_def distinct_update)
  then show ?thesis unfolding grants_ok_def using kept same by blast
qed

lemma record_step_insert:
  "rec_floor r' = rec_floor r \<Longrightarrow> rec_grants r' = AList.update key g (rec_grants r) \<Longrightarrow>
   capability g = key \<Longrightarrow> grant_origin g = o' \<Longrightarrow> grant_id g = mint env n \<Longrightarrow>
   record_step env o' n r (Suc n) r'"
  using grants_ok_insert [of env o' n "rec_grants r" g key]
  by (auto simp: record_step_def fresh_or_old_def update_conv')

lemma keep_unchanged_distinct:
  "distinct (map fst restored) \<Longrightarrow> distinct (map fst (fst (keep_unchanged restored out gs)))"
  by (induction restored out gs rule: keep_unchanged.induct) (auto simp: distinct_update split: option.split)

lemma hydrateGrants_hydrated:
  assumes "inj (mint env)" and "hydrateGrants env d o' m n = (restored, n')"
  shows "hydrated env o' m n n' restored"
proof -
  have "hydrated env o' m n n []" by (simp add: hydrated_def)
  then have start: "hydrated env o' m n (snd (hydrate_entries env o' m n [] es)) (fst (hydrate_entries env o' m n [] es))"
    for es by (rule hydrate_entries_hydrated [OF assms(1)])
  show ?thesis
  proof (cases "map_of (disk_grants d) o'")
    case None
    then show ?thesis using assms(2) \<open>hydrated env o' m n n []\<close> by (simp add: hydrateGrants_def)
  next
    case (Some x)
    then show ?thesis using assms(2) start [of "file_grants x"] by (simp add: hydrateGrants_def)
  qed
qed

lemma hydrate_entries_mono: "n \<le> snd (hydrate_entries env o' m n restored entries)"
  by (induction env o' m n restored entries rule: hydrate_entries.induct) (auto simp: Let_def)

lemma hydrateGrants_mono: "n \<le> snd (hydrateGrants env d o' m n)"
  by (simp add: hydrateGrants_def hydrate_entries_mono split: option.split)

lemma replaceHydratedGrants_live:
  assumes "replaceHydratedGrants env d o' m gs n = (live, out, n')" and "distinct (map fst gs)"
    and "hydrateGrants env d o' m n = (restored, n'')"
  shows "n' = n''"
    and "map_of live k =
      (case map_of gs k of
         Some e \<Rightarrow> if kept restored k e then Some e else map_of restored k
       | None \<Rightarrow> map_of restored k)"
    and "out = map (\<lambda>(cap, e). \<lparr>sup_capability = cap, sup_id = grant_id e\<rparr>)
       (filter (\<lambda>(cap, e). \<not> kept restored cap e) gs)"
  using assms keep_unchanged_live [OF assms(2), of restored "[]" k]
    keep_unchanged_superseded [OF assms(2), of restored "[]"]
  by (auto simp: replaceHydratedGrants_def split: prod.splits)

lemma replaceHydratedGrants_step:
  assumes r: "replaceHydratedGrants env d o' m gs n = (live, out, n')" and inj: "inj (mint env)"
    and ok: "grants_ok env o' n gs"
  shows "grants_ok env o' n' live" and "fresh_or_old env n gs live"
proof -
  obtain restored n'' where h0: "hydrateGrants env d o' m n = (restored, n'')" by fastforce
  have d: "distinct (map fst gs)" using ok by (simp add: grants_ok_def)
  note live = replaceHydratedGrants_live [OF r d h0]
  have h: "hydrated env o' m n n' restored" using hydrateGrants_hydrated [OF inj h0] live(1) by simp
  have le: "n \<le> n'" using h by (simp add: hydrated_def)
  have "distinct (map fst restored)" using h by (simp add: hydrated_def)
  then have "distinct (map fst live)"
    using r h0 keep_unchanged_distinct [of restored "[]" gs]
    by (auto simp: replaceHydratedGrants_def split: prod.splits)
  moreover have which: "map_of gs k = Some g \<and> (\<exists>i<n. grant_id g = mint env i) \<or>
      map_of restored k = Some g \<and> (\<exists>i. n \<le> i \<and> i < n' \<and> grant_id g = mint env i)"
    if "map_of live k = Some g" for k g
  proof (cases "map_of gs k = Some g")
    case True then show ?thesis using ok unfolding grants_ok_def by blast
  next
    case False
    then have "map_of restored k = Some g"
      using that live(2) [of k] by (auto split: option.splits if_splits)
    then show ?thesis using h unfolding hydrated_def by blast
  qed
  moreover have "capability g = k \<and> grant_origin g = o' \<and> (\<exists>i<n'. grant_id g = mint env i)"
    if "map_of live k = Some g" for k g
    using which [OF that] ok h le unfolding grants_ok_def hydrated_def by (meson less_le_trans)
  moreover have "k = k'" if "map_of live k = Some g" "map_of live k' = Some g'" "grant_id g = grant_id g'"
    for k k' g g'
  proof -
    have "i = j" if "grant_id g = mint env i" "grant_id g' = mint env j" for i j
      using that inj \<open>grant_id g = grant_id g'\<close> by (metis injD)
    then have "map_of gs k = Some g \<and> map_of gs k' = Some g' \<or>
        map_of restored k = Some g \<and> map_of restored k' = Some g'"
      using which [OF that(1)] which [OF that(2)] by (metis leD)
    then consider "map_of gs k = Some g" "map_of gs k' = Some g'"
      | "map_of restored k = Some g" "map_of restored k' = Some g'" by blast
    then show ?thesis
      using ok h that(3) unfolding grants_ok_def hydrated_def by cases blast+
  qed
  ultimately show "grants_ok env o' n' live" unfolding grants_ok_def by blast
  show "fresh_or_old env n gs live" unfolding fresh_or_old_def using which by blast
qed

lemma record_step_hydrate:
  assumes "hydrate_record env L r o' m = (r', out, n')"
  shows "record_step env o' (minted L) r n' r'"
  using assms hydrateGrants_mono [of "minted L" env "ledger_disk L" o' m]
    replaceHydratedGrants_step [of env "ledger_disk L" o' m "rec_grants r" "minted L" "rec_grants r'" out n']
  by (auto simp: hydrate_record_def record_step_def replaceHydratedGrants_def split: if_splits prod.splits)

subsection \<open>Every call is one such step on one origin\<close>

abbreviation floor_on_disk :: "ledger \<Rightarrow> str \<Rightarrow> str option" where
  "floor_on_disk L origin \<equiv> map_of (disk_floor (ledger_disk L)) origin"

definition evolves :: "env \<Rightarrow> ledger \<Rightarrow> str \<Rightarrow> ledger \<Rightarrow> bool" where
  "evolves env L origin L' \<longleftrightarrow>
     (\<exists>L1 r r'. record_of env L origin = (L1, r) \<and>
        map_of (origins L') = (map_of (origins L))(origin \<mapsto> r') \<and>
        (distinct (map fst (origins L)) \<longrightarrow> distinct (map fst (origins L'))) \<and>
        record_step env origin (minted L) r (minted L') r' \<and>
        (\<forall>o'. o' \<noteq> origin \<longrightarrow> floor_on_disk L' o' = floor_on_disk L o') \<and>
        (floor_on_disk L' origin = floor_on_disk L origin \<or>
          (\<exists>f. floor_on_disk L' origin = Some f \<and> floor_le (rec_floor r) f \<and> floor_le f (rec_floor r'))))"

definition idle :: "ledger \<Rightarrow> ledger \<Rightarrow> bool" where
  "idle L L' \<longleftrightarrow> origins L' = origins L \<and> minted L' = minted L \<and>
     disk_floor (ledger_disk L') = disk_floor (ledger_disk L)"

lemma evolvesI:
  assumes "record_of env L o' = (L1, r)" and "origins L' = AList.update o' r' (origins L1)"
    and "disk_floor (ledger_disk L') = disk_floor (ledger_disk L)"
    and "record_step env o' (minted L) r (minted L') r'"
  shows "evolves env L o' L'"
  unfolding evolves_def
proof (intro exI conjI)
  show "record_of env L o' = (L1, r)" by (rule assms(1))
  show "map_of (origins L') = (map_of (origins L))(o' \<mapsto> r')"
    using record_of_props(6) [OF assms(1)] assms(2) by (auto simp: update_conv' fun_eq_iff)
  show "distinct (map fst (origins L)) \<longrightarrow> distinct (map fst (origins L'))"
    using record_of_props(7) [OF assms(1)] assms(2) by (simp add: distinct_update)
qed (use assms in simp_all)

lemma evolves_trans:
  assumes "evolves env L o' L'" and "evolves env L' o' L''"
  shows "evolves env L o' L''"
proof -
  obtain L1 r r' where a: "record_of env L o' = (L1, r)"
    "map_of (origins L') = (map_of (origins L))(o' \<mapsto> r')"
    "distinct (map fst (origins L)) \<longrightarrow> distinct (map fst (origins L'))"
    "record_step env o' (minted L) r (minted L') r'"
    "\<forall>o2. o2 \<noteq> o' \<longrightarrow> floor_on_disk L' o2 = floor_on_disk L o2"
    "floor_on_disk L' o' = floor_on_disk L o' \<or>
      (\<exists>f. floor_on_disk L' o' = Some f \<and> floor_le (rec_floor r) f \<and> floor_le f (rec_floor r'))"
    using assms(1) unfolding evolves_def by (elim exE conjE) (rule that; assumption)
  obtain L2 s r'' where b0: "record_of env L' o' = (L2, s)"
    and b: "map_of (origins L'') = (map_of (origins L'))(o' \<mapsto> r'')"
    "distinct (map fst (origins L')) \<longrightarrow> distinct (map fst (origins L''))"
    "record_step env o' (minted L') s (minted L'') r''"
    "\<forall>o2. o2 \<noteq> o' \<longrightarrow> floor_on_disk L'' o2 = floor_on_disk L' o2"
    "floor_on_disk L'' o' = floor_on_disk L' o' \<or>
      (\<exists>f. floor_on_disk L'' o' = Some f \<and> floor_le (rec_floor s) f \<and> floor_le f (rec_floor r''))"
    using assms(2) unfolding evolves_def by (elim exE conjE) (rule that; assumption)
  have s: "s = r'" using record_of_props(4) [OF b0, of r'] a(2) by simp
  show ?thesis
    unfolding evolves_def
  proof (intro exI conjI)
    show "record_of env L o' = (L1, r)" by (rule a(1))
    show "map_of (origins L'') = (map_of (origins L))(o' \<mapsto> r'')" using a(2) b(1) by simp
    show "distinct (map fst (origins L)) \<longrightarrow> distinct (map fst (origins L''))" using a(3) b(2) by blast
    show "record_step env o' (minted L) r (minted L'') r''" using a(4) b(3) s record_step_trans by blast
    show "\<forall>o2. o2 \<noteq> o' \<longrightarrow> floor_on_disk L'' o2 = floor_on_disk L o2" using a(5) b(4) by simp
    have "floor_le (rec_floor r) (rec_floor r')" "floor_le (rec_floor r') (rec_floor r'')"
      using a(4) b(3) s by (simp_all add: record_step_def)
    then show "floor_on_disk L'' o' = floor_on_disk L o' \<or>
      (\<exists>f. floor_on_disk L'' o' = Some f \<and> floor_le (rec_floor r) f \<and> floor_le f (rec_floor r''))"
      using a(6) b(5) unfolding s by (elim disjE exE conjE) (auto intro: floor_le_trans)
  qed
qed

lemma evolves_touch:
  assumes "record_of env L o' = (L', r)" shows "evolves env L o' L'"
  unfolding evolves_def
proof (intro exI conjI)
  show "record_of env L o' = (L', r)" by (rule assms)
  show "map_of (origins L') = (map_of (origins L))(o' \<mapsto> r)"
    using record_of_props(1,6) [OF assms] by (auto simp: fun_eq_iff)
  show "distinct (map fst (origins L)) \<longrightarrow> distinct (map fst (origins L'))"
    using record_of_props(7) [OF assms] by simp
qed (use record_of_props(2,3) [OF assms] in \<open>simp_all add: record_step_same\<close>)

lemma evolves_raise:
  assumes r: "record_of env L o' = (L1, r)"
    and f: "raiseFloor env fails (ledger_disk L1) o' r v = (r', d, res)"
    and L': "L' = (put_record o' r' L1)\<lparr>ledger_disk := d\<rparr>"
  shows "evolves env L o' L'"
  unfolding evolves_def
proof (intro exI conjI)
  note p = record_of_props [OF r]
  show "record_of env L o' = (L1, r)" by (rule r)
  show "map_of (origins L') = (map_of (origins L))(o' \<mapsto> r')"
    using p(6) by (auto simp: L' origins_put fun_eq_iff)
  show "distinct (map fst (origins L)) \<longrightarrow> distinct (map fst (origins L'))"
    using p(7) by (simp add: L')
  show "record_step env o' (minted L) r (minted L') r'"
    using f p(3) by (auto simp: L' raiseFloor_def Let_def record_step_def floor_le_raise split: if_splits)
  show "\<forall>o2. o2 \<noteq> o' \<longrightarrow> floor_on_disk L' o2 = floor_on_disk L o2"
    using f p(2) by (auto simp: L' raiseFloor_def Let_def update_conv' split: if_splits)
  show "floor_on_disk L' o' = floor_on_disk L o' \<or>
      (\<exists>f. floor_on_disk L' o' = Some f \<and> floor_le (rec_floor r) f \<and> floor_le f (rec_floor r'))"
    using f p(2) by (auto simp: L' raiseFloor_def Let_def update_conv' floor_le_raise split: if_splits)
qed

lemma put_record_put_record [simp]:
  "put_record o' r' (put_record o' r L) = put_record o' r' L"
  by (simp add: put_record_def update_last)

lemma record_of_put [simp]: "record_of env (put_record o' r L) o' = (put_record o' r L, r)"
  by (simp add: record_of_def origins_put)

lemma record_of_hydrate_entry:
  assumes "record_of env L o' = (L1, r)" shows "record_of env L1 o' = (L1, r)"
  using record_of_props(1) [OF assms] by (simp add: record_of_def)

lemma evolves_hydrate:
  assumes r: "record_of env L o' = (L1, r)" and h: "hydrate_record env L1 r1 o' m = (r', out, n)"
    and r1: "rec_grants r1 = rec_grants r" "rec_floor r1 = rec_floor r"
    and L': "L' = (put_record o' r' L1)\<lparr>minted := n\<rparr>"
  shows "evolves env L o' L'"
proof (rule evolvesI [OF r])
  note p = record_of_props [OF r]
  show "origins L' = AList.update o' r' (origins L1)" by (simp add: L' put_record_def)
  show "disk_floor (ledger_disk L') = disk_floor (ledger_disk L)" using p(2) by (simp add: L')
  have "record_step env o' (minted L) r (minted L) r1" using r1 by (rule record_step_same)
  then show "record_step env o' (minted L) r (minted L') r'"
    using record_step_hydrate [OF h] p(3) record_step_trans by (fastforce simp: L')
qed

lemma evolves_first:
  assumes "hydrateGrantsOnFirstRegistration env L o' m = (L', out)" shows "evolves env L o' L'"
proof (cases "record_of env L o'")
  case (Pair L1 r)
  obtain r' out' n where h: "hydrate_record env L1 (r\<lparr>rec_hydrated := True\<rparr>) o' m = (r', out', n)"
    using prod_cases3 by blast
  show ?thesis
    using assms evolves_touch [OF Pair] evolves_hydrate [OF Pair h]
    by (simp add: hydrateGrantsOnFirstRegistration_def Pair h split: if_splits)
qed

lemma evolves_pinned:
  assumes "hydrateFromPinnedManifest env L o' m = (L', out)" shows "evolves env L o' L'"
proof (cases "record_of env L o'")
  case (Pair L1 r)
  obtain r' out' n where h: "hydrate_record env L1 r o' m = (r', out', n)"
    using prod_cases3 by blast
  show ?thesis
    using assms evolves_touch [OF Pair] evolves_hydrate [OF Pair h]
    by (simp add: hydrateFromPinnedManifest_def Pair h split: if_splits)
qed

lemma evolves_put:
  assumes "record_of env L o' = (L1, r)" and "record_step env o' (minted L) r (minted L) r'"
    and "disk_floor d = disk_floor (ledger_disk L)"
  shows "evolves env L o' ((put_record o' r' L1)\<lparr>ledger_disk := d\<rparr>)"
    and "d = ledger_disk L1 \<Longrightarrow> evolves env L o' (put_record o' r' L1)"
  using assms record_of_props(2,3) [OF assms(1)]
  by (auto intro!: evolvesI [OF assms(1)] simp: put_record_def)

lemma write_grants_floor [simp]: "disk_floor (write_grants o' gs nm d) = disk_floor d"
  by (simp add: write_grants_def Let_def)

lemma persistGrants_floor: "persistGrants env fails d o' gs nm = (d', res) \<Longrightarrow> disk_floor d' = disk_floor d"
  by (auto simp: persistGrants_def split: if_splits)

lemma evolves_register:
  assumes "registerApp env fails L o' m = (L', res)" shows "evolves env L o' L'"
proof -
  obtain L1 r where r: "record_of env L o' = (L1, r)" by fastforce
  let ?L2 = "put_record o' (r\<lparr>rec_manifest := Some m\<rparr>) L1"
  obtain L3 out where h: "hydrateGrantsOnFirstRegistration env ?L2 o' m = (L3, out)" by fastforce
  obtain L4 s where s: "record_of env L3 o' = (L4, s)" by fastforce
  obtain s' d ok where f: "raiseFloor env fails (ledger_disk L4) o' s (app_version m) = (s', d, ok)"
    using prod_cases3 by blast
  have "evolves env L o' ?L2"
    using evolves_put(2) [OF r record_step_same, of "r\<lparr>rec_manifest := Some m\<rparr>" "ledger_disk L1"]
      record_of_props(2) [OF r] by simp
  moreover have "evolves env ?L2 o' L3" by (rule evolves_first [OF h])
  moreover have "L' = (put_record o' s' L4)\<lparr>ledger_disk := d\<rparr>"
    using assms by (simp add: registerApp_def r h s f split: prod.splits)
  then have "evolves env L3 o' L'" by (rule evolves_raise [OF s f])
  ultimately show ?thesis using evolves_trans by blast
qed

lemma evolves_grant:
  assumes "grant_capability env fails L o' kind ps t = (L', res)" shows "evolves env L o' L'"
proof -
  let ?L0 = "L\<lparr>minted := Suc (minted L)\<rparr>"
  obtain L1 r where r: "record_of env L o' = (L1, r)" by fastforce
  then have r0: "record_of env ?L0 o' = (L1\<lparr>minted := Suc (minted L)\<rparr>, r)"
    by (auto simp: record_of_def Let_def split: option.splits)
  obtain g where g: "g = \<lparr>grant_id = mint env (minted L), grant_origin = o', capability = kind,
               patterns = ps, grantedAt = t\<rparr>" by simp
  let ?r' = "r\<lparr>rec_grants := AList.update kind g (rec_grants r)\<rparr>"
  have "record_step env o' (minted L) r (Suc (minted L)) ?r'"
    by (rule record_step_insert [of _ _ kind g]) (simp_all add: g)
  moreover have "origins L' = AList.update o' ?r' (origins L1)" "minted L' = Suc (minted L)"
    "disk_floor (ledger_disk L') = disk_floor (ledger_disk L)"
    using assms record_of_props(2) [OF r]
    by (auto dest: persistGrants_floor simp: grant_capability_def r0 g [symmetric] Let_def put_record_def split: prod.splits outcome.splits)
  ultimately show ?thesis by (auto intro: evolvesI [OF r])
qed

lemma evolves_delete:
  assumes "map_of (origins L) o' = Some r"
    and "origins L' = AList.update o' (r\<lparr>rec_grants := AList.delete k (rec_grants r)\<rparr>) (origins L)"
    and "minted L' = minted L" and "disk_floor (ledger_disk L') = disk_floor (ledger_disk L)"
  shows "evolves env L o' L'"
proof (rule evolvesI)
  show "record_of env L o' = (L, r)" using assms(1) by (simp add: record_of_def)
  show "record_step env o' (minted L) r (minted L') (r\<lparr>rec_grants := AList.delete k (rec_grants r)\<rparr>)"
    using assms(3) record_step_delete [of _ r k] by simp
qed (use assms in simp_all)

lemma evolves_revoke:
  assumes "revoke_grant env fails L o' gid = (L', res)" shows "L' = L \<or> evolves env L o' L'"
proof (cases "map_of (origins L) o'")
  case None then show ?thesis using assms by (simp add: revoke_grant_def)
next
  case r: (Some r)
  show ?thesis
  proof (cases "find (\<lambda>(cap, g). grant_id g = gid) (rec_grants r)")
    case None then show ?thesis using assms r by (simp add: revoke_grant_def)
  next
    case (Some x)
    obtain k g where x: "x = (k, g)" by fastforce
    have "origins L' = AList.update o' (r\<lparr>rec_grants := AList.delete k (rec_grants r)\<rparr>) (origins L)"
      "minted L' = minted L" "disk_floor (ledger_disk L') = disk_floor (ledger_disk L)"
      using assms r Some x
      by (auto dest: persistGrants_floor simp: revoke_grant_def Let_def put_record_def split: prod.splits)
    then show ?thesis using evolves_delete [OF r] by blast
  qed
qed

lemma evolves_revokePersisted:
  assumes "revokePersisted env fails L o' k = (L', res)" shows "idle L L' \<or> evolves env L o' L'"
proof (cases "map_of (origins L) o'")
  case None then show ?thesis
    using assms by (auto simp: revokePersisted_def Let_def idle_def split: if_splits option.splits)
next
  case r: (Some r)
  have "origins L' = AList.update o' (r\<lparr>rec_grants := AList.delete k (rec_grants r)\<rparr>) (origins L)"
    "minted L' = minted L" "disk_floor (ledger_disk L') = disk_floor (ledger_disk L)"
    using assms r by (auto simp: revokePersisted_def Let_def put_record_def split: if_splits option.splits)
  then show ?thesis using evolves_delete [OF r] by blast
qed

lemma evolves_ack:
  assumes "acknowledgeRollback env fails L o' v = (L', res)" shows "evolves env L o' L'"
proof (cases "record_of env L o'")
  case (Pair L1 r)
  obtain r' d res' where a: "acknowledge_record env fails (ledger_disk L1) o' r v = (r', d, res')"
    using prod_cases3 by blast
  then have "record_step env o' (minted L) r (minted L) r'" "disk_floor d = disk_floor (ledger_disk L)"
    using record_of_props(2) [OF Pair]
    by (auto simp: acknowledge_record_def Let_def record_step_same split: if_splits)
  then show ?thesis
    using assms evolves_put(1) [OF Pair, of r' d] by (auto simp: acknowledgeRollback_def Pair a)
qed

lemma evolves_declined:
  "evolves env L o' (recordDeclinedConsent env fails L o' kinds)"
  "evolves env L o' (clearDeclinedConsent env fails L o')"
proof -
  obtain L1 r where r: "record_of env L o' = (L1, r)" by fastforce
  have "record_step env o' (minted L) r (minted L) (r\<lparr>rec_declined := x\<rparr>)" for x
    by (simp add: record_step_same)
  then show "evolves env L o' (recordDeclinedConsent env fails L o' kinds)"
    "evolves env L o' (clearDeclinedConsent env fails L o')"
    using evolves_put(1) [OF r] record_of_props(2) [OF r]
    by (simp_all add: recordDeclinedConsent_def clearDeclinedConsent_def record_declined_def
        clear_declined_def r Let_def)
qed

lemma evolves_bytes:
  "evolves env L o' (ledger_chargeFsBytes env L o' n)"
  "evolves env L o' (ledger_releaseFsBytes env L o' n)"
  "ledger_reserveFsBytes env L o' n = (L', ok) \<Longrightarrow> evolves env L o' L'"
proof -
  obtain L1 r where r: "record_of env L o' = (L1, r)" by fastforce
  have "evolves env L o' (put_record o' (r\<lparr>rec_fs := x\<rparr>) L1)" for x
    using evolves_put(2) [OF r, of "r\<lparr>rec_fs := x\<rparr>" "ledger_disk L1"] record_of_props(2) [OF r]
    by (simp add: record_step_same)
  moreover have "evolves env L o' (put_record o' r L1)"
    using evolves_put(2) [OF r, of r "ledger_disk L1"] record_of_props(2) [OF r]
    by (simp add: record_step_same)
  ultimately show "evolves env L o' (ledger_chargeFsBytes env L o' n)"
    "evolves env L o' (ledger_releaseFsBytes env L o' n)"
    "ledger_reserveFsBytes env L o' n = (L', ok) \<Longrightarrow> evolves env L o' L'"
    by (auto simp: ledger_chargeFsBytes_def ledger_releaseFsBytes_def ledger_reserveFsBytes_def r
        chargeFsBytes_def releaseFsBytes_def reserveFsBytes_def split: if_splits)
qed

lemmas evolves_calls = evolves_touch evolves_register evolves_first evolves_pinned evolves_ack
  evolves_declined evolves_grant evolves_bytes

text \<open>The summary of a step: nothing, one origin's record, or an origin forgotten.\<close>

lemma ledger_step_cases:
  assumes "ledger_step env L e L'"
  obtains (Idle) "e = Calls" "idle L L'"
  | (Evolves) origin where "e = Calls" "evolves env L origin L'"
  | (Forgets) origin fails where "e = Forgets origin" "L' = forgetOrigin env fails L origin"
  using assms
proof (cases rule: ledger_step.cases)
  case (step_revoke fails o' gid res)
  then show ?thesis using evolves_revoke [of env fails L o' gid L' res] that by (auto simp: idle_def)
next
  case (step_revokePersisted fails o' k res)
  then show ?thesis using evolves_revokePersisted [of env fails L o' k L' res] that by auto
qed (use evolves_calls that in metis)+

section \<open>Grant ids name one grant\<close>

text \<open>The invariant: one live grant per capability, in its own slot, under an id minted once.\<close>

definition ledger_ok :: "env \<Rightarrow> ledger \<Rightarrow> bool" where
  "ledger_ok env L \<longleftrightarrow> distinct (map fst (origins L)) \<and>
     (\<forall>origin r. map_of (origins L) origin = Some r \<longrightarrow> grants_ok env origin (minted L) (rec_grants r)) \<and>
     (\<forall>o1 o2 k1 k2 g1 g2. currentGrant L o1 k1 = Some g1 \<longrightarrow> currentGrant L o2 k2 = Some g2 \<longrightarrow>
        grant_id g1 = grant_id g2 \<longrightarrow> o1 = o2)"

lemma currentGrant_Some:
  "currentGrant L o' k = Some g \<longleftrightarrow> (\<exists>r. map_of (origins L) o' = Some r \<and> map_of (rec_grants r) k = Some g)"
  by (simp add: currentGrant_def bind_eq_Some_conv)

lemma grants_ok_Nil [simp]: "grants_ok env o' n []"
  by (simp add: grants_ok_def)

lemma grants_ok_mono: "grants_ok env o' n gs \<Longrightarrow> n \<le> n' \<Longrightarrow> grants_ok env o' n' gs"
  unfolding grants_ok_def by (meson less_le_trans)

lemma ledger_ok_id:
  assumes "ledger_ok env L" and "currentGrant L o' k = Some g"
  obtains i where "i < minted L" and "grant_id g = mint env i"
proof -
  obtain r where r: "map_of (origins L) o' = Some r" "map_of (rec_grants r) k = Some g"
    using assms(2) by (auto simp: currentGrant_Some)
  then have "grants_ok env o' (minted L) (rec_grants r)" using assms(1) unfolding ledger_ok_def by blast
  then show thesis using r(2) that unfolding grants_ok_def by blast
qed

lemma ledger_ok_evolves:
  assumes inj: "inj (mint env)" and ok: "ledger_ok env L" and ev: "evolves env L o' L'"
  shows "ledger_ok env L'"
proof -
  obtain L1 r r' where r: "record_of env L o' = (L1, r)"
    and m: "map_of (origins L') = (map_of (origins L))(o' \<mapsto> r')"
    and d: "distinct (map fst (origins L)) \<longrightarrow> distinct (map fst (origins L'))"
    and st: "record_step env o' (minted L) r (minted L') r'"
    using ev unfolding evolves_def by (elim exE conjE) (rule that; assumption)
  have le: "minted L \<le> minted L'" using st by (simp add: record_step_def)
  have "grants_ok env o' (minted L) (rec_grants r)"
  proof (cases "map_of (origins L) o'")
    case None then show ?thesis using record_of_props(5) [OF r] by simp
  next
    case (Some s)
    then have "r = s" using record_of_props(4) [OF r] by blast
    then show ?thesis using ok Some unfolding ledger_ok_def by blast
  qed
  then have r': "fresh_or_old env (minted L) (rec_grants r) (rec_grants r')"
    "grants_ok env o' (minted L') (rec_grants r')"
    using st inj by (simp_all add: record_step_def)
  have g0: "map_of (rec_grants r) k = currentGrant L o' k" for k by (rule currentGrant_record [OF r])
  have cur: "currentGrant L' x k = (if x = o' then map_of (rec_grants r') k else currentGrant L x k)" for x k
    by (simp add: currentGrant_def m)
  have old: "currentGrant L x k = Some g \<or> x = o' \<and> (\<exists>i\<ge>minted L. grant_id g = mint env i)"
    if "currentGrant L' x k = Some g" for x k g
    using that r'(1) unfolding fresh_or_old_def g0 by (auto simp: cur split: if_splits)
  have "x = y" if "currentGrant L' x k = Some g" "currentGrant L' y l = Some h" "grant_id g = grant_id h"
    for x y k l g h
  proof -
    have clash: False if c: "currentGrant L x k = Some g" "grant_id g = mint env j" "minted L \<le> j" for x k g j
    proof -
      obtain i where "i < minted L" "grant_id g = mint env i" using ledger_ok_id [OF ok c(1)] by blast
      then show False using c(2,3) inj by (metis injD leD)
    qed
    show ?thesis
      using old [OF that(1)] old [OF that(2)]
    proof (elim disjE conjE exE)
      assume "currentGrant L x k = Some g" "currentGrant L y l = Some h"
      then show ?thesis using ok that(3) unfolding ledger_ok_def by blast
    qed (use clash that(3) in metis)+
  qed
  moreover have "grants_ok env x (minted L') (rec_grants s)" if "map_of (origins L') x = Some s" for x s
  proof (cases "x = o'")
    case True then show ?thesis using that m r'(2) by simp
  next
    case False
    then have "grants_ok env x (minted L) (rec_grants s)" using that m ok by (simp add: ledger_ok_def)
    then show ?thesis using le grants_ok_mono by blast
  qed
  moreover have "distinct (map fst (origins L'))" using d ok by (simp add: ledger_ok_def)
  ultimately show ?thesis unfolding ledger_ok_def by blast
qed

lemma forgetOrigin_origins:
  "origins (forgetOrigin env fails L o') = origins L \<or>
   origins (forgetOrigin env fails L o') = AList.delete o' (origins L)"
  "minted (forgetOrigin env fails L o') = minted L"
  by (auto simp: forgetOrigin_def split: prod.split)

lemma ledger_ok_forget:
  assumes "ledger_ok env L" shows "ledger_ok env (forgetOrigin env fails L o')"
  using forgetOrigin_origins(1) [of env fails L o']
proof
  assume "origins (forgetOrigin env fails L o') = origins L"
  then show ?thesis using assms by (simp add: ledger_ok_def currentGrant_Some forgetOrigin_origins(2))
next
  assume d: "origins (forgetOrigin env fails L o') = AList.delete o' (origins L)"
  then have "currentGrant L x k = Some g" if "currentGrant (forgetOrigin env fails L o') x k = Some g" for x k g
    using that by (auto simp: currentGrant_Some delete_conv' split: if_splits)
  moreover have "map_of (origins L) x = Some r" if "map_of (origins (forgetOrigin env fails L o')) x = Some r" for x r
    using that d by (auto simp: delete_conv' split: if_splits)
  ultimately show ?thesis
    using assms d unfolding ledger_ok_def forgetOrigin_origins(2) by (metis distinct_delete)
qed

lemma ledger_ok_step:
  assumes "inj (mint env)" and "ledger_ok env L" and "ledger_step env L e L'"
  shows "ledger_ok env L'"
  using assms(3)
proof (cases rule: ledger_step_cases)
  case Idle
  then show ?thesis using assms(2) by (simp add: ledger_ok_def idle_def currentGrant_Some)
qed (use assms ledger_ok_evolves ledger_ok_forget in blast)+

lemma ledger_ok_run:
  assumes "ledger_run env L es L'" and "inj (mint env)" and "ledger_ok env L"
  shows "ledger_ok env L'"
  using assms by (induction rule: ledger_run.induct) (auto intro: ledger_ok_step)

lemma ledger_ok_empty: "ledger_ok env (empty_ledger d)"
  by (simp add: ledger_ok_def empty_ledger_def currentGrant_def)

section \<open>The version floor\<close>

subsection \<open>In memory\<close>

lemma floor_evolves:
  assumes "evolves env L o1 L'" and "map_of (origins L) origin = Some r"
  shows "\<exists>r'. map_of (origins L') origin = Some r' \<and> floor_le (rec_floor r) (rec_floor r')"
proof -
  obtain L1 s s' where s: "record_of env L o1 = (L1, s)"
    and m: "map_of (origins L') = (map_of (origins L))(o1 \<mapsto> s')"
    and st: "record_step env o1 (minted L) s (minted L') s'"
    using assms(1) unfolding evolves_def by (elim exE conjE) (rule that; assumption)
  show ?thesis
  proof (cases "origin = o1")
    case True
    then have "s = r" using record_of_props(4) [OF s] assms(2) by blast
    then show ?thesis using True m st by (simp add: record_step_def)
  qed (use m assms(2) in simp)
qed

lemma forget_other:
  assumes "o1 \<noteq> origin"
  shows "map_of (origins (forgetOrigin env fails L o1)) origin = map_of (origins L) origin"
    and "floor_on_disk (forgetOrigin env fails L o1) origin = floor_on_disk L origin"
  using assms by (simp_all add: forgetOrigin_def delete_conv' split: prod.split if_split)

lemma floor_run:
  assumes "ledger_run env L es L'" and "Forgets origin \<notin> set es" and "map_of (origins L) origin = Some r"
  shows "\<exists>r'. map_of (origins L') origin = Some r' \<and> floor_le (rec_floor r) (rec_floor r')"
  using assms
proof (induction rule: ledger_run.induct)
  case (run_step L es L' e L'')
  then obtain r' where r': "map_of (origins L') origin = Some r'" "floor_le (rec_floor r) (rec_floor r')"
    by auto
  have "\<exists>s. map_of (origins L'') origin = Some s \<and> floor_le (rec_floor r') (rec_floor s)"
    using \<open>ledger_step env L' e L''\<close>
  proof (cases rule: ledger_step_cases)
    case (Forgets o1 fails)
    then have "o1 \<noteq> origin" using run_step.prems(1) by auto
    then show ?thesis using forget_other(1) Forgets(2) r'(1) by simp
  qed (use r'(1) floor_evolves in \<open>auto simp: idle_def\<close>)
  then show ?case using r'(2) floor_le_trans by blast
qed auto

lemma versionFloorFor_loaded:
  "map_of (origins L) origin = Some r \<Longrightarrow> versionFloorFor env L origin = (L, rec_floor r)"
  by (simp add: versionFloorFor_def record_of_def)

text \<open>\<open>registerApp\<close> hydrates, and then raises the floor of the record it hydrated.\<close>

lemma hydrate_record_floor:
  "hydrate_record env L r o' m = (r', out, n) \<Longrightarrow> rec_floor r' = rec_floor r \<and> rec_manifest r' = rec_manifest r"
  by (auto simp: hydrate_record_def split: if_splits prod.splits)

lemma first_floor:
  assumes "hydrateGrantsOnFirstRegistration env (put_record o' r L) o' m = (L', out)"
  obtains t where "record_of env L' o' = (L', t)" and "rec_floor t = rec_floor r"
    and "rec_manifest t = rec_manifest r" and "ledger_disk L' = ledger_disk L"
proof (cases "rec_hydrated r")
  case True
  then have "L' = put_record o' r L" using assms by (simp add: hydrateGrantsOnFirstRegistration_def)
  then show ?thesis using that [of r] by simp
next
  case False
  obtain r' out' n where h: "hydrate_record env (put_record o' r L) (r\<lparr>rec_hydrated := True\<rparr>) o' m = (r', out', n)"
    using prod_cases3 by blast
  then have "L' = (put_record o' r' L)\<lparr>minted := n\<rparr>"
    using assms False by (simp add: hydrateGrantsOnFirstRegistration_def)
  then show ?thesis using hydrate_record_floor [OF h] that [of r'] by (simp add: record_of_def put_record_def update_conv')
qed

lemma registerApp_floor:
  assumes "registerApp env fails L origin m = (L', res)" and r: "record_of env L origin = (L1, r)"
  obtains t s ok where "map_of (origins L') origin = Some s" and "rec_floor t = rec_floor r"
    and "raiseFloor env fails (ledger_disk L) origin t (app_version m) = (s, ledger_disk L', ok)"
    and "res = (case ok of Returns _ \<Rightarrow> Returns () | Threw \<Rightarrow> Threw)"
proof -
  let ?L2 = "put_record origin (r\<lparr>rec_manifest := Some m\<rparr>) L1"
  obtain L3 out where h: "hydrateGrantsOnFirstRegistration env ?L2 origin m = (L3, out)" by fastforce
  obtain t where t: "record_of env L3 origin = (L3, t)" "rec_floor t = rec_floor r"
    "ledger_disk L3 = ledger_disk L"
    using first_floor [OF h] record_of_props(2) [OF r] by auto
  obtain s d ok where f: "raiseFloor env fails (ledger_disk L3) origin t (app_version m) = (s, d, ok)"
    using prod_cases3 by blast
  have "L' = (put_record origin s L3)\<lparr>ledger_disk := d\<rparr>"
    "res = (case ok of Returns _ \<Rightarrow> Returns () | Threw \<Rightarrow> Threw)"
    using assms(1) f unfolding t(3) by (simp_all add: registerApp_def r h t)
  then show ?thesis using that [of s t ok] f t(2,3) by (simp add: origins_put)
qed

lemma raiseFloor_rules_out:
  assumes "raiseFloor env fails d origin r v = (r', d', res)"
  shows "rules_out_below (rec_floor r') v"
  using assms rules_out_registered [of v "rec_floor r"] rules_out_self [of v]
  by (auto simp: raiseFloor_def Let_def split: if_splits)

text \<open>Once a version has been registered, the floor of every later state rules out the older ones.\<close>

lemma registered_floor:
  assumes "registerApp env fails L origin m = (L1, res)"
    and "ledger_run env L1 es L2" and "Forgets origin \<notin> set es"
    and "versionFloorFor env L2 origin = (L3, f)"
  shows "rules_out_below f (app_version m)"
proof -
  obtain L0 r where r: "record_of env L origin = (L0, r)" by fastforce
  obtain t s ok where s: "map_of (origins L1) origin = Some s"
    and "raiseFloor env fails (ledger_disk L) origin t (app_version m) = (s, ledger_disk L1, ok)"
    by (rule registerApp_floor [OF assms(1) r])
  then have "rules_out_below (rec_floor s) (app_version m)" using raiseFloor_rules_out by simp
  moreover obtain s' where "map_of (origins L2) origin = Some s'" "floor_le (rec_floor s) (rec_floor s')"
    using floor_run [OF assms(2,3) s] by blast
  moreover from this have "f = rec_floor s'" using assms(4) by (simp add: versionFloorFor_loaded)
  ultimately show ?thesis using rules_out_below_le by simp
qed

subsection \<open>On disk\<close>

text \<open>What is on disk for an origin that is loaded never exceeds what is in memory.\<close>

definition floor_synced :: "env \<Rightarrow> ledger \<Rightarrow> bool" where
  "floor_synced env L \<longleftrightarrow> (\<forall>origin r f. persists env origin \<longrightarrow> map_of (origins L) origin = Some r \<longrightarrow>
     floor_on_disk L origin = Some f \<longrightarrow> floor_le f (rec_floor r))"

lemma hydrateFloor_le:
  assumes "persists env origin" and "map_of (disk_floor d) origin = Some f"
    and "parseVersion (rec_floor r) \<noteq> None"
  shows "floor_le f (rec_floor (hydrateFloor env d origin r))"
proof (cases "compareVersions f (rec_floor r)")
  case None
  then have "parseVersion f = None" using assms(3) by (auto simp: compareVersions_None_iff)
  then show ?thesis using assms(1,2) by (simp add: hydrateFloor_def compareVersions_None_iff)
next
  case (Some k)
  then have "compareVersions f f \<noteq> None" by (auto simp: compareVersions_None_iff compareVersions_eq split: option.splits)
  then show ?thesis
    using assms Some compareVersions_values [OF Some] by (auto simp: hydrateFloor_def floor_le_def)
qed

lemma zero_version: "parseVersion (js ''0.0.0'') \<noteq> None"
  by code_simp

lemma record_of_synced:
  assumes "floor_synced env L" and "record_of env L origin = (L1, r)" and "persists env origin"
    and "floor_on_disk L origin = Some f"
  shows "floor_le f (rec_floor r)"
proof (cases "map_of (origins L) origin")
  case None
  then have "rec_floor r = rec_floor (hydrateFloor env (ledger_disk L) origin fresh_record)"
    using assms(2) by (auto simp: record_of_def Let_def)
  then show ?thesis
    using hydrateFloor_le [OF assms(3,4), of fresh_record] zero_version by (simp add: fresh_record_def)
next
  case (Some s)
  then have "s = r" using record_of_props(4) [OF assms(2)] by blast
  then show ?thesis using assms Some unfolding floor_synced_def by blast
qed

lemma floor_disk_evolves:
  assumes sync: "floor_synced env L" and ev: "evolves env L o1 L'"
  shows "floor_synced env L'"
    and "persists env origin \<Longrightarrow> floor_on_disk L origin = Some f \<Longrightarrow>
      \<exists>f'. floor_on_disk L' origin = Some f' \<and> floor_le f f'"
proof -
  obtain L1 s s' where s: "record_of env L o1 = (L1, s)"
    and m: "map_of (origins L') = (map_of (origins L))(o1 \<mapsto> s')"
    and st: "record_step env o1 (minted L) s (minted L') s'"
    and d: "\<forall>o2. o2 \<noteq> o1 \<longrightarrow> floor_on_disk L' o2 = floor_on_disk L o2"
      "floor_on_disk L' o1 = floor_on_disk L o1 \<or>
       (\<exists>f. floor_on_disk L' o1 = Some f \<and> floor_le (rec_floor s) f \<and> floor_le f (rec_floor s'))"
    using ev unfolding evolves_def by (elim exE conjE) (rule that; assumption)
  have s': "floor_le (rec_floor s) (rec_floor s')" using st by (simp add: record_step_def)
  note old = record_of_synced [OF sync s]
  show "floor_synced env L'"
    unfolding floor_synced_def
  proof (intro allI impI)
    fix origin r f
    assume a: "persists env origin" "map_of (origins L') origin = Some r" "floor_on_disk L' origin = Some f"
    show "floor_le f (rec_floor r)"
    proof (cases "origin = o1")
      case True
      then have "r = s'" using a(2) m by simp
      from d(2) show ?thesis
      proof
        assume "floor_on_disk L' o1 = floor_on_disk L o1"
        then have "floor_le f (rec_floor s)" using a(1,3) True old [of f] by simp
        then show ?thesis using s' \<open>r = s'\<close> floor_le_trans by blast
      qed (use a(3) True \<open>r = s'\<close> in auto)
    next
      case False
      then have "map_of (origins L) origin = Some r" "floor_on_disk L origin = Some f"
        using a(2,3) m d(1) by simp_all
      then show ?thesis using a(1) sync unfolding floor_synced_def by blast
    qed
  qed
  assume a: "persists env origin" "floor_on_disk L origin = Some f"
  show "\<exists>f'. floor_on_disk L' origin = Some f' \<and> floor_le f f'"
  proof (cases "origin = o1")
    case True
    from d(2) show ?thesis
    proof
      assume "\<exists>f. floor_on_disk L' o1 = Some f \<and> floor_le (rec_floor s) f \<and> floor_le f (rec_floor s')"
      then show ?thesis using floor_le_trans [OF old [of f]] a True by blast
    qed (use a(2) True in simp)
  qed (use a d(1) in auto)
qed

lemma forgetOrigin_disk:
  "floor_on_disk (forgetOrigin env fails L o1) o1 = None \<or>
   floor_on_disk (forgetOrigin env fails L o1) o1 = floor_on_disk L o1"
  by (simp add: forgetOrigin_def delete_conv' split: prod.split if_split)

lemma floor_synced_step:
  assumes "floor_synced env L" and "ledger_step env L e L'"
  shows "floor_synced env L'"
  using assms(2)
proof (cases rule: ledger_step_cases)
  case Idle then show ?thesis using assms(1) by (simp add: floor_synced_def idle_def)
next
  case (Evolves o1) then show ?thesis using floor_disk_evolves(1) [OF assms(1)] by blast
next
  case (Forgets o1 fails)
  have "map_of (origins L') o1 = map_of (origins L) o1 \<or> map_of (origins L') o1 = None"
    using forgetOrigin_origins(1) [of env fails L o1] by (auto simp: Forgets(2) delete_conv')
  moreover note forgetOrigin_disk [of env fails L o1] forget_other [of o1 _ env fails L]
  ultimately show ?thesis
    using assms(1) unfolding floor_synced_def Forgets(2) by (metis option.distinct(1))
qed

lemma floor_synced_run:
  assumes "ledger_run env L es L'" and "floor_synced env L" shows "floor_synced env L'"
  using assms by (induction rule: ledger_run.induct) (auto intro: floor_synced_step)

lemma floor_disk_run:
  assumes "ledger_run env L es L'" and "floor_synced env L" and "persists env origin"
    and "Forgets origin \<notin> set es" and "floor_on_disk L origin = Some f"
  shows "floor_synced env L' \<and> (\<exists>f'. floor_on_disk L' origin = Some f' \<and> floor_le f f')"
  using assms
proof (induction rule: ledger_run.induct)
  case (run_step L es L' e L'')
  then obtain f' where f': "floor_synced env L'" "floor_on_disk L' origin = Some f'" "floor_le f f'"
    by auto
  have "\<exists>f2. floor_on_disk L'' origin = Some f2 \<and> floor_le f' f2"
    using \<open>ledger_step env L' e L''\<close>
  proof (cases rule: ledger_step_cases)
    case (Evolves o1)
    then show ?thesis using floor_disk_evolves(2) [OF f'(1)] f'(2) run_step.prems(2) by blast
  next
    case (Forgets o1 fails)
    then have "o1 \<noteq> origin" using run_step.prems(3) by auto
    then show ?thesis using forget_other(2) Forgets(2) f'(2) by simp
  qed (use f'(2) in \<open>auto simp: idle_def\<close>)
  then show ?case using f'(1,3) run_step.hyps(2) floor_synced_step floor_le_trans by blast
qed auto

lemma floor_synced_empty: "floor_synced env (empty_ledger d)"
  by (simp add: floor_synced_def empty_ledger_def)

lemma restart_floor:
  assumes "persists env origin" and "map_of (disk_floor d) origin = Some f"
    and "versionFloorFor env (empty_ledger d) origin = (L, f')"
  shows "floor_le f f'"
proof -
  have "f' = rec_floor (hydrateFloor env d origin fresh_record)"
    using assms(3) by (auto simp: versionFloorFor_def record_of_def empty_ledger_def Let_def)
  then show ?thesis
    using hydrateFloor_le [OF assms(1,2), of fresh_record] zero_version by (simp add: fresh_record_def)
qed

lemma registerApp_writes:
  assumes "registerApp env fails L origin m = (L1, Returns ())" and "persists env origin"
    and "versionFloorFor env L origin = (L0, f0)" and "compareVersions (app_version m) f0 = Some 1"
  shows "floor_on_disk L1 origin = Some (app_version m)"
proof -
  obtain L2 r where r: "record_of env L origin = (L2, r)" by fastforce
  then have f0: "rec_floor r = f0" using assms(3) by (simp add: versionFloorFor_def)
  obtain t s ok where "rec_floor t = rec_floor r"
    and "raiseFloor env fails (ledger_disk L) origin t (app_version m) = (s, ledger_disk L1, ok)"
    and "Returns () = (case ok of Returns _ \<Rightarrow> Returns () | Threw \<Rightarrow> Threw)"
    by (rule registerApp_floor [OF assms(1) r])
  moreover from this have "ledger_disk L1 =
      (ledger_disk L)\<lparr>disk_floor := AList.update origin (app_version m) (disk_floor (ledger_disk L))\<rparr>"
    using assms(2,4) f0 by (auto simp: raiseFloor_def Let_def split: if_splits)
  ultimately show ?thesis by (simp add: update_conv')
qed

lemma failed_write:
  assumes "registerApp env fails L origin m = (L1, Threw)"
  shows "floor_on_disk L1 origin = floor_on_disk L origin"
    and "\<exists>s. map_of (origins L1) origin = Some s \<and> rec_floor s = app_version m"
    and "compareVersions (app_version m) (app_version m) = Some 0"
proof -
  obtain L2 r where r: "record_of env L origin = (L2, r)" by fastforce
  obtain t s ok where t: "map_of (origins L1) origin = Some s"
    "raiseFloor env fails (ledger_disk L) origin t (app_version m) = (s, ledger_disk L1, ok)"
    "Threw = (case ok of Returns _ \<Rightarrow> Returns () | Threw \<Rightarrow> Threw)"
    by (rule registerApp_floor [OF assms r])
  have "ok = Threw" using t(3) by (cases ok) simp_all
  then have up: "compareVersions (app_version m) (rec_floor t) = Some 1" "ledger_disk L1 = ledger_disk L"
    "rec_floor s = app_version m"
    using t(2) by (auto simp: raiseFloor_def Let_def split: if_splits)
  then show "floor_on_disk L1 origin = floor_on_disk L origin"
    "\<exists>s. map_of (origins L1) origin = Some s \<and> rec_floor s = app_version m" using t(1) by simp_all
  have "compareVersions (app_version m) (rec_floor t) \<noteq> None" using up(1) by simp
  then have "parseVersion (app_version m) \<noteq> None" by (simp only: compareVersions_None_iff) simp
  then show "compareVersions (app_version m) (app_version m) = Some 0" by (simp add: compareVersions_refl)
qed

section \<open>Granting, revoking, restoring\<close>

lemma find_grant:
  assumes "distinct (map fst gs)" and "\<forall>k k' g g'. map_of gs k = Some g \<longrightarrow> map_of gs k' = Some g' \<longrightarrow>
      grant_id g = grant_id g' \<longrightarrow> k = k'"
    and "find (\<lambda>(cap, g). grant_id g = gid) gs = Some (k0, g0)"
  shows "map_of gs k0 = Some g0 \<and> grant_id g0 = gid"
    and "map_of gs k = Some g \<Longrightarrow> grant_id g = gid \<longleftrightarrow> k = k0"
proof -
  have "(k0, g0) \<in> set gs" "grant_id g0 = gid"
    using assms(3) by (auto simp: find_Some_iff in_set_conv_nth)
  then show a: "map_of gs k0 = Some g0 \<and> grant_id g0 = gid" using assms(1) by simp
  show "grant_id g = gid \<longleftrightarrow> k = k0" if "map_of gs k = Some g" using that a assms(2) by auto
qed

lemma revoke_effect:
  assumes "ledger_ok env L" and "revoke_grant env fails L origin gid = (L', res)"
  shows "currentGrant L' o' k =
    (case currentGrant L o' k of None \<Rightarrow> None
     | Some g \<Rightarrow> if o' = origin \<and> grant_id g = gid then None else Some g)"
proof (cases "map_of (origins L) origin")
  case None
  then show ?thesis using assms(2) by (auto simp: revoke_grant_def currentGrant_def split: option.split)
next
  case r: (Some r)
  have ok: "grants_ok env origin (minted L) (rec_grants r)" using assms(1) r unfolding ledger_ok_def by blast
  have ids: "distinct (map fst (rec_grants r))" "\<forall>k k' g g'. map_of (rec_grants r) k = Some g \<longrightarrow>
      map_of (rec_grants r) k' = Some g' \<longrightarrow> grant_id g = grant_id g' \<longrightarrow> k = k'"
    using ok unfolding grants_ok_def by blast+
  show ?thesis
  proof (cases "find (\<lambda>(cap, g). grant_id g = gid) (rec_grants r)")
    case None
    then have "grant_id g \<noteq> gid" if "map_of (rec_grants r) k = Some g" for k g
      using that by (auto simp: find_None_iff dest: map_of_SomeD)
    moreover have "L' = L" using assms(2) r None by (simp add: revoke_grant_def)
    ultimately show ?thesis using r by (auto simp: currentGrant_def split: option.split)
  next
    case (Some x)
    obtain k0 g0 where x: "x = (k0, g0)" by fastforce
    note f = find_grant [OF ids Some [unfolded x]]
    have "origins L' = AList.update origin (r\<lparr>rec_grants := AList.delete k0 (rec_grants r)\<rparr>) (origins L)"
      using assms(2) r Some x by (auto simp: revoke_grant_def Let_def put_record_def split: prod.splits)
    then have "currentGrant L' o' k =
        (if o' = origin then ((map_of (rec_grants r))(k0 := None)) k else currentGrant L o' k)"
      by (simp add: currentGrant_def update_conv' delete_conv')
    moreover have "currentGrant L origin k = map_of (rec_grants r) k" using r by (simp add: currentGrant_def)
    ultimately show ?thesis using f by (auto split: option.split)
  qed
qed

lemma grant_effect:
  assumes "grant_capability env fails L origin kind ps t = (L', res)"
  shows "currentGrant L' o' k =
      (if o' = origin \<and> k = kind
       then Some \<lparr>grant_id = mint env (minted L), grant_origin = origin, capability = kind,
                  patterns = ps, grantedAt = t\<rparr>
       else currentGrant L o' k)"
    and "res = Returns (g, replaced) \<Longrightarrow> replaced = currentGrant L origin kind \<and> currentGrant L' origin kind = Some g"
proof -
  let ?L0 = "L\<lparr>minted := Suc (minted L)\<rparr>"
  obtain L1 r where r: "record_of env ?L0 origin = (L1, r)" by fastforce
  have g0: "map_of (rec_grants r) k = currentGrant L origin k" "currentGrant L1 o' k = currentGrant L o' k" for o' k
    using currentGrant_record [OF r] currentGrant_record_of [OF r] by simp_all
  show *: "currentGrant L' o' k =
      (if o' = origin \<and> k = kind
       then Some \<lparr>grant_id = mint env (minted L), grant_origin = origin, capability = kind,
                  patterns = ps, grantedAt = t\<rparr>
       else currentGrant L o' k)" for o' k
    using assms g0 by (auto simp: grant_capability_def r Let_def currentGrant_put update_conv'
        split: prod.splits outcome.splits)
  show "replaced = currentGrant L origin kind \<and> currentGrant L' origin kind = Some g"
    if "res = Returns (g, replaced)"
    using assms that g0 * [of origin kind] by (auto simp: grant_capability_def r Let_def split: prod.splits outcome.splits)
qed

definition what_is_kept :: "grant option \<Rightarrow> (str list \<times> int) option" where
  "what_is_kept g = map_option (\<lambda>g. (patterns g, grantedAt g)) g"

lemma hydrate_persisted:
  "distinct (map fst gs) \<Longrightarrow>
   what_is_kept (map_of (fst (hydrate_entries env origin m n restored (grantsToPersist gs))) k) =
     (case map_of gs k of
        Some g \<Rightarrow> if isCapabilityKind k \<and> allowed (decideGrantRequest m k (Some (patterns g)))
                  then Some (patterns g, grantedAt g) else what_is_kept (map_of restored k)
      | None \<Rightarrow> what_is_kept (map_of restored k))"
proof (induction gs arbitrary: restored n)
  case (Cons x gs)
  obtain key g where x: "x = (key, g)" by fastforce
  have key: "map_of gs key = None" using Cons.prems x by (simp add: map_of_eq_None_iff)
  show ?case
  proof (cases "isCapabilityKind key \<and> allowed (decideGrantRequest m key (Some (patterns g)))")
    case True
    then have d: "to_grant (decideGrantRequest m key (Some (patterns g))) = patterns g"
      using decide_idem by (metis grant_request_decision.select_convs(2))
    show ?thesis
      using Cons x True key
      by (simp add: grantsToPersist_def Let_def d update_conv' what_is_kept_def split: option.split)
  next
    case False
    then show ?thesis
      using Cons x key by (auto simp: grantsToPersist_def Let_def split: option.split)
  qed
qed (simp add: grantsToPersist_def)

lemma pinned_restores:
  assumes ok: "ledger_ok env L" and inj: "inj (mint env)"
    and h: "hydrateFromPinnedManifest env L origin m = (L', out)"
    and new: "\<not> rec_hydrated (snd (record_of env L origin))" and p: "persists env origin"
    and restored: "hydrateGrants env (ledger_disk L) origin m (minted L) = (restored, n)"
  shows "currentGrant L' origin k =
      (case currentGrant L origin k of
         Some e \<Rightarrow> if kept restored k e then Some e else map_of restored k
       | None \<Rightarrow> map_of restored k)"
    and "set out = {\<lparr>sup_capability = k, sup_id = grant_id g\<rparr> | k g.
      currentGrant L origin k = Some g \<and> currentGrant L' origin k \<noteq> Some g}"
    and "o' \<noteq> origin \<Longrightarrow> currentGrant L' o' k = currentGrant L o' k"
proof -
  obtain L1 r where r: "record_of env L origin = (L1, r)" by fastforce
  note rp = record_of_props [OF r]
  obtain live out' n' where rep: "replaceHydratedGrants env (ledger_disk L) origin m (rec_grants r) (minted L) =
      (live, out', n')" using prod_cases3 by blast
  have "hydrate_record env L1 r origin m = (r\<lparr>rec_grants := live\<rparr>, out', n')"
    using p rep rp(2,3) by (simp add: hydrate_record_def)
  then have L': "L' = (put_record origin (r\<lparr>rec_grants := live\<rparr>) L1)\<lparr>minted := n'\<rparr>" "out = out'"
    using h new r by (simp_all add: hydrateFromPinnedManifest_def)
  have g0: "map_of (rec_grants r) k = currentGrant L origin k" for k by (rule currentGrant_record [OF r])
  have rok: "grants_ok env origin (minted L) (rec_grants r)"
  proof (cases "map_of (origins L) origin")
    case None then show ?thesis using rp(5) by simp
  next
    case (Some s)
    then have "s = r" using rp(4) by blast
    then show ?thesis using ok Some unfolding ledger_ok_def by blast
  qed
  then have d: "distinct (map fst (rec_grants r))" by (simp add: grants_ok_def)
  note live = replaceHydratedGrants_live [OF rep d restored]
  have cur: "currentGrant L' origin k = map_of live k" for k
    by (simp add: L'(1) currentGrant_put)
  show *: "currentGrant L' origin k =
      (case currentGrant L origin k of
         Some e \<Rightarrow> if kept restored k e then Some e else map_of restored k
       | None \<Rightarrow> map_of restored k)" for k
    using live(2) [of k] by (simp add: cur g0)
  have fresh: "map_of restored k \<noteq> Some g" if c: "currentGrant L origin k = Some g" for k g
  proof
    assume "map_of restored k = Some g"
    then obtain i where "minted L \<le> i" "grant_id g = mint env i"
      using hydrateGrants_hydrated [OF inj restored] unfolding hydrated_def by blast
    moreover obtain j where "j < minted L" "grant_id g = mint env j" using ledger_ok_id [OF ok c] by blast
    ultimately show False using inj by (metis injD leD)
  qed
  have in_gs: "(k, e) \<in> set (rec_grants r) \<longleftrightarrow> currentGrant L origin k = Some e" for k e
    using d by (simp add: g0 [symmetric])
  have gone: "\<not> kept restored k e \<longleftrightarrow> currentGrant L' origin k \<noteq> Some e"
    if "currentGrant L origin k = Some e" for k e
    using * [of k] that fresh [OF that] by simp
  show "set out = {\<lparr>sup_capability = k, sup_id = grant_id g\<rparr> | k g.
      currentGrant L origin k = Some g \<and> currentGrant L' origin k \<noteq> Some g}"
    unfolding L'(2) live(3) using in_gs gone by (auto simp: image_iff)
  show "currentGrant L' o' k = currentGrant L o' k" if "o' \<noteq> origin"
    using that currentGrant_record_of [OF r] by (simp add: L'(1) currentGrant_put)
qed

lemma restored_allowed:
  assumes "hydrateGrants env d origin m n = (restored, n')" and "inj (mint env)"
    and "map_of restored k = Some g \<or> kept restored k g"
  shows "\<exists>ps. isCapabilityKind k \<and> allowed (decideGrantRequest m k (Some ps)) \<and> sameOwnPatterns ps (patterns g)"
proof -
  obtain g' where "map_of restored k = Some g'" "sameOwnPatterns (patterns g') (patterns g)"
    using assms(3) sameOwnPatterns_mset by (auto simp: kept_def split: option.splits)
  moreover have "hydrated env origin m n n' restored" by (rule hydrateGrants_hydrated [OF assms(2,1)])
  ultimately show ?thesis unfolding hydrated_def by (metis grant_request_decision.select_convs(1))
qed

lemma forgetOrigin_effect:
  shows "origins (forgetOrigin env fails L origin) = origins L \<or>
    (let L' = forgetOrigin env fails L origin in
       map_of (origins L') origin = None \<and>
       (has_storage env \<longrightarrow> floor_on_disk L' origin = None \<and>
          map_of (disk_ack (ledger_disk L')) origin = None \<and>
          map_of (disk_grants (ledger_disk L')) origin = None \<and>
          map_of (disk_declined (ledger_disk L')) origin = None))"
  by (simp add: forgetOrigin_def delete_conv' Let_def split: prod.split)

lemma grant_persisted:
  assumes "grant_capability env fails L origin kind ps t = (L1, Returns x)" and "persists env origin"
  obtains r x where "map_of (origins L1) origin = Some r" and "map_of (disk_grants (ledger_disk L1)) origin = Some x"
    and "file_grants x = grantsToPersist (rec_grants r)"
proof -
  obtain L0 r where r: "record_of env (L\<lparr>minted := Suc (minted L)\<rparr>) origin = (L0, r)" by fastforce
  show ?thesis
    using assms that
    by (auto simp: grant_capability_def r Let_def persistGrants_def write_grants_def update_conv' put_record_def
        split: if_splits)
qed

lemma hydrate_flag [simp]:
  "rec_hydrated (hydrateFloor env d o' r) = rec_hydrated r"
  "rec_hydrated (hydrateRollbackAcknowledgedVersion env d o' r) = rec_hydrated r"
  "rec_hydrated (hydrateDeclinedCapabilities env d o' r) = rec_hydrated r"
  by (simp_all add: hydrateFloor_def hydrateRollbackAcknowledgedVersion_def
      hydrateDeclinedCapabilities_def Let_def split: option.split)

lemma empty_not_hydrated: "\<not> rec_hydrated (snd (record_of env (empty_ledger d) origin))"
  by (simp add: record_of_def empty_ledger_def Let_def fresh_record_def)

lemma empty_current [simp]: "currentGrant (empty_ledger d) o' k = None"
  by (simp add: empty_ledger_def currentGrant_def)

section \<open>Properties\<close>

text \<open>A concrete environment and manifest: ids are \<open>[n]\<close>, every URL parses as an https origin.\<close>

definition sample_env :: env where
  "sample_env = \<lparr>url_parse = (\<lambda>u. Some \<lparr>protocol = js ''https:'', hostname = js ''app.example'', port = [],
       pathname = js ''/''\<rparr>), mint = (\<lambda>n. [n]), has_storage = True\<rparr>"

definition sample_app :: str where
  "sample_app = js ''https://app.example''"

definition sample_manifest :: manifest where
  "sample_manifest = \<lparr>app_name = js ''Mail'', app_version = js ''1.2.0'',
     app_capabilities = \<lparr>net = None, fs = Some (Some 1000), curves = None, web = None, media = None,
       secrets = True, trust_score = None, hid = None\<rparr>\<rparr>"

definition sample_ledger :: ledger where
  "sample_ledger = empty_ledger \<lparr>disk_floor = [], disk_ack = [], disk_grants = [], disk_declined = []\<rparr>"

abbreviation no_failure :: "disk_op \<Rightarrow> bool" where "no_failure \<equiv> \<lambda>_. False"

definition sample_registered :: ledger where
  "sample_registered = fst (registerApp sample_env no_failure sample_ledger sample_app sample_manifest)"

lemma sample_mint: "inj (mint sample_env)"
  by (simp add: sample_env_def inj_def)

lemma sample_persists: "persists sample_env sample_app"
  by code_simp

lemma sample_registers:
  "registerApp sample_env no_failure sample_ledger sample_app sample_manifest = (sample_registered, Returns ())"
proof -
  have "snd (registerApp sample_env no_failure sample_ledger sample_app sample_manifest) = Returns ()"
    by code_simp
  then show ?thesis by (simp add: sample_registered_def prod_eq_iff)
qed

lemma run_none: "ledger_run env L [] L"
  by (rule run_done)

text \<open>C20. A version once registered keeps every older one from installing without asking, for the
  rest of the session: whatever the ledger is asked to do afterwards, short of forgetting the origin,
  and even if the write of the floor failed, the decision about an older version that was not
  acknowledged is the rollback choice.\<close>

theorem superseded_version_never_installs_silently:
  assumes "registerApp env fails L origin m = (L1, res)"
    and "ledger_run env L1 es L2" and "Forgets origin \<notin> set es"
    and "versionFloorFor env L2 origin = (L3, versionFloor u)"
    and "compareVersions (version u) (app_version m) = Some (-1)" and "\<not> rollbackAcknowledged u"
  shows "decideUpdate lower u = RollbackChoice"
proof -
  have "rules_out_below (versionFloor u) (app_version m)" by (rule registered_floor [OF assms(1-4)])
  then have "\<not> isAtOrAboveFloor (version u) (versionFloor u)" using assms(5) by (simp add: rules_out_below_def)
  then show ?thesis using assms(6) by (simp add: decideUpdate_def)
qed

definition sample_older :: update_input where
  "sample_older = \<lparr>pinnedHash = js ''ab'', newHash = js ''ab'', grantedPatterns = [], newPatterns = [],
      version = js ''1.1.9'', versionFloor = snd (versionFloorFor sample_env sample_registered sample_app),
      rollbackAcknowledged = False, previouslyDeclaredPatterns = None\<rparr>"

lemma superseded_version_never_installs_silently_witness:
  "decideUpdate id sample_older = RollbackChoice"
proof (rule superseded_version_never_installs_silently [OF sample_registers run_none])
  show "versionFloorFor sample_env sample_registered sample_app =
      (fst (versionFloorFor sample_env sample_registered sample_app), versionFloor sample_older)"
    by (simp add: sample_older_def)
  show "compareVersions (version sample_older) (app_version sample_manifest) = Some (- 1)"
    by code_simp
qed (simp_all add: sample_older_def)

text \<open>C21. The floor survives a restart: when a registration raised it and its write did not fail, then
  after any further calls that do not forget the origin, a fresh ledger over what is then on disk
  hydrates a floor that still rules out every older version.\<close>

theorem floor_survives_restart:
  assumes "ledger_run env (empty_ledger d0) es0 L" and "persists env origin"
    and "versionFloorFor env L origin = (L0, f0)" and "compareVersions (app_version m) f0 = Some 1"
    and "registerApp env fails L origin m = (L1, Returns ())"
    and "ledger_run env L1 es L2" and "Forgets origin \<notin> set es"
    and "versionFloorFor env (empty_ledger (ledger_disk L2)) origin = (L3, f)"
    and "compareVersions w (app_version m) = Some (-1)"
  shows "\<not> isAtOrAboveFloor w f"
proof -
  have "floor_synced env L"
    by (rule floor_synced_run [OF assms(1) floor_synced_empty])
  then have "floor_synced env L1"
    using step_register [OF assms(5)] floor_synced_step by blast
  then obtain f1 where "floor_on_disk L2 origin = Some f1" "floor_le (app_version m) f1"
    using floor_disk_run [OF assms(6) _ assms(2,7)] registerApp_writes [OF assms(5,2,3,4)] by blast
  then have "floor_le (app_version m) f"
    using restart_floor [OF assms(2) _ assms(8)] floor_le_trans by blast
  then show ?thesis
    using rules_out_below_le [OF rules_out_self] assms(9) unfolding rules_out_below_def by blast
qed

lemma floor_survives_restart_witness:
  "\<not> isAtOrAboveFloor (js ''1.2.0-rc.1'')
     (snd (versionFloorFor sample_env (empty_ledger (ledger_disk sample_registered)) sample_app))"
proof (rule floor_survives_restart [OF _ sample_persists _ _ sample_registers run_none])
  show "ledger_run sample_env (empty_ledger (ledger_disk sample_ledger)) [] sample_ledger"
    using run_none by (simp add: sample_ledger_def empty_ledger_def)
  show "versionFloorFor sample_env sample_ledger sample_app =
      (fst (versionFloorFor sample_env sample_ledger sample_app), js ''0.0.0'')"
    by code_simp
  show "compareVersions (app_version sample_manifest) (js ''0.0.0'') = Some 1" by code_simp
  show "compareVersions (js ''1.2.0-rc.1'') (app_version sample_manifest) = Some (- 1)" by code_simp
qed (simp, rule prod.collapse [symmetric])

text \<open>A floor write that failed is not made good by registering the same version again, even when
  writing works by then: the second registration returns normally and leaves the older floor, or
  none, on disk, where the next session reads it.\<close>

theorem failed_floor_write_is_not_retried:
  assumes "registerApp env fails L origin m = (L1, Threw)"
    and "registerApp env fails' L1 origin m = (L2, res)"
  shows "res = Returns () \<and> map_of (disk_floor (ledger_disk L2)) origin = map_of (disk_floor (ledger_disk L)) origin"
proof -
  obtain s where s: "map_of (origins L1) origin = Some s" "rec_floor s = app_version m"
    using failed_write(2) [OF assms(1)] by blast
  then have r: "record_of env L1 origin = (L1, s)" by (simp add: record_of_def)
  obtain t s' ok where "rec_floor t = rec_floor s"
    and "raiseFloor env fails' (ledger_disk L1) origin t (app_version m) = (s', ledger_disk L2, ok)"
    and "res = (case ok of Returns _ \<Rightarrow> Returns () | Threw \<Rightarrow> Threw)"
    by (rule registerApp_floor [OF assms(2) r])
  then have "ledger_disk L2 = ledger_disk L1 \<and> res = Returns ()"
    using s(2) failed_write(3) [OF assms(1)] by (auto simp: raiseFloor_def)
  then show ?thesis using failed_write(1) [OF assms(1)] by simp
qed

definition sample_failed :: ledger where
  "sample_failed = fst (registerApp sample_env (\<lambda>op. op = WriteFloor) sample_ledger sample_app sample_manifest)"

lemma failed_floor_write_is_not_retried_witness:
  "snd (registerApp sample_env no_failure sample_failed sample_app sample_manifest) = Returns () \<and>
   map_of (disk_floor (ledger_disk (fst (registerApp sample_env no_failure sample_failed sample_app sample_manifest))))
     sample_app = map_of (disk_floor (ledger_disk sample_ledger)) sample_app"
proof (rule failed_floor_write_is_not_retried)
  have "snd (registerApp sample_env (\<lambda>op. op = WriteFloor) sample_ledger sample_app sample_manifest) = Threw"
    by code_simp
  then show "registerApp sample_env (\<lambda>op. op = WriteFloor) sample_ledger sample_app sample_manifest =
      (sample_failed, Threw)"
    by (simp add: sample_failed_def prod_eq_iff)
qed (rule prod.collapse [symmetric])

text \<open>A grant id names one grant: after any sequence of calls on a new ledger, every live grant
  sits in the slot of its own capability and origin, and two live grants with one id are in the same
  slot of the same origin.\<close>

theorem grant_id_names_one_grant:
  assumes "inj (mint env)" and "ledger_run env (empty_ledger d) es L"
    and "currentGrant L o1 k1 = Some g1"
  shows "capability g1 = k1 \<and> grant_origin g1 = o1 \<and>
    (currentGrant L o2 k2 = Some g2 \<and> grant_id g2 = grant_id g1 \<longrightarrow> o2 = o1 \<and> k2 = k1 \<and> g2 = g1)"
proof -
  have ok: "ledger_ok env L" by (rule ledger_ok_run [OF assms(2,1) ledger_ok_empty])
  obtain r where r: "map_of (origins L) o1 = Some r" "map_of (rec_grants r) k1 = Some g1"
    using assms(3) by (auto simp: currentGrant_Some)
  then have g: "grants_ok env o1 (minted L) (rec_grants r)" using ok unfolding ledger_ok_def by blast
  have "k2 = k1" if "currentGrant L o1 k2 = Some g2" "grant_id g2 = grant_id g1"
    using that r g by (auto simp: currentGrant_def grants_ok_def)
  moreover have "o2 = o1" if "currentGrant L o2 k2 = Some g2" "grant_id g2 = grant_id g1"
    using ok assms(3) that unfolding ledger_ok_def by blast
  moreover have "capability g1 = k1 \<and> grant_origin g1 = o1" using g r(2) unfolding grants_ok_def by blast
  ultimately show ?thesis using assms(3) by auto
qed

definition sample_granted :: ledger where
  "sample_granted =
     fst (grant_capability sample_env no_failure sample_registered sample_app (js ''fs'') [] 7)"

lemma sample_run: "ledger_run sample_env (empty_ledger (ledger_disk sample_ledger)) [Calls, Calls] sample_granted"
proof -
  have e: "empty_ledger (ledger_disk sample_ledger) = sample_ledger"
    by (simp add: sample_ledger_def empty_ledger_def)
  have "ledger_step sample_env sample_registered Calls sample_granted"
    unfolding sample_granted_def by (rule step_grant, rule prod.collapse [symmetric])
  moreover have "ledger_step sample_env sample_ledger Calls sample_registered"
    by (rule step_register [OF sample_registers])
  ultimately show ?thesis
    using run_step [of _ _ "[Calls]"] run_step [of _ _ "[]"] run_none unfolding e by (metis append_Nil append_Cons)
qed

definition sample_grant :: grant where
  "sample_grant = \<lparr>grant_id = [0], grant_origin = sample_app, capability = js ''fs'', patterns = [], grantedAt = 7\<rparr>"

lemma sample_current: "currentGrant sample_granted sample_app (js ''fs'') = Some sample_grant"
  by code_simp

lemma grant_id_names_one_grant_witness:
  "capability sample_grant = js ''fs'' \<and> grant_origin sample_grant = sample_app"
  using grant_id_names_one_grant [OF sample_mint sample_run sample_current] by blast

text \<open>Revoking removes one grant, even when the write of what is left fails: afterwards the grant
  with that id is not live, every other grant of every origin is as it was, and revoking again
  changes nothing and returns normally.\<close>

theorem revoked_grant_is_gone:
  assumes "inj (mint env)" and "ledger_run env (empty_ledger d) es L"
    and "revoke_grant env fails L origin gid = (L', res)"
  shows "currentGrant L' o1 k =
      (case currentGrant L o1 k of None \<Rightarrow> None
       | Some g \<Rightarrow> if o1 = origin \<and> grant_id g = gid then None else Some g) \<and>
    revoke_grant env fails' L' origin gid = (L', Returns ())"
proof -
  have ok: "ledger_ok env L" by (rule ledger_ok_run [OF assms(2,1) ledger_ok_empty])
  note eff = revoke_effect [OF ok assms(3)]
  have ok': "ledger_ok env L'"
    using ledger_ok_step [OF assms(1) ok step_revoke [OF assms(3)]] .
  have "revoke_grant env fails' L' origin gid = (L', Returns ())"
  proof (cases "map_of (origins L') origin")
    case None then show ?thesis by (simp add: revoke_grant_def)
  next
    case (Some r)
    then have "distinct (map fst (rec_grants r))" using ok' unfolding ledger_ok_def grants_ok_def by blast
    have "grant_id g \<noteq> gid" if "(k, g) \<in> set (rec_grants r)" for k g
    proof -
      have "currentGrant L' origin k = Some g"
        using that Some \<open>distinct (map fst (rec_grants r))\<close> by (simp add: currentGrant_def)
      then show ?thesis using eff [of origin k] by (auto split: option.splits if_splits)
    qed
    then have "find (\<lambda>(cap, g). grant_id g = gid) (rec_grants r) = None"
      by (auto simp: find_None_iff)
    then show ?thesis using Some by (simp add: revoke_grant_def)
  qed
  then show ?thesis using eff by blast
qed

lemma revoked_grant_is_gone_witness:
  "currentGrant (fst (revoke_grant sample_env (\<lambda>op. op = WriteGrants) sample_granted sample_app [0]))
     sample_app (js ''fs'') = None"
  using revoked_grant_is_gone [OF sample_mint sample_run prod.collapse [symmetric],
      of "\<lambda>op. op = WriteGrants" sample_app "[0]" sample_app "js ''fs''"] sample_current
  by (simp add: sample_grant_def)

text \<open>C25. What is restored from disk is decided again: after an origin is hydrated against a manifest,
  each of its live grants is of a known kind and has, up to order, patterns that a live request
  against this manifest would have been granted; the grants of other origins are untouched; and the
  superseded grants reported for revocation are exactly the ones that were live and no longer are.\<close>

theorem restored_grants_are_decided_again:
  assumes "inj (mint env)" and "ledger_run env (empty_ledger d) es L" and "persists env origin"
    and "\<not> rec_hydrated (snd (record_of env L origin))"
    and "hydrateFromPinnedManifest env L origin m = (L', out)"
  shows "(\<forall>k g. currentGrant L' origin k = Some g \<longrightarrow>
        (\<exists>ps. isCapabilityKind k \<and> allowed (decideGrantRequest m k (Some ps)) \<and> mset ps = mset (patterns g))) \<and>
    (\<forall>o1 k. o1 \<noteq> origin \<longrightarrow> currentGrant L' o1 k = currentGrant L o1 k) \<and>
    set out = {\<lparr>sup_capability = k, sup_id = grant_id g\<rparr> | k g.
      currentGrant L origin k = Some g \<and> currentGrant L' origin k \<noteq> Some g}"
proof -
  have ok: "ledger_ok env L" by (rule ledger_ok_run [OF assms(2,1) ledger_ok_empty])
  obtain restored n where r: "hydrateGrants env (ledger_disk L) origin m (minted L) = (restored, n)" by fastforce
  note h = pinned_restores [OF ok assms(1,5,4,3) r]
  have "map_of restored k = Some g \<or> kept restored k g" if "currentGrant L' origin k = Some g" for k g
    using h(1) [of k] that by (auto split: option.splits if_splits)
  then have "\<exists>ps. isCapabilityKind k \<and> allowed (decideGrantRequest m k (Some ps)) \<and> mset ps = mset (patterns g)"
    if "currentGrant L' origin k = Some g" for k g
    using restored_allowed [OF r assms(1)] that sameOwnPatterns_mset by blast
  then show ?thesis using h(2,3) by blast
qed

text \<open>C26. What was granted comes back after a restart: when a grant's write succeeds, a fresh ledger
  over that disk, hydrated against a manifest, holds for each capability kind the patterns and the
  time granted, for exactly the kinds whose patterns a request against that manifest would be
  granted.\<close>

theorem granted_survives_restart:
  assumes "inj (mint env)" and "ledger_run env (empty_ledger d) es L" and "persists env origin"
    and "grant_capability env fails L origin kind ps t = (L1, Returns (g, replaced))"
    and "hydrateFromPinnedManifest env (empty_ledger (ledger_disk L1)) origin m = (L2, out)"
  shows "map_option (\<lambda>g. (patterns g, grantedAt g)) (currentGrant L2 origin k) =
    (case currentGrant L1 origin k of None \<Rightarrow> None
     | Some g \<Rightarrow> if isCapabilityKind k \<and> allowed (decideGrantRequest m k (Some (patterns g)))
                then Some (patterns g, grantedAt g) else None)"
proof -
  have ok: "ledger_ok env L" by (rule ledger_ok_run [OF assms(2,1) ledger_ok_empty])
  then have ok1: "ledger_ok env L1" using ledger_ok_step [OF assms(1) _ step_grant [OF assms(4)]] by blast
  obtain r x where x: "map_of (origins L1) origin = Some r" "map_of (disk_grants (ledger_disk L1)) origin = Some x"
    "file_grants x = grantsToPersist (rec_grants r)"
    by (rule grant_persisted [OF assms(4,3)])
  then have "distinct (map fst (rec_grants r))" using ok1 unfolding ledger_ok_def grants_ok_def by blast
  then have "what_is_kept (map_of (fst (hydrateGrants env (ledger_disk L1) origin m 0)) k) =
      (case map_of (rec_grants r) k of
         Some g \<Rightarrow> if isCapabilityKind k \<and> allowed (decideGrantRequest m k (Some (patterns g)))
                  then Some (patterns g, grantedAt g) else None
       | None \<Rightarrow> None)"
    using hydrate_persisted [of "rec_grants r" env origin m 0 "[]" k] x(2,3)
    by (simp add: hydrateGrants_def what_is_kept_def split: option.split)
  moreover have "currentGrant L2 origin k = map_of (fst (hydrateGrants env (ledger_disk L1) origin m 0)) k"
    using pinned_restores(1) [OF ledger_ok_empty assms(1,5) empty_not_hydrated assms(3)]
    by (simp add: empty_ledger_def prod_eq_iff) (simp add: empty_ledger_def [symmetric])
  moreover have "currentGrant L1 origin k = map_of (rec_grants r) k" using x(1) by (simp add: currentGrant_def)
  ultimately show ?thesis by (simp add: what_is_kept_def cong: option.case_cong)
qed

lemma granted_survives_restart_witness:
  "map_option (\<lambda>g. (patterns g, grantedAt g))
     (currentGrant (fst (hydrateFromPinnedManifest sample_env (empty_ledger (ledger_disk sample_granted))
        sample_app sample_manifest)) sample_app (js ''fs'')) = Some ([], 7)"
proof -
  have "allowed (decideGrantRequest sample_manifest (js ''fs'') (Some []))" by code_simp
  moreover have "isCapabilityKind (js ''fs'')" by code_simp
  moreover have "snd (grant_capability sample_env no_failure sample_registered sample_app (js ''fs'') [] 7) =
      Returns (sample_grant, None)" by code_simp
  then have "grant_capability sample_env no_failure sample_registered sample_app (js ''fs'') [] 7 =
      (sample_granted, Returns (sample_grant, None))" by (simp add: sample_granted_def prod_eq_iff)
  moreover have "ledger_run sample_env (empty_ledger (ledger_disk sample_ledger)) [Calls] sample_registered"
    using run_step [OF run_none step_register [OF sample_registers]]
    by (simp add: sample_ledger_def empty_ledger_def)
  ultimately show ?thesis
    using granted_survives_restart [OF sample_mint _ sample_persists _ prod.collapse [symmetric],
        of _ _ sample_registered _ "js ''fs''" "[]" 7 sample_granted _ _ sample_manifest "js ''fs''"] sample_current
    by (simp add: sample_grant_def)
qed

lemma restored_grants_are_decided_again_witness:
  "\<exists>ps. isCapabilityKind (js ''fs'') \<and> allowed (decideGrantRequest sample_manifest (js ''fs'') (Some ps)) \<and>
     mset ps = {#}"
proof -
  let ?L = "empty_ledger (ledger_disk sample_granted)"
  let ?L' = "fst (hydrateFromPinnedManifest sample_env ?L sample_app sample_manifest)"
  have "map_option patterns (currentGrant ?L' sample_app (js ''fs'')) = Some []" by code_simp
  then obtain g where "currentGrant ?L' sample_app (js ''fs'') = Some g" "patterns g = []" by auto
  then show ?thesis
    using restored_grants_are_decided_again [OF sample_mint run_none sample_persists empty_not_hydrated
        prod.collapse [symmetric], of "ledger_disk sample_granted" sample_manifest] by force
qed

text \<open>Disk quota: a reservation is granted exactly when, on top of what is charged, it stays within
  the quota the manifest declares (always, when it declares none); granted, it is charged in full,
  refused, nothing is; and releasing it gives back what was there, never going below zero.\<close>

theorem quota_reservation:
  assumes "ledger_reserveFsBytes env L origin bytes = (L', ok)" and "record_of env L origin = (L0, r)"
  shows "(ok \<longleftrightarrow> (case quota_of r of None \<Rightarrow> True | Some q \<Rightarrow> fsBytesUsed L0 origin + bytes \<le> q)) \<and>
    fsBytesUsed L' origin = (if ok then fsBytesUsed L0 origin + bytes else fsBytesUsed L0 origin) \<and>
    0 \<le> fsBytesUsed (ledger_releaseFsBytes env L' origin bytes) origin \<and>
    (ok \<and> 0 \<le> fsBytesUsed L0 origin \<longrightarrow>
       fsBytesUsed (ledger_releaseFsBytes env L' origin bytes) origin = fsBytesUsed L0 origin)"
proof -
  have "map_of (origins L0) origin = Some r" using record_of_props(1) [OF assms(2)] .
  moreover obtain r' where "reserveFsBytes r bytes = (r', ok)" "L' = put_record origin r' L0"
    using assms(1) by (auto simp: ledger_reserveFsBytes_def assms(2) split: prod.splits)
  ultimately show ?thesis
    by (auto simp: fsBytesUsed_def ledger_releaseFsBytes_def releaseFsBytes_def reserveFsBytes_def
        origins_put split: if_splits option.splits)
qed

lemma quota_reservation_witness:
  "fsBytesUsed (fst (ledger_reserveFsBytes sample_env sample_registered sample_app 1000)) sample_app = 1000"
proof -
  have "snd (ledger_reserveFsBytes sample_env sample_registered sample_app 1000)"
    "fsBytesUsed (fst (record_of sample_env sample_registered sample_app)) sample_app = 0" by code_simp+
  then show ?thesis
    using quota_reservation [OF prod.collapse [symmetric] prod.collapse [symmetric],
        of sample_env sample_registered sample_app 1000] by simp
qed

text \<open>C28. Forgetting is all or nothing in memory, and nothing exactly when one of the four deletions throws: then every
  record is as it was. When none throws, or nothing is kept on disk, the origin is gone: it has no record, no capability
  of it is live, its floor starts again at 0.0.0, and the floor, acknowledgement, grant and decline files no longer name
  it. Either way every other origin keeps its record and its line in all four files, and no grant id is given out.\<close>

theorem forget_is_all_or_nothing:
  assumes "L' = forgetOrigin env fails L origin"
    and "failed \<longleftrightarrow> has_storage env \<and> (fails DeleteFloor \<or> fails DeleteAck \<or> fails DeleteGrants \<or> fails DeleteDeclined)"
  shows "(failed \<longrightarrow> origins L' = origins L) \<and>
    (\<not> failed \<longrightarrow> map_of (origins L') origin = None \<and> currentGrant L' origin k = None \<and>
      snd (versionFloorFor env L' origin) = js ''0.0.0'' \<and>
      (has_storage env \<longrightarrow> map_of (disk_floor (ledger_disk L')) origin = None \<and>
         map_of (disk_ack (ledger_disk L')) origin = None \<and> map_of (disk_grants (ledger_disk L')) origin = None \<and>
         map_of (disk_declined (ledger_disk L')) origin = None)) \<and>
    (o1 \<noteq> origin \<longrightarrow> map_of (origins L') o1 = map_of (origins L) o1 \<and>
       map_of (disk_floor (ledger_disk L')) o1 = map_of (disk_floor (ledger_disk L)) o1 \<and>
       map_of (disk_ack (ledger_disk L')) o1 = map_of (disk_ack (ledger_disk L)) o1 \<and>
       map_of (disk_grants (ledger_disk L')) o1 = map_of (disk_grants (ledger_disk L)) o1 \<and>
       map_of (disk_declined (ledger_disk L')) o1 = map_of (disk_declined (ledger_disk L)) o1) \<and>
    minted L' = minted L"
proof -
  have gone: "map_of (AList.delete origin xs) origin = None" for xs :: "(str \<times> 'x) list" by (simp add: delete_conv')
  have floor: "snd (versionFloorFor env L' origin) = js ''0.0.0''"
    if "map_of (origins L') origin = None" "has_storage env \<longrightarrow> floor_on_disk L' origin = None"
    using that by (auto simp: versionFloorFor_def record_of_def Let_def hydrateFloor_def persists_def fresh_record_def)
  have "\<not> failed \<longrightarrow> map_of (origins L') origin = None \<and> (has_storage env \<longrightarrow> floor_on_disk L' origin = None)"
    unfolding assms forgetOrigin_def by (auto simp: gone)
  then have "\<not> failed \<longrightarrow> currentGrant L' origin k = None \<and> snd (versionFloorFor env L' origin) = js ''0.0.0''"
    using floor by (simp add: currentGrant_def)
  then show ?thesis unfolding assms forgetOrigin_def by (auto simp: gone delete_conv')
qed

lemma forget_is_all_or_nothing_witness:
  "snd (versionFloorFor sample_env (forgetOrigin sample_env no_failure sample_registered sample_app) sample_app) =
     js ''0.0.0'' \<and>
   origins (forgetOrigin sample_env (\<lambda>op. op = DeleteGrants) sample_registered sample_app) = origins sample_registered"
proof -
  have "has_storage sample_env" "\<not> no_failure DeleteFloor" "\<not> no_failure DeleteAck" "\<not> no_failure DeleteGrants"
    "\<not> no_failure DeleteDeclined" by code_simp+
  then show ?thesis
    using forget_is_all_or_nothing [OF refl refl, of sample_env no_failure sample_registered sample_app "[]" sample_app]
      forget_is_all_or_nothing [OF refl refl, of sample_env "\<lambda>op. op = DeleteGrants" sample_registered sample_app "[]" sample_app]
    by simp
qed

end
