(* ===== verification/HandleStore.thy ===== *)
theory HandleStore imports GrantRequest Origin begin

section \<open>One origin's handles (errors.ts, tombstones.ts, handle-store.ts, in-flight.ts)\<close>

text \<open>
  The state of one \<open>OriginTable\<close> and the operations that touch only it. Sets and maps that the code
  iterates are lists in insertion order. A pending operation is named by a number; what the code
  does to the outside (cancelling an operation, settling \<open>closed\<close>, calling a listener or a destroy
  callback) is returned as a list of effects, in the order it happens. Callbacks may fail
  (\<open>callbacks\<close>), but a callback that calls back into the table is not modelled.
\<close>

subsection \<open>errors.ts\<close>

datatype error_code =
  E_denied | E_revoked | E_unreachable | E_timeout | E_reset | E_closed | E_limit | E_invalid
| E_notFound | E_exists | E_internal | E_unavailable

record broker_error =
  err_code :: error_code
  err_message :: str
  err_handle :: "str option"
  err_platform :: "str option"

definition fail_with :: "error_code \<Rightarrow> str \<Rightarrow> str option \<Rightarrow> str option \<Rightarrow> broker_error" where
  "fail_with c message handle platform =
     \<lparr>err_code = c, err_message = message, err_handle = handle,
      err_platform = (if c \<noteq> E_denied then platform else None)\<rparr>"

subsection \<open>handle-contracts.ts\<close>

datatype handle_kind = TcpSocket | TcpServer | UdpSocket | FileHandle | IdentityHandle | WebContext | Embed

datatype authorisation = ByGrant str | UserSelected str

datatype close_reason = Closed | Revoked | SessionEnded | Aborted | Failed

record handle_entry =
  entry_id :: str
  entry_origin :: str
  entry_kind :: handle_kind
  authorisedBy :: authorisation
  parentId :: "str option"

subsection \<open>limits.ts\<close>

definition LIMIT_concurrentFileHandles :: nat where "LIMIT_concurrentFileHandles = 64"
definition LIMIT_inFlightOperations :: nat where "LIMIT_inFlightOperations = 256"
definition LIMIT_webContexts :: nat where "LIMIT_webContexts = 2"
definition LIMIT_embeds :: nat where "LIMIT_embeds = 32"

subsection \<open>tombstones.ts\<close>

datatype ended_as = EndedClosed | EndedRevoked

definition CLOSED_ID_MEMORY :: nat where
  "CLOSED_ID_MEMORY = nat LIMIT_concurrentSockets + LIMIT_concurrentFileHandles"

definition REVOKED_GRANT_MEMORY :: nat where
  "REVOKED_GRANT_MEMORY = nat LIMIT_concurrentSockets + LIMIT_concurrentFileHandles"

definition makeRoom :: "'a list \<Rightarrow> nat \<Rightarrow> 'a list" where
  "makeRoom memory bound = (if length memory < bound then memory else drop 1 memory)"

definition remember :: "'a list \<Rightarrow> 'a \<Rightarrow> nat \<Rightarrow> 'a list" where
  "remember memory value bound =
     (if value \<in> set memory then memory else makeRoom memory bound @ [value])"

definition endedAs :: "close_reason \<Rightarrow> ended_as" where
  "endedAs reason = (if reason = Revoked \<or> reason = SessionEnded then EndedRevoked else EndedClosed)"

subsection \<open>handle-store.ts: the state\<close>

record handle_record =
  entry :: handle_entry
  authorisation :: authorisation
  stillCovered :: "(str list \<Rightarrow> bool) option"
  children :: "str list"
  operations :: "nat list"
  unlink :: "nat option"

record origin_table =
  handles :: "(str \<times> handle_record) list"
  byGrant :: "(str \<times> str list) list"
  byPickedPath :: "(str \<times> str list) list"
  grantOperations :: "(str \<times> nat list) list"
  recentlyClosed :: "(str \<times> ended_as) list"
  revokedGrants :: "str list"
  grantAliases :: "(str \<times> str) list"
  dropping :: bool
  inFlight :: int
  slotWaiters :: "nat list"

definition new_table :: origin_table where
  "new_table = \<lparr>handles = [], byGrant = [], byPickedPath = [], grantOperations = [], recentlyClosed = [],
     revokedGrants = [], grantAliases = [], dropping = False, inFlight = 0, slotWaiters = []\<rparr>"

datatype handle_effect =
  Cancel nat broker_error
| RejectClosed str broker_error
| ResolveClosed str
| Unlink nat close_reason "error_code option"
| Destroy str close_reason
| Fault "str option"
| DestroyRefused close_reason

text \<open>Which destroy callbacks and which unlink listeners fail.\<close>

record callbacks =
  destroy_fails :: "str \<Rightarrow> bool"
  unlink_throws :: "nat \<Rightarrow> bool"

definition NOT_YOURS :: str where
  "NOT_YOURS = js ''no such handle for this origin''"

definition MAX_IDENTITY_HANDLES :: nat where
  "MAX_IDENTITY_HANDLES = LIMIT_concurrentFileHandles"

definition SOCKET_KINDS :: "handle_kind list" where
  "SOCKET_KINDS = [TcpSocket, TcpServer, UdpSocket]"

text \<open>A set kept in insertion order, and an index from keys to such sets with no empty sets.\<close>

definition add_to :: "'a \<Rightarrow> 'a list \<Rightarrow> 'a list" where
  "add_to x s = (if x \<in> set s then s else s @ [x])"

definition file_under :: "'k \<Rightarrow> 'a \<Rightarrow> ('k \<times> 'a list) list \<Rightarrow> ('k \<times> 'a list) list" where
  "file_under k x index =
     AList.update k (add_to x (case map_of index k of None \<Rightarrow> [] | Some s \<Rightarrow> s)) index"

definition unfile :: "'k \<Rightarrow> 'a \<Rightarrow> ('k \<times> 'a list) list \<Rightarrow> ('k \<times> 'a list) list" where
  "unfile k x index =
     (case map_of index k of
        None \<Rightarrow> index
      | Some s \<Rightarrow>
          let s = removeAll x s in
          if s = [] then AList.delete k index else AList.update k s index)"

subsection \<open>Ownership, acquisition and capacity\<close>

definition record_in :: "origin_table \<Rightarrow> str \<Rightarrow> broker_error + handle_record" where
  "record_in t handleId =
     (case map_of (handles t) handleId of
        Some r \<Rightarrow> Inr r
      | None \<Rightarrow>
          (case map_of (recentlyClosed t) handleId of
             Some EndedRevoked \<Rightarrow>
               Inl (fail_with E_revoked (js ''the grant authorising this handle was withdrawn'') (Some handleId) None)
           | Some EndedClosed \<Rightarrow>
               Inl (fail_with E_closed (js ''the handle is already closed'') (Some handleId) (Some (js ''EBADF'')))
           | None \<Rightarrow> Inl (fail_with E_denied NOT_YOURS (Some handleId) None)))"

definition currentGrantFor :: "origin_table \<Rightarrow> str \<Rightarrow> str" where
  "currentGrantFor t g = (case map_of (grantAliases t) g of None \<Rightarrow> g | Some g' \<Rightarrow> g')"

definition assertAcquirable :: "origin_table \<Rightarrow> authorisation \<Rightarrow> broker_error option" where
  "assertAcquirable t auth =
     (if dropping t
      then Some (fail_with E_revoked (js ''the session holding this capability ended'') None None)
      else (case auth of
              ByGrant g \<Rightarrow>
                if currentGrantFor t g \<in> set (revokedGrants t)
                then Some (fail_with E_revoked (js ''the grant authorising this handle was withdrawn'') None None)
                else None
            | UserSelected _ \<Rightarrow> None))"

record census =
  sockets :: nat
  files :: nat
  identities :: nat
  webContexts :: nat
  embeds :: nat

definition count_one :: "census \<Rightarrow> handle_kind \<Rightarrow> census" where
  "count_one c kind =
     (if kind \<in> set SOCKET_KINDS then c\<lparr>sockets := sockets c + 1\<rparr>
      else if kind = FileHandle then c\<lparr>files := files c + 1\<rparr>
      else if kind = WebContext then c\<lparr>webContexts := webContexts c + 1\<rparr>
      else if kind = Embed then c\<lparr>embeds := embeds c + 1\<rparr>
      else c\<lparr>identities := identities c + 1\<rparr>)"

definition census_of :: "origin_table \<Rightarrow> census" where
  "census_of t =
     foldl (\<lambda>c (i, r). count_one c (entry_kind (entry r)))
       \<lparr>sockets = 0, files = 0, identities = 0, webContexts = 0, embeds = 0\<rparr> (handles t)"

definition holds_message :: "int \<Rightarrow> str \<Rightarrow> str" where
  "holds_message n what = js ''origin holds '' @ to_string 10 (nat n) @ what"

definition assertCapacity :: "origin_table \<Rightarrow> handle_kind \<Rightarrow> int option \<Rightarrow> broker_error option" where
  "assertCapacity t kind socketLimit =
     (let counts = census_of t;
          limit = (case socketLimit of None \<Rightarrow> LIMIT_concurrentSockets | Some n \<Rightarrow> n);
          refuse = (\<lambda>n what. Some (fail_with E_limit (holds_message n what) None None)) in
      if kind \<in> set SOCKET_KINDS \<and> int (sockets counts) \<ge> limit then refuse limit (js '' sockets'')
      else if kind = FileHandle \<and> files counts \<ge> LIMIT_concurrentFileHandles
        then refuse (int LIMIT_concurrentFileHandles) (js '' file handles'')
      else if kind = IdentityHandle \<and> identities counts \<ge> MAX_IDENTITY_HANDLES
        then refuse (int MAX_IDENTITY_HANDLES) (js '' identity handles'')
      else if kind = WebContext \<and> webContexts counts \<ge> LIMIT_webContexts
        then refuse (int LIMIT_webContexts) (js '' web contexts'')
      else if kind = Embed \<and> embeds counts \<ge> LIMIT_embeds
        then refuse (int LIMIT_embeds) (js '' embedded pages'')
      else None)"

subsection \<open>Registering a handle\<close>

text \<open>The loop that draws an id until it is neither live nor remembered; \<open>draw n\<close> is the \<open>n\<close>-th one.\<close>

partial_function (option) fresh_id :: "(nat \<Rightarrow> str) \<Rightarrow> str list \<Rightarrow> nat \<Rightarrow> (str \<times> nat) option" where
  "fresh_id draw used n = (if draw n \<in> set used then fresh_id draw used (Suc n) else Some (draw n, Suc n))"

declare fresh_id.simps [code]

definition used_ids :: "origin_table \<Rightarrow> str list" where
  "used_ids t = map fst (handles t) @ map fst (recentlyClosed t)"

definition insert_handle ::
  "str \<Rightarrow> str \<Rightarrow> handle_kind \<Rightarrow> authorisation \<Rightarrow> str option \<Rightarrow> (str list \<Rightarrow> bool) option \<Rightarrow> origin_table \<Rightarrow>
     origin_table \<times> handle_entry" where
  "insert_handle i origin kind auth parent covered t =
     (let e = \<lparr>entry_id = i, entry_origin = origin, entry_kind = kind, authorisedBy = auth, parentId = parent\<rparr>;
          current = (case auth of ByGrant g \<Rightarrow> ByGrant (currentGrantFor t g) | UserSelected p \<Rightarrow> UserSelected p);
          r = \<lparr>entry = e, authorisation = current, stillCovered = covered, children = [], operations = [],
               unlink = None\<rparr>;
          t = t\<lparr>handles := AList.update i r (handles t)\<rparr> in
      ((case current of
          ByGrant g \<Rightarrow> t\<lparr>byGrant := file_under g i (byGrant t)\<rparr>
        | UserSelected p \<Rightarrow> t\<lparr>byPickedPath := file_under p i (byPickedPath t)\<rparr>), e))"

subsection \<open>Closing a handle and everything derived from it\<close>

text \<open>The first loop of \<open>closeTree\<close>; the stack grows at its head.\<close>

function doom ::
  "(str \<times> handle_record) list \<Rightarrow> handle_record list \<Rightarrow> handle_record list \<Rightarrow>
     (str \<times> handle_record) list \<times> handle_record list" where
  "doom hs [] doomed = (hs, doomed)"
| "doom hs (r # stack) doomed =
     (if map_of hs (entry_id (entry r)) = None then doom hs stack doomed
      else let hs = AList.delete (entry_id (entry r)) hs
           in doom hs (rev (List.map_filter (map_of hs) (children r)) @ stack) (doomed @ [r]))"
  by pat_completeness auto

lemma delete_shorter: "map_of hs k = Some y \<Longrightarrow> length (AList.delete k hs) < length hs"
  by (induction hs) (auto simp: le_imp_less_Suc length_delete_le)

termination doom
  by (relation "measures [\<lambda>(hs, stack, doomed). length hs, \<lambda>(hs, stack, doomed). length stack]")
    (auto dest: delete_shorter)

definition drop_child :: "str option \<Rightarrow> str \<Rightarrow> (str \<times> handle_record) list \<Rightarrow> (str \<times> handle_record) list" where
  "drop_child parent i hs =
     (case parent of
        None \<Rightarrow> hs
      | Some p \<Rightarrow>
          (case map_of hs p of
             None \<Rightarrow> hs
           | Some pr \<Rightarrow> AList.update p (pr\<lparr>children := removeAll i (children pr)\<rparr>) hs))"

definition close_error :: "close_reason \<Rightarrow> broker_error option \<Rightarrow> str \<Rightarrow> broker_error" where
  "close_error reason failure i =
     (case failure of
        Some e \<Rightarrow> e
      | None \<Rightarrow>
          if reason = Closed then fail_with E_closed (js ''the handle was closed'') (Some i) None
          else fail_with E_revoked (js ''the grant authorising this handle was withdrawn'') (Some i) None)"

text \<open>The body of the second loop.\<close>

definition unlink_one ::
  "callbacks \<Rightarrow> close_reason \<Rightarrow> broker_error option \<Rightarrow> handle_record \<Rightarrow> origin_table \<Rightarrow>
     origin_table \<times> handle_effect list" where
  "unlink_one cb reason failure r t =
     (let i = entry_id (entry r);
          t = (case authorisation r of
                 ByGrant g \<Rightarrow> t\<lparr>byGrant := unfile g i (byGrant t)\<rparr>
               | UserSelected p \<Rightarrow> t\<lparr>byPickedPath := unfile p i (byPickedPath t)\<rparr>);
          t = t\<lparr>handles := drop_child (parentId (entry r)) i (handles t)\<rparr>;
          closed = (if i \<in> set (map fst (recentlyClosed t)) then recentlyClosed t
                    else makeRoom (recentlyClosed t) CLOSED_ID_MEMORY);
          t = t\<lparr>recentlyClosed := AList.update i (endedAs reason) closed\<rparr>;
          e = close_error reason failure i
      in (t, map (\<lambda>op. Cancel op e) (operations r) @
             (if reason \<noteq> Closed then [RejectClosed i e] else []) @
             (case unlink r of
                None \<Rightarrow> []
              | Some listener \<Rightarrow>
                  Unlink listener reason (if reason = Closed then None else Some (err_code e)) #
                  (if unlink_throws cb listener then [Fault (Some i)] else []))))"

fun unlink_all ::
  "callbacks \<Rightarrow> close_reason \<Rightarrow> broker_error option \<Rightarrow> handle_record list \<Rightarrow> origin_table \<Rightarrow>
     origin_table \<times> handle_effect list" where
  "unlink_all cb reason failure [] t = (t, [])"
| "unlink_all cb reason failure (r # rs) t =
     (case unlink_one cb reason failure r t of (t, es) \<Rightarrow>
      case unlink_all cb reason failure rs t of (t, es') \<Rightarrow> (t, es @ es'))"

text \<open>Every destroy callback is started before any of them settles.\<close>

definition teardowns :: "callbacks \<Rightarrow> close_reason \<Rightarrow> handle_record list \<Rightarrow> handle_effect list" where
  "teardowns cb reason doomed =
     map (\<lambda>r. Destroy (entry_id (entry r)) reason) doomed @
     concat (map (\<lambda>r. let i = entry_id (entry r) in
       if destroy_fails cb i then
         Fault (Some i) #
         (if reason = Closed
          then [RejectClosed i (fail_with E_internal (js ''the handle could not be released cleanly'') (Some i) None)]
          else [])
       else if reason = Closed then [ResolveClosed i] else []) doomed)"

definition closeTree ::
  "callbacks \<Rightarrow> handle_record \<Rightarrow> close_reason \<Rightarrow> broker_error option \<Rightarrow> origin_table \<Rightarrow>
     origin_table \<times> handle_effect list" where
  "closeTree cb root reason failure t =
     (case doom (handles t) [root] [] of (hs, doomed) \<Rightarrow>
      case unlink_all cb reason failure doomed (t\<lparr>handles := hs\<rparr>) of (t, es) \<Rightarrow>
        (t, es @ teardowns cb reason doomed))"

subsection \<open>Counting\<close>

record origin_counts =
  n_sockets :: nat
  n_files :: nat
  n_identities :: nat
  n_handles :: nat
  n_inFlight :: int
  n_grants :: nat
  n_revokedGrants :: nat

definition counts_in :: "origin_table \<Rightarrow> origin_counts" where
  "counts_in t =
     (let live = census_of t in
      \<lparr>n_sockets = sockets live, n_files = files live, n_identities = identities live,
       n_handles = length (handles t), n_inFlight = inFlight t, n_grants = length (byGrant t),
       n_revokedGrants = length (revokedGrants t)\<rparr>)"

subsection \<open>in-flight.ts\<close>

definition IN_FLIGHT_QUEUE_LIMIT :: nat where
  "IN_FLIGHT_QUEUE_LIMIT = LIMIT_inFlightOperations"

definition queueFull :: "origin_table \<Rightarrow> bool" where
  "queueFull t \<longleftrightarrow> inFlight t \<ge> int LIMIT_inFlightOperations \<and> length (slotWaiters t) \<ge> IN_FLIGHT_QUEUE_LIMIT"

definition unqueue :: "nat \<Rightarrow> origin_table \<Rightarrow> origin_table" where
  "unqueue op t = t\<lparr>slotWaiters := remove1 op (slotWaiters t)\<rparr>"

definition tryTakeSlot :: "origin_table \<Rightarrow> origin_table \<times> bool" where
  "tryTakeSlot t =
     (if inFlight t \<ge> int LIMIT_inFlightOperations \<or> length (slotWaiters t) > 0 then (t, False)
      else (t\<lparr>inFlight := inFlight t + 1\<rparr>, True))"

text \<open>Joining the queue: the part of \<open>waitForSlot\<close> before its first \<open>await\<close>.\<close>

definition waitForSlot :: "nat \<Rightarrow> origin_table \<Rightarrow> broker_error + origin_table" where
  "waitForSlot op t =
     (if queueFull t
      then Inl (fail_with E_limit (js ''origin has '' @ to_string 10 LIMIT_inFlightOperations @
                  js '' operations in flight and as many waiting'') None None)
      else Inr (t\<lparr>slotWaiters := slotWaiters t @ [op]\<rparr>))"

text \<open>The slot goes to the oldest waiter, whose name is the second result, or is freed.\<close>

definition releaseSlot :: "origin_table \<Rightarrow> origin_table \<times> nat option" where
  "releaseSlot t =
     (case slotWaiters t of
        [] \<Rightarrow> (t\<lparr>inFlight := inFlight t - 1\<rparr>, None)
      | op # rest \<Rightarrow> (t\<lparr>slotWaiters := rest\<rparr>, Some op))"

subsection \<open>grant-replacement.ts\<close>

definition refile :: "str \<Rightarrow> handle_record \<Rightarrow> origin_table \<Rightarrow> origin_table" where
  "refile g r t =
     (case authorisation r of
        UserSelected _ \<Rightarrow> t
      | ByGrant previous \<Rightarrow>
          let i = entry_id (entry r) in
          t\<lparr>byGrant := file_under g i (unfile previous i (byGrant t)),
            handles := AList.update i (r\<lparr>authorisation := ByGrant g\<rparr>) (handles t)\<rparr>)"

definition still_covered :: "origin_table \<Rightarrow> handle_record \<Rightarrow> str list \<Rightarrow> bool \<Rightarrow> bool" where
  "still_covered t r ps coversAll =
     (let judge = (case Option.bind (parentId (entry r)) (map_of (handles t)) of None \<Rightarrow> r | Some p \<Rightarrow> p)
      in case stillCovered judge of None \<Rightarrow> coversAll | Some f \<Rightarrow> f ps)"

definition aliasesOf :: "origin_table \<Rightarrow> str \<Rightarrow> str list" where
  "aliasesOf t g = map fst (filter (\<lambda>(a, target). target = g) (grantAliases t))"

fun replace_each ::
  "callbacks \<Rightarrow> str \<Rightarrow> str list \<Rightarrow> bool \<Rightarrow> str list \<Rightarrow> origin_table \<Rightarrow> origin_table \<times> handle_effect list" where
  "replace_each cb replacement ps coversAll [] t = (t, [])"
| "replace_each cb replacement ps coversAll (i # ids) t =
     (case (case map_of (handles t) i of
              None \<Rightarrow> (t, [])
            | Some r \<Rightarrow>
                if still_covered t r ps coversAll then (refile replacement r t, [])
                else closeTree cb r Revoked None t) of (t, es) \<Rightarrow>
      case replace_each cb replacement ps coversAll ids t of (t, es') \<Rightarrow> (t, es @ es'))"

definition replaceGrantIn ::
  "callbacks \<Rightarrow> str \<Rightarrow> str \<Rightarrow> str list \<Rightarrow> bool \<Rightarrow> origin_table \<Rightarrow> origin_table \<times> handle_effect list" where
  "replaceGrantIn cb replaced replacement ps coversAll t =
     (case replace_each cb replacement ps coversAll
             (case map_of (byGrant t) replaced of None \<Rightarrow> [] | Some ids \<Rightarrow> ids) t of (t, es) \<Rightarrow>
      if coversAll then
        (t\<lparr>grantAliases := AList.update replaced replacement
             (map (\<lambda>(a, target). (a, if target = replaced then replacement else target)) (grantAliases t))\<rparr>, es)
      else
        let pending = (case map_of (grantOperations t) replaced of None \<Rightarrow> [] | Some ops \<Rightarrow> ops);
            e = fail_with E_revoked (js ''the grant authorising this operation was replaced'') None None in
        (t\<lparr>revokedGrants := remember (revokedGrants t) replaced REVOKED_GRANT_MEMORY,
           grantOperations := AList.delete replaced (grantOperations t)\<rparr>,
         es @ map (\<lambda>op. Cancel op e) pending))"

end
