(* ===== verification/HandleTree.thy ===== *)
theory HandleTree imports HandleStore begin

section \<open>Closing exactly one tree\<close>

text \<open>
  What \<open>closeTree\<close> does to a table, stated without its worklist: the handles that go are those
  reachable from the root through children, each once; the grant and pick indexes lose exactly
  those; and the invariant of a table (\<open>table_ok\<close>) is kept.
\<close>

subsection \<open>Indexes\<close>

definition filed :: "('k \<times> 'a list) list \<Rightarrow> 'k \<Rightarrow> 'a list" where
  "filed index k = (case map_of index k of None \<Rightarrow> [] | Some s \<Rightarrow> s)"

definition index_ok :: "('k \<times> 'a list) list \<Rightarrow> bool" where
  "index_ok index \<longleftrightarrow> distinct (map fst index) \<and> (\<forall>k s. map_of index k = Some s \<longrightarrow> s \<noteq> [] \<and> distinct s)"

lemma set_add_to [simp]: "set (add_to x s) = insert x (set s)"
  by (auto simp: add_to_def)

lemma add_to_props [simp]: "add_to x s \<noteq> []" "distinct s \<Longrightarrow> distinct (add_to x s)"
  by (auto simp: add_to_def)

lemma filed_file_under:
  "filed (file_under k x index) k' = (if k' = k then add_to x (filed index k) else filed index k')"
  by (simp add: filed_def file_under_def update_conv')

lemma filed_unfile:
  "filed (unfile k x index) k' = (if k' = k then removeAll x (filed index k) else filed index k')"
  by (auto simp: filed_def unfile_def Let_def update_conv' delete_conv' split: option.splits)

lemma index_ok_Nil [simp]: "index_ok []"
  by (simp add: index_ok_def)

lemma index_ok_file_under [simp]: "index_ok index \<Longrightarrow> index_ok (file_under k x index)"
  by (auto simp: index_ok_def file_under_def update_conv' distinct_update split: option.splits if_splits)

lemma index_ok_unfile [simp]: "index_ok index \<Longrightarrow> index_ok (unfile k x index)"
  unfolding index_ok_def unfile_def Let_def
  by (auto simp: update_conv' delete_conv' distinct_update distinct_delete distinct_removeAll
      simp del: map_of_eq_Some_iff split: option.splits if_splits)

lemma index_ok_filed: "index_ok index \<Longrightarrow> distinct (filed index k)"
  by (auto simp: index_ok_def filed_def split: option.split)

lemma index_ok_dom: "index_ok index \<Longrightarrow> k \<in> set (map fst index) \<longleftrightarrow> filed index k \<noteq> []"
  by (auto simp: index_ok_def filed_def image_iff split: option.split dest: map_of_SomeD)
    (metis map_of_eq_None_iff fst_conv image_eqI)

subsection \<open>Reachability\<close>

definition child_edges :: "(str \<times> handle_record) list \<Rightarrow> (str \<times> str) set" where
  "child_edges hs = {(p, c). \<exists>r. map_of hs p = Some r \<and> c \<in> set (children r) \<and> map_of hs c \<noteq> None}"

definition reach :: "(str \<times> handle_record) list \<Rightarrow> str set \<Rightarrow> str set" where
  "reach hs roots = {i. \<exists>a\<in>roots. map_of hs a \<noteq> None \<and> (a, i) \<in> (child_edges hs)\<^sup>*}"

lemma rtrancl_avoid:
  assumes "(a, j) \<in> E\<^sup>*" and "j \<noteq> x"
  shows "(a, j) \<in> {(p, c). (p, c) \<in> E \<and> p \<noteq> x \<and> c \<noteq> x}\<^sup>* \<or>
    (\<exists>c. (x, c) \<in> E \<and> c \<noteq> x \<and> (c, j) \<in> {(p, c). (p, c) \<in> E \<and> p \<noteq> x \<and> c \<noteq> x}\<^sup>*)"
  using assms
proof (induction rule: rtrancl_induct)
  case (step y z)
  let ?E = "{(p, c). (p, c) \<in> E \<and> p \<noteq> x \<and> c \<noteq> x}"
  show ?case
  proof (cases "y = x")
    case True then show ?thesis using step by blast
  next
    case False
    then have "(y, z) \<in> ?E" using step by simp
    then show ?thesis using step.IH [OF False] by (meson rtrancl.rtrancl_into_rtrancl)
  qed
qed simp

lemma reach_live: "i \<in> reach hs roots \<Longrightarrow> map_of hs i \<noteq> None"
proof -
  assume "i \<in> reach hs roots"
  then obtain a where "map_of hs a \<noteq> None" "(a, i) \<in> (child_edges hs)\<^sup>*" by (auto simp: reach_def)
  from this(2,1) show ?thesis by (cases rule: rtranclE) (auto simp: child_edges_def)
qed

lemma child_edges_delete:
  "child_edges (AList.delete x hs) = {(p, c). (p, c) \<in> child_edges hs \<and> p \<noteq> x \<and> c \<noteq> x}"
  by (auto simp: child_edges_def delete_conv' split: if_splits)

lemma reach_step:
  assumes x: "map_of hs x = Some r"
  shows "reach hs (insert x roots) =
    insert x (reach (AList.delete x hs) (set (children r) \<union> roots))"
proof (intro set_eqI iffI)
  let ?hs = "AList.delete x hs"
  fix j
  assume "j \<in> reach hs (insert x roots)"
  then obtain a where a: "a \<in> insert x roots" "map_of hs a \<noteq> None" "(a, j) \<in> (child_edges hs)\<^sup>*"
    by (auto simp: reach_def)
  show "j \<in> insert x (reach ?hs (set (children r) \<union> roots))"
  proof (cases "j = x")
    case False
    from rtrancl_avoid [OF a(3) False] show ?thesis
    proof (elim disjE exE conjE)
      assume p: "(a, j) \<in> {(p, c). (p, c) \<in> child_edges hs \<and> p \<noteq> x \<and> c \<noteq> x}\<^sup>*"
      have "a \<noteq> x"
      proof
        assume "a = x"
        with p False show False by (cases rule: converse_rtranclE) auto
      qed
      then show ?thesis using a p by (auto simp: reach_def child_edges_delete delete_conv')
    next
      fix c
      assume c: "(x, c) \<in> child_edges hs" "c \<noteq> x"
        "(c, j) \<in> {(p, c). (p, c) \<in> child_edges hs \<and> p \<noteq> x \<and> c \<noteq> x}\<^sup>*"
      then have "c \<in> set (children r)" "map_of hs c \<noteq> None" using x by (auto simp: child_edges_def)
      then show ?thesis using c by (auto simp: reach_def child_edges_delete delete_conv')
    qed
  qed simp
next
  let ?hs = "AList.delete x hs"
  have sub: "child_edges ?hs \<subseteq> child_edges hs" by (auto simp: child_edges_delete)
  fix j
  assume "j \<in> insert x (reach ?hs (set (children r) \<union> roots))"
  then consider "j = x" | a where "a \<in> set (children r) \<union> roots" "map_of ?hs a \<noteq> None" "(a, j) \<in> (child_edges ?hs)\<^sup>*"
    by (auto simp: reach_def)
  then show "j \<in> reach hs (insert x roots)"
  proof cases
    case 1 then show ?thesis using x by (auto simp: reach_def)
  next
    case 2
    then have aj: "(a, j) \<in> (child_edges hs)\<^sup>*" using rtrancl_mono [OF sub] by blast
    have live: "map_of hs a \<noteq> None" using 2(2) by (auto simp: delete_conv' split: if_splits)
    show ?thesis
    proof (cases "a \<in> roots")
      case True then show ?thesis using aj live by (auto simp: reach_def)
    next
      case False
      then have "(x, a) \<in> child_edges hs" using 2(1) x live by (auto simp: child_edges_def)
      then show ?thesis using aj x by (auto simp: reach_def intro: converse_rtrancl_into_rtrancl)
    qed
  qed
qed

lemma reach_dead: "map_of hs x = None \<Longrightarrow> reach hs (insert x roots) = reach hs roots"
  by (auto simp: reach_def)

lemma reach_empty [simp]: "reach hs {} = {}"
  by (simp add: reach_def)

subsection \<open>The worklist takes exactly what is reachable\<close>

definition ids_of :: "handle_record list \<Rightarrow> str list" where
  "ids_of rs = map (\<lambda>r. entry_id (entry r)) rs"

definition keyed :: "(str \<times> handle_record) list \<Rightarrow> bool" where
  "keyed hs \<longleftrightarrow> (\<forall>i r. map_of hs i = Some r \<longrightarrow> entry_id (entry r) = i)"

definition current :: "(str \<times> handle_record) list \<Rightarrow> handle_record list \<Rightarrow> bool" where
  "current hs rs \<longleftrightarrow> (\<forall>r\<in>set rs. map_of hs (entry_id (entry r)) \<in> {None, Some r})"

lemma keyed_delete: "keyed hs \<Longrightarrow> keyed (AList.delete x hs)"
  by (auto simp: keyed_def delete_conv' split: if_splits)

lemma children_pushed:
  assumes "keyed hs"
  shows "set (ids_of (List.map_filter (map_of hs) cs)) = {c \<in> set cs. map_of hs c \<noteq> None}"
    and "current hs (List.map_filter (map_of hs) cs)"
  using assms by (force simp: ids_of_def keyed_def current_def map_filter_def)+

lemma current_delete: "current hs rs \<Longrightarrow> current (AList.delete x hs) rs"
  by (auto simp: current_def delete_conv')

lemma current_append: "current hs (rs @ rs') \<longleftrightarrow> current hs rs \<and> current hs rs'"
  by (auto simp: current_def)

lemma current_rev: "current hs (rev rs) \<longleftrightarrow> current hs rs"
  by (simp add: current_def)

lemma reach_only_live: "reach hs ({c \<in> A. map_of hs c \<noteq> None} \<union> B) = reach hs (A \<union> B)"
  by (auto simp: reach_def)

definition dooms :: "(str \<times> handle_record) list \<Rightarrow> str set \<Rightarrow> handle_record list \<Rightarrow>
    (str \<times> handle_record) list \<Rightarrow> handle_record list \<Rightarrow> bool" where
  "dooms hs roots doomed hs' doomed' \<longleftrightarrow>
     (\<forall>i. map_of hs' i = (if i \<in> reach hs roots then None else map_of hs i)) \<and>
     (\<exists>new. doomed' = doomed @ new \<and> set (ids_of new) = reach hs roots \<and> distinct (ids_of new) \<and>
        (\<forall>r\<in>set new. map_of hs (entry_id (entry r)) = Some r)) \<and>
     (distinct (map fst hs) \<longrightarrow> distinct (map fst hs'))"

lemma dooms_step:
  assumes x: "map_of hs (entry_id (entry r)) = Some r"
    and d: "dooms (AList.delete (entry_id (entry r)) hs) (set (children r) \<union> roots) (doomed @ [r]) hs' doomed'"
  shows "dooms hs (insert (entry_id (entry r)) roots) doomed hs' doomed'"
proof -
  let ?x = "entry_id (entry r)"
  note R = reach_step [OF x, of roots]
  have dead: "?x \<notin> reach (AList.delete ?x hs) A" for A
    using reach_live [of ?x "AList.delete ?x hs" A] by (auto simp: delete_conv')
  obtain new where new: "doomed' = doomed @ [r] @ new"
    "set (ids_of new) = reach (AList.delete ?x hs) (set (children r) \<union> roots)" "distinct (ids_of new)"
    "\<forall>s\<in>set new. map_of (AList.delete ?x hs) (entry_id (entry s)) = Some s"
    using d by (auto simp: dooms_def)
  have "doomed' = doomed @ (r # new) \<and> set (ids_of (r # new)) = reach hs (insert ?x roots) \<and>
      distinct (ids_of (r # new)) \<and> (\<forall>s\<in>set (r # new). map_of hs (entry_id (entry s)) = Some s)"
    using new dead x R by (auto simp: ids_of_def delete_conv' split: if_splits)
  then show ?thesis
    using d R unfolding dooms_def by (auto simp: delete_conv' distinct_delete)
qed

lemma doom_reach:
  "doom hs stack doomed = (hs', doomed') \<Longrightarrow> keyed hs \<Longrightarrow> current hs stack \<Longrightarrow>
   dooms hs (set (ids_of stack)) doomed hs' doomed'"
proof (induction hs stack doomed rule: doom.induct)
  case (1 hs doomed)
  then show ?case by (simp add: dooms_def ids_of_def)
next
  case (2 hs r stack doomed)
  let ?x = "entry_id (entry r)"
  have c: "current hs stack" "map_of hs ?x \<in> {None, Some r}" using "2.prems"(3) by (auto simp: current_def)
  have ids: "set (ids_of (r # stack)) = insert ?x (set (ids_of stack))" by (simp add: ids_of_def)
  show ?case
  proof (cases "map_of hs ?x")
    case None
    then have "dooms hs (set (ids_of stack)) doomed hs' doomed'"
      using "2.IH"(1) "2.prems" c by simp
    then show ?thesis unfolding ids by (simp add: dooms_def reach_dead [OF None])
  next
    case (Some s)
    then have x: "map_of hs ?x = Some r" using c by auto
    let ?hs = "AList.delete ?x hs"
    let ?pushed = "rev (List.map_filter (map_of ?hs) (children r))"
    have k: "keyed ?hs" by (rule keyed_delete [OF "2.prems"(2)])
    have cur: "current ?hs (?pushed @ stack)"
      using current_delete [OF c(1)] children_pushed(2) [OF k] by (simp add: current_append current_rev)
    have "dooms ?hs (set (ids_of (?pushed @ stack))) (doomed @ [r]) hs' doomed'"
      using "2.IH"(2) x "2.prems"(1) k cur by (simp add: Let_def)
    moreover have "set (ids_of (?pushed @ stack)) = {c \<in> set (children r). map_of ?hs c \<noteq> None} \<union> set (ids_of stack)"
      using children_pushed(1) [OF k, of "children r"] by (simp add: ids_of_def)
    then have "reach ?hs (set (ids_of (?pushed @ stack))) = reach ?hs (set (children r) \<union> set (ids_of stack))"
      by (simp only: reach_only_live)
    ultimately have "dooms ?hs (set (children r) \<union> set (ids_of stack)) (doomed @ [r]) hs' doomed'"
      by (simp only: dooms_def) blast
    then show ?thesis unfolding ids by (rule dooms_step [OF x])
  qed
qed

subsection \<open>The invariant of a table\<close>

definition tree_ok :: "(str \<times> handle_record) list \<Rightarrow> bool" where
  "tree_ok hs \<longleftrightarrow>
     (\<forall>p r c. map_of hs p = Some r \<longrightarrow> c \<in> set (children r) \<longrightarrow>
        (\<exists>cr. map_of hs c = Some cr \<and> parentId (entry cr) = Some p)) \<and>
     (\<forall>c cr p. map_of hs c = Some cr \<longrightarrow> parentId (entry cr) = Some p \<longrightarrow>
        (\<exists>r. map_of hs p = Some r \<and> c \<in> set (children r)))"

definition memory_ok :: "origin_table \<Rightarrow> bool" where
  "memory_ok t \<longleftrightarrow> distinct (map fst (recentlyClosed t)) \<and> length (recentlyClosed t) \<le> CLOSED_ID_MEMORY \<and>
     (\<forall>i. map_of (handles t) i \<noteq> None \<longrightarrow> i \<notin> set (map fst (recentlyClosed t))) \<and>
     distinct (revokedGrants t) \<and> length (revokedGrants t) \<le> REVOKED_GRANT_MEMORY"

definition table_ok :: "origin_table \<Rightarrow> bool" where
  "table_ok t \<longleftrightarrow> distinct (map fst (handles t)) \<and> keyed (handles t) \<and> tree_ok (handles t) \<and>
     index_ok (byGrant t) \<and> index_ok (byPickedPath t) \<and>
     (\<forall>g i. i \<in> set (filed (byGrant t) g) \<longleftrightarrow>
        (\<exists>r. map_of (handles t) i = Some r \<and> authorisation r = ByGrant g)) \<and>
     (\<forall>p i. i \<in> set (filed (byPickedPath t) p) \<longleftrightarrow>
        (\<exists>r. map_of (handles t) i = Some r \<and> authorisation r = UserSelected p)) \<and>
     memory_ok t"

subsection \<open>Unlinking the doomed\<close>

lemma unlink_one_fields [simp]:
  assumes "unlink_one cb reason failure r t = (t', es)"
  shows "grantOperations t' = grantOperations t" "revokedGrants t' = revokedGrants t"
    "grantAliases t' = grantAliases t" "dropping t' = dropping t" "inFlight t' = inFlight t"
    "slotWaiters t' = slotWaiters t"
  using assms by (auto simp: unlink_one_def Let_def split: authorisation.splits)

lemma unlink_one_index:
  assumes "unlink_one cb reason failure r t = (t', es)"
  shows "index_ok (byGrant t) \<Longrightarrow> index_ok (byGrant t')"
    and "index_ok (byPickedPath t) \<Longrightarrow> index_ok (byPickedPath t')"
    and "filed (byGrant t') g =
      (if authorisation r = ByGrant g then removeAll (entry_id (entry r)) (filed (byGrant t) g) else filed (byGrant t) g)"
    and "filed (byPickedPath t') p =
      (if authorisation r = UserSelected p then removeAll (entry_id (entry r)) (filed (byPickedPath t) p)
       else filed (byPickedPath t) p)"
  using assms by (auto simp: unlink_one_def Let_def filed_unfile split: authorisation.splits)

lemma drop_child_map:
  "map_of (drop_child parent i hs) x =
     map_option (\<lambda>r. if parent = Some x then r\<lparr>children := removeAll i (children r)\<rparr> else r) (map_of hs x)"
  by (cases "map_of hs x") (auto simp: drop_child_def update_conv' split: option.splits)

lemma drop_child_distinct [simp]:
  "distinct (map fst hs) \<Longrightarrow> distinct (map fst (drop_child parent i hs))"
  by (auto simp: drop_child_def distinct_update split: option.splits)

lemma unlink_one_handles:
  assumes "unlink_one cb reason failure r t = (t', es)"
  shows "handles t' = drop_child (parentId (entry r)) (entry_id (entry r)) (handles t)"
  using assms by (auto simp: unlink_one_def Let_def split: authorisation.splits)

lemma makeRoom_props:
  "length (makeRoom m b) \<le> length m" "0 < b \<Longrightarrow> length m \<le> b \<Longrightarrow> length (makeRoom m b) < b"
  "distinct m \<Longrightarrow> distinct (makeRoom m b)" "set (makeRoom m b) \<subseteq> set m"
  "map f (makeRoom m b) = makeRoom (map f m) b"
  by (auto simp: makeRoom_def drop_map distinct_drop dest: in_set_dropD)

lemma length_update_new: "k \<notin> set (map fst m) \<Longrightarrow> length (AList.update k v m) = Suc (length m)"
  by (induction m) auto

lemma length_update_old: "k \<in> set (map fst m) \<Longrightarrow> length (AList.update k v m) = length m"
  by (induction m) auto

lemma unlink_one_memory:
  assumes "unlink_one cb reason failure r t = (t', es)"
    and "distinct (map fst (recentlyClosed t))" and "length (recentlyClosed t) \<le> CLOSED_ID_MEMORY"
  shows "distinct (map fst (recentlyClosed t'))" and "length (recentlyClosed t') \<le> CLOSED_ID_MEMORY"
    and "set (map fst (recentlyClosed t')) \<subseteq> insert (entry_id (entry r)) (set (map fst (recentlyClosed t)))"
    and "map_of (recentlyClosed t') (entry_id (entry r)) = Some (endedAs reason)"
proof -
  let ?i = "entry_id (entry r)"
  let ?m = "if ?i \<in> set (map fst (recentlyClosed t)) then recentlyClosed t
            else makeRoom (recentlyClosed t) CLOSED_ID_MEMORY"
  have r: "recentlyClosed t' = AList.update ?i (endedAs reason) ?m"
    using assms(1)
    by (cases "authorisation r"; cases "?i \<in> fst ` set (recentlyClosed t)") (auto simp: unlink_one_def Let_def)
  have pos: "0 < CLOSED_ID_MEMORY" by (simp add: CLOSED_ID_MEMORY_def LIMIT_concurrentFileHandles_def)
  have sub: "set (map fst ?m) \<subseteq> set (map fst (recentlyClosed t))"
    using image_mono [OF makeRoom_props(4) [of "recentlyClosed t" CLOSED_ID_MEMORY], of fst] by simp
  have d: "distinct (map fst ?m)" using assms(2) by (simp add: makeRoom_props(3,5))
  show "distinct (map fst (recentlyClosed t'))" using d by (simp add: r distinct_update)
  show "set (map fst (recentlyClosed t')) \<subseteq> insert ?i (set (map fst (recentlyClosed t)))"
    using sub unfolding r set_map dom_update by blast
  show "map_of (recentlyClosed t') ?i = Some (endedAs reason)" by (simp add: r update_conv')
  show "length (recentlyClosed t') \<le> CLOSED_ID_MEMORY"
  proof (cases "?i \<in> set (map fst (recentlyClosed t))")
    case True then show ?thesis using assms(3) by (simp add: r length_update_old)
  next
    case False
    then have "?i \<notin> set (map fst (makeRoom (recentlyClosed t) CLOSED_ID_MEMORY))" using sub by auto
    then show ?thesis
      using False makeRoom_props(2) [OF pos assms(3)] by (simp add: r length_update_new)
  qed
qed

lemma removeAll_filter: "removeAll x (filter P xs) = filter (\<lambda>y. P y \<and> y \<noteq> x) xs"
  by (induction xs) auto

text \<open>The doomed as a group: what \<open>unlink_all\<close> leaves of the table.\<close>

definition unlinked :: "handle_record list \<Rightarrow> origin_table \<Rightarrow> origin_table \<Rightarrow> bool" where
  "unlinked rs t t' \<longleftrightarrow>
     (grantOperations t' = grantOperations t \<and> revokedGrants t' = revokedGrants t \<and>
      grantAliases t' = grantAliases t \<and> dropping t' = dropping t \<and> inFlight t' = inFlight t \<and>
      slotWaiters t' = slotWaiters t) \<and>
     (index_ok (byGrant t) \<longrightarrow> index_ok (byGrant t')) \<and> (index_ok (byPickedPath t) \<longrightarrow> index_ok (byPickedPath t')) \<and>
     (\<forall>g. set (filed (byGrant t') g) =
        {i \<in> set (filed (byGrant t) g). \<not> (\<exists>r\<in>set rs. entry_id (entry r) = i \<and> authorisation r = ByGrant g)}) \<and>
     (\<forall>p. set (filed (byPickedPath t') p) =
        {i \<in> set (filed (byPickedPath t) p). \<not> (\<exists>r\<in>set rs. entry_id (entry r) = i \<and> authorisation r = UserSelected p)}) \<and>
     (\<forall>x. map_of (handles t') x = map_option (\<lambda>r. r\<lparr>children := filter (\<lambda>c. \<not> (\<exists>d\<in>set rs. entry_id (entry d) = c \<and>
        parentId (entry d) = Some x)) (children r)\<rparr>) (map_of (handles t) x)) \<and>
     (distinct (map fst (handles t)) \<longrightarrow> distinct (map fst (handles t'))) \<and>
     (distinct (map fst (recentlyClosed t)) \<and> length (recentlyClosed t) \<le> CLOSED_ID_MEMORY \<longrightarrow>
      distinct (map fst (recentlyClosed t')) \<and> length (recentlyClosed t') \<le> CLOSED_ID_MEMORY \<and>
      set (map fst (recentlyClosed t')) \<subseteq> set (ids_of rs) \<union> set (map fst (recentlyClosed t)))"

lemma unlinked_Nil: "unlinked [] t t"
  by (simp add: unlinked_def ids_of_def option.map_ident)

lemma unlinked_Cons:
  assumes u1: "unlink_one cb reason failure r t = (t1, es)" and u: "unlinked rs t1 t'"
  shows "unlinked (r # rs) t t'"
proof -
  note i = unlink_one_index [OF u1] and h = unlink_one_handles [OF u1] and m = unlink_one_memory [OF u1]
  have old: "map_of (handles t') x = map_option (\<lambda>s. s\<lparr>children := filter (\<lambda>c. \<not> (\<exists>d\<in>set rs.
      entry_id (entry d) = c \<and> parentId (entry d) = Some x)) (children s)\<rparr>) (map_of (handles t1) x)" for x
    using u by (simp add: unlinked_def)
  have hs: "map_of (handles t') x = map_option (\<lambda>s. s\<lparr>children := filter (\<lambda>c. \<not> (\<exists>d\<in>set (r # rs).
      entry_id (entry d) = c \<and> parentId (entry d) = Some x)) (children s)\<rparr>) (map_of (handles t) x)" for x
  proof (cases "map_of (handles t) x")
    case None
    then show ?thesis by (simp add: old h drop_child_map)
  next
    case (Some s)
    let ?P = "\<lambda>c. \<exists>d\<in>set rs. entry_id (entry d) = c \<and> parentId (entry d) = Some x"
    have "filter (\<lambda>c. \<not> ?P c) (if parentId (entry r) = Some x then removeAll (entry_id (entry r)) (children s)
        else children s) =
      filter (\<lambda>c. \<not> (\<exists>d\<in>set (r # rs). entry_id (entry d) = c \<and> parentId (entry d) = Some x)) (children s)"
      by (auto simp: removeAll_filter_not_eq intro: filter_cong)
    then show ?thesis
      by (cases "parentId (entry r) = Some x") (simp_all add: old h drop_child_map Some)
  qed
  have g: "set (filed (byGrant t') g) = {x \<in> set (filed (byGrant t) g).
      \<not> (\<exists>d\<in>set (r # rs). entry_id (entry d) = x \<and> authorisation d = ByGrant g)}" for g
    using u by (auto simp: unlinked_def i(3))
  have p: "set (filed (byPickedPath t') p) = {x \<in> set (filed (byPickedPath t) p).
      \<not> (\<exists>d\<in>set (r # rs). entry_id (entry d) = x \<and> authorisation d = UserSelected p)}" for p
    using u by (auto simp: unlinked_def i(4))
  have f: "grantOperations t' = grantOperations t \<and> revokedGrants t' = revokedGrants t \<and>
      grantAliases t' = grantAliases t \<and> dropping t' = dropping t \<and> inFlight t' = inFlight t \<and>
      slotWaiters t' = slotWaiters t"
    using u unlink_one_fields [OF u1] by (simp add: unlinked_def)
  have ix: "(index_ok (byGrant t) \<longrightarrow> index_ok (byGrant t')) \<and>
      (index_ok (byPickedPath t) \<longrightarrow> index_ok (byPickedPath t'))"
    using u i(1,2) by (simp add: unlinked_def)
  have d: "distinct (map fst (handles t)) \<longrightarrow> distinct (map fst (handles t'))"
    using u h by (simp add: unlinked_def)
  have mem: "distinct (map fst (recentlyClosed t')) \<and> length (recentlyClosed t') \<le> CLOSED_ID_MEMORY \<and>
      set (map fst (recentlyClosed t')) \<subseteq> set (ids_of (r # rs)) \<union> set (map fst (recentlyClosed t))"
    if rc: "distinct (map fst (recentlyClosed t)) \<and> length (recentlyClosed t) \<le> CLOSED_ID_MEMORY"
  proof -
    have ids: "set (ids_of (r # rs)) = insert (entry_id (entry r)) (set (ids_of rs))" by (simp add: ids_of_def)
    have "distinct (map fst (recentlyClosed t1)) \<and> length (recentlyClosed t1) \<le> CLOSED_ID_MEMORY"
      using m(1,2) rc by blast
    then have "distinct (map fst (recentlyClosed t')) \<and> length (recentlyClosed t') \<le> CLOSED_ID_MEMORY \<and>
        set (map fst (recentlyClosed t')) \<subseteq> set (ids_of rs) \<union> set (map fst (recentlyClosed t1))"
      using u by (simp add: unlinked_def)
    then show ?thesis using m(3) rc unfolding ids by blast
  qed
  show ?thesis
    unfolding unlinked_def
    by (intro conjI allI impI) (use f ix g p hs d mem in \<open>simp_all\<close>)
qed

lemma unlink_all_unlinked: "unlink_all cb reason failure rs t = (t', es) \<Longrightarrow> unlinked rs t t'"
proof (induction rs arbitrary: t es)
  case (Cons r rs)
  obtain t1 e1 where "unlink_one cb reason failure r t = (t1, e1)" by fastforce
  with Cons show ?case by (auto intro: unlinked_Cons split: prod.splits)
qed (simp add: unlinked_Nil)

subsection \<open>The whole of closeTree\<close>

lemma reach_closed:
  "p \<in> reach hs roots \<Longrightarrow> map_of hs p = Some r \<Longrightarrow> c \<in> set (children r) \<Longrightarrow> map_of hs c \<noteq> None \<Longrightarrow>
   c \<in> reach hs roots"
  unfolding reach_def child_edges_def by (auto intro: rtrancl_into_rtrancl)

lemma reach_root: "map_of hs x \<noteq> None \<Longrightarrow> x \<in> roots \<Longrightarrow> x \<in> reach hs roots"
  by (auto simp: reach_def)

definition destroyed :: "handle_effect list \<Rightarrow> str list" where
  "destroyed es = List.map_filter (\<lambda>e. case e of Destroy i _ \<Rightarrow> Some i | _ \<Rightarrow> None) es"

lemma destroyed_append [simp]: "destroyed (es @ es') = destroyed es @ destroyed es'"
  by (simp add: destroyed_def map_filter_def)

lemma destroyed_none: "\<forall>e\<in>set es. \<forall>i reason. e \<noteq> Destroy i reason \<Longrightarrow> destroyed es = []"
  by (induction es) (auto simp: destroyed_def map_filter_simps split: handle_effect.splits)

lemma destroyed_teardowns: "destroyed (teardowns cb reason doomed) = ids_of doomed"
proof -
  have "destroyed (map (\<lambda>r. Destroy (entry_id (entry r)) reason) rs) = ids_of rs" for rs
    by (induction rs) (simp_all add: destroyed_def ids_of_def map_filter_simps)
  then show ?thesis
    unfolding teardowns_def destroyed_append
    by (subst (2) destroyed_none) (auto simp: Let_def split: if_splits)
qed

lemma destroyed_unlink: "unlink_all cb reason failure rs t = (t', es) \<Longrightarrow> destroyed es = []"
proof (induction rs arbitrary: t es)
  case Nil then show ?case by (simp add: destroyed_def map_filter_simps)
next
  case (Cons r rs)
  obtain t1 e1 where u: "unlink_one cb reason failure r t = (t1, e1)" by fastforce
  have "destroyed e1 = []"
    by (rule destroyed_none) (use u in \<open>auto simp: unlink_one_def Let_def split: option.splits if_splits\<close>)
  then show ?case using Cons u by (auto split: prod.splits)
qed

lemma closeTree_parts:
  assumes "keyed (handles t)" and "map_of (handles t) x = Some root"
    and "closeTree cb root reason failure t = (t', es)"
  obtains hs doomed where "\<forall>i. map_of hs i = (if i \<in> reach (handles t) {x} then None else map_of (handles t) i)"
    and "set (ids_of doomed) = reach (handles t) {x}" and "distinct (ids_of doomed)"
    and "\<forall>r\<in>set doomed. map_of (handles t) (entry_id (entry r)) = Some r"
    and "distinct (map fst (handles t)) \<longrightarrow> distinct (map fst hs)"
    and "unlinked doomed (t\<lparr>handles := hs\<rparr>) t'" and "destroyed es = ids_of doomed"
proof -
  obtain hs doomed where d: "doom (handles t) [root] [] = (hs, doomed)" by fastforce
  obtain t1 e1 where u: "unlink_all cb reason failure doomed (t\<lparr>handles := hs\<rparr>) = (t1, e1)" by fastforce
  have x: "entry_id (entry root) = x" using assms(1,2) by (simp add: keyed_def)
  have "current (handles t) [root]" using assms(2) x by (simp add: current_def)
  then have "dooms (handles t) {x} [] hs doomed"
    using doom_reach [OF d assms(1)] x by (simp add: ids_of_def)
  moreover have "t' = t1" "es = e1 @ teardowns cb reason doomed"
    using assms(3) by (simp_all add: closeTree_def d u del: doom.simps)
  ultimately show ?thesis
    using that [of hs doomed] unlink_all_unlinked [OF u] destroyed_unlink [OF u]
    by (simp add: dooms_def destroyed_teardowns)
qed

definition without :: "str set \<Rightarrow> handle_record \<Rightarrow> handle_record" where
  "without R r = r\<lparr>children := filter (\<lambda>c. c \<notin> R) (children r)\<rparr>"

lemma without_fields [simp]:
  "entry (without R r) = entry r" "authorisation (without R r) = authorisation r"
  "set (children (without R r)) = set (children r) - R" "operations (without R r) = operations r"
  "stillCovered (without R r) = stillCovered r"
  by (auto simp: without_def)

lemma closeTree_handles:
  assumes ok: "table_ok t" and root: "map_of (handles t) x = Some root"
    and c: "closeTree cb root reason failure t = (t', es)"
  shows "map_of (handles t') i =
      (if i \<in> reach (handles t) {x} then None else map_option (without (reach (handles t) {x})) (map_of (handles t) i))"
    and "distinct (destroyed es) \<and> set (destroyed es) = reach (handles t) {x}"
    and "grantOperations t' = grantOperations t \<and> revokedGrants t' = revokedGrants t \<and>
      grantAliases t' = grantAliases t \<and> dropping t' = dropping t \<and> inFlight t' = inFlight t \<and>
      slotWaiters t' = slotWaiters t"
    and "table_ok t'"
proof -
  let ?R = "reach (handles t) {x}"
  have k: "keyed (handles t)" and tree: "tree_ok (handles t)" using ok by (simp_all add: table_ok_def)
  obtain hs doomed where hs: "\<forall>i. map_of hs i = (if i \<in> ?R then None else map_of (handles t) i)"
    and doomed: "set (ids_of doomed) = ?R" "distinct (ids_of doomed)"
      "\<forall>r\<in>set doomed. map_of (handles t) (entry_id (entry r)) = Some r"
    and d: "distinct (map fst (handles t)) \<longrightarrow> distinct (map fst hs)"
    and u: "unlinked doomed (t\<lparr>handles := hs\<rparr>) t'" and e: "destroyed es = ids_of doomed"
    by (rule closeTree_parts [OF k root c])
  have in_doomed: "(\<exists>r\<in>set doomed. entry_id (entry r) = i \<and> Q r) \<longleftrightarrow>
      i \<in> ?R \<and> (\<exists>r. map_of (handles t) i = Some r \<and> Q r)" for i Q
  proof (intro iffI conjI; (elim bexE conjE exE)?)
    fix r assume r: "r \<in> set doomed" "entry_id (entry r) = i" "Q r"
    then show "i \<in> ?R" using doomed(1) by (auto simp: ids_of_def)
    show "\<exists>r. map_of (handles t) i = Some r \<and> Q r" using r doomed(3) by auto
  next
    fix r assume r: "i \<in> ?R" "map_of (handles t) i = Some r" "Q r"
    have "i \<in> set (ids_of doomed)" using r(1) doomed(1) by simp
    then obtain s where "s \<in> set doomed" "entry_id (entry s) = i" by (auto simp: ids_of_def)
    moreover from this have "s = r" using doomed(3) r(2) by auto
    ultimately show "\<exists>r\<in>set doomed. entry_id (entry r) = i \<and> Q r" using r(3) by blast
  qed
  show h: "map_of (handles t') i = (if i \<in> ?R then None else map_option (without ?R) (map_of (handles t) i))" for i
  proof (cases "map_of (handles t) i")
    case None
    then show ?thesis using u hs by (simp add: unlinked_def)
  next
    case (Some r)
    have "(c \<in> ?R \<and> (\<exists>cr. map_of (handles t) c = Some cr \<and> parentId (entry cr) = Some i)) \<longleftrightarrow> c \<in> ?R"
      if "c \<in> set (children r)" for c
      using tree Some that unfolding tree_ok_def by blast
    then have "filter (\<lambda>c. \<not> (\<exists>d\<in>set doomed. entry_id (entry d) = c \<and> parentId (entry d) = Some i)) (children r) =
        filter (\<lambda>c. c \<notin> ?R) (children r)"
      unfolding in_doomed by (intro filter_cong) auto
    then show ?thesis using u hs Some by (simp add: unlinked_def without_def)
  qed
  show "distinct (destroyed es) \<and> set (destroyed es) = ?R" using doomed(1,2) e by simp
  show "grantOperations t' = grantOperations t \<and> revokedGrants t' = revokedGrants t \<and>
      grantAliases t' = grantAliases t \<and> dropping t' = dropping t \<and> inFlight t' = inFlight t \<and>
      slotWaiters t' = slotWaiters t"
    using u by (simp add: unlinked_def)
  have "tree_ok (handles t')"
    unfolding tree_ok_def
  proof (intro conjI allI impI)
    fix p r c
    assume a: "map_of (handles t') p = Some r" "c \<in> set (children r)"
    then obtain r0 where r0: "map_of (handles t) p = Some r0" "r = without ?R r0" "p \<notin> ?R"
      by (auto simp: h split: if_splits)
    then have c: "c \<in> set (children r0)" "c \<notin> ?R" using a(2) by auto
    then obtain cr where "map_of (handles t) c = Some cr" "parentId (entry cr) = Some p"
      using tree r0(1) unfolding tree_ok_def by blast
    then show "\<exists>cr. map_of (handles t') c = Some cr \<and> parentId (entry cr) = Some p"
      using c(2) by (simp add: h)
  next
    fix c cr p
    assume a: "map_of (handles t') c = Some cr" "parentId (entry cr) = Some p"
    then obtain c0 where c0: "map_of (handles t) c = Some c0" "cr = without ?R c0" "c \<notin> ?R"
      by (auto simp: h split: if_splits)
    then have "parentId (entry c0) = Some p" using a(2) by simp
    then obtain r where r: "map_of (handles t) p = Some r" "c \<in> set (children r)"
      using tree c0(1) unfolding tree_ok_def by blast
    moreover have "p \<notin> ?R" using reach_closed [OF _ r] c0(1,3) by auto
    ultimately show "\<exists>r. map_of (handles t') p = Some r \<and> c \<in> set (children r)"
      using c0(3) by (simp add: h)
  qed
  moreover have "keyed (handles t')" using k by (auto simp: keyed_def h split: if_splits)
  moreover have "distinct (map fst (handles t'))" "index_ok (byGrant t')" "index_ok (byPickedPath t')"
    using u d ok by (simp_all add: unlinked_def table_ok_def)
  moreover have "i \<in> set (filed (byGrant t') g) \<longleftrightarrow>
      (\<exists>r. map_of (handles t') i = Some r \<and> authorisation r = ByGrant g)" for g i
  proof -
    have "i \<in> set (filed (byGrant t') g) \<longleftrightarrow> i \<in> set (filed (byGrant t) g) \<and>
        \<not> (i \<in> ?R \<and> (\<exists>r. map_of (handles t) i = Some r \<and> authorisation r = ByGrant g))"
      using u by (simp add: unlinked_def in_doomed)
    moreover have "i \<in> set (filed (byGrant t) g) \<longleftrightarrow>
        (\<exists>r. map_of (handles t) i = Some r \<and> authorisation r = ByGrant g)"
      using ok by (simp add: table_ok_def)
    ultimately show ?thesis by (auto simp: h)
  qed
  moreover have "i \<in> set (filed (byPickedPath t') p) \<longleftrightarrow>
      (\<exists>r. map_of (handles t') i = Some r \<and> authorisation r = UserSelected p)" for p i
  proof -
    have "i \<in> set (filed (byPickedPath t') p) \<longleftrightarrow> i \<in> set (filed (byPickedPath t) p) \<and>
        \<not> (i \<in> ?R \<and> (\<exists>r. map_of (handles t) i = Some r \<and> authorisation r = UserSelected p))"
      using u by (simp add: unlinked_def in_doomed)
    moreover have "i \<in> set (filed (byPickedPath t) p) \<longleftrightarrow>
        (\<exists>r. map_of (handles t) i = Some r \<and> authorisation r = UserSelected p)"
      using ok by (simp add: table_ok_def)
    ultimately show ?thesis by (auto simp: h)
  qed
  moreover have "memory_ok t'"
  proof -
    have m: "memory_ok t" using ok by (simp add: table_ok_def)
    then have "distinct (map fst (recentlyClosed t')) \<and> length (recentlyClosed t') \<le> CLOSED_ID_MEMORY \<and>
        set (map fst (recentlyClosed t')) \<subseteq> ?R \<union> set (map fst (recentlyClosed t))"
      using u doomed(1) by (simp add: unlinked_def memory_ok_def)
    moreover have "revokedGrants t' = revokedGrants t" using u by (simp add: unlinked_def)
    moreover have "i \<notin> ?R \<and> i \<notin> set (map fst (recentlyClosed t))" if "map_of (handles t') i \<noteq> None" for i
      using that m unfolding memory_ok_def by (auto simp: h split: if_splits)
    ultimately show ?thesis using m unfolding memory_ok_def by (intro conjI allI impI) (blast | simp)+
  qed
  ultimately show "table_ok t'" unfolding table_ok_def by (intro conjI allI; (assumption | simp))
qed

end
