(* ===== verification/HandleTable.thy ===== *)
theory HandleTable imports HandleTree begin

section \<open>The handle table (origin-registry.ts, handles.ts)\<close>

text \<open>
  The map from isolation keys to origin tables and every method of \<open>HandleTable\<close> up to its first
  \<open>await\<close>; \<open>run\<close> and \<open>dropOrigin\<close>, which do something after theirs, are two operations each. A
  table is an object the code compares by identity, so each carries the serial number it was
  created with. A call returns the new state, the effects in order, and an error or a value.
\<close>

record table_env =
  t_parse :: url_parser
  t_draw :: "nat \<Rightarrow> str"
  t_callbacks :: callbacks

record handle_table =
  tables :: "(str \<times> (nat \<times> origin_table)) list"
  next_serial :: nat
  drawn :: nat

type_synonym 'a call = "handle_table \<times> handle_effect list \<times> (broker_error + 'a)"

definition empty_handle_table :: handle_table where
  "empty_handle_table = \<lparr>tables = [], next_serial = 0, drawn = 0\<rparr>"

subsection \<open>origin-registry.ts\<close>

definition registry_key :: "table_env \<Rightarrow> str \<Rightarrow> broker_error + str" where
  "registry_key env origin =
     (case isolationKeyFromUrl (t_parse env) origin of
        None \<Rightarrow> Inl (fail_with E_internal (js ''handle table keyed on a string that is not an origin'') None None)
      | Some k \<Rightarrow> Inr k)"

definition existing_table :: "handle_table \<Rightarrow> str \<Rightarrow> (nat \<times> origin_table) option" where
  "existing_table T k = map_of (tables T) k"

definition getOrCreate :: "handle_table \<Rightarrow> str \<Rightarrow> handle_table \<times> nat \<times> origin_table" where
  "getOrCreate T k =
     (case map_of (tables T) k of
        Some (s, t) \<Rightarrow> (T, s, t)
      | None \<Rightarrow> (T\<lparr>tables := AList.update k (next_serial T, new_table) (tables T),
                    next_serial := Suc (next_serial T)\<rparr>, next_serial T, new_table))"

definition deleteIfCurrent :: "str \<Rightarrow> nat \<Rightarrow> handle_table \<Rightarrow> handle_table" where
  "deleteIfCurrent k s T =
     (case map_of (tables T) k of
        None \<Rightarrow> T
      | Some (s', t) \<Rightarrow> if s' = s then T\<lparr>tables := AList.delete k (tables T)\<rparr> else T)"

definition holds_nothing :: "origin_table \<Rightarrow> bool" where
  "holds_nothing t \<longleftrightarrow> \<not> (length (handles t) > 0 \<or> inFlight t > 0) \<and>
     \<not> (length (revokedGrants t) > 0 \<or> length (grantOperations t) > 0) \<and> \<not> length (recentlyClosed t) > 0"

text \<open>\<open>reap\<close> on a table in the state \<open>t\<close>, which is also written back.\<close>

definition reap :: "str \<Rightarrow> nat \<Rightarrow> origin_table \<Rightarrow> handle_table \<Rightarrow> handle_table" where
  "reap k s t T =
     (let T = T\<lparr>tables := AList.update k (s, t) (tables T)\<rparr> in
      if dropping t \<or> \<not> holds_nothing t then T else deleteIfCurrent k s T)"

definition put_table :: "str \<Rightarrow> nat \<Rightarrow> origin_table \<Rightarrow> handle_table \<Rightarrow> handle_table" where
  "put_table k s t T = T\<lparr>tables := AList.update k (s, t) (tables T)\<rparr>"

subsection \<open>Acquiring\<close>

record acquire_request =
  req_origin :: str
  req_kind :: handle_kind
  req_auth :: authorisation
  req_limit :: "int option"
  req_covered :: "(str list \<Rightarrow> bool) option"
  req_destroy_fails :: bool

text \<open>\<open>#releaseUnregistered\<close>.\<close>

definition releaseUnregistered :: "bool \<Rightarrow> handle_effect list" where
  "releaseUnregistered destroy_throws = DestroyRefused Failed # (if destroy_throws then [Fault None] else [])"

definition bad_key :: "handle_effect list" where
  "bad_key = [Fault None]"

text \<open>\<open>None\<close>: the loop that draws an unused id never ends.\<close>

definition acquire :: "table_env \<Rightarrow> acquire_request \<Rightarrow> handle_table \<Rightarrow> handle_entry call option" where
  "acquire env req T =
     (let refused = releaseUnregistered (req_destroy_fails req) in
      case registry_key env (req_origin req) of
        Inl e \<Rightarrow> Some (T, bad_key @ refused, Inl e)
      | Inr k \<Rightarrow>
          (case getOrCreate T k of (T, s, t) \<Rightarrow>
           (case assertAcquirable t (req_auth req) of
              Some e \<Rightarrow> Some (T, refused, Inl e)
            | None \<Rightarrow>
                (case assertCapacity t (req_kind req) (req_limit req) of
                   Some e \<Rightarrow> Some (T, refused, Inl e)
                 | None \<Rightarrow>
                     (case fresh_id (t_draw env) (used_ids t) (drawn T) of
                        None \<Rightarrow> None
                      | Some (i, n) \<Rightarrow>
                          (case insert_handle i k (req_kind req) (req_auth req) None (req_covered req) t of
                             (t, e) \<Rightarrow> Some ((put_table k s t T)\<lparr>drawn := n\<rparr>, [], Inr e)))))))"

record derived_request =
  der_origin :: str
  der_kind :: handle_kind
  der_parent :: str
  der_limit :: "int option"
  der_destroy_fails :: bool

definition add_child :: "str \<Rightarrow> str \<Rightarrow> (str \<times> handle_record) list \<Rightarrow> (str \<times> handle_record) list" where
  "add_child p c hs =
     (case map_of hs p of None \<Rightarrow> hs | Some pr \<Rightarrow> AList.update p (pr\<lparr>children := add_to c (children pr)\<rparr>) hs)"

definition acquireDerived :: "table_env \<Rightarrow> derived_request \<Rightarrow> handle_table \<Rightarrow> handle_entry call option" where
  "acquireDerived env req T =
     (let refused = releaseUnregistered (der_destroy_fails req) in
      case registry_key env (der_origin req) of
        Inl e \<Rightarrow> Some (T, bad_key @ refused, Inl e)
      | Inr k \<Rightarrow>
          (case getOrCreate T k of (T, s, t) \<Rightarrow>
           (case record_in t (der_parent req) of
              Inl e \<Rightarrow> Some (T, refused, Inl e)
            | Inr parent \<Rightarrow>
                if entry_kind (entry parent) \<notin> set SOCKET_KINDS \<or> der_kind req \<noteq> TcpSocket
                then Some (T, refused,
                  Inl (fail_with E_internal (js ''only a tcpSocket may be derived, and only from a socket'') None None))
                else (case assertAcquirable t (authorisation parent) of
                   Some e \<Rightarrow> Some (T, refused, Inl e)
                 | None \<Rightarrow>
                     (case assertCapacity t (der_kind req) (der_limit req) of
                        Some e \<Rightarrow> Some (T, refused, Inl e)
                      | None \<Rightarrow>
                          (case fresh_id (t_draw env) (used_ids t) (drawn T) of
                             None \<Rightarrow> None
                           | Some (i, n) \<Rightarrow>
                               (case insert_handle i k (der_kind req) (authorisation parent)
                                       (Some (entry_id (entry parent))) None t of
                                  (t, e) \<Rightarrow>
                                    Some ((put_table k s
                                             (t\<lparr>handles := add_child (entry_id (entry parent)) i (handles t)\<rparr>)
                                             T)\<lparr>drawn := n\<rparr>, [], Inr e))))))))"

definition lookup_handle :: "table_env \<Rightarrow> str \<Rightarrow> str \<Rightarrow> handle_table \<Rightarrow> broker_error + handle_entry" where
  "lookup_handle env origin handleId T =
     (case registry_key env origin of
        Inl e \<Rightarrow> Inl e
      | Inr k \<Rightarrow>
          (case existing_table T k of
             None \<Rightarrow> Inl (fail_with E_denied NOT_YOURS (Some handleId) None)
           | Some (s, t) \<Rightarrow>
               (case record_in t handleId of Inl e \<Rightarrow> Inl e | Inr r \<Rightarrow> Inr (entry r))))"

subsection \<open>run: an operation under the in-flight budget\<close>

datatype operation_scope = OnHandle str | OnGrant str

datatype slot_state = Running | Queued

definition add_operation :: "operation_scope \<Rightarrow> nat \<Rightarrow> origin_table \<Rightarrow> origin_table" where
  "add_operation scope op t =
     (case scope of
        OnHandle i \<Rightarrow>
          (case map_of (handles t) i of
             None \<Rightarrow> t
           | Some r \<Rightarrow> t\<lparr>handles := AList.update i (r\<lparr>operations := add_to op (operations r)\<rparr>) (handles t)\<rparr>)
      | OnGrant g \<Rightarrow> t\<lparr>grantOperations := file_under g op (grantOperations t)\<rparr>)"

definition remove_operation :: "operation_scope \<Rightarrow> nat \<Rightarrow> origin_table \<Rightarrow> origin_table" where
  "remove_operation scope op t =
     (case scope of
        OnHandle i \<Rightarrow>
          (case map_of (handles t) i of
             None \<Rightarrow> t
           | Some r \<Rightarrow> t\<lparr>handles := AList.update i (r\<lparr>operations := removeAll op (operations r)\<rparr>) (handles t)\<rparr>)
      | OnGrant g \<Rightarrow> t\<lparr>grantOperations := unfile g op (grantOperations t)\<rparr>)"

text \<open>Everything up to the point where the operation runs or is queued; the key and the serial of
  its table are kept for its end.\<close>

definition run_begin ::
  "table_env \<Rightarrow> str \<Rightarrow> operation_scope \<Rightarrow> nat \<Rightarrow> bool \<Rightarrow> handle_table \<Rightarrow> (str \<times> nat \<times> slot_state) call" where
  "run_begin env origin scope op abandoned T =
     (if abandoned
      then (T, [], Inl (fail_with E_closed (js ''the app abandoned this operation'') None None))
      else case registry_key env origin of
        Inl e \<Rightarrow> (T, bad_key, Inl e)
      | Inr k \<Rightarrow>
          (case (case scope of
                   OnHandle i \<Rightarrow>
                     (case existing_table T k of
                        None \<Rightarrow> Inl (fail_with E_denied NOT_YOURS (Some i) None)
                      | Some (s, t) \<Rightarrow> (case record_in t i of Inl e \<Rightarrow> Inl e | Inr _ \<Rightarrow> Inr (T, s, t)))
                 | OnGrant g \<Rightarrow>
                     (if (case existing_table T k of
                            None \<Rightarrow> False | Some (s, t) \<Rightarrow> g \<in> set (revokedGrants t) \<or> dropping t)
                      then Inl (fail_with E_revoked
                             (js ''the grant authorising this operation was withdrawn'') None None)
                      else Inr (getOrCreate T k))) of
             Inl e \<Rightarrow> (T, [], Inl e)
           | Inr (T, s, t) \<Rightarrow>
               if queueFull t
               then (T, [], Inl (fail_with E_limit (js ''origin has '' @ to_string 10 LIMIT_inFlightOperations @
                       js '' operations in flight and as many waiting'') None None))
               else (let t = add_operation scope op t in
                 case tryTakeSlot t of
                   (t, True) \<Rightarrow> (put_table k s t T, [], Inr (k, s, Running))
                 | (t, False) \<Rightarrow>
                     (case waitForSlot op t of
                        Inl e \<Rightarrow> (reap k s (remove_operation scope op t) T, [], Inl e)
                      | Inr t \<Rightarrow> (put_table k s t T, [], Inr (k, s, Queued))))))"

text \<open>The end of an operation: one that holds a slot gives it back, one still queued leaves the
  queue. The end of an operation of a table that is no longer current changes nothing that is.\<close>

definition run_end :: "str \<Rightarrow> nat \<Rightarrow> operation_scope \<Rightarrow> nat \<Rightarrow> handle_table \<Rightarrow> handle_table \<times> nat option" where
  "run_end k s scope op T =
     (case map_of (tables T) k of
        None \<Rightarrow> (T, None)
      | Some (s', t) \<Rightarrow>
          if s' \<noteq> s then (T, None)
          else if op \<in> set (slotWaiters t)
          then (reap k s (remove_operation scope op (unqueue op t)) T, None)
          else (case releaseSlot t of
                  (t, admitted) \<Rightarrow> (reap k s (remove_operation scope op t) T, admitted)))"

subsection \<open>Closing\<close>

definition release_handle :: "table_env \<Rightarrow> str \<Rightarrow> str \<Rightarrow> handle_table \<Rightarrow> unit call" where
  "release_handle env origin handleId T =
     (case registry_key env origin of
        Inl e \<Rightarrow> (T, bad_key, Inl e)
      | Inr k \<Rightarrow>
          (case existing_table T k of
             None \<Rightarrow> (T, [], Inr ())
           | Some (s, t) \<Rightarrow>
               (case map_of (handles t) handleId of
                  None \<Rightarrow> (T, [], Inr ())
                | Some r \<Rightarrow>
                    (case closeTree (t_callbacks env) r Closed None t of
                       (t, es) \<Rightarrow> (reap k s t T, es, Inr ())))))"

definition onUnlink :: "table_env \<Rightarrow> str \<Rightarrow> str \<Rightarrow> nat \<Rightarrow> handle_table \<Rightarrow> unit call" where
  "onUnlink env origin handleId listener T =
     (case registry_key env origin of
        Inl e \<Rightarrow> (T, bad_key, Inl e)
      | Inr k \<Rightarrow>
          (case existing_table T k of
             None \<Rightarrow> (T, [], Inr ())
           | Some (s, t) \<Rightarrow>
               (case map_of (handles t) handleId of
                  None \<Rightarrow> (T, [], Inr ())
                | Some r \<Rightarrow>
                    (put_table k s (t\<lparr>handles := AList.update handleId (r\<lparr>unlink := Some listener\<rparr>) (handles t)\<rparr>) T,
                     [], Inr ()))))"

definition closeWithError ::
  "table_env \<Rightarrow> str \<Rightarrow> str \<Rightarrow> close_reason \<Rightarrow> broker_error \<Rightarrow> handle_table \<Rightarrow> unit call" where
  "closeWithError env origin handleId reason error T =
     (case registry_key env origin of
        Inl e \<Rightarrow> (T, bad_key, Inl e)
      | Inr k \<Rightarrow>
          (case existing_table T k of
             None \<Rightarrow> (T, [], Inl (fail_with E_denied NOT_YOURS (Some handleId) None))
           | Some (s, t) \<Rightarrow>
               (case record_in t handleId of
                  Inl e \<Rightarrow> (T, [], Inl e)
                | Inr r \<Rightarrow>
                    (case closeTree (t_callbacks env) r reason (Some error) t of
                       (t, es) \<Rightarrow> (reap k s t T, es, Inr ())))))"

definition fail_handle ::
  "table_env \<Rightarrow> str \<Rightarrow> str \<Rightarrow> error_code \<Rightarrow> str option \<Rightarrow> handle_table \<Rightarrow> unit call" where
  "fail_handle env origin handleId c platformCode T =
     closeWithError env origin handleId Failed
       (fail_with c (js ''the handle failed'') (Some handleId) platformCode) T"

definition abort_handle :: "table_env \<Rightarrow> str \<Rightarrow> str \<Rightarrow> handle_table \<Rightarrow> unit call" where
  "abort_handle env origin handleId T =
     closeWithError env origin handleId Aborted
       (fail_with E_reset (js ''the app aborted this handle'') (Some handleId) None) T"

subsection \<open>Revoking\<close>

text \<open>Closes each of the listed handles that is still there.\<close>

fun close_each ::
  "callbacks \<Rightarrow> close_reason \<Rightarrow> str list \<Rightarrow> origin_table \<Rightarrow> origin_table \<times> handle_effect list" where
  "close_each cb reason [] t = (t, [])"
| "close_each cb reason (i # ids) t =
     (case (case map_of (handles t) i of None \<Rightarrow> (t, []) | Some r \<Rightarrow> closeTree cb r reason None t) of
        (t, es) \<Rightarrow> (case close_each cb reason ids t of (t, es') \<Rightarrow> (t, es @ es')))"

definition finish_revoke :: "callbacks \<Rightarrow> str \<Rightarrow> origin_table \<Rightarrow> origin_table \<times> handle_effect list" where
  "finish_revoke cb g t =
     (let pending = (case map_of (grantOperations t) g of None \<Rightarrow> [] | Some ops \<Rightarrow> ops);
          e = fail_with E_revoked (js ''the grant authorising this operation was withdrawn'') None None;
          t = t\<lparr>grantOperations := AList.delete g (grantOperations t)\<rparr> in
      case close_each cb Revoked (case map_of (byGrant t) g of None \<Rightarrow> [] | Some ids \<Rightarrow> ids) t of
        (t, es) \<Rightarrow> (t, map (\<lambda>op. Cancel op e) pending @ es))"

lemma unlinked_aliases: "unlinked rs t t' \<Longrightarrow> grantAliases t' = grantAliases t"
  by (simp add: unlinked_def)

lemma closeTree_aliases:
  assumes "closeTree cb r reason f t = (t', es)" shows "grantAliases t' = grantAliases t"
proof -
  obtain hs doomed where d: "doom (handles t) [r] [] = (hs, doomed)" by fastforce
  obtain t1 e1 where u: "unlink_all cb reason f doomed (t\<lparr>handles := hs\<rparr>) = (t1, e1)" by fastforce
  have "t' = t1" using assms by (simp add: closeTree_def d u del: doom.simps)
  then show ?thesis using unlinked_aliases [OF unlink_all_unlinked [OF u]] by simp
qed

lemma close_each_aliases: "close_each cb reason ids t = (t', es) \<Longrightarrow> grantAliases t' = grantAliases t"
proof (induction ids arbitrary: t es)
  case (Cons i ids)
  show ?case
  proof (cases "map_of (handles t) i")
    case None then show ?thesis using Cons by (auto split: prod.splits)
  next
    case (Some r)
    obtain t1 e1 where c: "closeTree cb r reason None t = (t1, e1)" by fastforce
    then show ?thesis using Cons Some closeTree_aliases [OF c] by (auto split: prod.splits)
  qed
qed simp

lemma finish_revoke_aliases: "finish_revoke cb g t = (t', es) \<Longrightarrow> grantAliases t' = grantAliases t"
  by (auto simp: finish_revoke_def Let_def dest: close_each_aliases split: prod.splits)

text \<open>
  \<open>revoke\<close> calls itself on the aliases of the grant before it closes anything of its own: the calls
  still to make, with what is left of each, are a stack of tasks.
\<close>

datatype revoke_task = Enter str | Alias str | Finish str

fun task_weight :: "revoke_task \<Rightarrow> nat" where
  "task_weight (Finish g) = 1" | "task_weight (Enter g) = 2" | "task_weight (Alias g) = 3"

definition drop_alias :: "str \<Rightarrow> origin_table \<Rightarrow> origin_table" where
  "drop_alias a t = t\<lparr>grantAliases := AList.delete a (grantAliases t)\<rparr>"

definition tombstone :: "str \<Rightarrow> origin_table \<Rightarrow> origin_table" where
  "tombstone g t = t\<lparr>revokedGrants := remember (revokedGrants t) g REVOKED_GRANT_MEMORY\<rparr>"

function revoke_tasks ::
  "callbacks \<Rightarrow> revoke_task list \<Rightarrow> origin_table \<Rightarrow> origin_table \<times> handle_effect list" where
  "revoke_tasks cb [] t = (t, [])"
| "revoke_tasks cb (Enter g # tasks) t =
     (let t = tombstone g t in
      case aliasesOf t g of
        [] \<Rightarrow> revoke_tasks cb (Finish g # tasks) t
      | a # rest \<Rightarrow> revoke_tasks cb (Enter a # map Alias rest @ Finish g # tasks) (drop_alias a t))"
| "revoke_tasks cb (Alias a # tasks) t = revoke_tasks cb (Enter a # tasks) (drop_alias a t)"
| "revoke_tasks cb (Finish g # tasks) t =
     (case finish_revoke cb g t of (t, es) \<Rightarrow>
      case revoke_tasks cb tasks t of (t, es') \<Rightarrow> (t, es @ es'))"
  by pat_completeness auto

lemma aliasesOf_drop: "a \<in> set (aliasesOf t g) \<Longrightarrow> length (grantAliases (drop_alias a t)) < length (grantAliases t)"
proof -
  assume "a \<in> set (aliasesOf t g)"
  then obtain v where "(a, v) \<in> set (grantAliases t)" by (auto simp: aliasesOf_def)
  then obtain w where "map_of (grantAliases t) a = Some w" using weak_map_of_SomeI by fastforce
  then show ?thesis by (simp add: drop_alias_def delete_shorter)
qed

lemma drop_alias_le: "length (grantAliases (drop_alias a t)) \<le> length (grantAliases t)"
  by (simp add: drop_alias_def length_delete_le)

lemma tombstone_aliases [simp]: "grantAliases (tombstone g t) = grantAliases t" "aliasesOf (tombstone g t) g' = aliasesOf t g'"
  by (simp_all add: tombstone_def aliasesOf_def)

termination revoke_tasks
proof (relation "measures [\<lambda>(cb, tasks, t). length (grantAliases t), \<lambda>(cb, tasks, t). sum_list (map task_weight tasks)]",
    goal_cases)
  case 1 then show ?case by simp
next
  case (2 cb g tasks t x)
  then show ?case by simp
next
  case (3 cb g tasks t x a rest)
  then have "a \<in> set (aliasesOf t g)" by simp
  then show ?case using aliasesOf_drop [of a t g] 3 by (simp add: drop_alias_def)
next
  case (4 cb a tasks t)
  then show ?case using drop_alias_le [of a t] by auto
next
  case 5
  then show ?case by (simp add: finish_revoke_aliases [OF sym])
qed

definition revoke :: "table_env \<Rightarrow> str \<Rightarrow> str \<Rightarrow> handle_table \<Rightarrow> unit call" where
  "revoke env origin g T =
     (case registry_key env origin of
        Inl e \<Rightarrow> (T, bad_key, Inl e)
      | Inr k \<Rightarrow>
          (case getOrCreate T k of (T, s, t) \<Rightarrow>
           case revoke_tasks (t_callbacks env) [Enter g] t of
             (t, es) \<Rightarrow> (reap k s t T, es, Inr ())))"

definition replaceGrant ::
  "table_env \<Rightarrow> str \<Rightarrow> str \<Rightarrow> str \<Rightarrow> str list \<Rightarrow> bool \<Rightarrow> handle_table \<Rightarrow> unit call" where
  "replaceGrant env origin replaced replacement ps coversAll T =
     (case registry_key env origin of
        Inl e \<Rightarrow> (T, bad_key, Inl e)
      | Inr k \<Rightarrow>
          (case getOrCreate T k of (T, s, t) \<Rightarrow>
           case replaceGrantIn (t_callbacks env) replaced replacement ps coversAll t of
             (t, es) \<Rightarrow> (reap k s t T, es, Inr ())))"

definition revokeUserSelected :: "table_env \<Rightarrow> str \<Rightarrow> str \<Rightarrow> handle_table \<Rightarrow> unit call" where
  "revokeUserSelected env origin pickId T =
     (case registry_key env origin of
        Inl e \<Rightarrow> (T, bad_key, Inl e)
      | Inr k \<Rightarrow>
          (case existing_table T k of
             None \<Rightarrow> (T, [], Inr ())
           | Some (s, t) \<Rightarrow>
               (case close_each (t_callbacks env) Revoked
                       (case map_of (byPickedPath t) pickId of None \<Rightarrow> [] | Some ids \<Rightarrow> ids) t of
                  (t, es) \<Rightarrow> (reap k s t T, es, Inr ()))))"

definition grantIssued :: "table_env \<Rightarrow> str \<Rightarrow> str \<Rightarrow> handle_table \<Rightarrow> unit call" where
  "grantIssued env origin g T =
     (case registry_key env origin of
        Inl e \<Rightarrow> (T, bad_key, Inl e)
      | Inr k \<Rightarrow>
          (case existing_table T k of
             None \<Rightarrow> (T, [], Inr ())
           | Some (s, t) \<Rightarrow> (put_table k s (t\<lparr>revokedGrants := removeAll g (revokedGrants t)\<rparr>) T, [], Inr ())))"

subsection \<open>dropOrigin, before and after its teardowns settle\<close>

definition drop_begin :: "table_env \<Rightarrow> str \<Rightarrow> handle_table \<Rightarrow> (str \<times> nat) option call" where
  "drop_begin env origin T =
     (case registry_key env origin of
        Inl e \<Rightarrow> (T, bad_key, Inl e)
      | Inr k \<Rightarrow>
          (case existing_table T k of
             None \<Rightarrow> (T, [], Inr None)
           | Some (s, t) \<Rightarrow>
               let e = fail_with E_revoked (js ''the session holding this operation ended'') None None;
                   cancels = concat (map (\<lambda>(g, ops). map (\<lambda>op. Cancel op e) ops) (grantOperations t));
                   t = t\<lparr>dropping := True, grantOperations := []\<rparr> in
               (case close_each (t_callbacks env) SessionEnded (map fst (handles t)) t of
                  (t, es) \<Rightarrow> (put_table k s t T, cancels @ es, Inr (Some (k, s))))))"

definition drop_end :: "(str \<times> nat) option \<Rightarrow> handle_table \<Rightarrow> handle_table" where
  "drop_end dropped T = (case dropped of None \<Rightarrow> T | Some (k, s) \<Rightarrow> deleteIfCurrent k s T)"

subsection \<open>Counting\<close>

definition counts_of :: "table_env \<Rightarrow> str \<Rightarrow> handle_table \<Rightarrow> broker_error + origin_counts" where
  "counts_of env origin T =
     (case registry_key env origin of
        Inl e \<Rightarrow> Inl e
      | Inr k \<Rightarrow>
          Inr (case existing_table T k of
                 None \<Rightarrow> \<lparr>n_sockets = 0, n_files = 0, n_identities = 0, n_handles = 0, n_inFlight = 0,
                           n_grants = 0, n_revokedGrants = 0\<rparr>
               | Some (s, t) \<Rightarrow> counts_in t))"

definition originCount :: "handle_table \<Rightarrow> nat" where
  "originCount T = length (tables T)"

end
