(* ===== verification/HandleRuns.thy ===== *)
theory HandleRuns imports HandleTable begin

section \<open>What every operation on a table keeps\<close>

text \<open>
  The invariant of a table through acquisition, closing, revocation, replacement and the end of a
  session; which handles a revocation closes, and no others; and the invariant of the whole
  registry over any sequence of calls.
\<close>

subsection \<open>Drawing an id\<close>

lemma fresh_id_Some:
  assumes "fresh_id draw used n = Some (i, n')" shows "i \<notin> set used"
  using fresh_id.raw_induct [of "\<lambda>draw used n y. fst y \<notin> set used", OF _ assms]
  by (fastforce split: if_splits)

lemma fresh_id_total:
  assumes "inj draw"
  shows "\<exists>i n'. fresh_id draw used n = Some (i, n')"
proof -
  have fin: "finite {m. draw m \<in> set used}"
    using finite_vimageI [OF _ assms, of "set used"] by (simp add: vimage_def)
  show ?thesis
  proof (induction "card {m. n \<le> m \<and> draw m \<in> set used}" arbitrary: n rule: less_induct)
    case less
    show ?case
    proof (cases "draw n \<in> set used")
      case True
      have "{m. Suc n \<le> m \<and> draw m \<in> set used} \<subset> {m. n \<le> m \<and> draw m \<in> set used}"
      proof
        have "n \<in> {m. n \<le> m \<and> draw m \<in> set used} - {m. Suc n \<le> m \<and> draw m \<in> set used}" using True by simp
        then show "{m. Suc n \<le> m \<and> draw m \<in> set used} \<noteq> {m. n \<le> m \<and> draw m \<in> set used}" by blast
      qed auto
      moreover have "finite {m. n \<le> m \<and> draw m \<in> set used}"
        by (rule finite_subset [OF _ fin]) auto
      ultimately have "\<exists>i n'. fresh_id draw used (Suc n) = Some (i, n')"
        using less psubset_card_mono by blast
      then show ?thesis using True by (simp add: fresh_id.simps [of draw used n])
    qed (simp add: fresh_id.simps [of draw used n])
  qed
qed

subsection \<open>Registering\<close>

lemma insert_handle_fields:
  assumes "insert_handle i origin kind auth parent covered t = (t', e)"
  shows "entry_id e = i" "entry_origin e = origin" "entry_kind e = kind" "parentId e = parent"
    and "map_of (handles t') x =
      (if x = i then Some \<lparr>entry = e,
          authorisation = (case auth of ByGrant g \<Rightarrow> ByGrant (currentGrantFor t g) | UserSelected p \<Rightarrow> UserSelected p),
          stillCovered = covered, children = [], operations = [], unlink = None\<rparr>
       else map_of (handles t) x)"
    and "distinct (map fst (handles t)) \<Longrightarrow> distinct (map fst (handles t'))"
    and "index_ok (byGrant t) \<Longrightarrow> index_ok (byGrant t')"
    and "index_ok (byPickedPath t) \<Longrightarrow> index_ok (byPickedPath t')"
    and "filed (byGrant t') g = (case auth of ByGrant h \<Rightarrow>
        if g = currentGrantFor t h then add_to i (filed (byGrant t) g) else filed (byGrant t) g
      | UserSelected _ \<Rightarrow> filed (byGrant t) g)"
    and "filed (byPickedPath t') p = (case auth of UserSelected q \<Rightarrow>
        if p = q then add_to i (filed (byPickedPath t) p) else filed (byPickedPath t) p
      | ByGrant _ \<Rightarrow> filed (byPickedPath t) p)"
    and "recentlyClosed t' = recentlyClosed t" "revokedGrants t' = revokedGrants t"
    "grantOperations t' = grantOperations t" "grantAliases t' = grantAliases t" "dropping t' = dropping t"
    "inFlight t' = inFlight t" "slotWaiters t' = slotWaiters t"
  using assms
  by (auto simp: insert_handle_def Let_def update_conv' distinct_update filed_file_under split: authorisation.splits)

lemma table_ok_fresh:
  assumes "table_ok t" and "i \<notin> set (used_ids t)"
  shows "map_of (handles t) i = None" "i \<notin> set (map fst (recentlyClosed t))"
    "i \<notin> set (filed (byGrant t) g)" "i \<notin> set (filed (byPickedPath t) p)"
    "map_of (handles t) x = Some r \<Longrightarrow> i \<notin> set (children r) \<and> parentId (entry r) \<noteq> Some i"
proof -
  show n: "map_of (handles t) i = None" using assms(2) by (auto simp: used_ids_def map_of_eq_None_iff)
  show "i \<notin> set (map fst (recentlyClosed t))" using assms(2) by (simp add: used_ids_def)
  show "i \<notin> set (filed (byGrant t) g)" "i \<notin> set (filed (byPickedPath t) p)"
    using assms(1) n by (simp_all add: table_ok_def)
  show "i \<notin> set (children r) \<and> parentId (entry r) \<noteq> Some i" if "map_of (handles t) x = Some r"
    using assms(1) n that unfolding table_ok_def tree_ok_def by (metis option.distinct(1))
qed

lemma table_ok_insert:
  assumes ok: "table_ok t" and new: "i \<notin> set (used_ids t)"
    and ins: "insert_handle i origin kind auth None covered t = (t', e)"
  shows "table_ok t'"
proof -
  note f = insert_handle_fields [OF ins] and fresh = table_ok_fresh [OF ok new]
  have hs: "map_of (handles t) x = Some r \<Longrightarrow> x \<noteq> i" for x r using fresh(1) by auto
  have "tree_ok (handles t')"
    unfolding tree_ok_def
  proof (intro conjI allI impI)
    fix p r c assume a: "map_of (handles t') p = Some r" "c \<in> set (children r)"
    then have r: "map_of (handles t) p = Some r" by (auto simp: f(5) split: if_splits)
    then obtain cr where "map_of (handles t) c = Some cr" "parentId (entry cr) = Some p"
      using ok a(2) unfolding table_ok_def tree_ok_def by blast
    then show "\<exists>cr. map_of (handles t') c = Some cr \<and> parentId (entry cr) = Some p"
      using hs by (auto simp: f(5))
  next
    fix c cr p assume a: "map_of (handles t') c = Some cr" "parentId (entry cr) = Some p"
    then have c: "map_of (handles t) c = Some cr" using f(4) by (auto simp: f(5) split: if_splits)
    then obtain r where "map_of (handles t) p = Some r" "c \<in> set (children r)"
      using ok a(2) unfolding table_ok_def tree_ok_def by blast
    then show "\<exists>r. map_of (handles t') p = Some r \<and> c \<in> set (children r)"
      using hs by (auto simp: f(5))
  qed
  moreover have "keyed (handles t')"
    using ok f(1) by (auto simp: table_ok_def keyed_def f(5) split: if_splits)
  moreover have "x \<in> set (filed (byGrant t') g) \<longleftrightarrow>
      (\<exists>r. map_of (handles t') x = Some r \<and> authorisation r = ByGrant g)" for x g
    using ok fresh(1,3) by (auto simp: table_ok_def f(5,9) split: authorisation.splits)
  moreover have "x \<in> set (filed (byPickedPath t') p) \<longleftrightarrow>
      (\<exists>r. map_of (handles t') x = Some r \<and> authorisation r = UserSelected p)" for x p
    using ok fresh(1,4) by (auto simp: table_ok_def f(5,10) split: authorisation.splits)
  moreover have "memory_ok t'"
    using ok fresh(2) unfolding table_ok_def memory_ok_def by (auto simp: f(5,11,12) split: if_splits)
  ultimately show ?thesis
    using ok f(6-8) unfolding table_ok_def by (intro conjI allI; (assumption | simp))
qed

lemma add_child_map:
  "map_of (add_child p c hs) x =
     (if x = p then map_option (\<lambda>r. r\<lparr>children := add_to c (children r)\<rparr>) (map_of hs p) else map_of hs x)"
  by (auto simp: add_child_def update_conv' split: option.split)

lemma add_child_distinct: "distinct (map fst hs) \<Longrightarrow> distinct (map fst (add_child p c hs))"
  by (simp add: add_child_def distinct_update split: option.split)

lemma table_ok_derive:
  assumes ok: "table_ok t" and new: "i \<notin> set (used_ids t)" and p: "map_of (handles t) p = Some pr"
    and ins: "insert_handle i origin kind auth (Some p) covered t = (t0, e)"
    and t': "t' = t0\<lparr>handles := add_child p i (handles t0)\<rparr>"
  shows "table_ok t'"
proof -
  note f = insert_handle_fields [OF ins] and fresh = table_ok_fresh [OF ok new]
  have pi: "p \<noteq> i" using fresh(1) p by auto
  obtain r0 where r0: "map_of (handles t0) i = Some r0" "entry r0 = e" "children r0 = []"
    "authorisation r0 = (case auth of ByGrant g \<Rightarrow> ByGrant (currentGrantFor t g) | UserSelected q \<Rightarrow> UserSelected q)"
    by (simp add: f(5))
  have h: "map_of (handles t') x =
      (if x = i then Some r0 else if x = p then Some (pr\<lparr>children := add_to i (children pr)\<rparr>) else map_of (handles t) x)" for x
    using pi p r0(1) by (auto simp: t' add_child_map f(5))
  have hs: "map_of (handles t) x = Some r \<Longrightarrow> x \<noteq> i" for x r using fresh(1) by auto
  have live: "\<exists>cr'. map_of (handles t') c = Some cr' \<and> entry cr' = entry cr \<and> authorisation cr' = authorisation cr \<and>
      set (children cr) \<subseteq> set (children cr')" if "map_of (handles t) c = Some cr" for c cr
    using that hs p by (auto simp: h)
  have "tree_ok (handles t')"
    unfolding tree_ok_def
  proof (intro conjI allI impI)
    fix q r c assume a: "map_of (handles t') q = Some r" "c \<in> set (children r)"
    show "\<exists>cr. map_of (handles t') c = Some cr \<and> parentId (entry cr) = Some q"
    proof (cases "c = i")
      case True
      then have "q = p" using a fresh(5) r0(3) by (auto simp: h split: if_splits)
      then show ?thesis using True r0(1,2) f(4) by (simp add: h)
    next
      case False
      then obtain r1 where "map_of (handles t) q = Some r1" "c \<in> set (children r1)"
        using a r0(3) p by (auto simp: h split: if_splits)
      then obtain cr where "map_of (handles t) c = Some cr" "parentId (entry cr) = Some q"
        using ok unfolding table_ok_def tree_ok_def by blast
      then show ?thesis using live by fastforce
    qed
  next
    fix c cr q assume a: "map_of (handles t') c = Some cr" "parentId (entry cr) = Some q"
    show "\<exists>r. map_of (handles t') q = Some r \<and> c \<in> set (children r)"
    proof (cases "c = i")
      case True
      then have "q = p" using a r0(2) f(4) by (simp add: h)
      then show ?thesis using True pi by (simp add: h)
    next
      case False
      then obtain c0 where "map_of (handles t) c = Some c0" "parentId (entry c0) = Some q"
        using a p by (auto simp: h split: if_splits)
      then obtain r where "map_of (handles t) q = Some r" "c \<in> set (children r)"
        using ok unfolding table_ok_def tree_ok_def by blast
      then show ?thesis using live by blast
    qed
  qed
  moreover have "keyed (handles t')"
    using ok f(1) r0(2) p by (auto simp: table_ok_def keyed_def h split: if_splits)
  moreover have "x \<in> set (filed (byGrant t') g) \<longleftrightarrow>
      (\<exists>r. map_of (handles t') x = Some r \<and> authorisation r = ByGrant g)" for x g
  proof -
    have "x \<in> set (filed (byGrant t) g) \<longleftrightarrow> (\<exists>r. map_of (handles t) x = Some r \<and> authorisation r = ByGrant g)"
      using ok by (simp add: table_ok_def)
    moreover have "byGrant t' = byGrant t0" by (simp add: t')
    ultimately show ?thesis
      using fresh(1,3) p r0(4) by (cases "x = i"; cases auth) (auto simp: h f(9))
  qed
  moreover have "x \<in> set (filed (byPickedPath t') q) \<longleftrightarrow>
      (\<exists>r. map_of (handles t') x = Some r \<and> authorisation r = UserSelected q)" for x q
  proof -
    have "x \<in> set (filed (byPickedPath t) q) \<longleftrightarrow> (\<exists>r. map_of (handles t) x = Some r \<and> authorisation r = UserSelected q)"
      using ok by (simp add: table_ok_def)
    moreover have "byPickedPath t' = byPickedPath t0" by (simp add: t')
    ultimately show ?thesis
      using fresh(1,4) p r0(4) by (cases "x = i"; cases auth) (auto simp: h f(10))
  qed
  moreover have "memory_ok t'"
  proof -
    have "recentlyClosed t' = recentlyClosed t" "revokedGrants t' = revokedGrants t" by (simp_all add: t' f(11,12))
    then show ?thesis
      using ok fresh(2) p unfolding table_ok_def memory_ok_def by (auto simp: h split: if_splits)
  qed
  moreover have "distinct (map fst (handles t'))" "index_ok (byGrant t')" "index_ok (byPickedPath t')"
    using ok f(6-8) add_child_distinct by (simp_all add: table_ok_def t')
  ultimately show ?thesis unfolding table_ok_def by (intro conjI allI; (assumption | simp))
qed

lemma tree_ok_same:
  assumes "tree_ok hs" and same: "\<And>x. map_option (\<lambda>r. (entry r, children r)) (map_of hs' x) =
      map_option (\<lambda>r. (entry r, children r)) (map_of hs x)"
  shows "tree_ok hs'"
proof -
  have view: "\<exists>r. map_of hs x = Some r \<and> entry r = entry r' \<and> children r = children r'"
    if "map_of hs' x = Some r'" for x r' using same [of x] that by (cases "map_of hs x") auto
  have fwd: "\<exists>r. map_of hs' x = Some r \<and> entry r = entry r' \<and> children r = children r'"
    if "map_of hs x = Some r'" for x r' using same [of x] that by (cases "map_of hs' x") auto
  show ?thesis
    unfolding tree_ok_def
  proof (intro conjI allI impI)
    fix p r c assume a: "map_of hs' p = Some r" "c \<in> set (children r)"
    obtain r1 where "map_of hs p = Some r1" "c \<in> set (children r1)" using view [OF a(1)] a(2) by auto
    then obtain cr where "map_of hs c = Some cr" "parentId (entry cr) = Some p"
      using assms(1) unfolding tree_ok_def by blast
    then show "\<exists>cr. map_of hs' c = Some cr \<and> parentId (entry cr) = Some p" using fwd [of c cr] by auto
  next
    fix c cr p assume a: "map_of hs' c = Some cr" "parentId (entry cr) = Some p"
    obtain c1 where "map_of hs c = Some c1" "parentId (entry c1) = Some p" using view [OF a(1)] a(2) by auto
    then obtain r where "map_of hs p = Some r" "c \<in> set (children r)"
      using assms(1) unfolding tree_ok_def by blast
    then show "\<exists>r. map_of hs' p = Some r \<and> c \<in> set (children r)" using fwd [of p r] by auto
  qed
qed

text \<open>A change to a live record that keeps its entry, its authorisation and its children.\<close>

lemma table_ok_modify:
  assumes ok: "table_ok t" and r: "map_of (handles t) i = Some r"
    and "entry r' = entry r" "authorisation r' = authorisation r" "children r' = children r"
  shows "table_ok (t\<lparr>handles := AList.update i r' (handles t)\<rparr>)"
proof -
  let ?hs = "AList.update i r' (handles t)"
  have h: "map_of ?hs x = (if x = i then Some r' else map_of (handles t) x)" for x
    by (simp add: update_conv')
  have "tree_ok (handles t)" using ok by (simp add: table_ok_def)
  then have tree: "tree_ok ?hs" by (rule tree_ok_same) (simp add: h r assms(3,5))
  have key: "keyed ?hs" using ok r assms(3) by (auto simp: table_ok_def keyed_def h split: if_splits)
  have auth: "(\<exists>s. map_of ?hs x = Some s \<and> authorisation s = a) \<longleftrightarrow>
      (\<exists>s. map_of (handles t) x = Some s \<and> authorisation s = a)" for x a
    using r assms(4) by (auto simp: h)
  have "memory_ok (t\<lparr>handles := ?hs\<rparr>)"
    using ok r unfolding table_ok_def memory_ok_def by (auto simp: h split: if_splits)
  then show ?thesis
    using ok tree key unfolding table_ok_def by (simp add: auth distinct_update del: map_of_eq_Some_iff)
qed

lemma table_ok_other_fields:
  "table_ok t \<Longrightarrow> table_ok (t\<lparr>grantOperations := x\<rparr>)" "table_ok t \<Longrightarrow> table_ok (t\<lparr>grantAliases := y\<rparr>)"
  "table_ok t \<Longrightarrow> table_ok (t\<lparr>dropping := b\<rparr>)" "table_ok t \<Longrightarrow> table_ok (t\<lparr>inFlight := n\<rparr>)"
  "table_ok t \<Longrightarrow> table_ok (t\<lparr>slotWaiters := w\<rparr>)"
  by (simp_all add: table_ok_def memory_ok_def)

lemma table_ok_tombstone:
  assumes "table_ok t" shows "table_ok (tombstone g t)"
proof -
  have "0 < REVOKED_GRANT_MEMORY" by (simp add: REVOKED_GRANT_MEMORY_def LIMIT_concurrentFileHandles_def)
  moreover have "memory_ok t" using assms by (simp add: table_ok_def)
  ultimately have "memory_ok (tombstone g t)"
    using makeRoom_props(2) [of REVOKED_GRANT_MEMORY "revokedGrants t"]
      makeRoom_props(3,4) [of "revokedGrants t" REVOKED_GRANT_MEMORY]
    by (auto simp: memory_ok_def tombstone_def remember_def)
  then show ?thesis using assms by (simp add: table_ok_def tombstone_def)
qed

section \<open>Closing several trees\<close>

lemma reach_union: "reach hs (A \<union> B) = reach hs A \<union> reach hs B"
  by (auto simp: reach_def)

lemma reach_mono: "A \<subseteq> B \<Longrightarrow> reach hs A \<subseteq> reach hs B"
  by (auto simp: reach_def)

lemma reach_trans:
  assumes "j \<in> reach hs {i}" and "i \<in> reach hs A" shows "j \<in> reach hs A"
  using assms by (auto simp: reach_def intro: rtrancl_trans)

lemma reach_edge: "j \<in> reach hs A \<Longrightarrow> (j, c) \<in> child_edges hs \<Longrightarrow> c \<in> reach hs A"
  by (auto simp: reach_def intro: rtrancl_into_rtrancl)

text \<open>What is left after one tree has gone reaches what it reached before, less that tree.\<close>

lemma reach_left:
  assumes hs': "\<And>i. map_of hs' i = (if i \<in> R then None else map_option (without R) (map_of hs i))"
    and R: "R = reach hs A"
  shows "reach hs' B = reach hs B - R"
proof -
  have e: "child_edges hs' = {(p, c). (p, c) \<in> child_edges hs \<and> p \<notin> R \<and> c \<notin> R}"
    by (auto simp: child_edges_def hs' split: if_splits)
  have closed: "c \<in> R" if "p \<in> R" "(p, c) \<in> child_edges hs" for p c
    using that R reach_edge by blast
  have "j \<notin> R \<Longrightarrow> b \<notin> R \<and> (b, j) \<in> (child_edges hs')\<^sup>*" if "(b, j) \<in> (child_edges hs)\<^sup>*" for b j
    using that
  proof (induction rule: rtrancl_induct)
    case (step y z)
    then have "y \<notin> R" using closed by blast
    then have "(y, z) \<in> child_edges hs'" using step by (simp add: e)
    then show ?case using step.IH [OF \<open>y \<notin> R\<close>] by (meson rtrancl.rtrancl_into_rtrancl)
  qed simp
  moreover have "(b, j) \<in> (child_edges hs)\<^sup>* \<and> (b \<notin> R \<longrightarrow> j \<notin> R)" if "(b, j) \<in> (child_edges hs')\<^sup>*" for b j
    using that by (induction rule: rtrancl_induct) (auto simp: e intro: rtrancl_into_rtrancl)
  ultimately show ?thesis
    by (auto simp: reach_def hs' split: if_splits)
qed

text \<open>The table after a group of trees has been closed.\<close>

definition closed_all :: "str set \<Rightarrow> origin_table \<Rightarrow> origin_table \<Rightarrow> bool" where
  "closed_all R t t' \<longleftrightarrow>
     (\<forall>i. map_of (handles t') i = (if i \<in> R then None else map_option (without R) (map_of (handles t) i))) \<and>
     revokedGrants t' = revokedGrants t \<and> dropping t' = dropping t \<and> inFlight t' = inFlight t \<and>
     slotWaiters t' = slotWaiters t \<and> grantAliases t' = grantAliases t"

lemma without_empty: "without {} r = r"
  by (simp add: without_def)

lemma without_without: "without R (without S r) = without (R \<union> S) r"
  by (simp add: without_def conj_commute)

lemma closed_all_trans:
  "closed_all R t t1 \<Longrightarrow> closed_all S t1 t2 \<Longrightarrow> closed_all (R \<union> S) t t2"
  by (auto simp: closed_all_def option.map_comp o_def without_without Un_commute)

lemma close_each_effect:
  assumes "close_each cb reason ids t = (t', es)" and "table_ok t"
  shows "table_ok t'" and "closed_all (reach (handles t) (set ids)) t t'"
    and "grantOperations t' = grantOperations t"
    and "distinct (destroyed es) \<and> set (destroyed es) = reach (handles t) (set ids)"
proof -
  have "table_ok t' \<and> closed_all (reach (handles t) (set ids)) t t' \<and> grantOperations t' = grantOperations t \<and>
      distinct (destroyed es) \<and> set (destroyed es) = reach (handles t) (set ids)"
    using assms
  proof (induction ids arbitrary: t es)
    case Nil
    then show ?case
      by (simp add: closed_all_def destroyed_def map_filter_simps without_empty [abs_def] option.map_ident)
  next
    case (Cons i ids)
    show ?case
    proof (cases "map_of (handles t) i")
      case None
      then have "reach (handles t) (set (i # ids)) = reach (handles t) (set ids)" by (simp add: reach_dead)
      then show ?thesis using Cons None by (auto split: prod.splits)
    next
      case (Some r)
      obtain t1 e1 where c: "closeTree cb r reason None t = (t1, e1)" by fastforce
      obtain e2 where e2: "close_each cb reason ids t1 = (t', e2)" "es = e1 @ e2"
        using Cons.prems(1) Some c by (auto split: prod.splits)
      note h = closeTree_handles [OF Cons.prems(2) Some c]
      have R: "reach (handles t1) (set ids) = reach (handles t) (set ids) - reach (handles t) {i}"
        by (rule reach_left [OF h(1) refl])
      have U: "reach (handles t) (set (i # ids)) = reach (handles t) {i} \<union> reach (handles t1) (set ids)"
        using reach_union [of "handles t" "{i}" "set ids"] unfolding R by auto
      have "closed_all (reach (handles t) {i}) t t1" using h(1,3) by (simp add: closed_all_def)
      moreover note IH = Cons.IH [OF e2(1) h(4)]
      ultimately have "closed_all (reach (handles t) (set (i # ids))) t t'"
        unfolding U using closed_all_trans by blast
      moreover have "distinct (destroyed es) \<and> set (destroyed es) = reach (handles t) (set (i # ids))"
        unfolding U e2(2) using IH h(2) R by auto
      ultimately show ?thesis using IH h(3) by simp
    qed
  qed
  then show "table_ok t'" "closed_all (reach (handles t) (set ids)) t t'" "grantOperations t' = grantOperations t"
    "distinct (destroyed es) \<and> set (destroyed es) = reach (handles t) (set ids)" by blast+
qed

section \<open>Revoking a grant\<close>

subsection \<open>The grants a revocation withdraws\<close>

definition alias_closure :: "(str \<times> str) set \<Rightarrow> str set \<Rightarrow> str set" where
  "alias_closure E N = {g. \<exists>b\<in>N. (g, b) \<in> E\<^sup>*}"

lemma alias_closure_union: "alias_closure E (A \<union> B) = alias_closure E A \<union> alias_closure E B"
  by (auto simp: alias_closure_def)

lemma alias_closure_base: "N \<subseteq> alias_closure E N"
  by (auto simp: alias_closure_def)

lemma alias_closure_step: "alias_closure E {g} = insert g (alias_closure E {a. (a, g) \<in> E})"
  by (auto simp: alias_closure_def elim: rtranclE intro: rtrancl_into_rtrancl)

lemma alias_closure_drop:
  assumes "a \<in> N" shows "alias_closure E N = alias_closure {(x, y). (x, y) \<in> E \<and> x \<noteq> a} N"
proof -
  let ?E = "{(x, y). (x, y) \<in> E \<and> x \<noteq> a}"
  have "(g, b) \<in> ?E\<^sup>* \<or> (g, a) \<in> ?E\<^sup>*" if "(g, b) \<in> E\<^sup>*" for g b
    using that
  proof (induction rule: converse_rtrancl_induct)
    case (step g y)
    show ?case
    proof (cases "g = a")
      case False
      then have "(g, y) \<in> ?E" using step by simp
      then show ?thesis using step.IH by (meson converse_rtrancl_into_rtrancl)
    qed simp
  qed simp
  moreover have "?E\<^sup>* \<subseteq> E\<^sup>*" by (rule rtrancl_mono) auto
  ultimately show ?thesis using assms unfolding alias_closure_def by blast
qed

fun entered :: "revoke_task list \<Rightarrow> str set" where
  "entered [] = {}" | "entered (Finish g # ts) = entered ts" | "entered (Enter g # ts) = insert g (entered ts)"
| "entered (Alias g # ts) = insert g (entered ts)"

fun finishing :: "revoke_task list \<Rightarrow> str set" where
  "finishing [] = {}" | "finishing (Finish g # ts) = insert g (finishing ts)" | "finishing (Enter g # ts) = finishing ts"
| "finishing (Alias g # ts) = finishing ts"

lemma entered_append [simp]: "entered (ts @ us) = entered ts \<union> entered us"
  by (induction ts rule: entered.induct) auto

lemma finishing_append [simp]: "finishing (ts @ us) = finishing ts \<union> finishing us"
  by (induction ts rule: finishing.induct) auto

lemma alias_tasks [simp]: "entered (map Alias gs) = set gs" "finishing (map Alias gs) = {}"
  by (induction gs) simp_all

definition withdrawn :: "origin_table \<Rightarrow> revoke_task list \<Rightarrow> str set" where
  "withdrawn t ts = finishing ts \<union> alias_closure (set (grantAliases t)) (entered ts)"

lemma drop_alias_edges: "set (grantAliases (drop_alias a t)) = {(x, y). (x, y) \<in> set (grantAliases t) \<and> x \<noteq> a}"
  by (auto simp: drop_alias_def AList.delete_eq)

lemma withdrawn_enter:
  assumes "aliasesOf t g = a # rest"
  shows "withdrawn t (Enter g # ts) = withdrawn (drop_alias a t) (Enter a # map Alias rest @ Finish g # ts)"
proof -
  let ?E = "set (grantAliases t)" and ?N = "insert a (set rest) \<union> entered ts"
  have al: "{x. (x, g) \<in> ?E} = insert a (set rest)"
    using arg_cong [OF assms, of set] by (force simp: aliasesOf_def)
  have "alias_closure ?E (entered (Enter g # ts)) = alias_closure ?E {g} \<union> alias_closure ?E (entered ts)"
    using alias_closure_union [of ?E "{g}" "entered ts"] by simp
  also have "\<dots> = insert g (alias_closure ?E ?N)"
    unfolding alias_closure_step [of ?E g] al alias_closure_union by simp
  also have "alias_closure ?E ?N = alias_closure (set (grantAliases (drop_alias a t))) ?N"
    unfolding drop_alias_edges by (rule alias_closure_drop) simp
  finally show ?thesis by (auto simp: withdrawn_def)
qed

lemma withdrawn_alias: "withdrawn t (Alias a # ts) = withdrawn (drop_alias a t) (Enter a # ts)"
  unfolding withdrawn_def drop_alias_edges
  using alias_closure_drop [of a "insert a (entered ts)" "set (grantAliases t)"] by simp

lemma withdrawn_leaf:
  assumes "aliasesOf t g = []" shows "withdrawn t (Enter g # ts) = withdrawn t (Finish g # ts)"
proof -
  have "{a. (a, g) \<in> set (grantAliases t)} = {}" using assms by (auto simp: aliasesOf_def filter_empty_conv)
  then have "alias_closure (set (grantAliases t)) {g} = {g}"
    using alias_closure_step [of "set (grantAliases t)" g] by (simp add: alias_closure_def)
  then show ?thesis
    using alias_closure_union [of "set (grantAliases t)" "{g}" "entered ts"] by (simp add: withdrawn_def)
qed

subsection \<open>What a revocation closes and cancels\<close>

definition authorised_by :: "origin_table \<Rightarrow> str set \<Rightarrow> str set" where
  "authorised_by t G = {i. \<exists>r g. map_of (handles t) i = Some r \<and> g \<in> G \<and> authorisation r = ByGrant g}"

definition withdrawn_error :: broker_error where
  "withdrawn_error = fail_with E_revoked (js ''the grant authorising this operation was withdrawn'') None None"

definition revoked_all :: "str set \<Rightarrow> origin_table \<Rightarrow> origin_table \<Rightarrow> handle_effect list \<Rightarrow> bool" where
  "revoked_all G t t' es \<longleftrightarrow>
     (let R = reach (handles t) (authorised_by t G) in
      (\<forall>i. map_of (handles t') i = (if i \<in> R then None else map_option (without R) (map_of (handles t) i))) \<and>
      distinct (destroyed es) \<and> set (destroyed es) = R) \<and>
     (\<forall>g. filed (grantOperations t') g = (if g \<in> G then [] else filed (grantOperations t) g)) \<and>
     (\<forall>g\<in>G. \<forall>op\<in>set (filed (grantOperations t) g). Cancel op withdrawn_error \<in> set es) \<and>
     dropping t' = dropping t \<and> inFlight t' = inFlight t \<and> slotWaiters t' = slotWaiters t"

lemma destroyed_cancels [simp]: "destroyed (map (\<lambda>op. Cancel op e) ops) = []"
  by (rule destroyed_none) auto

lemma finish_revoke_effect:
  assumes f: "finish_revoke cb g t = (t', es)" and ok: "table_ok t"
  shows "table_ok t'" and "revoked_all {g} t t' es" and "revokedGrants t' = revokedGrants t"
proof -
  let ?t = "t\<lparr>grantOperations := AList.delete g (grantOperations t)\<rparr>"
  have ids: "filed (byGrant t) g = (case map_of (byGrant t) g of None \<Rightarrow> [] | Some ids \<Rightarrow> ids)"
    by (simp add: filed_def)
  have ops: "filed (grantOperations t) g = (case map_of (grantOperations t) g of None \<Rightarrow> [] | Some ids \<Rightarrow> ids)"
    by (simp add: filed_def)
  obtain e1 where c: "close_each cb Revoked (filed (byGrant t) g) ?t = (t', e1)"
    "es = map (\<lambda>op. Cancel op withdrawn_error) (filed (grantOperations t) g) @ e1"
    using f by (auto simp: finish_revoke_def Let_def ids ops withdrawn_error_def split: prod.splits)
  have ok1: "table_ok ?t" by (rule table_ok_other_fields(1) [OF ok])
  note h = close_each_effect [OF c(1) ok1]
  have "set (filed (byGrant t) g) = authorised_by t {g}"
    using ok by (auto simp: table_ok_def authorised_by_def)
  then have R: "reach (handles ?t) (set (filed (byGrant t) g)) = reach (handles t) (authorised_by t {g})" by simp
  show "table_ok t'" by (rule h(1))
  show "revokedGrants t' = revokedGrants t" using h(2) by (simp add: closed_all_def)
  have "filed (grantOperations t') g' = (if g' \<in> {g} then [] else filed (grantOperations t) g')" for g'
    using h(3) by (simp add: filed_def delete_conv')
  then show "revoked_all {g} t t' es"
    using h(2,4) unfolding revoked_all_def R closed_all_def c(2) by (simp add: Let_def)
qed

lemma authorised_union: "authorised_by t (A \<union> B) = authorised_by t A \<union> authorised_by t B"
  by (auto simp: authorised_by_def)

lemma revoked_all_trans:
  assumes 1: "revoked_all A t t1 e1" and 2: "revoked_all B t1 t2 e2"
  shows "revoked_all (A \<union> B) t t2 (e1 @ e2)"
proof -
  let ?R = "reach (handles t) (authorised_by t A)" and ?S = "reach (handles t1) (authorised_by t1 B)"
  let ?U = "reach (handles t) (authorised_by t (A \<union> B))"
  have h1: "map_of (handles t1) i = (if i \<in> ?R then None else map_option (without ?R) (map_of (handles t) i))" for i
    using 1 by (simp add: revoked_all_def Let_def)
  have h2: "map_of (handles t2) i = (if i \<in> ?S then None else map_option (without ?S) (map_of (handles t1) i))" for i
    using 2 by (simp add: revoked_all_def Let_def)
  have "authorised_by t1 B = authorised_by t B - ?R"
    by (auto simp: authorised_by_def h1 split: if_splits)
  then have "?S = reach (handles t) (authorised_by t B - ?R) - ?R"
    using reach_left [OF h1 refl] by simp
  moreover have "reach (handles t) (authorised_by t B) \<subseteq> reach (handles t) (authorised_by t B - ?R) \<union> ?R"
  proof
    fix j assume "j \<in> reach (handles t) (authorised_by t B)"
    then obtain b where b: "b \<in> authorised_by t B" "j \<in> reach (handles t) {b}" by (auto simp: reach_def)
    then show "j \<in> reach (handles t) (authorised_by t B - ?R) \<union> ?R"
      using reach_trans [OF b(2)] reach_mono [of "{b}" "authorised_by t B - ?R" "handles t"] by blast
  qed
  moreover have "reach (handles t) (authorised_by t B - ?R) \<subseteq> reach (handles t) (authorised_by t B)"
    by (rule reach_mono) auto
  ultimately have U: "?U = ?R \<union> ?S" and D: "?R \<inter> ?S = {}"
    unfolding authorised_union reach_union by blast+
  have "map_of (handles t2) i = (if i \<in> ?U then None else map_option (without ?U) (map_of (handles t) i))" for i
    unfolding U by (auto simp: h1 h2 option.map_comp o_def without_without Un_commute)
  moreover have "distinct (destroyed (e1 @ e2)) \<and> set (destroyed (e1 @ e2)) = ?U"
    using 1 2 D unfolding U by (auto simp: revoked_all_def Let_def)
  moreover have "filed (grantOperations t2) g = (if g \<in> A \<union> B then [] else filed (grantOperations t) g)" for g
    using 1 2 by (auto simp: revoked_all_def Let_def)
  moreover have "Cancel op withdrawn_error \<in> set (e1 @ e2)"
    if "g \<in> A \<union> B" "op \<in> set (filed (grantOperations t) g)" for g op
  proof (cases "g \<in> A")
    case True then show ?thesis using 1 that by (simp add: revoked_all_def)
  next
    case False
    then have "op \<in> set (filed (grantOperations t1) g)" using 1 that by (simp add: revoked_all_def)
    then show ?thesis using 2 that False by (simp add: revoked_all_def)
  qed
  ultimately show ?thesis using 1 2 unfolding revoked_all_def Let_def by simp
qed

lemma revoked_all_none: "revoked_all {} t t []"
  by (simp add: revoked_all_def authorised_by_def destroyed_def map_filter_simps without_empty [abs_def]
      option.map_ident)

lemma revoked_all_prepared:
  "revoked_all G (tombstone g t) t' es = revoked_all G t t' es"
  "revoked_all G (drop_alias a t) t' es = revoked_all G t t' es"
  by (simp_all add: revoked_all_def authorised_by_def tombstone_def drop_alias_def)

lemma withdrawn_tombstone [simp]: "withdrawn (tombstone g t) ts = withdrawn t ts"
  by (simp add: withdrawn_def)

lemma table_ok_drop_alias: "table_ok t \<Longrightarrow> table_ok (drop_alias a t)"
  unfolding drop_alias_def by (rule table_ok_other_fields(2))

lemma revoke_tasks_effect:
  "revoke_tasks cb tasks t = (t', es) \<Longrightarrow> table_ok t \<Longrightarrow>
   table_ok t' \<and> revoked_all (withdrawn t tasks) t t' es"
proof (induction cb tasks t arbitrary: t' es rule: revoke_tasks.induct)
  case (1 cb t)
  then show ?case by (simp add: withdrawn_def alias_closure_def revoked_all_none)
next
  case (2 cb g tasks t)
  have ok: "table_ok (tombstone g t)" by (rule table_ok_tombstone [OF "2.prems"(2)])
  show ?case
  proof (cases "aliasesOf t g")
    case Nil
    then show ?thesis
      using "2.IH"(1) [OF refl _ _ ok] "2.prems"(1) withdrawn_leaf [OF Nil]
      by (simp add: Let_def revoked_all_prepared)
  next
    case (Cons a rest)
    have w: "withdrawn (drop_alias a (tombstone g t)) ts = withdrawn (drop_alias a t) ts" for ts
      by (simp add: withdrawn_def drop_alias_def tombstone_def)
    then have "revoke_tasks cb (Enter a # map Alias rest @ Finish g # tasks) (drop_alias a (tombstone g t)) = (t', es)"
      using "2.prems"(1) Cons
      by (subst (asm) revoke_tasks.simps(2)) (simp add: Let_def del: revoke_tasks.simps(2))
    then have "table_ok t' \<and> revoked_all (withdrawn (drop_alias a (tombstone g t))
        (Enter a # map Alias rest @ Finish g # tasks)) (drop_alias a (tombstone g t)) t' es"
      using "2.IH"(2) [OF refl _ _ table_ok_drop_alias [OF ok]] Cons
      by (simp add: del: revoke_tasks.simps(2))
    then show ?thesis
      using withdrawn_enter [OF Cons] w by (simp only: revoked_all_prepared)
  qed
next
  case (3 cb a tasks t)
  then show ?case
    using "3.IH" [OF _ table_ok_drop_alias [OF "3.prems"(2)]] withdrawn_alias [of t a tasks]
    by (simp add: revoked_all_prepared)
next
  case (4 cb g tasks t)
  obtain t1 e1 where f: "finish_revoke cb g t = (t1, e1)" by fastforce
  obtain e2 where r: "revoke_tasks cb tasks t1 = (t', e2)" "es = e1 @ e2"
    using "4.prems"(1) f by (auto split: prod.splits)
  note e = finish_revoke_effect [OF f "4.prems"(2)]
  have "withdrawn t1 tasks = withdrawn t tasks" by (simp add: withdrawn_def finish_revoke_aliases [OF f])
  moreover have "withdrawn t (Finish g # tasks) = {g} \<union> withdrawn t tasks" by (simp add: withdrawn_def)
  ultimately show ?case
    using "4.IH" [OF f [symmetric] r(1) e(1)] revoked_all_trans [OF e(2)] r(2) by simp
qed

text \<open>The grant itself is remembered as revoked; one that no other grant was replaced by stays so.\<close>

lemma revoke_tombstone:
  assumes "revoke_tasks cb [Enter g] t = (t', es)" and "aliasesOf t g = []" and "table_ok t"
  shows "g \<in> set (revokedGrants t')" and "grantAliases t' = grantAliases t"
proof -
  obtain t1 e1 where f: "finish_revoke cb g (tombstone g t) = (t1, e1)" by fastforce
  have "t' = t1" using assms(1,2) f by (simp add: Let_def)
  then show "g \<in> set (revokedGrants t')" "grantAliases t' = grantAliases t"
    using finish_revoke_effect(3) [OF f table_ok_tombstone [OF assms(3)]] finish_revoke_aliases [OF f]
    by (simp_all add: tombstone_def remember_def)
qed

section \<open>Replacing a grant\<close>

text \<open>No handle appears, and one that stays keeps its entry and its own coverage test.\<close>

definition same_handles :: "origin_table \<Rightarrow> origin_table \<Rightarrow> bool" where
  "same_handles t t' \<longleftrightarrow> (\<forall>i r'. map_of (handles t') i = Some r' \<longrightarrow>
     (\<exists>r. map_of (handles t) i = Some r \<and> entry r' = entry r \<and> stillCovered r' = stillCovered r))"

lemma same_handles_trans: "same_handles t t1 \<Longrightarrow> same_handles t1 t2 \<Longrightarrow> same_handles t t2"
  unfolding same_handles_def by metis

lemma still_covered_same:
  assumes "same_handles t t'" and ok: "table_ok t'" and "map_of (handles t) i = Some r"
    and r': "map_of (handles t') i = Some r'"
  shows "still_covered t' r' ps ca = still_covered t r ps ca"
proof -
  have "\<exists>s. map_of (handles t) i = Some s \<and> entry r' = entry s \<and> stillCovered r' = stillCovered s"
    using assms(1) r' unfolding same_handles_def by blast
  then have r: "entry r' = entry r" "stillCovered r' = stillCovered r" using assms(3) by auto
  show ?thesis
  proof (cases "parentId (entry r)")
    case None then show ?thesis using r by (simp add: still_covered_def)
  next
    case (Some p)
    then have "parentId (entry r') = Some p" using r(1) by simp
    then obtain q' where q': "map_of (handles t') p = Some q'"
      using ok r' unfolding table_ok_def tree_ok_def by blast
    then obtain q where "map_of (handles t) p = Some q" "stillCovered q' = stillCovered q"
      using assms(1) unfolding same_handles_def by blast
    then show ?thesis using Some q' r by (simp add: still_covered_def)
  qed
qed

lemma refile_fields:
  assumes "authorisation r = ByGrant h"
  shows "handles (refile g r t) = AList.update (entry_id (entry r)) (r\<lparr>authorisation := ByGrant g\<rparr>) (handles t)"
    and "byGrant (refile g r t) = file_under g (entry_id (entry r)) (unfile h (entry_id (entry r)) (byGrant t))"
    and "byPickedPath (refile g r t) = byPickedPath t" "grantOperations (refile g r t) = grantOperations t"
    "recentlyClosed (refile g r t) = recentlyClosed t" "revokedGrants (refile g r t) = revokedGrants t"
    "grantAliases (refile g r t) = grantAliases t" "dropping (refile g r t) = dropping t"
    "inFlight (refile g r t) = inFlight t" "slotWaiters (refile g r t) = slotWaiters t"
  using assms by (simp_all add: refile_def Let_def)

lemma refile_handles:
  assumes ok: "table_ok t" and r: "map_of (handles t) i = Some r" and h: "authorisation r = ByGrant h"
  shows "map_of (handles (refile g r t)) x =
      (if x = i then Some (r\<lparr>authorisation := ByGrant g\<rparr>) else map_of (handles t) x)"
    and "table_ok (refile g r t)" and "same_handles t (refile g r t)"
    and "reach (handles (refile g r t)) A = reach (handles t) A"
proof -
  note f = refile_fields [OF h, of g t]
  have i: "entry_id (entry r) = i" using ok r by (simp add: table_ok_def keyed_def)
  show m: "map_of (handles (refile g r t)) x =
      (if x = i then Some (r\<lparr>authorisation := ByGrant g\<rparr>) else map_of (handles t) x)" for x
    by (simp add: f(1) i update_conv')
  have "child_edges (handles (refile g r t)) = child_edges (handles t)"
    using r by (auto simp: child_edges_def m)
  moreover have "map_of (handles (refile g r t)) x = None \<longleftrightarrow> map_of (handles t) x = None" for x
    using r by (simp add: m)
  ultimately show "reach (handles (refile g r t)) A = reach (handles t) A" by (simp add: reach_def)
  show "same_handles t (refile g r t)" using r by (auto simp: same_handles_def m)
  have old: "keyed (handles t)" "tree_ok (handles t)" "memory_ok t"
    "\<And>x k. x \<in> set (filed (byGrant t) k) \<longleftrightarrow> (\<exists>s. map_of (handles t) x = Some s \<and> authorisation s = ByGrant k)"
    "\<And>x k. x \<in> set (filed (byPickedPath t) k) \<longleftrightarrow>
      (\<exists>s. map_of (handles t) x = Some s \<and> authorisation s = UserSelected k)"
    using ok by (simp_all add: table_ok_def)
  have tree: "tree_ok (handles (refile g r t))"
    by (rule tree_ok_same [OF old(2)]) (simp add: m r)
  have "x \<in> set (filed (byGrant (refile g r t)) k) \<longleftrightarrow>
      (\<exists>s. map_of (handles (refile g r t)) x = Some s \<and> authorisation s = ByGrant k)" for x k
    using r h by (cases "x = i") (auto simp: f(2) i filed_file_under filed_unfile m old(4))
  moreover have "x \<in> set (filed (byPickedPath (refile g r t)) p) \<longleftrightarrow>
      (\<exists>s. map_of (handles (refile g r t)) x = Some s \<and> authorisation s = UserSelected p)" for x p
    using r h by (cases "x = i") (auto simp: f(3) m old(5))
  moreover have "keyed (handles (refile g r t))" using old(1) r by (simp add: keyed_def m)
  moreover have "memory_ok (refile g r t)"
    using old(3) r unfolding memory_ok_def by (simp add: m f(5,6))
  moreover have "distinct (map fst (handles (refile g r t)))" "index_ok (byGrant (refile g r t))"
    "index_ok (byPickedPath (refile g r t))"
    using ok by (simp_all add: table_ok_def f(1-3) distinct_update)
  ultimately show "table_ok (refile g r t)"
    using tree unfolding table_ok_def by (intro conjI allI; (assumption | simp))
qed

lemma closeTree_same:
  assumes "table_ok t" and "map_of (handles t) i = Some r" and "closeTree cb r reason f t = (t', es)"
  shows "same_handles t t'" and "reach (handles t') A \<subseteq> reach (handles t) A"
  using closeTree_handles(1) [OF assms] reach_left [OF closeTree_handles(1) [OF assms] refl, of A]
  by (auto simp: same_handles_def split: if_splits)

definition replaced_ok :: "str \<Rightarrow> str list \<Rightarrow> bool \<Rightarrow> str set \<Rightarrow> origin_table \<Rightarrow> origin_table \<Rightarrow> bool" where
  "replaced_ok rep ps ca ids t t' \<longleftrightarrow>
     same_handles t t' \<and>
     (\<forall>i r r'. map_of (handles t) i = Some r \<longrightarrow> map_of (handles t') i = Some r' \<longrightarrow>
        (if i \<in> ids then authorisation r' = ByGrant rep \<and> still_covered t r ps ca
         else authorisation r' = authorisation r)) \<and>
     (\<forall>i. map_of (handles t) i \<noteq> None \<longrightarrow> map_of (handles t') i = None \<longrightarrow>
        (\<exists>j\<in>ids. \<exists>r. map_of (handles t) j = Some r \<and> \<not> still_covered t r ps ca \<and> i \<in> reach (handles t) {j})) \<and>
     grantOperations t' = grantOperations t \<and> revokedGrants t' = revokedGrants t \<and>
     grantAliases t' = grantAliases t \<and> dropping t' = dropping t \<and> inFlight t' = inFlight t \<and>
     slotWaiters t' = slotWaiters t"

lemma replace_each_effect:
  assumes "replace_each cb rep ps ca ids t = (t', es)" and "table_ok t" and "distinct ids"
    and "\<forall>i\<in>set ids. \<forall>r. map_of (handles t) i = Some r \<longrightarrow> (\<exists>g. authorisation r = ByGrant g)"
  shows "table_ok t' \<and> replaced_ok rep ps ca (set ids) t t'"
  using assms
proof (induction ids arbitrary: t es)
  case Nil
  then show ?case by (simp add: replaced_ok_def same_handles_def)
next
  case (Cons i ids)
  let ?first = "case map_of (handles t) i of None \<Rightarrow> (t, [])
      | Some r \<Rightarrow> if still_covered t r ps ca then (refile rep r t, []) else closeTree cb r Revoked None t"
  obtain t1 e1 where f: "?first = (t1, e1)" by fastforce
  obtain e2 where r2: "replace_each cb rep ps ca ids t1 = (t', e2)"
    using Cons.prems(1) f by (auto split: prod.splits)
  have one: "table_ok t1 \<and> replaced_ok rep ps ca {i} t t1 \<and> (\<forall>A. reach (handles t1) A \<subseteq> reach (handles t) A)"
  proof (cases "map_of (handles t) i")
    case None
    then have "t1 = t" using f by simp
    then show ?thesis using Cons.prems(2) None by (auto simp: replaced_ok_def same_handles_def)
  next
    case (Some r)
    obtain h where h: "authorisation r = ByGrant h" using Cons.prems(4) Some by auto
    show ?thesis
    proof (cases "still_covered t r ps ca")
      case True
      then have t1: "t1 = refile rep r t" using f Some by simp
      note m = refile_handles [OF Cons.prems(2) Some h, of rep]
      show ?thesis
        using m(2-4) True Some unfolding t1 replaced_ok_def
        by (auto simp: m(1) refile_fields(3-10) [OF h])
    next
      case False
      then have c: "closeTree cb r Revoked None t = (t1, e1)" using f Some by simp
      note m = closeTree_handles [OF Cons.prems(2) Some c] and s = closeTree_same [OF Cons.prems(2) Some c]
      have "i \<in> reach (handles t) {i}" using Some by (auto simp: reach_def)
      then have "replaced_ok rep ps ca {i} t t1"
        using m(3) s(1) False Some unfolding replaced_ok_def by (auto simp: m(1) split: if_splits)
      then show ?thesis using m(4) s(2) by blast
    qed
  qed
  then have t1: "table_ok t1" "replaced_ok rep ps ca {i} t t1"
    and sub: "reach (handles t1) A \<subseteq> reach (handles t) A" for A by blast+
  have live: "map_of (handles t) x \<noteq> None" if "map_of (handles t1) x = Some r" for x r
    using t1(2) that unfolding replaced_ok_def same_handles_def by blast
  have grants: "\<forall>j\<in>set ids. \<forall>r. map_of (handles t1) j = Some r \<longrightarrow> (\<exists>g. authorisation r = ByGrant g)"
  proof (intro ballI allI impI)
    fix j r assume j: "j \<in> set ids" "map_of (handles t1) j = Some r"
    then obtain s where s: "map_of (handles t) j = Some s" using live by blast
    moreover have "j \<notin> {i}" using Cons.prems(3) j(1) by auto
    ultimately have "authorisation r = authorisation s"
      using t1(2) j(2) unfolding replaced_ok_def by meson
    then show "\<exists>g. authorisation r = ByGrant g" using Cons.prems(4) j(1) s by auto
  qed
  have IH: "table_ok t'" "replaced_ok rep ps ca (set ids) t1 t'"
    using Cons.IH [OF r2 t1(1) _ grants] Cons.prems(3) by auto
  have same: "same_handles t t1" "same_handles t1 t'" using t1(2) IH(2) by (simp_all add: replaced_ok_def)
  have covered: "still_covered t1 s1 ps ca = still_covered t s ps ca"
    if "map_of (handles t) x = Some s" "map_of (handles t1) x = Some s1" for x s s1
    by (rule still_covered_same [OF same(1) t1(1) that])
  have a1: "if x \<in> {i} then authorisation s1 = ByGrant rep \<and> still_covered t s ps ca
      else authorisation s1 = authorisation s"
    if "map_of (handles t) x = Some s" "map_of (handles t1) x = Some s1" for x s s1
    using t1(2) that unfolding replaced_ok_def by blast
  have a2: "if x \<in> set ids then authorisation s' = ByGrant rep \<and> still_covered t1 s1 ps ca
      else authorisation s' = authorisation s1"
    if "map_of (handles t1) x = Some s1" "map_of (handles t') x = Some s'" for x s' s1
    using IH(2) that unfolding replaced_ok_def by blast
  have "if x \<in> set (i # ids) then authorisation r' = ByGrant rep \<and> still_covered t r ps ca
      else authorisation r' = authorisation r"
    if r: "map_of (handles t) x = Some r" "map_of (handles t') x = Some r'" for x r r'
  proof -
    obtain r1 where r1: "map_of (handles t1) x = Some r1" using same(2) r(2) unfolding same_handles_def by blast
    show ?thesis
      using a1 [OF r(1) r1] a2 [OF r1 r(2)] covered [OF r(1) r1] Cons.prems(3) by (auto split: if_splits)
  qed
  moreover have "\<exists>j\<in>set (i # ids). \<exists>r. map_of (handles t) j = Some r \<and> \<not> still_covered t r ps ca \<and>
      x \<in> reach (handles t) {j}" if x: "map_of (handles t) x \<noteq> None" "map_of (handles t') x = None" for x
  proof (cases "map_of (handles t1) x")
    case None
    then show ?thesis using t1(2) x(1) unfolding replaced_ok_def by auto
  next
    case (Some s1)
    then obtain j r1 where j: "j \<in> set ids" "map_of (handles t1) j = Some r1" "\<not> still_covered t1 r1 ps ca"
      "x \<in> reach (handles t1) {j}"
      using IH(2) x(2) unfolding replaced_ok_def by blast
    obtain r where r: "map_of (handles t) j = Some r" using live [OF j(2)] by blast
    then show ?thesis using j covered [OF r j(2)] sub [of "{j}"] by auto
  qed
  ultimately have "replaced_ok rep ps ca (set (i # ids)) t t'"
    using same_handles_trans [OF same] t1(2) IH(2) unfolding replaced_ok_def by simp
  then show ?case using IH(1) by blast
qed

lemma replaceGrantIn_parts:
  assumes "replaceGrantIn cb replaced replacement ps coversAll t = (t', es)" and ok: "table_ok t"
  obtains t1 e1 where "replace_each cb replacement ps coversAll (filed (byGrant t) replaced) t = (t1, e1)"
    and "table_ok t1" and "replaced_ok replacement ps coversAll (authorised_by t {replaced}) t t1"
    and "table_ok t'" and "handles t' = handles t1"
    and "coversAll \<Longrightarrow> map_of (grantAliases t') replaced = Some replacement"
    and "\<not> coversAll \<Longrightarrow> replaced \<in> set (revokedGrants t') \<and> filed (grantOperations t') replaced = [] \<and>
      (\<forall>op\<in>set (filed (grantOperations t) replaced). \<exists>e. Cancel op e \<in> set es \<and> err_code e = E_revoked)"
proof -
  obtain t1 e1 where r: "replace_each cb replacement ps coversAll (filed (byGrant t) replaced) t = (t1, e1)" by fastforce
  have ids: "set (filed (byGrant t) replaced) = authorised_by t {replaced}"
    using ok by (auto simp: table_ok_def authorised_by_def)
  have dist: "distinct (filed (byGrant t) replaced)" using ok by (simp add: table_ok_def index_ok_filed)
  have grants: "\<forall>i\<in>set (filed (byGrant t) replaced). \<forall>r. map_of (handles t) i = Some r \<longrightarrow>
      (\<exists>g. authorisation r = ByGrant g)"
    unfolding ids by (auto simp: authorised_by_def)
  have e: "table_ok t1" "replaced_ok replacement ps coversAll (authorised_by t {replaced}) t t1"
    using replace_each_effect [OF r ok dist grants] unfolding ids by (rule conjunct1, rule conjunct2)
  have f: "(case map_of (byGrant t) replaced of None \<Rightarrow> [] | Some ids \<Rightarrow> ids) = filed (byGrant t) replaced"
    "(case map_of (grantOperations x) replaced of None \<Rightarrow> [] | Some ops \<Rightarrow> ops) = filed (grantOperations x) replaced" for x
    by (simp_all add: filed_def)
  show ?thesis
  proof (cases coversAll)
    case True
    then have t': "t' = t1\<lparr>grantAliases := AList.update replaced replacement
        (map (\<lambda>(a, target). (a, if target = replaced then replacement else target)) (grantAliases t1))\<rparr>"
      using assms(1) r by (simp add: replaceGrantIn_def f)
    show ?thesis
      by (rule that [OF r e]) (use True e(1) in \<open>simp_all add: t' table_ok_other_fields(2) update_conv'\<close>)
  next
    case False
    let ?e = "fail_with E_revoked (js ''the grant authorising this operation was replaced'') None None"
    have t': "t' = (tombstone replaced t1)\<lparr>grantOperations := AList.delete replaced (grantOperations t1)\<rparr>"
      "es = e1 @ map (\<lambda>op. Cancel op ?e) (filed (grantOperations t1) replaced)"
      using assms(1) r False by (simp_all add: replaceGrantIn_def f tombstone_def Let_def)
    have "table_ok t'" unfolding t'(1) by (rule table_ok_other_fields(1) [OF table_ok_tombstone [OF e(1)]])
    moreover have "replaced \<in> set (revokedGrants t') \<and> filed (grantOperations t') replaced = []"
      by (simp add: t'(1) tombstone_def remember_def filed_def delete_conv')
    moreover have "grantOperations t1 = grantOperations t" using e(2) by (simp add: replaced_ok_def)
    then have "\<forall>op\<in>set (filed (grantOperations t) replaced). Cancel op ?e \<in> set es" by (simp add: t'(2))
    ultimately show ?thesis
      by (intro that [OF r e]) (use False in \<open>auto simp: t'(1) tombstone_def fail_with_def\<close>)
  qed
qed

end
