(* ===== verification/HandleSteps.thy ===== *)
theory HandleSteps imports HandleRuns begin

section \<open>The registry over any sequence of calls\<close>

text \<open>
  The invariant of the whole registry: every table is well formed, holds only handles of its own
  origin, stays within its budgets and accounts for every operation in flight; and no call, in any
  order and with any arguments, breaks it.
\<close>

subsection \<open>Kinds and their budgets\<close>

definition of_kind :: "origin_table \<Rightarrow> handle_kind set \<Rightarrow> str set" where
  "of_kind t kinds = {i. \<exists>r. map_of (handles t) i = Some r \<and> entry_kind (entry r) \<in> kinds}"

definition budgets_ok :: "origin_table \<Rightarrow> bool" where
  "budgets_ok t \<longleftrightarrow> int (card (of_kind t (set SOCKET_KINDS))) \<le> LIMIT_concurrentSockets \<and>
     card (of_kind t {FileHandle}) \<le> LIMIT_concurrentFileHandles \<and>
     card (of_kind t {IdentityHandle}) \<le> MAX_IDENTITY_HANDLES \<and>
     card (of_kind t {WebContext}) \<le> LIMIT_webContexts \<and> card (of_kind t {Embed}) \<le> LIMIT_embeds"

lemma finite_of_kind [simp]: "finite (of_kind t kinds)"
  by (rule finite_subset [of _ "fst ` set (handles t)"]) (auto simp: of_kind_def dest: map_of_SomeD intro!: rev_image_eqI)

definition has_kind :: "handle_kind set \<Rightarrow> str \<times> handle_record \<Rightarrow> bool" where
  "has_kind kinds h = (entry_kind (entry (snd h)) \<in> kinds)"

lemma count_one_fields:
  "sockets (count_one c x) = (if x \<in> set SOCKET_KINDS then Suc (sockets c) else sockets c)"
  "files (count_one c x) = (if x = FileHandle then Suc (files c) else files c)"
  "identities (count_one c x) = (if x = IdentityHandle then Suc (identities c) else identities c)"
  "webContexts (count_one c x) = (if x = WebContext then Suc (webContexts c) else webContexts c)"
  "embeds (count_one c x) = (if x = Embed then Suc (embeds c) else embeds c)"
  by (cases x; simp add: count_one_def SOCKET_KINDS_def)+

lemma census_foldl:
  "sockets (foldl (\<lambda>c (i, r). count_one c (entry_kind (entry r))) c hs) =
     sockets c + length (filter (has_kind (set SOCKET_KINDS)) hs)"
  "files (foldl (\<lambda>c (i, r). count_one c (entry_kind (entry r))) c hs) =
     files c + length (filter (has_kind {FileHandle}) hs)"
  "identities (foldl (\<lambda>c (i, r). count_one c (entry_kind (entry r))) c hs) =
     identities c + length (filter (has_kind {IdentityHandle}) hs)"
  "webContexts (foldl (\<lambda>c (i, r). count_one c (entry_kind (entry r))) c hs) =
     webContexts c + length (filter (has_kind {WebContext}) hs)"
  "embeds (foldl (\<lambda>c (i, r). count_one c (entry_kind (entry r))) c hs) =
     embeds c + length (filter (has_kind {Embed}) hs)"
  by (induction hs arbitrary: c) (simp_all add: count_one_fields has_kind_def case_prod_beta)

lemma card_of_kind:
  assumes "distinct (map fst (handles t))"
  shows "length (filter (has_kind kinds) (handles t)) = card (of_kind t kinds)"
proof -
  have "of_kind t kinds = fst ` set (filter (has_kind kinds) (handles t))"
    using assms by (fastforce simp: of_kind_def has_kind_def image_iff)
  moreover have "distinct (map fst (filter (has_kind kinds) (handles t)))"
    using assms by (rule distinct_map_filter)
  ultimately show ?thesis by (metis distinct_card length_map set_map)
qed

lemma census_cards:
  assumes "distinct (map fst (handles t))"
  shows "sockets (census_of t) = card (of_kind t (set SOCKET_KINDS))"
    "files (census_of t) = card (of_kind t {FileHandle})"
    "identities (census_of t) = card (of_kind t {IdentityHandle})"
    "webContexts (census_of t) = card (of_kind t {WebContext})"
    "embeds (census_of t) = card (of_kind t {Embed})"
  by (simp_all add: census_of_def census_foldl card_of_kind [OF assms])

definition budget_of :: "handle_kind set \<Rightarrow> int" where
  "budget_of kinds = (if kinds = set SOCKET_KINDS then LIMIT_concurrentSockets
     else if kinds = {FileHandle} then int LIMIT_concurrentFileHandles
     else if kinds = {IdentityHandle} then int MAX_IDENTITY_HANDLES
     else if kinds = {WebContext} then int LIMIT_webContexts else int LIMIT_embeds)"

definition budget_classes :: "handle_kind set list" where
  "budget_classes = [set SOCKET_KINDS, {FileHandle}, {IdentityHandle}, {WebContext}, {Embed}]"

lemma budgets_ok_classes:
  "budgets_ok t \<longleftrightarrow> (\<forall>kinds\<in>set budget_classes. int (card (of_kind t kinds)) \<le> budget_of kinds)"
proof -
  have k: "set SOCKET_KINDS \<noteq> {FileHandle}" "set SOCKET_KINDS \<noteq> {IdentityHandle}"
    "set SOCKET_KINDS \<noteq> {WebContext}" "set SOCKET_KINDS \<noteq> {Embed}"
    by (auto simp: SOCKET_KINDS_def)
  show ?thesis
    unfolding budgets_ok_def budget_classes_def using k k [symmetric]
    by (simp add: budget_of_def)
qed

text \<open>A handle that was let in leaves room for itself.\<close>

lemma assertCapacity_room:
  assumes "assertCapacity t kind limit = None" and "distinct (map fst (handles t))"
    and "case limit of None \<Rightarrow> True | Some n \<Rightarrow> n \<le> LIMIT_concurrentSockets"
    and "kinds \<in> set budget_classes" and "kind \<in> kinds"
  shows "int (card (of_kind t kinds)) < budget_of kinds"
  using assms(1,3-5) census_cards [OF assms(2)]
  by (cases kind; cases limit)
    (auto simp: assertCapacity_def budget_classes_def budget_of_def SOCKET_KINDS_def Let_def split: if_splits)

lemma budgets_ok_added:
  assumes "budgets_ok t" and "map_of (handles t) i = None"
    and new: "\<And>kinds. of_kind t' kinds = (if kind \<in> kinds then insert i (of_kind t kinds) else of_kind t kinds)"
    and room: "\<And>kinds. kinds \<in> set budget_classes \<Longrightarrow> kind \<in> kinds \<Longrightarrow> int (card (of_kind t kinds)) < budget_of kinds"
  shows "budgets_ok t'"
  unfolding budgets_ok_classes
proof
  fix kinds assume k: "kinds \<in> set budget_classes"
  have "i \<notin> of_kind t kinds" using assms(2) by (simp add: of_kind_def)
  then show "int (card (of_kind t' kinds)) \<le> budget_of kinds"
    using room [OF k] assms(1) k unfolding budgets_ok_classes new by (cases "kind \<in> kinds") (simp_all add: card_insert_if)
qed

subsection \<open>A good table\<close>

definition good_table :: "str \<Rightarrow> origin_table \<Rightarrow> bool" where
  "good_table k t \<longleftrightarrow> table_ok t \<and> budgets_ok t \<and>
     (\<forall>i r. map_of (handles t) i = Some r \<longrightarrow> entry_origin (entry r) = k)"

lemma good_new: "good_table k new_table"
  by (simp add: good_table_def new_table_def table_ok_def keyed_def tree_ok_def index_ok_def filed_def memory_ok_def
      budgets_ok_def of_kind_def LIMIT_concurrentSockets_def)

lemma good_shrinks:
  assumes "good_table k t" and "table_ok t'" and same: "same_handles t t'"
  shows "good_table k t'"
proof -
  have sub: "of_kind t' kinds \<subseteq> of_kind t kinds" for kinds
    using same unfolding same_handles_def of_kind_def by fastforce
  have "budgets_ok t'"
    unfolding budgets_ok_classes
  proof
    fix kinds assume k: "kinds \<in> set budget_classes"
    have "card (of_kind t' kinds) \<le> card (of_kind t kinds)" by (rule card_mono [OF finite_of_kind sub])
    moreover have "int (card (of_kind t kinds)) \<le> budget_of kinds"
      using assms(1) k unfolding good_table_def budgets_ok_classes by blast
    ultimately show "int (card (of_kind t' kinds)) \<le> budget_of kinds" by linarith
  qed
  moreover have "entry_origin (entry r) = k" if "map_of (handles t') i = Some r" for i r
    using assms(1) same that unfolding same_handles_def good_table_def by metis
  ultimately show ?thesis using assms(2) by (simp add: good_table_def)
qed

lemma good_insert:
  assumes good: "good_table k t" and cap: "assertCapacity t kind limit = None"
    and lim: "case limit of None \<Rightarrow> True | Some n \<Rightarrow> n \<le> LIMIT_concurrentSockets"
    and new: "i \<notin> set (used_ids t)"
    and ok: "table_ok t'"
    and h: "\<And>x. map_option entry (map_of (handles t') x) =
      (if x = i then Some e else map_option entry (map_of (handles t) x))"
    and e: "entry_kind e = kind" "entry_origin e = k"
  shows "good_table k t'"
proof -
  have fresh: "map_of (handles t) i = None" using new by (auto simp: used_ids_def map_of_eq_None_iff)
  have kinds: "of_kind t kinds = {x. \<exists>d. map_option entry (map_of (handles t) x) = Some d \<and> entry_kind d \<in> kinds}"
    for t :: origin_table and kinds
    by (auto simp: of_kind_def)
  have "of_kind t' kinds = (if kind \<in> kinds then insert i (of_kind t kinds) else of_kind t kinds)" for kinds
  proof (cases "kind \<in> kinds")
    case True
    then show ?thesis unfolding kinds h using e(1) by auto
  next
    case False
    then show ?thesis unfolding kinds h using e(1) fresh by auto
  qed
  moreover have "distinct (map fst (handles t))" using good by (simp add: good_table_def table_ok_def)
  ultimately have "budgets_ok t'"
    using good assertCapacity_room [OF cap _ lim] fresh unfolding good_table_def by (metis budgets_ok_added)
  moreover have "entry_origin (entry r) = k" if "map_of (handles t') x = Some r" for x r
  proof (cases "x = i")
    case True
    then show ?thesis using h [of x] that e(2) by simp
  next
    case False
    then have "map_option entry (map_of (handles t) x) = Some (entry r)" using h [of x] that by simp
    then obtain s where "map_of (handles t) x = Some s" "entry s = entry r"
      by (cases "map_of (handles t) x") simp_all
    then show ?thesis using good unfolding good_table_def by metis
  qed
  ultimately show ?thesis using ok by (simp add: good_table_def)
qed

subsection \<open>A table that is being dropped\<close>

definition quiet :: "origin_table \<Rightarrow> bool" where
  "quiet t \<longleftrightarrow> (dropping t \<longrightarrow> (\<forall>i. map_of (handles t) i = None) \<and> (\<forall>g. filed (grantOperations t) g = []))"

text \<open>What a change of a table does to it that no slot is taken or given back by.\<close>

definition fine :: "str \<Rightarrow> origin_table \<Rightarrow> origin_table \<Rightarrow> bool" where
  "fine k t t' \<longleftrightarrow> good_table k t' \<and> quiet t' \<and> inFlight t' = inFlight t \<and> slotWaiters t' = slotWaiters t"

lemma fine_shrinks:
  assumes "good_table k t" and "quiet t" and "table_ok t'" and same: "same_handles t t'"
    and "\<forall>g. filed (grantOperations t) g = [] \<longrightarrow> filed (grantOperations t') g = []"
    and "dropping t' = dropping t" "inFlight t' = inFlight t" "slotWaiters t' = slotWaiters t"
  shows "fine k t t'"
proof -
  have "map_of (handles t') i = None" if "map_of (handles t) i = None" for i
    using same that unfolding same_handles_def by (metis option.distinct(1) not_None_eq)
  then have "quiet t'" using assms(2,5,6) by (simp add: quiet_def)
  then show ?thesis using good_shrinks [OF assms(1,3) same] assms(7,8) by (simp add: fine_def)
qed

lemma good_ok: "good_table k t \<Longrightarrow> table_ok t"
  by (simp add: good_table_def)

lemma fine_closeTree:
  assumes g: "good_table k t" and "quiet t" and r: "map_of (handles t) i = Some r"
    and c: "closeTree cb r reason f t = (t', es)"
  shows "fine k t t'"
  using closeTree_handles(3,4) [OF good_ok [OF g] r c] closeTree_same(1) [OF good_ok [OF g] r c]
  by (intro fine_shrinks [OF assms(1,2)]) simp_all

lemma closed_all_same: "closed_all R t t' \<Longrightarrow> same_handles t t'"
  by (auto simp: closed_all_def same_handles_def split: if_splits)

lemma fine_close_each:
  assumes g: "good_table k t" and "quiet t" and c: "close_each cb reason ids t = (t', es)"
  shows "fine k t t'"
  using close_each_effect [OF c good_ok [OF g]] closed_all_same
  by (intro fine_shrinks [OF assms(1,2)]) (auto simp: closed_all_def)

lemma revoked_all_same: "revoked_all G t t' es \<Longrightarrow> same_handles t t'"
  by (auto simp: revoked_all_def same_handles_def Let_def split: if_splits)

lemma fine_revoke_tasks:
  assumes g: "good_table k t" and "quiet t" and c: "revoke_tasks cb tasks t = (t', es)"
  shows "fine k t t'"
  using revoke_tasks_effect [OF c good_ok [OF g]] revoked_all_same
  by (intro fine_shrinks [OF assms(1,2)]) (auto simp: revoked_all_def)

lemma fine_replaceGrantIn:
  assumes g: "good_table k t" and "quiet t" and c: "replaceGrantIn cb a b ps ca t = (t', es)"
  shows "fine k t t'"
proof -
  obtain t1 e1 where r: "replace_each cb b ps ca (filed (byGrant t) a) t = (t1, e1)"
    and one: "replaced_ok b ps ca (authorised_by t {a}) t t1" "table_ok t'" "handles t' = handles t1"
    by (rule replaceGrantIn_parts [OF c good_ok [OF g]])
  have "replace_each cb b ps ca (case map_of (byGrant t) a of None \<Rightarrow> [] | Some ids \<Rightarrow> ids) t = (t1, e1)"
    using r by (simp add: filed_def)
  then have f: "dropping t' = dropping t1 \<and> inFlight t' = inFlight t1 \<and> slotWaiters t' = slotWaiters t1 \<and>
      (\<forall>g. filed (grantOperations t1) g = [] \<longrightarrow> filed (grantOperations t') g = [])"
    using c by (cases ca) (auto simp: replaceGrantIn_def Let_def filed_def delete_conv')
  have "same_handles t t'" using one(1,3) by (simp add: replaced_ok_def same_handles_def)
  then show ?thesis
    using f one(1) by (intro fine_shrinks [OF assms(1,2) one(2)]) (simp_all add: replaced_ok_def)
qed

lemma fine_modify:
  assumes g: "good_table k t" and "quiet t" and r: "map_of (handles t) i = Some r"
    and "entry r' = entry r" "authorisation r' = authorisation r" "children r' = children r"
    "stillCovered r' = stillCovered r"
  shows "fine k t (t\<lparr>handles := AList.update i r' (handles t)\<rparr>)"
  using table_ok_modify [OF good_ok [OF g] r assms(4-6)] r assms(4,7)
  by (intro fine_shrinks [OF assms(1,2)]) (auto simp: same_handles_def update_conv' split: if_splits)

lemma fine_grantIssued:
  assumes "good_table k t" and "quiet t"
  shows "fine k t (t\<lparr>revokedGrants := removeAll g (revokedGrants t)\<rparr>)"
proof -
  have "length (removeAll g (revokedGrants t)) \<le> REVOKED_GRANT_MEMORY" if "length (revokedGrants t) \<le> REVOKED_GRANT_MEMORY"
    using that length_removeAll_less_eq [of g "revokedGrants t"] by linarith
  then have "table_ok (t\<lparr>revokedGrants := removeAll g (revokedGrants t)\<rparr>)"
    using assms(1) by (simp add: good_table_def table_ok_def memory_ok_def distinct_removeAll)
  then show ?thesis by (intro fine_shrinks [OF assms]) (simp_all add: same_handles_def)
qed

subsection \<open>Operations in flight\<close>

text \<open>An operation that has begun and not ended: its name, the key and the serial of the table it
  began on, and its scope.\<close>

type_synonym ticket = "nat \<times> str \<times> nat \<times> operation_scope"

definition ops_of :: "ticket list \<Rightarrow> str \<Rightarrow> nat \<Rightarrow> nat set" where
  "ops_of ts k s = {op. \<exists>scope. (op, k, s, scope) \<in> set ts}"

definition accounted :: "nat set \<Rightarrow> origin_table \<Rightarrow> bool" where
  "accounted ops t \<longleftrightarrow> distinct (slotWaiters t) \<and> set (slotWaiters t) \<subseteq> ops \<and>
     inFlight t = int (card (ops - set (slotWaiters t))) \<and> inFlight t \<le> int LIMIT_inFlightOperations \<and>
     length (slotWaiters t) \<le> IN_FLIGHT_QUEUE_LIMIT \<and>
     (slotWaiters t \<noteq> [] \<longrightarrow> inFlight t = int LIMIT_inFlightOperations)"

lemma finite_ops_of [simp]: "finite (ops_of ts k s)"
  by (rule finite_subset [of _ "fst ` set ts"]) (force simp: ops_of_def)+

lemma accounted_same:
  "inFlight t' = inFlight t \<Longrightarrow> slotWaiters t' = slotWaiters t \<Longrightarrow> accounted ops t' \<longleftrightarrow> accounted ops t"
  by (simp add: accounted_def)

lemma accountedD:
  assumes "accounted ops t"
  shows "distinct (slotWaiters t)" "set (slotWaiters t) \<subseteq> ops"
    "inFlight t = int (card (ops - set (slotWaiters t)))" "inFlight t \<le> int LIMIT_inFlightOperations"
    "length (slotWaiters t) \<le> IN_FLIGHT_QUEUE_LIMIT"
    "slotWaiters t \<noteq> [] \<Longrightarrow> inFlight t = int LIMIT_inFlightOperations"
  using assms unfolding accounted_def by blast+

lemma accountedI:
  assumes "distinct (slotWaiters t)" "set (slotWaiters t) \<subseteq> ops"
    "inFlight t = int (card (ops - set (slotWaiters t)))" "inFlight t \<le> int LIMIT_inFlightOperations"
    "length (slotWaiters t) \<le> IN_FLIGHT_QUEUE_LIMIT"
    "slotWaiters t \<noteq> [] \<Longrightarrow> inFlight t = int LIMIT_inFlightOperations"
  shows "accounted ops t"
  using assms unfolding accounted_def by blast

lemma limits_positive: "0 < LIMIT_inFlightOperations" "IN_FLIGHT_QUEUE_LIMIT = LIMIT_inFlightOperations"
  by (simp_all add: LIMIT_inFlightOperations_def IN_FLIGHT_QUEUE_LIMIT_def)

lemma accounted_take:
  assumes "accounted ops t" and "op \<notin> ops" and "finite ops" and "tryTakeSlot t = (t', True)"
  shows "accounted (insert op ops) t'" and "slotWaiters t' = slotWaiters t"
proof -
  have t: "t' = t\<lparr>inFlight := inFlight t + 1\<rparr>" "inFlight t < int LIMIT_inFlightOperations" "slotWaiters t = []"
    using assms(4) by (auto simp: tryTakeSlot_def split: if_splits)
  then show "accounted (insert op ops) t'" "slotWaiters t' = slotWaiters t"
    using assms(1-3) by (simp_all add: accounted_def)
qed

lemma accounted_wait:
  assumes acc: "accounted ops t" and "op \<notin> ops" and "tryTakeSlot t = (t1, False)" and "waitForSlot op t1 = Inr t'"
  shows "accounted (insert op ops) t'"
proof -
  note d = accountedD [OF acc]
  have full: "t1 = t" "inFlight t \<ge> int LIMIT_inFlightOperations \<or> slotWaiters t \<noteq> []"
    using assms(3) by (auto simp: tryTakeSlot_def split: if_splits)
  then have n: "inFlight t = int LIMIT_inFlightOperations" using d(4,6) by linarith
  have t': "\<not> queueFull t" "t' = t\<lparr>slotWaiters := slotWaiters t @ [op]\<rparr>"
    using assms(4) full(1) by (auto simp: waitForSlot_def split: if_splits)
  have room: "length (slotWaiters t) < IN_FLIGHT_QUEUE_LIMIT" using t'(1) n by (simp add: queueFull_def)
  have new: "op \<notin> set (slotWaiters t)" using d(2) assms(2) by blast
  have "insert op ops - insert op (set (slotWaiters t)) = ops - set (slotWaiters t)" using assms(2) by blast
  then show ?thesis
    by (intro accountedI) (use d(1-4) n room new t'(2) in \<open>simp_all add: subset_insertI2\<close>)
qed

lemma accounted_leave:
  assumes "accounted ops t" and "op \<in> set (slotWaiters t)"
  shows "accounted (ops - {op}) (unqueue op t)"
proof -
  have w: "distinct (slotWaiters t)" using assms(1) by (simp add: accounted_def)
  have r: "set (remove1 op (slotWaiters t)) = set (slotWaiters t) - {op}" using w by simp
  have "ops - {op} - set (remove1 op (slotWaiters t)) = ops - set (slotWaiters t)"
    using assms(2) unfolding r by auto
  moreover have "length (remove1 op (slotWaiters t)) \<le> length (slotWaiters t)" by (simp add: length_remove1)
  moreover have "slotWaiters t \<noteq> []" using assms(2) by auto
  moreover have "distinct (remove1 op (slotWaiters t))" using w by simp
  moreover have "set (remove1 op (slotWaiters t)) \<subseteq> ops - {op}"
    using assms(1) unfolding r accounted_def by blast
  moreover have "inFlight t = int (card (ops - set (slotWaiters t)))" "inFlight t \<le> int LIMIT_inFlightOperations"
    "length (slotWaiters t) \<le> IN_FLIGHT_QUEUE_LIMIT"
    "slotWaiters t \<noteq> [] \<Longrightarrow> inFlight t = int LIMIT_inFlightOperations"
    using assms(1) unfolding accounted_def by blast+
  ultimately show ?thesis
    unfolding accounted_def unqueue_def by (intro conjI impI) simp_all
qed

lemma accounted_release:
  assumes acc: "accounted ops t" and op: "op \<in> ops" "op \<notin> set (slotWaiters t)" and fin: "finite ops"
    and r: "releaseSlot t = (t', admitted)"
  shows "accounted (ops - {op}) t'"
proof (cases "slotWaiters t")
  case Nil
  then have t': "t' = t\<lparr>inFlight := inFlight t - 1\<rparr>" using r by (simp add: releaseSlot_def)
  note d = accountedD [OF acc]
  have "card (ops - {op}) = card ops - 1" "0 < card ops" using op(1) fin card_gt_0_iff by auto
  then show ?thesis
    by (intro accountedI) (use d Nil in \<open>simp_all add: t'\<close>)
next
  case (Cons w rest)
  then have t': "t' = t\<lparr>slotWaiters := rest\<rparr>" using r by (simp add: releaseSlot_def)
  note d = accountedD [OF acc, unfolded Cons]
  have w: "w \<notin> set rest" "distinct rest" "w \<in> ops" "op \<noteq> w" "op \<notin> set rest" "set rest \<subseteq> ops"
    using d(1,2) op(2) Cons by auto
  have "ops - {op} - set rest = insert w (ops - insert w (set rest) - {op})" using w by auto
  moreover have "op \<in> ops - insert w (set rest)" using w op(1) by auto
  ultimately have "card (ops - {op} - set rest) = card (ops - insert w (set rest))"
    using fin card_Suc_Diff1 [of "ops - insert w (set rest)" op] by simp
  moreover have "set rest \<subseteq> ops - {op}" using w by blast
  ultimately show ?thesis
    by (intro accountedI) (use d w in \<open>simp_all add: t'\<close>)
qed

subsection \<open>The invariant of the registry\<close>

definition registry_ok :: "handle_table \<Rightarrow> ticket list \<Rightarrow> bool" where
  "registry_ok T ts \<longleftrightarrow> distinct (map fst ts) \<and>
     (\<forall>k s t. map_of (tables T) k = Some (s, t) \<longrightarrow>
        good_table k t \<and> quiet t \<and> accounted (ops_of ts k s) t \<and> s < next_serial T) \<and>
     (\<forall>op k s scope. (op, k, s, scope) \<in> set ts \<longrightarrow> s < next_serial T)"

lemma registry_okD:
  assumes "registry_ok T ts"
  shows "distinct (map fst ts)" "(op, k, s, scope) \<in> set ts \<Longrightarrow> s < next_serial T"
    "map_of (tables T) k = Some (s, t) \<Longrightarrow> good_table k t"
    "map_of (tables T) k = Some (s, t) \<Longrightarrow> quiet t"
    "map_of (tables T) k = Some (s, t) \<Longrightarrow> accounted (ops_of ts k s) t"
    "map_of (tables T) k = Some (s, t) \<Longrightarrow> s < next_serial T"
  using assms unfolding registry_ok_def by blast+

lemma registry_ok_empty: "registry_ok empty_handle_table []"
  by (simp add: registry_ok_def empty_handle_table_def)

lemma registry_ok_drawn [simp]: "registry_ok (T\<lparr>drawn := n\<rparr>) ts = registry_ok T ts"
  by (simp add: registry_ok_def)

lemma registry_ok_delete: "registry_ok T ts \<Longrightarrow> registry_ok (T\<lparr>tables := AList.delete k (tables T)\<rparr>) ts"
  unfolding registry_ok_def by (simp add: delete_conv' del: map_of_eq_Some_iff)

lemma registry_ok_deleteIfCurrent: "registry_ok T ts \<Longrightarrow> registry_ok (deleteIfCurrent k s T) ts"
  by (auto simp: deleteIfCurrent_def registry_ok_delete split: option.split)

lemma registry_ok_put:
  assumes ok: "registry_ok T ts" and k: "map_of (tables T) k = Some (s, t)"
    and t': "good_table k t'" "quiet t'" "accounted (ops_of ts' k s) t'"
    and ts': "distinct (map fst ts')" "\<And>k' s'. k' \<noteq> k \<Longrightarrow> ops_of ts' k' s' = ops_of ts k' s'"
      "\<And>op k' s' scope. (op, k', s', scope) \<in> set ts' \<Longrightarrow> s' < next_serial T"
  shows "registry_ok (put_table k s t' T) ts'" and "registry_ok (reap k s t' T) ts'"
proof -
  have "good_table k' u \<and> quiet u \<and> accounted (ops_of ts' k' s') u \<and> s' < next_serial T"
    if "map_of (tables (put_table k s t' T)) k' = Some (s', u)" for k' s' u
  proof (cases "k' = k")
    case True
    then show ?thesis using that t' registry_okD(6) [OF ok k] by (simp add: put_table_def update_conv')
  next
    case False
    then have "map_of (tables T) k' = Some (s', u)" using that by (simp add: put_table_def update_conv')
    then show ?thesis using registry_okD(3-6) [OF ok] ts'(2) [OF False] by simp
  qed
  then show put: "registry_ok (put_table k s t' T) ts'"
    unfolding registry_ok_def using ts'(1,3) by (simp add: put_table_def del: map_of_eq_Some_iff)
  have "reap k s t' T = (if dropping t' \<or> \<not> holds_nothing t' then put_table k s t' T
      else deleteIfCurrent k s (put_table k s t' T))"
    by (simp add: reap_def put_table_def Let_def)
  then show "registry_ok (reap k s t' T) ts'" using put registry_ok_deleteIfCurrent by simp
qed

lemma registry_ok_fine:
  assumes ok: "registry_ok T ts" and k: "map_of (tables T) k = Some (s, t)" and f: "fine k t t'"
  shows "registry_ok (put_table k s t' T) ts" and "registry_ok (reap k s t' T) ts"
proof -
  have f': "good_table k t'" "quiet t'" "inFlight t' = inFlight t" "slotWaiters t' = slotWaiters t"
    using f by (simp_all add: fine_def)
  have "accounted (ops_of ts k s) t'"
    using registry_okD(5) [OF ok k] accounted_same [OF f'(3,4)] by simp
  then show "registry_ok (put_table k s t' T) ts" "registry_ok (reap k s t' T) ts"
    by (intro registry_ok_put [OF ok k f'(1,2)] registry_okD(1,2) [OF ok]; (assumption | simp))+
qed

lemma registry_ok_getOrCreate:
  assumes ok: "registry_ok T ts" and g: "getOrCreate T k = (T', s, t)"
  shows "registry_ok T' ts" and "map_of (tables T') k = Some (s, t)"
proof -
  have "registry_ok T' ts \<and> map_of (tables T') k = Some (s, t)"
  proof (cases "map_of (tables T) k")
    case (Some p)
    then show ?thesis using g ok by (cases p) (simp add: getOrCreate_def)
  next
    case None
    then have T': "T' = T\<lparr>tables := AList.update k (next_serial T, new_table) (tables T),
        next_serial := Suc (next_serial T)\<rparr>" "s = next_serial T" "t = new_table"
      using g by (auto simp: getOrCreate_def)
    have none: "ops_of ts k (next_serial T) = {}"
      using registry_okD(2) [OF ok] by (fastforce simp: ops_of_def)
    have new: "quiet new_table" "accounted {} new_table"
      by (simp_all add: quiet_def new_table_def accounted_def)
    have "registry_ok T' ts"
      unfolding registry_ok_def
    proof (intro conjI allI impI)
      show "distinct (map fst ts)" by (rule registry_okD(1) [OF ok])
      show "s' < next_serial T'" if "(op, k', s', scope) \<in> set ts" for op k' s' scope
        using registry_okD(2) [OF ok that] T'(1) by simp
      fix k' s' u assume "map_of (tables T') k' = Some (s', u)"
      then have "(k' = k \<and> s' = next_serial T \<and> u = new_table) \<or> map_of (tables T) k' = Some (s', u)"
        by (simp add: T'(1) update_conv' split: if_splits)
      then show "good_table k' u" "quiet u" "accounted (ops_of ts k' s') u" "s' < next_serial T'"
        using registry_okD(3-6) [OF ok] good_new new none T'(1) by (auto simp: less_Suc_eq)
    qed
    then show ?thesis by (simp add: T' update_conv')
  qed
  then show "registry_ok T' ts" "map_of (tables T') k = Some (s, t)" by blast+
qed

subsection \<open>Acquiring keeps it\<close>

definition limit_ok :: "int option \<Rightarrow> bool" where
  "limit_ok limit \<longleftrightarrow> (case limit of None \<Rightarrow> True | Some n \<Rightarrow> n \<le> LIMIT_concurrentSockets)"

text \<open>What an acquisition that was let in did.\<close>

definition admitted :: "table_env \<Rightarrow> acquire_request \<Rightarrow> handle_table \<Rightarrow> handle_table \<Rightarrow> handle_entry \<Rightarrow> bool" where
  "admitted env req T T' e \<longleftrightarrow>
     (\<exists>k s t T1 i n t'. registry_key env (req_origin req) = Inr k \<and> getOrCreate T k = (T1, s, t) \<and>
        assertAcquirable t (req_auth req) = None \<and> assertCapacity t (req_kind req) (req_limit req) = None \<and>
        fresh_id (t_draw env) (used_ids t) (drawn T1) = Some (i, n) \<and>
        insert_handle i k (req_kind req) (req_auth req) None (req_covered req) t = (t', e) \<and>
        T' = (put_table k s t' T1)\<lparr>drawn := n\<rparr>)"

lemma acquire_cases:
  assumes "acquire env req T = Some (T', es, res)"
  shows "(\<exists>e. res = Inr e \<and> es = [] \<and> admitted env req T T' e) \<or>
    ((\<exists>e. res = Inl e) \<and> (T' = T \<or> (\<exists>k s t. getOrCreate T k = (T', s, t))))"
proof (cases "registry_key env (req_origin req)")
  case (Inl e)
  then show ?thesis using assms by (auto simp: acquire_def Let_def)
next
  case (Inr k)
  obtain T1 s t where g: "getOrCreate T k = (T1, s, t)" by (cases "getOrCreate T k") auto
  show ?thesis
  proof (cases "assertAcquirable t (req_auth req) = None \<and> assertCapacity t (req_kind req) (req_limit req) = None")
    case False
    then show ?thesis
      using assms Inr g by (auto simp: acquire_def Let_def split: option.splits)
  next
    case True
    then obtain i n where f: "fresh_id (t_draw env) (used_ids t) (drawn T1) = Some (i, n)"
      using assms Inr g by (auto simp: acquire_def Let_def split: option.splits)
    obtain t' e where ins: "insert_handle i k (req_kind req) (req_auth req) None (req_covered req) t = (t', e)"
      by fastforce
    have "T' = (put_table k s t' T1)\<lparr>drawn := n\<rparr>" "es = []" "res = Inr e"
      using assms Inr g True f ins by (auto simp: acquire_def Let_def)
    then show ?thesis using Inr g True f ins unfolding admitted_def by blast
  qed
qed

lemma not_dropping: "assertAcquirable t auth = None \<Longrightarrow> \<not> dropping t"
  by (auto simp: assertAcquirable_def split: if_splits)

lemma registry_ok_acquire:
  assumes ok: "registry_ok T ts" and acq: "acquire env req T = Some (T', es, res)" and lim: "limit_ok (req_limit req)"
  shows "registry_ok T' ts"
  using acquire_cases [OF acq]
proof (elim disjE conjE exE)
  fix e assume "admitted env req T T' e"
  then obtain k s t T1 i n t' where key: "getOrCreate T k = (T1, s, t)"
    "assertAcquirable t (req_auth req) = None" "assertCapacity t (req_kind req) (req_limit req) = None"
    "fresh_id (t_draw env) (used_ids t) (drawn T1) = Some (i, n)"
    and ins: "insert_handle i k (req_kind req) (req_auth req) None (req_covered req) t = (t', e)"
    and T': "T' = (put_table k s t' T1)\<lparr>drawn := n\<rparr>"
    unfolding admitted_def by blast
  note one = registry_ok_getOrCreate [OF ok key(1)]
  note good = registry_okD(3) [OF one]
  note new = fresh_id_Some [OF key(4)]
  note f = insert_handle_fields [OF ins]
  have "good_table k t'"
    using lim unfolding limit_ok_def
    by (rule good_insert [OF good key(3) _ new table_ok_insert [OF good_ok [OF good] new ins] _ f(3,2)])
      (simp add: f(5) insert_handle_def)
  then have "fine k t t'" using not_dropping [OF key(2)] f(15-17) by (simp add: fine_def quiet_def)
  then show "registry_ok T' ts" using registry_ok_fine(1) [OF one] by (simp add: T')
qed (use ok registry_ok_getOrCreate(1) [OF ok] in blast)+

definition derived_in :: "table_env \<Rightarrow> derived_request \<Rightarrow> handle_table \<Rightarrow> handle_table \<Rightarrow> handle_entry \<Rightarrow> bool" where
  "derived_in env req T T' e \<longleftrightarrow>
     (\<exists>k s t T1 parent i n t0 t'. registry_key env (der_origin req) = Inr k \<and> getOrCreate T k = (T1, s, t) \<and>
        record_in t (der_parent req) = Inr parent \<and> entry_kind (entry parent) \<in> set SOCKET_KINDS \<and>
        der_kind req = TcpSocket \<and> assertAcquirable t (authorisation parent) = None \<and>
        assertCapacity t (der_kind req) (der_limit req) = None \<and>
        fresh_id (t_draw env) (used_ids t) (drawn T1) = Some (i, n) \<and>
        insert_handle i k (der_kind req) (authorisation parent) (Some (entry_id (entry parent))) None t = (t0, e) \<and>
        t' = t0\<lparr>handles := add_child (entry_id (entry parent)) i (handles t0)\<rparr> \<and>
        T' = (put_table k s t' T1)\<lparr>drawn := n\<rparr>)"

lemma acquireDerived_cases:
  assumes "acquireDerived env req T = Some (T', es, res)"
  shows "(\<exists>e. res = Inr e \<and> es = [] \<and> derived_in env req T T' e) \<or>
    ((\<exists>e. res = Inl e) \<and> (T' = T \<or> (\<exists>k s t. getOrCreate T k = (T', s, t))))"
proof (cases "registry_key env (der_origin req)")
  case (Inl e)
  then show ?thesis using assms by (auto simp: acquireDerived_def Let_def)
next
  case (Inr k)
  obtain T1 s t where g: "getOrCreate T k = (T1, s, t)" by (cases "getOrCreate T k") auto
  show ?thesis
  proof (cases "record_in t (der_parent req)")
    case (Inl e)
    then show ?thesis using assms Inr g by (auto simp: acquireDerived_def Let_def)
  next
    case p: (Inr parent)
    show ?thesis
    proof (cases "entry_kind (entry parent) \<in> set SOCKET_KINDS \<and> der_kind req = TcpSocket \<and>
        assertAcquirable t (authorisation parent) = None \<and> assertCapacity t (der_kind req) (der_limit req) = None")
      case False
      then show ?thesis
        using assms Inr g p by (auto simp: acquireDerived_def Let_def split: option.splits if_splits)
    next
      case True
      then obtain i n where f: "fresh_id (t_draw env) (used_ids t) (drawn T1) = Some (i, n)"
        using assms Inr g p by (auto simp: acquireDerived_def Let_def split: option.splits)
      obtain t0 e where ins: "insert_handle i k (der_kind req) (authorisation parent)
          (Some (entry_id (entry parent))) None t = (t0, e)" by fastforce
      have "T' = (put_table k s (t0\<lparr>handles := add_child (entry_id (entry parent)) i (handles t0)\<rparr>) T1)\<lparr>drawn := n\<rparr>"
        "es = []" "res = Inr e"
        using assms Inr g p True f ins by (auto simp: acquireDerived_def Let_def)
      then show ?thesis using Inr g p True f ins unfolding derived_in_def by blast
    qed
  qed
qed

lemma record_in_Inr: "record_in t i = Inr r \<longleftrightarrow> map_of (handles t) i = Some r"
  by (auto simp: record_in_def split: option.splits ended_as.splits)

lemma registry_ok_acquireDerived:
  assumes ok: "registry_ok T ts" and acq: "acquireDerived env req T = Some (T', es, res)"
    and lim: "limit_ok (der_limit req)"
  shows "registry_ok T' ts"
  using acquireDerived_cases [OF acq]
proof (elim disjE conjE exE)
  fix e assume "derived_in env req T T' e"
  then obtain k s t T1 parent i n t0 t' where key: "getOrCreate T k = (T1, s, t)"
    "record_in t (der_parent req) = Inr parent" "assertAcquirable t (authorisation parent) = None"
    "assertCapacity t (der_kind req) (der_limit req) = None"
    "fresh_id (t_draw env) (used_ids t) (drawn T1) = Some (i, n)"
    and ins: "insert_handle i k (der_kind req) (authorisation parent) (Some (entry_id (entry parent))) None t = (t0, e)"
    and t': "t' = t0\<lparr>handles := add_child (entry_id (entry parent)) i (handles t0)\<rparr>"
    and T': "T' = (put_table k s t' T1)\<lparr>drawn := n\<rparr>"
    unfolding derived_in_def by blast
  note one = registry_ok_getOrCreate [OF ok key(1)]
  note good = registry_okD(3) [OF one]
  note new = fresh_id_Some [OF key(5)]
  note f = insert_handle_fields [OF ins]
  have "map_of (handles t) (der_parent req) = Some parent" using key(2) by (simp add: record_in_Inr)
  then have p: "map_of (handles t) (entry_id (entry parent)) = Some parent"
    using good by (auto simp: good_table_def table_ok_def keyed_def)
  have "good_table k t'"
  proof (rule good_insert [OF good key(4) _ new table_ok_derive [OF good_ok [OF good] new p ins t'] _ f(3,2)])
    show "case der_limit req of None \<Rightarrow> True | Some n \<Rightarrow> n \<le> LIMIT_concurrentSockets"
      using lim by (simp add: limit_ok_def)
    have "entry_id (entry parent) \<noteq> i" using p new by (force simp: used_ids_def dest: map_of_SomeD)
    then show "map_option entry (map_of (handles t') x) =
        (if x = i then Some e else map_option entry (map_of (handles t) x))" for x
      using p by (auto simp: t' add_child_map f(5) insert_handle_def)
  qed
  then have "fine k t t'" using not_dropping [OF key(3)] f(15-17) by (simp add: fine_def quiet_def t')
  then show "registry_ok T' ts" using registry_ok_fine(1) [OF one] by (simp add: T')
qed (use ok registry_ok_getOrCreate(1) [OF ok] in blast)+

subsection \<open>Operations beginning and ending keep it\<close>

lemma good_slots [simp]:
  "good_table k (t\<lparr>inFlight := n\<rparr>) = good_table k t" "good_table k (t\<lparr>slotWaiters := w\<rparr>) = good_table k t"
  "quiet (t\<lparr>inFlight := n\<rparr>) = quiet t" "quiet (t\<lparr>slotWaiters := w\<rparr>) = quiet t"
  by (simp_all add: good_table_def table_ok_def memory_ok_def budgets_ok_def of_kind_def quiet_def)

lemma slots_kept:
  "tryTakeSlot t = (t', b) \<Longrightarrow> good_table k t \<and> quiet t \<Longrightarrow> good_table k t' \<and> quiet t'"
  "waitForSlot op t = Inr t' \<Longrightarrow> good_table k t \<and> quiet t \<Longrightarrow> good_table k t' \<and> quiet t'"
  "releaseSlot t = (t', a) \<Longrightarrow> good_table k t \<and> quiet t \<Longrightarrow> good_table k t' \<and> quiet t'"
  "good_table k t \<and> quiet t \<Longrightarrow> good_table k (unqueue op t) \<and> quiet (unqueue op t)"
  by (auto simp: tryTakeSlot_def waitForSlot_def releaseSlot_def unqueue_def split: if_splits list.splits)

lemma fine_refl: "good_table k t \<Longrightarrow> quiet t \<Longrightarrow> fine k t t"
  by (simp add: fine_def)

lemma good_grantOperations [simp]: "good_table k (t\<lparr>grantOperations := x\<rparr>) = good_table k t"
  by (simp add: good_table_def table_ok_def memory_ok_def budgets_ok_def of_kind_def)

lemma fine_add_operation:
  assumes "good_table k t" and "quiet t" and "\<And>g. scope = OnGrant g \<Longrightarrow> \<not> dropping t"
  shows "fine k t (add_operation scope op t)"
proof (cases scope)
  case (OnHandle i)
  then show ?thesis
    using assms fine_refl fine_modify by (auto simp: add_operation_def split: option.split)
next
  case (OnGrant g)
  then have "\<not> dropping t" using assms(3) by blast
  then show ?thesis using OnGrant assms(1) by (simp add: add_operation_def fine_def quiet_def)
qed

lemma fine_remove_operation:
  assumes "good_table k t" and "quiet t"
  shows "fine k t (remove_operation scope op t)"
proof (cases scope)
  case (OnHandle i)
  then show ?thesis
    using assms fine_refl fine_modify by (auto simp: remove_operation_def split: option.split)
next
  case (OnGrant g)
  then have r: "remove_operation scope op t = t\<lparr>grantOperations := unfile g op (grantOperations t)\<rparr>"
    by (simp add: remove_operation_def)
  have "filed (unfile g op (grantOperations t)) h = []" if "filed (grantOperations t) h = []" for h
    using that by (auto simp: filed_unfile)
  then show ?thesis using assms by (simp add: r fine_def quiet_def)
qed

text \<open>The table an operation begins on.\<close>

lemma run_begin_table:
  assumes "run_begin env origin scope op abandoned T = (T', es, Inr (k, s, st))"
  obtains T1 t t1 t2 where "registry_key env origin = Inr k" and "\<not> abandoned"
    and "(T1 = T \<and> map_of (tables T) k = Some (s, t)) \<or> getOrCreate T k = (T1, s, t)"
    and "\<And>i. scope = OnHandle i \<Longrightarrow> \<exists>r. map_of (handles t) i = Some r"
    and "\<And>g. scope = OnGrant g \<Longrightarrow> \<not> dropping t \<and> g \<notin> set (revokedGrants t)"
    and "t1 = add_operation scope op t" and "T' = put_table k s t2 T1" and "es = []"
    and "(st = Running \<and> tryTakeSlot t1 = (t2, True)) \<or>
      (st = Queued \<and> tryTakeSlot t1 = (t1, False) \<and> waitForSlot op t1 = Inr t2)"
proof -
  have a: "\<not> abandoned" using assms by (auto simp: run_begin_def)
  obtain k0 where k0: "registry_key env origin = Inr k0"
    using assms a by (cases "registry_key env origin") (simp_all add: run_begin_def)
  define pick where "pick = (case scope of
                   OnHandle i \<Rightarrow>
                     (case existing_table T k0 of
                        None \<Rightarrow> Inl (fail_with E_denied NOT_YOURS (Some i) None)
                      | Some (s, t) \<Rightarrow> (case record_in t i of Inl e \<Rightarrow> Inl e | Inr _ \<Rightarrow> Inr (T, s, t)))
                 | OnGrant g \<Rightarrow>
                     (if (case existing_table T k0 of
                            None \<Rightarrow> False | Some (s, t) \<Rightarrow> g \<in> set (revokedGrants t) \<or> dropping t)
                      then Inl (fail_with E_revoked
                             (js ''the grant authorising this operation was withdrawn'') None None)
                      else Inr (getOrCreate T k0)))"
  have run: "run_begin env origin scope op abandoned T = (case pick of
             Inl e \<Rightarrow> (T, [], Inl e)
           | Inr (T, s, t) \<Rightarrow>
               if queueFull t
               then (T, [], Inl (fail_with E_limit (js ''origin has '' @ to_string 10 LIMIT_inFlightOperations @
                       js '' operations in flight and as many waiting'') None None))
               else (let t = add_operation scope op t in
                 case tryTakeSlot t of
                   (t, True) \<Rightarrow> (put_table k0 s t T, [], Inr (k0, s, Running))
                 | (t, False) \<Rightarrow>
                     (case waitForSlot op t of
                        Inl e \<Rightarrow> (reap k0 s (remove_operation scope op t) T, [], Inl e)
                      | Inr t \<Rightarrow> (put_table k0 s t T, [], Inr (k0, s, Queued)))))"
    using a k0 by (simp add: run_begin_def pick_def)
  obtain T1 s1 t where pk: "pick = Inr (T1, s1, t)"
    using assms run by (cases pick) auto
  have where_: "(T1 = T \<and> map_of (tables T) k0 = Some (s1, t)) \<or> getOrCreate T k0 = (T1, s1, t)"
    using pk by (auto simp: pick_def existing_table_def simp del: map_of_eq_Some_iff
        split: operation_scope.splits option.splits sum.splits if_splits)
  have onh: "\<exists>r. map_of (handles t) i = Some r" if "scope = OnHandle i" for i
    using pk that record_in_Inr by (auto simp: pick_def simp del: map_of_eq_Some_iff split: option.splits sum.splits)
  have ong: "\<not> dropping t \<and> g \<notin> set (revokedGrants t)" if "scope = OnGrant g" for g
    using pk that by (auto simp: pick_def existing_table_def getOrCreate_def new_table_def simp del: map_of_eq_Some_iff
        split: option.splits if_splits)
  let ?t1 = "add_operation scope op t"
  have q: "\<not> queueFull t" using assms run pk by (auto split: if_splits)
  obtain t2 b where tk: "tryTakeSlot ?t1 = (t2, b)" by fastforce
  show thesis
  proof (cases b)
    case True
    then have "T' = put_table k0 s1 t2 T1" "es = []" "k = k0" "s = s1" "st = Running"
      using assms run pk q tk by (auto simp: Let_def)
    note eqs = this
    show thesis
      by (rule that [OF k0 [folded eqs(3)] a where_ [folded eqs(3,4)] onh ong refl eqs(1) [folded eqs(3,4)] eqs(2)])
        (use tk True eqs(5) in simp_all)
  next
    case False
    then have t2: "t2 = ?t1" using tk by (auto simp: tryTakeSlot_def split: if_splits)
    obtain t3 where w: "waitForSlot op ?t1 = Inr t3"
      using assms run pk q tk False t2 by (cases "waitForSlot op ?t1") (simp_all add: Let_def)
    have "T' = put_table k0 s1 t3 T1" "es = []" "k = k0" "s = s1" "st = Queued"
      using assms run pk q tk False t2 w by (auto simp: Let_def)
    note eqs = this
    show thesis
      by (rule that [OF k0 [folded eqs(3)] a where_ [folded eqs(3,4)] onh ong refl eqs(1) [folded eqs(3,4)] eqs(2)])
        (use tk False t2 w eqs(5) in simp_all)
  qed
qed

lemma add_operation_slots [simp]:
  "inFlight (add_operation scope op t) = inFlight t" "slotWaiters (add_operation scope op t) = slotWaiters t"
  "dropping (add_operation scope op t) = dropping t" "revokedGrants (add_operation scope op t) = revokedGrants t"
  by (simp_all add: add_operation_def split: operation_scope.split option.split)

lemma remove_operation_slots [simp]:
  "inFlight (remove_operation scope op t) = inFlight t" "slotWaiters (remove_operation scope op t) = slotWaiters t"
  by (simp_all add: remove_operation_def split: operation_scope.split option.split)

lemma run_begin_refused:
  assumes "run_begin env origin scope op abandoned T = (T', es, Inl e)"
  shows "T' = T \<or> (\<exists>k s t. getOrCreate T k = (T', s, t))"
proof -
  have "waitForSlot op t2 \<noteq> Inl e" if "\<not> queueFull t" "tryTakeSlot (add_operation scope op t) = (t2, False)" for t t2 e
    using that by (auto simp: waitForSlot_def tryTakeSlot_def queueFull_def split: if_splits)
  then show ?thesis
    using assms by (auto simp: run_begin_def Let_def existing_table_def simp del: map_of_eq_Some_iff
        split: if_splits sum.splits operation_scope.splits option.splits prod.splits bool.splits)
qed

lemma ops_of_add: "ops_of (ts @ [(op, k, s, scope)]) k' s' =
    (if k' = k \<and> s' = s then insert op (ops_of ts k s) else ops_of ts k' s')"
  by (auto simp: ops_of_def)

lemma ops_of_remove:
  assumes "distinct (map fst ts)" and "(op, k, s, scope) \<in> set ts"
  shows "ops_of (removeAll (op, k, s, scope) ts) k' s' =
    (if k' = k \<and> s' = s then ops_of ts k s - {op} else ops_of ts k' s')"
proof -
  have one: "scope' = scope" if "(op, k, s, scope') \<in> set ts" for scope'
    using eq_key_imp_eq_value [OF assms(1) that assms(2)] by simp
  show ?thesis using one by (auto simp: ops_of_def)
qed

lemma registry_ok_begin:
  assumes ok: "registry_ok T ts" and run: "run_begin env origin scope op abandoned T = (T', es, Inr (k, s, st))"
    and new: "op \<notin> fst ` set ts"
  shows "registry_ok T' (ts @ [(op, k, s, scope)])"
proof -
  obtain T1 t t1 t2 where w: "(T1 = T \<and> map_of (tables T) k = Some (s, t)) \<or> getOrCreate T k = (T1, s, t)"
    and g: "\<And>g. scope = OnGrant g \<Longrightarrow> \<not> dropping t \<and> g \<notin> set (revokedGrants t)"
    and t1: "t1 = add_operation scope op t" and T': "T' = put_table k s t2 T1"
    and slot: "(st = Running \<and> tryTakeSlot t1 = (t2, True)) \<or>
      (st = Queued \<and> tryTakeSlot t1 = (t1, False) \<and> waitForSlot op t1 = Inr t2)"
    by (rule run_begin_table [OF run]) blast
  have ok1: "registry_ok T1 ts" and k: "map_of (tables T1) k = Some (s, t)"
    using w ok registry_ok_getOrCreate [OF ok] by blast+
  note good = registry_okD(3) [OF ok1 k] and q = registry_okD(4) [OF ok1 k] and acc = registry_okD(5) [OF ok1 k]
  have "fine k t t1" unfolding t1 by (rule fine_add_operation [OF good q]) (use g in blast)
  then have f: "good_table k t1 \<and> quiet t1" by (simp add: fine_def)
  have acc1: "accounted (ops_of ts k s) t1" using acc accounted_same [of t1 t] by (simp add: t1)
  have op: "op \<notin> ops_of ts k s" using new by (force simp: ops_of_def)
  have t2: "good_table k t2 \<and> quiet t2" using slot slots_kept(1,2) f by blast
  have "accounted (insert op (ops_of ts k s)) t2"
    using slot accounted_take(1) [OF acc1 op] accounted_wait [OF acc1 op] by auto
  then have "accounted (ops_of (ts @ [(op, k, s, scope)]) k s) t2" by (simp add: ops_of_add)
  moreover have "distinct (map fst (ts @ [(op, k, s, scope)]))" using new registry_okD(1) [OF ok1] by simp
  moreover have "s' < next_serial T1" if "(op', k', s', scope') \<in> set (ts @ [(op, k, s, scope)])" for op' k' s' scope'
    using that registry_okD(2) [OF ok1] registry_okD(6) [OF ok1 k] by auto
  ultimately show ?thesis
    unfolding T' using t2 by (intro registry_ok_put(1) [OF ok1 k]) (auto simp: ops_of_add)
qed

lemma registry_ok_end:
  assumes ok: "registry_ok T ts" and ticket: "(op, k, s, scope) \<in> set ts" and run: "run_end k s scope op T = (T', a)"
  shows "registry_ok T' (removeAll (op, k, s, scope) ts)"
proof -
  let ?ts = "removeAll (op, k, s, scope) ts"
  note d = registry_okD(1) [OF ok] and ops = ops_of_remove [OF registry_okD(1) [OF ok] ticket]
  have d': "distinct (map fst ?ts)" using d by (simp add: distinct_map_filter removeAll_filter_not_eq)
  show ?thesis
  proof (cases "\<exists>t. map_of (tables T) k = Some (s, t)")
    case False
    then have "T' = T" using run by (auto simp: run_end_def simp del: map_of_eq_Some_iff split: option.splits if_splits)
    moreover have "accounted (ops_of ?ts k' s') t" if m: "map_of (tables T) k' = Some (s', t)" for k' s' t
      using registry_okD(5) [OF ok m] False m ops by (cases "k' = k \<and> s' = s") auto
    moreover have "s' < next_serial T" if "(op', k', s', scope') \<in> set ?ts" for op' k' s' scope'
      using that registry_okD(2) [OF ok] by auto
    ultimately show ?thesis using registry_okD(3-6) [OF ok] d' unfolding registry_ok_def by simp
  next
    case True
    then obtain t where k: "map_of (tables T) k = Some (s, t)" by blast
    note good = registry_okD(3) [OF ok k] and q = registry_okD(4) [OF ok k] and acc = registry_okD(5) [OF ok k]
    have op: "op \<in> ops_of ts k s" using ticket by (auto simp: ops_of_def)
    obtain t2 where t2: "T' = reap k s (remove_operation scope op t2) T" "good_table k t2 \<and> quiet t2"
      "accounted (ops_of ts k s - {op}) t2"
    proof (cases "op \<in> set (slotWaiters t)")
      case True
      show thesis
        by (rule that [of "unqueue op t"]) (use run k True slots_kept(4) good q accounted_leave [OF acc True] in
          \<open>simp_all add: run_end_def\<close>)
    next
      case False
      obtain t2 b where r: "releaseSlot t = (t2, b)" by fastforce
      show thesis
        by (rule that [of t2]) (use run k False r slots_kept(3) [OF r] good q
          accounted_release [OF acc op False finite_ops_of r] in \<open>simp_all add: run_end_def\<close>)
    qed
    have "fine k t2 (remove_operation scope op t2)" by (rule fine_remove_operation) (use t2 in blast)+
    then have f: "good_table k (remove_operation scope op t2)" "quiet (remove_operation scope op t2)"
      by (simp_all add: fine_def)
    have "accounted (ops_of ?ts k s) (remove_operation scope op t2)"
      using t2(3) accounted_same [of "remove_operation scope op t2" t2] by (simp add: ops)
    moreover have "s' < next_serial T" if "(op', k', s', scope') \<in> set ?ts" for op' k' s' scope'
      using that registry_okD(2) [OF ok] by auto
    ultimately show ?thesis
      unfolding t2(1) using f d' by (intro registry_ok_put(2) [OF ok k]) (auto simp: ops)
  qed
qed

subsection \<open>Every other call keeps it\<close>

lemma existing_ok:
  assumes "registry_ok T ts" and "map_of (tables T) k = Some (s, t)"
  shows "good_table k t" "quiet t"
  using assms registry_okD by blast+

lemma registry_ok_release:
  assumes ok: "registry_ok T ts" and r: "release_handle env origin i T = (T', es, res)"
  shows "registry_ok T' ts"
proof (cases "registry_key env origin")
  case (Inr k)
  show ?thesis
  proof (cases "\<exists>s t r. map_of (tables T) k = Some (s, t) \<and> map_of (handles t) i = Some r")
    case True
    then obtain s t h where k: "map_of (tables T) k = Some (s, t)" and h: "map_of (handles t) i = Some h" by blast
    obtain t' e1 where c: "closeTree (t_callbacks env) h Closed None t = (t', e1)" by fastforce
    have "T' = reap k s t' T" using r Inr k h c by (simp add: release_handle_def existing_table_def)
    then show ?thesis using registry_ok_fine(2) [OF ok k fine_closeTree [OF existing_ok [OF ok k] h c]] by simp
  next
    case False
    then have "T' = T" using r Inr by (auto simp: release_handle_def existing_table_def simp del: map_of_eq_Some_iff
        split: option.splits)
    then show ?thesis using ok by simp
  qed
qed (use r ok in \<open>simp add: release_handle_def\<close>)

lemma registry_ok_closeWithError:
  assumes ok: "registry_ok T ts" and r: "closeWithError env origin i reason e T = (T', es, res)"
  shows "registry_ok T' ts"
proof (cases "registry_key env origin")
  case (Inr k)
  show ?thesis
  proof (cases "\<exists>s t r. map_of (tables T) k = Some (s, t) \<and> map_of (handles t) i = Some r")
    case True
    then obtain s t h where k: "map_of (tables T) k = Some (s, t)" and h: "map_of (handles t) i = Some h" by blast
    obtain t' e1 where c: "closeTree (t_callbacks env) h reason (Some e) t = (t', e1)" by fastforce
    have "record_in t i = Inr h" using h by (simp add: record_in_Inr)
    then have "T' = reap k s t' T" using r Inr k c by (simp add: closeWithError_def existing_table_def)
    then show ?thesis using registry_ok_fine(2) [OF ok k fine_closeTree [OF existing_ok [OF ok k] h c]] by simp
  next
    case False
    then have "T' = T" using r Inr record_in_Inr
      by (auto simp: closeWithError_def existing_table_def simp del: map_of_eq_Some_iff split: option.splits sum.splits)
    then show ?thesis using ok by simp
  qed
qed (use r ok in \<open>simp add: closeWithError_def\<close>)

lemma registry_ok_onUnlink:
  assumes ok: "registry_ok T ts" and r: "onUnlink env origin i listener T = (T', es, res)"
  shows "registry_ok T' ts"
proof (cases "registry_key env origin")
  case (Inr k)
  show ?thesis
  proof (cases "\<exists>s t r. map_of (tables T) k = Some (s, t) \<and> map_of (handles t) i = Some r")
    case True
    then obtain s t h where k: "map_of (tables T) k = Some (s, t)" and h: "map_of (handles t) i = Some h" by blast
    have T': "T' = put_table k s (t\<lparr>handles := AList.update i (h\<lparr>unlink := Some listener\<rparr>) (handles t)\<rparr>) T"
      using r Inr k h by (simp add: onUnlink_def existing_table_def)
    show ?thesis
      unfolding T' by (rule registry_ok_fine(1) [OF ok k fine_modify [OF existing_ok [OF ok k] h]]) simp_all
  next
    case False
    then have "T' = T" using r Inr by (auto simp: onUnlink_def existing_table_def simp del: map_of_eq_Some_iff
        split: option.splits)
    then show ?thesis using ok by simp
  qed
qed (use r ok in \<open>simp add: onUnlink_def\<close>)

lemma registry_ok_revoke:
  assumes ok: "registry_ok T ts" and r: "revoke env origin g T = (T', es, res)"
  shows "registry_ok T' ts"
proof (cases "registry_key env origin")
  case (Inr k)
  obtain T1 s t where c: "getOrCreate T k = (T1, s, t)" by (cases "getOrCreate T k") auto
  obtain t' e1 where v: "revoke_tasks (t_callbacks env) [Enter g] t = (t', e1)" by fastforce
  note one = registry_ok_getOrCreate [OF ok c]
  have "T' = reap k s t' T1" using r Inr c v by (simp add: revoke_def del: revoke_tasks.simps)
  then show ?thesis using registry_ok_fine(2) [OF one fine_revoke_tasks [OF existing_ok [OF one] v]] by simp
qed (use r ok in \<open>simp add: revoke_def\<close>)

lemma registry_ok_replaceGrant:
  assumes ok: "registry_ok T ts" and r: "replaceGrant env origin a b ps ca T = (T', es, res)"
  shows "registry_ok T' ts"
proof (cases "registry_key env origin")
  case (Inr k)
  obtain T1 s t where c: "getOrCreate T k = (T1, s, t)" by (cases "getOrCreate T k") auto
  obtain t' e1 where v: "replaceGrantIn (t_callbacks env) a b ps ca t = (t', e1)" by fastforce
  note one = registry_ok_getOrCreate [OF ok c]
  have "T' = reap k s t' T1" using r Inr c v by (simp add: replaceGrant_def)
  then show ?thesis using registry_ok_fine(2) [OF one fine_replaceGrantIn [OF existing_ok [OF one] v]] by simp
qed (use r ok in \<open>simp add: replaceGrant_def\<close>)

lemma registry_ok_revokeUserSelected:
  assumes ok: "registry_ok T ts" and r: "revokeUserSelected env origin p T = (T', es, res)"
  shows "registry_ok T' ts"
proof (cases "registry_key env origin")
  case (Inr k)
  show ?thesis
  proof (cases "map_of (tables T) k")
    case (Some st)
    then obtain s t where k: "map_of (tables T) k = Some (s, t)" by (cases st) simp
    obtain t' e1 where v: "close_each (t_callbacks env) Revoked
        (case map_of (byPickedPath t) p of None \<Rightarrow> [] | Some ids \<Rightarrow> ids) t = (t', e1)" by fastforce
    have "T' = reap k s t' T" using r Inr k v by (simp add: revokeUserSelected_def existing_table_def)
    then show ?thesis using registry_ok_fine(2) [OF ok k fine_close_each [OF existing_ok [OF ok k] v]] by simp
  qed (use r ok Inr in \<open>simp add: revokeUserSelected_def existing_table_def\<close>)
qed (use r ok in \<open>simp add: revokeUserSelected_def\<close>)

lemma registry_ok_grantIssued:
  assumes ok: "registry_ok T ts" and r: "grantIssued env origin g T = (T', es, res)"
  shows "registry_ok T' ts"
proof (cases "registry_key env origin")
  case (Inr k)
  show ?thesis
  proof (cases "map_of (tables T) k")
    case (Some st)
    then obtain s t where k: "map_of (tables T) k = Some (s, t)" by (cases st) simp
    have "T' = put_table k s (t\<lparr>revokedGrants := removeAll g (revokedGrants t)\<rparr>) T"
      using r Inr k by (simp add: grantIssued_def existing_table_def)
    then show ?thesis using registry_ok_fine(1) [OF ok k fine_grantIssued [OF existing_ok [OF ok k]]] by simp
  qed (use r ok Inr in \<open>simp add: grantIssued_def existing_table_def\<close>)
qed (use r ok in \<open>simp add: grantIssued_def\<close>)

text \<open>The end of a session leaves a table with no handles and no pending grant operations.\<close>

lemma drop_begin_parts:
  assumes ok: "registry_ok T ts" and key: "registry_key env origin = Inr k" and k: "map_of (tables T) k = Some (s, t)"
    and r: "drop_begin env origin T = (T', es, res)"
  obtains t' where "T' = put_table k s t' T" and "res = Inr (Some (k, s))" and "handles t' = []" and "dropping t'"
    and "grantOperations t' = []" and "table_ok t'" and "inFlight t' = inFlight t" and "slotWaiters t' = slotWaiters t"
    and "distinct (destroyed es) \<and> set (destroyed es) = set (map fst (handles t))"
    and "\<forall>g. \<forall>op\<in>set (filed (grantOperations t) g). \<exists>e. Cancel op e \<in> set es \<and> err_code e = E_revoked"
proof -
  let ?e = "fail_with E_revoked (js ''the session holding this operation ended'') None None"
  let ?cancels = "concat (map (\<lambda>(g, ops). map (\<lambda>op. Cancel op ?e) ops) (grantOperations t))"
  let ?t = "t\<lparr>dropping := True, grantOperations := []\<rparr>"
  obtain t' e1 where c: "close_each (t_callbacks env) SessionEnded (map fst (handles t)) ?t = (t', e1)" by fastforce
  have T': "T' = put_table k s t' T" "es = ?cancels @ e1" "res = Inr (Some (k, s))"
    using r key k c by (auto simp: drop_begin_def existing_table_def Let_def)
  have ok1: "table_ok ?t"
    using existing_ok(1) [OF ok k] by (simp add: good_table_def table_ok_def memory_ok_def)
  note h = close_each_effect [OF c ok1]
  have all: "reach (handles t) (set (map fst (handles t))) = set (map fst (handles t))"
  proof
    show "reach (handles t) (set (map fst (handles t))) \<subseteq> set (map fst (handles t))"
      using reach_live by (fastforce simp: map_of_eq_None_iff)
    show "set (map fst (handles t)) \<subseteq> reach (handles t) (set (map fst (handles t)))"
      by (auto intro!: reach_root dest: weak_map_of_SomeI)
  qed
  have none: "map_of (handles t') i = None" for i
    using h(2) all by (cases "i \<in> set (map fst (handles t))") (auto simp: closed_all_def map_of_eq_None_iff)
  have "handles t' = []"
  proof (cases "handles t'")
    case (Cons h hs)
    then show ?thesis using none [of "fst h"] by simp
  qed
  moreover have "destroyed ?cancels = []" by (rule destroyed_none) auto
  moreover have "\<exists>e. Cancel op e \<in> set es \<and> err_code e = E_revoked" if "op \<in> set (filed (grantOperations t) g)" for g op
  proof -
    obtain ops where "(g, ops) \<in> set (grantOperations t)" "op \<in> set ops"
      using \<open>op \<in> set (filed (grantOperations t) g)\<close>
      by (cases "map_of (grantOperations t) g") (auto simp: filed_def dest: map_of_SomeD)
    then have "Cancel op ?e \<in> set ?cancels" by force
    then have "Cancel op ?e \<in> set es" unfolding T'(2) by simp
    moreover have "err_code ?e = E_revoked" by (simp add: fail_with_def)
    ultimately show ?thesis by blast
  qed
  ultimately show thesis
    using that [OF T'(1,3)] h T'(2) all by (simp add: closed_all_def)
qed

lemma registry_ok_drop_begin:
  assumes ok: "registry_ok T ts" and r: "drop_begin env origin T = (T', es, res)"
  shows "registry_ok T' ts"
proof (cases "registry_key env origin")
  case (Inr k)
  show ?thesis
  proof (cases "map_of (tables T) k")
    case (Some st)
    then obtain s t where k: "map_of (tables T) k = Some (s, t)" by (cases st) simp
    obtain t' where t': "T' = put_table k s t' T" "handles t' = []" "grantOperations t' = []" "table_ok t'"
      "inFlight t' = inFlight t" "slotWaiters t' = slotWaiters t"
      by (rule drop_begin_parts [OF ok Inr k r])
    have "good_table k t'" by (rule good_shrinks [OF existing_ok(1) [OF ok k] t'(4)]) (simp add: same_handles_def t'(2))
    then have "fine k t t'" using t' by (simp add: fine_def quiet_def filed_def)
    then show ?thesis using registry_ok_fine(1) [OF ok k] t'(1) by simp
  qed (use r ok Inr in \<open>simp add: drop_begin_def existing_table_def\<close>)
qed (use r ok in \<open>simp add: drop_begin_def\<close>)

subsection \<open>Any sequence of calls\<close>

text \<open>
  One call of the registry's interface, on its state and the operations in flight. The names of
  operations are the caller's and are not reused while the operation is in flight; a socket limit is
  at most the platform's, as \<open>socketAllowance\<close> of the grant ledger clamps it. The end of a drop may
  come at any time.
\<close>

inductive handle_step :: "table_env \<Rightarrow> handle_table \<times> ticket list \<Rightarrow> handle_table \<times> ticket list \<Rightarrow> bool"
  for env :: table_env where
  step_acquire: "acquire env req T = Some (T', es, res) \<Longrightarrow> limit_ok (req_limit req) \<Longrightarrow>
    handle_step env (T, ts) (T', ts)"
| step_derive: "acquireDerived env der T = Some (T', es, res) \<Longrightarrow> limit_ok (der_limit der) \<Longrightarrow>
    handle_step env (T, ts) (T', ts)"
| step_begin: "run_begin env origin scope op abandoned T = (T', es, Inr (k, s, st)) \<Longrightarrow> op \<notin> fst ` set ts \<Longrightarrow>
    handle_step env (T, ts) (T', ts @ [(op, k, s, scope)])"
| step_refused: "run_begin env origin scope op abandoned T = (T', es, Inl e) \<Longrightarrow> handle_step env (T, ts) (T', ts)"
| step_end: "(op, k, s, scope) \<in> set ts \<Longrightarrow> run_end k s scope op T = (T', a) \<Longrightarrow>
    handle_step env (T, ts) (T', removeAll (op, k, s, scope) ts)"
| step_release: "release_handle env origin i T = (T', es, u) \<Longrightarrow> handle_step env (T, ts) (T', ts)"
| step_unlink: "onUnlink env origin i listener T = (T', es, u) \<Longrightarrow> handle_step env (T, ts) (T', ts)"
| step_fail: "fail_handle env origin i c platform T = (T', es, u) \<Longrightarrow> handle_step env (T, ts) (T', ts)"
| step_abort: "abort_handle env origin i T = (T', es, u) \<Longrightarrow> handle_step env (T, ts) (T', ts)"
| step_revoke: "revoke env origin g T = (T', es, u) \<Longrightarrow> handle_step env (T, ts) (T', ts)"
| step_replace: "replaceGrant env origin g h ps ca T = (T', es, u) \<Longrightarrow> handle_step env (T, ts) (T', ts)"
| step_picked: "revokeUserSelected env origin g T = (T', es, u) \<Longrightarrow> handle_step env (T, ts) (T', ts)"
| step_issued: "grantIssued env origin g T = (T', es, u) \<Longrightarrow> handle_step env (T, ts) (T', ts)"
| step_drop: "drop_begin env origin T = (T', es, d) \<Longrightarrow> handle_step env (T, ts) (T', ts)"
| step_dropped: "handle_step env (T, ts) (drop_end dropped T, ts)"

inductive handle_run :: "table_env \<Rightarrow> handle_table \<Rightarrow> ticket list \<Rightarrow> bool" for env :: table_env where
  run_start: "handle_run env empty_handle_table []"
| run_step: "handle_run env T ts \<Longrightarrow> handle_step env (T, ts) (T', ts') \<Longrightarrow> handle_run env T' ts'"

lemma registry_ok_step:
  assumes "handle_step env (T, ts) (T', ts')" and "registry_ok T ts"
  shows "registry_ok T' ts'"
  using assms(1)
proof cases
  case step_acquire then show ?thesis using registry_ok_acquire assms(2) by blast
next
  case step_derive then show ?thesis using registry_ok_acquireDerived assms(2) by blast
next
  case step_begin then show ?thesis using registry_ok_begin assms(2) by blast
next
  case step_refused
  then show ?thesis using run_begin_refused registry_ok_getOrCreate(1) assms(2) by metis
next
  case step_end then show ?thesis using registry_ok_end assms(2) by blast
next
  case step_release then show ?thesis using registry_ok_release assms(2) by blast
next
  case step_unlink then show ?thesis using registry_ok_onUnlink assms(2) by blast
next
  case step_fail
  then show ?thesis unfolding fail_handle_def using registry_ok_closeWithError assms(2) by blast
next
  case step_abort
  then show ?thesis unfolding abort_handle_def using registry_ok_closeWithError assms(2) by blast
next
  case step_revoke then show ?thesis using registry_ok_revoke assms(2) by blast
next
  case step_replace then show ?thesis using registry_ok_replaceGrant assms(2) by blast
next
  case step_picked then show ?thesis using registry_ok_revokeUserSelected assms(2) by blast
next
  case step_issued then show ?thesis using registry_ok_grantIssued assms(2) by blast
next
  case step_drop then show ?thesis using registry_ok_drop_begin assms(2) by blast
next
  case step_dropped
  then show ?thesis using registry_ok_deleteIfCurrent assms(2) by (auto simp: drop_end_def split: option.split)
qed

lemma handle_run_ok: "handle_run env T ts \<Longrightarrow> registry_ok T ts"
  by (induction rule: handle_run.induct) (simp_all add: registry_ok_empty registry_ok_step)

end
