(* ===== verification/HandleClaims.thy ===== *)
theory HandleClaims imports HandleSteps begin

section \<open>What the handle table promises\<close>

text \<open>
  The properties of the handle table, over any state some sequence of calls leads to: ownership,
  budgets, revocation, replacement, the end of a session and the queue for operation slots.
\<close>

subsection \<open>Closing a handle cancels what is in flight on it\<close>

definition cuts_off :: "origin_table \<Rightarrow> origin_table \<Rightarrow> handle_effect list \<Rightarrow> bool" where
  "cuts_off t t' es \<longleftrightarrow>
     (\<forall>i r'. map_of (handles t') i = Some r' \<longrightarrow> (\<exists>r. map_of (handles t) i = Some r \<and> operations r' = operations r)) \<and>
     (\<forall>i r. map_of (handles t) i = Some r \<longrightarrow> map_of (handles t') i = None \<longrightarrow>
        (\<forall>op\<in>set (operations r). \<exists>e. Cancel op e \<in> set es \<and> err_code e = E_revoked))"

lemma cuts_off_refl: "cuts_off t t es"
  by (simp add: cuts_off_def)

lemma cuts_off_trans:
  assumes a: "cuts_off t t1 e1" and b: "cuts_off t1 t2 e2"
  shows "cuts_off t t2 (e1 @ e2)"
proof -
  have keep: "\<exists>r. map_of (handles t) i = Some r \<and> operations r' = operations r" if "map_of (handles t2) i = Some r'" for i r'
    using a b that unfolding cuts_off_def by metis
  have "\<exists>e. Cancel op e \<in> set (e1 @ e2) \<and> err_code e = E_revoked"
    if r: "map_of (handles t) i = Some r" "map_of (handles t2) i = None" "op \<in> set (operations r)" for i r op
  proof (cases "map_of (handles t1) i")
    case None
    then show ?thesis using a r unfolding cuts_off_def by (metis Un_iff set_append)
  next
    case (Some r1)
    then have "operations r1 = operations r" using a r(1) unfolding cuts_off_def by (metis option.inject)
    then show ?thesis using b Some r(2,3) unfolding cuts_off_def by (metis Un_iff set_append)
  qed
  then show ?thesis unfolding cuts_off_def using keep by blast
qed

lemma cuts_off_same_handles: "handles t1 = handles t \<Longrightarrow> handles t2 = handles t' \<Longrightarrow> cuts_off t1 t2 es = cuts_off t t' es"
  by (simp add: cuts_off_def)

lemma cuts_off_more: "cuts_off t t' es \<Longrightarrow> set es \<subseteq> set es' \<Longrightarrow> cuts_off t t' es'"
  unfolding cuts_off_def by blast

lemma unlink_cancels:
  assumes "unlink_all cb reason failure rs t = (t', es)" and "r \<in> set rs" and "op \<in> set (operations r)"
  shows "Cancel op (close_error reason failure (entry_id (entry r))) \<in> set es"
  using assms
proof (induction rs arbitrary: t es)
  case (Cons d rs)
  obtain t1 e1 where d: "unlink_one cb reason failure d t = (t1, e1)" by fastforce
  obtain e2 where e2: "unlink_all cb reason failure rs t1 = (t', e2)" "es = e1 @ e2"
    using Cons.prems(1) d by (auto split: prod.splits)
  show ?case
  proof (cases "r = d")
    case True
    then have "Cancel op (close_error reason failure (entry_id (entry r))) \<in> set e1"
      using d Cons.prems(3) by (auto simp: unlink_one_def Let_def)
    then show ?thesis using e2(2) by simp
  next
    case False
    then show ?thesis using Cons.IH [OF e2(1)] Cons.prems(2,3) e2(2) by simp
  qed
qed simp

lemma closeTree_cancels:
  assumes ok: "table_ok t" and x: "map_of (handles t) x = Some root"
    and c: "closeTree cb root reason failure t = (t', es)"
    and r: "i \<in> reach (handles t) {x}" "map_of (handles t) i = Some r" "op \<in> set (operations r)"
  shows "Cancel op (close_error reason failure i) \<in> set es"
proof -
  obtain hs doomed where d: "doom (handles t) [root] [] = (hs, doomed)" by fastforce
  obtain t1 e1 where u: "unlink_all cb reason failure doomed (t\<lparr>handles := hs\<rparr>) = (t1, e1)" by fastforce
  have es: "es = e1 @ teardowns cb reason doomed"
    using c by (simp add: closeTree_def d u del: doom.simps)
  have k: "keyed (handles t)" using ok by (simp add: table_ok_def)
  then have root: "entry_id (entry root) = x" using x by (simp add: keyed_def)
  have "current (handles t) [root]" using x root by (simp add: current_def)
  then have dooms: "dooms (handles t) {x} [] hs doomed"
    using doom_reach [OF d k] root by (simp add: ids_of_def)
  then have "i \<in> set (ids_of doomed)" using r(1) by (simp add: dooms_def)
  then obtain s where s: "s \<in> set doomed" "entry_id (entry s) = i" by (auto simp: ids_of_def)
  moreover have "map_of (handles t) (entry_id (entry s)) = Some s" using dooms s(1) by (simp add: dooms_def)
  ultimately have "s = r" using r(2) by simp
  then show ?thesis using unlink_cancels [OF u s(1)] r(3) s(2) es by auto
qed

lemma cuts_off_closeTree:
  assumes ok: "table_ok t" and x: "map_of (handles t) x = Some root"
    and c: "closeTree cb root reason None t = (t', es)" and "reason \<noteq> Closed"
  shows "cuts_off t t' es"
proof -
  note h = closeTree_handles(1) [OF ok x c]
  have keep: "\<exists>r. map_of (handles t) i = Some r \<and> operations r' = operations r"
    if "map_of (handles t') i = Some r'" for i r'
    using that by (auto simp: h split: if_splits)
  have "\<exists>e. Cancel op e \<in> set es \<and> err_code e = E_revoked"
    if r: "map_of (handles t) i = Some r" "map_of (handles t') i = None" "op \<in> set (operations r)" for i r op
  proof -
    have "i \<in> reach (handles t) {x}" using r(1,2) by (simp add: h split: if_splits)
    then have "Cancel op (close_error reason None i) \<in> set es" by (rule closeTree_cancels [OF ok x c _ r(1,3)])
    moreover have "err_code (close_error reason None i) = E_revoked"
      using assms(4) by (simp add: close_error_def fail_with_def)
    ultimately show ?thesis by blast
  qed
  then show ?thesis unfolding cuts_off_def using keep by blast
qed

lemma cuts_off_close_each:
  assumes "close_each cb reason ids t = (t', es)" and "table_ok t" and "reason \<noteq> Closed"
  shows "cuts_off t t' es"
  using assms
proof (induction ids arbitrary: t es)
  case Nil then show ?case by (simp add: cuts_off_refl)
next
  case (Cons i ids)
  show ?case
  proof (cases "map_of (handles t) i")
    case None then show ?thesis using Cons by (auto split: prod.splits)
  next
    case (Some r)
    obtain t1 e1 where c: "closeTree cb r reason None t = (t1, e1)" by fastforce
    obtain e2 where e2: "close_each cb reason ids t1 = (t', e2)" "es = e1 @ e2"
      using Cons.prems(1) Some c by (auto split: prod.splits)
    show ?thesis
      using cuts_off_trans [OF cuts_off_closeTree [OF Cons.prems(2) Some c Cons.prems(3)]
          Cons.IH [OF e2(1) closeTree_handles(4) [OF Cons.prems(2) Some c] Cons.prems(3)]] e2(2) by simp
  qed
qed

lemma cuts_off_finish:
  assumes f: "finish_revoke cb g t = (t', es)" and ok: "table_ok t"
  shows "cuts_off t t' es"
proof -
  let ?t = "t\<lparr>grantOperations := AList.delete g (grantOperations t)\<rparr>"
  obtain ids e0 e1 where c: "close_each cb Revoked ids ?t = (t', e1)" "es = e0 @ e1"
    using f by (auto simp: finish_revoke_def Let_def split: prod.splits)
  have "cuts_off ?t t' e1" by (rule cuts_off_close_each [OF c(1) table_ok_other_fields(1) [OF ok]]) simp
  then have "cuts_off t t' e1" using cuts_off_same_handles [of ?t t t' t'] by simp
  then show ?thesis using cuts_off_more [of t t' e1 es] c(2) by simp
qed

lemma prepared_handles [simp]: "handles (tombstone g t) = handles t" "handles (drop_alias a t) = handles t"
  by (simp_all add: tombstone_def drop_alias_def)

lemma cuts_off_revoke_tasks:
  "revoke_tasks cb tasks t = (t', es) \<Longrightarrow> table_ok t \<Longrightarrow> cuts_off t t' es"
proof (induction cb tasks t arbitrary: t' es rule: revoke_tasks.induct)
  case (1 cb t)
  then show ?case by (simp add: cuts_off_refl)
next
  case (2 cb g tasks t)
  have ok: "table_ok (tombstone g t)" by (rule table_ok_tombstone [OF "2.prems"(2)])
  show ?case
  proof (cases "aliasesOf t g")
    case Nil
    have "revoke_tasks cb (Finish g # tasks) (tombstone g t) = (t', es)"
      using "2.prems"(1) Nil by (subst (asm) revoke_tasks.simps(2)) (simp add: Let_def del: revoke_tasks.simps)
    then have "cuts_off (tombstone g t) t' es" using "2.IH"(1) [OF refl _ _ ok] Nil by simp
    then show ?thesis by (simp add: cuts_off_def)
  next
    case (Cons a rest)
    have "revoke_tasks cb (Enter a # map Alias rest @ Finish g # tasks) (drop_alias a (tombstone g t)) = (t', es)"
      using "2.prems"(1) Cons
      by (subst (asm) revoke_tasks.simps(2)) (simp add: Let_def del: revoke_tasks.simps)
    then have "cuts_off (drop_alias a (tombstone g t)) t' es"
      using "2.IH"(2) [OF refl _ _ table_ok_drop_alias [OF ok]] Cons by simp
    then show ?thesis by (simp add: cuts_off_def)
  qed
next
  case (3 cb a tasks t)
  then have "cuts_off (drop_alias a t) t' es" using "3.IH" [OF _ table_ok_drop_alias [OF "3.prems"(2)]] by simp
  then show ?case by (simp add: cuts_off_def)
next
  case (4 cb g tasks t)
  obtain t1 e1 where f: "finish_revoke cb g t = (t1, e1)" by fastforce
  obtain e2 where r: "revoke_tasks cb tasks t1 = (t', e2)" "es = e1 @ e2"
    using "4.prems"(1) f by (auto split: prod.splits)
  show ?case
    using cuts_off_trans [OF cuts_off_finish [OF f "4.prems"(2)]
        "4.IH" [OF f [symmetric] r(1) finish_revoke_effect(1) [OF f "4.prems"(2)]]] r(2) by simp
qed

subsection \<open>A revocation, seen from the registry\<close>

lemma tombstone_present: "revokedGrants (tombstone g t) \<noteq> []"
  by (auto simp: tombstone_def remember_def)

lemma revoke_tasks_remembered:
  "revoke_tasks cb tasks t = (t', es) \<Longrightarrow> table_ok t \<Longrightarrow> revokedGrants t \<noteq> [] \<Longrightarrow> revokedGrants t' \<noteq> []"
proof (induction cb tasks t arbitrary: t' es rule: revoke_tasks.induct)
  case (1 cb t)
  then show ?case by simp
next
  case (2 cb g tasks t)
  have ok: "table_ok (tombstone g t)" by (rule table_ok_tombstone [OF "2.prems"(2)])
  show ?case
  proof (cases "aliasesOf t g")
    case Nil
    have "revoke_tasks cb (Finish g # tasks) (tombstone g t) = (t', es)"
      using "2.prems"(1) Nil by (subst (asm) revoke_tasks.simps(2)) (simp add: Let_def del: revoke_tasks.simps)
    then show ?thesis using "2.IH"(1) [OF refl _ _ ok tombstone_present] Nil by simp
  next
    case (Cons a rest)
    have "revoke_tasks cb (Enter a # map Alias rest @ Finish g # tasks) (drop_alias a (tombstone g t)) = (t', es)"
      using "2.prems"(1) Cons
      by (subst (asm) revoke_tasks.simps(2)) (simp add: Let_def del: revoke_tasks.simps)
    then show ?thesis
      using "2.IH"(2) [OF refl _ _ table_ok_drop_alias [OF ok]] Cons tombstone_present by (simp add: drop_alias_def)
  qed
next
  case (3 cb a tasks t)
  then show ?case using "3.IH" [OF _ table_ok_drop_alias [OF "3.prems"(2)]] by (simp add: drop_alias_def)
next
  case (4 cb g tasks t)
  obtain t1 e1 where f: "finish_revoke cb g t = (t1, e1)" by fastforce
  obtain e2 where r: "revoke_tasks cb tasks t1 = (t', e2)" "es = e1 @ e2"
    using "4.prems"(1) f by (auto split: prod.splits)
  show ?case
    using "4.IH" [OF f [symmetric] r(1) finish_revoke_effect(1) [OF f "4.prems"(2)]]
      finish_revoke_effect(3) [OF f "4.prems"(2)] "4.prems"(3) by simp
qed

lemma revoke_remembers:
  assumes "revoke_tasks cb [Enter g] t = (t', es)" and "table_ok t"
  shows "revokedGrants t' \<noteq> []"
proof -
  have ok: "table_ok (tombstone g t)" by (rule table_ok_tombstone [OF assms(2)])
  show ?thesis
  proof (cases "aliasesOf t g")
    case Nil
    have "revoke_tasks cb [Finish g] (tombstone g t) = (t', es)"
      using assms(1) Nil by (subst (asm) revoke_tasks.simps(2)) (simp add: Let_def del: revoke_tasks.simps)
    then show ?thesis by (rule revoke_tasks_remembered [OF _ ok tombstone_present])
  next
    case (Cons a rest)
    have "revoke_tasks cb (Enter a # map Alias rest @ [Finish g]) (drop_alias a (tombstone g t)) = (t', es)"
      using assms(1) Cons
      by (subst (asm) revoke_tasks.simps(2)) (simp add: Let_def del: revoke_tasks.simps)
    then show ?thesis
      by (rule revoke_tasks_remembered [OF _ table_ok_drop_alias [OF ok]])
        (use tombstone_present in \<open>simp add: drop_alias_def\<close>)
  qed
qed

lemma reap_kept: "revokedGrants t \<noteq> [] \<Longrightarrow> reap k s t T = put_table k s t T"
  by (simp add: reap_def put_table_def holds_nothing_def Let_def)

lemma put_table_map: "map_of (tables (put_table k s t T)) k' = (if k' = k then Some (s, t) else map_of (tables T) k')"
  by (simp add: put_table_def update_conv')

definition grants_behind :: "origin_table \<Rightarrow> str \<Rightarrow> str set" where
  "grants_behind t g = {h. (h, g) \<in> (set (grantAliases t))\<^sup>*}"

lemma withdrawn_Enter: "withdrawn t [Enter g] = grants_behind t g"
  by (simp add: withdrawn_def alias_closure_def grants_behind_def)

text \<open>A state with a server and a socket it accepted under one grant, a socket under another, and an
  operation in flight on the server.\<close>

definition sample_calls :: table_env where
  "sample_calls = \<lparr>t_parse = (\<lambda>u. Some \<lparr>protocol = js ''https:'', hostname = js ''app.example'', port = [],
     pathname = js ''/''\<rparr>), t_draw = (\<lambda>n. [n]),
     t_callbacks = \<lparr>destroy_fails = (\<lambda>_. False), unlink_throws = (\<lambda>_. False)\<rparr>\<rparr>"

definition sample_key :: str where "sample_key = js ''https://app.example''"

definition sample_request :: "handle_kind \<Rightarrow> str \<Rightarrow> acquire_request" where
  "sample_request kind g = \<lparr>req_origin = sample_key, req_kind = kind, req_auth = ByGrant g, req_limit = None,
     req_covered = None, req_destroy_fails = False\<rparr>"

definition state_after :: "'a call option \<Rightarrow> handle_table" where
  "state_after c = (case c of Some (T, _, _) \<Rightarrow> T | None \<Rightarrow> empty_handle_table)"

definition sample_acquired :: handle_table where
  "sample_acquired = state_after (acquire sample_calls (sample_request TcpSocket (js ''h''))
     (state_after (acquire sample_calls (sample_request TcpServer (js ''g'')) empty_handle_table)))"

definition sample_derived :: handle_table where
  "sample_derived = state_after (acquireDerived sample_calls \<lparr>der_origin = sample_key, der_kind = TcpSocket,
     der_parent = [0], der_limit = None, der_destroy_fails = False\<rparr> sample_acquired)"

definition sample_table :: handle_table where
  "sample_table = fst (run_begin sample_calls sample_key (OnHandle ([0])) 7 False sample_derived)"

definition sample_tickets :: "ticket list" where
  "sample_tickets = [(7, sample_key, 0, OnHandle ([0]))]"

lemma sample_calls_run: "handle_run sample_calls sample_table sample_tickets"
proof -
  have acq: "handle_run sample_calls (state_after (acquire sample_calls (sample_request kind g) T)) []"
    if "handle_run sample_calls T []" "acquire sample_calls (sample_request kind g) T \<noteq> None" for kind g T
    using that run_step step_acquire
    by (fastforce simp: state_after_def limit_ok_def sample_request_def)
  have acquired: "handle_run sample_calls sample_acquired []"
    unfolding sample_acquired_def by (intro acq run_start) code_simp+
  obtain T' es res where d: "acquireDerived sample_calls \<lparr>der_origin = sample_key, der_kind = TcpSocket,
     der_parent = [0], der_limit = None, der_destroy_fails = False\<rparr> sample_acquired = Some (T', es, res)"
  proof -
    have "acquireDerived sample_calls \<lparr>der_origin = sample_key, der_kind = TcpSocket,
     der_parent = [0], der_limit = None, der_destroy_fails = False\<rparr> sample_acquired \<noteq> None" by code_simp
    then show thesis using that by fastforce
  qed
  have "handle_step sample_calls (sample_acquired, []) (T', [])"
    by (rule step_derive [OF d]) (simp add: limit_ok_def)
  with acquired have "handle_run sample_calls T' []" by (rule run_step)
  then have run: "handle_run sample_calls sample_derived []" using d by (simp add: sample_derived_def state_after_def)
  have "snd (snd (run_begin sample_calls sample_key (OnHandle ([0])) 7 False sample_derived)) =
      Inr (sample_key, 0, Running)" by code_simp
  then have "handle_step sample_calls (sample_derived, []) (sample_table, [] @ sample_tickets)"
    unfolding sample_table_def sample_tickets_def by (intro step_begin) (auto simp: prod_eq_iff)
  then show ?thesis using run run_step by fastforce
qed

lemma sample_registry_key: "registry_key sample_calls sample_key = Inr sample_key"
  by code_simp

definition sample_origin_table :: origin_table where
  "sample_origin_table = snd (the (map_of (tables sample_table) sample_key))"

lemma sample_lookup: "map_of (tables sample_table) sample_key = Some (0, sample_origin_table)"
proof -
  have "map_option fst (map_of (tables sample_table) sample_key) = Some 0" by code_simp
  then show ?thesis by (cases "map_of (tables sample_table) sample_key") (auto simp: sample_origin_table_def)
qed

subsection \<open>Revocation\<close>

text \<open>C34. Revoking a grant closes every handle authorised by it, by a grant it replaced (followed
  through any chain of replacements), or derived from such a handle, each exactly once; no other
  handle of the origin, and no other origin's table, is touched. Every operation pending on the
  withdrawn grants or on a closed handle is cancelled with \<open>revoked\<close>.\<close>

theorem revoke_closes_exactly_the_grants_handles:
  assumes run: "handle_run env T ts" and key: "registry_key env origin = Inr k"
    and k: "map_of (tables T) k = Some (s, t)" and r: "revoke env origin g T = (T', es, res)"
  shows "\<exists>t'. map_of (tables T') k = Some (s, t') \<and> res = Inr () \<and>
    (\<forall>i. (map_of (handles t') i = None) =
       (map_of (handles t) i = None \<or> i \<in> reach (handles t) (authorised_by t (grants_behind t g)))) \<and>
    (\<forall>i h'. map_of (handles t') i = Some h' \<longrightarrow> (\<exists>h. map_of (handles t) i = Some h \<and> entry h' = entry h \<and>
       authorisation h' = authorisation h \<and> operations h' = operations h)) \<and>
    distinct (destroyed es) \<and> set (destroyed es) = reach (handles t) (authorised_by t (grants_behind t g)) \<and>
    (\<forall>h\<in>grants_behind t g. \<forall>op\<in>set (filed (grantOperations t) h). \<exists>e. Cancel op e \<in> set es \<and> err_code e = E_revoked) \<and>
    (\<forall>i h. i \<in> reach (handles t) (authorised_by t (grants_behind t g)) \<longrightarrow> map_of (handles t) i = Some h \<longrightarrow>
       (\<forall>op\<in>set (operations h). \<exists>e. Cancel op e \<in> set es \<and> err_code e = E_revoked)) \<and>
    (\<forall>k'. k' \<noteq> k \<longrightarrow> map_of (tables T') k' = map_of (tables T) k')"
proof -
  have ok: "table_ok t" using registry_okD(3) [OF handle_run_ok [OF run] k] by (rule good_ok)
  obtain t' where v: "revoke_tasks (t_callbacks env) [Enter g] t = (t', es)" "T' = reap k s t' T" "res = Inr ()"
    using r key k by (auto simp: revoke_def getOrCreate_def simp del: revoke_tasks.simps split: prod.splits)
  have T': "T' = put_table k s t' T" using v(2) reap_kept [OF revoke_remembers [OF v(1) ok]] by simp
  let ?R = "reach (handles t) (authorised_by t (grants_behind t g))"
  have e: "revoked_all (grants_behind t g) t t' es"
    using revoke_tasks_effect [OF v(1) ok] withdrawn_Enter by simp
  have hs: "map_of (handles t') i = (if i \<in> ?R then None else map_option (without ?R) (map_of (handles t) i))" for i
    using e by (simp add: revoked_all_def Let_def)
  have d: "distinct (destroyed es)" "set (destroyed es) = ?R" using e by (simp_all add: revoked_all_def Let_def)
  have c: "\<exists>e. Cancel op e \<in> set es \<and> err_code e = E_revoked"
    if "h \<in> grants_behind t g" "op \<in> set (filed (grantOperations t) h)" for h op
  proof -
    have "Cancel op withdrawn_error \<in> set es" using e that by (simp add: revoked_all_def)
    moreover have "err_code withdrawn_error = E_revoked" by (simp add: withdrawn_error_def fail_with_def)
    ultimately show ?thesis by blast
  qed
  have o: "\<exists>e. Cancel op e \<in> set es \<and> err_code e = E_revoked"
    if "i \<in> ?R" "map_of (handles t) i = Some h" "op \<in> set (operations h)" for i h op
    using cuts_off_revoke_tasks [OF v(1) ok] that hs [of i] unfolding cuts_off_def by simp
  show ?thesis
  proof (rule exI [of _ t'], intro conjI allI ballI impI)
    show "map_of (tables T') k = Some (s, t')" by (simp add: T' put_table_map)
    show "map_of (tables T') k' = map_of (tables T) k'" if "k' \<noteq> k" for k' using that by (simp add: T' put_table_map)
    show "(map_of (handles t') i = None) = (map_of (handles t) i = None \<or> i \<in> ?R)" for i by (simp add: hs)
    show "\<exists>h. map_of (handles t) i = Some h \<and> entry h' = entry h \<and> authorisation h' = authorisation h \<and>
        operations h' = operations h" if "map_of (handles t') i = Some h'" for i h'
      using that by (auto simp: hs split: if_splits)
  qed (use v(3) d c o in blast)+
qed

lemma revoke_closes_exactly_the_grants_handles_witness:
  "\<exists>t'. map_of (tables (fst (revoke sample_calls sample_key (js ''g'') sample_table))) sample_key = Some (0, t') \<and>
     map_of (handles t') [0] = None \<and>
     (\<exists>e. Cancel 7 e \<in> set (fst (snd (revoke sample_calls sample_key (js ''g'') sample_table))) \<and> err_code e = E_revoked)"
proof -
  let ?r = "revoke sample_calls sample_key (js ''g'') sample_table"
  have r: "?r = (fst ?r, fst (snd ?r), snd (snd ?r))" by simp
  note c = revoke_closes_exactly_the_grants_handles [OF sample_calls_run sample_registry_key sample_lookup r]
  have "map_option (\<lambda>h. (authorisation h, operations h)) (map_of (handles sample_origin_table) [0]) =
      Some (ByGrant (js ''g''), [7])" by code_simp
  then obtain h where h: "map_of (handles sample_origin_table) [0] = Some h" "authorisation h = ByGrant (js ''g'')"
    "7 \<in> set (operations h)" by (cases "map_of (handles sample_origin_table) [0]") simp_all
  then have "[0] \<in> authorised_by sample_origin_table (grants_behind sample_origin_table (js ''g''))"
    by (auto simp: authorised_by_def grants_behind_def)
  then have "[0] \<in> reach (handles sample_origin_table)
      (authorised_by sample_origin_table (grants_behind sample_origin_table (js ''g'')))"
    using h(1) by (intro reach_root) simp_all
  note in_reach = this
  let ?R = "reach (handles sample_origin_table)
      (authorised_by sample_origin_table (grants_behind sample_origin_table (js ''g'')))"
  obtain t' where t': "map_of (tables (fst ?r)) sample_key = Some (0, t')"
    "\<forall>i. (map_of (handles t') i = None) = (map_of (handles sample_origin_table) i = None \<or> i \<in> ?R)"
    "\<forall>i h. i \<in> ?R \<longrightarrow> map_of (handles sample_origin_table) i = Some h \<longrightarrow>
      (\<forall>op\<in>set (operations h). \<exists>e. Cancel op e \<in> set (fst (snd ?r)) \<and> err_code e = E_revoked)"
    using c by (elim exE conjE) (rule that; assumption)
  have "map_of (handles t') [0] = None" using t'(2) in_reach by blast
  moreover have "\<exists>e. Cancel 7 e \<in> set (fst (snd ?r)) \<and> err_code e = E_revoked"
    using t'(3) in_reach h(1,3) by meson
  ultimately show ?thesis using t'(1) by blast
qed

subsection \<open>Budgets\<close>

lemma census_sums: "distinct (map fst (handles t)) \<Longrightarrow> n_sockets (counts_in t) = card (of_kind t (set SOCKET_KINDS)) \<and>
    n_files (counts_in t) = card (of_kind t {FileHandle}) \<and> n_identities (counts_in t) = card (of_kind t {IdentityHandle})"
  by (simp add: counts_in_def Let_def census_cards)

text \<open>C35. Whatever is called in whatever order, no origin ever holds more than 512 sockets, 64 file handles,
  64 identity handles, 2 web contexts or 32 embedded pages, has more than 256 operations running or
  more than 256 waiting, waits while a slot is free, or is remembered by more than 576 closed ids and
  576 revoked grants; and the operations counted are exactly those that have begun and not ended.\<close>

theorem handle_budgets_hold:
  assumes run: "handle_run env T ts" and k: "map_of (tables T) k = Some (s, t)"
  shows "n_sockets (counts_in t) \<le> 512 \<and> n_files (counts_in t) \<le> 64 \<and> n_identities (counts_in t) \<le> 64 \<and>
    card (of_kind t {WebContext}) \<le> 2 \<and> card (of_kind t {Embed}) \<le> 32 \<and>
    0 \<le> inFlight t \<and> inFlight t \<le> 256 \<and> length (slotWaiters t) \<le> 256 \<and>
    (slotWaiters t \<noteq> [] \<longrightarrow> inFlight t = 256) \<and>
    inFlight t + int (length (slotWaiters t)) = int (card (ops_of ts k s)) \<and>
    length (recentlyClosed t) \<le> 576 \<and> length (revokedGrants t) \<le> 576"
proof -
  note ok = handle_run_ok [OF run]
  have good: "table_ok t" "budgets_ok t" using registry_okD(3) [OF ok k] by (simp_all add: good_table_def)
  have d: "distinct (map fst (handles t))" using good(1) by (simp add: table_ok_def)
  note acc = accountedD [OF registry_okD(5) [OF ok k]]
  have "memory_ok t" using good(1) by (simp add: table_ok_def)
  moreover have "card (ops_of ts k s) = card (ops_of ts k s - set (slotWaiters t)) + length (slotWaiters t)"
    using acc(1,2) card_mono [OF finite_ops_of acc(2)]
    by (simp add: card_Diff_subset distinct_card)
  ultimately show ?thesis
    using acc(3-6) good(2) census_sums [OF d]
    by (simp add: memory_ok_def budgets_ok_def LIMIT_concurrentSockets_def LIMIT_concurrentFileHandles_def
        MAX_IDENTITY_HANDLES_def LIMIT_webContexts_def LIMIT_embeds_def LIMIT_inFlightOperations_def
        IN_FLIGHT_QUEUE_LIMIT_def CLOSED_ID_MEMORY_def REVOKED_GRANT_MEMORY_def)
qed

lemma handle_budgets_hold_witness:
  "n_sockets (counts_in sample_origin_table) \<le> 512 \<and> inFlight sample_origin_table = 1"
proof -
  have "slotWaiters sample_origin_table = []" by code_simp
  moreover have "card (ops_of sample_tickets sample_key 0) = 1"
    by (simp add: ops_of_def sample_tickets_def)
  ultimately show ?thesis using handle_budgets_hold [OF sample_calls_run sample_lookup] by simp
qed

subsection \<open>Ownership\<close>

text \<open>An origin holds an id when it is live in its table. For any other id it is told what it may know: that a handle it
  once had is revoked or closed, while it is remembered, and else one denial, whoever holds the id.\<close>

definition holds_id :: "handle_table \<Rightarrow> str \<Rightarrow> str \<Rightarrow> bool" where
  "holds_id T k i \<longleftrightarrow> (case map_of (tables T) k of None \<Rightarrow> False | Some (s, t) \<Rightarrow> map_of (handles t) i \<noteq> None)"

definition remembered_as :: "handle_table \<Rightarrow> str \<Rightarrow> str \<Rightarrow> ended_as option" where
  "remembered_as T k i = (case map_of (tables T) k of None \<Rightarrow> None | Some (s, t) \<Rightarrow> map_of (recentlyClosed t) i)"

definition not_held :: "ended_as option \<Rightarrow> str \<Rightarrow> broker_error" where
  "not_held ended i =
     (case ended of
        Some EndedRevoked \<Rightarrow> fail_with E_revoked (js ''the grant authorising this handle was withdrawn'') (Some i) None
      | Some EndedClosed \<Rightarrow> fail_with E_closed (js ''the handle is already closed'') (Some i) (Some (js ''EBADF''))
      | None \<Rightarrow> fail_with E_denied NOT_YOURS (Some i) None)"

lemma not_held_record:
  assumes "\<not> holds_id T k i" and "map_of (tables T) k = Some (s, t)"
  shows "record_in t i = Inl (not_held (remembered_as T k i) i)" and "map_of (handles t) i = None"
  using assms by (simp_all add: holds_id_def remembered_as_def not_held_def record_in_def split: option.split ended_as.split)

lemma not_held_no_table:
  "map_of (tables T) k = None \<Longrightarrow> not_held (remembered_as T k i) i = fail_with E_denied NOT_YOURS (Some i) None"
  by (simp add: remembered_as_def not_held_def)

lemma not_held_calls:
  assumes key: "registry_key env origin = Inr k" and away: "\<not> holds_id T k i"
  shows "lookup_handle env origin i T = Inl (not_held (remembered_as T k i) i)"
    and "closeWithError env origin i reason err T = (T, [], Inl (not_held (remembered_as T k i) i))"
    and "run_begin env origin (OnHandle i) op False T = (T, [], Inl (not_held (remembered_as T k i) i))"
    and "release_handle env origin i T = (T, [], Inr ())" and "onUnlink env origin i listener T = (T, [], Inr ())"
  using key not_held_record [OF away] not_held_no_table [of T k i]
  by (simp_all add: lookup_handle_def closeWithError_def run_begin_def release_handle_def onUnlink_def existing_table_def
      split: option.split)

lemma not_held_parent:
  assumes key: "registry_key env (der_origin der) = Inr k" and away: "\<not> holds_id T k (der_parent der)"
  shows "acquireDerived env der T = Some (fst (getOrCreate T k), releaseUnregistered (der_destroy_fails der),
    Inl (not_held (remembered_as T k (der_parent der)) (der_parent der)))"
proof (cases "map_of (tables T) k")
  case None
  then have "record_in new_table (der_parent der) = Inl (not_held (remembered_as T k (der_parent der)) (der_parent der))"
    by (simp add: not_held_no_table record_in_def new_table_def)
  then show ?thesis using key None by (simp add: acquireDerived_def getOrCreate_def)
next
  case (Some st)
  then obtain s t where "map_of (tables T) k = Some (s, t)" by (cases st) simp
  then show ?thesis using key not_held_record(1) [OF away] by (simp add: acquireDerived_def getOrCreate_def)
qed

lemma derived_from:
  assumes "acquireDerived env der T = Some (T', es, Inr e)" and "registry_key env (der_origin der) = Inr k"
  shows "entry_origin e = k \<and> (\<exists>s t p. map_of (tables T) k = Some (s, t) \<and> map_of (handles t) (der_parent der) = Some p \<and>
    authorisedBy e = authorisation p)"
proof -
  obtain s t T1 parent i n t0 where g: "getOrCreate T k = (T1, s, t)" "record_in t (der_parent der) = Inr parent"
    and ins: "insert_handle i k (der_kind der) (authorisation parent) (Some (entry_id (entry parent))) None t = (t0, e)"
    using acquireDerived_cases [OF assms(1)] assms(2) unfolding derived_in_def by auto
  have p: "map_of (handles t) (der_parent der) = Some parent" using g(2) by (simp add: record_in_Inr)
  then have "map_of (tables T) k = Some (s, t)" using g(1) by (auto simp: getOrCreate_def new_table_def split: option.splits)
  moreover have "authorisedBy e = authorisation parent" using ins by (auto simp: insert_handle_def Let_def)
  ultimately show ?thesis using p insert_handle_fields(2) [OF ins] by blast
qed

text \<open>C36. A handle belongs to the origin that acquired it. A lookup that succeeds returns an entry of the calling origin
  under the id asked for, and a handle derived from a parent belongs to the caller and carries the authorisation of that
  parent, which the caller holds. For an id the caller does not hold, whoever else may hold it, lookup, failing, aborting
  and running an operation all give one answer: the denial, or, while a handle it had itself is remembered, that this
  one is revoked or closed. Closing it, or listening for its end, is a silent no-op. None of these changes anything or has any
  effect. A handle is never derived from it: the answer is the same, the resource is destroyed, and nothing but an empty
  table for the caller can come of it.\<close>

theorem handles_belong_to_their_origin:
  assumes run: "handle_run env T ts" and key: "registry_key env origin = Inr k"
  shows "(lookup_handle env origin i T = Inr e \<longrightarrow> entry_origin e = k \<and> entry_id e = i) \<and>
    (acquireDerived env der T = Some (T', es, Inr d) \<and> der_origin der = origin \<longrightarrow> entry_origin d = k \<and>
       (\<exists>s t p. map_of (tables T) k = Some (s, t) \<and> map_of (handles t) (der_parent der) = Some p \<and> authorisedBy d = authorisation p)) \<and>
    (\<not> holds_id T k i \<longrightarrow>
       lookup_handle env origin i T = Inl (not_held (remembered_as T k i) i) \<and>
       fail_handle env origin i c platform T = (T, [], Inl (not_held (remembered_as T k i) i)) \<and>
       abort_handle env origin i T = (T, [], Inl (not_held (remembered_as T k i) i)) \<and>
       run_begin env origin (OnHandle i) op False T = (T, [], Inl (not_held (remembered_as T k i) i)) \<and>
       release_handle env origin i T = (T, [], Inr ()) \<and> onUnlink env origin i listener T = (T, [], Inr ()) \<and>
       (der_origin der = origin \<and> der_parent der = i \<longrightarrow>
          acquireDerived env der T = Some (fst (getOrCreate T k), releaseUnregistered (der_destroy_fails der),
            Inl (not_held (remembered_as T k i) i))))"
proof (intro conjI impI; (elim conjE)?)
  assume l: "lookup_handle env origin i T = Inr e"
  obtain s t r where "map_of (tables T) k = Some (s, t)" "map_of (handles t) i = Some r" "e = entry r"
    using l key record_in_Inr
    by (auto simp: lookup_handle_def existing_table_def simp del: map_of_eq_Some_iff split: option.splits sum.splits)
  then show "entry_origin e = k" "entry_id e = i"
    using registry_okD(3) [OF handle_run_ok [OF run]] by (auto simp: good_table_def table_ok_def keyed_def)
next
  assume "acquireDerived env der T = Some (T', es, Inr d)" "der_origin der = origin"
  then show "entry_origin d = k" "\<exists>s t p. map_of (tables T) k = Some (s, t) \<and> map_of (handles t) (der_parent der) = Some p \<and>
      authorisedBy d = authorisation p"
    using derived_from [of env der T T' es d k] key by simp_all
next
  assume away: "\<not> holds_id T k i"
  note calls = not_held_calls [OF key away]
  show "lookup_handle env origin i T = Inl (not_held (remembered_as T k i) i)"
    "run_begin env origin (OnHandle i) op False T = (T, [], Inl (not_held (remembered_as T k i) i))"
    "release_handle env origin i T = (T, [], Inr ())" "onUnlink env origin i listener T = (T, [], Inr ())" by (rule calls)+
  show "fail_handle env origin i c platform T = (T, [], Inl (not_held (remembered_as T k i) i))"
    "abort_handle env origin i T = (T, [], Inl (not_held (remembered_as T k i) i))"
    by (simp_all add: fail_handle_def abort_handle_def calls(2))
  show "acquireDerived env der T = Some (fst (getOrCreate T k), releaseUnregistered (der_destroy_fails der),
      Inl (not_held (remembered_as T k i) i))" if "der_origin der = origin" "der_parent der = i"
    using not_held_parent [of env der k T] key away that by simp
qed

text \<open>Another id at the sample table, and a socket derived from it.\<close>

definition stray_socket :: derived_request where
  "stray_socket = \<lparr>der_origin = sample_key, der_kind = TcpSocket, der_parent = [9], der_limit = None, der_destroy_fails = False\<rparr>"

lemma handles_belong_to_their_origin_witness:
  "abort_handle sample_calls sample_key [9] sample_table =
     (sample_table, [], Inl (fail_with E_denied NOT_YOURS (Some [9]) None)) \<and>
   acquireDerived sample_calls stray_socket sample_table =
     Some (fst (getOrCreate sample_table sample_key), releaseUnregistered False, Inl (fail_with E_denied NOT_YOURS (Some [9]) None))"
proof -
  have "\<not> holds_id sample_table sample_key [9]" "not_held (remembered_as sample_table sample_key [9]) [9] =
      fail_with E_denied NOT_YOURS (Some [9]) None" by code_simp+
  moreover have "der_origin stray_socket = sample_key" "der_parent stray_socket = [9]" "\<not> der_destroy_fails stray_socket"
    by (simp_all add: stray_socket_def)
  ultimately show ?thesis
    using handles_belong_to_their_origin [OF sample_calls_run sample_registry_key, of "[9]" _ stray_socket] by simp
qed

subsection \<open>One origin's calls and another's table\<close>

definition others_same :: "str \<Rightarrow> handle_table \<Rightarrow> handle_table \<Rightarrow> bool" where
  "others_same k T T' \<longleftrightarrow> (\<forall>k'. k' \<noteq> k \<longrightarrow> map_of (tables T') k' = map_of (tables T) k')"

lemma others_same_refl [simp]: "others_same k T T"
  by (simp add: others_same_def)

lemma others_same_put [simp]: "others_same k T (put_table k s t T') = others_same k T T'"
  by (simp add: others_same_def put_table_map)

lemma others_same_drawn [simp]: "others_same k T (T'\<lparr>drawn := n\<rparr>) = others_same k T T'"
  by (simp add: others_same_def)

lemma others_same_delete [simp]: "others_same k T (deleteIfCurrent k s T') = others_same k T T'"
  by (simp add: deleteIfCurrent_def others_same_def delete_conv' split: option.split)

lemma others_same_reap [simp]: "others_same k T (reap k s t T') = others_same k T T'"
proof -
  have "reap k s t T' = (if dropping t \<or> \<not> holds_nothing t then put_table k s t T'
      else deleteIfCurrent k s (put_table k s t T'))"
    by (simp add: reap_def put_table_def Let_def)
  then show ?thesis by simp
qed

lemma others_same_getOrCreate: "getOrCreate T k = (T', s, t) \<Longrightarrow> others_same k T T'"
  by (auto simp: getOrCreate_def others_same_def update_conv' split: option.splits)

lemmas call_splits = option.splits sum.splits prod.splits if_splits

lemma others_acquire:
  assumes "acquire env req T = Some (T', es, res)" and "registry_key env (req_origin req) = Inr k"
  shows "others_same k T T'"
  using acquire_cases [OF assms(1)]
proof (elim disjE conjE exE)
  fix e assume "admitted env req T T' e"
  then show ?thesis using assms(2) others_same_getOrCreate by (auto simp: admitted_def)
next
  fix e k' s t assume r: "res = Inl e" "getOrCreate T k' = (T', s, t)"
  obtain T1 s1 t1 where g: "getOrCreate T k = (T1, s1, t1)" by (cases "getOrCreate T k") auto
  have "T' = T1" using assms r(1) g by (auto simp: acquire_def Let_def split: call_splits)
  then show ?thesis using others_same_getOrCreate [OF g] by simp
qed simp

lemma others_derived:
  assumes "acquireDerived env req T = Some (T', es, res)" and "registry_key env (der_origin req) = Inr k"
  shows "others_same k T T'"
  using acquireDerived_cases [OF assms(1)]
proof (elim disjE conjE exE)
  fix e assume "derived_in env req T T' e"
  then show ?thesis using assms(2) others_same_getOrCreate by (auto simp: derived_in_def)
next
  fix e k' s t assume r: "res = Inl e" "getOrCreate T k' = (T', s, t)"
  obtain T1 s1 t1 where g: "getOrCreate T k = (T1, s1, t1)" by (cases "getOrCreate T k") auto
  have "T' = T1" using assms r(1) g by (auto simp: acquireDerived_def Let_def split: call_splits)
  then show ?thesis using others_same_getOrCreate [OF g] by simp
qed simp

lemma others_begin:
  assumes r: "run_begin env origin scope op ab T = (T', es, res)" and k: "registry_key env origin = Inr k"
  shows "others_same k T T'"
proof (cases res)
  case (Inl e)
  obtain T1 s1 t1 where g: "getOrCreate T k = (T1, s1, t1)" by (cases "getOrCreate T k") auto
  have "T' = T \<or> T' = T1 \<or> (\<exists>s t. T' = reap k s t T) \<or> (\<exists>s t. T' = reap k s t T1)"
    using r k Inl g by (auto simp: run_begin_def existing_table_def Let_def simp del: map_of_eq_Some_iff
        split: call_splits operation_scope.splits bool.splits)
  then show ?thesis using others_same_getOrCreate [OF g] by auto
next
  case (Inr v)
  obtain k0 s st where v: "v = (k0, s, st)" by (cases v)
  have r': "run_begin env origin scope op ab T = (T', es, Inr (k0, s, st))" using r Inr v by simp
  obtain T1 t t2 where "registry_key env origin = Inr k0"
    "(T1 = T \<and> map_of (tables T) k0 = Some (s, t)) \<or> getOrCreate T k0 = (T1, s, t)" "T' = put_table k0 s t2 T1"
    by (rule run_begin_table [OF r']) blast
  then show ?thesis using k others_same_getOrCreate by auto
qed

text \<open>Apps are isolated from one another: no call made for one origin, whatever its arguments and
  however it ends, changes any other origin's table; nor does the end of one origin's operation.\<close>

theorem calls_touch_only_their_own_table:
  assumes key: "registry_key env origin = Inr k"
  shows "(acquire env req T = Some (T', es, entry_or_error) \<and> req_origin req = origin \<longrightarrow> others_same k T T') \<and>
    (acquireDerived env der T = Some (T', es, entry_or_error) \<and> der_origin der = origin \<longrightarrow> others_same k T T') \<and>
    (run_begin env origin scope op abandoned T = (T', es, begun) \<longrightarrow> others_same k T T') \<and>
    others_same k T (fst (run_end k s scope op T)) \<and>
    others_same k T (fst (release_handle env origin i T)) \<and> others_same k T (fst (onUnlink env origin i listener T)) \<and>
    others_same k T (fst (fail_handle env origin i c platform T)) \<and> others_same k T (fst (abort_handle env origin i T)) \<and>
    others_same k T (fst (revoke env origin g T)) \<and> others_same k T (fst (replaceGrant env origin g h ps ca T)) \<and>
    others_same k T (fst (revokeUserSelected env origin p T)) \<and> others_same k T (fst (grantIssued env origin g T)) \<and>
    others_same k T (fst (drop_begin env origin T)) \<and> others_same k T (drop_end (Some (k, s)) T)"
proof -
  obtain T1 s1 t1 where g: "getOrCreate T k = (T1, s1, t1)" by (cases "getOrCreate T k") auto
  note defs = release_handle_def onUnlink_def fail_handle_def abort_handle_def closeWithError_def revokeUserSelected_def
    grantIssued_def drop_begin_def drop_end_def existing_table_def
  have "others_same k T (fst (run_end k s scope op T))"
    by (auto simp: run_end_def simp del: map_of_eq_Some_iff split: call_splits)
  moreover have "others_same k T (fst (revoke env origin g T))" "others_same k T (fst (replaceGrant env origin g h ps ca T))"
    using key g others_same_getOrCreate [OF g]
    by (simp_all add: revoke_def replaceGrant_def del: revoke_tasks.simps split: prod.split)
  moreover have "others_same k T (fst (release_handle env origin i T))" "others_same k T (fst (onUnlink env origin i listener T))"
    "others_same k T (fst (fail_handle env origin i c platform T))" "others_same k T (fst (abort_handle env origin i T))"
    "others_same k T (fst (revokeUserSelected env origin p T))" "others_same k T (fst (grantIssued env origin g T))"
    "others_same k T (fst (drop_begin env origin T))" "others_same k T (drop_end (Some (k, s)) T)"
    using key by (simp_all add: defs Let_def split: option.split sum.split prod.split)
  moreover have "acquire env req T = Some (T', es, entry_or_error) \<and> req_origin req = origin \<longrightarrow> others_same k T T'"
    "acquireDerived env der T = Some (T', es, entry_or_error) \<and> der_origin der = origin \<longrightarrow> others_same k T T'"
    "run_begin env origin scope op abandoned T = (T', es, begun) \<longrightarrow> others_same k T T'"
    using others_acquire others_derived others_begin key by auto
  ultimately show ?thesis by (intro conjI)
qed

lemma calls_touch_only_their_own_table_witness:
  "others_same sample_key sample_table (fst (revoke sample_calls sample_key (js ''g'') sample_table))"
  using calls_touch_only_their_own_table [OF sample_registry_key] by blast

subsection \<open>Replacement\<close>

lemma replaceGrantIn_effect:
  assumes ok: "table_ok t" and v: "replaceGrantIn cb g h ps ca t = (t', es)"
  shows "\<And>i x'. map_of (handles t') i = Some x' \<Longrightarrow> \<exists>x. map_of (handles t) i = Some x \<and> entry x' = entry x"
    and "\<And>i x x'. map_of (handles t) i = Some x \<Longrightarrow> map_of (handles t') i = Some x' \<Longrightarrow>
      (if authorisation x = ByGrant g then authorisation x' = ByGrant h \<and> still_covered t x ps ca
       else authorisation x' = authorisation x)"
    and "\<And>i. map_of (handles t) i \<noteq> None \<Longrightarrow> map_of (handles t') i = None \<Longrightarrow>
      \<exists>j x. map_of (handles t) j = Some x \<and> authorisation x = ByGrant g \<and> \<not> still_covered t x ps ca \<and>
        i \<in> reach (handles t) {j}"
    and "ca \<Longrightarrow> currentGrantFor t' g = h"
    and "\<not> ca \<Longrightarrow> g \<in> set (revokedGrants t') \<and>
      (\<forall>op\<in>set (filed (grantOperations t) g). \<exists>e. Cancel op e \<in> set es \<and> err_code e = E_revoked)"
proof -
  obtain t1 e1 where one: "replaced_ok h ps ca (authorised_by t {g}) t t1" "handles t' = handles t1"
    and a: "ca \<Longrightarrow> map_of (grantAliases t') g = Some h"
    and na: "\<not> ca \<Longrightarrow> g \<in> set (revokedGrants t') \<and> filed (grantOperations t') g = [] \<and>
      (\<forall>op\<in>set (filed (grantOperations t) g). \<exists>e. Cancel op e \<in> set es \<and> err_code e = E_revoked)"
    by (rule replaceGrantIn_parts [OF v ok]) (rule that; simp)
  have ids: "i \<in> authorised_by t {g} \<longleftrightarrow> (\<exists>x. map_of (handles t) i = Some x \<and> authorisation x = ByGrant g)" for i
    by (auto simp: authorised_by_def)
  show "\<exists>x. map_of (handles t) i = Some x \<and> entry x' = entry x" if "map_of (handles t') i = Some x'" for i x'
    using one that unfolding replaced_ok_def same_handles_def by metis
  show "if authorisation x = ByGrant g then authorisation x' = ByGrant h \<and> still_covered t x ps ca
      else authorisation x' = authorisation x"
    if x: "map_of (handles t) i = Some x" "map_of (handles t') i = Some x'" for i x x'
  proof -
    have "if i \<in> authorised_by t {g} then authorisation x' = ByGrant h \<and> still_covered t x ps ca
        else authorisation x' = authorisation x"
      using one x unfolding replaced_ok_def by metis
    then show ?thesis using x(1) ids by simp
  qed
  show "\<exists>j x. map_of (handles t) j = Some x \<and> authorisation x = ByGrant g \<and> \<not> still_covered t x ps ca \<and>
      i \<in> reach (handles t) {j}"
    if "map_of (handles t) i \<noteq> None" "map_of (handles t') i = None" for i
  proof -
    have "\<exists>j\<in>authorised_by t {g}. \<exists>x. map_of (handles t) j = Some x \<and> \<not> still_covered t x ps ca \<and>
        i \<in> reach (handles t) {j}"
      using one that unfolding replaced_ok_def by metis
    then show ?thesis using ids by (metis option.inject)
  qed
  show "currentGrantFor t' g = h" if ca using a [OF that] by (simp add: currentGrantFor_def)
  show "g \<in> set (revokedGrants t') \<and>
      (\<forall>op\<in>set (filed (grantOperations t) g). \<exists>e. Cancel op e \<in> set es \<and> err_code e = E_revoked)" if "\<not> ca"
    using na [OF that] by blast
qed

text \<open>C6. Replacing a grant re-files every handle under it that the new patterns still cover (a derived
  handle as its parent's coverage says) under the replacement, closes those they do not cover and
  what was derived from them, and leaves every other handle and its authorisation alone. When the new
  patterns cover the old ones entirely, acquisitions decided under the old grant land under the new
  one; when not, the old grant is remembered as revoked and what was pending on it is cancelled.\<close>

theorem replacement_keeps_exactly_what_it_covers:
  assumes run: "handle_run env T ts" and key: "registry_key env origin = Inr k"
    and k: "map_of (tables T) k = Some (s, t)" and r: "replaceGrant env origin g h ps ca T = (T', es, res)"
  shows "\<exists>t'. (map_of (tables T') k = Some (s, t') \<or> (map_of (tables T') k = None \<and> handles t' = [])) \<and>
    (\<forall>i x x'. map_of (handles t) i = Some x \<longrightarrow> map_of (handles t') i = Some x' \<longrightarrow> entry x' = entry x \<and>
       (if authorisation x = ByGrant g then authorisation x' = ByGrant h \<and> still_covered t x ps ca
        else authorisation x' = authorisation x)) \<and>
    (\<forall>i. map_of (handles t) i \<noteq> None \<and> map_of (handles t') i = None \<longrightarrow>
       (\<exists>j x. map_of (handles t) j = Some x \<and> authorisation x = ByGrant g \<and> \<not> still_covered t x ps ca \<and>
          i \<in> reach (handles t) {j})) \<and>
    (\<forall>i. map_of (handles t) i = None \<longrightarrow> map_of (handles t') i = None) \<and>
    (ca \<longrightarrow> currentGrantFor t' g = h) \<and>
    (\<not> ca \<longrightarrow> g \<in> set (revokedGrants t') \<and>
       (\<forall>op\<in>set (filed (grantOperations t) g). \<exists>e. Cancel op e \<in> set es \<and> err_code e = E_revoked)) \<and>
    others_same k T T'"
proof -
  have ok: "table_ok t" using registry_okD(3) [OF handle_run_ok [OF run] k] by (rule good_ok)
  obtain t' where v: "replaceGrantIn (t_callbacks env) g h ps ca t = (t', es)" "T' = reap k s t' T"
    using r key k by (auto simp: replaceGrant_def getOrCreate_def split: prod.splits)
  note e = replaceGrantIn_effect [OF ok v(1)]
  show ?thesis
  proof (rule exI [of _ t'], intro conjI allI impI)
    have "holds_nothing t' \<Longrightarrow> handles t' = []" by (simp add: holds_nothing_def)
    then show "map_of (tables T') k = Some (s, t') \<or> (map_of (tables T') k = None \<and> handles t' = [])"
      by (auto simp: v(2) reap_def deleteIfCurrent_def Let_def update_conv' delete_conv')
    show "others_same k T T'" by (simp add: v(2))
    fix i x x' assume x: "map_of (handles t) i = Some x" "map_of (handles t') i = Some x'"
    show "entry x' = entry x" using e(1) [OF x(2)] x(1) by simp
  next
    fix i assume "map_of (handles t) i = None"
    then show "map_of (handles t') i = None" using e(1) by (cases "map_of (handles t') i") fastforce+
  qed (use e(2-5) in blast)+
qed

lemma replacement_keeps_exactly_what_it_covers_witness:
  "\<exists>t'. map_of (tables (fst (replaceGrant sample_calls sample_key (js ''g'') (js ''n'') [] False sample_table)))
       sample_key = Some (0, t') \<and> js ''g'' \<in> set (revokedGrants t')"
proof -
  let ?r = "replaceGrant sample_calls sample_key (js ''g'') (js ''n'') [] False sample_table"
  have "?r = (fst ?r, fst (snd ?r), snd (snd ?r))" by simp
  from replacement_keeps_exactly_what_it_covers [OF sample_calls_run sample_registry_key sample_lookup this]
  obtain t' where t': "map_of (tables (fst ?r)) sample_key = Some (0, t') \<or> map_of (tables (fst ?r)) sample_key = None"
    "js ''g'' \<in> set (revokedGrants t')" by meson
  moreover have "map_of (tables (fst ?r)) sample_key \<noteq> None" by code_simp
  ultimately show ?thesis by blast
qed

subsection \<open>Acquiring\<close>

lemma acquired_is_found:
  assumes "admitted env req T T' e"
  shows "lookup_handle env (req_origin req) (entry_id e) T' = Inr e" and "entry_kind e = req_kind req"
    and "authorisedBy e = req_auth req" and "registry_key env (req_origin req) = Inr (entry_origin e)"
    and "\<forall>s t. map_of (tables T) (entry_origin e) = Some (s, t) \<longrightarrow> entry_id e \<notin> set (used_ids t)"
proof -
  obtain k s t T1 i n t' where key: "registry_key env (req_origin req) = Inr k" "getOrCreate T k = (T1, s, t)"
    and fresh: "fresh_id (t_draw env) (used_ids t) (drawn T1) = Some (i, n)"
    and ins: "insert_handle i k (req_kind req) (req_auth req) None (req_covered req) t = (t', e)"
    and T': "T' = (put_table k s t' T1)\<lparr>drawn := n\<rparr>"
    using assms unfolding admitted_def by blast
  note f = insert_handle_fields [OF ins]
  obtain r where "map_of (handles t') i = Some r" "entry r = e"
    using f(5) [of i] ins by (auto simp: insert_handle_def Let_def)
  then show "lookup_handle env (req_origin req) (entry_id e) T' = Inr e"
    using key(1) f(1) by (simp add: T' lookup_handle_def existing_table_def put_table_map record_in_def)
  show "authorisedBy e = req_auth req" using ins by (auto simp: insert_handle_def Let_def)
  show "entry_kind e = req_kind req" "registry_key env (req_origin req) = Inr (entry_origin e)"
    using f(2,3) key(1) by simp_all
  show "\<forall>s t. map_of (tables T) (entry_origin e) = Some (s, t) \<longrightarrow> entry_id e \<notin> set (used_ids t)"
    using key(2) f(1,2) fresh_id_Some [OF fresh] by (auto simp: getOrCreate_def)
qed

lemma acquire_total:
  assumes draws: "inj (t_draw env)"
  obtains T' es res where "acquire env req T = Some (T', es, res)"
proof -
  have "acquire env req T \<noteq> None"
  proof (cases "registry_key env (req_origin req)")
    case (Inr k)
    obtain T1 s t where g: "getOrCreate T k = (T1, s, t)" by (cases "getOrCreate T k") auto
    show ?thesis
      using Inr g fresh_id_total [OF draws, of "used_ids t" "drawn T1"]
      by (auto simp: acquire_def Let_def split: call_splits)
  qed (simp add: acquire_def Let_def)
  then show thesis using that by (metis not_None_eq prod_cases3)
qed

text \<open>C38. Acquiring always answers: as long as random ids do not repeat forever, the loop that draws an
  unused one ends. An acquisition that succeeds registers a handle of the calling origin with the
  asked kind and authorisation under an id that was neither live nor remembered, which lookup then
  finds; one that fails has the caller's resource destroyed and registers nothing.\<close>

theorem acquire_always_answers:
  assumes run: "handle_run env T ts" and draws: "inj (t_draw env)"
  shows "\<exists>T' es res. acquire env req T = Some (T', es, res) \<and>
    (case res of
       Inr e \<Rightarrow> es = [] \<and> lookup_handle env (req_origin req) (entry_id e) T' = Inr e \<and> entry_kind e = req_kind req \<and>
         authorisedBy e = req_auth req \<and> registry_key env (req_origin req) = Inr (entry_origin e) \<and>
         (\<forall>s t. map_of (tables T) (entry_origin e) = Some (s, t) \<longrightarrow> entry_id e \<notin> set (used_ids t))
     | Inl err \<Rightarrow> DestroyRefused Failed \<in> set es \<and>
         (\<forall>k s t. map_of (tables T') k = Some (s, t) \<longrightarrow> map_of (tables T) k = Some (s, t) \<or> t = new_table))"
proof -
  obtain T' es res where a: "acquire env req T = Some (T', es, res)" by (rule acquire_total [OF draws])
  show ?thesis
  proof (cases res)
    case (Inl err)
    have "DestroyRefused Failed \<in> set es"
      using a Inl by (auto simp: acquire_def releaseUnregistered_def Let_def split: call_splits)
    moreover have "map_of (tables T) k = Some (s, t) \<or> t = new_table" if "map_of (tables T') k = Some (s, t)" for k s t
      using acquire_cases [OF a] Inl that
      by (auto simp: getOrCreate_def update_conv' simp del: map_of_eq_Some_iff split: call_splits)
    ultimately show ?thesis using a Inl by force
  next
    case (Inr e)
    then have "es = []" "admitted env req T T' e" using acquire_cases [OF a] by auto
    then show ?thesis using a Inr acquired_is_found by fastforce
  qed
qed

lemma acquire_always_answers_witness:
  "\<exists>T' e. acquire sample_calls (sample_request UdpSocket (js ''h'')) sample_table = Some (T', [], Inr e) \<and>
     lookup_handle sample_calls sample_key (entry_id e) T' = Inr e \<and> entry_kind e = UdpSocket"
proof -
  have "inj (t_draw sample_calls)" by (simp add: sample_calls_def inj_def)
  from acquire_always_answers [OF sample_calls_run this, of "sample_request UdpSocket (js ''h'')"]
  obtain T' es res where a: "acquire sample_calls (sample_request UdpSocket (js ''h'')) sample_table = Some (T', es, res)"
    and r: "case res of Inr e \<Rightarrow> es = [] \<and> lookup_handle sample_calls sample_key (entry_id e) T' = Inr e \<and>
      entry_kind e = UdpSocket | Inl err \<Rightarrow> True"
    by (fastforce simp: sample_request_def split: sum.splits)
  have "map_option (\<lambda>(T, es, res). res = Inl (case res of Inl e \<Rightarrow> e | Inr _ \<Rightarrow> undefined))
     (acquire sample_calls (sample_request UdpSocket (js ''h'')) sample_table) = Some False" by code_simp
  then show ?thesis using a r by (cases res) auto
qed

subsection \<open>Waiting for a slot\<close>

text \<open>Some operations ending one after the other, and whom each let in.\<close>

fun end_all :: "ticket list \<Rightarrow> handle_table \<Rightarrow> handle_table \<times> nat option list" where
  "end_all [] T = (T, [])"
| "end_all ((op, k, s, scope) # ts) T =
     (case run_end k s scope op T of (T, a) \<Rightarrow> case end_all ts T of (T, let_in) \<Rightarrow> (T, a # let_in))"

fun running_on :: "str \<Rightarrow> nat \<Rightarrow> nat list \<Rightarrow> ticket \<Rightarrow> bool" where
  "running_on k s waiters (op, k', s', scope) \<longleftrightarrow> k' = k \<and> s' = s \<and> op \<notin> set waiters"

lemma running_on_tl: "running_on k s (w # rest) e \<Longrightarrow> running_on k s rest e"
  by (cases e) simp

lemma end_admits_next:
  assumes "map_of (tables T) k = Some (s, t)" and "slotWaiters t = w # rest" and "op \<notin> set (slotWaiters t)"
    and "0 < inFlight t"
  obtains t' where "run_end k s scope op T = (put_table k s t' T, Some w)" and "slotWaiters t' = rest"
    and "inFlight t' = inFlight t"
proof -
  let ?t = "remove_operation scope op (t\<lparr>slotWaiters := rest\<rparr>)"
  have "reap k s ?t T = put_table k s ?t T"
    using assms(4) by (simp add: reap_def put_table_def holds_nothing_def Let_def)
  then have "run_end k s scope op T = (put_table k s ?t T, Some w)"
    using assms(1-3) by (simp add: run_end_def releaseSlot_def)
  then show thesis by (rule that) simp_all
qed

lemma end_all_admits:
  assumes "map_of (tables T) k = Some (s, t)" and "0 < inFlight t" and "length ends \<le> length (slotWaiters t)"
    and "\<forall>e\<in>set ends. running_on k s (slotWaiters t) e"
  shows "snd (end_all ends T) = map Some (take (length ends) (slotWaiters t)) \<and>
    (\<exists>t'. map_of (tables (fst (end_all ends T))) k = Some (s, t') \<and> slotWaiters t' = drop (length ends) (slotWaiters t) \<and>
       inFlight t' = inFlight t)"
  using assms
proof (induction ends arbitrary: T t)
  case Nil then show ?case by simp
next
  case (Cons e ends)
  obtain op scope where e: "e = (op, k, s, scope)" "op \<notin> set (slotWaiters t)" using Cons.prems(4) by (cases e) auto
  obtain w rest where w: "slotWaiters t = w # rest" using Cons.prems(3) by (cases "slotWaiters t") auto
  obtain t' where t': "run_end k s scope op T = (put_table k s t' T, Some w)" "slotWaiters t' = rest"
    "inFlight t' = inFlight t"
    by (rule end_admits_next [OF Cons.prems(1) w e(2) Cons.prems(2)])
  have IH: "snd (end_all ends (put_table k s t' T)) = map Some (take (length ends) rest) \<and>
    (\<exists>u. map_of (tables (fst (end_all ends (put_table k s t' T)))) k = Some (s, u) \<and>
       slotWaiters u = drop (length ends) rest \<and> inFlight u = inFlight t)"
  proof -
    have "\<forall>e\<in>set ends. running_on k s (slotWaiters t') e"
      using Cons.prems(4) running_on_tl unfolding w t'(2) by fastforce
    then show ?thesis
      using Cons.IH [of "put_table k s t' T" t'] Cons.prems(2,3) w t'(2,3) by (simp add: put_table_map)
  qed
  then show ?case
    unfolding e(1) by (auto simp: t'(1) w split: prod.split)
qed

text \<open>An origin with every slot taken: 256 operations run under one grant and one more waits.\<close>

definition begin_on_g :: "nat \<Rightarrow> handle_table \<Rightarrow> handle_table" where
  "begin_on_g op T = fst (run_begin sample_calls sample_key (OnGrant (js ''g'')) op False T)"

definition busy_table :: "nat \<Rightarrow> handle_table" where
  "busy_table n = fold begin_on_g [0..<n] empty_handle_table"

definition busy_tickets :: "nat \<Rightarrow> ticket list" where
  "busy_tickets n = map (\<lambda>op. (op, sample_key, 0, OnGrant (js ''g''))) [0..<n]"

lemma begin_on_grant:
  assumes "getOrCreate T sample_key = (T1, s, t)" and "T = T1 \<or> existing_table T sample_key = None"
    and t: "\<not> dropping t" "revokedGrants t = []" "\<not> queueFull t"
  shows "\<exists>t' st es. run_begin sample_calls sample_key (OnGrant g) op False T =
      (put_table sample_key s t' T1, es, Inr (sample_key, s, st)) \<and> \<not> dropping t' \<and> revokedGrants t' = [] \<and>
      (if inFlight t \<ge> 256 \<or> slotWaiters t \<noteq> [] then inFlight t' = inFlight t \<and> slotWaiters t' = slotWaiters t @ [op]
       else inFlight t' = inFlight t + 1 \<and> slotWaiters t' = [])"
proof -
  let ?t = "add_operation (OnGrant g) op t"
  have q: "\<not> queueFull ?t" using t(3) by (simp add: queueFull_def)
  have free: "\<not> (case existing_table T sample_key of None \<Rightarrow> False
      | Some (s, t) \<Rightarrow> g \<in> set (revokedGrants t) \<or> dropping t)"
    using assms(1,2) t(1,2) by (auto simp: existing_table_def getOrCreate_def simp del: map_of_eq_Some_iff split: option.splits)
  show ?thesis
  proof (cases "inFlight t \<ge> 256 \<or> slotWaiters t \<noteq> []")
    case True
    then have "tryTakeSlot ?t = (?t, False)"
      by (auto simp: tryTakeSlot_def LIMIT_inFlightOperations_def)
    moreover have "waitForSlot op ?t = Inr (?t\<lparr>slotWaiters := slotWaiters t @ [op]\<rparr>)"
      using q by (simp add: waitForSlot_def)
    ultimately have "run_begin sample_calls sample_key (OnGrant g) op False T =
        (put_table sample_key s (?t\<lparr>slotWaiters := slotWaiters t @ [op]\<rparr>) T1, [], Inr (sample_key, s, Queued))"
      using assms(1) free t(3) by (simp add: run_begin_def sample_registry_key Let_def)
    then show ?thesis
      using True t(1,2)
      by (intro exI [of _ "?t\<lparr>slotWaiters := slotWaiters t @ [op]\<rparr>"] exI [of _ Queued] exI [of _ "[]"] conjI) simp_all
  next
    case False
    then have "tryTakeSlot ?t = (?t\<lparr>inFlight := inFlight t + 1\<rparr>, True)"
      by (auto simp: tryTakeSlot_def LIMIT_inFlightOperations_def)
    then have "run_begin sample_calls sample_key (OnGrant g) op False T =
        (put_table sample_key s (?t\<lparr>inFlight := inFlight t + 1\<rparr>) T1, [], Inr (sample_key, s, Running))"
      using assms(1) free t(3) by (simp add: run_begin_def sample_registry_key Let_def)
    then show ?thesis
      using False t(1,2)
      by (intro exI [of _ "?t\<lparr>inFlight := inFlight t + 1\<rparr>"] exI [of _ Running] exI [of _ "[]"] conjI) simp_all
  qed
qed

lemma busy_run:
  "n \<le> 257 \<Longrightarrow> handle_run sample_calls (busy_table n) (busy_tickets n) \<and>
     (0 < n \<longrightarrow> (\<exists>t. map_of (tables (busy_table n)) sample_key = Some (0, t) \<and> \<not> dropping t \<and> revokedGrants t = [] \<and>
        inFlight t = int (min n 256) \<and> slotWaiters t = [256..<n]))"
proof (induction n)
  case 0
  then show ?case by (simp add: busy_table_def busy_tickets_def run_start)
next
  case (Suc n)
  have IH: "handle_run sample_calls (busy_table n) (busy_tickets n)"
    "0 < n \<Longrightarrow> \<exists>t. map_of (tables (busy_table n)) sample_key = Some (0, t) \<and> \<not> dropping t \<and> revokedGrants t = [] \<and>
        inFlight t = int (min n 256) \<and> slotWaiters t = [256..<n]"
    using Suc by simp_all
  obtain T1 t where g: "getOrCreate (busy_table n) sample_key = (T1, 0, t)"
    "busy_table n = T1 \<or> existing_table (busy_table n) sample_key = None"
    and t: "\<not> dropping t" "revokedGrants t = []" "inFlight t = int (min n 256)" "slotWaiters t = [256..<n]"
  proof (cases "n = 0")
    case True
    then show thesis
      using that by (simp add: busy_table_def getOrCreate_def existing_table_def empty_handle_table_def new_table_def)
  next
    case False
    then show thesis using IH(2) that [of "busy_table n"] by (auto simp: getOrCreate_def)
  qed
  have q: "\<not> queueFull t"
    using t(3,4) Suc.prems by (simp add: queueFull_def IN_FLIGHT_QUEUE_LIMIT_def LIMIT_inFlightOperations_def)
  obtain t' st es where b: "run_begin sample_calls sample_key (OnGrant (js ''g'')) n False (busy_table n) =
      (put_table sample_key 0 t' T1, es, Inr (sample_key, 0, st))" "\<not> dropping t'" "revokedGrants t' = []"
    and slots: "if inFlight t \<ge> 256 \<or> slotWaiters t \<noteq> []
       then inFlight t' = inFlight t \<and> slotWaiters t' = slotWaiters t @ [n]
       else inFlight t' = inFlight t + 1 \<and> slotWaiters t' = []"
    using begin_on_grant [OF g t(1,2) q, of "js ''g''" n] by blast
  have next_: "busy_table (Suc n) = put_table sample_key 0 t' T1"
    using b(1) by (simp add: busy_table_def begin_on_g_def)
  have "n \<notin> fst ` set (busy_tickets n)" by (auto simp: busy_tickets_def)
  then have "handle_step sample_calls (busy_table n, busy_tickets n)
      (put_table sample_key 0 t' T1, busy_tickets n @ [(n, sample_key, 0, OnGrant (js ''g''))])"
    by (rule step_begin [OF b(1)])
  then have "handle_run sample_calls (busy_table (Suc n)) (busy_tickets (Suc n))"
    unfolding next_ using run_step [OF IH(1)] by (simp add: busy_tickets_def)
  moreover have "inFlight t' = int (min (Suc n) 256) \<and> slotWaiters t' = [256..<Suc n]"
    using slots t(3,4) Suc.prems by (cases "n < 256") (auto simp: min_def)
  ultimately show ?case using b(2,3) by (simp add: next_ put_table_map)
qed

lemma newcomer_queues:
  assumes k: "map_of (tables T) k = Some (s, t)" and waiting: "slotWaiters t \<noteq> []"
    and key: "registry_key env origin = Inr k" and r: "run_begin env origin scope op abandoned T = (T', es, res)"
  shows "case res of Inl e \<Rightarrow> T' = T
        | Inr (k', s', st) \<Rightarrow> k' = k \<and> s' = s \<and> st = Queued \<and>
            (\<exists>t'. T' = put_table k s t' T \<and> slotWaiters t' = slotWaiters t @ [op] \<and> inFlight t' = inFlight t)"
proof (cases res)
  case (Inl e)
  have full: "queueFull u = queueFull (add_operation sc op u)" for u sc by (simp add: queueFull_def)
  have "waitForSlot op t2 \<noteq> Inl e" if "\<not> queueFull u" "tryTakeSlot (add_operation scope op u) = (t2, False)" for u t2 e
    using that by (auto simp: waitForSlot_def tryTakeSlot_def queueFull_def split: if_splits)
  then have "T' = T"
    using r key k Inl by (auto simp: run_begin_def existing_table_def getOrCreate_def Let_def simp del: map_of_eq_Some_iff
        split: call_splits operation_scope.splits bool.splits)
  then show ?thesis using Inl by simp
next
  case (Inr v)
  obtain k' s' st where v: "v = (k', s', st)" by (cases v)
  have r': "run_begin env origin scope op abandoned T = (T', es, Inr (k', s', st))" using r Inr v by simp
  obtain T1 t0 t1 t2 where b: "registry_key env origin = Inr k'"
    "(T1 = T \<and> map_of (tables T) k' = Some (s', t0)) \<or> getOrCreate T k' = (T1, s', t0)"
    "t1 = add_operation scope op t0" "T' = put_table k' s' t2 T1"
    "(st = Running \<and> tryTakeSlot t1 = (t2, True)) \<or> (st = Queued \<and> tryTakeSlot t1 = (t1, False) \<and> waitForSlot op t1 = Inr t2)"
    by (rule run_begin_table [OF r']) blast
  have "k' = k" using b(1) key by simp
  moreover from this have "T1 = T" "s' = s" "t0 = t" using b(2) k by (auto simp: getOrCreate_def)
  moreover from this have "st = Queued" "waitForSlot op t1 = Inr t2"
    using b(3,5) waiting by (auto simp: tryTakeSlot_def split: if_splits)
  moreover from this(2) have "t2 = t1\<lparr>slotWaiters := slotWaiters t1 @ [op]\<rparr>"
    by (auto simp: waitForSlot_def split: if_splits)
  ultimately show ?thesis using Inr v b(3,4) by auto
qed

text \<open>C39. Nobody waits for ever behind newcomers. While operations of an origin wait, all of its 256 slots
  are held by operations that are running, a new operation never starts but joins the end of the
  queue (or is refused when 256 wait already), and as running operations end, one after the other,
  each lets in the one that has waited longest: after n of them, the first n waiters, in their order.\<close>

theorem slots_go_to_the_longest_waiting:
  assumes run: "handle_run env T ts" and k: "map_of (tables T) k = Some (s, t)" and waiting: "slotWaiters t \<noteq> []"
  shows "card {op. (\<exists>scope. (op, k, s, scope) \<in> set ts) \<and> op \<notin> set (slotWaiters t)} = 256 \<and>
    (\<forall>ends. length ends \<le> length (slotWaiters t) \<and>
       (\<forall>e\<in>set ends. running_on k s (slotWaiters t) e) \<longrightarrow>
       snd (end_all ends T) = map Some (take (length ends) (slotWaiters t)) \<and>
       (\<exists>t'. map_of (tables (fst (end_all ends T))) k = Some (s, t') \<and>
          slotWaiters t' = drop (length ends) (slotWaiters t) \<and> inFlight t' = 256)) \<and>
    (registry_key env origin = Inr k \<longrightarrow> run_begin env origin scope op abandoned T = (T', es, res) \<longrightarrow>
       (case res of Inl e \<Rightarrow> T' = T
        | Inr (k', s', st) \<Rightarrow> k' = k \<and> s' = s \<and> st = Queued \<and>
            (\<exists>t'. T' = put_table k s t' T \<and> slotWaiters t' = slotWaiters t @ [op] \<and> inFlight t' = inFlight t)))"
proof (intro conjI allI impI)
  note acc = accountedD [OF registry_okD(5) [OF handle_run_ok [OF run] k]]
  have full: "inFlight t = 256" using acc(6) waiting by (simp add: LIMIT_inFlightOperations_def)
  have "{op. (\<exists>scope. (op, k, s, scope) \<in> set ts) \<and> op \<notin> set (slotWaiters t)} = ops_of ts k s - set (slotWaiters t)"
    by (auto simp: ops_of_def)
  then show "card {op. (\<exists>scope. (op, k, s, scope) \<in> set ts) \<and> op \<notin> set (slotWaiters t)} = 256"
    using acc(3) full by simp
  fix ends assume "length ends \<le> length (slotWaiters t) \<and>
       (\<forall>e\<in>set ends. running_on k s (slotWaiters t) e)"
  then show "snd (end_all ends T) = map Some (take (length ends) (slotWaiters t))"
    "\<exists>t'. map_of (tables (fst (end_all ends T))) k = Some (s, t') \<and>
          slotWaiters t' = drop (length ends) (slotWaiters t) \<and> inFlight t' = 256"
    using end_all_admits [OF k, of ends] full by simp_all
qed (rule newcomer_queues [OF k waiting])

lemma slots_go_to_the_longest_waiting_witness:
  "snd (end_all [(3, sample_key, 0, OnGrant (js ''g''))] (busy_table 257)) = [Some 256]"
proof -
  obtain t where t: "map_of (tables (busy_table 257)) sample_key = Some (0, t)" "slotWaiters t = [256..<257]"
    using busy_run [of 257] by auto
  have one: "[256..<257] = [256::nat]" by (simp add: upt_rec)
  have w: "slotWaiters t \<noteq> []" "length [(3::nat, sample_key, 0::nat, OnGrant (js ''g''))] \<le> length (slotWaiters t) \<and>
    (\<forall>e\<in>set [(3, sample_key, 0, OnGrant (js ''g''))]. running_on sample_key 0 (slotWaiters t) e)"
    unfolding t(2) one by simp_all
  have run: "handle_run sample_calls (busy_table 257) (busy_tickets 257)" using busy_run [of 257] by simp
  note all = slots_go_to_the_longest_waiting [OF run t(1) w(1), THEN conjunct2, THEN conjunct1]
  have "snd (end_all [(3, sample_key, 0, OnGrant (js ''g''))] (busy_table 257)) =
      map Some (take (length [(3::nat, sample_key, 0::nat, OnGrant (js ''g''))]) (slotWaiters t))"
    using all [THEN spec, THEN mp, OF w(2)] by (rule conjunct1)
  then show ?thesis unfolding t(2) one by simp
qed

subsection \<open>The end of a session\<close>

text \<open>C40. When an origin's session ends, every handle it holds is destroyed exactly once, every operation
  pending on a handle or on a grant is cancelled with \<open>revoked\<close>, and until the table is gone nothing new
  starts in it: acquiring, deriving and running under a grant are refused with \<open>revoked\<close> or not at all
  possible. When the teardowns have settled the table is gone, and no other origin's has changed.\<close>

theorem dropped_session_leaves_nothing:
  assumes run: "handle_run env T ts" and key: "registry_key env origin = Inr k"
    and k: "map_of (tables T) k = Some (s, t)" and d: "drop_begin env origin T = (T', es, res)"
  shows "res = Inr (Some (k, s)) \<and> distinct (destroyed es) \<and> set (destroyed es) = set (map fst (handles t)) \<and>
    (\<forall>g. \<forall>op\<in>set (filed (grantOperations t) g). \<exists>e. Cancel op e \<in> set es \<and> err_code e = E_revoked) \<and>
    (\<forall>i h. map_of (handles t) i = Some h \<longrightarrow> (\<forall>op\<in>set (operations h). \<exists>e. Cancel op e \<in> set es \<and> err_code e = E_revoked)) \<and>
    (\<exists>t'. map_of (tables T') k = Some (s, t') \<and> handles t' = [] \<and> grantOperations t' = [] \<and> dropping t') \<and>
    (\<forall>req. req_origin req = origin \<longrightarrow>
       (\<exists>es' e. acquire env req T' = Some (T', es', Inl e) \<and> err_code e = E_revoked)) \<and>
    (\<forall>der. der_origin der = origin \<longrightarrow> (\<exists>es' e. acquireDerived env der T' = Some (T', es', Inl e))) \<and>
    (\<forall>g op. \<exists>e. run_begin env origin (OnGrant g) op False T' = (T', [], Inl e) \<and> err_code e = E_revoked) \<and>
    map_of (tables (drop_end (Some (k, s)) T')) k = None \<and> others_same k T (drop_end (Some (k, s)) T')"
proof -
  note ok = handle_run_ok [OF run]
  obtain t' where T': "T' = put_table k s t' T" and r: "res = Inr (Some (k, s))" and t': "handles t' = []" "dropping t'"
    "grantOperations t' = []" and es: "distinct (destroyed es) \<and> set (destroyed es) = set (map fst (handles t))"
    and can: "\<forall>g. \<forall>op\<in>set (filed (grantOperations t) g). \<exists>e. Cancel op e \<in> set es \<and> err_code e = E_revoked"
    by (rule drop_begin_parts [OF ok key k d])
  have m: "map_of (tables T') k = Some (s, t')" by (simp add: T' put_table_map)
  have g: "getOrCreate T' k = (T', s, t')" using m by (simp add: getOrCreate_def)
  let ?t = "t\<lparr>dropping := True, grantOperations := []\<rparr>"
  obtain t2 e1 e0 where c: "close_each (t_callbacks env) SessionEnded (map fst (handles t)) ?t = (t2, e1)" "es = e0 @ e1"
    "T' = put_table k s t2 T"
    using d key k by (auto simp: drop_begin_def existing_table_def Let_def split: prod.splits)
  have "t2 = t'" using m c(3) by (simp add: put_table_map)
  moreover have "table_ok ?t"
    using registry_okD(3) [OF ok k] by (simp add: good_table_def table_ok_def memory_ok_def)
  ultimately have cuts: "cuts_off ?t t' e1" using cuts_off_close_each [OF c(1)] by simp
  have ops: "\<exists>e. Cancel op e \<in> set es \<and> err_code e = E_revoked"
    if "map_of (handles t) i = Some h" "op \<in> set (operations h)" for i h op
  proof -
    have "map_of (handles ?t) i = Some h" "map_of (handles t') i = None" using that(1) t'(1) by simp_all
    then have "\<exists>e. Cancel op e \<in> set e1 \<and> err_code e = E_revoked" using cuts that(2) unfolding cuts_off_def by blast
    then show ?thesis using c(2) by auto
  qed
  have acq: "\<exists>es' e. acquire env req T' = Some (T', es', Inl e) \<and> err_code e = E_revoked" if "req_origin req = origin" for req
    using that key g t'(2) by (simp add: acquire_def assertAcquirable_def fail_with_def)
  have der: "\<exists>es' e. acquireDerived env der T' = Some (T', es', Inl e)" if "der_origin der = origin" for der
  proof -
    have "record_in t' (der_parent der) \<noteq> Inr r" for r using t'(1) record_in_Inr by simp
    then obtain e where "record_in t' (der_parent der) = Inl e" by (cases "record_in t' (der_parent der)") auto
    then show ?thesis using that key g by (simp add: acquireDerived_def)
  qed
  have begin_: "\<exists>e. run_begin env origin (OnGrant g) op False T' = (T', [], Inl e) \<and> err_code e = E_revoked" for g op
    using key m t'(2) by (simp add: run_begin_def existing_table_def fail_with_def)
  have gone: "map_of (tables (drop_end (Some (k, s)) T')) k = None"
    using m by (simp add: drop_end_def deleteIfCurrent_def delete_conv')
  have "others_same k T (drop_end (Some (k, s)) T')" by (simp add: T' drop_end_def)
  then show ?thesis
    using r es can ops t' m acq der begin_ gone by (intro conjI allI impI ballI) (assumption | blast)+
qed

lemma dropped_session_leaves_nothing_witness:
  "map_of (tables (drop_end (Some (sample_key, 0)) (fst (drop_begin sample_calls sample_key sample_table)))) sample_key = None"
proof -
  let ?d = "drop_begin sample_calls sample_key sample_table"
  have "?d = (fst ?d, fst (snd ?d), snd (snd ?d))" by simp
  from dropped_session_leaves_nothing [OF sample_calls_run sample_registry_key sample_lookup this]
  show ?thesis by (elim conjE)
qed

end
