(* ===== verification/Paths.thy ===== *)
theory Paths imports Prelude "HOL-Library.Sublist" begin

section \<open>Path confinement (paths.ts, windows-device-names.ts)\<close>

text \<open>
  The decision whether a path an app asked for lies inside that app's directory. The POSIX flavour of
  \<open>node:path\<close> is modelled as its documentation describes it; the Windows flavour is a parameter, so is
  \<open>toUpperCase\<close>, and \<open>realpath\<close> gives \<open>None\<close> where it throws. The lemmas show that a path
  let through is the root followed by literal names, and that the deepest existing part of it
  really leads inside the real root.
\<close>

subsection \<open>node:path\<close>

record platform_path =
  isAbsolute :: "str \<Rightarrow> bool"
  path_resolve :: "str list \<Rightarrow> str"
  relative :: "str \<Rightarrow> str \<Rightarrow> str"
  path_join :: "str list \<Rightarrow> str"
  sep :: str
  basename :: "str \<Rightarrow> str"

text \<open>The segments of a path, \<open>.\<close> and empty ones dropped and \<open>..\<close> taking the one before it away (or, in a
  relative path that has none, kept).\<close>

fun collapse :: "bool \<Rightarrow> str list \<Rightarrow> str list \<Rightarrow> str list" where
  "collapse absolute out [] = out"
| "collapse absolute out (s # segs) =
     (if s = [] \<or> s = js ''.'' then collapse absolute out segs
      else if s = js ''..'' then
        (if out \<noteq> [] \<and> List.last out \<noteq> js ''..'' then collapse absolute (butlast out) segs
         else if absolute then collapse absolute out segs
         else collapse absolute (out @ [s]) segs)
      else collapse absolute (out @ [s]) segs)"

definition posix_absolute :: "str \<Rightarrow> bool" where
  "posix_absolute p \<longleftrightarrow> starts_with (js ''/'') p"

definition posix_segments :: "str \<Rightarrow> str list" where
  "posix_segments p = collapse (posix_absolute p) [] (split_on 47 p)"

definition posix_of :: "str list \<Rightarrow> str" where
  "posix_of segs = 47 # join [47] segs"

text \<open>\<open>cwd\<close> is the working directory, read only when no argument is absolute.\<close>

fun resolve_from :: "str \<Rightarrow> str list \<Rightarrow> str" where
  "resolve_from cwd [] = cwd"
| "resolve_from cwd (p # ps) =
     resolve_from (if p = [] then cwd else if posix_absolute p then p else cwd @ [47] @ p) ps"

definition posix_resolve :: "str \<Rightarrow> str list \<Rightarrow> str" where
  "posix_resolve cwd ps = posix_of (posix_segments (resolve_from cwd ps))"

fun strip_common :: "'a list \<Rightarrow> 'a list \<Rightarrow> 'a list \<times> 'a list" where
  "strip_common (a # as') (b # bs) = (if a = b then strip_common as' bs else (a # as', b # bs))"
| "strip_common as' bs = (as', bs)"

definition posix_relative :: "str \<Rightarrow> str \<Rightarrow> str \<Rightarrow> str" where
  "posix_relative cwd src to =
     (case strip_common (posix_segments (resolve_from cwd [src])) (posix_segments (resolve_from cwd [to])) of
        (up, down) \<Rightarrow> join [47] (map (\<lambda>_. js ''..'') up @ down))"

definition posix_join :: "str list \<Rightarrow> str" where
  "posix_join ps =
     (let joined = join [47] (filter (\<lambda>p. p \<noteq> []) ps);
          segs = posix_segments joined;
          path = (if posix_absolute joined then posix_of segs else if segs = [] then js ''.'' else join [47] segs)
      in if ends_with (js ''/'') joined \<and> segs \<noteq> [] then path @ js ''/'' else path)"

definition posix_basename :: "str \<Rightarrow> str" where
  "posix_basename p = List.last (split_on 47 (rev (dropWhile (\<lambda>c. c = 47) (rev p))))"

definition posix :: "str \<Rightarrow> platform_path" where
  "posix cwd = \<lparr>isAbsolute = posix_absolute, path_resolve = posix_resolve cwd, relative = posix_relative cwd,
     path_join = posix_join, sep = js ''/'', basename = posix_basename\<rparr>"

subsection \<open>windows-device-names.ts\<close>

definition WINDOWS_DEVICE_NAMES :: "str list" where
  "WINDOWS_DEVICE_NAMES = [js ''CON'', js ''PRN'', js ''AUX'', js ''NUL''] @
     map (\<lambda>d. js ''COM'' @ [d]) [49..<58] @ map (\<lambda>d. js ''LPT'' @ [d]) [49..<58]"

subsection \<open>paths.ts\<close>

datatype confine_denial =
  RootNotAbsolute | RootUnresolvable | NulByte | EmptyPath | AbsolutePath | Backslash | WindowsDrive
| ReservedName | IsRoot | EscapesRoot | SymlinkEscape | Unresolvable

definition is_letter :: "nat \<Rightarrow> bool" where
  "is_letter c \<longleftrightarrow> (65 \<le> c \<and> c \<le> 90) \<or> (97 \<le> c \<and> c \<le> 122)"

definition WINDOWS_DRIVE_PREFIX :: "str \<Rightarrow> bool" where
  "WINDOWS_DRIVE_PREFIX s \<longleftrightarrow> 2 \<le> length s \<and> is_letter (s ! 0) \<and> s ! 1 = 58"

definition UNC_PREFIX :: "str \<Rightarrow> bool" where
  "UNC_PREFIX s \<longleftrightarrow> 2 \<le> length s \<and> list_all (\<lambda>c. c = 92 \<or> c = 47) (take 2 s)"

record path_env =
  posix_path :: platform_path
  win32_path :: platform_path
  to_upper :: "str \<Rightarrow> str"
  realpath :: "str \<Rightarrow> str option"

definition flavourFor :: "path_env \<Rightarrow> str \<Rightarrow> platform_path" where
  "flavourFor env root =
     (if WINDOWS_DRIVE_PREFIX root \<or> UNC_PREFIX root then win32_path env else posix_path env)"

definition escapes :: "str \<Rightarrow> platform_path \<Rightarrow> bool" where
  "escapes rel flavour \<longleftrightarrow>
     rel = js ''..'' \<or> starts_with (js ''..'' @ sep flavour) rel \<or> isAbsolute flavour rel"

definition isReservedName :: "path_env \<Rightarrow> str \<Rightarrow> bool" where
  "isReservedName env segment =
     (let base = rev (dropWhile (\<lambda>c. c = 32 \<or> c = 46) (rev (hd (split_on 46 segment))))
      in to_upper env base \<in> set WINDOWS_DEVICE_NAMES)"

text \<open>\<open>s.split(by)\<close> for a separator that is one character.\<close>

definition split_by :: "str \<Rightarrow> str \<Rightarrow> str list" where
  "split_by s separator = split_on (hd separator) s"

text \<open>The loop over the ancestors of the path, from \<open>depth\<close> names down to one.\<close>

fun deepest :: "path_env \<Rightarrow> platform_path \<Rightarrow> str \<Rightarrow> str list \<Rightarrow> str \<Rightarrow> nat \<Rightarrow> str" where
  "deepest env flavour normRoot segments canonicalRoot 0 = canonicalRoot"
| "deepest env flavour normRoot segments canonicalRoot (Suc depth) =
     (case realpath env (path_join flavour (normRoot # take (Suc depth) segments)) of
        Some canonical \<Rightarrow> canonical
      | None \<Rightarrow> deepest env flavour normRoot segments canonicalRoot depth)"

definition confinePath :: "path_env \<Rightarrow> str \<Rightarrow> str \<Rightarrow> confine_denial + str" where
  "confinePath env root req =
     (let flavour = flavourFor env root in
      if 0 \<in> set root then Inl NulByte
      else if \<not> isAbsolute flavour root then Inl RootNotAbsolute
      else let normRoot = path_resolve flavour [root] in
      if 0 \<in> set req then Inl NulByte
      else if trim req = [] then Inl EmptyPath
      else if WINDOWS_DRIVE_PREFIX req then Inl WindowsDrive
      else if 92 \<in> set req then Inl Backslash
      else if isAbsolute (posix_path env) req \<or> isAbsolute (win32_path env) req then Inl AbsolutePath
      else let resolved = path_resolve flavour [normRoot, req];
               rel = relative flavour normRoot resolved in
      if rel = [] then Inl IsRoot
      else if escapes rel flavour then Inl EscapesRoot
      else let segments = split_by rel (sep flavour) in
      if list_ex (isReservedName env) segments then Inl ReservedName
      else (case realpath env normRoot of
              None \<Rightarrow> Inl RootUnresolvable
            | Some canonicalRoot \<Rightarrow>
                if \<not> isAbsolute flavour canonicalRoot then Inl RootUnresolvable
                else let canonical = deepest env flavour normRoot segments canonicalRoot (length segments) in
                if \<not> isAbsolute flavour canonical then Inl Unresolvable
                else let canonicalRel = relative flavour canonicalRoot canonical in
                if canonicalRel \<noteq> [] \<and> escapes canonicalRel flavour then Inl SymlinkEscape
                else Inr resolved))"

definition fileNameOf :: "path_env \<Rightarrow> str \<Rightarrow> str" where
  "fileNameOf env absolutePath = basename (flavourFor env absolutePath) absolutePath"

section \<open>POSIX paths as segments\<close>

definition clean :: "str \<Rightarrow> bool" where
  "clean s \<longleftrightarrow> s \<noteq> [] \<and> s \<noteq> js ''.'' \<and> s \<noteq> js ''..'' \<and> 47 \<notin> set s"

lemma collapse_clean:
  assumes "\<forall>s\<in>set out. clean s" and "\<forall>s\<in>set segs. 47 \<notin> set s"
  shows "\<forall>s\<in>set (collapse True out segs). clean s"
  using assms
proof (induction segs arbitrary: out)
  case (Cons s segs)
  have but: "\<forall>s\<in>set (butlast out). clean s" using Cons.prems(1) in_set_butlastD by fast
  have segs: "\<forall>s\<in>set segs. 47 \<notin> set s" using Cons.prems(2) by simp
  consider "s = [] \<or> s = js ''.''" | "s = js ''..''" | "clean s" using Cons.prems(2) by (auto simp: clean_def)
  then show ?case
  proof cases
    case 1
    then show ?thesis using Cons.IH [OF Cons.prems(1) segs] by simp
  next
    case 2
    then show ?thesis using Cons.IH [OF Cons.prems(1) segs] Cons.IH [OF but segs] by (simp split: if_split)
  next
    case 3
    have "\<forall>x\<in>set (out @ [s]). clean x" using 3 Cons.prems(1) by simp
    from Cons.IH [OF this segs] 3 show ?thesis by (simp add: clean_def)
  qed
qed simp

lemma collapse_id: "\<forall>s\<in>set segs. clean s \<Longrightarrow> collapse absolute out segs = out @ segs"
  by (induction absolute out segs rule: collapse.induct) (auto simp: clean_def)

lemma collapse_append:
  "collapse absolute out (segs @ segs') = collapse absolute (collapse absolute out segs) segs'"
  by (induction absolute out segs rule: collapse.induct) auto

lemma posix_segments_clean: "posix_absolute p \<Longrightarrow> \<forall>s\<in>set (posix_segments p). clean s"
  unfolding posix_segments_def using collapse_clean [of "[]" "split_on 47 p"] split_on_parts [of _ 47 p] by simp

lemma posix_of_absolute [simp]: "posix_absolute (posix_of segs)"
  by (simp add: posix_absolute_def posix_of_def starts_with_def)

lemma clean_no_slash: "\<forall>s\<in>set segs. clean s \<Longrightarrow> \<forall>s\<in>set segs. 47 \<notin> set s"
  by (simp add: clean_def)

lemma posix_segments_of:
  assumes "\<forall>s\<in>set segs. clean s" shows "posix_segments (posix_of segs) = segs"
proof -
  have "split_on 47 (posix_of segs) = [] # split_on 47 (join [47] segs)" by (simp add: posix_of_def)
  moreover have "collapse True [] (split_on 47 (join [47] segs)) = segs"
  proof (cases "segs = []")
    case False
    have "split_on 47 (join [47] segs) = segs" by (rule split_on_join [OF False clean_no_slash [OF assms]])
    then show ?thesis using collapse_id [OF assms, of True "[]"] by (simp only: append_Nil)
  qed simp
  moreover have "posix_absolute (posix_of segs)" by simp
  ultimately show ?thesis unfolding posix_segments_def by (simp only: collapse.simps if_True simp_thms)
qed

lemma posix_absolute_iff: "posix_absolute p \<longleftrightarrow> (\<exists>q. p = 47 # q)"
  by (cases p) (auto simp: posix_absolute_def starts_with_def)

lemma posix_absolute_append [simp]: "posix_absolute p \<Longrightarrow> posix_absolute (p @ q)"
  by (cases p) (simp_all add: posix_absolute_iff)

lemma resolve_from_absolute: "posix_absolute cwd \<Longrightarrow> posix_absolute (resolve_from cwd ps)"
  by (induction cwd ps rule: resolve_from.induct) auto

lemma posix_relative_down:
  assumes "posix_absolute a" and "posix_absolute b"
    and rel: "posix_relative cwd a b = [] \<or> \<not> escapes (posix_relative cwd a b) (posix cwd)"
  obtains down where "posix_segments b = posix_segments a @ down" and "posix_relative cwd a b = join [47] down"
    and "\<forall>s\<in>set down. clean s"
proof -
  have r: "resolve_from cwd [p] = p" if "posix_absolute p" for p
    using that by (auto simp: posix_absolute_iff)
  obtain up down where s: "strip_common (posix_segments a) (posix_segments b) = (up, down)" by fastforce
  have common: "\<exists>c. as' = c @ u \<and> bs = c @ d" if "strip_common as' bs = (u, d)" for as' bs u d :: "str list"
    using that by (induction as' bs rule: strip_common.induct) (auto split: if_splits)
  have rel': "posix_relative cwd a b = join [47] (map (\<lambda>_. js ''..'') up @ down)"
    using s r assms(1,2) by (simp add: posix_relative_def)
  obtain c where c: "posix_segments a = c @ up" "posix_segments b = c @ down" using common [OF s] by blast
  have "up = []"
  proof (rule ccontr)
    assume "up \<noteq> []"
    then obtain u us where u: "up = u # us" by (cases up) auto
    have "posix_relative cwd a b = js ''..'' \<or> starts_with (js ''../'') (posix_relative cwd a b)"
      unfolding rel' u by (cases "map (\<lambda>_. js ''..'') us @ down") (auto simp: starts_with_def join_Cons)
    then show False using rel by (auto simp: escapes_def posix_def starts_with_def)
  qed
  then show thesis
    using that c rel' posix_segments_clean [OF assms(2)] by auto
qed

section \<open>What confinement needs of a flavour\<close>

text \<open>The documented behaviour of \<open>resolve\<close>, \<open>relative\<close> and \<open>join\<close>, over the names an absolute path consists
  of.\<close>

locale path_flavour =
  fixes F :: platform_path and names_of :: "str \<Rightarrow> str list"
  assumes resolve_root: "isAbsolute F r \<Longrightarrow> isAbsolute F (path_resolve F (r # ps))"
    and relative_down: "isAbsolute F a \<Longrightarrow> isAbsolute F b \<Longrightarrow> relative F a b = [] \<or> \<not> escapes (relative F a b) F \<Longrightarrow>
      \<exists>down. names_of b = names_of a @ down \<and> (relative F a b = [] \<longleftrightarrow> down = []) \<and>
        (down \<noteq> [] \<longrightarrow> split_by (relative F a b) (sep F) = down)"
    and join_down: "isAbsolute F a \<Longrightarrow> names_of (path_resolve F [a, req]) = names_of a @ down \<Longrightarrow>
      names_of (path_join F (a # take k down)) = names_of a @ take k down"
begin

text \<open>The names below the root, what became of the root and what the deepest existing part led to.\<close>

lemma confined:
  assumes "confinePath env root req = Inr resolved" and F: "flavourFor env root = F"
  obtains names canonicalRoot where "names \<noteq> []"
    and "resolved = path_resolve F [path_resolve F [root], req]"
    and "names_of resolved = names_of (path_resolve F [root]) @ names"
    and "\<forall>n\<in>set names. \<not> isReservedName env n"
    and "realpath env (path_resolve F [root]) = Some canonicalRoot"
    and "prefix (names_of canonicalRoot)
      (names_of (deepest env F (path_resolve F [root]) names canonicalRoot (length names)))"
proof -
  let ?root = "path_resolve F [root]" and ?resolved = "path_resolve F [path_resolve F [root], req]"
  let ?rel = "relative F ?root ?resolved"
  have abs: "isAbsolute F root"
    using assms(1) unfolding confinePath_def Let_def F by (simp split: if_splits)
  have root: "isAbsolute F ?root" by (rule resolve_root [OF abs])
  have r: "?rel \<noteq> []" "\<not> escapes ?rel F" "\<not> list_ex (isReservedName env) (split_by ?rel (sep F))"
    "resolved = ?resolved"
    using assms(1) abs unfolding confinePath_def Let_def F by (simp_all split: if_splits option.splits)
  obtain down where down: "names_of ?resolved = names_of ?root @ down" "down \<noteq> []" "split_by ?rel (sep F) = down"
    using relative_down [OF root resolve_root [OF root]] r(1,2) by blast
  obtain c where c: "realpath env ?root = Some c" "isAbsolute F c"
    using assms(1) abs r unfolding confinePath_def Let_def F by (simp split: if_splits option.splits)
  let ?deep = "deepest env F ?root down c (length down)"
  have deep: "isAbsolute F ?deep" "relative F c ?deep = [] \<or> \<not> escapes (relative F c ?deep) F"
    using assms(1) abs r c down(3) unfolding confinePath_def Let_def F by (simp_all split: if_splits)
  have "prefix (names_of c) (names_of ?deep)"
    using relative_down [OF c(2) deep] by auto
  then show thesis
    using that [OF down(2) r(4) _ _ c(1)] down r(3,4) by (simp add: list_ex_iff)
qed

end

subsection \<open>POSIX\<close>

lemma posix_resolve_segments:
  assumes "posix_absolute a" shows "posix_segments (posix_resolve cwd (a # ps)) = posix_segments (resolve_from a ps)"
proof -
  have r: "resolve_from cwd (a # ps) = resolve_from a ps" using assms by (auto simp: posix_absolute_iff)
  have "posix_absolute (resolve_from a ps)" by (rule resolve_from_absolute [OF assms])
  then show ?thesis
    unfolding posix_resolve_def r by (intro posix_segments_of posix_segments_clean)
qed

lemma split_on_append_sep: "split_on c (xs @ c # ys) = split_on c xs @ split_on c ys"
  by (induction xs) (auto split: list.split)

lemma posix_segments_append:
  assumes "posix_absolute a"
  shows "posix_segments (a @ 47 # b) = collapse True (posix_segments a) (split_on 47 b)"
proof -
  have "posix_absolute (a @ 47 # b)" using assms by simp
  then show ?thesis
    using assms collapse_append [of True "[]" "split_on 47 a" "split_on 47 b"]
    unfolding posix_segments_def split_on_append_sep by simp
qed

lemma posix_join_segments:
  assumes a: "posix_absolute a" and ns: "\<forall>s\<in>set ns. clean s"
  shows "posix_segments (posix_join (a # ns)) = posix_segments a @ ns"
proof -
  have "a \<noteq> []" using a by (auto simp: posix_absolute_iff)
  moreover have "filter (\<lambda>p. p \<noteq> []) ns = ns" using ns by (simp add: filter_id_conv clean_def)
  ultimately have j: "join [47] (filter (\<lambda>p. p \<noteq> []) (a # ns)) = (if ns = [] then a else a @ 47 # join [47] ns)"
    by (cases ns) simp_all
  let ?j = "if ns = [] then a else a @ 47 # join [47] ns"
  have abs: "posix_absolute ?j" using a by simp
  have "split_on 47 (join [47] ns) = ns" if "ns \<noteq> []"
    by (rule split_on_join [OF that clean_no_slash [OF ns]])
  then have segs: "posix_segments ?j = posix_segments a @ ns"
    using posix_segments_append [OF a] collapse_id [OF ns] by simp
  have clean: "\<forall>s\<in>set (posix_segments a @ ns). clean s"
    using posix_segments_clean [OF a] ns by auto
  let ?p = "posix_of (posix_segments a @ ns)"
  have p: "posix_segments ?p = posix_segments a @ ns" by (rule posix_segments_of [OF clean])
  have slash: "posix_segments (?p @ [47]) = posix_segments a @ ns"
    using posix_segments_append [OF posix_of_absolute, of "posix_segments a @ ns" "[]"] p by simp
  have "posix_join (a # ns) = (if ends_with (js ''/'') ?j \<and> posix_segments a @ ns \<noteq> [] then ?p @ js ''/'' else ?p)"
    unfolding posix_join_def j Let_def segs using abs by (simp only: if_True)
  moreover have "js ''/'' = [47]" by code_simp
  ultimately show ?thesis using p slash by (simp only: split: if_split) blast
qed

interpretation posix_paths: path_flavour "posix cwd" posix_segments
proof
  fix r ps assume "isAbsolute (posix cwd) r"
  show "isAbsolute (posix cwd) (path_resolve (posix cwd) (r # ps))"
    by (simp add: posix_def posix_resolve_def)
next
  fix a b assume a: "isAbsolute (posix cwd) a" "isAbsolute (posix cwd) b"
    "relative (posix cwd) a b = [] \<or> \<not> escapes (relative (posix cwd) a b) (posix cwd)"
  then obtain down where down: "posix_segments b = posix_segments a @ down" "posix_relative cwd a b = join [47] down"
    "\<forall>s\<in>set down. clean s"
    using posix_relative_down [of a b cwd] by (auto simp: posix_def)
  have "join [47] down = [] \<longleftrightarrow> down = []" using down(3) by (intro join_eq_Nil) (simp add: clean_def)
  moreover have "split_on 47 (join [47] down) = down" if "down \<noteq> []"
    by (rule split_on_join [OF that clean_no_slash [OF down(3)]])
  ultimately show "\<exists>down. posix_segments b = posix_segments a @ down \<and>
      (relative (posix cwd) a b = [] \<longleftrightarrow> down = []) \<and>
      (down \<noteq> [] \<longrightarrow> split_by (relative (posix cwd) a b) (sep (posix cwd)) = down)"
    using down(1,2) by (intro exI [of _ down]) (simp add: posix_def split_by_def)
next
  fix a req down k
  assume a: "isAbsolute (posix cwd) a" and d: "posix_segments (path_resolve (posix cwd) [a, req]) = posix_segments a @ down"
  have a': "posix_absolute a" using a by (simp add: posix_def)
  have "posix_absolute (posix_resolve cwd [a, req])" by (simp add: posix_resolve_def)
  then have clean: "\<forall>s\<in>set down. clean s"
    using posix_segments_clean d by (fastforce simp: posix_def)
  show "posix_segments (path_join (posix cwd) (a # take k down)) = posix_segments a @ take k down"
    using posix_join_segments [OF a', of "take k down"] clean by (auto simp: posix_def dest: in_set_takeD)
qed

section \<open>What an app can reach\<close>

text \<open>A POSIX root: neither a drive nor a UNC path.\<close>

definition posix_root :: "path_env \<Rightarrow> str \<Rightarrow> str \<Rightarrow> bool" where
  "posix_root env cwd root \<longleftrightarrow> posix_path env = posix cwd \<and> posix_absolute root \<and>
     \<not> WINDOWS_DRIVE_PREFIX root \<and> \<not> UNC_PREFIX root"

lemma deepest_cases:
  "(\<exists>k\<in>{1..depth}. realpath env (path_join F (root # take k names)) = Some (deepest env F root names c depth) \<and>
      (\<forall>j\<in>{Suc k..depth}. realpath env (path_join F (root # take j names)) = None)) \<or>
   deepest env F root names c depth = c \<and> (\<forall>j\<in>{1..depth}. realpath env (path_join F (root # take j names)) = None)"
proof (induction depth)
  case (Suc depth)
  show ?case
  proof (cases "realpath env (path_join F (root # take (Suc depth) names))")
    case (Some p)
    then show ?thesis by (intro disjI1 bexI [of _ "Suc depth"]) simp_all
  next
    case None
    then have d: "deepest env F root names c (Suc depth) = deepest env F root names c depth" by simp
    have step: "(\<forall>j\<in>{a..Suc depth}. realpath env (path_join F (root # take j names)) = None)"
      if "\<forall>j\<in>{a..depth}. realpath env (path_join F (root # take j names)) = None" for a
      using that None by (auto simp: le_Suc_eq)
    from Suc.IH show ?thesis unfolding d using step by fastforce
  qed
qed simp

lemma posix_flavour: "posix_root env cwd root \<Longrightarrow> flavourFor env root = posix cwd"
  by (simp add: posix_root_def flavourFor_def)

lemma confined_requests:
  assumes "confinePath env root req = Inr resolved"
  shows "0 \<notin> set root" "0 \<notin> set req" "92 \<notin> set req" "\<not> isAbsolute (posix_path env) req" "trim req \<noteq> []"
    "isAbsolute (flavourFor env root) root"
  using assms by (auto simp: confinePath_def Let_def split: if_splits option.splits)

text \<open>The characters of a resolved path come from the root and the request.\<close>

lemma collapse_subset: "set (collapse absolute out segs) \<subseteq> set out \<union> set segs"
proof (induction segs arbitrary: out)
  case (Cons s segs)
  have but: "set (butlast out) \<subseteq> set out" by (auto dest: in_set_butlastD)
  have "set (collapse absolute (butlast out) segs) \<subseteq> set out \<union> set (s # segs)"
    using Cons.IH [of "butlast out"] but by auto
  moreover have "set (collapse absolute out segs) \<subseteq> set out \<union> set (s # segs)" using Cons.IH [of out] by auto
  moreover have "set (collapse absolute (out @ [s]) segs) \<subseteq> set out \<union> set (s # segs)"
    using Cons.IH [of "out @ [s]"] by auto
  ultimately show ?case by (simp only: collapse.simps split: if_split) simp
qed simp

lemma confined_names:
  assumes c: "confinePath env root req = Inr resolved" and r: "posix_root env cwd root"
  shows "resolved = posix_of (posix_segments resolved)" and "posix_segments (posix_resolve cwd [root]) = posix_segments root"
    and "\<forall>n\<in>set (posix_segments resolved). clean n \<and> 0 \<notin> set n"
proof -
  have F: "flavourFor env root = posix cwd" by (rule posix_flavour [OF r])
  have root: "posix_absolute root" using r by (simp add: posix_root_def)
  obtain names cr where res: "resolved = path_resolve (posix cwd) [path_resolve (posix cwd) [root], req]"
    by (rule posix_paths.confined [OF c F])
  let ?root = "posix_resolve cwd [root]"
  have res': "resolved = posix_resolve cwd [?root, req]" using res by (simp add: posix_def)
  show "posix_segments ?root = posix_segments root" using posix_resolve_segments [OF root, of cwd "[]"] by simp
  have abs: "posix_absolute ?root" by (simp add: posix_resolve_def)
  have ne: "?root \<noteq> []" by (simp add: posix_resolve_def posix_of_def)
  have first: "resolve_from cwd [?root, req] = resolve_from ?root [req]" using abs ne by simp
  have from_abs: "posix_absolute (resolve_from cwd [?root, req])"
    unfolding first by (rule resolve_from_absolute [OF abs])
  have "posix_segments resolved = posix_segments (resolve_from cwd [?root, req])"
    unfolding res' first by (rule posix_resolve_segments [OF abs])
  moreover have "resolved = posix_of (posix_segments (resolve_from cwd [?root, req]))"
    unfolding res' by (subst posix_resolve_def) (rule refl)
  ultimately show "resolved = posix_of (posix_segments resolved)" by simp
  have "posix_absolute resolved" unfolding res' posix_resolve_def by (rule posix_of_absolute)
  then have clean: "\<forall>n\<in>set (posix_segments resolved). clean n" by (rule posix_segments_clean)
  have req: "req \<noteq> []" "\<not> posix_absolute req" "0 \<notin> set req" "0 \<notin> set root"
    using confined_requests [OF c] r by (auto simp: posix_root_def posix_def trim_def)
  have "resolve_from cwd [?root, req] = ?root @ [47] @ req"
    unfolding first using req(1,2) by simp
  then have segs: "posix_segments resolved = posix_segments (?root @ 47 # req)"
    using \<open>posix_segments resolved = posix_segments (resolve_from cwd [?root, req])\<close> by simp
  have "set (posix_segments resolved) \<subseteq> set (posix_segments root) \<union> set (split_on 47 req)"
    unfolding segs posix_segments_append [OF abs] using collapse_subset
      \<open>posix_segments ?root = posix_segments root\<close> by metis
  moreover have "set (posix_segments root) \<subseteq> set (split_on 47 root)"
    unfolding posix_segments_def using collapse_subset [of _ "[]"] by auto
  ultimately have "0 \<notin> set n" if "n \<in> set (posix_segments resolved)" for n
    using that req(3,4) split_on_parts by blast
  then show "\<forall>n\<in>set (posix_segments resolved). clean n \<and> 0 \<notin> set n" using clean by blast
qed

text \<open>C17. A path an app is let through with lies inside its own directory, textually and on the disk: the
  path to open is the root's names followed by at least one more, all of them literal (none empty,
  \<open>.\<close>, \<open>..\<close>, with a slash or a NUL, and none below the root a Windows device); and the deepest part of it
  that exists, which is where opening it leads, has a real path below the real path of the root. (POSIX
  roots; \<open>realpath\<close> may answer anything.)\<close>

theorem confined_path_stays_inside:
  assumes c: "confinePath env root req = Inr resolved" and r: "posix_root env cwd root"
  shows "\<exists>names realRoot. resolved = posix_of (posix_segments root @ names) \<and> names \<noteq> [] \<and>
    (\<forall>n\<in>set names. n \<noteq> [] \<and> n \<noteq> js ''.'' \<and> n \<noteq> js ''..'' \<and> 47 \<notin> set n \<and> 0 \<notin> set n \<and> \<not> isReservedName env n) \<and>
    realpath env (posix_resolve cwd [root]) = Some realRoot \<and>
    (\<forall>k\<in>{1..length names}. \<forall>real.
       realpath env (posix_join (posix_resolve cwd [root] # take k names)) = Some real \<and>
       (\<forall>j\<in>{Suc k..length names}. realpath env (posix_join (posix_resolve cwd [root] # take j names)) = None) \<longrightarrow>
       prefix (posix_segments realRoot) (posix_segments real))"
proof -
  obtain names cr where n: "names \<noteq> []"
    and seg: "posix_segments resolved = posix_segments (path_resolve (posix cwd) [root]) @ names"
    and dev: "\<forall>n\<in>set names. \<not> isReservedName env n"
    and cr: "realpath env (path_resolve (posix cwd) [root]) = Some cr"
    and pre: "prefix (posix_segments cr)
      (posix_segments (deepest env (posix cwd) (path_resolve (posix cwd) [root]) names cr (length names)))"
    by (rule posix_paths.confined [OF c posix_flavour [OF r]])
  have F: "path_resolve (posix cwd) = posix_resolve cwd" "path_join (posix cwd) = posix_join" by (simp_all add: posix_def)
  note names = confined_names [OF c r]
  have seg': "posix_segments resolved = posix_segments root @ names" using seg names(2) by (simp add: F)
  have deep: "deepest env (posix cwd) (posix_resolve cwd [root]) names cr (length names) = real"
    if k: "k \<in> {1..length names}" "realpath env (posix_join (posix_resolve cwd [root] # take k names)) = Some real"
      "\<forall>j\<in>{Suc k..length names}. realpath env (posix_join (posix_resolve cwd [root] # take j names)) = None" for k real
    using deepest_cases [of "length names" env "posix cwd" "posix_resolve cwd [root]" names cr]
  proof (elim disjE bexE conjE)
    fix i assume i: "i \<in> {1..length names}"
      "realpath env (path_join (posix cwd) (posix_resolve cwd [root] # take i names)) =
        Some (deepest env (posix cwd) (posix_resolve cwd [root]) names cr (length names))"
      "\<forall>j\<in>{Suc i..length names}. realpath env (path_join (posix cwd) (posix_resolve cwd [root] # take j names)) = None"
    then have "i = k" using k unfolding F by (metis Suc_leI atLeastAtMost_iff linorder_neqE_nat option.distinct(1))
    then show ?thesis using i(2) k(2) by (simp add: F)
  qed (use k in \<open>simp add: F\<close>)
  show ?thesis
  proof (intro exI conjI ballI allI impI)
    show "resolved = posix_of (posix_segments root @ names)" using names(1) seg' by simp
    show "realpath env (posix_resolve cwd [root]) = Some cr" using cr by (simp add: F)
    fix m assume "m \<in> set names"
    then show "m \<noteq> []" "m \<noteq> js ''.''" "m \<noteq> js ''..''" "47 \<notin> set m" "0 \<notin> set m" "\<not> isReservedName env m"
      using names(3) seg' dev by (simp_all add: clean_def)
  next
    fix k real
    assume "k \<in> {1..length names}" "realpath env (posix_join (posix_resolve cwd [root] # take k names)) = Some real \<and>
       (\<forall>j\<in>{Suc k..length names}. realpath env (posix_join (posix_resolve cwd [root] # take j names)) = None)"
    then show "prefix (posix_segments cr) (posix_segments real)" using pre deep by (simp add: F)
  qed (rule n)
qed

definition sample_win32 :: platform_path where
  "sample_win32 = \<lparr>isAbsolute = (\<lambda>p. starts_with (js ''/'') p \<or> starts_with [92] p),
     path_resolve = posix_resolve (js ''/''), relative = posix_relative (js ''/''), path_join = posix_join, sep = [92],
     basename = posix_basename\<rparr>"

definition sample_paths :: path_env where
  "sample_paths = \<lparr>posix_path = posix (js ''/home''), win32_path = sample_win32,
     to_upper = map (\<lambda>c. if 97 \<le> c \<and> c \<le> 122 then c - 32 else c),
     realpath = (\<lambda>p. if p = js ''/data/app'' then Some (js ''/vol/app'')
       else if p = js ''/data/app/b'' then Some (js ''/vol/app/real'') else None)\<rparr>"

lemma sample_paths_confined:
  "confinePath sample_paths (js ''/data/app'') (js ''x/../b//c.txt'') = Inr (js ''/data/app/b/c.txt'')"
  by code_simp

lemma sample_paths_root: "posix_root sample_paths (js ''/home'') (js ''/data/app'')"
proof -
  have "posix_absolute (js ''/data/app'') \<and> \<not> WINDOWS_DRIVE_PREFIX (js ''/data/app'') \<and> \<not> UNC_PREFIX (js ''/data/app'')"
    by code_simp
  then show ?thesis by (simp add: posix_root_def sample_paths_def)
qed

theorem confined_path_stays_inside_witness:
  "\<exists>names realRoot. js ''/data/app/b/c.txt'' = posix_of (posix_segments (js ''/data/app'') @ names) \<and> names \<noteq> [] \<and>
    realpath sample_paths (posix_resolve (js ''/home'') [js ''/data/app'']) = Some realRoot"
  using confined_path_stays_inside [OF sample_paths_confined sample_paths_root] by (elim exE conjE) (intro exI conjI)

text \<open>The file name an app is shown has no separator, but a trailing separator does not make it empty, as the
  comment on \<open>fileNameOf\<close> says it would: \<open>node:path\<close> skips it.\<close>

lemma posix_basename_no_slash: "47 \<notin> set (posix_basename p)"
  unfolding posix_basename_def using split_on_parts [OF last_in_set [OF split_on_not_Nil]] by blast

lemma file_name_skips_trailing_separator: "fileNameOf sample_paths (js ''/data/app/'') = js ''app''"
  by code_simp

end
