(* ===== verification/TokenBucket.thy ===== *)
theory TokenBucket imports Prelude Complex_Main "HOL-Library.AList" begin

section \<open>The per-origin token buckets (token-bucket.ts, control-limiter.ts)\<close>

text \<open>
  The two rate limiters of the control channel. A bucket table is the \<open>Map\<close> the limiter closes over, in
  insertion order; the clock is read once a call, so a call carries its reading; tokens and times are exact
  rationals (the code's are doubles). \<open>admit\<close> answers the delay its caller sleeps, or \<open>None\<close> where it is
  refused. The lemmas show that the plain limiter is the pacing one with no wait allowed, that dropping
  recovered buckets is never observed, that an origin's answers depend on its own calls alone, and that no
  window of time lets in more than the capacity and the refill of that window.
\<close>

subsection \<open>token-bucket.ts\<close>

record bucket =
  tokens :: rat
  lastRefillMs :: rat

type_synonym buckets = "(str \<times> bucket) list"

definition reapIdle :: "buckets \<Rightarrow> rat \<Rightarrow> rat \<Rightarrow> rat \<Rightarrow> buckets" where
  "reapIdle buckets capacity refillPerSecond nowMs =
     filter (\<lambda>(_, bucket). let elapsedMs = max 0 (nowMs - lastRefillMs bucket) in
       \<not> tokens bucket + (elapsedMs * refillPerSecond) / 1000 \<ge> capacity) buckets"

definition refilled :: "buckets \<Rightarrow> str \<Rightarrow> rat \<Rightarrow> rat \<Rightarrow> rat \<Rightarrow> rat" where
  "refilled buckets origin capacity refillPerSecond nowMs =
     (case map_of buckets origin of
        None \<Rightarrow> capacity
      | Some existing \<Rightarrow> let elapsedMs = max 0 (nowMs - lastRefillMs existing) in
          min capacity (tokens existing + (elapsedMs * refillPerSecond) / 1000))"

definition tryConsume :: "rat \<Rightarrow> rat \<Rightarrow> buckets \<Rightarrow> str \<Rightarrow> rat \<Rightarrow> buckets \<times> bool" where
  "tryConsume capacity refillPerSecond buckets origin nowMs =
     (let buckets = reapIdle buckets capacity refillPerSecond nowMs;
          tokens = refilled buckets origin capacity refillPerSecond nowMs in
      if tokens < 1 then (AList.update origin \<lparr>tokens = tokens, lastRefillMs = nowMs\<rparr> buckets, False)
      else (AList.update origin \<lparr>tokens = tokens - 1, lastRefillMs = nowMs\<rparr> buckets, True))"

definition admit :: "rat \<Rightarrow> rat \<Rightarrow> rat \<Rightarrow> buckets \<Rightarrow> str \<Rightarrow> rat \<Rightarrow> buckets \<times> rat option" where
  "admit capacity refillPerSecond maxWaitMs buckets origin nowMs =
     (let buckets = reapIdle buckets capacity refillPerSecond nowMs;
          tokens = refilled buckets origin capacity refillPerSecond nowMs;
          after = tokens - 1;
          waitMs = (if after \<ge> 0 then 0 else (- after * 1000) / refillPerSecond) in
      if waitMs > maxWaitMs then (AList.update origin \<lparr>tokens = tokens, lastRefillMs = nowMs\<rparr> buckets, None)
      else (AList.update origin \<lparr>tokens = after, lastRefillMs = nowMs\<rparr> buckets, Some waitMs))"

definition bucket_count :: "buckets \<Rightarrow> nat" where
  "bucket_count buckets = length buckets"

subsection \<open>control-limiter.ts\<close>

definition HANDLE_IO_METHODS :: "str list" where
  "HANDLE_IO_METHODS = map js
     [''fs.read'', ''fs.write'', ''fs.fstat'', ''fs.truncate'', ''fs.sync'', ''fs.close'',
      ''net.close'', ''net.setNoDelay'', ''net.setKeepAlive'', ''net.cancel'']"

definition CONTROL_CAPACITY :: rat where "CONTROL_CAPACITY = 200"
definition CONTROL_REFILL_PER_SECOND :: rat where "CONTROL_REFILL_PER_SECOND = 100"
definition HANDLE_IO_CAPACITY :: rat where "HANDLE_IO_CAPACITY = 4096"
definition HANDLE_IO_REFILL_PER_SECOND :: rat where "HANDLE_IO_REFILL_PER_SECOND = 4096"
definition HANDLE_IO_MAX_WAIT_MS :: rat where "HANDLE_IO_MAX_WAIT_MS = 1000"

text \<open>The two tables of the production pair.\<close>

record control_limiter =
  control_buckets :: buckets
  handle_io_buckets :: buckets

definition createControlLimiter :: control_limiter where
  "createControlLimiter = \<lparr>control_buckets = [], handle_io_buckets = []\<rparr>"

definition admitControlCall :: "control_limiter \<Rightarrow> str \<Rightarrow> str \<Rightarrow> rat \<Rightarrow> control_limiter \<times> rat option" where
  "admitControlCall limiter origin method nowMs =
     (if method \<in> set HANDLE_IO_METHODS
      then (case admit HANDLE_IO_CAPACITY HANDLE_IO_REFILL_PER_SECOND HANDLE_IO_MAX_WAIT_MS
              (handle_io_buckets limiter) origin nowMs of
              (buckets, wait) \<Rightarrow> (limiter\<lparr>handle_io_buckets := buckets\<rparr>, wait))
      else (case tryConsume CONTROL_CAPACITY CONTROL_REFILL_PER_SECOND (control_buckets limiter) origin nowMs of
              (buckets, ok) \<Rightarrow> (limiter\<lparr>control_buckets := buckets\<rparr>, if ok then Some 0 else None)))"

subsection \<open>Calls in a row\<close>

text \<open>The calls that reach a limiter, each with its origin and the clock it read, and what each was told.\<close>

fun admit_calls :: "rat \<Rightarrow> rat \<Rightarrow> rat \<Rightarrow> buckets \<Rightarrow> (str \<times> rat) list \<Rightarrow> (str \<times> rat \<times> rat option) list" where
  "admit_calls capacity refillPerSecond maxWaitMs buckets [] = []"
| "admit_calls capacity refillPerSecond maxWaitMs buckets ((origin, nowMs) # calls) =
     (case admit capacity refillPerSecond maxWaitMs buckets origin nowMs of
        (buckets', wait) \<Rightarrow> (origin, nowMs, wait) # admit_calls capacity refillPerSecond maxWaitMs buckets' calls)"

fun control_calls :: "control_limiter \<Rightarrow> (str \<times> str \<times> rat) list \<Rightarrow> (str \<times> str \<times> rat \<times> rat option) list" where
  "control_calls limiter [] = []"
| "control_calls limiter ((origin, method, nowMs) # calls) =
     (case admitControlCall limiter origin method nowMs of
        (limiter', wait) \<Rightarrow> (origin, method, nowMs, wait) # control_calls limiter' calls)"

text \<open>When the admitted calls of an origin go ahead.\<close>

definition releases :: "str \<Rightarrow> (str \<times> rat \<times> rat option) list \<Rightarrow> rat list" where
  "releases origin answers =
     concat (map (\<lambda>(o', t, wait). case wait of Some w \<Rightarrow> if o' = origin then [t + w] else [] | None \<Rightarrow> []) answers)"

section \<open>One bucket\<close>

lemma tryConsume_is_admit:
  "0 < refill \<Longrightarrow> tryConsume cap refill bs origin now =
     (case admit cap refill 0 bs origin now of (bs', wait) \<Rightarrow> (bs', wait \<noteq> None))"
  by (auto simp: tryConsume_def admit_def Let_def)

text \<open>What a table says of one origin from a time on: its tokens at every later moment.\<close>

locale bucket_limiter =
  fixes capacity refillPerSecond maxWaitMs :: rat
  assumes capacity: "1 \<le> capacity" and refill: "0 < refillPerSecond" and maxWait: "0 \<le> maxWaitMs"
begin

definition good :: "buckets \<Rightarrow> bool" where
  "good bs \<longleftrightarrow> distinct (map fst bs)"

definition level :: "buckets \<Rightarrow> str \<Rightarrow> rat \<Rightarrow> rat" where
  "level bs origin t = refilled bs origin capacity refillPerSecond t"

lemma good_reap [simp]: "good bs \<Longrightarrow> good (reapIdle bs capacity refillPerSecond now)"
  unfolding good_def reapIdle_def by (rule distinct_map_filter)

lemma good_update [simp]: "good bs \<Longrightarrow> good (AList.update origin b bs)"
  unfolding good_def by (rule distinct_update)

lemma elapsed_mono: "t \<le> u \<Longrightarrow> max 0 (t - s) * refillPerSecond / 1000 \<le> max 0 (u - s) * refillPerSecond / 1000"
  using refill by (intro divide_right_mono mult_right_mono) auto

lemma level_reap:
  assumes "good bs" and "now \<le> t" shows "level (reapIdle bs capacity refillPerSecond now) origin t = level bs origin t"
proof -
  let ?full = "\<lambda>b. tokens b + max 0 (now - lastRefillMs b) * refillPerSecond / 1000 \<ge> capacity"
  have m: "map_of (reapIdle bs capacity refillPerSecond now) origin =
      (case map_of bs origin of None \<Rightarrow> None | Some b \<Rightarrow> if ?full b then None else Some b)"
    using assms(1) unfolding good_def reapIdle_def Let_def
    by (induction bs) (auto split: option.splits simp: map_of_eq_None_iff dest: map_of_SomeD)
  show ?thesis
  proof (cases "map_of bs origin")
    case (Some b)
    have "capacity \<le> tokens b + max 0 (t - lastRefillMs b) * refillPerSecond / 1000" if "?full b"
      using that elapsed_mono [OF assms(2), of "lastRefillMs b"] by linarith
    then show ?thesis by (simp add: level_def refilled_def m Some Let_def min_absorb1)
  qed (simp add: level_def refilled_def m)
qed

lemma level_update_same:
  "level (AList.update origin \<lparr>tokens = x, lastRefillMs = now\<rparr> bs) origin t =
     min capacity (x + max 0 (t - now) * refillPerSecond / 1000)"
  by (simp add: level_def refilled_def Let_def update_conv)

lemma level_update_other: "o' \<noteq> origin \<Longrightarrow> level (AList.update o' b bs) origin t = level bs origin t"
  by (simp add: level_def refilled_def update_conv)

lemma level_le: "level bs origin t \<le> capacity"
  by (simp add: level_def refilled_def Let_def split: option.split)

lemma level_grows:
  assumes "t \<le> u" shows "level bs origin u \<le> level bs origin t + (u - t) * refillPerSecond / 1000"
proof (cases "map_of bs origin")
  case None
  have "0 \<le> (u - t) * refillPerSecond / 1000" using assms refill by simp
  then show ?thesis by (simp add: level_def refilled_def None)
next
  case (Some b)
  let ?e = "\<lambda>v. max 0 (v - lastRefillMs b) * refillPerSecond / 1000"
  have "max 0 (u - lastRefillMs b) \<le> max 0 (t - lastRefillMs b) + (u - t)" using assms by auto
  then have "max 0 (u - lastRefillMs b) * refillPerSecond \<le> (max 0 (t - lastRefillMs b) + (u - t)) * refillPerSecond"
    using refill by (intro mult_right_mono) auto
  then have "?e u \<le> ?e t + (u - t) * refillPerSecond / 1000" by (simp add: field_simps)
  moreover have "0 \<le> (u - t) * refillPerSecond / 1000" using assms refill by simp
  ultimately show ?thesis by (simp add: level_def refilled_def Some Let_def min_def)
qed

text \<open>The delay of a call that finds \<open>x\<close> tokens.\<close>

definition wait_for :: "rat \<Rightarrow> rat" where
  "wait_for x = (if x - 1 \<ge> 0 then 0 else (- (x - 1) * 1000) / refillPerSecond)"

lemma wait_nonneg: "0 \<le> wait_for x"
  using refill by (auto simp: wait_for_def)

lemma wait_repays: "wait_for x * refillPerSecond / 1000 = max 0 (1 - x)"
  using refill by (simp add: wait_for_def max_def)

lemma admit_answer:
  assumes "good bs" and "admit capacity refillPerSecond maxWaitMs bs origin now = (bs', wait)"
  shows "wait = (if wait_for (level bs origin now) > maxWaitMs then None else Some (wait_for (level bs origin now)))"
    and "good bs'"
    and "now \<le> t \<Longrightarrow> level bs' origin t =
      min capacity (level bs origin now - (if wait = None then 0 else 1) + max 0 (t - now) * refillPerSecond / 1000)"
    and "o' \<noteq> origin \<Longrightarrow> now \<le> t \<Longrightarrow> level bs' o' t = level bs o' t"
proof -
  let ?reaped = "reapIdle bs capacity refillPerSecond now"
  have l: "refilled ?reaped origin capacity refillPerSecond now = level bs origin now"
    using level_reap [OF assms(1), of now now] by (simp add: level_def)
  note r = assms(2) [unfolded admit_def Let_def l, folded wait_for_def]
  show "wait = (if wait_for (level bs origin now) > maxWaitMs then None else Some (wait_for (level bs origin now)))"
    using r by (auto split: if_splits)
  then have bs': "bs' = AList.update origin \<lparr>tokens = level bs origin now - (if wait = None then 0 else 1), lastRefillMs = now\<rparr> ?reaped"
    using r by (auto split: if_splits)
  show "good bs'" unfolding bs' using assms(1) by simp
  show "level bs' origin t =
      min capacity (level bs origin now - (if wait = None then 0 else 1) + max 0 (t - now) * refillPerSecond / 1000)" if "now \<le> t"
    unfolding bs' by (rule level_update_same)
  show "level bs' o' t = level bs o' t" if "o' \<noteq> origin" "now \<le> t"
    unfolding bs' using that assms(1) by (subst level_update_other) (auto simp: level_reap)
qed

lemma admit_level_now:
  assumes "good bs" and "admit capacity refillPerSecond maxWaitMs bs origin now = (bs', wait)"
  shows "level bs' origin now = level bs origin now - (if wait = None then 0 else 1)"
  using admit_answer(3) [OF assms, of now] level_le [of bs origin now] by (simp add: min_def)

text \<open>What a state leaves for the calls that go ahead up to a time \<open>b\<close>.\<close>

lemma releases_Cons:
  "releases origin ((o', t, wait) # answers) =
     (case wait of Some w \<Rightarrow> if o' = origin then [t + w] else [] | None \<Rightarrow> []) @ releases origin answers"
  by (simp add: releases_def)

lemma releases_step:
  "admit capacity refillPerSecond maxWaitMs bs o' u = (bs', wait) \<Longrightarrow>
   releases origin (admit_calls capacity refillPerSecond maxWaitMs bs ((o', u) # calls)) =
     (case wait of Some w \<Rightarrow> if o' = origin then [u + w] else [] | None \<Rightarrow> []) @
     releases origin (admit_calls capacity refillPerSecond maxWaitMs bs' calls)"
  by (simp add: releases_Cons)

lemma releases_bounded:
  assumes "good bs" and "sorted (t # map snd calls)"
  shows "of_nat (length (filter (\<lambda>r. r \<le> b) (releases origin (admit_calls capacity refillPerSecond maxWaitMs bs calls)))) \<le>
     max 0 (level bs origin t + (b - t) * refillPerSecond / 1000)"
  using assms
proof (induction calls arbitrary: bs t)
  case (Cons call calls)
  obtain o' u where call: "call = (o', u)" by fastforce
  obtain bs' wait where a: "admit capacity refillPerSecond maxWaitMs bs o' u = (bs', wait)" by fastforce
  have good': "good bs'" and tu: "t \<le> u" and sorted: "sorted (u # map snd calls)"
    using admit_answer(2) [OF Cons.prems(1) a] Cons.prems(2) by (simp_all add: call)
  let ?rest = "of_nat (length (filter (\<lambda>r. r \<le> b) (releases origin (admit_calls capacity refillPerSecond maxWaitMs bs' calls)))) :: rat"
  have rest: "?rest \<le> max 0 (level bs' origin u + (b - u) * refillPerSecond / 1000)" by (rule Cons.IH [OF good' sorted])
  have grow: "level bs origin u + (b - u) * refillPerSecond / 1000 \<le> level bs origin t + (b - t) * refillPerSecond / 1000"
    using level_grows [OF tu, of bs origin] by (simp add: field_simps)
  have "of_nat (length (filter (\<lambda>r. r \<le> b) (releases origin (admit_calls capacity refillPerSecond maxWaitMs bs (call # calls))))) \<le>
      max 0 (level bs origin u + (b - u) * refillPerSecond / 1000)"
  proof (cases "o' = origin \<and> wait \<noteq> None")
    case False
    then have "level bs' origin u = level bs origin u"
      using admit_level_now [OF Cons.prems(1) a] admit_answer(4) [OF Cons.prems(1) a, of origin u]
      by (cases "o' = origin") auto
    then show ?thesis unfolding call releases_step [OF a] using False rest by (auto split: option.split)
  next
    case True
    then have w: "wait = Some (wait_for (level bs origin u))" and l: "level bs' origin u = level bs origin u - 1"
      using admit_answer(1) [OF Cons.prems(1) a] admit_level_now [OF Cons.prems(1) a] by (auto split: if_splits)
    have "0 \<le> level bs' origin u + (b - u) * refillPerSecond / 1000" if "u + wait_for (level bs origin u) \<le> b"
    proof -
      have "wait_for (level bs origin u) * refillPerSecond / 1000 \<le> (b - u) * refillPerSecond / 1000"
        using that refill by (intro divide_right_mono mult_right_mono) auto
      moreover have "1 - level bs origin u \<le> max 0 (1 - level bs origin u)" by simp
      ultimately show ?thesis unfolding wait_repays l by linarith
    qed
    then show ?thesis unfolding call releases_step [OF a] using True w rest unfolding l by auto
  qed
  with grow show ?case by linarith
qed (simp add: releases_def)

theorem window_bound:
  assumes "good bs" and "sorted (map snd calls)" and "a \<le> b"
  shows "of_nat (length (filter (\<lambda>r. a \<le> r \<and> r \<le> b) (releases origin (admit_calls capacity refillPerSecond maxWaitMs bs calls)))) \<le>
     capacity + (b - a) * refillPerSecond / 1000"
  using assms(1,2)
proof (induction calls arbitrary: bs)
  case Nil
  have "0 \<le> (b - a) * refillPerSecond / 1000" using assms(3) refill by simp
  then show ?case using capacity by (simp add: releases_def)
next
  case (Cons call calls)
  obtain o' u where call: "call = (o', u)" by fastforce
  obtain bs' wait where adm: "admit capacity refillPerSecond maxWaitMs bs o' u = (bs', wait)" by fastforce
  have good': "good bs'" and sorted: "sorted (u # map snd calls)" "sorted (map snd calls)"
    using admit_answer(2) [OF Cons.prems(1) adm] Cons.prems(2) by (simp_all add: call)
  let ?rs = "releases origin (admit_calls capacity refillPerSecond maxWaitMs bs' calls)"
  let ?in = "\<lambda>r. a \<le> r \<and> r \<le> b"
  note IH = Cons.IH [OF good' sorted(2)]
  show ?case
  proof (cases "o' = origin \<and> wait \<noteq> None \<and> ?in (u + wait_for (level bs origin u))")
    case False
    then have "length (filter ?in (releases origin (admit_calls capacity refillPerSecond maxWaitMs bs (call # calls)))) =
        length (filter ?in ?rs)"
      unfolding call releases_step [OF adm] using admit_answer(1) [OF Cons.prems(1) adm]
      by (auto split: option.split if_splits)
    with IH show ?thesis by simp
  next
    case True
    let ?L = "level bs origin u"
    have w: "wait = Some (wait_for ?L)" and l: "level bs' origin u = ?L - 1"
      using True admit_answer(1) [OF Cons.prems(1) adm] admit_level_now [OF Cons.prems(1) adm] by (auto split: if_splits)
    have "length (filter ?in xs) \<le> length (filter (\<lambda>r. r \<le> b) xs)" for xs
      by (induction xs) auto
    then have "length (filter ?in ?rs) \<le> length (filter (\<lambda>r. r \<le> b) ?rs)" .
    then have "of_nat (length (filter ?in ?rs)) \<le> max 0 (?L - 1 + (b - u) * refillPerSecond / 1000)"
      using releases_bounded [OF good' sorted(1), of b origin] unfolding l by (meson of_nat_mono order_trans)
    moreover have "(b - u) * refillPerSecond / 1000 \<le> max 0 (1 - ?L) + (b - a) * refillPerSecond / 1000"
    proof -
      have "(b - u) * refillPerSecond / 1000 \<le> (wait_for ?L + (b - a)) * refillPerSecond / 1000"
        using True refill by (intro divide_right_mono mult_right_mono) auto
      then show ?thesis using wait_repays [of ?L] by (simp add: field_simps)
    qed
    moreover have "0 \<le> (b - a) * refillPerSecond / 1000" using assms(3) refill by simp
    ultimately have "of_nat (length (filter ?in ?rs)) + 1 \<le> capacity + (b - a) * refillPerSecond / 1000"
      using level_le [of bs origin u] capacity by (auto simp: max_def split: if_splits)
    moreover have "releases origin (admit_calls capacity refillPerSecond maxWaitMs bs (call # calls)) = (u + wait_for ?L) # ?rs"
      unfolding call releases_step [OF adm] using w True by simp
    ultimately show ?thesis using True by simp
  qed
qed

text \<open>Two tables that say the same of an origin answer its calls alike, whatever other origins do in between.\<close>

lemma own_calls_decide:
  assumes "good bs" "good cs" and "\<forall>u\<ge>t. level bs origin u = level cs origin u" and "sorted (t # map snd calls)"
  shows "filter (\<lambda>(o', _, _). o' = origin) (admit_calls capacity refillPerSecond maxWaitMs bs calls) =
    admit_calls capacity refillPerSecond maxWaitMs cs (filter (\<lambda>(o', _). o' = origin) calls)"
  using assms
proof (induction calls arbitrary: bs cs t)
  case (Cons call calls)
  obtain o' u where call: "call = (o', u)" by fastforce
  obtain bs' w where b: "admit capacity refillPerSecond maxWaitMs bs o' u = (bs', w)" by fastforce
  obtain cs' v where c: "admit capacity refillPerSecond maxWaitMs cs o' u = (cs', v)" by fastforce
  have tu: "t \<le> u" and sorted: "sorted (u # map snd calls)" using Cons.prems(4) by (simp_all add: call)
  note b' = admit_answer [OF Cons.prems(1) b] and c' = admit_answer [OF Cons.prems(2) c]
  have same: "\<forall>x\<ge>u. level bs origin x = level cs origin x" using Cons.prems(3) tu by auto
  show ?case
  proof (cases "o' = origin")
    case True
    have l: "level bs origin u = level cs origin u" using same by simp
    have "w = v" unfolding b'(1) c'(1) True l ..
    moreover have "\<forall>x\<ge>u. level bs' origin x = level cs' origin x"
      using b'(3) c'(3) \<open>w = v\<close> l by (simp add: True)
    ultimately show ?thesis using Cons.IH [OF b'(2) c'(2) _ sorted] b c True by (simp add: call)
  next
    case False
    have "\<forall>x\<ge>u. level bs' origin x = level cs origin x" using b'(4) False same by simp
    then show ?thesis using Cons.IH [OF b'(2) Cons.prems(2) _ sorted] b False by (simp add: call)
  qed
qed simp

lemma wait_bound:
  "(o', t, Some w) \<in> set (admit_calls capacity refillPerSecond maxWaitMs bs calls) \<Longrightarrow> good bs \<Longrightarrow> 0 \<le> w \<and> w \<le> maxWaitMs"
proof (induction calls arbitrary: bs)
  case (Cons call calls)
  obtain o'' u where call: "call = (o'', u)" by fastforce
  obtain bs' v where a: "admit capacity refillPerSecond maxWaitMs bs o'' u = (bs', v)" by fastforce
  show ?case
    using Cons.prems Cons.IH [of bs'] admit_answer(1,2) [OF Cons.prems(2) a] wait_nonneg
    by (auto simp: call a split: if_splits)
qed simp

text \<open>A call is refused only where its token would accrue more than \<open>maxWaitMs\<close> later; in particular never
  where a whole token is left.\<close>

lemma refused_means_behind:
  assumes "good bs" and "admit capacity refillPerSecond maxWaitMs bs origin now = (bs', None)"
  shows "level bs origin now < 1 - maxWaitMs * refillPerSecond / 1000"
proof -
  have "maxWaitMs < wait_for (level bs origin now)" using admit_answer(1) [OF assms] by (simp split: if_splits)
  then have "maxWaitMs * refillPerSecond / 1000 < wait_for (level bs origin now) * refillPerSecond / 1000"
    using refill by (intro divide_strict_right_mono mult_strict_right_mono) auto
  then have "maxWaitMs * refillPerSecond / 1000 < max 0 (1 - level bs origin now)" unfolding wait_repays .
  moreover have "0 \<le> maxWaitMs * refillPerSecond / 1000" using maxWait refill by simp
  ultimately show ?thesis by (auto simp: max_def split: if_splits)
qed

text \<open>The other way round: a table in which the tokens of an origin are what its calls since \<open>a\<close>, when it had all
  of them, have left.\<close>

definition busy_since :: "buckets \<Rightarrow> str \<Rightarrow> rat \<Rightarrow> rat \<Rightarrow> rat list \<Rightarrow> bool" where
  "busy_since bs origin t a past \<longleftrightarrow> a \<le> t \<and> (\<forall>r\<in>set past. a \<le> r \<and> r \<le> t + maxWaitMs) \<and>
     (\<forall>x\<ge>t. level bs origin x = min capacity (capacity + (x - a) * refillPerSecond / 1000 - of_nat (length past)))"

lemma busy_since_later:
  assumes "busy_since bs origin t a past" and "t \<le> u"
  obtains b rest where "busy_since bs origin u b rest" and "rest = [] \<or> rest = past"
    and "level bs origin u = capacity + (u - b) * refillPerSecond / 1000 - of_nat (length rest)"
proof (cases "(u - a) * refillPerSecond / 1000 \<ge> of_nat (length past)")
  case True
  have "level bs origin x = capacity \<and> capacity \<le> capacity + (x - u) * refillPerSecond / 1000" if "u \<le> x" for x
  proof -
    have "(u - a) * refillPerSecond / 1000 \<le> (x - a) * refillPerSecond / 1000"
      using that refill by (intro divide_right_mono mult_right_mono) auto
    moreover have "0 \<le> (x - u) * refillPerSecond / 1000" using that refill by simp
    ultimately show ?thesis using True assms that by (simp add: busy_since_def min_def)
  qed
  then have "busy_since bs origin u u []" by (simp add: busy_since_def min_absorb1)
  moreover have "level bs origin u = capacity + (u - u) * refillPerSecond / 1000 - of_nat (length [])"
    using \<open>\<And>x. u \<le> x \<Longrightarrow> _\<close> [of u] by simp
  ultimately show thesis using that by force
next
  case False
  then have "level bs origin u = capacity + (u - a) * refillPerSecond / 1000 - of_nat (length past)"
    using assms by (simp add: busy_since_def min_def)
  moreover have "busy_since bs origin u a past" using assms by (auto simp: busy_since_def)
  ultimately show thesis using that by blast
qed

lemma busy_since_admit:
  assumes "busy_since bs origin u a past" and "good bs"
    and "level bs origin u = capacity + (u - a) * refillPerSecond / 1000 - of_nat (length past)"
    and adm: "admit capacity refillPerSecond maxWaitMs bs o' u = (bs', wait)"
  shows "busy_since bs' origin u a
    (past @ (case wait of Some w \<Rightarrow> if o' = origin then [u + w] else [] | None \<Rightarrow> []))"
proof (cases "o' = origin")
  case False
  then show ?thesis using assms(1) admit_answer(4) [OF assms(2) adm] by (auto simp: busy_since_def split: option.split)
next
  case True
  have w: "a \<le> u + w \<and> w \<le> maxWaitMs" if "wait = Some w" for w
    using that assms(1) admit_answer(1) [OF assms(2) adm] wait_nonneg [of "level bs o' u"]
    by (auto simp: busy_since_def split: if_splits)
  have "level bs' origin x = min capacity (capacity + (x - a) * refillPerSecond / 1000 -
      of_nat (length (past @ (case wait of Some w \<Rightarrow> if o' = origin then [u + w] else [] | None \<Rightarrow> []))))" if "u \<le> x" for x
  proof -
    have "(u - a) * refillPerSecond / 1000 + (x - u) * refillPerSecond / 1000 = (x - a) * refillPerSecond / 1000"
      by (simp add: field_simps)
    then show ?thesis
      using admit_answer(3) [OF assms(2) adm that] that True assms(3) by (auto simp: max_def split: option.split)
  qed
  then show ?thesis using assms(1) w True by (auto simp: busy_since_def split: option.split)
qed

theorem refused_only_when_full:
  assumes "good bs" and "busy_since bs origin t a past" and "sorted (t # map snd calls)"
    and "(origin, now, None) \<in> set (admit_calls capacity refillPerSecond maxWaitMs bs calls)"
  shows "\<exists>b\<le>now. capacity + (now + maxWaitMs - b) * refillPerSecond / 1000 < 1 +
    of_nat (length (filter (\<lambda>r. b \<le> r \<and> r \<le> now + maxWaitMs)
      (past @ releases origin (admit_calls capacity refillPerSecond maxWaitMs bs calls))))"
  using assms
proof (induction calls arbitrary: bs t a past)
  case (Cons call calls)
  obtain o' u where call: "call = (o', u)" by fastforce
  obtain bs' wait where adm: "admit capacity refillPerSecond maxWaitMs bs o' u = (bs', wait)" by fastforce
  have tu: "t \<le> u" and sorted: "sorted (u # map snd calls)" using Cons.prems(3) by (simp_all add: call)
  let ?P = "\<lambda>b r. b \<le> r \<and> r \<le> now + maxWaitMs"
  let ?new = "case wait of Some w \<Rightarrow> if o' = origin then [u + w] else [] | None \<Rightarrow> []"
  let ?rs = "releases origin (admit_calls capacity refillPerSecond maxWaitMs bs' calls)"
  have step: "releases origin (admit_calls capacity refillPerSecond maxWaitMs bs (call # calls)) = ?new @ ?rs"
    unfolding call by (rule releases_step [OF adm])
  consider "o' = origin" "u = now" "wait = None" | "(origin, now, None) \<in> set (admit_calls capacity refillPerSecond maxWaitMs bs' calls)"
    using Cons.prems(4) by (auto simp: call adm)
  then show ?case
  proof cases
    case 1
    obtain b rest where b: "busy_since bs origin u b rest" "rest = [] \<or> rest = past"
      "level bs origin u = capacity + (u - b) * refillPerSecond / 1000 - of_nat (length rest)"
      by (rule busy_since_later [OF Cons.prems(2) tu])
    have "filter (?P b) rest = rest" using b(1) 1 by (intro filter_True) (auto simp: busy_since_def)
    then have "of_nat (length rest) \<le> (of_nat (length (filter (?P b) (past @ ?new @ ?rs))) :: rat)"
      using b(2) by auto
    moreover have "level bs origin now < 1 - maxWaitMs * refillPerSecond / 1000"
      using refused_means_behind [OF Cons.prems(1)] adm 1 by blast
    moreover have "(now - b) * refillPerSecond / 1000 + maxWaitMs * refillPerSecond / 1000 =
        (now + maxWaitMs - b) * refillPerSecond / 1000" by (simp add: field_simps)
    moreover have "b \<le> now" using b(1) 1 by (simp add: busy_since_def)
    moreover have "level bs origin now = capacity + (now - b) * refillPerSecond / 1000 - of_nat (length rest)"
      using b(3) 1(2) by simp
    ultimately have "b \<le> now \<and> capacity + (now + maxWaitMs - b) * refillPerSecond / 1000 < 1 +
        of_nat (length (filter (?P b) (past @ ?new @ ?rs)))" by linarith
    then show ?thesis unfolding step by (rule exI)
  next
    case 2
    obtain b rest where b: "busy_since bs origin u b rest" "rest = [] \<or> rest = past"
      "level bs origin u = capacity + (u - b) * refillPerSecond / 1000 - of_nat (length rest)"
      by (rule busy_since_later [OF Cons.prems(2) tu])
    have busy: "busy_since bs' origin u b (rest @ ?new)" by (rule busy_since_admit [OF b(1) Cons.prems(1) b(3) adm])
    obtain c where c: "c \<le> now" "capacity + (now + maxWaitMs - c) * refillPerSecond / 1000 < 1 +
        of_nat (length (filter (?P c) ((rest @ ?new) @ ?rs)))"
      using Cons.IH [OF admit_answer(2) [OF Cons.prems(1) adm] busy sorted 2] by blast
    have "of_nat (length (filter (?P c) ((rest @ ?new) @ ?rs))) \<le> (of_nat (length (filter (?P c) (past @ ?new @ ?rs))) :: rat)"
      using b(2) by auto
    then have "c \<le> now \<and> capacity + (now + maxWaitMs - c) * refillPerSecond / 1000 < 1 +
        of_nat (length (filter (?P c) (past @ ?new @ ?rs)))" using c by linarith
    then show ?thesis unfolding step by (rule exI)
  qed
qed simp

end

interpretation control: bucket_limiter CONTROL_CAPACITY CONTROL_REFILL_PER_SECOND 0
  by unfold_locales (simp_all add: CONTROL_CAPACITY_def CONTROL_REFILL_PER_SECOND_def)

interpretation handle_io: bucket_limiter HANDLE_IO_CAPACITY HANDLE_IO_REFILL_PER_SECOND HANDLE_IO_MAX_WAIT_MS
  by unfold_locales (simp_all add: HANDLE_IO_CAPACITY_def HANDLE_IO_REFILL_PER_SECOND_def HANDLE_IO_MAX_WAIT_MS_def)

section \<open>The control channel\<close>

text \<open>A run of the pair is a run of each limiter on its own methods.\<close>

lemma admitControlCall_cases:
  "admitControlCall limiter origin method now =
     (if method \<in> set HANDLE_IO_METHODS
      then (case admit HANDLE_IO_CAPACITY HANDLE_IO_REFILL_PER_SECOND HANDLE_IO_MAX_WAIT_MS (handle_io_buckets limiter) origin now of
              (bs, wait) \<Rightarrow> (limiter\<lparr>handle_io_buckets := bs\<rparr>, wait))
      else (case admit CONTROL_CAPACITY CONTROL_REFILL_PER_SECOND 0 (control_buckets limiter) origin now of
              (bs, wait) \<Rightarrow> (limiter\<lparr>control_buckets := bs\<rparr>, wait)))"
proof -
  have "wait = None \<or> wait = Some 0"
    if "admit CONTROL_CAPACITY CONTROL_REFILL_PER_SECOND 0 bs origin now = (bs', wait)" for bs bs' wait
    using that by (auto simp: admit_def Let_def CONTROL_REFILL_PER_SECOND_def split: if_splits)
  then show ?thesis
    by (auto simp: admitControlCall_def tryConsume_is_admit CONTROL_REFILL_PER_SECOND_def split: prod.split)
qed

abbreviation is_handle_io :: "str \<Rightarrow> bool" where
  "is_handle_io method \<equiv> method \<in> set HANDLE_IO_METHODS"

definition budget_answers :: "bool \<Rightarrow> (str \<times> str \<times> rat \<times> rat option) list \<Rightarrow> (str \<times> rat \<times> rat option) list" where
  "budget_answers io answers = map (\<lambda>(origin, _, t, wait). (origin, t, wait)) (filter (\<lambda>(_, m, _). is_handle_io m = io) answers)"

definition budget_calls :: "bool \<Rightarrow> (str \<times> str \<times> rat) list \<Rightarrow> (str \<times> rat) list" where
  "budget_calls io calls = map (\<lambda>(origin, _, t). (origin, t)) (filter (\<lambda>(_, m, _). is_handle_io m = io) calls)"

lemma control_calls_split:
  "budget_answers False (control_calls limiter calls) =
     admit_calls CONTROL_CAPACITY CONTROL_REFILL_PER_SECOND 0 (control_buckets limiter) (budget_calls False calls)"
  "budget_answers True (control_calls limiter calls) =
     admit_calls HANDLE_IO_CAPACITY HANDLE_IO_REFILL_PER_SECOND HANDLE_IO_MAX_WAIT_MS (handle_io_buckets limiter)
       (budget_calls True calls)"
  by (induction calls arbitrary: limiter)
    (auto simp: budget_answers_def budget_calls_def admitControlCall_cases split: prod.splits)

lemma budget_calls_sorted: "sorted (map (\<lambda>(_, _, t). t) calls) \<Longrightarrow> sorted (map snd (budget_calls io calls))"
proof -
  have "map snd (budget_calls io calls) = map (\<lambda>(_, _, t). t) (filter (\<lambda>(_, m, _). is_handle_io m = io) calls)"
    by (simp add: budget_calls_def case_prod_beta)
  then show "sorted (map (\<lambda>(_, _, t). t) calls) \<Longrightarrow> ?thesis" by (simp only: sorted_filter)
qed

definition budget :: "bool \<Rightarrow> rat \<times> rat \<times> rat" where
  "budget io = (if io then (HANDLE_IO_CAPACITY, HANDLE_IO_REFILL_PER_SECOND, HANDLE_IO_MAX_WAIT_MS)
     else (CONTROL_CAPACITY, CONTROL_REFILL_PER_SECOND, 0))"

lemma control_calls_budget:
  assumes "budget io = (capacity, refill, maxWait)"
  shows "budget_answers io (control_calls createControlLimiter calls) = admit_calls capacity refill maxWait [] (budget_calls io calls)"
  using assms by (cases io) (simp_all add: budget_def control_calls_split createControlLimiter_def)

lemma budget_limiter: "budget io = (capacity, refill, maxWait) \<Longrightarrow> bucket_limiter capacity refill maxWait"
  using control.bucket_limiter_axioms handle_io.bucket_limiter_axioms by (auto simp: budget_def split: if_splits)

lemma fresh_busy: "bucket_limiter capacity refill maxWait \<Longrightarrow> bucket_limiter.busy_since capacity refill maxWait [] origin t t []"
  by (auto simp: bucket_limiter.busy_since_def bucket_limiter.level_def refilled_def bucket_limiter_def min_def)

lemma fresh_good: "bucket_limiter capacity refill maxWait \<Longrightarrow> bucket_limiter.good []"
  by (simp add: bucket_limiter.good_def)

text \<open>C12. Whatever an origin sends, no window of time lets more of its calls go ahead than the capacity of
  the budget and the refill of that window: 200 and 100 a second for control calls, 4096 and 4096 a second for
  calls on handles it holds, where no call waits longer than a second and a control call never waits. A call
  goes ahead when its delay is over; the clock does not go backwards.\<close>

theorem control_calls_are_rate_limited:
  assumes sorted: "sorted (map (\<lambda>(_, _, t). t) calls)" and B: "budget io = (capacity, refill, maxWait)"
    and answers: "answers = budget_answers io (control_calls createControlLimiter calls)" and ab: "a \<le> b"
  shows "of_nat (length (filter (\<lambda>r. a \<le> r \<and> r \<le> b) (releases origin answers))) \<le> capacity + (b - a) * refill / 1000 \<and>
    (\<forall>o' t wait. (o', t, Some wait) \<in> set answers \<longrightarrow> 0 \<le> wait \<and> wait \<le> maxWait)"
proof (intro conjI allI impI)
  note limiter = budget_limiter [OF B]
  note told = answers [unfolded control_calls_budget [OF B]]
  show "of_nat (length (filter (\<lambda>r. a \<le> r \<and> r \<le> b) (releases origin answers))) \<le> capacity + (b - a) * refill / 1000"
    unfolding told
    by (rule bucket_limiter.window_bound [OF limiter fresh_good [OF limiter] budget_calls_sorted [OF sorted] ab])
  fix o' t wait assume "(o', t, Some wait) \<in> set answers"
  then have "0 \<le> wait \<and> wait \<le> maxWait"
    unfolding told by (rule bucket_limiter.wait_bound [OF limiter _ fresh_good [OF limiter]])
  then show "0 \<le> wait" "wait \<le> maxWait" by simp_all
qed

text \<open>Nothing is refused too early: where a call is refused there is a window of time, ending with the
  longest delay it could have been given, in which the calls that go ahead leave no room for one more under
  that same bound. The limiter is as strict as the bound and no stricter.\<close>

theorem refused_only_when_the_budget_is_full:
  assumes sorted: "sorted (map (\<lambda>(_, _, t). t) calls)" and B: "budget io = (capacity, refill, maxWait)"
    and answers: "answers = budget_answers io (control_calls createControlLimiter calls)" and refused: "(origin, now, None) \<in> set answers"
  shows "\<exists>b\<le>now. capacity + (now + maxWait - b) * refill / 1000 <
    of_nat (length (filter (\<lambda>r. b \<le> r \<and> r \<le> now + maxWait) (releases origin answers)) + 1)"
proof -
  note limiter = budget_limiter [OF B]
  note told = answers [unfolded control_calls_budget [OF B]]
  let ?calls = "budget_calls io calls"
  obtain t where t: "sorted (t # map snd ?calls)"
    using budget_calls_sorted [OF sorted, of io] by (cases "map snd ?calls") auto
  show ?thesis
    using bucket_limiter.refused_only_when_full [OF limiter fresh_good [OF limiter] fresh_busy [OF limiter, of origin t] t]
      refused unfolding told by (simp only: append_Nil of_nat_add of_nat_1 add.commute [of 1])
qed

text \<open>What one origin is told depends on its own calls alone: the answers it gets among the calls of any
  other origins are the ones it would get without them, although every call sweeps the whole table.\<close>

theorem origins_do_not_throttle_each_other:
  assumes sorted: "sorted (map (\<lambda>(_, _, t). t) calls)"
  shows "filter (\<lambda>(o', _, _). o' = origin) (budget_answers io (control_calls createControlLimiter calls)) =
    budget_answers io (control_calls createControlLimiter (filter (\<lambda>(o', _, _). o' = origin) calls))"
proof -
  obtain capacity refill maxWait where B: "budget io = (capacity, refill, maxWait)" by (cases "budget io")
  note limiter = budget_limiter [OF B]
  let ?calls = "budget_calls io calls"
  obtain t where t: "sorted (t # map snd ?calls)"
    using budget_calls_sorted [OF sorted, of io] by (cases "map snd ?calls") auto
  have own: "filter (\<lambda>(o', _). o' = origin) ?calls = budget_calls io (filter (\<lambda>(o', _, _). o' = origin) calls)"
    by (induction calls) (auto simp: budget_calls_def)
  show ?thesis
    unfolding control_calls_budget [OF B] own [symmetric]
    by (rule bucket_limiter.own_calls_decide [OF limiter fresh_good [OF limiter] fresh_good [OF limiter] _ t]) simp
qed

definition sample_control_calls :: "(str \<times> str \<times> rat) list" where
  "sample_control_calls = [(js ''a'', js ''net.connect'', 0), (js ''b'', js ''fs.read'', 3), (js ''a'', js ''app.info'', 5)]"

lemma sample_control_sorted: "sorted (map (\<lambda>(_, _, t). t) sample_control_calls)"
  by (simp add: sample_control_calls_def)

theorem control_calls_are_rate_limited_witness:
  "of_nat (length (filter (\<lambda>r. 0 \<le> r \<and> r \<le> 10) (releases (js ''a'')
    (budget_answers False (control_calls createControlLimiter sample_control_calls))))) \<le> (201 :: rat)"
  using conjunct1 [OF control_calls_are_rate_limited [OF sample_control_sorted _ refl, of False _ _ _ 0 10 "js ''a''"]]
  by (simp add: budget_def CONTROL_CAPACITY_def CONTROL_REFILL_PER_SECOND_def)

theorem origins_do_not_throttle_each_other_witness:
  "filter (\<lambda>(o', _, _). o' = js ''a'') (budget_answers False (control_calls createControlLimiter sample_control_calls)) =
    budget_answers False (control_calls createControlLimiter [(js ''a'', js ''net.connect'', 0), (js ''a'', js ''app.info'', 5)])"
  using origins_do_not_throttle_each_other [OF sample_control_sorted, of "js ''a''" False]
  by (simp add: sample_control_calls_def)

text \<open>Two hundred calls at once, and one more.\<close>

definition flood :: "(str \<times> str \<times> rat) list" where
  "flood = replicate 201 (js ''a'', js ''net.connect'', 7)"

lemma emptying:
  "n < 200 \<Longrightarrow> (o', 7, None) \<in> set (admit_calls 200 100 0 [(o', \<lparr>tokens = of_nat n, lastRefillMs = 7\<rparr>)] (replicate (Suc n) (o', 7)))"
proof (induction n)
  case (Suc n)
  have "rat_of_nat (Suc n) \<le> 199" using Suc.prems of_nat_mono [of "Suc n" 199] by simp
  then have "admit 200 100 0 [(o', \<lparr>tokens = of_nat (Suc n), lastRefillMs = 7\<rparr>)] o' 7 =
      ([(o', \<lparr>tokens = of_nat n, lastRefillMs = 7\<rparr>)], Some 0)"
    by (simp add: admit_def reapIdle_def refilled_def)
  then show ?case using Suc by simp
qed (simp add: admit_def reapIdle_def refilled_def)

lemma flood_refused: "(js ''a'', 7, None) \<in> set (budget_answers False (control_calls createControlLimiter flood))"
proof -
  have calls: "budget_calls False flood = replicate 201 (js ''a'', 7)"
    by (simp add: flood_def budget_calls_def HANDLE_IO_METHODS_def)
  have "admit 200 100 0 [] (js ''a'') 7 = ([(js ''a'', \<lparr>tokens = of_nat 199, lastRefillMs = 7\<rparr>)], Some 0)"
    by (simp add: admit_def reapIdle_def refilled_def)
  then have "(js ''a'', 7, None) \<in> set (admit_calls 200 100 0 [] (replicate (Suc (Suc 199)) (js ''a'', 7)))"
    using emptying [of 199 "js ''a''"] by (simp only: replicate_Suc admit_calls.simps prod.case) simp
  then show ?thesis
    by (simp add: control_calls_split calls createControlLimiter_def CONTROL_CAPACITY_def CONTROL_REFILL_PER_SECOND_def
      eval_nat_numeral del: replicate.simps)
qed

theorem refused_only_when_the_budget_is_full_witness:
  "\<exists>b\<le>7. CONTROL_CAPACITY + (7 + 0 - b) * CONTROL_REFILL_PER_SECOND / 1000 <
    of_nat (length (filter (\<lambda>r. b \<le> r \<and> r \<le> 7 + 0)
      (releases (js ''a'') (budget_answers False (control_calls createControlLimiter flood)))) + 1)"
  by (rule refused_only_when_the_budget_is_full [OF _ _ refl flood_refused]) (simp_all add: flood_def budget_def)

end
