(* ===== verification/Messages.thy ===== *)
theory Messages imports HandleStore Complex_Main begin

section \<open>What a renderer can send: JavaScript values and port messages (port-messages.ts)\<close>

text \<open>
  A value that crossed the process boundary is what structured cloning gives: \<open>js_value\<close>. A number is a
  rational, one of the two infinities or \<open>NaN\<close> (the code's are doubles). The guards of port-messages.ts are
  the functions of the same names, and \<open>parseRendererToBrokerMessage\<close> answers the narrowed message. The
  lemmas show that parsing gives back every message a well-behaved renderer sends and that whatever it gives
  is inside the bounds the relays rely on.
\<close>

subsection \<open>Values\<close>

datatype js_number = Finite rat | Infinite bool | NaN

datatype js_value =
  Undefined | Null | Bool bool | Number js_number | Str str | Uint8Array "nat list"
| Array "js_value list" | Object "(str \<times> js_value) list"

text \<open>\<open>typeof v === 'object' && v !== null\<close>.\<close>

fun is_object :: "js_value \<Rightarrow> bool" where
  "is_object (Uint8Array _) = True"
| "is_object (Array _) = True"
| "is_object (Object _) = True"
| "is_object _ = False"

fun get :: "js_value \<Rightarrow> str \<Rightarrow> js_value" where
  "get (Object ps) key = (case map_of ps key of Some v \<Rightarrow> v | None \<Rightarrow> Undefined)"
| "get _ key = Undefined"

fun is_string :: "js_value \<Rightarrow> bool" where
  "is_string (Str _) = True"
| "is_string _ = False"

fun is_boolean :: "js_value \<Rightarrow> bool" where
  "is_boolean (Bool _) = True"
| "is_boolean _ = False"

fun is_number :: "js_value \<Rightarrow> bool" where
  "is_number (Number _) = True"
| "is_number _ = False"

fun is_bytes :: "js_value \<Rightarrow> bool" where
  "is_bytes (Uint8Array _) = True"
| "is_bytes _ = False"

fun bytes_of :: "js_value \<Rightarrow> nat list" where
  "bytes_of (Uint8Array bs) = bs"
| "bytes_of _ = []"

fun string_of :: "js_value \<Rightarrow> str" where
  "string_of (Str s) = s"
| "string_of _ = []"

fun rat_of_value :: "js_value \<Rightarrow> rat" where
  "rat_of_value (Number (Finite q)) = q"
| "rat_of_value _ = 0"

fun is_integer :: "js_value \<Rightarrow> bool" where
  "is_integer (Number (Finite q)) = (snd (quotient_of q) = 1)"
| "is_integer _ = False"

subsection \<open>limits.ts, ipc.ts\<close>

definition LIMIT_readWindowBytes :: nat where "LIMIT_readWindowBytes = 1024 * 1024"
definition LIMIT_writeWindowBytes :: nat where "LIMIT_writeWindowBytes = 256 * 1024"
definition LIMIT_inboundDatagramWindow :: nat where "LIMIT_inboundDatagramWindow = 256"
definition LIMIT_inboundDatagramWindowBytes :: nat where "LIMIT_inboundDatagramWindowBytes = 1024 * 1024"
definition LIMIT_outboundDatagramWindow :: nat where "LIMIT_outboundDatagramWindow = 64"
definition LIMIT_maxDatagramBytes :: nat where "LIMIT_maxDatagramBytes = 65507"
definition CREDIT_COALESCE_BYTES :: nat where "CREDIT_COALESCE_BYTES = 64 * 1024"

datatype renderer_message =
  CreditMessage str rat
| WriteMessage str "nat list"
| WriteEndMessage str
| WriteAbortMessage str
| DatagramCreditMessage str rat rat
| SendMessage str "nat list" str nat

text \<open>What the broker posts. Numbers the broker counts are naturals.\<close>

datatype broker_message =
  DataMessage str "nat list"
| StreamEndMessage str "error_code option" "str option"
| WriteAckMessage str nat
| WriteFailedMessage str error_code "str option"
| DatagramMessage str "nat list" str nat bool nat
| DatagramDropMessage str nat
| SendAckMessage str nat
| SendFailedMessage str error_code "str option" nat str js_number
| AcceptedMessage str str str nat str nat

subsection \<open>port-messages.ts\<close>

definition hasStringHandleId :: "js_value \<Rightarrow> bool" where
  "hasStringHandleId value \<longleftrightarrow> is_string (get value (js ''handleId''))"

definition kind_is :: "js_value \<Rightarrow> string \<Rightarrow> bool" where
  "kind_is value kind \<longleftrightarrow> get value (js ''kind'') = Str (js kind)"

text \<open>\<open>typeof v === 'number' && Number.isFinite(v) && v >= 0\<close>.\<close>

fun isUsableCount :: "js_value \<Rightarrow> bool" where
  "isUsableCount (Number (Finite q)) = (q \<ge> 0)"
| "isUsableCount _ = False"

definition isCreditMessage :: "js_value \<Rightarrow> bool" where
  "isCreditMessage value \<longleftrightarrow> is_object value \<and> hasStringHandleId value \<and> kind_is value ''credit'' \<and>
     isUsableCount (get value (js ''bytesConsumed''))"

definition isWriteMessage :: "js_value \<Rightarrow> bool" where
  "isWriteMessage value \<longleftrightarrow> is_object value \<and> hasStringHandleId value \<and> kind_is value ''write'' \<and>
     (let chunk = get value (js ''chunk'') in is_bytes chunk \<and> length (bytes_of chunk) \<le> LIMIT_writeWindowBytes)"

definition isWriteEndMessage :: "js_value \<Rightarrow> bool" where
  "isWriteEndMessage value \<longleftrightarrow> is_object value \<and> hasStringHandleId value \<and> kind_is value ''write-end''"

definition isWriteAbortMessage :: "js_value \<Rightarrow> bool" where
  "isWriteAbortMessage value \<longleftrightarrow> is_object value \<and> hasStringHandleId value \<and> kind_is value ''write-abort''"

definition isDatagramCreditMessage :: "js_value \<Rightarrow> bool" where
  "isDatagramCreditMessage value \<longleftrightarrow> is_object value \<and> hasStringHandleId value \<and> kind_is value ''datagram-credit'' \<and>
     isUsableCount (get value (js ''datagramsConsumed'')) \<and> isUsableCount (get value (js ''bytesConsumed''))"

definition isSendMessage :: "js_value \<Rightarrow> bool" where
  "isSendMessage value \<longleftrightarrow> is_object value \<and> hasStringHandleId value \<and> kind_is value ''send'' \<and>
     (let data = get value (js ''data''); address = get value (js ''address''); port = get value (js ''port'') in
      is_bytes data \<and> length (bytes_of data) \<le> LIMIT_maxDatagramBytes \<and>
      is_string address \<and> length (string_of address) > 0 \<and>
      is_integer port \<and> rat_of_value port > 0 \<and> rat_of_value port \<le> 65535)"

definition malformedSendDestination :: "js_value \<Rightarrow> str \<Rightarrow> (str \<times> js_number) option" where
  "malformedSendDestination value handleId =
     (if \<not> is_object value \<or> isSendMessage value then None
      else if \<not> kind_is value ''send'' \<or> get value (js ''handleId'') \<noteq> Str handleId then None
      else Some (string_of (get value (js ''address'')),
                 case get value (js ''port'') of Number n \<Rightarrow> n | _ \<Rightarrow> Finite 0))"

definition parseRendererToBrokerMessage :: "js_value \<Rightarrow> renderer_message option" where
  "parseRendererToBrokerMessage value =
     (let handle = string_of (get value (js ''handleId'')) in
      if isCreditMessage value then Some (CreditMessage handle (rat_of_value (get value (js ''bytesConsumed''))))
      else if isWriteMessage value then Some (WriteMessage handle (bytes_of (get value (js ''chunk''))))
      else if isWriteEndMessage value then Some (WriteEndMessage handle)
      else if isWriteAbortMessage value then Some (WriteAbortMessage handle)
      else if isDatagramCreditMessage value then
        Some (DatagramCreditMessage handle (rat_of_value (get value (js ''datagramsConsumed'')))
          (rat_of_value (get value (js ''bytesConsumed''))))
      else if isSendMessage value then
        Some (SendMessage handle (bytes_of (get value (js ''data''))) (string_of (get value (js ''address'')))
          (nat \<lfloor>rat_of_value (get value (js ''port''))\<rfloor>))
      else None)"

section \<open>Parsing\<close>

text \<open>How a renderer writes a message.\<close>

fun to_value :: "renderer_message \<Rightarrow> js_value" where
  "to_value (CreditMessage h n) = Object [(js ''kind'', Str (js ''credit'')), (js ''handleId'', Str h),
     (js ''bytesConsumed'', Number (Finite n))]"
| "to_value (WriteMessage h bs) = Object [(js ''kind'', Str (js ''write'')), (js ''handleId'', Str h),
     (js ''chunk'', Uint8Array bs)]"
| "to_value (WriteEndMessage h) = Object [(js ''kind'', Str (js ''write-end'')), (js ''handleId'', Str h)]"
| "to_value (WriteAbortMessage h) = Object [(js ''kind'', Str (js ''write-abort'')), (js ''handleId'', Str h)]"
| "to_value (DatagramCreditMessage h n b) = Object [(js ''kind'', Str (js ''datagram-credit'')), (js ''handleId'', Str h),
     (js ''datagramsConsumed'', Number (Finite n)), (js ''bytesConsumed'', Number (Finite b))]"
| "to_value (SendMessage h bs a p) = Object [(js ''kind'', Str (js ''send'')), (js ''handleId'', Str h),
     (js ''data'', Uint8Array bs), (js ''address'', Str a), (js ''port'', Number (Finite (of_nat p)))]"

text \<open>The bounds a message keeps.\<close>

fun in_bounds :: "renderer_message \<Rightarrow> bool" where
  "in_bounds (CreditMessage _ n) = (0 \<le> n)"
| "in_bounds (WriteMessage _ bs) = (length bs \<le> LIMIT_writeWindowBytes)"
| "in_bounds (WriteEndMessage _) = True"
| "in_bounds (WriteAbortMessage _) = True"
| "in_bounds (DatagramCreditMessage _ n b) = (0 \<le> n \<and> 0 \<le> b)"
| "in_bounds (SendMessage _ bs a p) = (length bs \<le> LIMIT_maxDatagramBytes \<and> a \<noteq> [] \<and> 0 < p \<and> p \<le> 65535)"

lemma isUsableCountE: "isUsableCount v \<Longrightarrow> 0 \<le> rat_of_value v"
  by (cases v rule: isUsableCount.cases) simp_all

lemma is_integer_nat: "is_integer (Number (Finite (of_nat p)))"
proof -
  have "quotient_of (of_nat p) = (int p, 1)" using quotient_of_int [of "int p"] by (simp add: Fract_of_nat_eq)
  then show ?thesis by simp
qed

theorem port_message_round_trip: "in_bounds m \<Longrightarrow> parseRendererToBrokerMessage (to_value m) = Some m"
  by (cases m) (simp_all add: parseRendererToBrokerMessage_def isCreditMessage_def isWriteMessage_def isWriteEndMessage_def
    isWriteAbortMessage_def isDatagramCreditMessage_def isSendMessage_def hasStringHandleId_def kind_is_def Let_def is_integer_nat)

lemma parsed_in_bounds: "parseRendererToBrokerMessage value = Some m \<Longrightarrow> in_bounds m"
proof -
  assume p: "parseRendererToBrokerMessage value = Some m"
  have port: "0 < nat \<lfloor>rat_of_value port\<rfloor> \<and> nat \<lfloor>rat_of_value port\<rfloor> \<le> 65535"
    if "is_integer port" "rat_of_value port > 0" "rat_of_value port \<le> 65535" for port
  proof (cases port rule: is_integer.cases)
    case (1 q)
    then have "snd (quotient_of q) = 1" using that(1) by simp
    then obtain n where n: "quotient_of q = (n, 1)" by (cases "quotient_of q") auto
    have "q = of_int n" using quotient_of_div [OF n] by simp
    with that 1 show ?thesis by simp
  qed (use that in simp_all)
  show ?thesis
    using p port unfolding parseRendererToBrokerMessage_def Let_def
    by (auto simp: isCreditMessage_def isWriteMessage_def isDatagramCreditMessage_def isSendMessage_def Let_def
      isUsableCountE split: if_splits)
qed

end
