(* ===== verification/PortPump.thy ===== *)
theory PortPump imports Messages "HOL-Library.Sublist" begin

section \<open>The read half of a socket relay (port-pump.ts)\<close>

text \<open>
  \<open>pumpLoop\<close> suspends only at \<open>reader.read()\<close>, so the pump is a state machine: \<open>pump_running\<close> means a read
  is outstanding, and an event is what that read resolves to, a credit message, or \<open>stop\<close>. A step answers
  what the pump does, in order. A raw read error is the errno \<open>errnoOf\<close> finds on it. The lemmas show that the
  bytes posted never run ahead of what the renderer consumed by more than the window and one chunk, that no
  credit is lost, and that the port carries the chunks read, in order, then at most one end.
\<close>

datatype relay_effect =
  Post broker_message
| OnStreamFailed error_code "str option"
| OnStreamEnded
| CancelReader
| WriterWrite "nat list"
| WriterClose
| WriterAbort
| OnSinkFailed error_code "str option"
| OnAbort
| OnEnded
| SendDatagram "nat list" str nat bool

record port_pump =
  pump_credit :: rat
  pump_running :: bool
  pump_stopped :: bool
  pump_endSent :: bool

datatype pump_event =
  ReadChunk "nat list"
| ReadDone
| ReadFailed "str option"
| CreditReport str js_number
| PumpStop "error_code option"

definition sendEnd :: "str \<Rightarrow> error_code option \<Rightarrow> str option \<Rightarrow> port_pump \<Rightarrow> port_pump \<times> relay_effect list" where
  "sendEnd handleId code cause pump =
     (if pump_endSent pump then (pump, [])
      else (pump\<lparr>pump_endSent := True\<rparr>,
        case code of
          None \<Rightarrow> [Post (StreamEndMessage handleId None None)]
        | Some c \<Rightarrow> let platformCode = (if c = E_denied then None else cause) in
            [Post (StreamEndMessage handleId (Some c) platformCode)]))"

text \<open>The loop's condition: go on to the next read, or leave the loop.\<close>

definition loop_turn :: "port_pump \<Rightarrow> port_pump" where
  "loop_turn pump =
     (if \<not> pump_stopped pump \<and> pump_credit pump > 0 then pump else pump\<lparr>pump_running := False\<rparr>)"

definition pumpLoop :: "port_pump \<Rightarrow> port_pump" where
  "pumpLoop pump =
     (if pump_running pump \<or> pump_stopped pump then pump else loop_turn (pump\<lparr>pump_running := True\<rparr>))"

definition createPortPump :: "nat \<Rightarrow> port_pump" where
  "createPortPump initialCredit =
     pumpLoop \<lparr>pump_credit = of_nat initialCredit, pump_running = False, pump_stopped = False, pump_endSent = False\<rparr>"

definition read_chunk :: "str \<Rightarrow> nat list \<Rightarrow> port_pump \<Rightarrow> port_pump \<times> relay_effect list" where
  "read_chunk handleId chunk pump =
     (if pump_stopped pump then (pump\<lparr>pump_running := False\<rparr>, [])
      else (loop_turn (pump\<lparr>pump_credit := pump_credit pump - of_nat (length chunk)\<rparr>), [Post (DataMessage handleId chunk)]))"

definition read_done :: "str \<Rightarrow> port_pump \<Rightarrow> port_pump \<times> relay_effect list" where
  "read_done handleId pump =
     (if pump_stopped pump then (pump\<lparr>pump_running := False\<rparr>, [])
      else (case sendEnd handleId None None pump of
              (pump', out) \<Rightarrow> (pump'\<lparr>pump_running := False\<rparr>, out @ [OnStreamEnded])))"

definition read_failed :: "(str option \<Rightarrow> error_code) \<Rightarrow> str \<Rightarrow> str option \<Rightarrow> port_pump \<Rightarrow> port_pump \<times> relay_effect list" where
  "read_failed mapError handleId errno pump =
     (if pump_stopped pump then (pump\<lparr>pump_running := False\<rparr>, [])
      else let code = mapError errno in
        (case sendEnd handleId (Some code) errno (pump\<lparr>pump_stopped := True\<rparr>) of
           (pump', out) \<Rightarrow> (pump'\<lparr>pump_running := False\<rparr>, out @ [OnStreamFailed code errno])))"

definition pump_handleCredit :: "str \<Rightarrow> nat \<Rightarrow> str \<Rightarrow> js_number \<Rightarrow> port_pump \<Rightarrow> port_pump" where
  "pump_handleCredit handleId initialCredit message_handle bytesConsumed pump =
     (if pump_stopped pump \<or> message_handle \<noteq> handleId then pump
      else (case bytesConsumed of
              Finite n \<Rightarrow>
                if n < 0 then pump
                else pumpLoop (pump\<lparr>pump_credit := min (pump_credit pump + n) (of_nat initialCredit)\<rparr>)
            | _ \<Rightarrow> pump))"

definition pump_stop :: "str \<Rightarrow> error_code option \<Rightarrow> port_pump \<Rightarrow> port_pump \<times> relay_effect list" where
  "pump_stop handleId code pump =
     (if pump_stopped pump then (pump, [])
      else (case sendEnd handleId code None (pump\<lparr>pump_stopped := True\<rparr>) of (pump', out) \<Rightarrow> (pump', out @ [CancelReader])))"

text \<open>What a read resolves to reaches the pump only while one is outstanding.\<close>

fun pump_step :: "(str option \<Rightarrow> error_code) \<Rightarrow> str \<Rightarrow> nat \<Rightarrow> pump_event \<Rightarrow> port_pump \<Rightarrow> port_pump \<times> relay_effect list" where
  "pump_step mapError handleId initialCredit (ReadChunk chunk) pump =
     (if pump_running pump then read_chunk handleId chunk pump else (pump, []))"
| "pump_step mapError handleId initialCredit ReadDone pump =
     (if pump_running pump then read_done handleId pump else (pump, []))"
| "pump_step mapError handleId initialCredit (ReadFailed errno) pump =
     (if pump_running pump then read_failed mapError handleId errno pump else (pump, []))"
| "pump_step mapError handleId initialCredit (CreditReport message_handle n) pump =
     (pump_handleCredit handleId initialCredit message_handle n pump, [])"
| "pump_step mapError handleId initialCredit (PumpStop code) pump = pump_stop handleId code pump"

fun pump_run :: "(str option \<Rightarrow> error_code) \<Rightarrow> str \<Rightarrow> nat \<Rightarrow> pump_event list \<Rightarrow> port_pump \<Rightarrow> port_pump \<times> relay_effect list" where
  "pump_run mapError handleId initialCredit [] pump = (pump, [])"
| "pump_run mapError handleId initialCredit (e # events) pump =
     (case pump_step mapError handleId initialCredit e pump of
        (pump', out) \<Rightarrow> (case pump_run mapError handleId initialCredit events pump' of
           (pump'', out') \<Rightarrow> (pump'', out @ out')))"

section \<open>The window\<close>

definition posted_bytes :: "relay_effect list \<Rightarrow> nat" where
  "posted_bytes out = sum_list (map (\<lambda>x. case x of Post (DataMessage _ bs) \<Rightarrow> length bs | _ \<Rightarrow> 0) out)"

text \<open>What the credit messages addressed to the handle add up to.\<close>

definition credited :: "str \<Rightarrow> pump_event list \<Rightarrow> rat" where
  "credited handleId events = sum_list (map (\<lambda>e. case e of
     CreditReport h (Finite n) \<Rightarrow> if h = handleId \<and> n \<ge> 0 then n else 0 | _ \<Rightarrow> 0) events)"

lemma posted_bytes_simps [simp]:
  "posted_bytes [] = 0"
  "posted_bytes (x # out) = (case x of Post (DataMessage _ bs) \<Rightarrow> length bs | _ \<Rightarrow> 0) + posted_bytes out"
  "posted_bytes (out @ out') = posted_bytes out + posted_bytes out'"
  by (simp_all add: posted_bytes_def)

lemma credited_Cons:
  "credited handleId (e # events) = (case e of
     CreditReport h (Finite n) \<Rightarrow> if h = handleId \<and> n \<ge> 0 then n else 0 | _ \<Rightarrow> 0) + credited handleId events"
  by (simp add: credited_def)

lemma credited_nonneg: "0 \<le> credited handleId events"
  by (induction events) (auto simp: credited_Cons credited_def split: pump_event.split js_number.split)

definition pump_ok :: "nat \<Rightarrow> port_pump \<Rightarrow> bool" where
  "pump_ok initialCredit pump \<longleftrightarrow> pump_credit pump \<le> of_nat initialCredit \<and>
     (pump_running pump \<and> \<not> pump_stopped pump \<longrightarrow> pump_credit pump > 0)"

named_theorems pump_defs
lemmas [pump_defs] = sendEnd_def loop_turn_def pumpLoop_def read_chunk_def read_done_def read_failed_def
  pump_handleCredit_def pump_stop_def

lemma createPortPump_ok: "pump_ok initialCredit (createPortPump initialCredit)"
  by (simp add: createPortPump_def pump_ok_def pump_defs)

lemma pump_step_ok:
  assumes "pump_ok initialCredit pump" and "pump_step mapError handleId initialCredit e pump = (pump', out)"
  shows "pump_ok initialCredit pump'"
    and "pump_credit pump' + of_nat (posted_bytes out) \<le> pump_credit pump + credited handleId [e]"
    and "posted_bytes out \<noteq> 0 \<Longrightarrow> 0 < pump_credit pump"
  using assms
  by (cases e; auto simp: pump_ok_def pump_defs credited_def Let_def split: if_splits option.splits js_number.splits)+

subsection \<open>Runs\<close>

abbreviation pump_from :: "(str option \<Rightarrow> error_code) \<Rightarrow> str \<Rightarrow> nat \<Rightarrow> pump_event list \<Rightarrow> port_pump \<times> relay_effect list" where
  "pump_from mapError handleId initialCredit events \<equiv> pump_run mapError handleId initialCredit events (createPortPump initialCredit)"

lemma pump_run_append:
  "pump_run mapError handleId w (es @ es2) pump =
     (case pump_run mapError handleId w es pump of (pump', out) \<Rightarrow>
        (case pump_run mapError handleId w es2 pump' of (pump'', out') \<Rightarrow> (pump'', out @ out')))"
  by (induction es arbitrary: pump) (auto split: prod.splits)

lemma pump_run_snoc:
  "pump_run mapError handleId w (es @ [e]) pump =
     (case pump_run mapError handleId w es pump of (pump', out) \<Rightarrow>
        (case pump_step mapError handleId w e pump' of (pump'', out') \<Rightarrow> (pump'', out @ out')))"
  by (auto simp: pump_run_append split: prod.splits)

lemma credited_append: "credited handleId (es @ es2) = credited handleId es + credited handleId es2"
  by (simp add: credited_def)

lemma pump_run_ok:
  assumes "pump_run mapError handleId w events pump = (pump', out)" and "pump_ok w pump"
  shows "pump_ok w pump' \<and> pump_credit pump' + of_nat (posted_bytes out) \<le> pump_credit pump + credited handleId events"
  using assms
proof (induction events arbitrary: pump' out rule: rev_induct)
  case (snoc e events)
  obtain p o1 where r: "pump_run mapError handleId w events pump = (p, o1)" by fastforce
  obtain o2 where st: "pump_step mapError handleId w e p = (pump', o2)" and out: "out = o1 @ o2"
    using snoc.prems(1) r by (auto simp: pump_run_snoc split: prod.splits)
  note IH = snoc.IH [OF r snoc.prems(2)]
  show ?case
    using pump_step_ok(1,2) [OF conjunct1 [OF IH] st] IH by (simp add: out credited_append)
qed (simp add: credited_def)

lemma pump_credit_floor:
  assumes "pump_run mapError handleId w events pump = (pump', out)" and "pump_ok w pump" and "- of_nat m \<le> pump_credit pump"
    and "\<forall>chunk. ReadChunk chunk \<in> set events \<longrightarrow> length chunk \<le> m"
  shows "- of_nat m \<le> pump_credit pump'"
  using assms(1,4)
proof (induction events arbitrary: pump' out rule: rev_induct)
  case (snoc e events)
  obtain p o1 where r: "pump_run mapError handleId w events pump = (p, o1)" by fastforce
  obtain o2 where st: "pump_step mapError handleId w e p = (pump', o2)"
    using snoc.prems(1) r by (auto simp: pump_run_snoc split: prod.splits)
  have IH: "- of_nat m \<le> pump_credit p" using snoc.IH [OF r] snoc.prems(2) by simp
  have ok: "pump_ok w p" using pump_run_ok [OF r assms(2)] by simp
  have "of_nat (length chunk) \<le> (of_nat m :: rat)" if "e = ReadChunk chunk" for chunk
    using snoc.prems(2) that by simp
  then show ?case
    using st ok IH by (cases e; fastforce simp: pump_ok_def pump_defs Let_def split: if_splits option.splits js_number.splits)
qed (use assms(3) in simp)

text \<open>An honest renderer reports only what it was sent.\<close>

definition honest_credit :: "(str option \<Rightarrow> error_code) \<Rightarrow> str \<Rightarrow> nat \<Rightarrow> pump_event list \<Rightarrow> bool" where
  "honest_credit mapError handleId w events \<longleftrightarrow>
     (\<forall>k\<le>length events. credited handleId (take k events) \<le> of_nat (posted_bytes (snd (pump_from mapError handleId w (take k events)))))"

lemma honest_credit_snoc:
  "honest_credit mapError handleId w (es @ [e]) \<Longrightarrow> honest_credit mapError handleId w es \<and>
     credited handleId (es @ [e]) \<le> of_nat (posted_bytes (snd (pump_from mapError handleId w (es @ [e]))))"
proof (intro conjI)
  assume h: "honest_credit mapError handleId w (es @ [e])"
  show "honest_credit mapError handleId w es"
    unfolding honest_credit_def
  proof (intro allI impI)
    fix k assume "k \<le> length es"
    then have "take k es = take k (es @ [e])" "k \<le> length (es @ [e])" by simp_all
    then show "credited handleId (take k es) \<le> of_nat (posted_bytes (snd (pump_from mapError handleId w (take k es))))"
      using h unfolding honest_credit_def by (simp only:)
  qed
  have "take (length (es @ [e])) (es @ [e]) = es @ [e]" by simp
  then show "credited handleId (es @ [e]) \<le> of_nat (posted_bytes (snd (pump_from mapError handleId w (es @ [e]))))"
    using h unfolding honest_credit_def by (metis order_refl)
qed

lemma honest_pump:
  assumes "pump_from mapError handleId w events = (pump, out)" and "honest_credit mapError handleId w events"
  shows "\<not> pump_stopped pump \<Longrightarrow> pump_credit pump = of_nat w - (of_nat (posted_bytes out) - credited handleId events) \<and>
    (\<not> pump_endSent pump \<longrightarrow> (pump_running pump \<longleftrightarrow> pump_credit pump > 0))"
  using assms
proof (induction events arbitrary: pump out rule: rev_induct)
  case Nil
  then show ?case by (cases "w = 0") (auto simp: createPortPump_def pump_defs credited_def)
next
  case (snoc e events)
  obtain p o1 where r: "pump_from mapError handleId w events = (p, o1)" by fastforce
  obtain o2 where st: "pump_step mapError handleId w e p = (pump, o2)" and out: "out = o1 @ o2"
    using snoc.prems(2) r by (auto simp: pump_run_snoc split: prod.splits)
  have h: "honest_credit mapError handleId w events" and
    b: "credited handleId events + credited handleId [e] \<le> of_nat (posted_bytes o1 + posted_bytes o2)"
    using honest_credit_snoc [OF snoc.prems(3)] snoc.prems(2) by (simp_all add: credited_append out)
  have "\<not> pump_stopped p" using snoc.prems(1) st by (cases e) (auto simp: pump_defs Let_def split: if_splits option.splits js_number.splits)
  note IH = snoc.IH [OF this r h]
  show ?case
    unfolding out using st IH b snoc.prems(1)
    by (cases e) (auto simp: pump_defs Let_def credited_append credited_def split: if_splits option.splits js_number.splits)
qed

section \<open>What the port carries\<close>

fun posts :: "relay_effect list \<Rightarrow> broker_message list" where
  "posts [] = []"
| "posts (Post m # out) = m # posts out"
| "posts (_ # out) = posts out"

lemma posts_append [simp]: "posts (out @ out') = posts out @ posts out'"
  by (induction out rule: posts.induct) simp_all

fun chunks :: "pump_event list \<Rightarrow> nat list list" where
  "chunks [] = []"
| "chunks (ReadChunk bs # es) = bs # chunks es"
| "chunks (_ # es) = chunks es"

lemma chunks_append [simp]: "chunks (es @ es') = chunks es @ chunks es'"
  by (induction es rule: chunks.induct) simp_all

text \<open>The stream answers one read at a time, and once it has ended it stays ended.\<close>

fun is_read :: "pump_event \<Rightarrow> bool" where
  "is_read (ReadChunk _) = True"
| "is_read ReadDone = True"
| "is_read (ReadFailed _) = True"
| "is_read _ = False"

fun reads_when_asked :: "(str option \<Rightarrow> error_code) \<Rightarrow> str \<Rightarrow> nat \<Rightarrow> pump_event list \<Rightarrow> port_pump \<Rightarrow> bool" where
  "reads_when_asked mapError handleId w [] pump = True"
| "reads_when_asked mapError handleId w (e # events) pump =
     ((is_read e \<longrightarrow> pump_running pump) \<and>
      reads_when_asked mapError handleId w events (fst (pump_step mapError handleId w e pump)))"

fun stays_ended :: "pump_event list \<Rightarrow> bool" where
  "stays_ended [] = True"
| "stays_ended (e # events) = ((e = ReadDone \<longrightarrow> chunks events = []) \<and> stays_ended events)"

lemma reads_when_asked_snoc:
  "reads_when_asked mapError handleId w (es @ [e]) pump \<longleftrightarrow> reads_when_asked mapError handleId w es pump \<and>
     (is_read e \<longrightarrow> pump_running (fst (pump_run mapError handleId w es pump)))"
  by (induction es arbitrary: pump) (auto split: prod.splits)

lemma stays_ended_snoc:
  "stays_ended (es @ [e]) \<Longrightarrow> stays_ended es \<and> (ReadDone \<in> set es \<longrightarrow> chunks [e] = [])"
  by (induction es) auto

lemma pump_posts:
  assumes "pump_from mapError handleId w events = (pump, out)"
    and "reads_when_asked mapError handleId w events (createPortPump w)" and "stays_ended events"
  shows "\<exists>cs ends. posts out = map (DataMessage handleId) cs @ ends \<and> prefix cs (chunks events) \<and>
    (\<not> pump_stopped pump \<longrightarrow> cs = chunks events) \<and> length ends = (if pump_endSent pump then 1 else 0) \<and>
    (\<forall>m\<in>set ends. \<exists>code platform. m = StreamEndMessage handleId code platform) \<and>
    (pump_endSent pump \<and> \<not> pump_stopped pump \<longrightarrow> ReadDone \<in> set events) \<and>
    (pump_stopped pump \<longrightarrow> pump_endSent pump)"
  using assms
proof (induction events arbitrary: pump out rule: rev_induct)
  case Nil
  then show ?case by (cases "w = 0") (auto simp: createPortPump_def pump_defs)
next
  case (snoc e events)
  obtain p o1 where r: "pump_from mapError handleId w events = (p, o1)" by fastforce
  obtain o2 where st: "pump_step mapError handleId w e p = (pump, o2)" and out: "out = o1 @ o2"
    using snoc.prems(1) r by (auto simp: pump_run_snoc split: prod.splits)
  have asked: "reads_when_asked mapError handleId w events (createPortPump w)" "is_read e \<longrightarrow> pump_running p"
    using snoc.prems(2) r by (simp_all add: reads_when_asked_snoc)
  note ended = stays_ended_snoc [OF snoc.prems(3)]
  obtain cs ends where IH: "posts o1 = map (DataMessage handleId) cs @ ends" "prefix cs (chunks events)"
    "\<not> pump_stopped p \<longrightarrow> cs = chunks events" "length ends = (if pump_endSent p then 1 else 0)"
    "\<forall>m\<in>set ends. \<exists>code platform. m = StreamEndMessage handleId code platform"
    "pump_endSent p \<and> \<not> pump_stopped p \<longrightarrow> ReadDone \<in> set events" "pump_stopped p \<longrightarrow> pump_endSent p"
    using snoc.IH [OF r asked(1) conjunct1 [OF ended]] by (elim exE conjE)
  show ?case
  proof (cases "e = ReadDone \<or> (\<exists>code. e = PumpStop code) \<or> (\<exists>errno. e = ReadFailed errno) \<or> (\<exists>h n. e = CreditReport h n)")
    case True
    have same: "chunks (events @ [e]) = chunks events" using True by auto
    have o2: "posts o2 = (if pump_endSent p = pump_endSent pump then [] else posts o2) \<and>
        (pump_endSent p \<noteq> pump_endSent pump \<longrightarrow> (\<exists>code platform. posts o2 = [StreamEndMessage handleId code platform]) \<and> pump_endSent pump) \<and>
        (pump_stopped p \<longrightarrow> pump_stopped pump) \<and> (pump_stopped pump \<longrightarrow> pump_stopped p \<or> pump_endSent pump) \<and>
        (pump_endSent pump \<and> \<not> pump_stopped pump \<longrightarrow> pump_endSent p \<or> e = ReadDone)"
      using True st by (auto simp: pump_defs Let_def split: if_splits option.splits js_number.splits)
    show ?thesis
      unfolding out same
      by (intro exI [of _ cs] exI [of _ "ends @ posts o2"]) (use IH o2 in \<open>auto split: if_splits\<close>)
  next
    case False
    then obtain bs where e: "e = ReadChunk bs" by (cases e) auto
    show ?thesis
    proof (cases "pump_stopped p")
      case True
      then have "posts o2 = []" "pump_stopped pump" "pump_endSent pump = pump_endSent p"
        using st asked(2) by (auto simp: e pump_defs)
      then show ?thesis unfolding out
        by (intro exI [of _ cs] exI [of _ ends]) (use IH True in \<open>auto simp: e prefix_def\<close>)
    next
      case run: False
      then have p: "posts o2 = [DataMessage handleId bs]" "\<not> pump_stopped pump" "pump_endSent pump = pump_endSent p"
        using st asked(2) by (auto simp: e pump_defs split: if_splits)
      have "\<not> pump_endSent p" using ended IH(6) run by (auto simp: e)
      then show ?thesis unfolding out
        by (intro exI [of _ "cs @ [bs]"] exI [of _ "[]"]) (use IH p run in \<open>auto simp: e\<close>)
    qed
  qed
qed

lemma posts_end_where_sent:
  "pump_from mapError handleId w events = (pump, out) \<Longrightarrow> pump_stopped pump \<Longrightarrow> pump_endSent pump"
proof (induction events arbitrary: pump out rule: rev_induct)
  case (snoc e events)
  obtain p o1 where r: "pump_from mapError handleId w events = (p, o1)" by fastforce
  obtain o2 where "pump_step mapError handleId w e p = (pump, o2)"
    using snoc.prems(1) r by (auto simp: pump_run_snoc split: prod.splits)
  then show ?case using snoc.IH [OF r] snoc.prems(2)
    by (cases e) (auto simp: pump_defs Let_def split: if_splits option.splits js_number.splits)
qed (cases "w = 0"; simp add: createPortPump_def pump_defs)

text \<open>C22. From any moment on, a socket sends its page no more than what the page says it consumed since, plus one window
  and one chunk, however much it claimed before; and a page that reports what it consumed never stalls it: until the
  stream has ended, a read is outstanding exactly while less than a window is unconsumed.\<close>

theorem read_window:
  assumes before: "pump_from mapError handleId w events0 = (pump0, out0)"
    and run: "pump_run mapError handleId w events pump0 = (pump, out)"
    and m: "\<forall>chunk. ReadChunk chunk \<in> set (events0 @ events) \<longrightarrow> length chunk \<le> m"
  shows "of_nat (posted_bytes out) \<le> of_nat w + credited handleId events + of_nat m \<and>
    (honest_credit mapError handleId w events0 \<and> \<not> pump_endSent pump0 \<longrightarrow>
      (pump_running pump0 \<longleftrightarrow> of_nat (posted_bytes out0) - credited handleId events0 < of_nat w))"
proof (intro conjI impI)
  note ok = createPortPump_ok [of w]
  have ok0: "pump_ok w pump0" using pump_run_ok [OF before ok] by simp
  have "- of_nat m \<le> pump_credit (createPortPump w)" by (simp add: createPortPump_def pump_defs)
  then have "- of_nat m \<le> pump_credit pump0" using pump_credit_floor [OF before ok _] m by simp
  then have "- of_nat m \<le> pump_credit pump" using pump_credit_floor [OF run ok0 _] m by simp
  moreover have "pump_credit pump0 \<le> of_nat w" using ok0 by (simp add: pump_ok_def)
  ultimately show "of_nat (posted_bytes out) \<le> of_nat w + credited handleId events + of_nat m"
    using conjunct2 [OF pump_run_ok [OF run ok0]] by linarith
next
  assume h: "honest_credit mapError handleId w events0 \<and> \<not> pump_endSent pump0"
  then have "\<not> pump_stopped pump0" using posts_end_where_sent [OF before] by blast
  then show "pump_running pump0 \<longleftrightarrow> of_nat (posted_bytes out0) - credited handleId events0 < of_nat w"
    using honest_pump [OF before] h by auto
qed

text \<open>C24. The port carries the stream and nothing else: the chunks read, in order and all of them until the relay is
  stopped, then at most one end, which is there as soon as the relay is stopped. (A stream answers one read at a time
  and stays ended.)\<close>

theorem port_carries_the_stream:
  assumes "pump_from mapError handleId w events = (pump, out)"
    and "reads_when_asked mapError handleId w events (createPortPump w)" and "stays_ended events"
  shows "\<exists>cs ends. posts out = map (DataMessage handleId) cs @ ends \<and> prefix cs (chunks events) \<and>
    (\<not> pump_stopped pump \<longrightarrow> cs = chunks events) \<and> length ends = (if pump_endSent pump then 1 else 0) \<and>
    (\<forall>m\<in>set ends. \<exists>code platform. m = StreamEndMessage handleId code platform) \<and>
    (pump_stopped pump \<longrightarrow> pump_endSent pump)"
  using pump_posts [OF assms] by fast

definition sample_pump_events :: "pump_event list" where
  "sample_pump_events = [ReadChunk [1, 2, 3], CreditReport (js ''h'') (Finite 3), ReadChunk [4, 5], ReadDone,
     CreditReport (js ''h'') (Finite 2), ReadDone]"

definition sample_map_error :: "str option \<Rightarrow> error_code" where
  "sample_map_error = (\<lambda>_. E_internal)"

lemma sample_pump_run:
  "pump_from sample_map_error (js ''h'') 4 sample_pump_events =
     (\<lparr>pump_credit = 4, pump_running = False, pump_stopped = False, pump_endSent = True\<rparr>,
      [Post (DataMessage (js ''h'') [1, 2, 3]), Post (DataMessage (js ''h'') [4, 5]),
       Post (StreamEndMessage (js ''h'') None None), OnStreamEnded, OnStreamEnded])"
  by (simp add: sample_pump_events_def createPortPump_def pump_defs)

lemma sample_pump_contract:
  "reads_when_asked sample_map_error (js ''h'') 4 sample_pump_events (createPortPump 4) \<and> stays_ended sample_pump_events"
  by (simp add: sample_pump_events_def createPortPump_def pump_defs)

theorem read_window_witness: "of_nat 5 \<le> of_nat 4 + credited (js ''h'') sample_pump_events + (of_nat 3 :: rat)"
proof -
  have "\<forall>chunk. ReadChunk chunk \<in> set ([] @ sample_pump_events) \<longrightarrow> length chunk \<le> 3" by (auto simp: sample_pump_events_def)
  from conjunct1 [OF read_window [OF _ sample_pump_run this]] show ?thesis by simp
qed

theorem port_carries_the_stream_witness:
  "\<exists>cs ends. [DataMessage (js ''h'') [1, 2, 3], DataMessage (js ''h'') [4, 5], StreamEndMessage (js ''h'') None None] =
     map (DataMessage (js ''h'')) cs @ ends \<and> length ends = 1"
  using port_carries_the_stream [OF sample_pump_run conjunct1 [OF sample_pump_contract] conjunct2 [OF sample_pump_contract]]
  by (elim exE conjE) (intro exI conjI; simp)

text \<open>As \<open>sample_pump_run\<close> shows, credit that arrives after the end of the stream makes the loop read once more, so
  \<open>onStreamEnded\<close> is called a second time.\<close>

end
