(* ===== verification/PortSink.thy ===== *)
theory PortSink imports PortPump begin

section \<open>The write half of a socket relay (port-sink.ts)\<close>

text \<open>
  The byte window the broker grants a page. \<open>queue\<close> holds the length each pending \<open>writer.write()\<close> captured,
  oldest first, which is the order a \<open>WritableStream\<close> settles them in; \<open>heartbeat\<close> means the timer is armed.
  A raw error is the errno \<open>errnoOf\<close> finds on it. The lemmas show that what is outstanding stays inside the
  window, that acknowledged bytes are exactly what was accepted, and that the socket sees the accepted
  chunks in order and one close after all of them.
\<close>

definition MAX_PENDING_WRITES :: nat where "MAX_PENDING_WRITES = 128"

definition WRITABLE_ALREADY_ENDED_CODE :: str where
  "WRITABLE_ALREADY_ENDED_CODE = js ''ORIVON_WRITABLE_ALREADY_ENDED''"

record port_sink =
  unacked :: nat
  sinceLastAck :: nat
  pendingCount :: nat
  sink_stopped :: bool
  sink_ending :: bool
  sink_ended :: bool
  heartbeat :: bool
  queue :: "nat list"

record sink_config =
  sink_handle :: str
  windowBytes :: nat
  sink_mapError :: "str option \<Rightarrow> error_code"

datatype sink_event =
  Write str "nat list"
| WriteEnd str
| WriteAbort str
| Settled
| Rejected "str option"
| CloseRejected "str option"
| Heartbeat
| SinkStop "error_code option"

text \<open>\<open>error\<close> is \<open>None\<close> where the code passes none, and otherwise the errno of the one it passes.\<close>

definition toWriteFailed :: "str \<Rightarrow> error_code \<Rightarrow> str option option \<Rightarrow> broker_message" where
  "toWriteFailed handleId code error =
     (let platformCode = (case error of None \<Rightarrow> None | Some errno \<Rightarrow> errno) in
      if platformCode = None \<or> code = E_denied then WriteFailedMessage handleId code None
      else WriteFailedMessage handleId code platformCode)"

definition isWritableAlreadyEnded :: "str option \<Rightarrow> bool" where
  "isWritableAlreadyEnded errno \<longleftrightarrow> errno = Some WRITABLE_ALREADY_ENDED_CODE"

definition createPortSink :: port_sink where
  "createPortSink = \<lparr>unacked = 0, sinceLastAck = 0, pendingCount = 0, sink_stopped = False, sink_ending = False,
     sink_ended = False, heartbeat = False, queue = []\<rparr>"

definition clearHeartbeat :: "port_sink \<Rightarrow> port_sink" where
  "clearHeartbeat sink = sink\<lparr>heartbeat := False\<rparr>"

definition armHeartbeat :: "port_sink \<Rightarrow> port_sink" where
  "armHeartbeat sink =
     (let sink = clearHeartbeat sink in if pendingCount sink = 0 then sink else sink\<lparr>heartbeat := True\<rparr>)"

definition flush :: "sink_config \<Rightarrow> bool \<Rightarrow> port_sink \<Rightarrow> port_sink \<times> relay_effect list" where
  "flush cfg force sink =
     (if sinceLastAck sink > 0 \<or> force
      then (sink\<lparr>sinceLastAck := 0\<rparr>, [Post (WriteAckMessage (sink_handle cfg) (sinceLastAck sink))])
      else (sink, []))"

definition heartbeat_tick :: "sink_config \<Rightarrow> port_sink \<Rightarrow> port_sink \<times> relay_effect list" where
  "heartbeat_tick cfg sink =
     (if sink_stopped sink \<or> pendingCount sink = 0 then (sink\<lparr>heartbeat := False\<rparr>, [])
      else if sinceLastAck sink > 0
      then (case flush cfg False sink of (sink', out) \<Rightarrow> (armHeartbeat sink', out))
      else (armHeartbeat sink, [Post (WriteAckMessage (sink_handle cfg) 0)]))"

definition sink_fail :: "sink_config \<Rightarrow> error_code \<Rightarrow> str option option \<Rightarrow> bool \<Rightarrow> port_sink \<Rightarrow> port_sink \<times> relay_effect list" where
  "sink_fail cfg code error notifyHandle sink =
     (if sink_stopped sink then (sink, [])
      else (clearHeartbeat (sink\<lparr>sink_stopped := True\<rparr>),
        Post (toWriteFailed (sink_handle cfg) code error) #
        (if notifyHandle then [OnSinkFailed code (case error of None \<Rightarrow> None | Some errno \<Rightarrow> errno)] else [])))"

definition closeWriterOnceDrained :: "port_sink \<Rightarrow> port_sink \<times> relay_effect list" where
  "closeWriterOnceDrained sink =
     (if \<not> sink_ending sink \<or> pendingCount sink > 0 \<or> sink_ended sink then (sink, [])
      else (clearHeartbeat (sink\<lparr>sink_ended := True\<rparr>), [WriterClose, OnEnded]))"

definition handleWrite :: "sink_config \<Rightarrow> str \<Rightarrow> nat list \<Rightarrow> port_sink \<Rightarrow> port_sink \<times> relay_effect list" where
  "handleWrite cfg handle chunk sink =
     (if sink_stopped sink \<or> handle \<noteq> sink_handle cfg then (sink, [])
      else if sink_ending sink \<or> sink_ended sink then (sink, [Post (toWriteFailed (sink_handle cfg) E_closed None)])
      else let len = length chunk in
      if unacked sink + len > windowBytes cfg \<or> pendingCount sink \<ge> MAX_PENDING_WRITES
      then sink_fail cfg E_limit None True sink
      else (armHeartbeat (sink\<lparr>unacked := unacked sink + len, pendingCount := pendingCount sink + 1, queue := queue sink @ [len]\<rparr>),
            [WriterWrite chunk]))"

definition write_settled :: "sink_config \<Rightarrow> port_sink \<Rightarrow> port_sink \<times> relay_effect list" where
  "write_settled cfg sink =
     (let len = hd (queue sink); sink = sink\<lparr>queue := tl (queue sink)\<rparr> in
      if sink_stopped sink then (sink, [])
      else let sink = sink\<lparr>unacked := unacked sink - len, sinceLastAck := sinceLastAck sink + len,
                           pendingCount := pendingCount sink - 1\<rparr>;
               (sink, acks) = (if sinceLastAck sink \<ge> CREDIT_COALESCE_BYTES \<or> pendingCount sink = 0
                               then flush cfg (pendingCount sink = 0) sink else (sink, []));
               sink = armHeartbeat sink;
               (sink, close) = (if pendingCount sink = 0 then closeWriterOnceDrained sink else (sink, []))
           in (sink, acks @ close))"

definition write_rejected :: "sink_config \<Rightarrow> str option \<Rightarrow> port_sink \<Rightarrow> port_sink \<times> relay_effect list" where
  "write_rejected cfg errno sink =
     (let sink = sink\<lparr>queue := tl (queue sink)\<rparr> in
      if sink_stopped sink then (sink, [])
      else let sink = sink\<lparr>pendingCount := pendingCount sink - 1\<rparr> in
        if isWritableAlreadyEnded errno then sink_fail cfg E_closed None False sink
        else sink_fail cfg (sink_mapError cfg errno) (Some errno) True sink)"

definition handleEnd :: "sink_config \<Rightarrow> str \<Rightarrow> port_sink \<Rightarrow> port_sink \<times> relay_effect list" where
  "handleEnd cfg handle sink =
     (if sink_stopped sink \<or> sink_ending sink \<or> sink_ended sink \<or> handle \<noteq> sink_handle cfg then (sink, [])
      else closeWriterOnceDrained (sink\<lparr>sink_ending := True\<rparr>))"

text \<open>The reason of an abort is an \<open>Error\<close> without a code.\<close>

definition handleAbort :: "sink_config \<Rightarrow> str \<Rightarrow> port_sink \<Rightarrow> port_sink \<times> relay_effect list" where
  "handleAbort cfg handle sink =
     (if sink_stopped sink \<or> handle \<noteq> sink_handle cfg then (sink, [])
      else (case sink_fail cfg E_reset (Some None) False sink of (sink', out) \<Rightarrow> (sink', out @ [OnAbort, WriterAbort])))"

definition sink_stop :: "sink_config \<Rightarrow> error_code option \<Rightarrow> port_sink \<Rightarrow> port_sink \<times> relay_effect list" where
  "sink_stop cfg code sink =
     (if sink_stopped sink then (sink, [])
      else (clearHeartbeat (sink\<lparr>sink_stopped := True\<rparr>),
        case code of
          Some c \<Rightarrow> if pendingCount sink > 0 then [Post (toWriteFailed (sink_handle cfg) c None)] else []
        | None \<Rightarrow> []))"

text \<open>A write settles only while one is pending, \<open>close()\<close> only after it was called, and the timer only while armed.\<close>

fun sink_step :: "sink_config \<Rightarrow> sink_event \<Rightarrow> port_sink \<Rightarrow> port_sink \<times> relay_effect list" where
  "sink_step cfg (Write handle chunk) sink = handleWrite cfg handle chunk sink"
| "sink_step cfg (WriteEnd handle) sink = handleEnd cfg handle sink"
| "sink_step cfg (WriteAbort handle) sink = handleAbort cfg handle sink"
| "sink_step cfg Settled sink = (if queue sink = [] then (sink, []) else write_settled cfg sink)"
| "sink_step cfg (Rejected errno) sink = (if queue sink = [] then (sink, []) else write_rejected cfg errno sink)"
| "sink_step cfg (CloseRejected errno) sink =
     (if sink_ended sink then (sink, [Post (toWriteFailed (sink_handle cfg) (sink_mapError cfg errno) (Some errno))]) else (sink, []))"
| "sink_step cfg Heartbeat sink = (if heartbeat sink then heartbeat_tick cfg sink else (sink, []))"
| "sink_step cfg (SinkStop code) sink = sink_stop cfg code sink"

fun sink_run :: "sink_config \<Rightarrow> sink_event list \<Rightarrow> port_sink \<Rightarrow> port_sink \<times> relay_effect list" where
  "sink_run cfg [] sink = (sink, [])"
| "sink_run cfg (e # events) sink =
     (case sink_step cfg e sink of
        (sink', out) \<Rightarrow> (case sink_run cfg events sink' of (sink'', out') \<Rightarrow> (sink'', out @ out')))"

named_theorems sink_defs
lemmas [sink_defs] = clearHeartbeat_def armHeartbeat_def flush_def heartbeat_tick_def sink_fail_def
  closeWriterOnceDrained_def handleWrite_def write_settled_def write_rejected_def handleEnd_def handleAbort_def sink_stop_def

lemma sink_run_snoc:
  "sink_run cfg (es @ [e]) sink =
     (case sink_run cfg es sink of (sink', out) \<Rightarrow>
        (case sink_step cfg e sink' of (sink'', out') \<Rightarrow> (sink'', out @ out')))"
  by (induction es arbitrary: sink) (auto split: prod.splits)

section \<open>The window\<close>

definition accepted_bytes :: "relay_effect list \<Rightarrow> nat" where
  "accepted_bytes out = sum_list (map (\<lambda>x. case x of WriterWrite bs \<Rightarrow> length bs | _ \<Rightarrow> 0) out)"

definition acked_bytes :: "relay_effect list \<Rightarrow> nat" where
  "acked_bytes out = sum_list (map (\<lambda>x. case x of Post (WriteAckMessage _ n) \<Rightarrow> n | _ \<Rightarrow> 0) out)"

lemma sums_simps [simp]:
  "accepted_bytes [] = 0" "accepted_bytes (x # out) = (case x of WriterWrite bs \<Rightarrow> length bs | _ \<Rightarrow> 0) + accepted_bytes out"
  "accepted_bytes (out @ out') = accepted_bytes out + accepted_bytes out'"
  "acked_bytes [] = 0" "acked_bytes (x # out) = (case x of Post (WriteAckMessage _ n) \<Rightarrow> n | _ \<Rightarrow> 0) + acked_bytes out"
  "acked_bytes (out @ out') = acked_bytes out + acked_bytes out'"
  by (simp_all add: accepted_bytes_def acked_bytes_def)

definition sink_ok :: "sink_config \<Rightarrow> port_sink \<Rightarrow> bool" where
  "sink_ok cfg sink \<longleftrightarrow> (sink_ended sink \<longrightarrow> sink_ending sink) \<and> (\<not> sink_stopped sink \<longrightarrow>
     unacked sink = sum_list (queue sink) \<and> pendingCount sink = length (queue sink) \<and>
     unacked sink \<le> windowBytes cfg \<and> pendingCount sink \<le> MAX_PENDING_WRITES \<and>
     (pendingCount sink = 0 \<longrightarrow> sinceLastAck sink = 0) \<and> (heartbeat sink \<longleftrightarrow> pendingCount sink > 0) \<and>
     (sink_ending sink \<longrightarrow> (sink_ended sink \<longleftrightarrow> queue sink = [])))"

lemma createPortSink_ok: "sink_ok cfg createPortSink"
  by (simp add: createPortSink_def sink_ok_def)

lemma toWriteFailed_is: "\<exists>code' platform. toWriteFailed h code error = WriteFailedMessage h code' platform"
  by (simp add: toWriteFailed_def Let_def)

lemma toWriteFailed_no_ack [simp]: "(case toWriteFailed h code error of WriteAckMessage _ n \<Rightarrow> n | _ \<Rightarrow> 0) = (0::nat)"
  by (simp add: toWriteFailed_def Let_def)

lemma flush_ok:
  "flush cfg force sink = (sink', out) \<Longrightarrow> (force \<longrightarrow> sinceLastAck sink' = 0) \<and> accepted_bytes out = 0 \<and>
     acked_bytes out + sinceLastAck sink' = sinceLastAck sink \<and> sink' = sink\<lparr>sinceLastAck := sinceLastAck sink'\<rparr>"
  by (auto simp: flush_def split: if_splits)

text \<open>What settling the oldest write does, in one piece.\<close>

lemma write_settled_live:
  assumes "\<not> sink_stopped sink" and "queue sink = n # q"
  shows "write_settled cfg sink =
    (let p = pendingCount sink - 1; s = sinceLastAck sink + n; ack = (s \<ge> CREDIT_COALESCE_BYTES \<or> p = 0);
         fin = (p = 0 \<and> sink_ending sink \<and> \<not> sink_ended sink) in
     (sink\<lparr>queue := q, unacked := unacked sink - n, pendingCount := p, sinceLastAck := if ack then 0 else s,
        heartbeat := p > 0, sink_ended := sink_ended sink \<or> fin\<rparr>,
      (if ack then [Post (WriteAckMessage (sink_handle cfg) s)] else []) @ (if fin then [WriterClose, OnEnded] else [])))"
proof -
  have c: "CREDIT_COALESCE_BYTES > 0" by (simp add: CREDIT_COALESCE_BYTES_def)
  show ?thesis
  proof (cases "sinceLastAck sink + n \<ge> CREDIT_COALESCE_BYTES \<or> pendingCount sink - 1 = 0")
    case True
    have f: "flush cfg (pendingCount sink - 1 = 0)
        (sink\<lparr>queue := q, unacked := unacked sink - n, sinceLastAck := sinceLastAck sink + n, pendingCount := pendingCount sink - 1\<rparr>) =
      (sink\<lparr>queue := q, unacked := unacked sink - n, sinceLastAck := 0, pendingCount := pendingCount sink - 1\<rparr>,
       [Post (WriteAckMessage (sink_handle cfg) (sinceLastAck sink + n))])"
      using True c by (auto simp: flush_def)
    show ?thesis using assms True f
      by (cases "pendingCount sink - 1 = 0"; cases sink)
        (auto simp add: write_settled_def armHeartbeat_def clearHeartbeat_def closeWriterOnceDrained_def Let_def)
  next
    case False
    then show ?thesis using assms
      by (simp add: write_settled_def armHeartbeat_def clearHeartbeat_def Let_def)
  qed
qed

lemma write_settled_stopped:
  "sink_stopped sink \<Longrightarrow> write_settled cfg sink = (sink\<lparr>queue := tl (queue sink)\<rparr>, [])"
  by (simp add: write_settled_def Let_def)

lemma settled_ok:
  assumes "sink_ok cfg sink" and "queue sink \<noteq> []" and st: "write_settled cfg sink = (sink', out)"
  shows "sink_ok cfg sink'" and "accepted_bytes out = 0"
    and "\<not> sink_stopped sink' \<Longrightarrow> acked_bytes out + sinceLastAck sink' + unacked sink' = sinceLastAck sink + unacked sink"
proof -
  obtain n q where q: "queue sink = n # q" using assms(2) by (cases "queue sink") auto
  have "sink_ok cfg sink' \<and> accepted_bytes out = 0 \<and>
    (\<not> sink_stopped sink' \<longrightarrow> acked_bytes out + sinceLastAck sink' + unacked sink' = sinceLastAck sink + unacked sink)"
  proof (cases "sink_stopped sink")
    case True
    then show ?thesis using assms(1) st [unfolded write_settled_stopped [OF True]] q by (auto simp: sink_ok_def)
  next
    case False
    have p: "pendingCount sink = Suc (length q)" "unacked sink = n + sum_list q" and more:
      "unacked sink \<le> windowBytes cfg" "pendingCount sink \<le> MAX_PENDING_WRITES" "sink_ending sink \<longrightarrow> \<not> sink_ended sink"
      "sink_ended sink \<longrightarrow> sink_ending sink"
      using assms(1) False q by (simp_all add: sink_ok_def)
    let ?ack = "sinceLastAck sink + n \<ge> CREDIT_COALESCE_BYTES \<or> q = []" and ?fin = "q = [] \<and> sink_ending sink \<and> \<not> sink_ended sink"
    have s': "sink' = sink\<lparr>queue := q, unacked := sum_list q, pendingCount := length q,
        sinceLastAck := if ?ack then 0 else sinceLastAck sink + n, heartbeat := q \<noteq> [], sink_ended := sink_ended sink \<or> ?fin\<rparr>"
      and out: "out = (if ?ack then [Post (WriteAckMessage (sink_handle cfg) (sinceLastAck sink + n))] else []) @
        (if ?fin then [WriterClose, OnEnded] else [])"
      using st [unfolded write_settled_live [OF False q]] p by (simp_all add: Let_def)
    have "sink_ok cfg sink'" unfolding s' using more p assms(1) False q by (auto simp: sink_ok_def)
    moreover have "accepted_bytes out = 0" unfolding out by simp
    moreover have "acked_bytes out + sinceLastAck sink' = sinceLastAck sink + n" unfolding out s' by simp
    ultimately show ?thesis using p(2) by (simp add: s')
  qed
  then show "sink_ok cfg sink'" "accepted_bytes out = 0"
    "\<not> sink_stopped sink' \<Longrightarrow> acked_bytes out + sinceLastAck sink' + unacked sink' = sinceLastAck sink + unacked sink"
    by simp_all
qed

lemma handleWrite_cases:
  assumes "handleWrite cfg h bs sink = (sink', out)"
  obtains (ignored) "sink' = sink" "out = []" "sink_stopped sink \<or> h \<noteq> sink_handle cfg"
    | (late) "sink' = sink" "out = [Post (toWriteFailed (sink_handle cfg) E_closed None)]" "sink_ending sink \<or> sink_ended sink" "\<not> sink_stopped sink"
    | (refused) "sink' = sink\<lparr>sink_stopped := True, heartbeat := False\<rparr>" "\<not> sink_stopped sink"
        "out = [Post (toWriteFailed (sink_handle cfg) E_limit None), OnSinkFailed E_limit None]"
    | (accepted) "sink' = sink\<lparr>unacked := unacked sink + length bs, pendingCount := Suc (pendingCount sink),
          queue := queue sink @ [length bs], heartbeat := True\<rparr>" "out = [WriterWrite bs]"
        "\<not> sink_stopped sink" "h = sink_handle cfg" "\<not> sink_ending sink" "\<not> sink_ended sink"
        "unacked sink + length bs \<le> windowBytes cfg" "pendingCount sink < MAX_PENDING_WRITES"
proof -
  consider "sink_stopped sink \<or> h \<noteq> sink_handle cfg" | "\<not> sink_stopped sink" "h = sink_handle cfg" "sink_ending sink \<or> sink_ended sink"
    | "\<not> sink_stopped sink" "h = sink_handle cfg" "\<not> sink_ending sink" "\<not> sink_ended sink"
      "unacked sink + length bs > windowBytes cfg \<or> pendingCount sink \<ge> MAX_PENDING_WRITES"
    | "\<not> sink_stopped sink" "h = sink_handle cfg" "\<not> sink_ending sink" "\<not> sink_ended sink"
      "unacked sink + length bs \<le> windowBytes cfg" "pendingCount sink < MAX_PENDING_WRITES"
    by linarith
  then show thesis
  proof cases
    case 1
    then show thesis using assms by (intro ignored) (auto simp: handleWrite_def)
  next
    case 2
    then show thesis using assms by (intro late) (auto simp: handleWrite_def)
  next
    case 3
    then show thesis using assms by (intro refused) (auto simp: handleWrite_def sink_fail_def clearHeartbeat_def Let_def)
  next
    case 4
    then have "handleWrite cfg h bs sink = (sink\<lparr>unacked := unacked sink + length bs, pendingCount := Suc (pendingCount sink),
          queue := queue sink @ [length bs], heartbeat := True\<rparr>, [WriterWrite bs])"
      by (simp add: handleWrite_def armHeartbeat_def clearHeartbeat_def Let_def)
    then show thesis using assms 4 by (intro accepted) simp_all
  qed
qed

lemma sink_fail_eq:
  "sink_fail cfg code error notify sink =
     (if sink_stopped sink then (sink, []) else (sink\<lparr>sink_stopped := True, heartbeat := False\<rparr>,
        Post (toWriteFailed (sink_handle cfg) code error) #
        (if notify then [OnSinkFailed code (case error of None \<Rightarrow> None | Some errno \<Rightarrow> errno)] else [])))"
  by (simp add: sink_fail_def clearHeartbeat_def)

lemma sink_step_ok:
  assumes "sink_ok cfg sink" and "sink_step cfg e sink = (sink', out)"
  shows "sink_ok cfg sink' \<and> (\<not> sink_stopped sink' \<longrightarrow> \<not> sink_stopped sink \<and>
    acked_bytes out + sinceLastAck sink' + unacked sink' = sinceLastAck sink + unacked sink + accepted_bytes out)"
proof (cases e)
  case Settled
  have "sink_stopped sink \<Longrightarrow> sink_stopped sink'"
    using assms(2) Settled by (auto simp: write_settled_stopped split: if_splits)
  then show ?thesis using assms Settled settled_ok [OF assms(1)] by (auto split: if_splits)
next
  case (Write h bs)
  then have "handleWrite cfg h bs sink = (sink', out)" using assms(2) by simp
  then show ?thesis
    by (cases rule: handleWrite_cases) (use assms(1) Write in \<open>auto simp: sink_ok_def\<close>)
next
  case (Rejected errno)
  then show ?thesis using assms
    by (auto simp: write_rejected_def sink_fail_def clearHeartbeat_def sink_ok_def Let_def split: if_splits)
next
  case Heartbeat
  then show ?thesis using assms
    by (auto simp: heartbeat_tick_def flush_def armHeartbeat_def clearHeartbeat_def sink_ok_def Let_def split: if_splits)
next
  case (WriteEnd h)
  then show ?thesis using assms
    by (auto simp: handleEnd_def closeWriterOnceDrained_def clearHeartbeat_def sink_ok_def split: if_splits)
next
  case (WriteAbort h)
  show ?thesis
  proof (cases "sink_stopped sink \<or> h \<noteq> sink_handle cfg")
    case True
    then have "sink' = sink" "out = []" using assms(2) WriteAbort by (auto simp: handleAbort_def)
    then show ?thesis using assms(1) WriteAbort by simp
  next
    case False
    then have "sink' = sink\<lparr>sink_stopped := True, heartbeat := False\<rparr>"
      "out = [Post (toWriteFailed (sink_handle cfg) E_reset (Some None)), OnAbort, WriterAbort]"
      using assms(2) WriteAbort by (auto simp: handleAbort_def sink_fail_eq)
    then show ?thesis using assms False by (simp add: sink_ok_def)
  qed
next
  case (CloseRejected errno)
  then show ?thesis using assms by (auto split: if_splits)
next
  case (SinkStop code)
  then show ?thesis using assms by (auto simp: sink_stop_def clearHeartbeat_def sink_ok_def split: if_splits)
qed

lemma sink_run_ok:
  assumes "sink_run cfg events createPortSink = (sink, out)"
  shows "sink_ok cfg sink \<and> (\<not> sink_stopped sink \<longrightarrow> acked_bytes out + sinceLastAck sink + unacked sink = accepted_bytes out)"
  using assms
proof (induction events arbitrary: sink out rule: rev_induct)
  case Nil
  then show ?case using createPortSink_ok [of cfg] by (auto simp: createPortSink_def)
next
  case (snoc e events)
  obtain p o1 where r: "sink_run cfg events createPortSink = (p, o1)" by fastforce
  obtain o2 where st: "sink_step cfg e p = (sink, o2)" and out: "out = o1 @ o2"
    using snoc.prems r by (auto simp: sink_run_snoc split: prod.splits)
  show ?case using sink_step_ok [OF conjunct1 [OF snoc.IH [OF r]] st] snoc.IH [OF r] by (auto simp: out)
qed

section \<open>What the socket sees\<close>

fun to_writer :: "relay_effect list \<Rightarrow> relay_effect list" where
  "to_writer [] = []"
| "to_writer (x # out) = (case x of WriterWrite _ \<Rightarrow> [x] | WriterClose \<Rightarrow> [x] | WriterAbort \<Rightarrow> [x] | _ \<Rightarrow> []) @ to_writer out"

lemma to_writer_append [simp]: "to_writer (out @ out') = to_writer out @ to_writer out'"
  by (induction out) auto

fun written :: "str \<Rightarrow> sink_event list \<Rightarrow> nat list list" where
  "written h [] = []"
| "written h (Write h' bs # es) = (if h' = h then [bs] else []) @ written h es"
| "written h (_ # es) = written h es"

lemma written_append [simp]: "written h (es @ es2) = written h es @ written h es2"
  by (induction h es rule: written.induct) auto

lemma to_writer_Post [simp]: "to_writer (Post m # out) = to_writer out"
  by simp

lemma flush_writer: "flush cfg force sink = (sink', out) \<Longrightarrow> to_writer out = []"
  by (auto simp: flush_def split: if_splits)

definition fin_of :: "port_sink \<Rightarrow> bool \<Rightarrow> relay_effect list" where
  "fin_of sink aborted = (if sink_ended sink then [WriterClose] else []) @ (if aborted then [WriterAbort] else [])"

lemma sink_step_writer:
  assumes "sink_ok cfg sink" and "sink_ended sink \<longrightarrow> queue sink = []" and st: "sink_step cfg e sink = (sink', out)"
  shows "(sink_ended sink' \<longrightarrow> queue sink' = []) \<and> (sink_stopped sink \<longrightarrow> sink_stopped sink' \<and> to_writer out = []) \<and>
    (sink_ended sink \<longrightarrow> sink_ended sink') \<and> (sink_ending sink \<longrightarrow> sink_ending sink') \<and>
    (to_writer out = [] \<and> sink_ended sink' = sink_ended sink \<and>
       (\<not> sink_stopped sink' \<and> \<not> sink_ending sink' \<longrightarrow> written (sink_handle cfg) [e] = []) \<or>
     \<not> sink_ended sink \<and> \<not> sink_ending sink \<and> \<not> sink_ended sink' \<and> (\<exists>bs. to_writer out = [WriterWrite bs] \<and> written (sink_handle cfg) [e] = [bs]) \<or>
     \<not> sink_ended sink \<and> sink_ended sink' \<and> \<not> sink_stopped sink' \<and> to_writer out = [WriterClose] \<or>
     sink_stopped sink' \<and> sink_ended sink' = sink_ended sink \<and> to_writer out = [WriterAbort])"
proof (cases e)
  case Settled
  show ?thesis
  proof (cases "queue sink")
    case Nil
    then show ?thesis using st Settled assms(2) by simp
  next
    case (Cons n q)
    then have ended: "\<not> sink_ended sink" using assms(2) by auto
    show ?thesis
    proof (cases "sink_stopped sink")
      case True
      then show ?thesis using st Settled Cons ended by (auto simp: write_settled_stopped)
    next
      case False
      then have "pendingCount sink = Suc (length q)" using assms(1) Cons by (simp add: sink_ok_def)
      then show ?thesis using st Settled Cons ended False
        by (auto simp: write_settled_live [OF False Cons] Let_def split: if_splits)
    qed
  qed
next
  case (Write h bs)
  then have "handleWrite cfg h bs sink = (sink', out)" using st by simp
  then show ?thesis
    by (cases rule: handleWrite_cases) (use assms(1,2) Write in \<open>auto simp: sink_ok_def\<close>)
next
  case (Rejected errno)
  then show ?thesis using assms
    by (auto simp: write_rejected_def sink_fail_def clearHeartbeat_def sink_ok_def Let_def split: if_splits)
next
  case Heartbeat
  then show ?thesis using assms
    by (auto simp: heartbeat_tick_def flush_def armHeartbeat_def clearHeartbeat_def sink_ok_def Let_def split: if_splits)
next
  case (WriteEnd h)
  then show ?thesis using assms
    by (auto simp: handleEnd_def closeWriterOnceDrained_def clearHeartbeat_def sink_ok_def split: if_splits)
next
  case (WriteAbort h)
  show ?thesis
  proof (cases "sink_stopped sink \<or> h \<noteq> sink_handle cfg")
    case True
    then have "sink' = sink" "out = []" using assms(3) WriteAbort by (auto simp: handleAbort_def)
    then show ?thesis using assms(1,2) WriteAbort by simp
  next
    case False
    then have "sink' = sink\<lparr>sink_stopped := True, heartbeat := False\<rparr>"
      "out = [Post (toWriteFailed (sink_handle cfg) E_reset (Some None)), OnAbort, WriterAbort]"
      using assms(3) WriteAbort by (auto simp: handleAbort_def sink_fail_eq)
    then show ?thesis using assms False by (simp add: sink_ok_def)
  qed
next
  case (CloseRejected errno)
  then show ?thesis using assms by (auto split: if_splits)
next
  case (SinkStop code)
  then show ?thesis using assms by (auto simp: sink_stop_def clearHeartbeat_def sink_ok_def split: if_splits option.splits)
qed

lemma sink_writer:
  assumes "sink_run cfg events createPortSink = (sink, out)"
  shows "(sink_ended sink \<longrightarrow> queue sink = []) \<and> (\<exists>cs aborted. to_writer out = map WriterWrite cs @ fin_of sink aborted \<and>
    prefix cs (written (sink_handle cfg) events) \<and> (aborted \<longrightarrow> sink_stopped sink) \<and>
    (\<not> sink_stopped sink \<and> \<not> sink_ending sink \<longrightarrow> cs = written (sink_handle cfg) events))"
  using assms
proof (induction events arbitrary: sink out rule: rev_induct)
  case Nil
  then show ?case by (auto simp: createPortSink_def fin_of_def intro: exI [of _ "[]"] exI [of _ False])
next
  case (snoc e events)
  obtain p o1 where r: "sink_run cfg events createPortSink = (p, o1)" by fastforce
  obtain o2 where st: "sink_step cfg e p = (sink, o2)" and out: "out = o1 @ o2"
    using snoc.prems r by (auto simp: sink_run_snoc split: prod.splits)
  obtain cs aborted where IH: "sink_ended p \<longrightarrow> queue p = []" "to_writer o1 = map WriterWrite cs @ fin_of p aborted"
    "prefix cs (written (sink_handle cfg) events)" "aborted \<longrightarrow> sink_stopped p"
    "\<not> sink_stopped p \<and> \<not> sink_ending p \<longrightarrow> cs = written (sink_handle cfg) events"
    using snoc.IH [OF r] by (elim exE conjE)
  have ok: "sink_ok cfg p" using sink_run_ok [OF r] by simp
  note step = sink_step_writer [OF ok IH(1) st]
  have ended: "sink_ended sink \<longrightarrow> queue sink = []" and stop: "sink_stopped p \<longrightarrow> sink_stopped sink \<and> to_writer o2 = []"
    and mono: "sink_ended p \<longrightarrow> sink_ended sink" "sink_ending p \<longrightarrow> sink_ending sink"
    using step by blast+
  have pre: "prefix cs (written (sink_handle cfg) (events @ [e]))" using IH(3) by (simp add: prefix_def) auto
  let ?goal = "\<exists>cs aborted. to_writer out = map WriterWrite cs @ fin_of sink aborted \<and>
    prefix cs (written (sink_handle cfg) (events @ [e])) \<and> (aborted \<longrightarrow> sink_stopped sink) \<and>
    (\<not> sink_stopped sink \<and> \<not> sink_ending sink \<longrightarrow> cs = written (sink_handle cfg) (events @ [e]))"
  consider (none) "to_writer o2 = []" "sink_ended sink = sink_ended p"
      "\<not> sink_stopped sink \<and> \<not> sink_ending sink \<longrightarrow> written (sink_handle cfg) [e] = []"
    | (accept) bs where "\<not> sink_ended p" "\<not> sink_ending p" "\<not> sink_ended sink" "to_writer o2 = [WriterWrite bs]" "written (sink_handle cfg) [e] = [bs]"
    | (close) "\<not> sink_ended p" "sink_ended sink" "\<not> sink_stopped sink" "to_writer o2 = [WriterClose]"
    | (abort) "sink_stopped sink" "sink_ended sink = sink_ended p" "to_writer o2 = [WriterAbort]"
    using step by blast
  then have ?goal
  proof cases
    case none
    then show ?thesis using IH stop mono pre
      by (intro exI [of _ cs] exI [of _ aborted]) (auto simp: out fin_of_def)
  next
    case accept
    then have "\<not> aborted" "\<not> sink_stopped p" using IH(4) stop by auto
    then show ?thesis using IH accept
      by (intro exI [of _ "cs @ [bs]"] exI [of _ False]) (auto simp: out fin_of_def)
  next
    case close
    then have "\<not> aborted" "\<not> sink_stopped p" using IH(4) stop by auto
    moreover have "sink_ending sink" using sink_run_ok [OF snoc.prems] close by (simp add: sink_ok_def)
    ultimately show ?thesis using IH close pre
      by (intro exI [of _ cs] exI [of _ False]) (auto simp: out fin_of_def)
  next
    case abort
    then have "\<not> aborted" using IH(4) stop by auto
    then show ?thesis using IH abort pre
      by (intro exI [of _ cs] exI [of _ True]) (auto simp: out fin_of_def)
  qed
  with ended show ?case by blast
qed

text \<open>C29. What a page writes is bounded and fully accounted for: while a sink is not stopped at most the window and at
  most 128 writes are outstanding, every accepted byte is acknowledged, waiting to be, or outstanding, nothing is left
  unacknowledged once nothing is outstanding, and the heartbeat runs exactly while something is.\<close>

theorem write_window:
  assumes "sink_run cfg events createPortSink = (sink, out)" and "\<not> sink_stopped sink"
  shows "sum_list (queue sink) \<le> windowBytes cfg \<and> length (queue sink) \<le> MAX_PENDING_WRITES \<and>
    acked_bytes out + sinceLastAck sink + sum_list (queue sink) = accepted_bytes out \<and>
    (queue sink = [] \<longrightarrow> acked_bytes out = accepted_bytes out) \<and> (heartbeat sink \<longleftrightarrow> queue sink \<noteq> [])"
  using sink_run_ok [OF assms(1)] assms(2) by (auto simp: sink_ok_def)

text \<open>Only the page's own abort aborts the writer.\<close>

lemma sink_abort_step:
  assumes "sink_step cfg e sink = (sink', out)" and "WriterAbort \<in> set out"
  shows "e = WriteAbort (sink_handle cfg)"
  using assms by (cases e) (auto simp: sink_defs Let_def split: if_splits prod.splits)

lemma sink_abort_run:
  "sink_run cfg events sink = (sink', out) \<Longrightarrow> WriterAbort \<in> set out \<Longrightarrow> WriteAbort (sink_handle cfg) \<in> set events"
proof (induction events arbitrary: sink out)
  case (Cons e events)
  obtain p o1 o2 where step: "sink_step cfg e sink = (p, o1)" "sink_run cfg events p = (sink', o2)" "out = o1 @ o2"
    using Cons.prems(1) by (auto split: prod.splits)
  from Cons.prems(2) step(3) consider "WriterAbort \<in> set o1" | "WriterAbort \<in> set o2" by auto
  then show ?case using sink_abort_step [OF step(1)] Cons.IH [OF step(2)] by cases auto
qed simp

lemma to_writer_subset: "set (to_writer out) \<subseteq> set out"
  by (induction out) (auto split: relay_effect.splits)

text \<open>C33. The socket sees what the page wrote, in order, then at most one close, and last at most one abort. The writes
  are a prefix of the chunks the page sent, all of them while it neither ended nor was stopped. The close comes after the
  end was asked for and every write has settled, and as soon as that is so, unless the sink was stopped. The abort is the
  page's own, and stops the sink; a page that ends and then aborts gives the socket both. No write follows either.\<close>

theorem socket_sees_the_writes_then_one_close:
  assumes "sink_run cfg events createPortSink = (sink, out)"
  shows "\<exists>cs aborted. to_writer out = map WriterWrite cs @ (if sink_ended sink then [WriterClose] else []) @
      (if aborted then [WriterAbort] else []) \<and>
    prefix cs (written (sink_handle cfg) events) \<and>
    (aborted \<longrightarrow> sink_stopped sink \<and> WriteAbort (sink_handle cfg) \<in> set events) \<and>
    (\<not> sink_stopped sink \<longrightarrow> \<not> aborted \<and> (\<not> sink_ending sink \<longrightarrow> cs = written (sink_handle cfg) events) \<and>
      (sink_ending sink \<longrightarrow> (sink_ended sink \<longleftrightarrow> queue sink = []))) \<and>
    (sink_ended sink \<longrightarrow> sink_ending sink \<and> queue sink = [])"
proof -
  obtain cs aborted where w: "sink_ended sink \<longrightarrow> queue sink = []" "to_writer out = map WriterWrite cs @ fin_of sink aborted"
    "prefix cs (written (sink_handle cfg) events)" "aborted \<longrightarrow> sink_stopped sink"
    "\<not> sink_stopped sink \<and> \<not> sink_ending sink \<longrightarrow> cs = written (sink_handle cfg) events"
    using sink_writer [OF assms] by (elim exE conjE)
  have ok: "sink_ok cfg sink" using sink_run_ok [OF assms] by simp
  have "WriterAbort \<in> set out" if aborted
    using that w(2) to_writer_subset [of out] by (auto simp: fin_of_def)
  then have own: "aborted \<longrightarrow> sink_stopped sink \<and> WriteAbort (sink_handle cfg) \<in> set events"
    using sink_abort_run [OF assms] w(4) by blast
  show ?thesis
  proof (intro exI [of _ cs] exI [of _ aborted] conjI)
    show "to_writer out = map WriterWrite cs @ (if sink_ended sink then [WriterClose] else []) @
        (if aborted then [WriterAbort] else [])" using w(2) by (simp add: fin_of_def)
    show "\<not> sink_stopped sink \<longrightarrow> \<not> aborted \<and> (\<not> sink_ending sink \<longrightarrow> cs = written (sink_handle cfg) events) \<and>
        (sink_ending sink \<longrightarrow> (sink_ended sink \<longleftrightarrow> queue sink = []))" using w(4,5) ok unfolding sink_ok_def by blast
    show "sink_ended sink \<longrightarrow> sink_ending sink \<and> queue sink = []" using w(1) ok by (simp add: sink_ok_def)
  qed (rule w(3), rule own)
qed

definition sample_sink :: sink_config where
  "sample_sink = \<lparr>sink_handle = js ''h'', windowBytes = 8, sink_mapError = (\<lambda>_. E_internal)\<rparr>"

lemma sample_sink_run:
  "sink_run sample_sink [Write (js ''h'') [1, 2, 3], Write (js ''h'') [4], Settled] createPortSink =
     (\<lparr>unacked = 1, sinceLastAck = 3, pendingCount = 1, sink_stopped = False, sink_ending = False, sink_ended = False,
       heartbeat = True, queue = [1]\<rparr>, [WriterWrite [1, 2, 3], WriterWrite [4]])"
  by (simp add: sample_sink_def createPortSink_def sink_defs MAX_PENDING_WRITES_def CREDIT_COALESCE_BYTES_def)

theorem write_window_witness: "acked_bytes [WriterWrite [1, 2, 3], WriterWrite [4]] + 3 + sum_list [1] = (4 :: nat)"
  using write_window [OF sample_sink_run] by simp

text \<open>A page that writes twice, ends, and aborts once both writes have settled.\<close>

definition sample_ending :: "sink_event list" where
  "sample_ending = [Write (js ''h'') [1, 2, 3], Write (js ''h'') [4], WriteEnd (js ''h''), Settled, Settled, WriteAbort (js ''h'')]"

definition sample_ending_out :: "relay_effect list" where
  "sample_ending_out = snd (sink_run sample_sink sample_ending createPortSink)"

lemma sample_sink_ends:
  "sink_run sample_sink sample_ending createPortSink =
     (\<lparr>unacked = 0, sinceLastAck = 0, pendingCount = 0, sink_stopped = True, sink_ending = True, sink_ended = True,
       heartbeat = False, queue = []\<rparr>, sample_ending_out)"
  by (simp add: sample_ending_out_def sample_ending_def sample_sink_def createPortSink_def sink_defs MAX_PENDING_WRITES_def
      CREDIT_COALESCE_BYTES_def)

theorem socket_sees_the_writes_then_one_close_witness:
  "\<exists>cs last_abort. to_writer sample_ending_out = map WriterWrite cs @ [WriterClose] @ last_abort \<and>
     prefix cs (written (js ''h'') sample_ending) \<and> last_abort \<in> {[], [WriterAbort]}"
proof -
  have h: "sink_handle sample_sink = js ''h''" by (simp add: sample_sink_def)
  obtain cs aborted where "to_writer sample_ending_out = map WriterWrite cs @ [WriterClose] @ (if aborted then [WriterAbort] else [])"
    "prefix cs (written (js ''h'') sample_ending)"
    using socket_sees_the_writes_then_one_close [OF sample_sink_ends] unfolding h by (auto simp del: list.map)
  then show ?thesis by (intro exI [of _ cs] exI [of _ "if aborted then [WriterAbort] else []"]) simp
qed

end
