(* ===== verification/SocketRelay.thy ===== *)
theory SocketRelay imports PortSink "HOL-Library.AList" begin

section \<open>One socket's relay (port-registry.ts, socket.ts)\<close>

text \<open>
  A relay joins the pump and the sink of one socket to its port, and owns the socket's slot in the registry
  \<open>net.close\<close> looks it up in. An event is a message from the port, the port closing, the handle being
  unlinked, \<open>socket.closed\<close> settling, or what a read, a write or the heartbeat timer comes to. The
  answer lists what the relay does to its port, its socket and its registry slot. \<open>socket.fail\<close> may unlink
  the handle before it returns; nothing in a pump or a sink follows the call, so that is the next event.
  \<open>socket.abort\<close> may too, and the sink goes on after it: what it does is \<open>abort_unlinks\<close> of the
  configuration, the code it unlinks with, or \<open>None\<close> where it throws or the handle is gone already. The
  lemmas show what every way of ending comes to.
\<close>

subsection \<open>port-registry.ts\<close>

type_synonym 'a port_registry = "(str \<times> (str \<times> 'a) list) list"

definition createPortRegistry :: "'a port_registry" where
  "createPortRegistry = []"

definition registry_register :: "'a port_registry \<Rightarrow> str \<Rightarrow> str \<Rightarrow> 'a \<Rightarrow> 'a port_registry" where
  "registry_register byOrigin origin ident resource =
     (let byId = (case map_of byOrigin origin of None \<Rightarrow> [] | Some m \<Rightarrow> m) in
      AList.update origin (AList.update ident resource byId) byOrigin)"

definition registry_get :: "'a port_registry \<Rightarrow> str \<Rightarrow> str \<Rightarrow> 'a option" where
  "registry_get byOrigin origin ident =
     (case map_of byOrigin origin of None \<Rightarrow> None | Some byId \<Rightarrow> map_of byId ident)"

definition registry_remove :: "'a port_registry \<Rightarrow> str \<Rightarrow> str \<Rightarrow> 'a port_registry" where
  "registry_remove byOrigin origin ident =
     (case map_of byOrigin origin of
        None \<Rightarrow> byOrigin
      | Some byId \<Rightarrow> let byId = AList.delete ident byId in
          if byId = [] then AList.delete origin byOrigin else AList.update origin byId byOrigin)"

subsection \<open>socket.ts\<close>

definition mapSocketError :: "str option \<Rightarrow> error_code" where
  "mapSocketError code =
     (if code = Some (js ''ECONNRESET'') \<or> code = Some (js ''EPIPE'') then E_reset
      else if code = Some (js ''ETIMEDOUT'') then E_timeout
      else E_internal)"

datatype relay_action =
  ToPort broker_message
| CancelRead
| ToWriter relay_effect
| FailSocket error_code "str option"
| AbortSocket
| CloseSocket
| Unregister
| ClosePort

record socket_relay =
  relay_pump :: port_pump
  relay_sink :: port_sink
  readEnded :: bool
  writeEnded :: bool
  released :: bool

record relay_config =
  relay_handle :: str
  readWindow :: nat
  writeWindow :: nat
  abort_unlinks :: "error_code option option"

datatype relay_event =
  FromPort js_value
| PortClosed
| Unlinked close_reason "error_code option"
| SocketClosed
| SocketClosedWith "error_code option"
| ReadEvent pump_event
| WriteEvent sink_event

definition sink_config_of :: "relay_config \<Rightarrow> sink_config" where
  "sink_config_of cfg = \<lparr>sink_handle = relay_handle cfg, windowBytes = writeWindow cfg, sink_mapError = mapSocketError\<rparr>"

definition createSocketRelay :: "relay_config \<Rightarrow> socket_relay" where
  "createSocketRelay cfg = \<lparr>relay_pump = createPortPump (readWindow cfg), relay_sink = createPortSink,
     readEnded = False, writeEnded = False, released = False\<rparr>"

definition relay_cleanup :: "socket_relay \<Rightarrow> socket_relay \<times> relay_action list" where
  "relay_cleanup relay = (if released relay then (relay, []) else (relay\<lparr>released := True\<rparr>, [Unregister, ClosePort]))"

definition releaseOnceBothEnded :: "socket_relay \<Rightarrow> relay_action list" where
  "releaseOnceBothEnded relay = (if \<not> readEnded relay \<or> \<not> writeEnded relay then [] else [CloseSocket])"

text \<open>The callbacks the pump and the sink are given.\<close>

fun react1 :: "relay_effect \<Rightarrow> socket_relay \<Rightarrow> socket_relay \<times> relay_action list" where
  "react1 (Post m) relay = (relay, [ToPort m])"
| "react1 (OnStreamFailed code errno) relay = (relay, [FailSocket code errno])"
| "react1 OnStreamEnded relay = (let relay = relay\<lparr>readEnded := True\<rparr> in (relay, releaseOnceBothEnded relay))"
| "react1 CancelReader relay = (relay, [CancelRead])"
| "react1 (OnSinkFailed code errno) relay = (relay, [FailSocket code errno])"
| "react1 OnAbort relay = (relay, [AbortSocket])"
| "react1 OnEnded relay = (let relay = relay\<lparr>writeEnded := True\<rparr> in (relay, releaseOnceBothEnded relay))"
| "react1 e relay = (relay, [ToWriter e])"

fun react :: "relay_effect list \<Rightarrow> socket_relay \<Rightarrow> socket_relay \<times> relay_action list" where
  "react [] relay = (relay, [])"
| "react (e # es) relay =
     (case react1 e relay of (relay', out) \<Rightarrow> (case react es relay' of (relay'', out') \<Rightarrow> (relay'', out @ out')))"

definition on_pump :: "relay_config \<Rightarrow> pump_event \<Rightarrow> socket_relay \<Rightarrow> socket_relay \<times> relay_action list" where
  "on_pump cfg e relay =
     (case pump_step mapSocketError (relay_handle cfg) (readWindow cfg) e (relay_pump relay) of
        (pump, out) \<Rightarrow> react out (relay\<lparr>relay_pump := pump\<rparr>))"

definition on_sink :: "relay_config \<Rightarrow> sink_event \<Rightarrow> socket_relay \<Rightarrow> socket_relay \<times> relay_action list" where
  "on_sink cfg e relay =
     (case sink_step (sink_config_of cfg) e (relay_sink relay) of
        (sink, out) \<Rightarrow> react out (relay\<lparr>relay_sink := sink\<rparr>))"

definition relay_stop :: "relay_config \<Rightarrow> error_code option \<Rightarrow> socket_relay \<Rightarrow> socket_relay \<times> relay_action list" where
  "relay_stop cfg code relay =
     (let (relay, out1) = on_pump cfg (PumpStop code) relay;
          (relay, out2) = on_sink cfg (SinkStop code) relay;
          (relay, out3) = relay_cleanup relay
      in (relay, out1 @ out2 @ out3))"

definition on_unlink :: "relay_config \<Rightarrow> close_reason \<Rightarrow> error_code option \<Rightarrow> socket_relay \<Rightarrow> socket_relay \<times> relay_action list" where
  "on_unlink cfg reason code relay =
     (if reason = Closed \<or> reason = SessionEnded then (relay, []) else relay_stop cfg code relay)"

text \<open>What the sink does on an abort: its \<open>onAbort\<close> may stop the relay before the sink aborts the writer.\<close>

fun react_abort :: "relay_config \<Rightarrow> relay_effect list \<Rightarrow> socket_relay \<Rightarrow> socket_relay \<times> relay_action list" where
  "react_abort cfg [] relay = (relay, [])"
| "react_abort cfg (e # es) relay =
     (let (relay, out1) = react1 e relay;
          (relay, out2) = (if e = OnAbort
            then (case abort_unlinks cfg of None \<Rightarrow> (relay, []) | Some code \<Rightarrow> on_unlink cfg Aborted code relay)
            else (relay, []));
          (relay, out3) = react_abort cfg es relay
      in (relay, out1 @ out2 @ out3))"

definition on_abort :: "relay_config \<Rightarrow> str \<Rightarrow> socket_relay \<Rightarrow> socket_relay \<times> relay_action list" where
  "on_abort cfg handle relay =
     (case sink_step (sink_config_of cfg) (WriteAbort handle) (relay_sink relay) of
        (sink, out) \<Rightarrow> react_abort cfg out (relay\<lparr>relay_sink := sink\<rparr>))"

definition on_message :: "relay_config \<Rightarrow> js_value \<Rightarrow> socket_relay \<Rightarrow> socket_relay \<times> relay_action list" where
  "on_message cfg raw relay =
     (case parseRendererToBrokerMessage raw of
        Some (CreditMessage h n) \<Rightarrow> on_pump cfg (CreditReport h (Finite n)) relay
      | Some (WriteMessage h chunk) \<Rightarrow> on_sink cfg (Write h chunk) relay
      | Some (WriteEndMessage h) \<Rightarrow> on_sink cfg (WriteEnd h) relay
      | Some (WriteAbortMessage h) \<Rightarrow> on_abort cfg h relay
      | _ \<Rightarrow> (relay, []))"

text \<open>Only what the streams and the timer do reaches the pump and the sink past the port.\<close>

fun stream_event :: "sink_event \<Rightarrow> bool" where
  "stream_event Settled = True"
| "stream_event (Rejected _) = True"
| "stream_event (CloseRejected _) = True"
| "stream_event Heartbeat = True"
| "stream_event _ = False"

fun relay_step :: "relay_config \<Rightarrow> relay_event \<Rightarrow> socket_relay \<Rightarrow> socket_relay \<times> relay_action list" where
  "relay_step cfg (FromPort raw) relay = on_message cfg raw relay"
| "relay_step cfg PortClosed relay = relay_stop cfg None relay"
| "relay_step cfg (Unlinked reason code) relay = on_unlink cfg reason code relay"
| "relay_step cfg SocketClosed relay = relay_stop cfg None relay"
| "relay_step cfg (SocketClosedWith code) relay =
     relay_stop cfg (Some (case code of Some c \<Rightarrow> c | None \<Rightarrow> E_internal)) relay"
| "relay_step cfg (ReadEvent e) relay = (if is_read e then on_pump cfg e relay else (relay, []))"
| "relay_step cfg (WriteEvent e) relay = (if stream_event e then on_sink cfg e relay else (relay, []))"

fun relay_run :: "relay_config \<Rightarrow> relay_event list \<Rightarrow> socket_relay \<Rightarrow> socket_relay \<times> relay_action list" where
  "relay_run cfg [] relay = (relay, [])"
| "relay_run cfg (e # es) relay =
     (case relay_step cfg e relay of (relay', out) \<Rightarrow> (case relay_run cfg es relay' of (relay'', out') \<Rightarrow> (relay'', out @ out')))"

section \<open>The registry\<close>

lemma registry_get_register:
  "registry_get (registry_register r origin ident resource) o' i =
     (if o' = origin \<and> i = ident then Some resource else registry_get r o' i)"
  by (auto simp: registry_get_def registry_register_def Let_def update_conv split: option.split)

lemma registry_get_remove:
  "registry_get (registry_remove r origin ident) o' i =
     (if o' = origin \<and> i = ident then None else registry_get r o' i)"
proof (cases "map_of r origin")
  case (Some byId)
  have "map_of byId i = None" if "AList.delete ident byId = []" "i \<noteq> ident"
    using that delete_conv [of ident byId] by (metis fun_upd_other map_of.simps(1))
  then show ?thesis using Some
    by (auto simp: registry_get_def registry_remove_def Let_def update_conv delete_conv split: option.split)
qed (auto simp: registry_get_def registry_remove_def)

lemma registry_get_empty [simp]: "registry_get createPortRegistry origin ident = None"
  by (simp add: registry_get_def createPortRegistry_def)

section \<open>What a relay needs of each half\<close>

text \<open>One direction of a relay: it can be stopped, once stopped it stays so, and then it notifies nobody and touches
  neither reader nor writer; all it may still do is report to the port that the close it issued failed.\<close>

fun is_post :: "relay_effect \<Rightarrow> bool" where
  "is_post (Post _) = True"
| "is_post _ = False"

locale relay_half =
  fixes step :: "'e \<Rightarrow> 's \<Rightarrow> 's \<times> relay_effect list" and stop :: "error_code option \<Rightarrow> 'e" and stopped :: "'s \<Rightarrow> bool"
  assumes stop_stops: "stopped (fst (step (stop code) s))"
    and stays: "stopped s \<Longrightarrow> stopped (fst (step e s))"
    and stopped_quiet: "stopped s \<Longrightarrow> list_all is_post (snd (step e s))"
    and stop_quiet: "list_all (\<lambda>x. is_post x \<or> x = CancelReader) (snd (step (stop code) s))"
    and stop_once: "stopped s \<Longrightarrow> step (stop code) s = (s, [])"
begin

fun run :: "'e list \<Rightarrow> 's \<Rightarrow> 's \<times> relay_effect list" where
  "run [] s = (s, [])"
| "run (e # es) s = (case step e s of (s', out) \<Rightarrow> (case run es s' of (s'', out') \<Rightarrow> (s'', out @ out')))"

lemma run_stopped: "stopped s \<Longrightarrow> stopped (fst (run es s)) \<and> list_all is_post (snd (run es s))"
  by (induction es arbitrary: s) (auto split: prod.splits dest: stays stopped_quiet, (metis fst_conv stays snd_conv stopped_quiet)+)

end

interpretation pump_half: relay_half "pump_step mapError handleId w" PumpStop pump_stopped
proof
  fix e and p :: port_pump assume "pump_stopped p"
  then show "pump_stopped (fst (pump_step mapError handleId w e p))" "list_all is_post (snd (pump_step mapError handleId w e p))"
    by (cases e; simp add: pump_defs)+
qed (auto simp: pump_defs split: option.split)

interpretation sink_half: relay_half "sink_step cfg" SinkStop sink_stopped
proof
  fix e and s :: port_sink assume "sink_stopped s"
  then show "sink_stopped (fst (sink_step cfg e s))" "list_all is_post (snd (sink_step cfg e s))"
    by (cases e; simp add: handleWrite_def handleEnd_def handleAbort_def write_settled_stopped write_rejected_def
      heartbeat_tick_def sink_stop_def Let_def)+
qed (auto simp: sink_stop_def clearHeartbeat_def split: option.split)

section \<open>Ending a relay\<close>

lemma react_append:
  "react (es @ es2) relay = (case react es relay of (r, out) \<Rightarrow> (case react es2 r of (r', out') \<Rightarrow> (r', out @ out')))"
  by (induction es arbitrary: relay) (auto split: prod.splits)

lemma react_halves:
  "react es relay = (relay', out) \<Longrightarrow> relay_pump relay' = relay_pump relay \<and> relay_sink relay' = relay_sink relay \<and> released relay' = released relay"
proof (induction es arbitrary: relay out)
  case (Cons e es)
  obtain r o1 where r: "react1 e relay = (r, o1)" by fastforce
  have "relay_pump r = relay_pump relay \<and> relay_sink r = relay_sink relay \<and> released r = released relay"
    using r by (cases e) (auto simp: Let_def)
  then show ?case using Cons r by (auto split: prod.splits)
qed simp

definition reports :: "relay_action list \<Rightarrow> bool" where
  "reports out \<longleftrightarrow> (\<forall>a\<in>set out. \<exists>m. a = ToPort m)"

lemma react_posts: "list_all is_post es \<Longrightarrow> react es relay = (relay', out) \<Longrightarrow> reports out"
  and react_posts_same: "list_all is_post es \<Longrightarrow> fst (react es relay) = relay"
proof (induction es arbitrary: out)
  case Nil
  { case 1 then show ?case by (simp add: reports_def) }
  { case 2 then show ?case by simp }
next
  case (Cons e es)
  { case 1
    then obtain m where "e = Post m" by (cases e) auto
    then show ?case using 1 Cons by (auto simp: reports_def split: prod.splits) }
  { case 2
    then obtain m where "e = Post m" by (cases e) auto
    then show ?case using 2 Cons by (auto split: prod.splits) }
qed

text \<open>A relay that is over: both halves stopped, the slot given back, the port closed.\<close>

definition over :: "socket_relay \<Rightarrow> bool" where
  "over relay \<longleftrightarrow> pump_stopped (relay_pump relay) \<and> sink_stopped (relay_sink relay) \<and> released relay"

lemma on_pump_over:
  assumes "over relay" and st: "on_pump cfg e relay = (relay', out)" shows "over relay' \<and> reports out"
proof -
  obtain p o1 where p: "pump_step mapSocketError (relay_handle cfg) (readWindow cfg) e (relay_pump relay) = (p, o1)" by fastforce
  have stop: "pump_stopped (relay_pump relay)" using assms(1) by (simp add: over_def)
  have "pump_stopped p" using pump_half.stays [OF stop] p by (metis fst_conv)
  have posts: "list_all is_post o1" using pump_half.stopped_quiet [OF stop] p by (metis snd_conv)
  have r: "react o1 (relay\<lparr>relay_pump := p\<rparr>) = (relay', out)" using st by (simp add: on_pump_def p)
  have "relay' = relay\<lparr>relay_pump := p\<rparr>" using react_posts_same [OF posts, of "relay\<lparr>relay_pump := p\<rparr>"] r by simp
  then show ?thesis using react_posts [OF posts r] assms(1) \<open>pump_stopped p\<close> by (simp add: over_def)
qed

lemma on_sink_over:
  assumes "over relay" and st: "on_sink cfg e relay = (relay', out)" shows "over relay' \<and> reports out"
proof -
  obtain p o1 where p: "sink_step (sink_config_of cfg) e (relay_sink relay) = (p, o1)" by fastforce
  have stop: "sink_stopped (relay_sink relay)" using assms(1) by (simp add: over_def)
  have "sink_stopped p" using sink_half.stays [OF stop] p by (metis fst_conv)
  have posts: "list_all is_post o1" using sink_half.stopped_quiet [OF stop] p by (metis snd_conv)
  have r: "react o1 (relay\<lparr>relay_sink := p\<rparr>) = (relay', out)" using st by (simp add: on_sink_def p)
  have "relay' = relay\<lparr>relay_sink := p\<rparr>" using react_posts_same [OF posts, of "relay\<lparr>relay_sink := p\<rparr>"] r by simp
  then show ?thesis using react_posts [OF posts r] assms(1) \<open>sink_stopped p\<close> by (simp add: over_def)
qed

lemma relay_stop_over:
  assumes "relay_stop cfg code relay = (relay', out)" shows "over relay'"
proof -
  obtain p o1 where p: "pump_step mapSocketError (relay_handle cfg) (readWindow cfg) (PumpStop code) (relay_pump relay) = (p, o1)"
    by fastforce
  obtain r1 a1 where r1: "react o1 (relay\<lparr>relay_pump := p\<rparr>) = (r1, a1)" by fastforce
  obtain s o2 where s: "sink_step (sink_config_of cfg) (SinkStop code) (relay_sink r1) = (s, o2)" by fastforce
  obtain r2 a2 where r2: "react o2 (r1\<lparr>relay_sink := s\<rparr>) = (r2, a2)" by fastforce
  have "pump_stopped p" "sink_stopped s"
    using pump_half.stop_stops sink_half.stop_stops p s by (metis fst_conv)+
  then have "pump_stopped (relay_pump r2) \<and> sink_stopped (relay_sink r2)"
    using react_halves [OF r1] react_halves [OF r2] by simp
  then show ?thesis using assms r1 r2 p s
    by (auto simp: relay_stop_def on_pump_def on_sink_def relay_cleanup_def over_def split: if_splits)
qed

lemma on_abort_cases:
  obtains (none) "on_abort cfg h relay = (relay, [])"
    | (kept) "abort_unlinks cfg = None" "on_abort cfg h relay = on_sink cfg (WriteAbort h) relay"
    | (ended) code m r out where "\<not> sink_stopped (relay_sink relay)" "abort_unlinks cfg = Some code"
        "relay_stop cfg code (relay\<lparr>relay_sink := (relay_sink relay)\<lparr>sink_stopped := True, heartbeat := False\<rparr>\<rparr>) = (r, out)"
        "on_abort cfg h relay = (r, ToPort m # AbortSocket # out @ [ToWriter WriterAbort])"
proof (cases "sink_stopped (relay_sink relay) \<or> h \<noteq> relay_handle cfg")
  case True
  then have "on_abort cfg h relay = (relay, [])" by (auto simp: on_abort_def handleAbort_def sink_config_of_def)
  then show thesis by (rule none)
next
  case False
  let ?sink = "(relay_sink relay)\<lparr>sink_stopped := True, heartbeat := False\<rparr>"
  let ?m = "toWriteFailed (relay_handle cfg) E_reset (Some None)"
  have step: "sink_step (sink_config_of cfg) (WriteAbort h) (relay_sink relay) = (?sink, [Post ?m, OnAbort, WriterAbort])"
    using False by (simp add: handleAbort_def sink_fail_eq sink_config_of_def)
  show thesis
  proof (cases "abort_unlinks cfg")
    case None
    then have "on_abort cfg h relay = on_sink cfg (WriteAbort h) relay"
      unfolding on_abort_def on_sink_def step by simp
    then show thesis by (rule kept [OF None])
  next
    case (Some code)
    obtain r out where stop: "relay_stop cfg code (relay\<lparr>relay_sink := ?sink\<rparr>) = (r, out)" by fastforce
    have "on_abort cfg h relay = (r, ToPort ?m # AbortSocket # out @ [ToWriter WriterAbort])"
      unfolding on_abort_def step by (simp add: Some on_unlink_def stop)
    then show thesis using ended [OF _ Some stop] False by blast
  qed
qed

lemma on_message_cases:
  obtains (none) "on_message cfg raw relay = (relay, [])"
    | (credit) h n where "on_message cfg raw relay = on_pump cfg (CreditReport h n) relay"
    | (sink) e where "on_message cfg raw relay = on_sink cfg e relay" "\<And>code. e \<noteq> SinkStop code"
        "(\<exists>h. e = WriteAbort h) \<Longrightarrow> abort_unlinks cfg = None"
    | (abort) code m r out where "\<not> sink_stopped (relay_sink relay)" "abort_unlinks cfg = Some code"
        "relay_stop cfg code (relay\<lparr>relay_sink := (relay_sink relay)\<lparr>sink_stopped := True, heartbeat := False\<rparr>\<rparr>) = (r, out)"
        "on_message cfg raw relay = (r, ToPort m # AbortSocket # out @ [ToWriter WriterAbort])"
proof (cases "parseRendererToBrokerMessage raw")
  case (Some m)
  show thesis
  proof (cases m)
    case (CreditMessage h n)
    then show thesis using Some credit by (simp add: on_message_def)
  next
    case (WriteMessage h bs)
    then show thesis using Some sink [of "Write h bs"] by (simp add: on_message_def)
  next
    case (WriteEndMessage h)
    then show thesis using Some sink [of "WriteEnd h"] by (simp add: on_message_def)
  next
    case (WriteAbortMessage h)
    with Some have m: "on_message cfg raw relay = on_abort cfg h relay" by (simp add: on_message_def)
    show thesis
    proof (cases rule: on_abort_cases [of cfg h relay])
      case none
      then show thesis using m that(1) by simp
    next
      case kept
      then show thesis using m sink [of "WriteAbort h"] by simp
    next
      case (ended code m' r out)
      then show thesis using m abort by simp
    qed
  next
    case (DatagramCreditMessage h n b)
    with Some have "on_message cfg raw relay = (relay, [])" by (simp add: on_message_def)
    then show thesis by (rule none)
  next
    case (SendMessage h bs a p)
    with Some have "on_message cfg raw relay = (relay, [])" by (simp add: on_message_def)
    then show thesis by (rule none)
  qed
qed (use none in \<open>simp add: on_message_def\<close>)

lemma over_step:
  assumes "over relay" and "relay_step cfg e relay = (relay', out)" shows "over relay' \<and> reports out"
proof -
  have stop: "over r \<and> reports a" if st: "relay_stop cfg code relay = (r, a)" for code r a
  proof -
    have p: "pump_step mapSocketError (relay_handle cfg) (readWindow cfg) (PumpStop code) (relay_pump relay) = (relay_pump relay, [])"
      using pump_half.stop_once assms(1) by (simp add: over_def)
    have s: "sink_step (sink_config_of cfg) (SinkStop code) (relay_sink relay) = (relay_sink relay, [])"
      using sink_half.stop_once assms(1) by (simp add: over_def)
    show ?thesis
      using st assms(1) unfolding relay_stop_def on_pump_def on_sink_def p
      by (simp add: s relay_cleanup_def over_def reports_def del: sink_step.simps)
  qed
  have idle: "over relay \<and> reports []" using assms(1) by (simp add: reports_def)
  have msg: "over relay' \<and> reports out" if "on_message cfg raw relay = (relay', out)" for raw
  proof (cases rule: on_message_cases [of cfg raw relay])
    case (credit h n)
    then show ?thesis using that by (intro on_pump_over [OF assms(1)]) simp
  next
    case (sink we)
    then show ?thesis using that by (intro on_sink_over [OF assms(1)]) simp
  next
    case (abort code m r a)
    then show ?thesis using assms(1) by (simp add: over_def)
  next
    case none
    then have "relay' = relay" "out = []" using that by simp_all
    then show ?thesis using idle by blast
  qed
  show ?thesis
  proof (cases e)
    case (FromPort raw)
    then show ?thesis using assms(2) msg by simp
  next
    case (Unlinked reason code)
    show ?thesis
    proof (cases "reason = Closed \<or> reason = SessionEnded")
      case True
      then show ?thesis using Unlinked assms(2) idle by (auto simp: on_unlink_def)
    next
      case False
      then have "relay_stop cfg code relay = (relay', out)" using Unlinked assms(2) by (simp add: on_unlink_def)
      then show ?thesis by (rule stop)
    qed
  next
    case (ReadEvent pe)
    then show ?thesis using assms(2) on_pump_over [OF assms(1)] idle by (cases "is_read pe") simp_all
  next
    case (WriteEvent we)
    then show ?thesis using assms(2) on_sink_over [OF assms(1)] idle by (cases "stream_event we") simp_all
  qed (use assms(2) stop in simp_all)
qed

section \<open>Runs\<close>

lemma relay_run_snoc:
  "relay_run cfg (es @ [e]) relay =
     (case relay_run cfg es relay of (r, out) \<Rightarrow> (case relay_step cfg e r of (r', out') \<Rightarrow> (r', out @ out')))"
  by (induction es arbitrary: relay) (auto split: prod.splits)

lemma react1_flags:
  "react1 e relay = (relay', out) \<Longrightarrow>
     readEnded relay' = (readEnded relay \<or> OnStreamEnded \<in> set [e]) \<and>
     writeEnded relay' = (writeEnded relay \<or> OnEnded \<in> set [e]) \<and>
     (CloseSocket \<in> set out \<longleftrightarrow> (OnStreamEnded \<in> set [e] \<or> OnEnded \<in> set [e]) \<and> readEnded relay' \<and> writeEnded relay') \<and>
     (CancelRead \<in> set out \<longleftrightarrow> CancelReader \<in> set [e]) \<and> (ToWriter WriterClose \<in> set out \<longleftrightarrow> WriterClose \<in> set [e]) \<and>
     (AbortSocket \<in> set out \<longleftrightarrow> OnAbort \<in> set [e]) \<and> Unregister \<notin> set out \<and> ClosePort \<notin> set out"
  by (cases e) (auto simp: releaseOnceBothEnded_def Let_def split: if_splits)

lemma react_flags:
  "react es relay = (relay', out) \<Longrightarrow>
     readEnded relay' = (readEnded relay \<or> OnStreamEnded \<in> set es) \<and>
     writeEnded relay' = (writeEnded relay \<or> OnEnded \<in> set es) \<and>
     (CloseSocket \<in> set out \<longleftrightarrow> (OnStreamEnded \<in> set es \<or> OnEnded \<in> set es) \<and> readEnded relay' \<and> writeEnded relay') \<and>
     (CancelRead \<in> set out \<longleftrightarrow> CancelReader \<in> set es) \<and> (ToWriter WriterClose \<in> set out \<longleftrightarrow> WriterClose \<in> set es) \<and>
     (AbortSocket \<in> set out \<longleftrightarrow> OnAbort \<in> set es) \<and> Unregister \<notin> set out \<and> ClosePort \<notin> set out"
proof (induction es arbitrary: relay out)
  case (Cons e es)
  obtain r o1 where r: "react1 e relay = (r, o1)" by fastforce
  obtain o2 where r': "react es r = (relay', o2)" and out: "out = o1 @ o2"
    using Cons.prems r by (auto split: prod.splits)
  show ?case
    unfolding out using Cons.IH [OF r'] react1_flags [OF r]
    by (simp only: set_append Un_iff list.set insert_iff empty_iff) blast
qed simp

lemma pump_step_effects:
  assumes "pump_step mapError h w e p = (p', out)"
  shows "OnEnded \<notin> set out \<and> OnAbort \<notin> set out \<and> WriterClose \<notin> set out \<and> (OnStreamEnded \<in> set out \<longrightarrow> e = ReadDone) \<and>
    (CancelReader \<in> set out \<longrightarrow> (\<exists>code. e = PumpStop code))"
  using assms by (cases e) (auto simp: pump_defs Let_def split: if_splits option.splits js_number.splits)

lemma sink_step_effects:
  assumes "sink_step cfg e s = (s', out)"
  shows "OnStreamEnded \<notin> set out \<and> CancelReader \<notin> set out \<and> (OnEnded \<in> set out \<longleftrightarrow> WriterClose \<in> set out) \<and>
    ((\<exists>code. e = SinkStop code) \<longrightarrow> OnEnded \<notin> set out) \<and> (OnAbort \<in> set out \<longrightarrow> (\<exists>h. e = WriteAbort h)) \<and> sink_ended s' = (sink_ended s \<or> OnEnded \<in> set out)"
proof (cases e)
  case (Write h bs)
  then have "handleWrite cfg h bs s = (s', out)" using assms by simp
  then show ?thesis by (cases rule: handleWrite_cases) (use Write in simp_all)
next
  case Settled
  then show ?thesis using assms
    by (cases "queue s"; cases "sink_stopped s")
      (auto simp: write_settled_live write_settled_stopped Let_def split: if_splits)
next
  case (Rejected errno)
  then show ?thesis using assms by (auto simp: write_rejected_def sink_fail_eq Let_def split: if_splits)
next
  case Heartbeat
  then show ?thesis using assms
    by (auto simp: heartbeat_tick_def flush_def armHeartbeat_def clearHeartbeat_def Let_def split: if_splits)
qed (use assms in \<open>auto simp: handleEnd_def closeWriterOnceDrained_def clearHeartbeat_def handleAbort_def sink_fail_eq
  sink_stop_def split: if_splits option.splits\<close>)

text \<open>What ends a relay: the port or the socket is gone, or the handle was unlinked for a reason that destroys the socket.\<close>

fun ending :: "relay_event \<Rightarrow> bool" where
  "ending PortClosed = True"
| "ending SocketClosed = True"
| "ending (SocketClosedWith _) = True"
| "ending (Unlinked reason _) = (reason \<noteq> Closed \<and> reason \<noteq> SessionEnded)"
| "ending _ = False"

lemma not_ending_step:
  assumes "\<not> ending e" and "relay_step cfg e relay = (relay', out)"
  obtains (none) "relay' = relay" "out = []"
    | (pump) pe p es where "pump_step mapSocketError (relay_handle cfg) (readWindow cfg) pe (relay_pump relay) = (p, es)"
        "react es (relay\<lparr>relay_pump := p\<rparr>) = (relay', out)" "\<And>code. pe \<noteq> PumpStop code" "pe = ReadDone \<longrightarrow> e = ReadEvent ReadDone"
    | (sink) se s es where "sink_step (sink_config_of cfg) se (relay_sink relay) = (s, es)"
        "react es (relay\<lparr>relay_sink := s\<rparr>) = (relay', out)" "\<And>code. se \<noteq> SinkStop code"
        "(\<exists>h. se = WriteAbort h) \<Longrightarrow> abort_unlinks cfg = None"
    | (abort) code m o2 where "\<not> sink_stopped (relay_sink relay)" "abort_unlinks cfg = Some code"
        "relay_stop cfg code (relay\<lparr>relay_sink := (relay_sink relay)\<lparr>sink_stopped := True, heartbeat := False\<rparr>\<rparr>) = (relay', o2)"
        "out = ToPort m # AbortSocket # o2 @ [ToWriter WriterAbort]"
proof -
  have P: thesis if "on_pump cfg pe relay = (relay', out)" "\<And>code. pe \<noteq> PumpStop code" "pe = ReadDone \<longrightarrow> e = ReadEvent ReadDone" for pe
    using that pump by (auto simp: on_pump_def split: prod.splits)
  have S: thesis if "on_sink cfg se relay = (relay', out)" "\<And>code. se \<noteq> SinkStop code"
      "(\<exists>h. se = WriteAbort h) \<Longrightarrow> abort_unlinks cfg = None" for se
  proof -
    obtain s es where "sink_step (sink_config_of cfg) se (relay_sink relay) = (s, es)" by fastforce
    then show thesis using sink [of se s es] that by (simp add: on_sink_def)
  qed
  show thesis
  proof (cases e)
    case (FromPort raw)
    then have m: "on_message cfg raw relay = (relay', out)" using assms(2) by simp
    show thesis
    proof (cases rule: on_message_cases [of cfg raw relay])
      case (credit h n)
      then show thesis using m by (intro P [of "CreditReport h n"]) simp_all
    next
      case (sink se)
      then show thesis using m by (intro S [of se]) simp_all
    next
      case (abort code m' r o2)
      then show thesis using m that(4) [of code o2 m'] by simp
    next
      case none
      then show thesis using m that(1) by simp
    qed
  next
    case (ReadEvent pe)
    then show thesis using assms(2) P [of pe] none by (cases "is_read pe"; cases pe) simp_all
  next
    case (WriteEvent se)
    then show thesis using assms(2) S [of se] none by (cases "stream_event se"; cases se) simp_all
  next
    case (Unlinked reason code)
    then show thesis using assms none by (auto simp: on_unlink_def)
  qed (use assms(1) in simp_all)
qed

definition ends_ok :: "relay_config \<Rightarrow> relay_event list \<Rightarrow> socket_relay \<Rightarrow> relay_action list \<Rightarrow> bool" where
  "ends_ok cfg events relay acts \<longleftrightarrow>
     (CloseSocket \<in> set acts \<longleftrightarrow> readEnded relay \<and> writeEnded relay) \<and>
     (readEnded relay \<longrightarrow> ReadEvent ReadDone \<in> set events) \<and>
     writeEnded relay = sink_ended (relay_sink relay) \<and> (ToWriter WriterClose \<in> set acts \<longleftrightarrow> writeEnded relay) \<and>
     (released relay \<longleftrightarrow> (\<exists>e\<in>set events. ending e) \<or> AbortSocket \<in> set acts \<and> abort_unlinks cfg \<noteq> None) \<and> (released relay \<longrightarrow> over relay) \<and>
     (CancelRead \<in> set acts \<longrightarrow> released relay) \<and>
     filter (\<lambda>a. a = Unregister \<or> a = ClosePort) acts = (if released relay then [Unregister, ClosePort] else [])"

lemma filter_none: "Unregister \<notin> set out \<Longrightarrow> ClosePort \<notin> set out \<Longrightarrow> filter (\<lambda>a. a = Unregister \<or> a = ClosePort) out = []"
  by (auto simp: filter_empty_conv)

lemma reports_inert:
  "reports out \<Longrightarrow> CloseSocket \<notin> set out \<and> CancelRead \<notin> set out \<and> Unregister \<notin> set out \<and> ClosePort \<notin> set out \<and>
     (\<forall>x. ToWriter x \<notin> set out)"
  by (auto simp: reports_def)

lemma relay_stop_effects:
  assumes "relay_stop cfg code r = (relay, out)"
  shows "readEnded relay = readEnded r \<and> writeEnded relay = writeEnded r \<and> sink_ended (relay_sink relay) = sink_ended (relay_sink r) \<and>
    CloseSocket \<notin> set out \<and> AbortSocket \<notin> set out \<and> ToWriter WriterClose \<notin> set out \<and> released relay \<and>
    filter (\<lambda>a. a = Unregister \<or> a = ClosePort) out = (if released r then [] else [Unregister, ClosePort])"
proof -
  obtain p o1 where p: "pump_step mapSocketError (relay_handle cfg) (readWindow cfg) (PumpStop code) (relay_pump r) = (p, o1)"
    by fastforce
  obtain r1 a1 where r1: "react o1 (r\<lparr>relay_pump := p\<rparr>) = (r1, a1)" by fastforce
  obtain s o2 where s: "sink_step (sink_config_of cfg) (SinkStop code) (relay_sink r1) = (s, o2)" by fastforce
  obtain r2 a2 where r2: "react o2 (r1\<lparr>relay_sink := s\<rparr>) = (r2, a2)" by fastforce
  have all: "(relay, out) = (case relay_cleanup r2 of (relay', a3) \<Rightarrow> (relay', a1 @ a2 @ a3))"
    using assms r1 r2 p s by (simp add: relay_stop_def on_pump_def on_sink_def split: prod.splits)
  note e1 = pump_step_effects [OF p] and e2 = sink_step_effects [OF s]
  have w: "OnEnded \<notin> set o2" "OnAbort \<notin> set o2" "WriterClose \<notin> set o2" "OnStreamEnded \<notin> set o2" "sink_ended s = sink_ended (relay_sink r1)"
    using e2 by blast+
  note f1 = react_flags [OF r1] and f2 = react_flags [OF r2]
  note h1 = react_halves [OF r1] and h2 = react_halves [OF r2]
  have flags: "readEnded r2 = readEnded r" "writeEnded r2 = writeEnded r" "sink_ended (relay_sink r2) = sink_ended (relay_sink r)"
    "released r2 = released r" "CloseSocket \<notin> set (a1 @ a2)" "AbortSocket \<notin> set (a1 @ a2)" "ToWriter WriterClose \<notin> set (a1 @ a2)"
    "Unregister \<notin> set (a1 @ a2)" "ClosePort \<notin> set (a1 @ a2)"
    using e1 w f1 f2 h1 h2 by auto
  have filt: "filter (\<lambda>a. a = Unregister \<or> a = ClosePort) (a1 @ a2) = []" using flags(8,9) by (rule filter_none)
  show ?thesis
  proof (cases "released r2")
    case True
    then have "relay = r2" "out = a1 @ a2" using all by (simp_all add: relay_cleanup_def)
    then show ?thesis using flags filt True by simp
  next
    case False
    then have "relay = r2\<lparr>released := True\<rparr>" "out = (a1 @ a2) @ [Unregister, ClosePort]"
      using all by (simp_all add: relay_cleanup_def)
    then show ?thesis using flags filt False by simp
  qed
qed

lemma ending_stops: "ending e \<Longrightarrow> relay_step cfg e r = x \<Longrightarrow> \<exists>code. relay_step cfg e r = relay_stop cfg code r"
  by (cases e) (auto simp: on_unlink_def)

text \<open>What one event adds to the actions so far, and to the flags.\<close>

lemma ends_ok_more:
  assumes IH: "ends_ok cfg events r a1"
    and close: "CloseSocket \<in> set a2 \<longleftrightarrow> (readEnded relay \<noteq> readEnded r \<or> writeEnded relay \<noteq> writeEnded r \<or> again) \<and> readEnded relay \<and> writeEnded relay"
    and read: "readEnded r \<longrightarrow> readEnded relay" "readEnded relay \<longrightarrow> readEnded r \<or> e = ReadEvent ReadDone"
    and wr: "writeEnded r \<longrightarrow> writeEnded relay" "writeEnded relay = sink_ended (relay_sink relay)"
      "ToWriter WriterClose \<in> set a2 \<longrightarrow> writeEnded relay" "writeEnded relay \<longrightarrow> writeEnded r \<or> ToWriter WriterClose \<in> set a2"
    and rel: "released relay \<longleftrightarrow> released r \<or> ending e \<or> AbortSocket \<in> set a2 \<and> abort_unlinks cfg \<noteq> None"
    and over: "released relay \<longrightarrow> over relay" and cancel: "CancelRead \<in> set a2 \<longrightarrow> released relay"
    and filt: "filter (\<lambda>a. a = Unregister \<or> a = ClosePort) a2 =
      (if released relay \<and> \<not> released r then [Unregister, ClosePort] else [])"
  shows "ends_ok cfg (events @ [e]) relay (a1 @ a2)"
proof -
  have a: "(CloseSocket \<in> set a1 \<longleftrightarrow> readEnded r \<and> writeEnded r)" "readEnded r \<longrightarrow> ReadEvent ReadDone \<in> set events"
    "ToWriter WriterClose \<in> set a1 \<longleftrightarrow> writeEnded r" "CancelRead \<in> set a1 \<longrightarrow> released r"
    "released r \<longleftrightarrow> (\<exists>e\<in>set events. ending e) \<or> AbortSocket \<in> set a1 \<and> abort_unlinks cfg \<noteq> None"
    "filter (\<lambda>a. a = Unregister \<or> a = ClosePort) a1 = (if released r then [Unregister, ClosePort] else [])"
    using IH unfolding ends_ok_def by blast+
  have "CloseSocket \<in> set (a1 @ a2) \<longleftrightarrow> readEnded relay \<and> writeEnded relay" using a(1) close read(1) wr(1) by auto
  moreover have "readEnded relay \<longrightarrow> ReadEvent ReadDone \<in> set (events @ [e])" using a(2) read(2) by auto
  moreover have "ToWriter WriterClose \<in> set (a1 @ a2) \<longleftrightarrow> writeEnded relay" using a(3) wr by auto
  moreover have "released relay \<longleftrightarrow> (\<exists>e\<in>set (events @ [e]). ending e) \<or> AbortSocket \<in> set (a1 @ a2) \<and> abort_unlinks cfg \<noteq> None"
    using a(5) rel by auto
  moreover have "CancelRead \<in> set (a1 @ a2) \<longrightarrow> released relay" using a(4) rel cancel by auto
  moreover have "filter (\<lambda>a. a = Unregister \<or> a = ClosePort) (a1 @ a2) = (if released relay then [Unregister, ClosePort] else [])"
    using a(6) filt rel by auto
  ultimately show ?thesis using wr(2) over unfolding ends_ok_def by blast
qed

lemma relay_ends:
  assumes "relay_run cfg events (createSocketRelay cfg) = (relay, acts)"
  shows "ends_ok cfg events relay acts"
  using assms
proof (induction events arbitrary: relay acts rule: rev_induct)
  case Nil
  then show ?case by (auto simp: ends_ok_def createSocketRelay_def createPortSink_def)
next
  case (snoc e events)
  obtain r a1 where r: "relay_run cfg events (createSocketRelay cfg) = (r, a1)" by fastforce
  obtain a2 where st: "relay_step cfg e r = (relay, a2)" and acts: "acts = a1 @ a2"
    using snoc.prems r by (auto simp: relay_run_snoc split: prod.splits)
  note IH = snoc.IH [OF r]
  have now: "writeEnded r = sink_ended (relay_sink r)" "released r \<longrightarrow> over r" using IH unfolding ends_ok_def by blast+
  have over: "released relay \<longrightarrow> over relay" if "released relay = released r"
    using that now(2) over_step [OF _ st] by auto
  show ?case
    unfolding acts
  proof (cases "ending e")
    case True
    then obtain code where stop: "relay_stop cfg code r = (relay, a2)" using ending_stops [OF True st] st by auto
    note eff = relay_stop_effects [OF stop] and ov = relay_stop_over [OF stop]
    show "ends_ok cfg (events @ [e]) relay (a1 @ a2)"
      by (rule ends_ok_more [OF IH, where again = False]) (use eff ov True now(1) in auto)
  next
    case False
    from False st show "ends_ok cfg (events @ [e]) relay (a1 @ a2)"
    proof (cases rule: not_ending_step)
      case none
      then show ?thesis by (intro ends_ok_more [OF IH, where again = False]) (use now False in auto)
    next
      case (pump pe p es)
      note eff = pump_step_effects [OF pump(1)] and fl = react_flags [OF pump(2)] and ha = react_halves [OF pump(2)]
      have same: "released relay = released r" "relay_sink relay = relay_sink r" using ha by simp_all
      have a2: "Unregister \<notin> set a2" "ClosePort \<notin> set a2" "CancelRead \<notin> set a2" "ToWriter WriterClose \<notin> set a2" "AbortSocket \<notin> set a2"
        using fl eff pump(3) by auto
      have "writeEnded relay = writeEnded r" "readEnded relay = (readEnded r \<or> OnStreamEnded \<in> set es)"
        "CloseSocket \<in> set a2 \<longleftrightarrow> OnStreamEnded \<in> set es \<and> readEnded relay \<and> writeEnded relay"
        "OnStreamEnded \<in> set es \<longrightarrow> e = ReadEvent ReadDone"
        using fl eff pump(4) by auto
      then show ?thesis using a2 filter_none [OF a2(1,2)] over [OF same(1)] False same now(1)
        by (intro ends_ok_more [OF IH, where again = "OnStreamEnded \<in> set es"]) auto
    next
      case (sink se s es)
      note eff = sink_step_effects [OF sink(1)] and fl = react_flags [OF sink(2)] and ha = react_halves [OF sink(2)]
      have same: "released relay = released r" "relay_sink relay = s" using ha by simp_all
      have a2: "Unregister \<notin> set a2" "ClosePort \<notin> set a2" "CancelRead \<notin> set a2" "AbortSocket \<in> set a2 \<longrightarrow> abort_unlinks cfg = None"
        using fl eff sink(4) by auto
      have "readEnded relay = readEnded r" "writeEnded relay = (writeEnded r \<or> OnEnded \<in> set es)"
        "CloseSocket \<in> set a2 \<longleftrightarrow> OnEnded \<in> set es \<and> readEnded relay \<and> writeEnded relay"
        "ToWriter WriterClose \<in> set a2 \<longleftrightarrow> OnEnded \<in> set es" "sink_ended s = (sink_ended (relay_sink r) \<or> OnEnded \<in> set es)"
        using fl eff by auto
      then show ?thesis using a2 filter_none [OF a2(1,2)] over [OF same(1)] False same now(1)
        by (intro ends_ok_more [OF IH, where again = "OnEnded \<in> set es"]) auto
    next
      case (abort code m o2)
      note eff = relay_stop_effects [OF abort(3)] and ov = relay_stop_over [OF abort(3)]
      have "\<not> released r" using now(2) abort(1) by (auto simp: over_def)
      then show ?thesis
        by (intro ends_ok_more [OF IH, where again = False]) (use eff ov abort(2,4) now(1) in auto)
    qed
  qed
qed

lemma relay_stop_writer:
  assumes "relay_stop cfg code r = (relay, out)" shows "ToWriter x \<notin> set out"
proof -
  have quiet: "ToWriter x \<notin> set a" if "react es q = (q', a)" "list_all (\<lambda>y. is_post y \<or> y = CancelReader) es" for es q q' a
    using that
  proof (induction es arbitrary: q a)
    case (Cons y es)
    then show ?case by (cases y) (auto split: prod.splits)
  qed simp
  obtain p o1 where p: "pump_step mapSocketError (relay_handle cfg) (readWindow cfg) (PumpStop code) (relay_pump r) = (p, o1)"
    by fastforce
  obtain r1 a1 where r1: "react o1 (r\<lparr>relay_pump := p\<rparr>) = (r1, a1)" by fastforce
  obtain s o2 where s: "sink_step (sink_config_of cfg) (SinkStop code) (relay_sink r1) = (s, o2)" by fastforce
  obtain r2 a2 where r2: "react o2 (r1\<lparr>relay_sink := s\<rparr>) = (r2, a2)" by fastforce
  have "list_all (\<lambda>y. is_post y \<or> y = CancelReader) o1" "list_all (\<lambda>y. is_post y \<or> y = CancelReader) o2"
    using pump_half.stop_quiet sink_half.stop_quiet p s by (metis snd_conv)+
  then have "ToWriter x \<notin> set a1" "ToWriter x \<notin> set a2" using quiet r1 r2 by blast+
  moreover have "out = a1 @ a2 @ snd (relay_cleanup r2)"
    using assms r1 r2 p s by (auto simp: relay_stop_def on_pump_def on_sink_def split: prod.splits)
  ultimately show ?thesis by (simp add: relay_cleanup_def)
qed

lemma ending_writer:
  assumes live: "\<not> released r" and st: "relay_step cfg e r = (relay, out)" and over: "released relay" and w: "ToWriter x \<in> set out"
  shows "x = WriterAbort \<and> AbortSocket \<in> set out"
proof (cases "ending e")
  case True
  then show ?thesis using relay_stop_writer ending_stops [OF True st] st w by metis
next
  case False
  from False st show ?thesis
  proof (cases rule: not_ending_step)
    case none
    then show ?thesis using live over by simp
  next
    case (pump pe p es)
    then show ?thesis using react_halves [OF pump(2)] live over by simp
  next
    case (sink se s es)
    then show ?thesis using react_halves [OF sink(2)] live over by simp
  next
    case (abort code m o2)
    then show ?thesis using relay_stop_writer [OF abort(3)] w by auto
  qed
qed

text \<open>A relay releases its socket by itself exactly when both directions have ended cleanly: the peer's end was read,
  and the page's end was drained and the socket's own close issued. Either alone is a half-close and keeps it.\<close>

theorem half_close_keeps_the_socket:
  assumes "relay_run cfg events (createSocketRelay cfg) = (relay, acts)"
  shows "(CloseSocket \<in> set acts \<longleftrightarrow> readEnded relay \<and> writeEnded relay) \<and>
    (readEnded relay \<longrightarrow> ReadEvent ReadDone \<in> set events) \<and>
    (writeEnded relay \<longleftrightarrow> ToWriter WriterClose \<in> set acts) \<and> writeEnded relay = sink_ended (relay_sink relay)"
  using relay_ends [OF assms] by (auto simp: ends_ok_def)

text \<open>C37. However a relay ends it ends once and for all: exactly when the port or the socket goes, or the handle is unlinked
  for a reason that destroys the socket, which an abort by the page may do before the sink is done with it, both halves
  are stopped, its registry slot is given back and its port closed, each once in the whole run, and whatever happens
  after that, all it does is report a close that failed. Before that it never cancels the read, so an ordinary close,
  which flushes, loses no bytes to it; and the only thing the writer can still see after its relay is over is the abort
  that ended it, in the same event.\<close>

theorem relay_ends_once:
  assumes "relay_run cfg events (createSocketRelay cfg) = (relay, acts)"
  shows "(released relay \<longleftrightarrow> (\<exists>e\<in>set events. ending e) \<or> AbortSocket \<in> set acts \<and> abort_unlinks cfg \<noteq> None) \<and>
    filter (\<lambda>a. a = Unregister \<or> a = ClosePort) acts = (if released relay then [Unregister, ClosePort] else []) \<and>
    (CancelRead \<in> set acts \<longrightarrow> released relay) \<and>
    (released relay \<longrightarrow> pump_stopped (relay_pump relay) \<and> sink_stopped (relay_sink relay) \<and>
      (\<forall>e a. a \<in> set (snd (relay_step cfg e relay)) \<longrightarrow> (\<exists>m. a = ToPort m))) \<and>
    (\<forall>e x. \<not> released relay \<longrightarrow> released (fst (relay_step cfg e relay)) \<longrightarrow>
      ToWriter x \<in> set (snd (relay_step cfg e relay)) \<longrightarrow> x = WriterAbort \<and> AbortSocket \<in> set (snd (relay_step cfg e relay)))"
proof (intro conjI impI allI)
  note ok = relay_ends [OF assms, unfolded ends_ok_def]
  show "released relay \<longleftrightarrow> (\<exists>e\<in>set events. ending e) \<or> AbortSocket \<in> set acts \<and> abort_unlinks cfg \<noteq> None" using ok by blast
  show "filter (\<lambda>a. a = Unregister \<or> a = ClosePort) acts = (if released relay then [Unregister, ClosePort] else [])"
    using ok by blast
  show "released relay" if "CancelRead \<in> set acts" using ok that by blast
  show "pump_stopped (relay_pump relay)" "sink_stopped (relay_sink relay)" if "released relay"
    using ok that by (simp_all add: over_def)
  show "\<exists>m. a = ToPort m" if "released relay" "a \<in> set (snd (relay_step cfg e relay))" for e a
    using over_step [of relay cfg e "fst (relay_step cfg e relay)" "snd (relay_step cfg e relay)"] ok that
    by (simp add: reports_def)
  show "x = WriterAbort" "AbortSocket \<in> set (snd (relay_step cfg e relay))"
    if "\<not> released relay" "released (fst (relay_step cfg e relay))" "ToWriter x \<in> set (snd (relay_step cfg e relay))" for e x
    using ending_writer [OF that(1) prod.collapse [symmetric] that(2,3)] by blast+
qed

definition sample_relay :: relay_config where
  "sample_relay = \<lparr>relay_handle = js ''h'', readWindow = 4, writeWindow = 8, abort_unlinks = Some (Some E_reset)\<rparr>"

definition sample_relay_events :: "relay_event list" where
  "sample_relay_events = [FromPort (to_value (WriteEndMessage (js ''h''))), ReadEvent ReadDone, Unlinked Closed None, SocketClosed]"

definition sample_relay_actions :: "relay_action list" where
  "sample_relay_actions = [ToWriter WriterClose, ToPort (StreamEndMessage (js ''h'') None None), CloseSocket,
     CancelRead, Unregister, ClosePort]"

lemma sample_relay_run:
  "snd (relay_run sample_relay sample_relay_events (createSocketRelay sample_relay)) = sample_relay_actions"
  by code_simp

lemma sample_relay_run_pair:
  "relay_run sample_relay sample_relay_events (createSocketRelay sample_relay) =
     (fst (relay_run sample_relay sample_relay_events (createSocketRelay sample_relay)), sample_relay_actions)"
  by (metis sample_relay_run prod.collapse)

theorem half_close_keeps_the_socket_witness:
  "readEnded (fst (relay_run sample_relay sample_relay_events (createSocketRelay sample_relay)))"
  using half_close_keeps_the_socket [OF sample_relay_run_pair] by (simp add: sample_relay_actions_def)

theorem relay_ends_once_witness:
  "released (fst (relay_run sample_relay sample_relay_events (createSocketRelay sample_relay)))"
  using relay_ends_once [OF sample_relay_run_pair] by (simp add: sample_relay_events_def)

end

