(* ===== verification/DatagramRelay.thy ===== *)
theory DatagramRelay imports SocketRelay begin

section \<open>A UDP socket's relay (datagram-pump.ts, datagram-sink.ts, datagram.ts)\<close>

text \<open>
  The same shape as a stream relay, counted in datagrams as well as in bytes. The pump suspends at a read
  (\<open>dp_reading\<close>) or at \<open>waitForCredit\<close> (\<open>dp_waiting\<close>), whose wake-up is taken at once: what the loop does after it
  looks only at the state the waker left. The adapter's live discard count is an input of the events that read it.
\<close>

subsection \<open>datagram-pump.ts\<close>

record datagram_pump =
  dp_credit :: rat
  dp_creditBytes :: rat
  dp_stopped :: bool
  dp_ended :: bool
  dp_reading :: bool
  dp_waiting :: bool
  dp_timer :: bool
  dp_reported :: nat

record datagram_config =
  dg_handle :: str
  inboundWindow :: nat
  inboundWindowBytes :: nat
  outboundWindow :: nat

record datagram =
  dg_data :: "nat list"
  dg_address :: str
  dg_port :: nat
  dg_ipv6 :: bool

datatype datagram_pump_event =
  GotDatagram datagram nat
| GotEnd
| GotError "str option" "str option"
| GotCredit str js_number js_number
| DropTimer nat
| DPumpStop "error_code option"

fun usableCredit :: "js_number \<Rightarrow> rat" where
  "usableCredit (Finite n) = (if n \<ge> 0 then n else 0)"
| "usableCredit _ = 0"

definition dp_endOnce :: "str \<Rightarrow> error_code option \<Rightarrow> datagram_pump \<Rightarrow> datagram_pump \<times> relay_effect list" where
  "dp_endOnce handleId code p =
     (if dp_ended p then (p, []) else (p\<lparr>dp_ended := True\<rparr>, [Post (StreamEndMessage handleId code None)]))"

definition armDropReports :: "datagram_pump \<Rightarrow> datagram_pump" where
  "armDropReports p = p\<lparr>dp_timer := True\<rparr>"

definition disarmDropReports :: "datagram_pump \<Rightarrow> datagram_pump" where
  "disarmDropReports p = p\<lparr>dp_timer := False\<rparr>"

text \<open>The head of the loop: leave it, wait for credit, or ask for a read.\<close>

definition dp_turn :: "datagram_pump \<Rightarrow> datagram_pump" where
  "dp_turn p =
     (let p = p\<lparr>dp_reading := False, dp_waiting := False\<rparr> in
      if dp_stopped p then p
      else if dp_credit p \<le> 0 \<or> dp_creditBytes p \<le> 0 then (armDropReports p)\<lparr>dp_waiting := True\<rparr>
      else p\<lparr>dp_reading := True\<rparr>)"

definition dp_wake :: "datagram_pump \<Rightarrow> datagram_pump" where
  "dp_wake p = (if dp_waiting p then dp_turn (disarmDropReports p) else p)"

definition createDatagramPump :: "datagram_config \<Rightarrow> nat \<Rightarrow> datagram_pump" where
  "createDatagramPump cfg droppedInbound =
     dp_turn \<lparr>dp_credit = of_nat (inboundWindow cfg), dp_creditBytes = of_nat (inboundWindowBytes cfg), dp_stopped = False,
       dp_ended = False, dp_reading = False, dp_waiting = False, dp_timer = False, dp_reported = droppedInbound\<rparr>"

definition dp_datagram :: "str \<Rightarrow> datagram \<Rightarrow> nat \<Rightarrow> datagram_pump \<Rightarrow> datagram_pump \<times> relay_effect list" where
  "dp_datagram handleId d dropped p =
     (if dp_stopped p then (p\<lparr>dp_reading := False\<rparr>, [])
      else (dp_turn (p\<lparr>dp_credit := dp_credit p - 1, dp_creditBytes := dp_creditBytes p - of_nat (length (dg_data d)),
                       dp_reported := dropped\<rparr>),
            [Post (DatagramMessage handleId (dg_data d) (dg_address d) (dg_port d) (dg_ipv6 d) dropped)]))"

definition dp_done :: "str \<Rightarrow> datagram_pump \<Rightarrow> datagram_pump \<times> relay_effect list" where
  "dp_done handleId p =
     (let p = p\<lparr>dp_reading := False\<rparr> in if dp_stopped p then (p, []) else dp_endOnce handleId None p)"

text \<open>A raw error: the errno on it, and the \<open>platformCode\<close> it carries where it is one of the broker's own.\<close>

definition dp_error :: "(str option \<Rightarrow> error_code) \<Rightarrow> str \<Rightarrow> str option \<Rightarrow> str option \<Rightarrow> datagram_pump \<Rightarrow> datagram_pump \<times> relay_effect list" where
  "dp_error mapError handleId errno platformCode p =
     (let p = p\<lparr>dp_reading := False\<rparr> in
      if dp_stopped p then (p, [])
      else let code = mapError errno in
        (case dp_endOnce handleId (Some code) p of (p', out) \<Rightarrow> (p', out @ [OnStreamFailed code platformCode])))"

definition dp_handleCredit :: "datagram_config \<Rightarrow> str \<Rightarrow> js_number \<Rightarrow> js_number \<Rightarrow> datagram_pump \<Rightarrow> datagram_pump" where
  "dp_handleCredit cfg handle datagramsConsumed bytesConsumed p =
     (if dp_stopped p \<or> handle \<noteq> dg_handle cfg then p
      else dp_wake (p\<lparr>dp_credit := min (dp_credit p + usableCredit datagramsConsumed) (of_nat (inboundWindow cfg)),
                     dp_creditBytes := min (dp_creditBytes p + usableCredit bytesConsumed) (of_nat (inboundWindowBytes cfg))\<rparr>))"

definition dp_tick :: "str \<Rightarrow> nat \<Rightarrow> datagram_pump \<Rightarrow> datagram_pump \<times> relay_effect list" where
  "dp_tick handleId dropped p =
     (if dropped = dp_reported p then (p, [])
      else (p\<lparr>dp_reported := dropped\<rparr>, [Post (DatagramDropMessage handleId dropped)]))"

definition dp_stop :: "str \<Rightarrow> error_code option \<Rightarrow> datagram_pump \<Rightarrow> datagram_pump \<times> relay_effect list" where
  "dp_stop handleId code p =
     (if dp_stopped p then (p, [])
      else (case dp_endOnce handleId code (dp_wake (disarmDropReports (p\<lparr>dp_stopped := True\<rparr>))) of
              (p', out) \<Rightarrow> (p', out @ [CancelReader])))"

fun dp_step :: "(str option \<Rightarrow> error_code) \<Rightarrow> datagram_config \<Rightarrow> datagram_pump_event \<Rightarrow> datagram_pump \<Rightarrow> datagram_pump \<times> relay_effect list" where
  "dp_step mapError cfg (GotDatagram d dropped) p = (if dp_reading p then dp_datagram (dg_handle cfg) d dropped p else (p, []))"
| "dp_step mapError cfg GotEnd p = (if dp_reading p then dp_done (dg_handle cfg) p else (p, []))"
| "dp_step mapError cfg (GotError errno platformCode) p =
     (if dp_reading p then dp_error mapError (dg_handle cfg) errno platformCode p else (p, []))"
| "dp_step mapError cfg (GotCredit h n b) p = (dp_handleCredit cfg h n b p, [])"
| "dp_step mapError cfg (DropTimer dropped) p = (if dp_timer p then dp_tick (dg_handle cfg) dropped p else (p, []))"
| "dp_step mapError cfg (DPumpStop code) p = dp_stop (dg_handle cfg) code p"

subsection \<open>datagram-sink.ts\<close>

record datagram_sink =
  ds_stopped :: bool
  inFlight :: nat
  ds_dropped :: nat
  pendingAcks :: nat
  ackScheduled :: bool

text \<open>What \<open>sendDatagram\<close> comes to: sent, refused with a code and perhaps an errno, or rejected.\<close>

datatype send_outcome = Sent | Refused error_code "str option" | SendRejected

datatype datagram_sink_event =
  Send str "nat list" str nat
| InvalidSend str js_number
| Outcome send_outcome str nat
| AckTurn
| DSinkStop "error_code option"

definition createDatagramSink :: datagram_sink where
  "createDatagramSink = \<lparr>ds_stopped = False, inFlight = 0, ds_dropped = 0, pendingAcks = 0, ackScheduled = False\<rparr>"

definition scheduleAck :: "datagram_sink \<Rightarrow> datagram_sink" where
  "scheduleAck s = s\<lparr>ackScheduled := True\<rparr>"

definition ack_turn :: "str \<Rightarrow> datagram_sink \<Rightarrow> datagram_sink \<times> relay_effect list" where
  "ack_turn handleId s =
     (let s = s\<lparr>ackScheduled := False\<rparr> in
      if ds_stopped s \<or> pendingAcks s = 0 then (s, [])
      else (s\<lparr>pendingAcks := 0\<rparr>, [Post (SendAckMessage handleId (pendingAcks s))]))"

definition reportRefusal :: "str \<Rightarrow> error_code \<Rightarrow> str option \<Rightarrow> str \<Rightarrow> js_number \<Rightarrow> datagram_sink \<Rightarrow> datagram_sink \<times> relay_effect list" where
  "reportRefusal handleId code platformCode dest destPort s =
     (let dropped = ds_dropped s + 1 in
      (s\<lparr>ds_dropped := dropped\<rparr>, [Post (SendFailedMessage handleId code platformCode dropped dest destPort)]))"

definition handleSend :: "datagram_config \<Rightarrow> str \<Rightarrow> nat list \<Rightarrow> str \<Rightarrow> nat \<Rightarrow> datagram_sink \<Rightarrow> datagram_sink \<times> relay_effect list" where
  "handleSend cfg handle payload dest destPort s =
     (if ds_stopped s \<or> handle \<noteq> dg_handle cfg then (s, [])
      else if inFlight s \<ge> outboundWindow cfg then (s\<lparr>ds_stopped := True\<rparr>, [OnSinkFailed E_limit None])
      else (s\<lparr>inFlight := inFlight s + 1\<rparr>, [SendDatagram payload dest destPort (58 \<in> set dest)]))"

definition send_settled :: "str \<Rightarrow> send_outcome \<Rightarrow> str \<Rightarrow> nat \<Rightarrow> datagram_sink \<Rightarrow> datagram_sink \<times> relay_effect list" where
  "send_settled handleId outcome dest destPort s =
     (let s = s\<lparr>inFlight := inFlight s - 1\<rparr> in
      if ds_stopped s then (s, [])
      else (case outcome of
              Sent \<Rightarrow> (scheduleAck (s\<lparr>pendingAcks := pendingAcks s + 1\<rparr>), [])
            | Refused code platformCode \<Rightarrow> reportRefusal handleId code platformCode dest (Finite (of_nat destPort)) s
            | SendRejected \<Rightarrow> reportRefusal handleId E_internal None dest (Finite (of_nat destPort)) s))"

definition refuseInvalid :: "str \<Rightarrow> str \<Rightarrow> js_number \<Rightarrow> datagram_sink \<Rightarrow> datagram_sink \<times> relay_effect list" where
  "refuseInvalid handleId dest destPort s =
     (if ds_stopped s then (s, []) else reportRefusal handleId E_invalid None dest destPort s)"

fun ds_step :: "datagram_config \<Rightarrow> datagram_sink_event \<Rightarrow> datagram_sink \<Rightarrow> datagram_sink \<times> relay_effect list" where
  "ds_step cfg (Send h payload dest destPort) s = handleSend cfg h payload dest destPort s"
| "ds_step cfg (InvalidSend dest destPort) s = refuseInvalid (dg_handle cfg) dest destPort s"
| "ds_step cfg (Outcome outcome dest destPort) s =
     (if inFlight s > 0 then send_settled (dg_handle cfg) outcome dest destPort s else (s, []))"
| "ds_step cfg AckTurn s = (if ackScheduled s then ack_turn (dg_handle cfg) s else (s, []))"
| "ds_step cfg (DSinkStop code) s = (s\<lparr>ds_stopped := True\<rparr>, [])"

subsection \<open>datagram.ts\<close>

record datagram_relay =
  dr_pump :: datagram_pump
  dr_sink :: datagram_sink
  dr_released :: bool

datatype datagram_relay_event =
  DFromPort js_value
| DPortClosed
| DUnlinked close_reason "error_code option"
| DSocketClosed
| DSocketClosedWith "error_code option"
| DReadEvent datagram_pump_event
| DSendEvent datagram_sink_event

definition createDatagramRelay :: "datagram_config \<Rightarrow> nat \<Rightarrow> datagram_relay" where
  "createDatagramRelay cfg droppedInbound =
     \<lparr>dr_pump = createDatagramPump cfg droppedInbound, dr_sink = createDatagramSink, dr_released = False\<rparr>"

fun dr_act :: "relay_effect \<Rightarrow> relay_action" where
  "dr_act (Post m) = ToPort m"
| "dr_act (OnStreamFailed code platformCode) = FailSocket code platformCode"
| "dr_act (OnSinkFailed code platformCode) = FailSocket code platformCode"
| "dr_act CancelReader = CancelRead"
| "dr_act e = ToWriter e"

definition dr_on_pump :: "datagram_config \<Rightarrow> datagram_pump_event \<Rightarrow> datagram_relay \<Rightarrow> datagram_relay \<times> relay_action list" where
  "dr_on_pump cfg e r =
     (case dp_step mapSocketError cfg e (dr_pump r) of (p, out) \<Rightarrow> (r\<lparr>dr_pump := p\<rparr>, map dr_act out))"

definition dr_on_sink :: "datagram_config \<Rightarrow> datagram_sink_event \<Rightarrow> datagram_relay \<Rightarrow> datagram_relay \<times> relay_action list" where
  "dr_on_sink cfg e r =
     (case ds_step cfg e (dr_sink r) of (s, out) \<Rightarrow> (r\<lparr>dr_sink := s\<rparr>, map dr_act out))"

definition dr_cleanup :: "datagram_relay \<Rightarrow> datagram_relay \<times> relay_action list" where
  "dr_cleanup r = (if dr_released r then (r, []) else (r\<lparr>dr_released := True\<rparr>, [Unregister, ClosePort]))"

definition dr_stop :: "datagram_config \<Rightarrow> error_code option \<Rightarrow> datagram_relay \<Rightarrow> datagram_relay \<times> relay_action list" where
  "dr_stop cfg code r =
     (let (r, out1) = dr_on_pump cfg (DPumpStop code) r;
          (r, out2) = dr_on_sink cfg (DSinkStop code) r;
          (r, out3) = dr_cleanup r
      in (r, out1 @ out2 @ out3))"

definition dr_on_message :: "datagram_config \<Rightarrow> js_value \<Rightarrow> datagram_relay \<Rightarrow> datagram_relay \<times> relay_action list" where
  "dr_on_message cfg raw r =
     (case parseRendererToBrokerMessage raw of
        None \<Rightarrow> (case malformedSendDestination raw (dg_handle cfg) of
                  Some (dest, destPort) \<Rightarrow> dr_on_sink cfg (InvalidSend dest destPort) r
                | None \<Rightarrow> (r, []))
      | Some (DatagramCreditMessage h n b) \<Rightarrow> dr_on_pump cfg (GotCredit h (Finite n) (Finite b)) r
      | Some (SendMessage h payload dest destPort) \<Rightarrow> dr_on_sink cfg (Send h payload dest destPort) r
      | Some _ \<Rightarrow> (r, []))"

text \<open>What the stream, the timer, the adapter and the microtask queue do, as opposed to the port and \<open>stop\<close>.\<close>

fun dp_environment :: "datagram_pump_event \<Rightarrow> bool" where
  "dp_environment (GotCredit _ _ _) = False"
| "dp_environment (DPumpStop _) = False"
| "dp_environment _ = True"

fun ds_environment :: "datagram_sink_event \<Rightarrow> bool" where
  "ds_environment (Outcome _ _ _) = True"
| "ds_environment AckTurn = True"
| "ds_environment _ = False"

fun dr_step :: "datagram_config \<Rightarrow> datagram_relay_event \<Rightarrow> datagram_relay \<Rightarrow> datagram_relay \<times> relay_action list" where
  "dr_step cfg (DFromPort raw) r = dr_on_message cfg raw r"
| "dr_step cfg DPortClosed r = dr_stop cfg None r"
| "dr_step cfg (DUnlinked reason code) r = dr_stop cfg code r"
| "dr_step cfg DSocketClosed r = dr_stop cfg None r"
| "dr_step cfg (DSocketClosedWith code) r = dr_stop cfg (Some (case code of Some c \<Rightarrow> c | None \<Rightarrow> E_internal)) r"
| "dr_step cfg (DReadEvent e) r = (if dp_environment e then dr_on_pump cfg e r else (r, []))"
| "dr_step cfg (DSendEvent e) r = (if ds_environment e then dr_on_sink cfg e r else (r, []))"

fun dr_run :: "datagram_config \<Rightarrow> datagram_relay_event list \<Rightarrow> datagram_relay \<Rightarrow> datagram_relay \<times> relay_action list" where
  "dr_run cfg [] r = (r, [])"
| "dr_run cfg (e # es) r =
     (case dr_step cfg e r of (r', out) \<Rightarrow> (case dr_run cfg es r' of (r'', out') \<Rightarrow> (r'', out @ out')))"

named_theorems dg_defs
lemmas [dg_defs] = dp_endOnce_def armDropReports_def disarmDropReports_def dp_turn_def dp_wake_def dp_datagram_def dp_done_def
  dp_error_def dp_handleCredit_def dp_tick_def dp_stop_def scheduleAck_def ack_turn_def reportRefusal_def handleSend_def
  send_settled_def refuseInvalid_def

interpretation datagram_pump_half: relay_half "dp_step mapError cfg" DPumpStop dp_stopped
proof
  fix e and p :: datagram_pump assume "dp_stopped p"
  then show "dp_stopped (fst (dp_step mapError cfg e p))" "list_all is_post (snd (dp_step mapError cfg e p))"
    by (cases e; simp add: dg_defs Let_def)+
qed (auto simp: dg_defs Let_def)

interpretation datagram_sink_half: relay_half "ds_step cfg" DSinkStop ds_stopped
proof
  fix e and s :: datagram_sink assume "ds_stopped s"
  then show "ds_stopped (fst (ds_step cfg e s))" "list_all is_post (snd (ds_step cfg e s))"
    by (cases e; simp add: dg_defs Let_def)+
qed auto

section \<open>The inbound window\<close>

definition received :: "relay_action list \<Rightarrow> nat" where
  "received acts = length (filter (\<lambda>a. case a of ToPort (DatagramMessage _ _ _ _ _ _) \<Rightarrow> True | _ \<Rightarrow> False) acts)"

definition received_bytes :: "relay_action list \<Rightarrow> nat" where
  "received_bytes acts = sum_list (map (\<lambda>a. case a of ToPort (DatagramMessage _ bs _ _ _ _) \<Rightarrow> length bs | _ \<Rightarrow> 0) acts)"

text \<open>The credit for the handle in the messages of a run.\<close>

fun datagram_credit :: "str \<Rightarrow> datagram_relay_event \<Rightarrow> rat \<times> rat" where
  "datagram_credit h (DFromPort raw) =
     (case parseRendererToBrokerMessage raw of
        Some (DatagramCreditMessage h' n b) \<Rightarrow> if h' = h then (n, b) else (0, 0)
      | _ \<Rightarrow> (0, 0))"
| "datagram_credit h _ = (0, 0)"

definition credited_datagrams :: "str \<Rightarrow> datagram_relay_event list \<Rightarrow> rat" where
  "credited_datagrams h events = sum_list (map (fst \<circ> datagram_credit h) events)"

definition credited_datagram_bytes :: "str \<Rightarrow> datagram_relay_event list \<Rightarrow> rat" where
  "credited_datagram_bytes h events = sum_list (map (snd \<circ> datagram_credit h) events)"

lemma received_simps [simp]:
  "received [] = 0" "received (acts @ acts') = received acts + received acts'"
  "received_bytes [] = 0" "received_bytes (acts @ acts') = received_bytes acts + received_bytes acts'"
  by (simp_all add: received_def received_bytes_def)

definition dp_ok :: "datagram_config \<Rightarrow> nat \<Rightarrow> datagram_pump \<Rightarrow> bool" where
  "dp_ok cfg m p \<longleftrightarrow> dp_credit p \<le> of_nat (inboundWindow cfg) \<and> dp_creditBytes p \<le> of_nat (inboundWindowBytes cfg) \<and>
     -1 < dp_credit p \<and> - of_nat m \<le> dp_creditBytes p \<and>
     (dp_reading p \<and> \<not> dp_stopped p \<longrightarrow> 0 < dp_credit p \<and> 0 < dp_creditBytes p) \<and>
     (\<not> dp_stopped p \<and> \<not> dp_ended p \<longrightarrow> (dp_reading p \<longleftrightarrow> 0 < dp_credit p \<and> 0 < dp_creditBytes p) \<and> (dp_waiting p \<longleftrightarrow> \<not> dp_reading p))"

lemma createDatagramPump_ok: "dp_ok cfg m (createDatagramPump cfg dropped)"
  by (auto simp: dp_ok_def createDatagramPump_def dg_defs Let_def)

definition fits :: "nat \<Rightarrow> datagram_relay_event \<Rightarrow> bool" where
  "fits m e \<longleftrightarrow> (\<forall>d dropped. e = DReadEvent (GotDatagram d dropped) \<longrightarrow> length (dg_data d) \<le> m)"

lemma dp_turn_ok:
  assumes "dp_credit p \<le> of_nat (inboundWindow cfg)" "dp_creditBytes p \<le> of_nat (inboundWindowBytes cfg)"
    "-1 < dp_credit p" "- of_nat m \<le> dp_creditBytes p"
  shows "dp_ok cfg m (dp_turn p)" and "dp_credit (dp_turn p) = dp_credit p" and "dp_creditBytes (dp_turn p) = dp_creditBytes p"
  using assms by (auto simp: dp_ok_def dp_turn_def armDropReports_def Let_def)

text \<open>One pump event keeps the windows, and what it posts is what it took off the credit.\<close>

definition posted_datagrams :: "relay_effect list \<Rightarrow> nat" where
  "posted_datagrams out = received (map dr_act out)"

definition posted_datagram_bytes :: "relay_effect list \<Rightarrow> nat" where
  "posted_datagram_bytes out = received_bytes (map dr_act out)"

fun pump_event_credit :: "str \<Rightarrow> datagram_pump_event \<Rightarrow> rat \<times> rat" where
  "pump_event_credit h (GotCredit h' n b) = (if h' = h then (usableCredit n, usableCredit b) else (0, 0))"
| "pump_event_credit h _ = (0, 0)"

lemma usableCredit_nonneg: "0 \<le> usableCredit n"
  by (cases n) auto

lemma dp_okI:
  assumes "dp_credit p \<le> of_nat (inboundWindow cfg)" "dp_creditBytes p \<le> of_nat (inboundWindowBytes cfg)"
    "-1 < dp_credit p" "- of_nat m \<le> dp_creditBytes p"
    and "dp_stopped p \<or> (dp_reading p \<longrightarrow> 0 < dp_credit p \<and> 0 < dp_creditBytes p)"
    and "dp_stopped p \<or> dp_ended p \<or> (0 < dp_credit p \<and> 0 < dp_creditBytes p \<longrightarrow> dp_reading p)"
    and "dp_stopped p \<or> dp_ended p \<or> (dp_waiting p \<longleftrightarrow> \<not> dp_reading p)"
  shows "dp_ok cfg m p"
  using assms unfolding dp_ok_def by blast

lemma dp_okD:
  assumes "dp_ok cfg m p"
  shows "dp_credit p \<le> of_nat (inboundWindow cfg)" "dp_creditBytes p \<le> of_nat (inboundWindowBytes cfg)"
    "-1 < dp_credit p" "- of_nat m \<le> dp_creditBytes p"
    "dp_stopped p \<or> (dp_reading p \<longrightarrow> 0 < dp_credit p \<and> 0 < dp_creditBytes p)"
    "dp_stopped p \<or> dp_ended p \<or> (0 < dp_credit p \<and> 0 < dp_creditBytes p \<longrightarrow> dp_reading p)"
    "dp_stopped p \<or> dp_ended p \<or> (dp_waiting p \<longleftrightarrow> \<not> dp_reading p)"
  using assms unfolding dp_ok_def by blast+

lemma dp_wake_ok:
  assumes ok: "dp_ok cfg m p" and w: "c \<le> of_nat (inboundWindow cfg)" "b \<le> of_nat (inboundWindowBytes cfg)"
    and more: "dp_credit p \<le> c" "dp_creditBytes p \<le> b"
  shows "dp_ok cfg m (dp_wake (p\<lparr>dp_credit := c, dp_creditBytes := b\<rparr>))"
proof (cases "dp_waiting p")
  case True
  have lo: "-1 < c" "- of_nat m \<le> b" using dp_okD(3,4) [OF ok] more by linarith+
  show ?thesis using True w lo by (simp add: dp_wake_def disarmDropReports_def dp_turn_ok)
next
  case False
  have r: "dp_reading p \<longrightarrow> dp_stopped p \<or> 0 < c \<and> 0 < b" using dp_okD(5) [OF ok] more by linarith
  show ?thesis
    by (rule dp_okI) (use False w more dp_okD(3,4,7) [OF ok] r in \<open>auto simp: dp_wake_def\<close>)
qed

lemma dp_wake_credit: "dp_credit (dp_wake p) = dp_credit p" "dp_creditBytes (dp_wake p) = dp_creditBytes p"
  by (auto simp: dp_wake_def dp_turn_def disarmDropReports_def armDropReports_def Let_def)

definition window_step :: "datagram_pump \<Rightarrow> rat \<times> rat \<Rightarrow> relay_effect list \<Rightarrow> datagram_pump \<Rightarrow> bool" where
  "window_step p credit out p' \<longleftrightarrow>
     dp_credit p' + of_nat (posted_datagrams out) \<le> dp_credit p + fst credit \<and>
     dp_creditBytes p' + of_nat (posted_datagram_bytes out) \<le> dp_creditBytes p + snd credit"

lemma posted_simps [simp]:
  "posted_datagrams [] = 0" "posted_datagram_bytes [] = 0"
  "posted_datagrams (Post m # out) = (case m of DatagramMessage _ _ _ _ _ _ \<Rightarrow> 1 | _ \<Rightarrow> 0) + posted_datagrams out"
  "posted_datagram_bytes (Post m # out) = (case m of DatagramMessage _ bs _ _ _ _ \<Rightarrow> length bs | _ \<Rightarrow> 0) + posted_datagram_bytes out"
  "posted_datagrams (OnStreamFailed code e # out) = posted_datagrams out"
  "posted_datagram_bytes (OnStreamFailed code e # out) = posted_datagram_bytes out"
  "posted_datagrams (CancelReader # out) = posted_datagrams out"
  "posted_datagram_bytes (CancelReader # out) = posted_datagram_bytes out"
  by (cases m; simp add: posted_datagrams_def posted_datagram_bytes_def received_def received_bytes_def)+

lemma dp_ok_parked:
  assumes ok: "dp_ok cfg m p" and over: "dp_stopped q \<or> dp_ended q" "\<not> dp_reading q \<or> dp_stopped q"
    and same: "dp_credit q = dp_credit p" "dp_creditBytes q = dp_creditBytes p"
  shows "dp_ok cfg m q"
proof (rule dp_okI)
  show "dp_stopped q \<or> (dp_reading q \<longrightarrow> 0 < dp_credit q \<and> 0 < dp_creditBytes q)" by (rule disjE [OF over(2)]; simp)
  show "dp_stopped q \<or> dp_ended q \<or> (0 < dp_credit q \<and> 0 < dp_creditBytes q \<longrightarrow> dp_reading q)" by (rule disjE [OF over(1)]; simp)
  show "dp_stopped q \<or> dp_ended q \<or> (dp_waiting q \<longleftrightarrow> \<not> dp_reading q)" by (rule disjE [OF over(1)]; simp)
qed (simp_all only: same dp_okD(1-4) [OF ok])

lemma dp_ok_reported: "dp_ok cfg m (p\<lparr>dp_reported := x\<rparr>) = dp_ok cfg m p"
  by (simp add: dp_ok_def)

lemma dp_step_window:
  assumes ok: "dp_ok cfg m p" and st: "dp_step mapError cfg e p = (p', out)"
    and fit: "\<forall>d dropped. e = GotDatagram d dropped \<longrightarrow> length (dg_data d) \<le> m"
  shows "dp_ok cfg m p' \<and> window_step p (pump_event_credit (dg_handle cfg) e) out p'"
proof (cases e)
  case (GotDatagram d dropped)
  show ?thesis
  proof (cases "dp_reading p \<and> \<not> dp_stopped p")
    case True
    have pos: "0 < dp_credit p" "0 < dp_creditBytes p" using dp_okD(5) [OF ok] True by blast+
    have len: "of_nat (length (dg_data d)) \<le> (of_nat m :: rat)" using fit GotDatagram by simp
    have lo: "-1 < dp_credit p - 1" "- of_nat m \<le> dp_creditBytes p - of_nat (length (dg_data d))"
      and hi: "dp_credit p - 1 \<le> of_nat (inboundWindow cfg)"
        "dp_creditBytes p - of_nat (length (dg_data d)) \<le> of_nat (inboundWindowBytes cfg)"
      using pos len dp_okD(1,2) [OF ok] by linarith+
    show ?thesis using st True GotDatagram lo hi by (auto simp: window_step_def dp_datagram_def dp_turn_ok)
  next
    case False
    then have "p' = p \<or> dp_stopped p \<and> p' = p\<lparr>dp_reading := False\<rparr>" "out = []"
      using st by (simp_all add: GotDatagram dp_datagram_def split: if_splits)
    then show ?thesis using ok dp_ok_parked [OF ok, of p'] by (auto simp: GotDatagram window_step_def)
  qed
next
  case GotEnd
  have "p' = p \<or> (dp_stopped p' \<or> dp_ended p') \<and> \<not> dp_reading p'"
    using st by (auto simp: GotEnd dp_done_def dp_endOnce_def Let_def split: if_splits)
  moreover have "dp_credit p' = dp_credit p" "dp_creditBytes p' = dp_creditBytes p" "posted_datagrams out = 0" "posted_datagram_bytes out = 0"
    using st by (auto simp: GotEnd dp_done_def dp_endOnce_def Let_def split: if_splits)
  ultimately show ?thesis using ok dp_ok_parked [OF ok, of p'] by (auto simp: GotEnd window_step_def)
next
  case (GotError errno code)
  have "p' = p \<or> (dp_stopped p' \<or> dp_ended p') \<and> \<not> dp_reading p'"
    using st by (auto simp: GotError dp_error_def dp_endOnce_def Let_def split: if_splits)
  moreover have "dp_credit p' = dp_credit p" "dp_creditBytes p' = dp_creditBytes p" "posted_datagrams out = 0" "posted_datagram_bytes out = 0"
    using st by (auto simp: GotError dp_error_def dp_endOnce_def Let_def split: if_splits)
  ultimately show ?thesis using ok dp_ok_parked [OF ok, of p'] by (auto simp: GotError window_step_def)
next
  case (GotCredit h n b)
  have nn: "0 \<le> usableCredit n" "0 \<le> usableCredit b" by (simp_all add: usableCredit_nonneg)
  show ?thesis
  proof (cases "dp_stopped p \<or> h \<noteq> dg_handle cfg")
    case True
    then have "p' = p" "out = []" using st by (simp_all add: GotCredit dp_handleCredit_def)
    then show ?thesis using ok nn by (simp add: GotCredit window_step_def)
  next
    case False
    have hi: "dp_credit p \<le> min (dp_credit p + usableCredit n) (of_nat (inboundWindow cfg))"
      "dp_creditBytes p \<le> min (dp_creditBytes p + usableCredit b) (of_nat (inboundWindowBytes cfg))"
      using nn dp_okD(1,2) [OF ok] by simp_all
    have "dp_ok cfg m p'" using st False GotCredit dp_wake_ok [OF ok _ _ hi] by (simp add: dp_handleCredit_def)
    then show ?thesis using st False nn GotCredit by (auto simp: window_step_def dp_handleCredit_def dp_wake_credit)
  qed
next
  case (DropTimer dropped)
  have "\<exists>x. p' = p\<lparr>dp_reported := x\<rparr>" "posted_datagrams out = 0" "posted_datagram_bytes out = 0"
    using st by (auto simp: DropTimer dp_tick_def split: if_splits) (metis datagram_pump.surjective datagram_pump.update_convs(8))+
  then show ?thesis using ok dp_ok_reported by (auto simp: DropTimer window_step_def)
next
  case (DPumpStop code)
  show ?thesis
  proof (cases "dp_stopped p")
    case True
    then have "p' = p" "out = []" using st by (simp_all add: DPumpStop dp_stop_def)
    then show ?thesis using ok by (simp add: DPumpStop window_step_def)
  next
    case False
    let ?q = "dp_wake (disarmDropReports (p\<lparr>dp_stopped := True\<rparr>))"
    have q: "dp_credit ?q = dp_credit p" "dp_creditBytes ?q = dp_creditBytes p" "dp_stopped ?q"
      by (simp_all add: dp_wake_credit) (auto simp: dp_wake_def dp_turn_def disarmDropReports_def Let_def)
    obtain p1 o1 where e: "dp_endOnce (dg_handle cfg) code ?q = (p1, o1)" by fastforce
    have r: "p' = p1" "out = o1 @ [CancelReader]" using st False DPumpStop e by (simp_all add: dp_stop_def)
    have "dp_credit p1 = dp_credit p" "dp_creditBytes p1 = dp_creditBytes p" "dp_stopped p1"
      "posted_datagrams (o1 @ [CancelReader]) = 0" "posted_datagram_bytes (o1 @ [CancelReader]) = 0"
      using e q by (auto simp: dp_endOnce_def split: if_splits)
    then show ?thesis using dp_ok_parked [OF ok, of p1] by (simp add: r DPumpStop window_step_def)
  qed
qed

section \<open>A relay's steps\<close>

text \<open>A send the parser refuses that still names a destination.\<close>

fun refused_unread :: "str \<Rightarrow> datagram_relay_event \<Rightarrow> bool" where
  "refused_unread h (DFromPort raw) = (parseRendererToBrokerMessage raw = None \<and> malformedSendDestination raw h \<noteq> None)"
| "refused_unread h _ = False"

text \<open>What ends a relay.\<close>

fun dr_ending :: "datagram_relay_event \<Rightarrow> bool" where
  "dr_ending DPortClosed = True"
| "dr_ending (DUnlinked _ _) = True"
| "dr_ending DSocketClosed = True"
| "dr_ending (DSocketClosedWith _) = True"
| "dr_ending _ = False"

lemma dr_step_cases:
  assumes "dr_step cfg e r = (r', out)"
  obtains (none) "r' = r" "out = []" "datagram_credit (dg_handle cfg) e = (0, 0)" "\<not> refused_unread (dg_handle cfg) e" "\<not> dr_ending e"
    | (pump) pe where "dr_on_pump cfg pe r = (r', out)" "\<And>code. pe \<noteq> DPumpStop code"
        "datagram_credit (dg_handle cfg) e = pump_event_credit (dg_handle cfg) pe"
        "\<And>d dropped. pe = GotDatagram d dropped \<Longrightarrow> e = DReadEvent pe"
        "\<not> refused_unread (dg_handle cfg) e" "\<not> dr_ending e"
    | (sink) se where "dr_on_sink cfg se r = (r', out)" "\<And>code. se \<noteq> DSinkStop code"
        "datagram_credit (dg_handle cfg) e = (0, 0)"
        "(case se of InvalidSend _ _ \<Rightarrow> 1 | _ \<Rightarrow> 0) = (if refused_unread (dg_handle cfg) e then 1 else 0 :: nat)"
        "\<not> dr_ending e"
    | (stop) code where "dr_stop cfg code r = (r', out)" "datagram_credit (dg_handle cfg) e = (0, 0)" "\<not> refused_unread (dg_handle cfg) e" "dr_ending e"
proof (cases e)
  case (DFromPort raw)
  then have m: "dr_on_message cfg raw r = (r', out)" using assms by simp
  show thesis
  proof (cases "parseRendererToBrokerMessage raw")
    case None
    then show thesis
      using m DFromPort none sink [of "InvalidSend dest destPort" for dest destPort]
      by (cases "malformedSendDestination raw (dg_handle cfg)") (auto simp: dr_on_message_def)
  next
    case (Some msg)
    then have "in_bounds msg" by (rule parsed_in_bounds)
    show thesis
    proof (cases msg)
      case (DatagramCreditMessage h n b)
      then have "0 \<le> n" "0 \<le> b" using \<open>in_bounds msg\<close> by simp_all
      then show thesis
        using m Some DatagramCreditMessage by (intro pump [of "GotCredit h (Finite n) (Finite b)"]) (simp_all add: dr_on_message_def DFromPort)
    next
      case (SendMessage h bs a p)
      then show thesis
        using m Some by (intro sink [of "Send h bs a p"]) (simp_all add: dr_on_message_def DFromPort)
    qed (use m Some none in \<open>simp_all add: dr_on_message_def DFromPort\<close>)
  qed
next
  case (DReadEvent pe)
  then show thesis using assms none pump [of pe] by (cases "dp_environment pe"; cases pe) simp_all
next
  case (DSendEvent se)
  then show thesis using assms none sink [of se] by (cases "ds_environment se"; cases se) simp_all
qed (use assms stop in simp_all)

lemma dr_run_append:
  "dr_run cfg (es @ es2) r =
     (case dr_run cfg es r of (r', out) \<Rightarrow> (case dr_run cfg es2 r' of (r'', out') \<Rightarrow> (r'', out @ out')))"
  by (induction es arbitrary: r) (auto split: prod.splits)

lemma dr_run_snoc:
  "dr_run cfg (es @ [e]) r = (case dr_run cfg es r of (r', out) \<Rightarrow> (case dr_step cfg e r' of (r'', out') \<Rightarrow> (r'', out @ out')))"
  by (auto simp: dr_run_append split: prod.splits)

lemma dr_stop_parts:
  assumes "dr_stop cfg code r = (r', out)"
  obtains p o1 s where "dp_step mapSocketError cfg (DPumpStop code) (dr_pump r) = (p, o1)"
    "ds_step cfg (DSinkStop code) (dr_sink r) = (s, [])"
    "r' = r\<lparr>dr_pump := p, dr_sink := s, dr_released := True\<rparr>"
    "out = map dr_act o1 @ (if dr_released r then [] else [Unregister, ClosePort])"
proof -
  obtain p o1 where p: "dp_step mapSocketError cfg (DPumpStop code) (dr_pump r) = (p, o1)" by fastforce
  show thesis
    by (rule that [OF p]) (use assms p in \<open>auto simp: dr_stop_def dr_on_pump_def dr_on_sink_def dr_cleanup_def split: if_splits\<close>)
qed

text \<open>The windows, one event at a time and over a run.\<close>

definition window_moves :: "datagram_relay \<Rightarrow> rat \<times> rat \<Rightarrow> relay_action list \<Rightarrow> datagram_relay \<Rightarrow> bool" where
  "window_moves r credit out r' \<longleftrightarrow>
     dp_credit (dr_pump r') + of_nat (received out) \<le> dp_credit (dr_pump r) + fst credit \<and>
     dp_creditBytes (dr_pump r') + of_nat (received_bytes out) \<le> dp_creditBytes (dr_pump r) + snd credit"

lemma sink_sends_no_datagram:
  "ds_step cfg e s = (s', out) \<Longrightarrow> received (map dr_act out) = 0 \<and> received_bytes (map dr_act out) = 0"
  by (cases e) (auto simp: dg_defs received_def received_bytes_def Let_def split: if_splits send_outcome.splits)

lemma dr_step_window:
  assumes ok: "dp_ok cfg m (dr_pump r)" and st: "dr_step cfg e r = (r', out)" and fit: "fits m e"
  shows "dp_ok cfg m (dr_pump r') \<and> window_moves r (datagram_credit (dg_handle cfg) e) out r'"
  using st
proof (cases rule: dr_step_cases)
  case none
  then show ?thesis using ok by (simp add: window_moves_def)
next
  case (pump pe)
  obtain p o1 where p: "dp_step mapSocketError cfg pe (dr_pump r) = (p, o1)" by fastforce
  have "\<forall>d dropped. pe = GotDatagram d dropped \<longrightarrow> length (dg_data d) \<le> m"
    using fit pump(4) by (auto simp: fits_def)
  from dp_step_window [OF ok p this] show ?thesis
    using pump(1,3) p by (auto simp: dr_on_pump_def window_step_def window_moves_def posted_datagrams_def posted_datagram_bytes_def)
next
  case (sink se)
  then show ?thesis using ok by (auto simp: dr_on_sink_def window_moves_def dest: sink_sends_no_datagram split: prod.splits)
next
  case (stop code)
  from stop(1) obtain p o1 s where p: "dp_step mapSocketError cfg (DPumpStop code) (dr_pump r) = (p, o1)"
    "r' = r\<lparr>dr_pump := p, dr_sink := s, dr_released := True\<rparr>"
    "out = map dr_act o1 @ (if dr_released r then [] else [Unregister, ClosePort])"
    by (rule dr_stop_parts)
  have none: "received [Unregister, ClosePort] = 0" "received_bytes [Unregister, ClosePort] = 0"
    by (simp_all add: received_def received_bytes_def)
  from dp_step_window [OF ok p(1)] show ?thesis
    using p(2,3) stop(2) none by (simp add: window_step_def window_moves_def posted_datagrams_def posted_datagram_bytes_def)
qed

lemma dr_run_window:
  assumes "dr_run cfg events r = (r', acts)" and "dp_ok cfg m (dr_pump r)" and "\<forall>e\<in>set events. fits m e"
  shows "dp_ok cfg m (dr_pump r') \<and>
    window_moves r (credited_datagrams (dg_handle cfg) events, credited_datagram_bytes (dg_handle cfg) events) acts r'"
  using assms
proof (induction events arbitrary: r acts)
  case Nil
  then show ?case by (simp add: window_moves_def credited_datagrams_def credited_datagram_bytes_def)
next
  case (Cons e events)
  obtain r1 o1 where st: "dr_step cfg e r = (r1, o1)" by fastforce
  obtain o2 where run: "dr_run cfg events r1 = (r', o2)" and acts: "acts = o1 @ o2"
    using Cons.prems(1) st by (auto split: prod.splits)
  have one: "dp_ok cfg m (dr_pump r1) \<and> window_moves r (datagram_credit (dg_handle cfg) e) o1 r1"
    using dr_step_window [OF Cons.prems(2) st] Cons.prems(3) by simp
  with Cons.IH [OF run] Cons.prems(3) show ?case
    unfolding acts by (auto simp: window_moves_def credited_datagrams_def credited_datagram_bytes_def)
qed

section \<open>Every datagram the page sends is answered\<close>

fun acked :: "relay_action list \<Rightarrow> nat" where
  "acked [] = 0"
| "acked (ToPort (SendAckMessage _ n) # acts) = n + acked acts"
| "acked (_ # acts) = acked acts"

fun refusals :: "relay_action list \<Rightarrow> nat list" where
  "refusals [] = []"
| "refusals (ToPort (SendFailedMessage _ _ _ n _ _) # acts) = n # refusals acts"
| "refusals (_ # acts) = refusals acts"

fun handed :: "relay_action list \<Rightarrow> nat" where
  "handed [] = 0"
| "handed (ToWriter (SendDatagram _ _ _ _) # acts) = Suc (handed acts)"
| "handed (_ # acts) = handed acts"

lemma answer_append [simp]:
  "acked (acts @ acts') = acked acts + acked acts'"
  "refusals (acts @ acts') = refusals acts @ refusals acts'"
  "handed (acts @ acts') = handed acts + handed acts'"
proof -
  show "acked (acts @ acts') = acked acts + acked acts'" by (induction acts rule: acked.induct) simp_all
  show "refusals (acts @ acts') = refusals acts @ refusals acts'" by (induction acts rule: refusals.induct) simp_all
  show "handed (acts @ acts') = handed acts + handed acts'" by (induction acts rule: handed.induct) simp_all
qed

definition ds_ok :: "datagram_config \<Rightarrow> datagram_sink \<Rightarrow> bool" where
  "ds_ok cfg s \<longleftrightarrow> inFlight s \<le> outboundWindow cfg \<and> (0 < pendingAcks s \<longrightarrow> ackScheduled s)"

lemma pump_answers_nothing:
  "dp_step mapError cfg e p = (p', out) \<Longrightarrow>
     acked (map dr_act out) = 0 \<and> refusals (map dr_act out) = [] \<and> handed (map dr_act out) = 0"
  by (cases e) (auto simp: dp_datagram_def dp_done_def dp_endOnce_def dp_error_def dp_tick_def dp_stop_def Let_def split: if_splits prod.splits)

lemma ds_step_answers:
  assumes st: "ds_step cfg e s = (s', out)"
  shows "refusals (map dr_act out) = [Suc (ds_dropped s)..<Suc (ds_dropped s')]"
    and "ds_stopped s' \<Longrightarrow> ds_stopped s \<or> (\<exists>code. e = DSinkStop code) \<or> FailSocket E_limit None \<in> set (map dr_act out)"
    and "\<not> ds_stopped s' \<Longrightarrow> \<not> ds_stopped s \<and>
      acked (map dr_act out) + pendingAcks s' + inFlight s' + ds_dropped s' =
        pendingAcks s + inFlight s + ds_dropped s + handed (map dr_act out) +
        (case e of InvalidSend _ _ \<Rightarrow> 1 | _ \<Rightarrow> 0)"
    and "ds_ok cfg s \<Longrightarrow> \<not> ds_stopped s' \<Longrightarrow> ds_ok cfg s'"
  using st
  by (cases e; auto simp: handleSend_def refuseInvalid_def reportRefusal_def send_settled_def ack_turn_def scheduleAck_def
    ds_ok_def Let_def split: if_splits send_outcome.splits)+

definition answers_ok :: "datagram_config \<Rightarrow> datagram_relay_event list \<Rightarrow> datagram_relay \<Rightarrow> relay_action list \<Rightarrow> bool" where
  "answers_ok cfg events r acts \<longleftrightarrow>
     refusals acts = [1..<Suc (ds_dropped (dr_sink r))] \<and>
     (ds_stopped (dr_sink r) \<longrightarrow> dr_released r \<or> FailSocket E_limit None \<in> set acts) \<and>
     (\<not> ds_stopped (dr_sink r) \<longrightarrow> ds_ok cfg (dr_sink r) \<and>
       acked acts + ds_dropped (dr_sink r) + pendingAcks (dr_sink r) + inFlight (dr_sink r) =
         handed acts + length (filter (refused_unread (dg_handle cfg)) events))"

lemma every_send_answered:
  assumes "dr_run cfg events (createDatagramRelay cfg d) = (r, acts)"
  shows "answers_ok cfg events r acts"
  using assms
proof (induction events arbitrary: r acts rule: rev_induct)
  case Nil
  then show ?case by (auto simp: answers_ok_def createDatagramRelay_def createDatagramSink_def ds_ok_def)
next
  case (snoc e events)
  obtain r1 o1 where run: "dr_run cfg events (createDatagramRelay cfg d) = (r1, o1)" by fastforce
  obtain o2 where st: "dr_step cfg e r1 = (r, o2)" and acts: "acts = o1 @ o2"
    using snoc.prems run by (auto simp: dr_run_snoc split: prod.splits)
  note IH = snoc.IH [OF run]
  from st show ?case
  proof (cases rule: dr_step_cases)
    case none
    then show ?thesis using IH unfolding acts answers_ok_def by (simp del: upt_Suc)
  next
    case (pump pe)
    then obtain p es where p: "dp_step mapSocketError cfg pe (dr_pump r1) = (p, es)" "r = r1\<lparr>dr_pump := p\<rparr>" "o2 = map dr_act es"
      by (auto simp: dr_on_pump_def split: prod.splits)
    then show ?thesis using IH pump_answers_nothing [OF p(1)] pump(5) unfolding acts answers_ok_def by (auto simp del: upt_Suc)
  next
    case (sink se)
    then obtain s es where s: "ds_step cfg se (dr_sink r1) = (s, es)" "r = r1\<lparr>dr_sink := s\<rparr>" "o2 = map dr_act es"
      by (auto simp: dr_on_sink_def split: prod.splits)
    note A = ds_step_answers [OF s(1)]
    have le: "ds_dropped (dr_sink r1) \<le> ds_dropped s"
      using s(1) by (cases se) (auto simp: handleSend_def refuseInvalid_def reportRefusal_def send_settled_def ack_turn_def scheduleAck_def
        Let_def split: if_splits send_outcome.splits)
    have R: "refusals acts = [1..<Suc (ds_dropped s)]"
      using IH A(1) le upt_add_eq_append [of 1 "Suc (ds_dropped (dr_sink r1))" "ds_dropped s - ds_dropped (dr_sink r1)"]
      by (simp add: acts s(3) answers_ok_def)
    have S: "ds_stopped s \<longrightarrow> dr_released r1 \<or> FailSocket E_limit None \<in> set acts"
      using IH A(2) sink(2) by (auto simp: acts s(3) answers_ok_def)
    have L: "ds_ok cfg s \<and> acked acts + ds_dropped s + pendingAcks s + inFlight s =
        handed acts + length (filter (refused_unread (dg_handle cfg)) (events @ [e]))" if "\<not> ds_stopped s"
      using IH A(4) [OF _ that] A(3) [OF that] that sink(4) by (auto simp: acts s(3) answers_ok_def)
    show ?thesis using R S L by (simp add: answers_ok_def s(2))
  next
    case (stop code)
    from stop(1) obtain p es s where p: "dp_step mapSocketError cfg (DPumpStop code) (dr_pump r1) = (p, es)"
      "ds_step cfg (DSinkStop code) (dr_sink r1) = (s, [])" "r = r1\<lparr>dr_pump := p, dr_sink := s, dr_released := True\<rparr>"
      "o2 = map dr_act es @ (if dr_released r1 then [] else [Unregister, ClosePort])"
      by (rule dr_stop_parts)
    then show ?thesis using IH pump_answers_nothing [OF p(1)] unfolding acts answers_ok_def by (auto simp del: upt_Suc)
  qed
qed

section \<open>Ending\<close>

lemma posts_to_port: "list_all is_post es \<Longrightarrow> reports (map dr_act es)"
proof (induction es)
  case (Cons e es)
  then show ?case by (cases e) (auto simp: reports_def)
qed (simp add: reports_def)

lemma dr_act_port: "dr_act x \<noteq> Unregister \<and> dr_act x \<noteq> ClosePort"
  by (cases x) simp_all

lemma no_port_actions: "filter (\<lambda>a. a = Unregister \<or> a = ClosePort) (map dr_act es) = []"
  by (simp add: filter_empty_conv dr_act_port)

definition dr_over :: "datagram_relay \<Rightarrow> bool" where
  "dr_over r \<longleftrightarrow> dp_stopped (dr_pump r) \<and> ds_stopped (dr_sink r) \<and> dr_released r"

lemma dr_pump_quiet:
  assumes "dr_on_pump cfg e r = (r', out)"
  shows "dp_stopped (dr_pump r) \<Longrightarrow> dp_stopped (dr_pump r') \<and> reports out"
    and "dr_sink r' = dr_sink r \<and> dr_released r' = dr_released r"
proof -
  obtain p es where p: "dp_step mapSocketError cfg e (dr_pump r) = (p, es)" by fastforce
  have r: "r' = r\<lparr>dr_pump := p\<rparr>" "out = map dr_act es" using assms p by (simp_all add: dr_on_pump_def)
  show "dr_sink r' = dr_sink r \<and> dr_released r' = dr_released r" by (simp add: r)
  assume stopped: "dp_stopped (dr_pump r)"
  have "dp_stopped p" "list_all is_post es"
    using datagram_pump_half.stays [OF stopped] datagram_pump_half.stopped_quiet [OF stopped] p by (metis fst_conv, metis snd_conv)
  then show "dp_stopped (dr_pump r') \<and> reports out" using posts_to_port by (simp add: r)
qed

lemma dr_sink_quiet:
  assumes "dr_on_sink cfg e r = (r', out)"
  shows "ds_stopped (dr_sink r) \<Longrightarrow> ds_stopped (dr_sink r') \<and> reports out"
    and "dr_pump r' = dr_pump r \<and> dr_released r' = dr_released r"
proof -
  obtain s es where s: "ds_step cfg e (dr_sink r) = (s, es)" by fastforce
  have r: "r' = r\<lparr>dr_sink := s\<rparr>" "out = map dr_act es" using assms s by (simp_all add: dr_on_sink_def)
  show "dr_pump r' = dr_pump r \<and> dr_released r' = dr_released r" by (simp add: r)
  assume stopped: "ds_stopped (dr_sink r)"
  have "ds_stopped s" "list_all is_post es"
    using datagram_sink_half.stays [OF stopped] datagram_sink_half.stopped_quiet [OF stopped] s by (metis fst_conv, metis snd_conv)
  then show "ds_stopped (dr_sink r') \<and> reports out" using posts_to_port by (simp add: r)
qed

lemma dr_stop_ends:
  assumes "dr_stop cfg code r = (r', out)"
  shows "dr_over r'"
    and "filter (\<lambda>a. a = Unregister \<or> a = ClosePort) out = (if dr_released r then [] else [Unregister, ClosePort])"
    and "dr_over r \<Longrightarrow> reports out"
proof -
  from assms obtain p es s where p: "dp_step mapSocketError cfg (DPumpStop code) (dr_pump r) = (p, es)"
    "ds_step cfg (DSinkStop code) (dr_sink r) = (s, [])" "r' = r\<lparr>dr_pump := p, dr_sink := s, dr_released := True\<rparr>"
    "out = map dr_act es @ (if dr_released r then [] else [Unregister, ClosePort])"
    by (rule dr_stop_parts)
  have q: "list_all (\<lambda>x. is_post x \<or> x = CancelReader) es"
    using datagram_pump_half.stop_quiet p(1) by (metis snd_conv)
  show "dr_over r'"
    using datagram_pump_half.stop_stops [of mapSocketError cfg code "dr_pump r"]
      datagram_sink_half.stop_stops [of cfg code "dr_sink r"] p(1-3) by (auto simp: dr_over_def)
  show "filter (\<lambda>a. a = Unregister \<or> a = ClosePort) out = (if dr_released r then [] else [Unregister, ClosePort])"
    using no_port_actions [of es] by (simp add: p(4))
  show "reports out" if "dr_over r"
    using datagram_pump_half.stop_once [of "dr_pump r" mapSocketError cfg code] that p(1,4)
    by (simp add: dr_over_def reports_def)
qed

lemma datagram_relay_quiet:
  assumes over: "dr_over r" and st: "dr_step cfg e r = (r', out)" shows "dr_over r' \<and> reports out"
  using st
proof (cases rule: dr_step_cases)
  case none
  then show ?thesis using over by (simp add: reports_def)
next
  case (pump pe)
  then show ?thesis using dr_pump_quiet [OF pump(1)] over by (simp add: dr_over_def)
next
  case (sink se)
  then show ?thesis using dr_sink_quiet [OF sink(1)] over by (simp add: dr_over_def)
next
  case (stop code)
  then show ?thesis using dr_stop_ends [OF stop(1)] over by blast
qed

lemma keeps_reading:
  "dp_step mapError cfg e p = (p', out) \<Longrightarrow> (\<And>code. e \<noteq> DPumpStop code) \<Longrightarrow> CancelRead \<notin> set (map dr_act out)"
  by (cases e) (auto simp: dp_datagram_def dp_done_def dp_error_def dp_endOnce_def dp_tick_def Let_def split: if_splits prod.splits)

lemma sink_keeps_reading: "ds_step cfg e s = (s', out) \<Longrightarrow> CancelRead \<notin> set (map dr_act out)"
  by (cases e) (auto simp: handleSend_def refuseInvalid_def reportRefusal_def send_settled_def ack_turn_def scheduleAck_def
    Let_def split: if_splits send_outcome.splits)

definition dr_ends_ok :: "datagram_relay_event list \<Rightarrow> datagram_relay \<Rightarrow> relay_action list \<Rightarrow> bool" where
  "dr_ends_ok events r acts \<longleftrightarrow>
     (dr_released r \<longleftrightarrow> (\<exists>e\<in>set events. dr_ending e)) \<and> (dr_released r \<longrightarrow> dr_over r) \<and>
     (CancelRead \<in> set acts \<longrightarrow> dr_released r) \<and>
     filter (\<lambda>a. a = Unregister \<or> a = ClosePort) acts = (if dr_released r then [Unregister, ClosePort] else [])"

lemma datagram_relay_ends:
  assumes "dr_run cfg events (createDatagramRelay cfg d) = (r, acts)"
  shows "dr_ends_ok events r acts"
  using assms
proof (induction events arbitrary: r acts rule: rev_induct)
  case Nil
  then show ?case by (auto simp: dr_ends_ok_def createDatagramRelay_def)
next
  case (snoc e events)
  obtain r1 o1 where run: "dr_run cfg events (createDatagramRelay cfg d) = (r1, o1)" by fastforce
  obtain o2 where st: "dr_step cfg e r1 = (r, o2)" and acts: "acts = o1 @ o2"
    using snoc.prems run by (auto simp: dr_run_snoc split: prod.splits)
  note IH = snoc.IH [OF run]
  have over: "dr_released r1 \<Longrightarrow> dr_over r" using IH datagram_relay_quiet [OF _ st] by (simp add: dr_ends_ok_def)
  from st show ?case
  proof (cases rule: dr_step_cases)
    case none
    then show ?thesis using IH by (auto simp: acts dr_ends_ok_def)
  next
    case (pump pe)
    then obtain p es where p: "dp_step mapSocketError cfg pe (dr_pump r1) = (p, es)" "r = r1\<lparr>dr_pump := p\<rparr>" "o2 = map dr_act es"
      by (auto simp: dr_on_pump_def split: prod.splits)
    have "CancelRead \<notin> set o2" using keeps_reading [OF p(1) pump(2)] by (simp add: p(3))
    moreover have "dr_released r = dr_released r1" by (simp add: p(2))
    ultimately show ?thesis
      using IH over no_port_actions [of es] pump(6) unfolding acts dr_ends_ok_def p(3) by auto
  next
    case (sink se)
    then obtain s es where s: "ds_step cfg se (dr_sink r1) = (s, es)" "r = r1\<lparr>dr_sink := s\<rparr>" "o2 = map dr_act es"
      by (auto simp: dr_on_sink_def split: prod.splits)
    have "CancelRead \<notin> set o2" using sink_keeps_reading [OF s(1)] by (simp add: s(3))
    moreover have "dr_released r = dr_released r1" by (simp add: s(2))
    ultimately show ?thesis
      using IH over no_port_actions [of es] sink(5) unfolding acts dr_ends_ok_def s(3) by auto
  next
    case (stop code)
    have "dr_over r" "dr_released r" using dr_stop_ends(1) [OF stop(1)] by (simp_all add: dr_over_def)
    then show ?thesis using IH dr_stop_ends(2) [OF stop(1)] stop(4) unfolding acts dr_ends_ok_def by simp
  qed
qed

theorem datagram_relay_ends_once:
  assumes "dr_run cfg events (createDatagramRelay cfg d) = (r, acts)"
  shows "(dr_released r \<longleftrightarrow> (\<exists>e\<in>set events. dr_ending e)) \<and>
    filter (\<lambda>a. a = Unregister \<or> a = ClosePort) acts = (if dr_released r then [Unregister, ClosePort] else []) \<and>
    (CancelRead \<in> set acts \<longrightarrow> dr_released r) \<and>
    (dr_released r \<longrightarrow> dp_stopped (dr_pump r) \<and> ds_stopped (dr_sink r) \<and> (\<forall>e. reports (snd (dr_step cfg e r))))"
proof (intro conjI impI allI)
  note ok = datagram_relay_ends [OF assms, unfolded dr_ends_ok_def]
  show "dr_released r \<longleftrightarrow> (\<exists>e\<in>set events. dr_ending e)" using ok by blast
  show "filter (\<lambda>a. a = Unregister \<or> a = ClosePort) acts = (if dr_released r then [Unregister, ClosePort] else [])" using ok by blast
  show "dr_released r" if "CancelRead \<in> set acts" using ok that by blast
  assume "dr_released r"
  then have over: "dr_over r" using ok by blast
  then show "dp_stopped (dr_pump r)" "ds_stopped (dr_sink r)" by (simp_all add: dr_over_def)
  show "reports (snd (dr_step cfg e r))" for e using datagram_relay_quiet [OF over, of cfg e] by (metis prod.collapse)
qed

section \<open>The relay's contract\<close>

text \<open>C10. From any moment on, a UDP socket's relay posts fewer datagrams than the page says it consumed since, plus one
  window and one, and no more bytes than that count of bytes, plus one window and one datagram of the largest size it
  reads; and while it runs and the stream has not ended, a read is outstanding exactly when both credits are positive,
  so a page that reports what it consumed is never stalled.\<close>

theorem datagram_window:
  assumes before: "dr_run cfg events0 (createDatagramRelay cfg d0) = (r0, acts0)"
    and run: "dr_run cfg events r0 = (r, acts)" and m: "\<forall>e\<in>set (events0 @ events). fits m e"
  shows "of_nat (received acts) < of_nat (inboundWindow cfg) + credited_datagrams (dg_handle cfg) events + 1 \<and>
    of_nat (received_bytes acts) \<le> of_nat (inboundWindowBytes cfg) + credited_datagram_bytes (dg_handle cfg) events + of_nat m \<and>
    (\<not> dp_stopped (dr_pump r) \<and> \<not> dp_ended (dr_pump r) \<longrightarrow>
      (dp_reading (dr_pump r) \<longleftrightarrow> 0 < dp_credit (dr_pump r) \<and> 0 < dp_creditBytes (dr_pump r)))"
proof (intro conjI impI)
  have "dp_ok cfg m (dr_pump (createDatagramRelay cfg d0))"
    by (simp add: createDatagramRelay_def createDatagramPump_ok)
  from dr_run_window [OF before this] m have ok0: "dp_ok cfg m (dr_pump r0)" by simp
  from dr_run_window [OF run this] m have ok: "dp_ok cfg m (dr_pump r)"
    and moves: "window_moves r0 (credited_datagrams (dg_handle cfg) events, credited_datagram_bytes (dg_handle cfg) events) acts r"
    by simp_all
  show "of_nat (received acts) < of_nat (inboundWindow cfg) + credited_datagrams (dg_handle cfg) events + 1"
    using moves dp_okD(3) [OF ok] dp_okD(1) [OF ok0] unfolding window_moves_def fst_conv by linarith
  show "of_nat (received_bytes acts) \<le> of_nat (inboundWindowBytes cfg) + credited_datagram_bytes (dg_handle cfg) events + of_nat m"
    using moves dp_okD(4) [OF ok] dp_okD(2) [OF ok0] unfolding window_moves_def snd_conv by linarith
  assume "\<not> dp_stopped (dr_pump r) \<and> \<not> dp_ended (dr_pump r)"
  then show "dp_reading (dr_pump r) \<longleftrightarrow> 0 < dp_credit (dr_pump r) \<and> 0 < dp_creditBytes (dr_pump r)"
    using dp_okD(5,6) [OF ok] by blast
qed

text \<open>C16. Every datagram the page asks a UDP socket to send is answered: while the sink runs, what was acknowledged, is
  about to be, is still in flight or was refused adds up to what was handed to the socket and what could not be read,
  never more than the outbound window is in flight, an acknowledgement owed is scheduled, and the refusals the page is
  told of number every dropped datagram from 1 on. The sink stops only with the relay or when the page overran the
  window.\<close>

theorem datagram_sends_answered:
  assumes "dr_run cfg events (createDatagramRelay cfg d) = (r, acts)"
  shows "refusals acts = [1..<Suc (ds_dropped (dr_sink r))] \<and>
    (ds_stopped (dr_sink r) \<longrightarrow> dr_released r \<or> FailSocket E_limit None \<in> set acts) \<and>
    (\<not> ds_stopped (dr_sink r) \<longrightarrow> inFlight (dr_sink r) \<le> outboundWindow cfg \<and>
      (0 < pendingAcks (dr_sink r) \<longrightarrow> ackScheduled (dr_sink r)) \<and>
      acked acts + ds_dropped (dr_sink r) + pendingAcks (dr_sink r) + inFlight (dr_sink r) =
        handed acts + length (filter (refused_unread (dg_handle cfg)) events))"
  using every_send_answered [OF assms] unfolding answers_ok_def ds_ok_def by blast

definition sample_datagram_config :: datagram_config where
  "sample_datagram_config = \<lparr>dg_handle = js ''h'', inboundWindow = 2, inboundWindowBytes = 8, outboundWindow = 1\<rparr>"

definition sample_datagram :: datagram where
  "sample_datagram = \<lparr>dg_data = [1, 2, 3], dg_address = js ''192.0.2.1'', dg_port = 53, dg_ipv6 = False\<rparr>"

definition sample_datagram_events :: "datagram_relay_event list" where
  "sample_datagram_events =
     [DReadEvent (GotDatagram sample_datagram 0), DFromPort (to_value (SendMessage (js ''h'') [9] (js ''192.0.2.1'') 53)),
      DReadEvent (GotDatagram sample_datagram 0), DSendEvent (Outcome (Refused E_unreachable None) (js ''192.0.2.1'') 53),
      DFromPort (to_value (DatagramCreditMessage (js ''h'') 2 6)), DReadEvent (GotDatagram sample_datagram 4)]"

definition sample_datagram_relay :: "datagram_relay \<times> relay_action list" where
  "sample_datagram_relay = dr_run sample_datagram_config sample_datagram_events (createDatagramRelay sample_datagram_config 0)"

lemma sample_datagram_values:
  "received (snd sample_datagram_relay) = 3" "refusals (snd sample_datagram_relay) = [1]"
  "handed (snd sample_datagram_relay) = 1" "ds_stopped (dr_sink (fst sample_datagram_relay)) = False"
  by code_simp+

lemma sample_datagram_pair:
  "dr_run sample_datagram_config sample_datagram_events (createDatagramRelay sample_datagram_config 0) =
     (fst sample_datagram_relay, snd sample_datagram_relay)"
  by (simp add: sample_datagram_relay_def)

theorem datagram_window_witness: "(of_nat 3 :: rat) < of_nat 2 + credited_datagrams (js ''h'') sample_datagram_events + 1"
proof -
  have fits: "\<forall>e\<in>set ([] @ sample_datagram_events). fits 3 e"
    by (simp add: sample_datagram_events_def fits_def sample_datagram_def)
  have start: "dr_run sample_datagram_config [] (createDatagramRelay sample_datagram_config 0) =
      (createDatagramRelay sample_datagram_config 0, [])" by simp
  from conjunct1 [OF datagram_window [OF start sample_datagram_pair fits]] show ?thesis
    by (simp add: sample_datagram_values sample_datagram_config_def)
qed

theorem datagram_sends_answered_witness:
  "acked (snd sample_datagram_relay) + 1 + pendingAcks (dr_sink (fst sample_datagram_relay)) +
     inFlight (dr_sink (fst sample_datagram_relay)) = 1 + 0"
proof -
  have "length (filter (refused_unread (js ''h'')) sample_datagram_events) = 0" by code_simp
  moreover have "ds_dropped (dr_sink (fst sample_datagram_relay)) = 1" by code_simp
  ultimately show ?thesis
    using datagram_sends_answered [OF sample_datagram_pair] sample_datagram_values
    by (simp add: sample_datagram_config_def)
qed

end
