(* ===== verification/BundleHash.thy ===== *)
theory BundleHash imports BundlePath "HOL-Library.List_Lexorder" begin

section \<open>The content identity of a bundle (bytes.ts, bundle-hash.ts)\<close>

text \<open>
  SHA-256 is the parameter \<open>digest\<close>, which \<open>sha\<close> states to answer 32 bytes; that no two of the inputs
  in play collide is a hypothesis of the theorem that needs it. An error carries its code, not its message.
\<close>

subsection \<open>bytes.ts\<close>

text \<open>Big-endian, as \<open>DataView\<close> writes it: what does not fit wraps.\<close>

fun be_bytes :: "nat \<Rightarrow> nat \<Rightarrow> bytes" where
  "be_bytes 0 n = []"
| "be_bytes (Suc k) n = be_bytes k (n div 256) @ [of_nat n]"

definition frame :: "bytes \<Rightarrow> bytes" where
  "frame bs = be_bytes 4 (length bs) @ bs"

subsection \<open>bundle-hash.ts\<close>

record bundle_entry =
  entry_path :: str
  content :: bytes

definition BUNDLE_HASH_VERSION :: str where "BUNDLE_HASH_VERSION = js ''orivon-bundle-v1''"
definition MAX_ASSET_BYTES :: nat where "MAX_ASSET_BYTES = 64 * 1024 * 1024"
definition MAX_BUNDLE_BYTES :: nat where "MAX_BUNDLE_BYTES = 512 * 1024 * 1024"

fun compareUtf8Bytes :: "bytes \<Rightarrow> bytes \<Rightarrow> int" where
  "compareUtf8Bytes (a # as) (b # bs) = (if a \<noteq> b then uint a - uint b else compareUtf8Bytes as bs)"
| "compareUtf8Bytes as bs = int (length as) - int (length bs)"

text \<open>\<open>Array.prototype.sort\<close> with a comparator, which is stable.\<close>

fun insert_by :: "('a \<Rightarrow> 'a \<Rightarrow> int) \<Rightarrow> 'a \<Rightarrow> 'a list \<Rightarrow> 'a list" where
  "insert_by compare x [] = [x]"
| "insert_by compare x (y # ys) = (if compare x y \<le> 0 then x # y # ys else y # insert_by compare x ys)"

definition sort_by :: "('a \<Rightarrow> 'a \<Rightarrow> int) \<Rightarrow> 'a list \<Rightarrow> 'a list" where
  "sort_by compare xs = foldr (insert_by compare) xs []"

definition encodeContentLength :: "nat \<Rightarrow> bytes" where
  "encodeContentLength byteLength = be_bytes 8 byteLength"

definition toLowercaseHex :: "bytes \<Rightarrow> str" where
  "toLowercaseHex bs = concat (map (\<lambda>b. [digit_char (unat b div 16), digit_char (unat b mod 16)]) bs)"

fun fromLowercaseHex :: "str \<Rightarrow> bytes" where
  "fromLowercaseHex (a # b # cs) = of_nat (parse_int 16 [a, b]) # fromLowercaseHex cs"
| "fromLowercaseHex _ = []"

definition leafPrefix :: "str \<Rightarrow> nat \<Rightarrow> bytes" where
  "leafPrefix path contentLength = 0 # frame (utf8_encode path) @ encodeContentLength contentLength"

definition SHA_PREFIX :: str where "SHA_PREFIX = js ''sha256:''"

definition leafDigest :: "(bytes \<Rightarrow> bytes) \<Rightarrow> bundle_entry \<Rightarrow> str" where
  "leafDigest digest e = SHA_PREFIX @ toLowercaseHex (digest (leafPrefix (entry_path e) (length (content e)) @ content e))"

record leaf_entry =
  le_path :: str
  byteLength :: nat
  le_leaf :: str

record bundle_tree =
  tree_root :: str
  tree_assets :: "path_leaf list"

definition lower_hex :: "nat \<Rightarrow> bool" where
  "lower_hex c \<longleftrightarrow> 48 \<le> c \<and> c \<le> 57 \<or> 97 \<le> c \<and> c \<le> 102"

text \<open>\<open>/^sha256:[0-9a-f]{64}$/\<close>.\<close>

definition LEAF_PATTERN :: "str \<Rightarrow> bool" where
  "LEAF_PATTERN s \<longleftrightarrow> starts_with SHA_PREFIX s \<and> length (drop 7 s) = 64 \<and> list_all lower_hex (drop 7 s)"

fun validate_items :: "canon_env \<Rightarrow> nat \<Rightarrow> bool \<Rightarrow> str list \<Rightarrow> (str \<times> nat) list \<Rightarrow> error_code option" where
  "validate_items env totalBytes hasManifest seenKeys [] = (if \<not> hasManifest then Some E_invalid else None)"
| "validate_items env totalBytes hasManifest seenKeys ((path, len) # items) =
     (if \<not> isValidCanonicalPath env path then Some E_invalid
      else if len > MAX_ASSET_BYTES then Some E_invalid
      else if totalBytes + len > MAX_BUNDLE_BYTES then Some E_invalid
      else if collisionKey env path \<in> set seenKeys then Some E_invalid
      else validate_items env (totalBytes + len) (hasManifest \<or> path = MANIFEST_PATH) (collisionKey env path # seenKeys) items)"

definition validateLeafSet :: "canon_env \<Rightarrow> (str \<times> nat) list \<Rightarrow> error_code option" where
  "validateLeafSet env items =
     (if items = [] then Some E_invalid
      else if length items > MAX_BUNDLE_ENTRIES then Some E_invalid
      else validate_items env 0 False [] items)"

definition root_preimage :: "leaf_entry list \<Rightarrow> bytes" where
  "root_preimage ordered = 1 # frame (utf8_encode BUNDLE_HASH_VERSION) @ be_bytes 4 (length ordered) @
     concat (map (\<lambda>e. fromLowercaseHex (drop (length SHA_PREFIX) (le_leaf e))) ordered)"

definition bundleTreeFromLeaves :: "canon_env \<Rightarrow> (bytes \<Rightarrow> bytes) \<Rightarrow> leaf_entry list \<Rightarrow> error_code + bundle_tree" where
  "bundleTreeFromLeaves env digest leaves =
     (case validateLeafSet env (map (\<lambda>e. (le_path e, byteLength e)) leaves) of
        Some err \<Rightarrow> Inl err
      | None \<Rightarrow>
          if \<not> list_all (\<lambda>e. LEAF_PATTERN (le_leaf e)) leaves then Inl E_invalid
          else let ordered = sort_by (\<lambda>a b. compareUtf8Bytes (utf8_encode (le_path a)) (utf8_encode (le_path b))) leaves
               in Inr \<lparr>tree_root = SHA_PREFIX @ toLowercaseHex (digest (root_preimage ordered)),
                       tree_assets = map (\<lambda>e. \<lparr>leaf_path = le_path e, leaf_digest = le_leaf e\<rparr>) ordered\<rparr>)"

definition bundleTree :: "canon_env \<Rightarrow> (bytes \<Rightarrow> bytes) \<Rightarrow> bundle_entry list \<Rightarrow> error_code + bundle_tree" where
  "bundleTree env digest entries =
     (case validateLeafSet env (map (\<lambda>e. (entry_path e, length (content e))) entries) of
        Some err \<Rightarrow> Inl err
      | None \<Rightarrow> bundleTreeFromLeaves env digest
          (map (\<lambda>e. \<lparr>le_path = entry_path e, byteLength = length (content e), le_leaf = leafDigest digest e\<rparr>) entries))"

definition bundleHash :: "canon_env \<Rightarrow> (bytes \<Rightarrow> bytes) \<Rightarrow> bundle_entry list \<Rightarrow> error_code + str" where
  "bundleHash env digest entries = map_sum id tree_root (bundleTree env digest entries)"

section \<open>The encodings\<close>

lemma length_be_bytes [simp]: "length (be_bytes k n) = k"
  by (induction k arbitrary: n) simp_all

lemma be_bytes_inj: "be_bytes k m = be_bytes k n \<Longrightarrow> m < 256 ^ k \<Longrightarrow> n < 256 ^ k \<Longrightarrow> m = n"
proof (induction k arbitrary: m n)
  case (Suc k)
  have low: "m mod 256 = n mod 256"
  proof -
    have "(of_nat m :: 8 word) = of_nat n" using Suc.prems(1) by simp
    then have "unat (of_nat m :: 8 word) = unat (of_nat n :: 8 word)" by (rule arg_cong)
    then show ?thesis by (simp add: unat_of_nat)
  qed
  have "m div 256 < 256 ^ k" "n div 256 < 256 ^ k"
    using Suc.prems(2,3) by (simp_all add: less_mult_imp_div_less mult.commute)
  then have "m div 256 = n div 256" using Suc.IH Suc.prems(1) by simp
  with low show ?case by (metis div_mult_mod_eq)
qed simp

lemma frame_inj: "frame a @ x = frame b @ y \<Longrightarrow> length a < 256 ^ 4 \<Longrightarrow> length b < 256 ^ 4 \<Longrightarrow> a = b \<and> x = y"
proof -
  assume e: "frame a @ x = frame b @ y" and l: "length a < 256 ^ 4" "length b < 256 ^ 4"
  have "be_bytes 4 (length a) = be_bytes 4 (length b)" "a @ x = b @ y"
    using e by (simp_all add: frame_def append_eq_append_conv)
  then show ?thesis using be_bytes_inj [OF _ l] by simp
qed

definition ascii :: "str \<Rightarrow> bool" where
  "ascii s \<longleftrightarrow> (\<forall>c\<in>set s. c < 128)"

lemma utf8_encode_ascii: "ascii s \<Longrightarrow> utf8_encode s = map of_nat s"
proof -
  have "ascii s \<Longrightarrow> code_points s = s"
    by (induction s rule: code_points.induct) (auto simp: ascii_def high_surrogate_def low_surrogate_def)
  moreover have "ascii s \<Longrightarrow> concat (map utf8_point s) = s"
    by (induction s) (auto simp: ascii_def utf8_point_def)
  ultimately show "ascii s \<Longrightarrow> utf8_encode s = map of_nat s" by (simp add: utf8_encode_def)
qed

lemma utf8_encode_inj: "ascii s \<Longrightarrow> ascii t \<Longrightarrow> utf8_encode s = utf8_encode t \<Longrightarrow> s = t"
proof -
  assume st: "ascii s" "ascii t" "utf8_encode s = utf8_encode t"
  have units: "map unat (map of_nat u :: 8 word list) = u" if "ascii u" for u
    using that by (induction u) (auto simp: ascii_def unat_of_nat)
  have "map of_nat s = (map of_nat t :: 8 word list)" using st by (simp add: utf8_encode_ascii)
  from arg_cong [OF this, of "map unat"] show "s = t" using units st(1,2) by simp
qed

lemma byte_less: "unat (b :: 8 word) < 256"
  using unsigned_less [where 'a = nat, of b] by simp

lemma digit_char_lower: "d < 16 \<Longrightarrow> lower_hex (digit_char d)"
  by (auto simp: lower_hex_def digit_char_def)

lemma length_toLowercaseHex [simp]: "length (toLowercaseHex bs) = 2 * length bs"
  by (induction bs) (simp_all add: toLowercaseHex_def)

lemma toLowercaseHex_lower: "list_all lower_hex (toLowercaseHex bs)"
proof (induction bs)
  case (Cons b bs)
  have "unat b div 16 < 16" using byte_less [of b] by simp
  then show ?case using Cons by (simp add: toLowercaseHex_def digit_char_lower)
qed (simp add: toLowercaseHex_def)

lemma hex_round_trip [simp]: "fromLowercaseHex (toLowercaseHex bs) = bs"
proof (induction bs)
  case (Cons b bs)
  have d: "unat b div 16 < 16" using byte_less [of b] by simp
  have "parse_int 16 [digit_char (unat b div 16), digit_char (unat b mod 16)] = unat b"
    using d by (simp add: parse_int_def)
  then show ?case using Cons by (simp add: toLowercaseHex_def)
qed (simp add: toLowercaseHex_def)

lemma digest_text: "length bs = 32 \<Longrightarrow> LEAF_PATTERN (SHA_PREFIX @ toLowercaseHex bs)"
  using toLowercaseHex_lower [of bs] by (simp add: LEAF_PATTERN_def SHA_PREFIX_def starts_with_def)

section \<open>Which sets are hashed\<close>

lemma validate_items_iff:
  "validate_items env used hasManifest seen items =
     (if (\<forall>(p, n)\<in>set items. isValidCanonicalPath env p \<and> n \<le> MAX_ASSET_BYTES) \<and>
         (items = [] \<or> used + sum_list (map snd items) \<le> MAX_BUNDLE_BYTES) \<and>
         distinct (map (collisionKey env \<circ> fst) items) \<and> set (map (collisionKey env \<circ> fst) items) \<inter> set seen = {} \<and>
         (hasManifest \<or> MANIFEST_PATH \<in> set (map fst items))
      then None else Some E_invalid)"
proof (induction items arbitrary: used hasManifest seen)
  case (Cons item items)
  obtain p n where item: "item = (p, n)" by fastforce
  show ?case
  proof (cases "isValidCanonicalPath env p \<and> n \<le> MAX_ASSET_BYTES \<and> used + n \<le> MAX_BUNDLE_BYTES \<and> collisionKey env p \<notin> set seen")
    case True
    then show ?thesis using Cons.IH [of "used + n" "hasManifest \<or> p = MANIFEST_PATH" "collisionKey env p # seen"]
      by (auto simp: item)
  next
    case False
    then show ?thesis by (auto simp: item)
  qed
qed simp

definition acceptable :: "canon_env \<Rightarrow> (str \<times> nat) list \<Rightarrow> bool" where
  "acceptable env items \<longleftrightarrow> items \<noteq> [] \<and> length items \<le> MAX_BUNDLE_ENTRIES \<and>
     (\<forall>(p, n)\<in>set items. isValidCanonicalPath env p \<and> n \<le> MAX_ASSET_BYTES) \<and>
     sum_list (map snd items) \<le> MAX_BUNDLE_BYTES \<and> distinct (map (collisionKey env \<circ> fst) items) \<and>
     MANIFEST_PATH \<in> set (map fst items)"

lemma validateLeafSet_iff: "validateLeafSet env items = (if acceptable env items then None else Some E_invalid)"
  by (auto simp: validateLeafSet_def acceptable_def validate_items_iff)

lemma acceptable_mset:
  assumes "mset xs = mset ys"
  shows "acceptable env xs = acceptable env ys"
proof -
  have "sum_list (map snd xs) = sum_list (map snd ys)" using assms by (metis mset_map sum_mset_sum_list)
  moreover have "distinct (map (collisionKey env \<circ> fst) xs) = distinct (map (collisionKey env \<circ> fst) ys)"
    using assms by (metis mset_eq_imp_distinct_iff mset_map)
  moreover have "set xs = set ys" "length xs = length ys" using assms by (metis set_mset_mset, metis size_mset)
  moreover have "xs = [] \<longleftrightarrow> ys = []" using assms by auto
  ultimately show ?thesis by (simp add: acceptable_def)
qed

section \<open>Sorting\<close>

lemma compareUtf8Bytes_le: "compareUtf8Bytes a b \<le> 0 \<longleftrightarrow> a \<le> b"
proof (induction a b rule: compareUtf8Bytes.induct)
  case (1 a as b bs)
  then show ?case by (auto simp: word_le_def word_less_def word_uint_eq_iff)
qed auto

lemma sort_by_key:
  "sort_by (\<lambda>a b. compareUtf8Bytes (f a) (f b)) xs = sort_key f xs"
proof -
  have ins: "insert_by (\<lambda>a b. compareUtf8Bytes (f a) (f b)) x ys = insort_key f x ys" for x ys
    by (induction ys) (simp_all add: compareUtf8Bytes_le)
  have "insert_by (\<lambda>a b. compareUtf8Bytes (f a) (f b)) = insort_key f" using ins by blast
  then show ?thesis by (simp add: sort_by_def sort_key_def)
qed

lemma sort_key_map: "sort_key f (map g xs) = map g (sort_key (f \<circ> g) xs)"
proof (induction xs)
  case (Cons x xs)
  have "insort_key f (g x) (map g ys) = map g (insort_key (f \<circ> g) x ys)" for ys by (induction ys) simp_all
  then show ?case using Cons by (simp add: comp_def)
qed simp

section \<open>The hash is the content\<close>

definition entry_key :: "bundle_entry \<Rightarrow> bytes" where
  "entry_key e = utf8_encode (entry_path e)"

definition leaf_preimage :: "bundle_entry \<Rightarrow> bytes" where
  "leaf_preimage e = leafPrefix (entry_path e) (length (content e)) @ content e"

definition leaf_of :: "(bytes \<Rightarrow> bytes) \<Rightarrow> bundle_entry \<Rightarrow> leaf_entry" where
  "leaf_of digest e = \<lparr>le_path = entry_path e, byteLength = length (content e), le_leaf = leafDigest digest e\<rparr>"

definition items_of :: "bundle_entry list \<Rightarrow> (str \<times> nat) list" where
  "items_of entries = map (\<lambda>e. (entry_path e, length (content e))) entries"

text \<open>What SHA-256 and the URL parser are documented to do.\<close>

definition sha :: "(bytes \<Rightarrow> bytes) \<Rightarrow> bool" where
  "sha digest \<longleftrightarrow> (\<forall>bs. length (digest bs) = 32)"

definition ascii_paths :: "canon_env \<Rightarrow> bool" where
  "ascii_paths env \<longleftrightarrow> (\<forall>p q. rederive env p = Some q \<longrightarrow> ascii q)"

lemma valid_path_ascii: "ascii_paths env \<Longrightarrow> isValidCanonicalPath env p \<Longrightarrow> ascii p"
  by (auto simp: ascii_paths_def isValidCanonicalPath_def split: if_splits option.splits)

lemma valid_path_length: "isValidCanonicalPath env p \<Longrightarrow> length (utf8_encode p) < 256 ^ 4"
  by (auto simp: isValidCanonicalPath_def MAX_PATH_BYTES_def split: if_splits option.splits)

lemma leaf_digest_bytes: "fromLowercaseHex (drop (length SHA_PREFIX) (leafDigest digest e)) = digest (leaf_preimage e)"
  by (simp add: leafDigest_def leaf_preimage_def)

definition tree_preimage :: "(bytes \<Rightarrow> bytes) \<Rightarrow> bundle_entry list \<Rightarrow> bytes" where
  "tree_preimage digest entries = 1 # frame (utf8_encode BUNDLE_HASH_VERSION) @ be_bytes 4 (length entries) @
     concat (map (\<lambda>e. digest (leaf_preimage e)) (sort_key entry_key entries))"

lemma bundleTree_eq:
  assumes "sha digest"
  shows "bundleTree env digest entries =
    (if acceptable env (items_of entries)
     then Inr \<lparr>tree_root = SHA_PREFIX @ toLowercaseHex (digest (tree_preimage digest entries)),
       tree_assets = map (\<lambda>e. \<lparr>leaf_path = entry_path e, leaf_digest = leafDigest digest e\<rparr>) (sort_key entry_key entries)\<rparr>
     else Inl E_invalid)"
proof -
  have leaves: "list_all (\<lambda>e. LEAF_PATTERN (le_leaf e)) (map (leaf_of digest) entries)"
    using assms by (simp add: list_all_iff leaf_of_def leafDigest_def digest_text sha_def)
  have items: "map (\<lambda>e. (le_path e, byteLength e)) (map (leaf_of digest) entries) = items_of entries"
    by (simp add: items_of_def leaf_of_def)
  have ordered: "sort_by (\<lambda>a b. compareUtf8Bytes (utf8_encode (le_path a)) (utf8_encode (le_path b))) (map (leaf_of digest) entries) =
      map (leaf_of digest) (sort_key entry_key entries)"
  proof -
    have "(\<lambda>a. utf8_encode (le_path a)) \<circ> leaf_of digest = entry_key" by (auto simp: leaf_of_def entry_key_def)
    then show ?thesis unfolding sort_by_key sort_key_map by simp
  qed
  have root: "root_preimage (map (leaf_of digest) (sort_key entry_key entries)) = tree_preimage digest entries"
    by (simp add: root_preimage_def tree_preimage_def leaf_of_def comp_def leaf_digest_bytes)
  have "bundleTree env digest entries =
      (case validateLeafSet env (items_of entries) of Some err \<Rightarrow> Inl err
       | None \<Rightarrow> bundleTreeFromLeaves env digest (map (leaf_of digest) entries))"
    unfolding bundleTree_def items_of_def leaf_of_def ..
  also have "bundleTreeFromLeaves env digest (map (leaf_of digest) entries) =
      (case validateLeafSet env (items_of entries) of Some err \<Rightarrow> Inl err
       | None \<Rightarrow> Inr \<lparr>tree_root = SHA_PREFIX @ toLowercaseHex (digest (tree_preimage digest entries)),
           tree_assets = map (\<lambda>e. \<lparr>leaf_path = entry_path e, leaf_digest = leafDigest digest e\<rparr>) (sort_key entry_key entries)\<rparr>)"
    unfolding bundleTreeFromLeaves_def items ordered using leaves root
    by (simp add: leaf_of_def comp_def split: option.split)
  finally show ?thesis by (simp add: validateLeafSet_iff)
qed

lemma leaf_preimage_inj:
  assumes ok: "ascii_paths env" and e: "isValidCanonicalPath env (entry_path e)" "length (content e) \<le> MAX_ASSET_BYTES"
    and f: "isValidCanonicalPath env (entry_path f)" "length (content f) \<le> MAX_ASSET_BYTES"
    and eq: "leaf_preimage e = leaf_preimage f"
  shows "e = f"
proof -
  have "frame (utf8_encode (entry_path e)) @ encodeContentLength (length (content e)) @ content e =
      frame (utf8_encode (entry_path f)) @ encodeContentLength (length (content f)) @ content f"
    using eq by (simp add: leaf_preimage_def leafPrefix_def)
  from frame_inj [OF this] have "utf8_encode (entry_path e) = utf8_encode (entry_path f)"
    and rest: "encodeContentLength (length (content e)) @ content e = encodeContentLength (length (content f)) @ content f"
    using valid_path_length e(1) f(1) by blast+
  then have "entry_path e = entry_path f" using utf8_encode_inj valid_path_ascii [OF ok] e(1) f(1) by blast
  moreover have "content e = content f" using rest by (simp add: encodeContentLength_def append_eq_append_conv)
  ultimately show ?thesis by simp
qed

lemma concat_digests_inj:
  assumes "sha digest" and "concat (map (digest \<circ> f) xs) = concat (map (digest \<circ> f) ys)" and "length xs = length ys"
  shows "map (digest \<circ> f) xs = map (digest \<circ> f) ys"
  using assms(3,2)
proof (induction xs ys rule: list_induct2)
  case (Cons x xs y ys)
  then show ?case using assms(1) by (simp add: sha_def append_eq_append_conv)
qed simp

definition preimages :: "(bytes \<Rightarrow> bytes) \<Rightarrow> bundle_entry list \<Rightarrow> bytes set" where
  "preimages digest entries = insert (tree_preimage digest entries) (leaf_preimage ` set entries)"

lemma acceptable_entry:
  assumes "acceptable env (items_of entries)" and "e \<in> set entries"
  shows "isValidCanonicalPath env (entry_path e)" and "length (content e) \<le> MAX_ASSET_BYTES"
  using assms by (auto simp: acceptable_def items_of_def)

lemma acceptable_count: "acceptable env (items_of entries) \<Longrightarrow> length entries < 256 ^ 4"
  by (simp add: acceptable_def items_of_def MAX_BUNDLE_ENTRIES_def)

lemma tree_preimage_inj:
  assumes sha: "sha digest" and ascii: "ascii_paths env"
    and okx: "acceptable env (items_of xs)" and oky: "acceptable env (items_of ys)"
    and no_collision: "inj_on digest (preimages digest xs \<union> preimages digest ys)"
    and eq: "tree_preimage digest xs = tree_preimage digest ys"
  shows "mset xs = mset ys"
proof -
  have "be_bytes 4 (length xs) @ concat (map (\<lambda>e. digest (leaf_preimage e)) (sort_key entry_key xs)) =
      be_bytes 4 (length ys) @ concat (map (\<lambda>e. digest (leaf_preimage e)) (sort_key entry_key ys))"
    using eq unfolding tree_preimage_def by (simp only: list.inject same_append_eq)
  then have cnt: "be_bytes 4 (length xs) = be_bytes 4 (length ys)"
    and cat: "concat (map (digest \<circ> leaf_preimage) (sort_key entry_key xs)) = concat (map (digest \<circ> leaf_preimage) (sort_key entry_key ys))"
    unfolding comp_def by (simp_all add: append_eq_append_conv)
  have "length xs = length ys" using be_bytes_inj [OF cnt acceptable_count [OF okx] acceptable_count [OF oky]] .
  then have digests: "map (digest \<circ> leaf_preimage) (sort_key entry_key xs) = map (digest \<circ> leaf_preimage) (sort_key entry_key ys)"
    by (intro concat_digests_inj [OF sha cat]) simp
  have leaf: "inj_on leaf_preimage (set xs \<union> set ys)"
  proof (rule inj_onI)
    fix e f assume ef: "e \<in> set xs \<union> set ys" "f \<in> set xs \<union> set ys" "leaf_preimage e = leaf_preimage f"
    have "isValidCanonicalPath env (entry_path g) \<and> length (content g) \<le> MAX_ASSET_BYTES" if "g \<in> set xs \<union> set ys" for g
      using that acceptable_entry [OF okx, of g] acceptable_entry [OF oky, of g] by blast
    then show "e = f" using leaf_preimage_inj [OF ascii _ _ _ _ ef(3)] ef(1,2) by simp
  qed
  have "inj_on digest (leaf_preimage ` (set xs \<union> set ys))"
    by (rule inj_on_subset [OF no_collision]) (auto simp: preimages_def)
  from comp_inj_on [OF leaf this] have "inj_on (digest \<circ> leaf_preimage) (set (sort_key entry_key xs) \<union> set (sort_key entry_key ys))"
    by simp
  from map_inj_on [OF digests this] show "mset xs = mset ys" by (metis mset_sort)
qed

lemma tree_preimage_permuted:
  assumes ascii: "ascii_paths env" and ok: "acceptable env (items_of xs)" and m: "mset ys = mset xs"
  shows "sort_key entry_key ys = sort_key entry_key xs" and "tree_preimage digest ys = tree_preimage digest xs"
proof -
  have "distinct (map (collisionKey env \<circ> fst) (items_of xs))" using ok by (simp add: acceptable_def)
  then have d: "distinct (map (\<lambda>e. collisionKey env (entry_path e)) xs)" by (simp add: items_of_def comp_def)
  then have inj: "inj_on (\<lambda>e. collisionKey env (entry_path e)) (set xs)" by (simp add: distinct_map)
  have paths: "inj_on entry_path (set xs)"
    by (rule inj_onI) (rule inj_onD [OF inj], simp_all)
  have "inj_on entry_key (set xs)"
  proof (rule inj_onI)
    fix e f assume ef: "e \<in> set xs" "f \<in> set xs" "entry_key e = entry_key f"
    have "entry_path e = entry_path f"
      using ef(3) valid_path_ascii [OF ascii acceptable_entry(1) [OF ok ef(1)]] valid_path_ascii [OF ascii acceptable_entry(1) [OF ok ef(2)]]
      by (intro utf8_encode_inj) (simp_all add: entry_key_def)
    then show "e = f" by (rule inj_onD [OF paths]) (simp_all add: ef(1,2))
  qed
  moreover have "set ys = set xs" using m by (rule mset_eq_setD)
  ultimately show "sort_key entry_key ys = sort_key entry_key xs"
    by (intro sort_key_inj_key_eq) (simp_all add: m)
  moreover have "length ys = length xs" using m by (metis size_mset)
  ultimately show "tree_preimage digest ys = tree_preimage digest xs" by (simp add: tree_preimage_def)
qed

lemma bundleHash_Inr:
  assumes "sha digest"
  shows "bundleHash env digest entries = Inr r \<longleftrightarrow>
    acceptable env (items_of entries) \<and> r = SHA_PREFIX @ toLowercaseHex (digest (tree_preimage digest entries))"
  by (auto simp: bundleHash_def bundleTree_eq [OF assms])

lemma bundle_hash_content:
  assumes sha: "sha digest" and ascii: "ascii_paths env" and x: "bundleHash env digest xs = Inr r"
    and no_collision: "inj_on digest (preimages digest xs \<union> preimages digest ys)"
  shows "bundleHash env digest ys = Inr r \<longleftrightarrow> mset ys = mset xs"
proof
  have okx: "acceptable env (items_of xs)" and r: "r = SHA_PREFIX @ toLowercaseHex (digest (tree_preimage digest xs))"
    using x by (simp_all add: bundleHash_Inr [OF sha])
  {
    assume "bundleHash env digest ys = Inr r"
    then have oky: "acceptable env (items_of ys)"
      and hex: "toLowercaseHex (digest (tree_preimage digest xs)) = toLowercaseHex (digest (tree_preimage digest ys))"
      by (simp_all add: bundleHash_Inr [OF sha] r)
    have "digest (tree_preimage digest xs) = digest (tree_preimage digest ys)"
      using arg_cong [OF hex, of fromLowercaseHex] by simp
    then have "tree_preimage digest xs = tree_preimage digest ys"
      by (rule inj_onD [OF no_collision]) (simp_all add: preimages_def)
    from tree_preimage_inj [OF sha ascii okx oky no_collision this] show "mset ys = mset xs" by simp
  next
    assume m: "mset ys = mset xs"
    have items: "mset (items_of ys) = mset (items_of xs)" by (simp add: items_of_def m)
    have oky: "acceptable env (items_of ys)" using acceptable_mset [OF items] okx by simp
    then show "bundleHash env digest ys = Inr r"
      using tree_preimage_permuted(2) [OF ascii okx m] by (simp add: bundleHash_Inr [OF sha] r)
  }
qed

end
