(* ===== verification/Pin.thy ===== *)
theory Pin imports BundleHash begin

section \<open>The pin record (own-property.ts, pin.ts)\<close>

text \<open>
  What the broker keeps of an accepted bundle and how it reads it back. A record is built by
  \<open>fromBundleTree\<close> and read off disk by \<open>parsePinRecord\<close>; \<open>pin_value\<close> is the JSON value a record is written as.
  The lemmas show that the two accept exactly the same records, that whatever \<open>bundleTree\<close> answers can be pinned, and
  what is in a pinned set: the paths of the bundle, which decode to distinct plain names below the cache directory.
\<close>

subsection \<open>own-property.ts\<close>

definition has_own :: "js_value \<Rightarrow> str \<Rightarrow> bool" where
  "has_own value key = (case value of Object ps \<Rightarrow> map_of ps key \<noteq> None | _ \<Rightarrow> False)"

definition ownProperty :: "js_value \<Rightarrow> str \<Rightarrow> (js_value \<Rightarrow> bool) \<Rightarrow> js_value option" where
  "ownProperty value key guard =
     (if \<not> has_own value key then None
      else let v = get value key in if guard v then Some v else None)"

fun isFiniteNumber :: "js_value \<Rightarrow> bool" where
  "isFiniteNumber (Number (Finite _)) = True"
| "isFiniteNumber _ = False"

fun isArray :: "js_value \<Rightarrow> bool" where
  "isArray (Array _) = True"
| "isArray _ = False"

fun elements_of :: "js_value \<Rightarrow> js_value list" where
  "elements_of (Array vs) = vs"
| "elements_of _ = []"

subsection \<open>pin.ts\<close>

definition isCanonicalOrigin :: "url_parser \<Rightarrow> str \<Rightarrow> bool" where
  "isCanonicalOrigin parse origin \<longleftrightarrow> originFromUrl parse origin = Some origin"

definition PIN_SCHEMA_VERSION :: rat where "PIN_SCHEMA_VERSION = 1"

definition BUNDLE_HASH_PATTERN :: "str \<Rightarrow> bool" where
  "BUNDLE_HASH_PATTERN s \<longleftrightarrow> starts_with SHA_PREFIX s \<and> length (drop 7 s) = 64 \<and> list_all lower_hex (drop 7 s)"

text \<open>\<open>/^b[a-z2-7]{20,200}$/\<close>.\<close>

definition CID_PATTERN :: "str \<Rightarrow> bool" where
  "CID_PATTERN s \<longleftrightarrow> s \<noteq> [] \<and> hd s = 98 \<and> list_all (\<lambda>c. 97 \<le> c \<and> c \<le> 122 \<or> 50 \<le> c \<and> c \<le> 55) (tl s) \<and>
     20 \<le> length (tl s) \<and> length (tl s) \<le> 200"

definition CONTENT_VIA :: "str list" where
  "CONTENT_VIA = [js ''ipfs'', js ''ipns-key'', js ''dnslink'', js ''swarm'']"

record content_address =
  cid :: str
  via :: str
  block :: "rat option"
  pointersVerified :: bool

definition safe_integer :: "js_value \<Rightarrow> bool" where
  "safe_integer v \<longleftrightarrow> is_integer v \<and> \<bar>rat_of_value v\<bar> \<le> 2 ^ 53 - 1"

definition parseContentAddress :: "js_value \<Rightarrow> content_address option" where
  "parseContentAddress raw =
     (if \<not> is_object raw then None
      else let c = ownProperty raw (js ''cid'') is_string;
               v = ownProperty raw (js ''via'') is_string;
               verified = ownProperty raw (js ''pointersVerified'') is_boolean in
        (case (c, v, verified) of
           (Some c, Some v, Some verified) \<Rightarrow>
             if \<not> CID_PATTERN (string_of c) \<or> string_of v \<notin> set CONTENT_VIA then None
             else let b = ownProperty raw (js ''block'') isFiniteNumber in
               if has_own raw (js ''block'') \<and> (case b of None \<Rightarrow> True | Some b \<Rightarrow> \<not> safe_integer b \<or> rat_of_value b < 0) then None
               else Some \<lparr>cid = string_of c, via = string_of v, block = map_option rat_of_value b, pointersVerified = verified = Bool True\<rparr>
         | _ \<Rightarrow> None))"

record pin_record =
  pin_origin :: str
  pin_hash :: str
  pin_assets :: "path_leaf list"
  pin_version :: str
  pinnedAt :: rat
  pin_content :: "content_address option"

fun parse_entries :: "canon_env \<Rightarrow> str list \<Rightarrow> str list \<Rightarrow> js_value list \<Rightarrow> path_leaf list option" where
  "parse_entries env seenPaths seenKeys [] = (if MANIFEST_PATH \<in> set seenPaths then Some [] else None)"
| "parse_entries env seenPaths seenKeys (e # es) =
     (if \<not> is_object e then None
      else (case ownProperty e (js ''path'') is_string of
              None \<Rightarrow> None
            | Some pathv \<Rightarrow>
                let p = string_of pathv in
                if \<not> isValidCanonicalPath env p then None
                else (case ownProperty e (js ''leaf'') is_string of
                        None \<Rightarrow> None
                      | Some leafv \<Rightarrow>
                          if \<not> BUNDLE_HASH_PATTERN (string_of leafv) then None
                          else if p \<in> set seenPaths then None
                          else if collisionKey env p \<in> set seenKeys then None
                          else map_option ((#) \<lparr>leaf_path = p, leaf_digest = string_of leafv\<rparr>)
                            (parse_entries env (p # seenPaths) (collisionKey env p # seenKeys) es))))"

definition parseAssets :: "canon_env \<Rightarrow> js_value \<Rightarrow> path_leaf list option" where
  "parseAssets env raw =
     (case ownProperty raw (js ''assets'') isArray of
        None \<Rightarrow> None
      | Some v \<Rightarrow>
          if elements_of v = [] \<or> length (elements_of v) > MAX_BUNDLE_ENTRIES then None
          else parse_entries env [] [] (elements_of v))"

definition parsePinRecord :: "url_parser \<Rightarrow> canon_env \<Rightarrow> js_value \<Rightarrow> pin_record option" where
  "parsePinRecord parse env raw =
     (if \<not> is_object raw then None
      else if ownProperty raw (js ''schema'') isFiniteNumber \<noteq> Some (Number (Finite PIN_SCHEMA_VERSION)) then None
      else case ownProperty raw (js ''origin'') is_string of None \<Rightarrow> None | Some ov \<Rightarrow>
        if \<not> isCanonicalOrigin parse (string_of ov) then None
        else case ownProperty raw (js ''bundleHash'') is_string of None \<Rightarrow> None | Some hv \<Rightarrow>
          if \<not> BUNDLE_HASH_PATTERN (string_of hv) then None
          else case ownProperty raw (js ''version'') is_string of None \<Rightarrow> None | Some vv \<Rightarrow>
            if string_of vv = [] then None
            else case ownProperty raw (js ''pinnedAt'') isFiniteNumber of None \<Rightarrow> None | Some tv \<Rightarrow>
              (case parseAssets env raw of None \<Rightarrow> None | Some assets \<Rightarrow>
                 let r = \<lparr>pin_origin = string_of ov, pin_hash = string_of hv, pin_assets = assets, pin_version = string_of vv,
                          pinnedAt = rat_of_value tv, pin_content = None\<rparr> in
                 if \<not> has_own raw (js ''content'') then Some r
                 else (case parseContentAddress (get raw (js ''content'')) of
                         None \<Rightarrow> None
                       | Some c \<Rightarrow> Some (r\<lparr>pin_content := Some c\<rparr>))))"

definition isPinnedPath :: "path_leaf list \<Rightarrow> str \<Rightarrow> bool" where
  "isPinnedPath assets canonicalPath = list_ex (\<lambda>asset. leaf_path asset = canonicalPath) assets"

fun check_assets :: "canon_env \<Rightarrow> str list \<Rightarrow> str list \<Rightarrow> path_leaf list \<Rightarrow> error_code option" where
  "check_assets env seenPaths seenKeys [] = (if MANIFEST_PATH \<notin> set seenPaths then Some E_invalid else None)"
| "check_assets env seenPaths seenKeys (asset # assets) =
     (let p = leaf_path asset in
      if \<not> isValidCanonicalPath env p then Some E_invalid
      else if \<not> BUNDLE_HASH_PATTERN (leaf_digest asset) then Some E_invalid
      else if p \<in> set seenPaths then Some E_invalid
      else if collisionKey env p \<in> set seenKeys then Some E_invalid
      else check_assets env (p # seenPaths) (collisionKey env p # seenKeys) assets)"

text \<open>\<open>contentv\<close> is the optional argument, \<open>Undefined\<close> where it is left out.\<close>

definition fromBundleTree :: "url_parser \<Rightarrow> canon_env \<Rightarrow> str \<Rightarrow> str \<Rightarrow> path_leaf list \<Rightarrow> str \<Rightarrow> js_number \<Rightarrow> js_value \<Rightarrow> error_code + pin_record" where
  "fromBundleTree parse env origin hashed assets ver time contentv =
     (if \<not> isCanonicalOrigin parse origin then Inl E_invalid
      else if \<not> BUNDLE_HASH_PATTERN hashed then Inl E_invalid
      else if assets = [] then Inl E_invalid
      else if ver = [] then Inl E_invalid
      else (case time of
              Finite t \<Rightarrow>
                if length assets > MAX_BUNDLE_ENTRIES then Inl E_invalid
                else (case check_assets env [] [] assets of
                        Some err \<Rightarrow> Inl err
                      | None \<Rightarrow>
                          let r = \<lparr>pin_origin = origin, pin_hash = hashed, pin_assets = assets, pin_version = ver,
                                   pinnedAt = t, pin_content = None\<rparr> in
                          if contentv = Undefined then Inr r
                          else (case parseContentAddress contentv of
                                  None \<Rightarrow> Inl E_invalid
                                | Some c \<Rightarrow> Inr (r\<lparr>pin_content := Some c\<rparr>)))
            | _ \<Rightarrow> Inl E_invalid))"

text \<open>The value a record with these fields is written as.\<close>

definition asset_value :: "path_leaf \<Rightarrow> js_value" where
  "asset_value asset = Object [(js ''path'', Str (leaf_path asset)), (js ''leaf'', Str (leaf_digest asset))]"

definition pin_fields :: "str \<Rightarrow> str \<Rightarrow> path_leaf list \<Rightarrow> str \<Rightarrow> js_number \<Rightarrow> js_value \<Rightarrow> js_value" where
  "pin_fields origin hashed assets ver time contentv =
     Object ([(js ''schema'', Number (Finite 1)), (js ''origin'', Str origin), (js ''bundleHash'', Str hashed),
              (js ''assets'', Array (map asset_value assets)), (js ''version'', Str ver), (js ''pinnedAt'', Number time)] @
             (if contentv = Undefined then [] else [(js ''content'', contentv)]))"

definition content_value :: "content_address \<Rightarrow> js_value" where
  "content_value c = Object ([(js ''cid'', Str (cid c)), (js ''via'', Str (via c)), (js ''pointersVerified'', Bool (pointersVerified c))] @
     (case block c of None \<Rightarrow> [] | Some b \<Rightarrow> [(js ''block'', Number (Finite b))]))"

definition pin_value :: "pin_record \<Rightarrow> js_value" where
  "pin_value r = pin_fields (pin_origin r) (pin_hash r) (pin_assets r) (pin_version r) (Finite (pinnedAt r))
     (case pin_content r of None \<Rightarrow> Undefined | Some c \<Rightarrow> content_value c)"

section \<open>Two ways to a record, one set of rules\<close>

lemma asset_value_fields:
  "is_object (asset_value a)" "ownProperty (asset_value a) (js ''path'') is_string = Some (Str (leaf_path a))"
  "ownProperty (asset_value a) (js ''leaf'') is_string = Some (Str (leaf_digest a))"
  by (simp_all add: asset_value_def ownProperty_def has_own_def)

lemma parse_entries_eq:
  "parse_entries env seenPaths seenKeys (map asset_value assets) =
     (case check_assets env seenPaths seenKeys assets of None \<Rightarrow> Some assets | Some _ \<Rightarrow> None)"
proof (induction assets arbitrary: seenPaths seenKeys)
  case (Cons a assets)
  have "parse_entries env seenPaths seenKeys (asset_value a # map asset_value assets) =
      (case check_assets env seenPaths seenKeys (a # assets) of None \<Rightarrow> Some (a # assets) | Some _ \<Rightarrow> None)"
    unfolding parse_entries.simps asset_value_fields check_assets.simps by (simp add: asset_value_fields(1) Cons.IH Let_def split: option.split)
  then show ?case by (simp only: list.map)
qed simp

lemma pin_fields_get:
  "is_object (pin_fields o' h as v t c)"
  "ownProperty (pin_fields o' h as v t c) (js ''schema'') isFiniteNumber = Some (Number (Finite PIN_SCHEMA_VERSION))"
  "ownProperty (pin_fields o' h as v t c) (js ''origin'') is_string = Some (Str o')"
  "ownProperty (pin_fields o' h as v t c) (js ''bundleHash'') is_string = Some (Str h)"
  "ownProperty (pin_fields o' h as v t c) (js ''version'') is_string = Some (Str v)"
  "ownProperty (pin_fields o' h as v t c) (js ''assets'') isArray = Some (Array (map asset_value as))"
  "ownProperty (pin_fields o' h as v t c) (js ''pinnedAt'') isFiniteNumber = (if isFiniteNumber (Number t) then Some (Number t) else None)"
  "has_own (pin_fields o' h as v t c) (js ''content'') = (c \<noteq> Undefined)"
  "c \<noteq> Undefined \<Longrightarrow> get (pin_fields o' h as v t c) (js ''content'') = c"
  by (simp_all add: pin_fields_def ownProperty_def has_own_def PIN_SCHEMA_VERSION_def)

lemma pin_built_iff_read:
  "fromBundleTree parse env o' h as v t c = Inr r \<longleftrightarrow> parsePinRecord parse env (pin_fields o' h as v t c) = Some r"
  unfolding parsePinRecord_def parseAssets_def pin_fields_get fromBundleTree_def
  by (cases t; cases "c = Undefined"; cases "check_assets env [] [] as")
    (simp_all add: pin_fields_get(1) pin_fields_get(9) [simplified] parse_entries_eq Let_def split: option.split)

lemma content_value_fields:
  "is_object (content_value c)"
  "ownProperty (content_value c) (js ''cid'') is_string = Some (Str (cid c))"
  "ownProperty (content_value c) (js ''via'') is_string = Some (Str (via c))"
  "ownProperty (content_value c) (js ''pointersVerified'') is_boolean = Some (Bool (pointersVerified c))"
  "ownProperty (content_value c) (js ''block'') isFiniteNumber = map_option (\<lambda>b. Number (Finite b)) (block c)"
  "has_own (content_value c) (js ''block'') = (block c \<noteq> None)"
  by (cases "block c"; simp add: content_value_def ownProperty_def has_own_def)+

lemma ownProperty_guard: "ownProperty v k guard = Some x \<Longrightarrow> guard x \<and> has_own v k"
  by (auto simp: ownProperty_def Let_def split: if_splits)

lemma finite_number: "isFiniteNumber x \<Longrightarrow> \<exists>q. x = Number (Finite q)"
  by (cases x rule: isFiniteNumber.cases) auto

lemma content_again:
  assumes "parseContentAddress raw = Some c"
  shows "parseContentAddress (content_value c) = Some c"
proof -
  have b: "\<not> (\<exists>b. ownProperty raw (js ''block'') isFiniteNumber = Some b \<and> (\<not> safe_integer b \<or> rat_of_value b < 0))"
    using assms ownProperty_guard unfolding parseContentAddress_def Let_def
    by (fastforce split: if_splits option.splits)
  have c: "CID_PATTERN (cid c)" "via c \<in> set CONTENT_VIA" "block c = map_option rat_of_value (ownProperty raw (js ''block'') isFiniteNumber)"
    using assms unfolding parseContentAddress_def Let_def by (auto split: if_splits option.splits)
  have "\<not> (block c \<noteq> None \<and> (case map_option (\<lambda>b. Number (Finite b)) (block c) of None \<Rightarrow> True | Some b \<Rightarrow> \<not> safe_integer b \<or> rat_of_value b < 0))"
  proof (cases "ownProperty raw (js ''block'') isFiniteNumber")
    case (Some x)
    then obtain q where "x = Number (Finite q)" using ownProperty_guard finite_number by blast
    then show ?thesis using Some b c(3) by simp
  qed (use c(3) in simp)
  then show ?thesis using c(1,2)
    unfolding parseContentAddress_def Let_def content_value_fields by (simp add: content_value_fields(1) option.map_comp comp_def option.map_ident)
qed

lemma parse_entries_checked:
  "parse_entries env seenPaths seenKeys es = Some as \<Longrightarrow> check_assets env seenPaths seenKeys as = None \<and> length as = length es"
proof (induction es arbitrary: seenPaths seenKeys as)
  case (Cons e es)
  then show ?case unfolding parse_entries.simps Let_def
    by (auto simp: Let_def split: if_splits option.splits)
qed (simp split: if_splits)

lemma parsed_pin:
  assumes "parsePinRecord parse env raw = Some r"
  shows "isCanonicalOrigin parse (pin_origin r)" "BUNDLE_HASH_PATTERN (pin_hash r)" "pin_version r \<noteq> []"
    "check_assets env [] [] (pin_assets r) = None" "pin_assets r \<noteq> []" "length (pin_assets r) \<le> MAX_BUNDLE_ENTRIES"
    "\<exists>c. pin_content r = None \<or> (parseContentAddress c = pin_content r)"
proof -
  obtain ov hv vv tv as where p: "isCanonicalOrigin parse (string_of ov)" "BUNDLE_HASH_PATTERN (string_of hv)"
    "string_of vv \<noteq> []" "parseAssets env raw = Some as"
    "r = \<lparr>pin_origin = string_of ov, pin_hash = string_of hv, pin_assets = as, pin_version = string_of vv,
       pinnedAt = rat_of_value tv, pin_content = None\<rparr> \<or>
     (\<exists>c. parseContentAddress (get raw (js ''content'')) = Some c \<and>
     r = \<lparr>pin_origin = string_of ov, pin_hash = string_of hv, pin_assets = as, pin_version = string_of vv,
       pinnedAt = rat_of_value tv, pin_content = Some c\<rparr>)"
    using assms unfolding parsePinRecord_def Let_def by (auto split: if_splits option.splits)
  obtain v where v: "elements_of v \<noteq> []" "length (elements_of v) \<le> MAX_BUNDLE_ENTRIES" "parse_entries env [] [] (elements_of v) = Some as"
    using p(4) unfolding parseAssets_def by (auto split: if_splits option.splits)
  note ch = parse_entries_checked [OF v(3)]
  have as: "pin_assets r = as" using p(5) by auto
  show "isCanonicalOrigin parse (pin_origin r)" "BUNDLE_HASH_PATTERN (pin_hash r)" "pin_version r \<noteq> []" using p by auto
  show "check_assets env [] [] (pin_assets r) = None" "pin_assets r \<noteq> []" "length (pin_assets r) \<le> MAX_BUNDLE_ENTRIES"
    using ch v unfolding as by auto
  show "\<exists>c. pin_content r = None \<or> parseContentAddress c = pin_content r" using p(5) by auto
qed

lemma pin_again:
  assumes "parsePinRecord parse env raw = Some r"
  shows "parsePinRecord parse env (pin_value r) = Some r"
proof -
  note p = parsed_pin [OF assms]
  have "fromBundleTree parse env (pin_origin r) (pin_hash r) (pin_assets r) (pin_version r) (Finite (pinnedAt r))
      (case pin_content r of None \<Rightarrow> Undefined | Some c \<Rightarrow> content_value c) = Inr r"
  proof (cases "pin_content r")
    case None
    then show ?thesis using p by (simp add: fromBundleTree_def)
  next
    case (Some c)
    then have "parseContentAddress (content_value c) = Some c" using p(7) content_again by auto
    moreover have "content_value c \<noteq> Undefined" by (simp add: content_value_def)
    ultimately show ?thesis using p Some by (simp add: fromBundleTree_def)
  qed
  then show ?thesis by (simp add: pin_built_iff_read pin_value_def)
qed

section \<open>What a pin holds\<close>

lemma check_assets_iff:
  "check_assets env seenPaths seenKeys as = None \<longleftrightarrow>
     (\<forall>a\<in>set as. isValidCanonicalPath env (leaf_path a) \<and> BUNDLE_HASH_PATTERN (leaf_digest a)) \<and>
     distinct (map leaf_path as) \<and> set (map leaf_path as) \<inter> set seenPaths = {} \<and>
     distinct (map (collisionKey env \<circ> leaf_path) as) \<and> set (map (collisionKey env \<circ> leaf_path) as) \<inter> set seenKeys = {} \<and>
     MANIFEST_PATH \<in> set seenPaths \<union> set (map leaf_path as)"
  by (induction as arbitrary: seenPaths seenKeys) (auto simp: Let_def)

text \<open>What \<open>bundleTree\<close> answers is what a pin accepts.\<close>

lemma LEAF_is_HASH: "BUNDLE_HASH_PATTERN = LEAF_PATTERN"
  by (simp add: fun_eq_iff BUNDLE_HASH_PATTERN_def LEAF_PATTERN_def)

lemma tree_assets_pinnable:
  assumes sha: "sha digest" and t: "bundleTree env digest entries = Inr tree"
  shows "check_assets env [] [] (tree_assets tree) = None" "tree_assets tree \<noteq> []" "length (tree_assets tree) \<le> MAX_BUNDLE_ENTRIES"
    "BUNDLE_HASH_PATTERN (tree_root tree)" "set (map leaf_path (tree_assets tree)) = entry_path ` set entries"
proof -
  have ok: "acceptable env (items_of entries)"
    and tree: "tree_root tree = SHA_PREFIX @ toLowercaseHex (digest (tree_preimage digest entries))"
      "tree_assets tree = map (\<lambda>e. \<lparr>leaf_path = entry_path e, leaf_digest = leafDigest digest e\<rparr>) (sort_key entry_key entries)"
    using t by (auto simp: bundleTree_eq [OF sha] split: if_splits)
  have d32: "length (digest bs) = 32" for bs using sha by (simp add: sha_def)
  show "BUNDLE_HASH_PATTERN (tree_root tree)" by (simp add: tree LEAF_is_HASH digest_text d32)
  show paths: "set (map leaf_path (tree_assets tree)) = entry_path ` set entries" by (auto simp: tree)
  have keys: "mset (map (collisionKey env \<circ> leaf_path) (tree_assets tree)) = mset (map (collisionKey env \<circ> fst) (items_of entries))"
    by (simp add: tree items_of_def comp_def)
  have d: "distinct (map (collisionKey env \<circ> leaf_path) (tree_assets tree))"
    using ok mset_eq_imp_distinct_iff [OF keys] by (simp add: acceptable_def)
  then have "distinct (map leaf_path (tree_assets tree))"
    by (auto simp: distinct_map inj_on_def)
  moreover have "\<forall>a\<in>set (tree_assets tree). isValidCanonicalPath env (leaf_path a) \<and> BUNDLE_HASH_PATTERN (leaf_digest a)"
    using acceptable_entry(1) [OF ok] by (auto simp: tree LEAF_is_HASH leafDigest_def digest_text d32)
  moreover have "MANIFEST_PATH \<in> set (map leaf_path (tree_assets tree))"
    using ok paths by (auto simp: acceptable_def items_of_def)
  ultimately show "check_assets env [] [] (tree_assets tree) = None" using d by (simp add: check_assets_iff)
  show "tree_assets tree \<noteq> []" "length (tree_assets tree) \<le> MAX_BUNDLE_ENTRIES"
    using ok by (auto simp: tree acceptable_def items_of_def dest: arg_cong [of _ _ length])
qed

lemma isPinnedPath_iff: "isPinnedPath assets p \<longleftrightarrow> p \<in> set (map leaf_path assets)"
  by (auto simp: isPinnedPath_def list_ex_iff)

text \<open>What a canonical path decodes to, and where that is on disk.\<close>

lemma decode_slash: "starts_with (js ''/'') p \<Longrightarrow> decodePercentEscapes p = Some d \<Longrightarrow> \<exists>d'. d = 47 # d'"
  by (cases p) (auto simp: starts_with_def decodePercentEscapes_def split: if_splits)

lemma canonical_names:
  assumes "isValidCanonicalPath env p"
  obtains names where "decodePercentEscapes p = Some (47 # join [47] names)" "names \<noteq> []" "\<forall>n\<in>set names. safe_segment n \<and> 47 \<notin> set n"
    "\<forall>c\<in>set (join [47] names). \<not> control_char c \<and> \<not> unsafe_decoded_char c"
proof -
  obtain d where d: "decodePercentEscapes p = Some d" "isSafeDecodedPath d" "starts_with (js ''/'') p"
    using assms unfolding isValidCanonicalPath_def by (auto split: if_splits option.splits)
  obtain d' where d': "d = 47 # d'" using decode_slash [OF d(3,1)] ..
  have safe: "\<forall>n\<in>set (split_on 47 d'). safe_segment n" "\<forall>c\<in>set d'. \<not> control_char c \<and> \<not> unsafe_decoded_char c"
    using d(2) by (auto simp: isSafeDecodedPath_def d' Let_def list_all_iff list_ex_iff split: if_splits)
  show thesis
    by (rule that [of "split_on 47 d'"]) (use d(1) d' safe split_on_parts join_split_on [of 47 d'] in auto)
qed

lemma decoded_under_root:
  assumes "posix_absolute base" and "\<forall>n\<in>set names. safe_segment n \<and> 47 \<notin> set n" and "names \<noteq> []"
  shows "posix_segments (base @ 47 # join [47] names) = posix_segments base @ names"
proof -
  have clean: "\<forall>n\<in>set names. clean n" using assms(2) by (simp add: clean_def safe_segment_def)
  then show ?thesis
    using posix_segments_append [OF assms(1)] split_on_join [OF assms(3) clean_no_slash [OF clean]] collapse_id [OF clean] by simp
qed

section \<open>The pin's contract\<close>

text \<open>C2. The bundle hash is the content identity it is documented to be: given the hash of one bundle, another has the
  same hash exactly if it holds the same files at the same paths with the same bytes, in any order. (SHA-256 answers 32
  bytes and does not collide on the inputs of the two computations; a URL's \<open>pathname\<close> is ASCII.)\<close>

theorem bundle_hash_is_the_content:
  assumes "sha digest" and "ascii_paths env" and "bundleHash env digest xs = Inr r"
    and "inj_on digest (preimages digest xs \<union> preimages digest ys)"
  shows "bundleHash env digest ys = Inr r \<longleftrightarrow> mset ys = mset xs"
  using bundle_hash_content [OF assms] .

text \<open>C13. The two ways to a pin record hold the same line: a record can be built from given fields exactly if the value
  those fields are written as is read back, and then as that record; and whatever was read is written as a value
  that is read as the same record again.\<close>

theorem pin_built_as_read:
  "(fromBundleTree parse env origin hashed assets ver time contentv = Inr r \<longleftrightarrow>
      parsePinRecord parse env (pin_fields origin hashed assets ver time contentv) = Some r) \<and>
   (parsePinRecord parse env raw = Some r' \<longrightarrow> parsePinRecord parse env (pin_value r') = Some r')"
  using pin_built_iff_read pin_again by blast

text \<open>C11. Every bundle that has a hash can be pinned under a canonical origin and a version, and the pinned set then holds
  exactly the paths of the bundle: no other request is ever found in it.\<close>

theorem hashed_bundle_is_pinnable:
  assumes "sha digest" and "bundleTree env digest entries = Inr tree" and "isCanonicalOrigin parse origin" and "ver \<noteq> []"
  shows "\<exists>r. fromBundleTree parse env origin (tree_root tree) (tree_assets tree) ver (Finite t) Undefined = Inr r \<and>
    (\<forall>p. isPinnedPath (pin_assets r) p \<longleftrightarrow> p \<in> entry_path ` set entries)"
  using tree_assets_pinnable [OF assms(1,2)] assms(3,4)
  by (simp add: fromBundleTree_def isPinnedPath_iff)

text \<open>C3. A pin read off disk lays out a cache: every asset decodes to plain names below the cache directory, never the
  directory itself, none of them \<open>.\<close>, \<open>..\<close>, a Windows device or with a control character, and no two assets
  are one file where names are compared decoded, normalised and without case.\<close>

theorem pinned_files_stay_apart_and_inside:
  assumes "parsePinRecord parse env raw = Some r" and "posix_absolute base"
  shows "distinct (map (\<lambda>a. foldForIdentity env (the (decodePercentEscapes (leaf_path a)))) (pin_assets r)) \<and>
    (\<forall>a\<in>set (pin_assets r). \<exists>names. decodePercentEscapes (leaf_path a) = Some (47 # join [47] names) \<and> names \<noteq> [] \<and>
      (\<forall>n\<in>set names. safe_segment n) \<and> (\<forall>c\<in>set (join [47] names). \<not> control_char c \<and> \<not> unsafe_decoded_char c) \<and>
      posix_segments (base @ 47 # join [47] names) = posix_segments base @ names)"
proof (intro conjI ballI)
  note ok = parsed_pin(4) [OF assms(1), unfolded check_assets_iff]
  have names: "\<exists>names. decodePercentEscapes (leaf_path a) = Some (47 # join [47] names) \<and> names \<noteq> [] \<and>
      (\<forall>n\<in>set names. safe_segment n) \<and> (\<forall>c\<in>set (join [47] names). \<not> control_char c \<and> \<not> unsafe_decoded_char c) \<and>
      posix_segments (base @ 47 # join [47] names) = posix_segments base @ names" if "a \<in> set (pin_assets r)" for a
  proof -
    have "isValidCanonicalPath env (leaf_path a)" using ok that by blast
    then obtain ns where "decodePercentEscapes (leaf_path a) = Some (47 # join [47] ns)" "ns \<noteq> []"
      "\<forall>n\<in>set ns. safe_segment n \<and> 47 \<notin> set n" "\<forall>c\<in>set (join [47] ns). \<not> control_char c \<and> \<not> unsafe_decoded_char c"
      by (rule canonical_names)
    then show ?thesis using decoded_under_root [OF assms(2), of ns] by blast
  qed
  show "\<exists>names. decodePercentEscapes (leaf_path a) = Some (47 # join [47] names) \<and> names \<noteq> [] \<and>
      (\<forall>n\<in>set names. safe_segment n) \<and> (\<forall>c\<in>set (join [47] names). \<not> control_char c \<and> \<not> unsafe_decoded_char c) \<and>
      posix_segments (base @ 47 # join [47] names) = posix_segments base @ names" if "a \<in> set (pin_assets r)" for a
    using names [OF that] .
  have "map (collisionKey env \<circ> leaf_path) (pin_assets r) = map (\<lambda>a. foldForIdentity env (the (decodePercentEscapes (leaf_path a)))) (pin_assets r)"
  proof (rule map_cong [OF refl])
    fix a assume "a \<in> set (pin_assets r)"
    then obtain d where "decodePercentEscapes (leaf_path a) = Some d" using names by blast
    then show "(collisionKey env \<circ> leaf_path) a = foldForIdentity env (the (decodePercentEscapes (leaf_path a)))"
      by (simp add: collisionKey_def)
  qed
  then show "distinct (map (\<lambda>a. foldForIdentity env (the (decodePercentEscapes (leaf_path a)))) (pin_assets r))"
    using ok by metis
qed

definition sample_canon :: canon_env where
  "sample_canon = \<lparr>rederive = (\<lambda>p. if list_all (\<lambda>c. c < 128) p then Some p else None), nfc = id, to_lower = map ascii_lower\<rparr>"

definition sample_digest :: "bytes \<Rightarrow> bytes" where
  "sample_digest bs = be_bytes 32 (length bs)"

definition sample_entries :: "bundle_entry list" where
  "sample_entries = [\<lparr>entry_path = js ''/a%20b.js'', content = [7]\<rparr>, \<lparr>entry_path = MANIFEST_PATH, content = [1, 2]\<rparr>]"

definition sample_parser :: url_parser where
  "sample_parser = (\<lambda>u. if u = js ''https://app.example''
     then Some \<lparr>protocol = js ''https:'', hostname = js ''app.example'', port = [], pathname = js ''/''\<rparr> else None)"

lemma sample_digest_ok: "sha sample_digest" and sample_canon_ok: "ascii_paths sample_canon"
  by (auto simp: sha_def sample_digest_def ascii_paths_def sample_canon_def ascii_def list_all_iff split: if_splits)

definition sample_tree :: bundle_tree where
  "sample_tree = \<lparr>tree_root = SHA_PREFIX @ toLowercaseHex (sample_digest (tree_preimage sample_digest sample_entries)),
     tree_assets = map (\<lambda>e. \<lparr>leaf_path = entry_path e, leaf_digest = leafDigest sample_digest e\<rparr>) (sort_key entry_key sample_entries)\<rparr>"

lemma sample_acceptable: "acceptable sample_canon (items_of sample_entries)"
  by code_simp

lemma sample_tree_hash:
  "bundleTree sample_canon sample_digest sample_entries = Inr sample_tree"
  "bundleHash sample_canon sample_digest sample_entries = Inr (tree_root sample_tree)"
  by (simp_all add: bundleHash_def bundleTree_eq [OF sample_digest_ok] sample_acceptable sample_tree_def)

lemma length_tree_preimage:
  "sha digest \<Longrightarrow> length (tree_preimage digest entries) = 9 + length (utf8_encode BUNDLE_HASH_VERSION) + 32 * length entries"
proof -
  assume "sha digest"
  then have "length (concat (map (\<lambda>e. digest (leaf_preimage e)) es)) = 32 * length es" for es
    by (induction es) (simp_all add: sha_def)
  then show ?thesis by (simp add: tree_preimage_def frame_def)
qed

lemma sample_preimage_lengths:
  "length (tree_preimage sample_digest sample_entries) = 89"
  "map (length \<circ> leaf_preimage) sample_entries = [23, 39]"
  "tree_preimage sample_digest (rev sample_entries) = tree_preimage sample_digest sample_entries"
proof -
  have "length (utf8_encode BUNDLE_HASH_VERSION) = 16" by code_simp
  then show "length (tree_preimage sample_digest sample_entries) = 89"
    by (simp add: length_tree_preimage [OF sample_digest_ok] sample_entries_def)
  show "map (length \<circ> leaf_preimage) sample_entries = [23, 39]" by code_simp
  show "tree_preimage sample_digest (rev sample_entries) = tree_preimage sample_digest sample_entries"
    by (rule tree_preimage_permuted(2) [OF sample_canon_ok sample_acceptable]) simp
qed

lemma sample_digest_inj: "length a < 256 ^ 32 \<Longrightarrow> length b < 256 ^ 32 \<Longrightarrow> sample_digest a = sample_digest b \<Longrightarrow> length a = length b"
  unfolding sample_digest_def by (rule be_bytes_inj)

lemma sample_no_collision:
  "inj_on sample_digest (preimages sample_digest sample_entries \<union> preimages sample_digest (rev sample_entries))"
proof -
  obtain e f where ef: "sample_entries = [e, f]" by (simp add: sample_entries_def)
  have "length (tree_preimage sample_digest sample_entries) = 89" "length (leaf_preimage e) = 23" "length (leaf_preimage f) = 39"
    using sample_preimage_lengths(1,2) by (simp_all add: ef)
  moreover have "preimages sample_digest sample_entries \<union> preimages sample_digest (rev sample_entries) =
      {tree_preimage sample_digest sample_entries, leaf_preimage e, leaf_preimage f}"
    using sample_preimage_lengths(3) by (auto simp: preimages_def ef)
  ultimately show ?thesis
    by (auto simp: inj_on_def dest!: sample_digest_inj [rotated 2])
qed

theorem bundle_hash_is_the_content_witness:
  "bundleHash sample_canon sample_digest (rev sample_entries) = Inr (tree_root sample_tree)"
  using bundle_hash_is_the_content [OF sample_digest_ok sample_canon_ok sample_tree_hash(2) sample_no_collision] by simp

lemma sample_origin: "isCanonicalOrigin sample_parser (js ''https://app.example'')"
  by code_simp

definition sample_pin :: pin_record where
  "sample_pin = \<lparr>pin_origin = js ''https://app.example'', pin_hash = tree_root sample_tree, pin_assets = tree_assets sample_tree,
     pin_version = js ''1.0.0'', pinnedAt = 5, pin_content = None\<rparr>"

lemma sample_pin_built:
  "fromBundleTree sample_parser sample_canon (js ''https://app.example'') (tree_root sample_tree) (tree_assets sample_tree)
     (js ''1.0.0'') (Finite 5) Undefined = Inr sample_pin"
proof -
  have "js ''1.0.0'' \<noteq> []" by simp
  then show ?thesis
    using sample_origin tree_assets_pinnable [OF sample_digest_ok sample_tree_hash(1)]
    unfolding fromBundleTree_def sample_pin_def by simp
qed

lemma sample_pin_read: "parsePinRecord sample_parser sample_canon (pin_value sample_pin) = Some sample_pin"
  using sample_pin_built by (simp add: pin_built_iff_read pin_value_def sample_pin_def)

theorem pin_built_as_read_witness:
  "parsePinRecord sample_parser sample_canon (pin_value sample_pin) = Some sample_pin"
  using pin_built_as_read [where parse = sample_parser and env = sample_canon and raw = "pin_value sample_pin" and r' = sample_pin]
    sample_pin_read by blast

theorem hashed_bundle_is_pinnable_witness:
  "\<exists>r. fromBundleTree sample_parser sample_canon (js ''https://app.example'') (tree_root sample_tree) (tree_assets sample_tree)
      (js ''1.0.0'') (Finite 5) Undefined = Inr r \<and> isPinnedPath (pin_assets r) MANIFEST_PATH"
proof -
  have "js ''1.0.0'' \<noteq> []" by simp
  from hashed_bundle_is_pinnable [OF sample_digest_ok sample_tree_hash(1) sample_origin this, of 5] show ?thesis
    by (auto simp: sample_entries_def)
qed

theorem pinned_files_stay_apart_and_inside_witness:
  "\<exists>names. decodePercentEscapes (js ''/a%20b.js'') = Some (47 # join [47] names) \<and>
     posix_segments (js ''/data'' @ 47 # join [47] names) = posix_segments (js ''/data'') @ names"
proof -
  have "posix_absolute (js ''/data'')" by code_simp
  note pinned_files_stay_apart_and_inside [OF sample_pin_read this]
  moreover have "js ''/a%20b.js'' \<in> leaf_path ` set (pin_assets sample_pin)"
    by (auto simp: sample_pin_def sample_tree_def sample_entries_def image_image)
  ultimately show ?thesis by fastforce
qed

end
