(* ===== verification/SiteOrigin.thy ===== *)
theory SiteOrigin imports Pin begin

section \<open>Origins a manifest names (web-context-origin.ts, embed-origin.ts)\<close>

text \<open>
  Which origin a manifest may declare for a web context and for embedding, and which document an embed pattern
  admits. The URL parser is a parameter. A \<open>blob:\<close> URL is judged by the URL inside it, so \<open>embedAdmissionKind\<close>
  recurses with fuel; the lemma shows the length of the URL is enough where the parser takes the scheme off.
\<close>

record full_url = url +
  username :: str
  password :: str
  search :: str
  url_hash :: str
  url_origin :: str

type_synonym full_parser = "str \<Rightarrow> full_url option"

subsection \<open>web-context-origin.ts\<close>

datatype web_context_rejection =
  WC_unparseable | WC_notHttps | WC_wildcardHost | WC_userinfo | WC_queryOrFragment | WC_path | WC_notCanonical
| WC_addressNotPublicUnicast | WC_localhostName

definition webContextOriginRejection :: "full_parser \<Rightarrow> str \<Rightarrow> web_context_rejection option" where
  "webContextOriginRejection parse origin =
     (case parse origin of
        None \<Rightarrow> Some WC_unparseable
      | Some u \<Rightarrow>
          if protocol u \<noteq> js ''https:'' then Some WC_notHttps
          else if 42 \<in> set (hostname u) then Some WC_wildcardHost
          else if username u \<noteq> [] \<or> password u \<noteq> [] then Some WC_userinfo
          else if search u \<noteq> [] \<or> url_hash u \<noteq> [] then Some WC_queryOrFragment
          else if pathname u \<noteq> js ''/'' then Some WC_path
          else if url_origin u \<noteq> origin then Some WC_notCanonical
          else if isNonPublicAddressLiteral (hostname u) then Some WC_addressNotPublicUnicast
          else if isLocalhostName (hostname u) then Some WC_localhostName
          else None)"

definition isExactWebContextOrigin :: "full_parser \<Rightarrow> str \<Rightarrow> bool" where
  "isExactWebContextOrigin parse origin \<longleftrightarrow> webContextOriginRejection parse origin = None"

subsection \<open>embed-origin.ts\<close>

definition ANY_SITE :: str where "ANY_SITE = js ''*''"

definition label_char :: "nat \<Rightarrow> bool" where
  "label_char c \<longleftrightarrow> 97 \<le> c \<and> c \<le> 122 \<or> is_digit c"

text \<open>\<open>[a-z0-9](?:[a-z0-9-]{0,61}[a-z0-9])?\<close>.\<close>

definition DNS_LABEL :: "str \<Rightarrow> bool" where
  "DNS_LABEL s \<longleftrightarrow> s \<noteq> [] \<and> length s \<le> 63 \<and> label_char (hd s) \<and> label_char (last s) \<and> list_all (\<lambda>c. label_char c \<or> c = 45) s"

definition MIN_LOCAL_PORT :: nat where "MIN_LOCAL_PORT = 1024"
definition MAX_LOCAL_PORT :: nat where "MAX_LOCAL_PORT = 65535"

record local_pattern =
  local_port :: nat
  local_suffix :: str

text \<open>The groups of \<open>LOCAL_PATTERN\<close>: what follows \<open>http://*.\<close> up to the port, and the port.\<close>

definition local_parts :: "str \<Rightarrow> (str \<times> str) option" where
  "local_parts p =
     (if \<not> starts_with (js ''http://*.'') p then None
      else (case split_on 58 (drop (length (js ''http://*.'')) p) of
              [host, portText] \<Rightarrow>
                let labels = split_on 46 host in
                if last labels = js ''localhost'' \<and> list_all DNS_LABEL (butlast labels) \<and>
                   (length portText = 4 \<or> length portText = 5) \<and> hd portText \<noteq> 48 \<and> list_all is_digit portText
                then Some (host, portText) else None
            | _ \<Rightarrow> None))"

definition parseLocalPattern :: "str \<Rightarrow> local_pattern option" where
  "parseLocalPattern p =
     (case local_parts p of
        None \<Rightarrow> None
      | Some (host, portText) \<Rightarrow>
          let port = parse_int 10 portText in
          if port < MIN_LOCAL_PORT \<or> port > MAX_LOCAL_PORT then None
          else Some \<lparr>local_port = port, local_suffix = js ''.'' @ host\<rparr>)"

datatype embed_rejection = E_unparseable | E_notHttp | E_wildcardHost | E_userinfo | E_queryOrFragment | E_path | E_notCanonical

definition embedOriginRejection :: "full_parser \<Rightarrow> str \<Rightarrow> embed_rejection option" where
  "embedOriginRejection parse p =
     (if p = ANY_SITE \<or> parseLocalPattern p \<noteq> None then None
      else (case parse p of
              None \<Rightarrow> Some E_unparseable
            | Some u \<Rightarrow>
                if protocol u \<noteq> js ''https:'' \<and> protocol u \<noteq> js ''http:'' then Some E_notHttp
                else if 42 \<in> set (hostname u) then Some E_wildcardHost
                else if username u \<noteq> [] \<or> password u \<noteq> [] then Some E_userinfo
                else if search u \<noteq> [] \<or> url_hash u \<noteq> [] then Some E_queryOrFragment
                else if pathname u \<noteq> js ''/'' then Some E_path
                else if url_origin u \<noteq> p then Some E_notCanonical
                else None))"



definition localLabelMatches :: "full_url \<Rightarrow> local_pattern \<Rightarrow> bool" where
  "localLabelMatches u local =
     (if port u \<noteq> to_string 10 (local_port local) \<or> \<not> ends_with (local_suffix local) (hostname u) then False
      else DNS_LABEL (take (length (hostname u) - length (local_suffix local)) (hostname u)))"




section \<open>What a pattern admits\<close>












text \<open>A local pattern admits a plain \<open>http\<close> URL on its port, one label below its suffix.\<close>

definition local_admits :: "full_url \<Rightarrow> str list \<Rightarrow> nat \<Rightarrow> bool" where
  "local_admits u pats n \<longleftrightarrow> (\<exists>p\<in>set pats. \<exists>l. parseLocalPattern p = Some l \<and> protocol u = js ''http:'' \<and>
     localLabelMatches u l \<and> n = local_port l)"

lemma local_admits_Nil [simp]: "\<not> local_admits u [] n" by (simp add: local_admits_def)























end
