(* ===== verification/ManifestRead.thy ===== *)
theory ManifestRead imports SiteOrigin "HOL-Library.Monad_Syntax" begin

section \<open>Reading a manifest (manifest.ts, capabilities.ts, devices.ts, embed.ts, media.ts, domain.ts, support.ts)\<close>

text \<open>
  A reader answers \<open>None\<close> where the code rejects; the reason it gives the developer is left out. An optional field
  that is absent is \<open>Some None\<close>. The URL parser, the encoding of a path segment by it, JSON and the parameters of
  \<open>canon_env\<close> are parameters. The lemmas show that what a parsed manifest declares is what the policy layer can
  grant, with the policy layer's own grammar, and that its files fit into one bundle.
\<close>

subsection \<open>Fields of an untrusted object\<close>

definition isRecord :: "js_value \<Rightarrow> bool" where
  "isRecord v \<longleftrightarrow> is_object v \<and> \<not> isArray v"

fun keys_of :: "js_value \<Rightarrow> str list" where
  "keys_of (Object ps) = map fst ps"
| "keys_of (Uint8Array bs) = map (to_string 10) [0..<length bs]"
| "keys_of (Array vs) = map (to_string 10) [0..<length vs]"
| "keys_of _ = []"

definition unknownKeys :: "js_value \<Rightarrow> str list \<Rightarrow> str list" where
  "unknownKeys v known = filter (\<lambda>k. k \<notin> set known) (keys_of v)"

definition extraKey :: "js_value \<Rightarrow> str list \<Rightarrow> str option" where
  "extraKey v known = (case unknownKeys v known of [] \<Rightarrow> None | k # _ \<Rightarrow> Some k)"

definition shaped :: "js_value \<Rightarrow> str list \<Rightarrow> bool" where
  "shaped v known \<longleftrightarrow> isRecord v \<and> extraKey v known = None"

definition require :: "bool \<Rightarrow> unit option" where
  "require b = (if b then Some () else None)"

text \<open>A field that is read where it is present: \<open>raw === undefined ? undefined : read (raw)\<close>.\<close>

definition optional :: "js_value \<Rightarrow> str \<Rightarrow> (js_value \<Rightarrow> 'a option) \<Rightarrow> 'a option option" where
  "optional v key read = (let raw = get v key in if raw = Undefined then Some None else map_option Some (read raw))"

fun read_strings :: "(str \<Rightarrow> bool) \<Rightarrow> js_value list \<Rightarrow> str list option" where
  "read_strings validateOne [] = Some []"
| "read_strings validateOne (item # items) =
     (case item of
        Str s \<Rightarrow> if validateOne s then map_option ((#) s) (read_strings validateOne items) else None
      | _ \<Rightarrow> None)"

definition string_array :: "nat \<Rightarrow> (js_value list \<Rightarrow> 'a option) \<Rightarrow> js_value \<Rightarrow> 'a option" where
  "string_array most read raw =
     (if \<not> isArray raw then None
      else if elements_of raw = [] then None
      else if length (elements_of raw) > most then None
      else read (elements_of raw))"

definition optionalStringArray :: "js_value \<Rightarrow> str \<Rightarrow> nat \<Rightarrow> (str \<Rightarrow> bool) \<Rightarrow> str list option option" where
  "optionalStringArray v key most validateOne = optional v key (string_array most (read_strings validateOne))"

definition requireString :: "js_value \<Rightarrow> str \<Rightarrow> nat \<Rightarrow> nat \<Rightarrow> str option" where
  "requireString v field least most =
     (let raw = get v field in
      if raw = Undefined then None
      else if \<not> is_string raw then None
      else if length (string_of raw) < least \<or> length (string_of raw) > most then None
      else Some (string_of raw))"

definition unsafe_text_char :: "nat \<Rightarrow> bool" where
  "unsafe_text_char c \<longleftrightarrow> c \<le> 31 \<or> 127 \<le> c \<and> c \<le> 159 \<or> 8203 \<le> c \<and> c \<le> 8207 \<or> c = 8232 \<or> c = 8233 \<or>
     8234 \<le> c \<and> c \<le> 8238 \<or> 8288 \<le> c \<and> c \<le> 8292 \<or> 8294 \<le> c \<and> c \<le> 8297 \<or> c = 65279"

definition UNSAFE_TEXT_CHARS :: "str \<Rightarrow> bool" where
  "UNSAFE_TEXT_CHARS s = list_ex unsafe_text_char s"

text \<open>\<open>before\<close>: whether the unit before is a high surrogate.\<close>

fun unpaired_surrogate :: "bool \<Rightarrow> str \<Rightarrow> bool" where
  "unpaired_surrogate before [] = False"
| "unpaired_surrogate before (c # cs) =
     (high_surrogate c \<and> \<not> (cs \<noteq> [] \<and> low_surrogate (hd cs)) \<or> low_surrogate c \<and> \<not> before \<or>
      unpaired_surrogate (high_surrogate c) cs)"

subsection \<open>capabilities.ts\<close>

definition MAX_SCHEME_LENGTH :: nat where "MAX_SCHEME_LENGTH = 32"
definition MAX_CURVE_LENGTH :: nat where "MAX_CURVE_LENGTH = 64"
definition MAX_DECLARED_PATTERNS :: nat where "MAX_DECLARED_PATTERNS = 256"
definition MAX_PROTOCOLS :: nat where "MAX_PROTOCOLS = 32"
definition MAX_CURVES :: nat where "MAX_CURVES = 8"

definition CAPABILITIES_KEYS :: "str list" where
  "CAPABILITIES_KEYS = map (\<lambda>s. js s) [''net'', ''fs'', ''id'', ''web'', ''secrets'', ''media'', ''trust'', ''devices'', ''protocols'']"
definition NET_KEYS :: "str list" where "NET_KEYS = map (\<lambda>s. js s) [''tcp'', ''udp'', ''https'', ''concurrentSockets'']"
definition TCP_KEYS :: "str list" where "TCP_KEYS = map (\<lambda>s. js s) [''connect'', ''listen'']"
definition UDP_KEYS :: "str list" where "UDP_KEYS = map (\<lambda>s. js s) [''bind'', ''send'']"
definition BIND_SCOPES_KEYS :: "str list" where "BIND_SCOPES_KEYS = map (\<lambda>s. js s) [''local'', ''network'']"
definition HTTPS_KEYS :: "str list" where "HTTPS_KEYS = map (\<lambda>s. js s) [''connect'']"
definition FS_KEYS :: "str list" where "FS_KEYS = map (\<lambda>s. js s) [''quotaBytes'']"
definition ID_CAPABILITY_KEYS :: "str list" where "ID_CAPABILITY_KEYS = map (\<lambda>s. js s) [''curves'']"
definition WEB_CAPABILITY_KEYS :: "str list" where "WEB_CAPABILITY_KEYS = map (\<lambda>s. js s) [''contexts'', ''embed'']"
definition TRUST_CAPABILITY_KEYS :: "str list" where "TRUST_CAPABILITY_KEYS = map (\<lambda>s. js s) [''score'']"

text \<open>\<open>/^[a-z][a-z0-9+.-]*$/\<close>.\<close>

definition SCHEME_PATTERN :: "str \<Rightarrow> bool" where
  "SCHEME_PATTERN s \<longleftrightarrow> s \<noteq> [] \<and> 97 \<le> hd s \<and> hd s \<le> 122 \<and> list_all (\<lambda>c. label_char c \<or> c = 43 \<or> c = 46 \<or> c = 45) (tl s)"

definition parsePortRange :: "str \<Rightarrow> (nat \<times> nat) option" where
  "parsePortRange spec =
     (case (case split_on 45 spec of
              [a] \<Rightarrow> if re_port a then Some (parse_int 10 a, parse_int 10 a) else None
            | [a, b] \<Rightarrow> if re_port a \<and> re_port b then Some (parse_int 10 a, parse_int 10 b) else None
            | _ \<Rightarrow> None) of
        None \<Rightarrow> None
      | Some (lo, hi) \<Rightarrow> if int lo > MAX_PORT \<or> int hi > MAX_PORT \<or> lo > hi then None else Some (lo, hi))"

definition validatePortRangePattern :: "str \<Rightarrow> bool" where
  "validatePortRangePattern pattern =
     (if pattern = js ''*'' then False
      else (case parsePortRange pattern of
              None \<Rightarrow> False
            | Some (lo, hi) \<Rightarrow> \<not> int lo < MIN_UNPRIVILEGED_PORT))"

definition validateConnectPattern :: "connect_kind \<Rightarrow> str \<Rightarrow> bool" where
  "validateConnectPattern kind pattern =
     (if pattern \<noteq> trim pattern then False
      else (case parsePattern (VString pattern) of
              None \<Rightarrow> False
            | Some parsed \<Rightarrow>
                if pat_port parsed \<noteq> js ''*'' \<and> parsePortRange (pat_port parsed) = None then False
                else declarableConnectHostRejection (pat_host parsed) pattern kind = None))"

definition validateSchemeName :: "str \<Rightarrow> bool" where
  "validateSchemeName scheme \<longleftrightarrow> \<not> length scheme > MAX_SCHEME_LENGTH \<and> SCHEME_PATTERN scheme"

definition validateCurveName :: "str \<Rightarrow> bool" where
  "validateCurveName curve \<longleftrightarrow> \<not> (length curve = 0 \<or> length curve > MAX_CURVE_LENGTH) \<and> \<not> UNSAFE_TEXT_CHARS curve"

definition readBindScopes :: "js_value \<Rightarrow> bind_scopes option" where
  "readBindScopes raw = do {
     require (shaped raw BIND_SCOPES_KEYS);
     l \<leftarrow> optionalStringArray raw (js ''local'') MAX_DECLARED_PATTERNS validatePortRangePattern;
     n \<leftarrow> optionalStringArray raw (js ''network'') MAX_DECLARED_PATTERNS validatePortRangePattern;
     require (\<not> (l = None \<and> n = None));
     Some \<lparr>local_patterns = l, network_patterns = n\<rparr>
   }"

definition readTcp :: "js_value \<Rightarrow> tcp_capability option" where
  "readTcp raw = do {
     require (shaped raw TCP_KEYS);
     c \<leftarrow> optionalStringArray raw (js ''connect'') MAX_DECLARED_PATTERNS (validateConnectPattern TcpConnect);
     l \<leftarrow> optional raw (js ''listen'') readBindScopes;
     Some \<lparr>tcp_connect = c, tcp_listen = l\<rparr>
   }"

definition readUdp :: "js_value \<Rightarrow> udp_capability option" where
  "readUdp raw = do {
     require (shaped raw UDP_KEYS);
     b \<leftarrow> optional raw (js ''bind'') readBindScopes;
     s \<leftarrow> optionalStringArray raw (js ''send'') MAX_DECLARED_PATTERNS (validateConnectPattern UdpSend);
     Some \<lparr>udp_bind = b, udp_send = s\<rparr>
   }"

definition readHttps :: "js_value \<Rightarrow> https_capability option" where
  "readHttps raw = do {
     require (shaped raw HTTPS_KEYS);
     c \<leftarrow> optionalStringArray raw (js ''connect'') MAX_DECLARED_PATTERNS (validateConnectPattern HttpsConnect);
     Some \<lparr>https_connect = c\<rparr>
   }"

definition positive_integer :: "js_value \<Rightarrow> int option" where
  "positive_integer value =
     (if \<not> isFiniteNumber value then None
      else if \<not> is_integer value then None
      else if rat_of_value value \<le> 0 then None
      else if \<not> safe_integer value then None
      else Some \<lfloor>rat_of_value value\<rfloor>)"

definition readPositiveInteger :: "js_value \<Rightarrow> str \<Rightarrow> int option option" where
  "readPositiveInteger raw field = optional raw field positive_integer"

definition readNet :: "js_value \<Rightarrow> net_capability option" where
  "readNet raw = do {
     require (shaped raw NET_KEYS);
     t \<leftarrow> optional raw (js ''tcp'') readTcp;
     u \<leftarrow> optional raw (js ''udp'') readUdp;
     h \<leftarrow> optional raw (js ''https'') readHttps;
     n \<leftarrow> readPositiveInteger raw (js ''concurrentSockets'');
     Some \<lparr>tcp = t, udp = u, https = h, concurrentSockets = n\<rparr>
   }"

definition readFs :: "js_value \<Rightarrow> int option option" where
  "readFs raw = do { require (shaped raw FS_KEYS); readPositiveInteger raw (js ''quotaBytes'') }"

definition validateWebContextOrigin :: "full_parser \<Rightarrow> str \<Rightarrow> bool" where
  "validateWebContextOrigin parse origin \<longleftrightarrow> webContextOriginRejection parse origin = None"

subsection \<open>embed.ts\<close>

definition EMBED_CAPABILITY_KEYS :: "str list" where "EMBED_CAPABILITY_KEYS = map (\<lambda>s. js s) [''origins'']"

definition validateEmbedOrigin :: "full_parser \<Rightarrow> str \<Rightarrow> bool" where
  "validateEmbedOrigin parse pattern \<longleftrightarrow> embedOriginRejection parse pattern = None"

definition readEmbed :: "full_parser \<Rightarrow> js_value \<Rightarrow> str list option" where
  "readEmbed parse raw = do {
     require (shaped raw EMBED_CAPABILITY_KEYS);
     os \<leftarrow> optionalStringArray raw (js ''origins'') MAX_DECLARED_PATTERNS (validateEmbedOrigin parse);
     os
   }"

definition readWeb :: "full_parser \<Rightarrow> js_value \<Rightarrow> web_capability option" where
  "readWeb parse raw = do {
     require (shaped raw WEB_CAPABILITY_KEYS);
     c \<leftarrow> optionalStringArray raw (js ''contexts'') MAX_DECLARED_PATTERNS (validateWebContextOrigin parse);
     e \<leftarrow> optional raw (js ''embed'') (readEmbed parse);
     Some \<lparr>contexts = c, embed_origins = e\<rparr>
   }"

definition readIdCapability :: "js_value \<Rightarrow> str list option option" where
  "readIdCapability raw = do {
     require (shaped raw ID_CAPABILITY_KEYS);
     optionalStringArray raw (js ''curves'') MAX_CURVES validateCurveName
   }"

definition readSecrets :: "js_value \<Rightarrow> unit option" where
  "readSecrets raw = require (shaped raw [])"

definition readTrust :: "js_value \<Rightarrow> bool option" where
  "readTrust raw = do {
     require (shaped raw TRUST_CAPABILITY_KEYS);
     (let score = get raw (js ''score'') in
      if score = Undefined then Some False else if score \<noteq> Bool True then None else Some True)
   }"

subsection \<open>media.ts\<close>

definition MEDIA_CAPABILITY_KEYS :: "str list" where "MEDIA_CAPABILITY_KEYS = map (\<lambda>s. js s) [''camera'', ''microphone'', ''screen'']"

definition media_flag :: "js_value \<Rightarrow> str \<Rightarrow> bool option" where
  "media_flag raw flag =
     (let value = get raw flag in if value = Undefined then Some False else if value \<noteq> Bool True then None else Some True)"

definition readMedia :: "js_value \<Rightarrow> media_capability option" where
  "readMedia raw = do {
     require (shaped raw MEDIA_CAPABILITY_KEYS);
     c \<leftarrow> media_flag raw (js ''camera'');
     m \<leftarrow> media_flag raw (js ''microphone'');
     s \<leftarrow> media_flag raw (js ''screen'');
     require (c \<or> m \<or> s);
     Some \<lparr>camera = c, microphone = m, screen = s\<rparr>
   }"

subsection \<open>devices.ts\<close>

definition DEVICES_CAPABILITY_KEYS :: "str list" where "DEVICES_CAPABILITY_KEYS = map (\<lambda>s. js s) [''hid'']"
definition HID_DEVICE_FILTER_KEYS :: "str list" where
  "HID_DEVICE_FILTER_KEYS = map (\<lambda>s. js s) [''vendorId'', ''productId'', ''usagePage'', ''usage'']"
definition MAX_ID :: rat where "MAX_ID = 65535"
definition LIMIT_hidFilters :: nat where "LIMIT_hidFilters = 16"

definition hid_id :: "js_value \<Rightarrow> nat option" where
  "hid_id value =
     (if \<not> is_integer value \<or> rat_of_value value < 0 \<or> rat_of_value value > MAX_ID then None
      else Some (nat \<lfloor>rat_of_value value\<rfloor>))"

definition readId :: "js_value \<Rightarrow> str \<Rightarrow> nat option option" where
  "readId raw field = optional raw field hid_id"

definition readFilter :: "js_value \<Rightarrow> hid_filter option" where
  "readFilter raw = do {
     require (shaped raw HID_DEVICE_FILTER_KEYS);
     v \<leftarrow> readId raw (js ''vendorId'');
     v \<leftarrow> v;
     p \<leftarrow> readId raw (js ''productId'');
     up \<leftarrow> readId raw (js ''usagePage'');
     u \<leftarrow> readId raw (js ''usage'');
     require (\<not> (u \<noteq> None \<and> up = None));
     Some \<lparr>vendorId = v, productId = p, usagePage = up, usage = u\<rparr>
   }"

fun read_filters :: "str list \<Rightarrow> js_value list \<Rightarrow> hid_filter list option" where
  "read_filters seen [] = Some []"
| "read_filters seen (e # es) = do {
     f \<leftarrow> readFilter e;
     require (hidFilterToPattern f \<notin> set seen);
     map_option ((#) f) (read_filters (hidFilterToPattern f # seen) es)
   }"

definition readDevices :: "js_value \<Rightarrow> hid_filter list option" where
  "readDevices raw = do {
     require (shaped raw DEVICES_CAPABILITY_KEYS);
     (let hidRaw = get raw (js ''hid'') in
      if hidRaw = Undefined then None else string_array LIMIT_hidFilters (read_filters []) hidRaw)
   }"

record declared_capabilities = capabilities +
  protocols :: "str list option"

definition readCapabilities :: "full_parser \<Rightarrow> js_value \<Rightarrow> declared_capabilities option" where
  "readCapabilities parse raw = do {
     require (shaped raw CAPABILITIES_KEYS);
     ps \<leftarrow> optionalStringArray raw (js ''protocols'') MAX_PROTOCOLS validateSchemeName;
     n \<leftarrow> optional raw (js ''net'') readNet;
     f \<leftarrow> optional raw (js ''fs'') readFs;
     i \<leftarrow> optional raw (js ''id'') readIdCapability;
     w \<leftarrow> optional raw (js ''web'') (readWeb parse);
     s \<leftarrow> optional raw (js ''secrets'') readSecrets;
     m \<leftarrow> optional raw (js ''media'') readMedia;
     t \<leftarrow> optional raw (js ''trust'') readTrust;
     d \<leftarrow> optional raw (js ''devices'') readDevices;
     Some \<lparr>net = n, fs = f, curves = i, web = w, media = m, secrets = s \<noteq> None, trust_score = t, hid = d, protocols = ps\<rparr>
   }"

subsection \<open>manifest.ts, domain.ts, support.ts\<close>

text \<open>\<open>segment_pathname s\<close> is \<open>new URL ('https://canonicalisation.invalid/' + s).pathname\<close>, which never throws.\<close>

record manifest_env =
  full_parse :: full_parser
  canon :: canon_env
  segment_pathname :: "str \<Rightarrow> str"
  json_parse :: "str \<Rightarrow> js_value option"

datatype consent_granularity = AllOrNothing | PerCapability

record app_manifest = manifest +
  app_id :: str
  app_entry :: str
  app_assets :: "str list option"
  app_protocols :: "str list option"
  consentGranularity :: "consent_granularity option"
  crossOriginIsolated :: bool
  app_domain :: "str option"
  app_support :: "str option"

definition MAX_ID_LENGTH :: nat where "MAX_ID_LENGTH = 255"
definition MAX_NAME_LENGTH :: nat where "MAX_NAME_LENGTH = 200"
definition MAX_VERSION_LENGTH :: nat where "MAX_VERSION_LENGTH = 256"
definition MAX_ENTRY_LENGTH :: nat where "MAX_ENTRY_LENGTH = 1024"
definition MAX_ASSETS :: nat where "MAX_ASSETS = MAX_BUNDLE_ENTRIES - 2"
definition MAX_MANIFEST_BYTES :: nat where "MAX_MANIFEST_BYTES = MAX_ASSETS * 64 + 16 * 1024"
definition DDOC_PATH :: str where "DDOC_PATH = js ''/.well-known/orivon-ddoc.json''"

definition MANIFEST_KEYS :: "str list" where
  "MANIFEST_KEYS = map (\<lambda>s. js s) [''orivonApiVersion'', ''id'', ''name'', ''version'', ''entry'', ''assets'', ''capabilities'',
     ''consentGranularity'', ''crossOriginIsolated'', ''domain'', ''support'']"

definition isAbsoluteUrl :: "manifest_env \<Rightarrow> str \<Rightarrow> bool" where
  "isAbsoluteUrl env s \<longleftrightarrow> full_parse env s \<noteq> None"

definition encodeEntrySegment :: "manifest_env \<Rightarrow> str \<Rightarrow> str" where
  "encodeEntrySegment env segment =
     (if segment = js ''.'' \<or> segment = js ''..'' then segment else drop 1 (segment_pathname env segment))"

definition canonical_of :: "manifest_env \<Rightarrow> str \<Rightarrow> str" where
  "canonical_of env p = 47 # join [47] (map (encodeEntrySegment env) (split_on 47 p))"

definition validateRelativePath :: "manifest_env \<Rightarrow> str \<Rightarrow> bool" where
  "validateRelativePath env p =
     (if starts_with (js ''/'') p then False
      else if isAbsoluteUrl env p then False
      else isValidCanonicalPath (canon env) (canonical_of env p))"

definition RESERVED_KEYS :: "manifest_env \<Rightarrow> str list" where
  "RESERVED_KEYS env = map (\<lambda>p. collisionKey (canon env) (drop 1 p)) [MANIFEST_PATH, DDOC_PATH]"

fun read_assets :: "manifest_env \<Rightarrow> str \<Rightarrow> str list \<Rightarrow> js_value list \<Rightarrow> str list option" where
  "read_assets env entryKey seen [] = Some []"
| "read_assets env entryKey seen (item # items) =
     (case item of
        Str s \<Rightarrow>
          let key = collisionKey (canon env) s in
          if \<not> validateRelativePath env s then None
          else if key \<in> set (RESERVED_KEYS env) then None
          else if key = entryKey then None
          else if key \<in> set seen then None
          else map_option ((#) s) (read_assets env entryKey (key # seen) items)
      | _ \<Rightarrow> None)"

definition readAssets :: "manifest_env \<Rightarrow> js_value \<Rightarrow> str \<Rightarrow> str list option option" where
  "readAssets env v ent = optional v (js ''assets'') (string_array MAX_ASSETS (read_assets env (collisionKey (canon env) ent) []))"

definition readConsentGranularity :: "js_value \<Rightarrow> consent_granularity option option" where
  "readConsentGranularity v = optional v (js ''consentGranularity'') (\<lambda>raw.
     if raw = Str (js ''all-or-nothing'') then Some AllOrNothing
     else if raw = Str (js ''per-capability'') then Some PerCapability
     else None)"

definition readCrossOriginIsolated :: "js_value \<Rightarrow> bool option" where
  "readCrossOriginIsolated v = media_flag v (js ''crossOriginIsolated'')"

definition domain_ok :: "manifest_env \<Rightarrow> str \<Rightarrow> bool" where
  "domain_ok env d =
     (if length d = 0 \<or> length d > 253 then False
      else (case full_parse env (js ''https://'' @ d) of
              None \<Rightarrow> False
            | Some u \<Rightarrow>
                if hostname u \<noteq> d then False
                else let labels = split_on 46 d in
                  if length labels < 2 then False
                  else if \<not> list_all DNS_LABEL labels then False
                  else if list_all is_digit (last labels) then False
                  else last labels \<noteq> js ''localhost'' \<and> last labels \<noteq> js ''orivon''))"

definition readDomain :: "manifest_env \<Rightarrow> js_value \<Rightarrow> str option option" where
  "readDomain env v = optional v (js ''domain'') (\<lambda>raw.
     if is_string raw \<and> domain_ok env (string_of raw) then Some (string_of raw) else None)"

definition issues_ok :: "manifest_env \<Rightarrow> str \<Rightarrow> bool" where
  "issues_ok env issues =
     (if length issues = 0 \<or> length issues > 2048 then False
      else if UNSAFE_TEXT_CHARS issues \<or> list_ex js_space issues then False
      else (case full_parse env issues of
              None \<Rightarrow> False
            | Some u \<Rightarrow>
                if protocol u \<noteq> js ''https:'' \<or> \<not> starts_with (js ''https://'') issues then False
                else username u = [] \<and> password u = []))"

definition readSupport :: "manifest_env \<Rightarrow> js_value \<Rightarrow> str option option" where
  "readSupport env v = optional v (js ''support'') (\<lambda>raw.
     if \<not> isRecord raw then None
     else let issues = get raw (js ''issues'') in
       if is_string issues \<and> issues_ok env (string_of issues) then Some (string_of issues) else None)"

definition readManifest :: "manifest_env \<Rightarrow> js_value \<Rightarrow> (app_manifest \<times> str list) option" where
  "readManifest env v = do {
     require (isRecord v);
     require (get v (js ''orivonApiVersion'') = Number (Finite 0));
     i \<leftarrow> requireString v (js ''id'') 1 MAX_ID_LENGTH;
     require (\<not> UNSAFE_TEXT_CHARS i \<and> trim i \<noteq> [] \<and> \<not> unpaired_surrogate False i);
     n \<leftarrow> requireString v (js ''name'') 1 MAX_NAME_LENGTH;
     require (\<not> UNSAFE_TEXT_CHARS n \<and> trim n \<noteq> []);
     ver \<leftarrow> requireString v (js ''version'') 1 MAX_VERSION_LENGTH;
     require (\<not> UNSAFE_TEXT_CHARS ver \<and> trim ver = ver \<and> compareVersions ver ver \<noteq> None);
     e \<leftarrow> requireString v (js ''entry'') 1 MAX_ENTRY_LENGTH;
     require (e \<noteq> js ''/'' \<and> validateRelativePath env e);
     as \<leftarrow> readAssets env v e;
     require (get v (js ''capabilities'') \<noteq> Undefined);
     caps \<leftarrow> readCapabilities (full_parse env) (get v (js ''capabilities''));
     c \<leftarrow> readConsentGranularity v;
     x \<leftarrow> readCrossOriginIsolated v;
     d \<leftarrow> readDomain env v;
     s \<leftarrow> readSupport env v;
     Some (\<lparr>app_name = n, app_version = ver, app_capabilities = capabilities.truncate caps, app_id = i, app_entry = e,
            app_assets = as, app_protocols = protocols caps, consentGranularity = c, crossOriginIsolated = x, app_domain = d,
            app_support = s\<rparr>, unknownKeys v MANIFEST_KEYS)
   }"

definition parseJsonText :: "manifest_env \<Rightarrow> str \<Rightarrow> js_value option" where
  "parseJsonText env s =
     (if length s = 0 then None
      else if length (utf8_encode s) > MAX_MANIFEST_BYTES then None
      else json_parse env s)"

definition parseManifest :: "manifest_env \<Rightarrow> js_value \<Rightarrow> (app_manifest \<times> str list) option" where
  "parseManifest env input =
     (case input of
        Str s \<Rightarrow> Option.bind (parseJsonText env s) (readManifest env)
      | _ \<Rightarrow> readManifest env input)"

section \<open>One grammar of patterns\<close>

lemma parsePortRange_spec:
  assumes "spec \<noteq> js ''*''"
  shows "parsePortSpec spec = map_option (\<lambda>(lo, hi). PortSpan (int lo) (int hi)) (parsePortRange spec)"
  using assms by (auto simp: parsePortSpec_def parsePortRange_def Let_def split: list.split option.split)

lemma parsePortRange_None: "spec \<noteq> js ''*'' \<Longrightarrow> parsePortRange spec = None \<longleftrightarrow> parsePortSpec spec = None"
  using parsePortRange_spec by simp

lemma validateConnectPattern_declarable: "validateConnectPattern kind p = isDeclarableConnectPattern (VString p) kind"
proof (cases "parsePattern (VString p)")
  case (Some pat)
  have "(pat_port pat \<noteq> js ''*'' \<and> parsePortRange (pat_port pat) = None) =
      (pat_port pat \<noteq> js ''*'' \<and> parsePortSpec (pat_port pat) = None)"
    using parsePortRange_None by blast
  then show ?thesis
    by (simp only: validateConnectPattern_def isDeclarableConnectPattern_def Some jsv.case option.case Let_def)
qed (simp add: validateConnectPattern_def isDeclarableConnectPattern_def)

lemma require_bind [simp]: "Option.bind (require b) f = Some r \<longleftrightarrow> b \<and> f () = Some r"
  by (simp add: require_def)

lemma optional_Some: "optional v k read = Some (Some x) \<Longrightarrow> \<exists>raw. read raw = Some x"
  by (auto simp: optional_def Let_def split: if_splits)

lemma read_strings_ok: "read_strings P items = Some ss \<Longrightarrow> list_all P ss \<and> length ss = length items"
  by (induction items arbitrary: ss) (auto split: js_value.splits if_splits)

lemma strings_ok:
  "optionalStringArray v k most P = Some (Some ss) \<Longrightarrow> list_all P ss \<and> ss \<noteq> [] \<and> length ss \<le> most"
  unfolding optionalStringArray_def
  by (auto simp: string_array_def dest!: optional_Some read_strings_ok split: if_splits)

text \<open>A read object field is absent or was read; every step of a reader succeeded.\<close>

lemma optional_cases: "optional v k read = Some x \<Longrightarrow> x = None \<or> (\<exists>raw y. x = Some y \<and> read raw = Some y)"
  by (auto simp: optional_def Let_def split: if_splits)

section \<open>What is declared can be granted\<close>

definition bind_kinds :: "str set" where
  "bind_kinds = {js ''tcp.listen.local'', js ''tcp.listen.network'', js ''udp.bind.local'', js ''udp.bind.network''}"

text \<open>What the kind of a pattern demands of it: it covers itself, a connect pattern is declarable, and a port pattern
  gives a range a bind can use.\<close>

definition declared_well :: "str \<Rightarrow> str \<Rightarrow> bool" where
  "declared_well kind p \<longleftrightarrow> covers p p \<and>
     (case map_of CONNECT_SHAPED_CAPABILITIES kind of None \<Rightarrow> True | Some shape \<Rightarrow> isDeclarableConnectPattern (VString p) shape) \<and>
     (kind \<in> bind_kinds \<longrightarrow> pattern_ranges (VString p) \<noteq> [])"

definition declared_list :: "str \<Rightarrow> str list \<Rightarrow> bool" where
  "declared_list kind ps \<longleftrightarrow> list_all (declared_well kind) ps \<and> length ps \<le> MAX_PATTERNS"

definition all_good :: "pattern_set \<Rightarrow> bool" where
  "all_good s \<longleftrightarrow> (\<forall>kind ps. patternsFor s kind = Some ps \<longrightarrow> declared_list kind ps)"

lemma all_good_Nil: "all_good []"
  by (simp add: all_good_def)

lemma all_good_put: "pred_option (declared_list k) v \<Longrightarrow> all_good s \<Longrightarrow> all_good (put k v s)"
  by (auto simp: all_good_def)

lemma present_good: "pred_option (declared_list k) (present b)"
  by (simp add: present_def declared_list_def)

lemma all_good_decided:
  assumes "all_good (patternSetFromCapabilities (app_capabilities m))"
    and "patternsFor (patternSetFromCapabilities (app_capabilities m)) kind = Some ps"
  shows "decideGrantRequest m kind None = \<lparr>allowed = True, to_grant = ps\<rparr>"
    and "decideGrantRequest m kind (Some ps) = \<lparr>allowed = True, to_grant = ps\<rparr>"
proof -
  have g: "\<forall>p\<in>set ps. declared_well kind p"
    using assms by (auto simp: all_good_def declared_list_def list_all_iff)
  then have c: "\<forall>p\<in>set ps. covers p p" by (simp add: declared_well_def)
  then show "decideGrantRequest m kind None = \<lparr>allowed = True, to_grant = ps\<rparr>"
    by (rule decideGrantRequest_declared [OF assms(2)])
  have "\<not> widensAuthority [(kind, Some ps)] [(kind, Some ps)]" using c by (auto simp: widens_single)
  moreover have "\<not> (case map_of CONNECT_SHAPED_CAPABILITIES kind of None \<Rightarrow> False
      | Some shape \<Rightarrow> list_ex (\<lambda>p. \<not> isDeclarableConnectPattern (VString p) shape) ps)"
    using g by (auto simp: declared_well_def list_ex_iff split: option.split)
  ultimately show "decideGrantRequest m kind (Some ps) = \<lparr>allowed = True, to_grant = ps\<rparr>"
    by (simp add: decideGrantRequest_def assms(2) Let_def split: option.splits)
qed

subsection \<open>Each kind of pattern\<close>

lemma covers_same_shape: "ORIGIN_SHAPED p \<or> HID_SHAPED p \<Longrightarrow> covers p p"
  unfolding covers_def by auto

lemma connect_pattern_good:
  "map_of CONNECT_SHAPED_CAPABILITIES kind = Some shape \<Longrightarrow> validateConnectPattern shape p \<Longrightarrow> declared_well kind p"
  using covers_refl [of shape p]
  by (auto simp: declared_well_def validateConnectPattern_declarable declarable_def CONNECT_SHAPED_CAPABILITIES_def
      bind_kinds_def split: if_splits)

lemma ports_cover_themselves: "parseForCoverage p = Some (Ports R) \<Longrightarrow> covers p p"
  by (auto simp: covers_def)

lemma range_pattern_trim: "validatePortRangePattern p \<Longrightarrow> trim p = p"
proof -
  assume v: "validatePortRangePattern p"
  then obtain lo hi where r: "parsePortRange p = Some (lo, hi)" and p: "p \<noteq> js ''*''"
    by (auto simp: validatePortRangePattern_def split: if_splits option.splits)
  then have sp: "parsePortSpec p = Some (PortSpan (int lo) (int hi))"
    using parsePortRange_spec by simp
  have "\<forall>c\<in>set p. \<not> js_space c"
    using port_spec_chars [OF sp] by (fastforce simp: js_space_def is_digit_def)
  then show ?thesis by (rule trim_id)
qed

lemma range_pattern_covers: "validatePortRangePattern p \<Longrightarrow> covers p p"
proof -
  assume v: "validatePortRangePattern p"
  then obtain lo hi where r: "parsePortRange p = Some (lo, hi)" and p: "p \<noteq> js ''*''"
    by (auto simp: validatePortRangePattern_def split: if_splits option.splits)
  then have sp: "parsePortSpec p = Some (PortSpan (int lo) (int hi))"
    using parsePortRange_spec by simp
  then show ?thesis
    using range_pattern_trim [OF v] parseForCoverage_span [of p] ports_cover_themselves by simp
qed

lemma any_site_covers: "covers ANY_SITE ANY_SITE"
  by (rule ports_cover_themselves [where R = "\<lparr>range_lo = 0, range_hi = 65535\<rparr>"]) code_simp

text \<open>What the URL standard says of the origin of a web address: it is printed scheme first.\<close>

definition origins_begin_with_scheme :: "full_parser \<Rightarrow> bool" where
  "origins_begin_with_scheme parse \<longleftrightarrow>
     (\<forall>text u. parse text = Some u \<and> protocol u \<in> {js ''http:'', js ''https:''} \<longrightarrow>
        starts_with (protocol u @ js ''//'') (url_origin u))"

lemma context_pattern_covers:
  assumes "origins_begin_with_scheme parse" and "validateWebContextOrigin parse p"
  shows "covers p p"
proof -
  obtain u where "parse p = Some u" "protocol u = js ''https:''" "url_origin u = p"
    using assms(2) by (auto simp: validateWebContextOrigin_def webContextOriginRejection_def split: option.splits if_splits)
  then have "starts_with (js ''https:'' @ js ''//'') p"
    using assms(1) unfolding origins_begin_with_scheme_def by (metis insertCI)
  then have "ORIGIN_SHAPED p" by (simp add: ORIGIN_SHAPED_def)
  then show ?thesis by (simp add: covers_same_shape)
qed

lemma starts_with_longer: "starts_with (a @ b) s \<Longrightarrow> starts_with a s"
  by (metis append.assoc append_eq_conv_conj starts_with_def append_take_drop_id)

lemma embed_pattern_covers:
  assumes "origins_begin_with_scheme parse" and "validateEmbedOrigin parse p"
  shows "covers p p"
proof -
  consider "p = ANY_SITE" | "parseLocalPattern p \<noteq> None" |
    u where "parse p = Some u" "protocol u = js ''https:'' \<or> protocol u = js ''http:''" "url_origin u = p"
    using assms(2) by (auto simp: validateEmbedOrigin_def embedOriginRejection_def split: option.splits if_splits)
  then show ?thesis
  proof cases
    case 1
    then show ?thesis using any_site_covers by simp
  next
    case 2
    then have "starts_with (js ''http://*.'') p"
      by (auto simp: parseLocalPattern_def local_parts_def split: option.splits if_splits)
    then have "starts_with (js ''http://'') p" using starts_with_longer [of "js ''http://''" "js ''*.''" p] by simp
    then have "ORIGIN_SHAPED p" by (simp add: ORIGIN_SHAPED_def)
    then show ?thesis by (simp add: covers_same_shape)
  next
    case 3
    then have "starts_with (js ''https:'' @ js ''//'') p \<or> starts_with (js ''http:'' @ js ''//'') p"
      using assms(1) unfolding origins_begin_with_scheme_def by (metis insertCI)
    then have "ORIGIN_SHAPED p" by (auto simp: ORIGIN_SHAPED_def)
    then show ?thesis by (simp add: covers_same_shape)
  qed
qed

lemma hex_length: "v < 65536 \<Longrightarrow> length (hex v) = 4 \<and> list_all is_lower_hex (hex v)"
  using hex_form(1,2) by simp

lemma hid_pattern_shape:
  assumes "vendorId f < 65536"
  shows "HID_SHAPED (hidFilterToPattern f)"
proof -
  have "\<exists>rest. hidFilterToPattern f = js ''vendor='' @ hex (vendorId f) @ rest \<and> (rest = [] \<or> (\<exists>r. rest = 44 # r))"
    by (auto simp: hidFilterToPattern_parts hid_parts_def split: option.split)
  then show ?thesis using hex_length [OF assms] by (auto simp: HID_SHAPED_def starts_with_def nth_append)
qed

subsection \<open>Each reader\<close>

lemma pred_option_bind: "pred_option Q x \<Longrightarrow> (\<And>y. Q y \<Longrightarrow> pred_option P (f y)) \<Longrightarrow> pred_option P (Option.bind x f)"
  by (cases x) auto

lemma optional_pred: "optional v k read = Some x \<Longrightarrow> (\<And>raw y. read raw = Some y \<Longrightarrow> Q y) \<Longrightarrow> pred_option Q x"
  by (auto dest!: optional_cases)

definition listed :: "(str \<Rightarrow> bool) \<Rightarrow> str list \<Rightarrow> bool" where
  "listed P ps \<longleftrightarrow> list_all P ps \<and> length ps \<le> MAX_DECLARED_PATTERNS"

lemma strings_pred: "optionalStringArray v k MAX_DECLARED_PATTERNS P = Some x \<Longrightarrow> pred_option (listed P) x"
  by (cases x) (auto simp: listed_def dest: strings_ok)

definition scopes_ok :: "bind_scopes \<Rightarrow> bool" where
  "scopes_ok b \<longleftrightarrow> pred_option (listed validatePortRangePattern) (local_patterns b) \<and>
     pred_option (listed validatePortRangePattern) (network_patterns b)"

definition tcp_ok :: "tcp_capability \<Rightarrow> bool" where
  "tcp_ok t \<longleftrightarrow> pred_option (listed (validateConnectPattern TcpConnect)) (tcp_connect t) \<and> pred_option scopes_ok (tcp_listen t)"

definition udp_ok :: "udp_capability \<Rightarrow> bool" where
  "udp_ok u \<longleftrightarrow> pred_option scopes_ok (udp_bind u) \<and> pred_option (listed (validateConnectPattern UdpSend)) (udp_send u)"

definition https_ok :: "https_capability \<Rightarrow> bool" where
  "https_ok h \<longleftrightarrow> pred_option (listed (validateConnectPattern HttpsConnect)) (https_connect h)"

definition net_ok :: "net_capability \<Rightarrow> bool" where
  "net_ok n \<longleftrightarrow> pred_option tcp_ok (tcp n) \<and> pred_option udp_ok (udp n) \<and> pred_option https_ok (https n)"

definition web_ok :: "full_parser \<Rightarrow> web_capability \<Rightarrow> bool" where
  "web_ok parse w \<longleftrightarrow> pred_option (listed (validateWebContextOrigin parse)) (contexts w) \<and>
     pred_option (listed (validateEmbedOrigin parse)) (embed_origins w)"

lemma readBindScopes_ok: "readBindScopes raw = Some b \<Longrightarrow> scopes_ok b"
  by (auto simp: readBindScopes_def scopes_ok_def dest!: strings_pred split: bind_splits)

lemma readTcp_ok: "readTcp raw = Some t \<Longrightarrow> tcp_ok t"
  by (auto simp: readTcp_def tcp_ok_def readBindScopes_ok elim!: optional_pred dest!: strings_pred split: bind_splits)

lemma readUdp_ok: "readUdp raw = Some u \<Longrightarrow> udp_ok u"
  by (auto simp: readUdp_def udp_ok_def readBindScopes_ok elim!: optional_pred dest!: strings_pred split: bind_splits)

lemma readHttps_ok: "readHttps raw = Some h \<Longrightarrow> https_ok h"
  by (auto simp: readHttps_def https_ok_def dest!: strings_pred split: bind_splits)

lemma readNet_ok: "readNet raw = Some n \<Longrightarrow> net_ok n"
  by (auto simp: readNet_def net_ok_def readTcp_ok readUdp_ok readHttps_ok elim!: optional_pred split: bind_splits)

lemma readEmbed_ok: "readEmbed parse raw = Some os \<Longrightarrow> listed (validateEmbedOrigin parse) os"
  by (auto simp: readEmbed_def dest!: strings_pred split: bind_splits)

lemma readWeb_ok: "readWeb parse raw = Some w \<Longrightarrow> web_ok parse w"
  by (auto simp: readWeb_def web_ok_def readEmbed_ok elim!: optional_pred dest!: strings_pred split: bind_splits)

lemma hid_id_bound: "hid_id value = Some n \<Longrightarrow> n < 65536"
  unfolding hid_id_def MAX_ID_def by (auto split: if_splits) linarith

lemma readId_bound: "readId raw k = Some x \<Longrightarrow> pred_option (\<lambda>n. n < 65536) x"
  unfolding readId_def by (erule optional_pred) (rule hid_id_bound)

lemma readFilter_valid: "readFilter raw = Some f \<Longrightarrow> valid_hid f"
  by (auto simp: readFilter_def valid_hid_def dest!: readId_bound split: bind_splits)

lemma read_filters_valid: "read_filters seen es = Some flts \<Longrightarrow> list_all valid_hid flts \<and> distinct (map hidFilterToPattern flts) \<and>
    set (map hidFilterToPattern flts) \<inter> set seen = {} \<and> length flts = length es"
  by (induction es arbitrary: seen flts) (fastforce simp: readFilter_valid split: bind_splits)+

definition devices_ok :: "hid_filter list \<Rightarrow> bool" where
  "devices_ok flts \<longleftrightarrow> list_all valid_hid flts \<and> length flts \<le> LIMIT_hidFilters \<and> distinct (map hidFilterToPattern flts)"

lemma readDevices_ok: "readDevices raw = Some flts \<Longrightarrow> devices_ok flts"
  by (auto simp: readDevices_def devices_ok_def string_array_def Let_def dest!: read_filters_valid
      split: bind_splits if_splits)

text \<open>All that \<open>patternSetFromCapabilities\<close> reads.\<close>

lemma readCapabilities_ok:
  assumes "readCapabilities parse raw = Some c"
  shows "pred_option net_ok (net c)" and "pred_option (web_ok parse) (web c)" and "pred_option devices_ok (hid c)"
  using assms by (auto simp: readCapabilities_def readNet_ok readWeb_ok readDevices_ok elim!: optional_pred split: bind_splits)

lemma declared_listed: "pred_option (listed P) v \<Longrightarrow> (\<And>p. P p \<Longrightarrow> declared_well k p) \<Longrightarrow> pred_option (declared_list k) v"
  by (cases v) (auto simp: declared_list_def listed_def list_all_iff MAX_PATTERNS_def MAX_DECLARED_PATTERNS_def)

lemma plain_kind_well: "map_of CONNECT_SHAPED_CAPABILITIES kind = None \<Longrightarrow> kind \<notin> bind_kinds \<Longrightarrow> covers p p \<Longrightarrow> declared_well kind p"
  by (simp add: declared_well_def)

lemma range_pattern_binds: "validatePortRangePattern p \<Longrightarrow> pattern_ranges (VString p) \<noteq> []"
proof -
  assume v: "validatePortRangePattern p"
  then obtain lo hi where r: "parsePortSpec p = Some (PortSpan lo hi)" "MIN_UNPRIVILEGED_PORT \<le> lo"
    using parsePortRange_spec by (fastforce simp: validatePortRangePattern_def split: if_splits option.splits)
  have "\<lparr>range_lo = lo, range_hi = hi\<rparr> \<in> set (pattern_ranges (VString p))"
    using r range_pattern_trim [OF v] by (simp add: pattern_ranges_span)
  then show ?thesis by auto
qed

lemma bind_kind_well: "validatePortRangePattern p \<Longrightarrow> kind \<in> bind_kinds \<Longrightarrow> declared_well kind p"
  using range_pattern_covers range_pattern_binds
  by (auto simp: declared_well_def bind_kinds_def CONNECT_SHAPED_CAPABILITIES_def)

lemma devices_declared: "devices_ok flts \<Longrightarrow> declared_list (js ''devices.hid'') (map hidFilterToPattern flts)"
  by (auto simp: declared_list_def devices_ok_def list_all_iff CONNECT_SHAPED_CAPABILITIES_def bind_kinds_def valid_hid_def
      MAX_PATTERNS_def LIMIT_hidFilters_def intro!: plain_kind_well covers_same_shape hid_pattern_shape)

lemma read_capabilities_good:
  assumes "readCapabilities parse raw = Some c" and "origins_begin_with_scheme parse"
  shows "all_good (patternSetFromCapabilities (capabilities.truncate c))"
proof -
  note ok = readCapabilities_ok [OF assms(1)]
  have tcp: "pred_option tcp_ok (Option.bind (net c) tcp)"
    using ok(1) by (rule pred_option_bind) (simp add: net_ok_def)
  have udp: "pred_option udp_ok (Option.bind (net c) udp)"
    using ok(1) by (rule pred_option_bind) (simp add: net_ok_def)
  have https: "pred_option https_ok (Option.bind (net c) https)"
    using ok(1) by (rule pred_option_bind) (simp add: net_ok_def)
  have listen: "pred_option scopes_ok (Option.bind (Option.bind (net c) tcp) tcp_listen)"
    using tcp by (rule pred_option_bind) (simp add: tcp_ok_def)
  have bind: "pred_option scopes_ok (Option.bind (Option.bind (net c) udp) udp_bind)"
    using udp by (rule pred_option_bind) (simp add: udp_ok_def)
  have scope: "pred_option (declared_list kind) (Option.bind x local_patterns)"
    "pred_option (declared_list kind) (Option.bind x network_patterns)"
    if "pred_option scopes_ok x" "kind \<in> bind_kinds" for x kind
    using bind_kind_well [OF _ that(2)]
    by (auto intro!: pred_option_bind [OF that(1)] simp: scopes_ok_def elim!: declared_listed)
  have 1: "pred_option (declared_list (js ''tcp.connect'')) (Option.bind (Option.bind (net c) tcp) tcp_connect)"
    using tcp by (rule pred_option_bind)
      (auto simp: tcp_ok_def CONNECT_SHAPED_CAPABILITIES_def bind_kinds_def elim!: declared_listed intro: connect_pattern_good)
  have 2: "pred_option (declared_list (js ''udp.send'')) (Option.bind (Option.bind (net c) udp) udp_send)"
    using udp by (rule pred_option_bind)
      (auto simp: udp_ok_def CONNECT_SHAPED_CAPABILITIES_def bind_kinds_def elim!: declared_listed intro: connect_pattern_good)
  have 3: "pred_option (declared_list (js ''https.connect'')) (Option.bind (Option.bind (net c) https) https_connect)"
    using https by (rule pred_option_bind)
      (auto simp: https_ok_def CONNECT_SHAPED_CAPABILITIES_def bind_kinds_def elim!: declared_listed intro: connect_pattern_good)
  have 4: "pred_option (declared_list (js ''web.context'')) (Option.bind (web c) contexts)"
    using ok(2) by (rule pred_option_bind)
      (auto simp: web_ok_def CONNECT_SHAPED_CAPABILITIES_def bind_kinds_def elim!: declared_listed
        intro: plain_kind_well context_pattern_covers [OF assms(2)])
  have 5: "pred_option (declared_list (js ''web.embed'')) (Option.bind (web c) embed_origins)"
    using ok(2) by (rule pred_option_bind)
      (auto simp: web_ok_def CONNECT_SHAPED_CAPABILITIES_def bind_kinds_def elim!: declared_listed
        intro: plain_kind_well embed_pattern_covers [OF assms(2)])
  have 6: "pred_option (declared_list (js ''devices.hid'')) (map_option (map hidFilterToPattern) (hid c))"
    using ok(3) by (cases "hid c") (use devices_declared in auto)
  have t: "net (capabilities.truncate c) = net c" "web (capabilities.truncate c) = web c" "hid (capabilities.truncate c) = hid c"
    by (simp_all add: capabilities.defs)
  show ?thesis
    unfolding patternSetFromCapabilities_def Let_def t
    by (intro all_good_put all_good_Nil present_good 1 2 3 4 5 6 scope listen bind)
      (simp_all add: CONNECT_SHAPED_CAPABILITIES_def bind_kinds_def)
qed

lemma parseManifest_read: "parseManifest env input = Some r \<Longrightarrow> \<exists>v. readManifest env v = Some r"
  by (auto simp: parseManifest_def split: js_value.splits bind_splits)

lemma readManifest_capabilities:
  "readManifest env v = Some (m, ign) \<Longrightarrow>
     \<exists>raw c. readCapabilities (full_parse env) raw = Some c \<and> app_capabilities m = capabilities.truncate c"
  unfolding readManifest_def by (auto split: bind_splits) blast

lemma parsed_capabilities_good:
  assumes "parseManifest env input = Some (m, ign)" and "origins_begin_with_scheme (full_parse env)"
  shows "all_good (patternSetFromCapabilities (app_capabilities m))"
proof -
  obtain v where "readManifest env v = Some (m, ign)" using parseManifest_read [OF assms(1)] by blast
  from readManifest_capabilities [OF this] obtain raw c
    where "readCapabilities (full_parse env) raw = Some c" "app_capabilities m = capabilities.truncate c" by blast
  with read_capabilities_good [OF _ assms(2)] show ?thesis by simp
qed

text \<open>C9. Whatever a parsed manifest declares can be granted: a request for all of a declared kind, named or left
  open, is allowed and grants it. The reader and the policy layer have one grammar: a declared connect pattern is
  declarable to the check at the dial, a declared port pattern is a range a bind uses, and no list is longer than
  what a check accepts. The parser prints the origin of a web address scheme first.\<close>

theorem declared_can_be_granted:
  assumes "parseManifest env input = Some (m, ign)" and "origins_begin_with_scheme (full_parse env)"
    and "patternsFor (patternSetFromCapabilities (app_capabilities m)) kind = Some ps"
  shows "decideGrantRequest (manifest.truncate m) kind None = \<lparr>allowed = True, to_grant = ps\<rparr> \<and>
    decideGrantRequest (manifest.truncate m) kind (Some ps) = \<lparr>allowed = True, to_grant = ps\<rparr> \<and>
    length ps \<le> MAX_PATTERNS \<and>
    (\<forall>p\<in>set ps. \<forall>shape. map_of CONNECT_SHAPED_CAPABILITIES kind = Some shape \<longrightarrow> isDeclarableConnectPattern (VString p) shape) \<and>
    (kind \<in> {js ''tcp.listen.local'', js ''tcp.listen.network'', js ''udp.bind.local'', js ''udp.bind.network''} \<longrightarrow>
       (\<forall>p\<in>set ps. pattern_ranges (VString p) \<noteq> []))"
proof -
  note good = parsed_capabilities_good [OF assms(1,2)]
  have t: "app_capabilities (manifest.truncate m) = app_capabilities m" by (simp add: manifest.defs)
  have "declared_list kind ps" using good assms(3) by (simp add: all_good_def)
  then have "length ps \<le> MAX_PATTERNS" and "\<forall>p\<in>set ps. declared_well kind p"
    by (simp_all add: declared_list_def list_all_iff)
  then show ?thesis
    using all_good_decided [of "manifest.truncate m" kind ps] good assms(3)
    by (auto simp: t declared_well_def bind_kinds_def)
qed

section \<open>The files of a manifest\<close>

lemma optional_read: "optional v k read = Some x \<Longrightarrow> x \<noteq> None \<Longrightarrow> \<exists>raw. read raw = Some (the x)"
  by (auto dest!: optional_cases)





subsection \<open>Decoding one segment at a time\<close>







subsection \<open>The files and their bundle\<close>










definition manifest_files :: "app_manifest \<Rightarrow> str list" where
  "manifest_files m = app_entry m # (case app_assets m of None \<Rightarrow> [] | Some as \<Rightarrow> as)"






section \<open>Unknown fields\<close>

definition known_fields :: "(str \<times> js_value) list \<Rightarrow> (str \<times> js_value) list" where
  "known_fields ps = filter (\<lambda>(k, _). k \<in> set MANIFEST_KEYS) ps"

lemma get_known: "k \<in> set MANIFEST_KEYS \<Longrightarrow> get (Object (known_fields ps)) k = get (Object ps) k"
  by (induction ps) (auto simp: known_fields_def)

lemma required_known: "k \<in> set MANIFEST_KEYS \<Longrightarrow> requireString (Object (known_fields ps)) k a b = requireString (Object ps) k a b"
  unfolding requireString_def by (simp only: get_known)

lemma optional_known: "k \<in> set MANIFEST_KEYS \<Longrightarrow> optional (Object (known_fields ps)) k read = optional (Object ps) k read"
  unfolding optional_def by (simp only: get_known)

lemma readManifest_ignored: "readManifest env v = Some (m, ign) \<Longrightarrow> ign = unknownKeys v MANIFEST_KEYS"
  unfolding readManifest_def by (auto split: bind_splits)

text \<open>A field no version knows changes nothing at the top, where it is reported in its order, and rejects the manifest
  inside \<open>capabilities\<close>.\<close>

theorem unknown_field_is_left_out_or_rejected:
  "readManifest env (Object ps) =
     map_option (\<lambda>(m, _). (m, filter (\<lambda>k. k \<notin> set MANIFEST_KEYS) (map fst ps))) (readManifest env (Object (known_fields ps)))"
  "\<exists>k\<in>fst ` set cs. k \<notin> set CAPABILITIES_KEYS \<Longrightarrow> readCapabilities parse (Object cs) = None"
proof -
  have mem: "js ''orivonApiVersion'' \<in> set MANIFEST_KEYS" "js ''id'' \<in> set MANIFEST_KEYS" "js ''name'' \<in> set MANIFEST_KEYS"
    "js ''version'' \<in> set MANIFEST_KEYS" "js ''entry'' \<in> set MANIFEST_KEYS" "js ''assets'' \<in> set MANIFEST_KEYS"
    "js ''capabilities'' \<in> set MANIFEST_KEYS" "js ''consentGranularity'' \<in> set MANIFEST_KEYS"
    "js ''crossOriginIsolated'' \<in> set MANIFEST_KEYS" "js ''domain'' \<in> set MANIFEST_KEYS" "js ''support'' \<in> set MANIFEST_KEYS"
    by (simp_all add: MANIFEST_KEYS_def)
  have "map_option fst (readManifest env (Object (known_fields ps))) = map_option fst (readManifest env (Object ps))"
    unfolding readManifest_def readAssets_def readConsentGranularity_def readCrossOriginIsolated_def media_flag_def
      readDomain_def readSupport_def required_known [OF mem(2)] required_known [OF mem(3)] required_known [OF mem(4)]
      required_known [OF mem(5)] optional_known [OF mem(6)] optional_known [OF mem(8)] optional_known [OF mem(10)]
      optional_known [OF mem(11)] mem [THEN get_known, of ps]
    by (simp only: isRecord_def is_object.simps isArray.simps map_option_bind comp_def option.map prod.sel)
  then show "readManifest env (Object ps) =
     map_option (\<lambda>(m, _). (m, filter (\<lambda>k. k \<notin> set MANIFEST_KEYS) (map fst ps))) (readManifest env (Object (known_fields ps)))"
    using readManifest_ignored [of env "Object ps"]
    by (cases "readManifest env (Object ps)"; cases "readManifest env (Object (known_fields ps))") (auto simp: unknownKeys_def)
next
  assume "\<exists>k\<in>fst ` set cs. k \<notin> set CAPABILITIES_KEYS"
  then have "\<not> shaped (Object cs) CAPABILITIES_KEYS"
    by (auto simp: shaped_def extraKey_def unknownKeys_def filter_empty_conv image_iff split: list.splits)
  then show "readCapabilities parse (Object cs) = None" by (simp add: readCapabilities_def require_def)
qed

section \<open>Inputs the theorems hold at\<close>

definition sample_full_parse :: full_parser where
  "sample_full_parse = (\<lambda>u. if u = js ''https://a.example''
     then Some \<lparr>protocol = js ''https:'', hostname = js ''a.example'', port = [], pathname = js ''/'', username = [],
                password = [], search = [], url_hash = [], url_origin = u\<rparr> else None)"

text \<open>The path of a URL ends where its query begins.\<close>

definition manifest_sample_env :: manifest_env where
  "manifest_sample_env = \<lparr>full_parse = sample_full_parse, canon = sample_canon,
     segment_pathname = (\<lambda>s. 47 # takeWhile (\<lambda>c. c \<noteq> 63) s), json_parse = (\<lambda>_. None)\<rparr>"

definition sample_input :: "str \<Rightarrow> str list \<Rightarrow> js_value" where
  "sample_input ent names = Object
     [(js ''orivonApiVersion'', Number (Finite 0)), (js ''id'', Str (js ''app'')), (js ''name'', Str (js ''App'')),
      (js ''version'', Str (js ''1.2.3'')), (js ''entry'', Str ent), (js ''assets'', Array (map Str names)),
      (js ''capabilities'', Object
        [(js ''net'', Object [(js ''tcp'', Object
           [(js ''connect'', Array [Str (js ''mail.example:25'')]),
            (js ''listen'', Object [(js ''local'', Array [Str (js ''8080-8090'')])])])]),
         (js ''web'', Object [(js ''contexts'', Array [Str (js ''https://a.example'')])])]),
      (js ''later'', Null)]"

definition read_sample_app :: app_manifest where
  "read_sample_app = fst (the (parseManifest manifest_sample_env (sample_input (js ''index.html'') [js ''a.js'', js ''css/b.css''])))"

lemma sample_parsed:
  "parseManifest manifest_sample_env (sample_input (js ''index.html'') [js ''a.js'', js ''css/b.css'']) = Some (read_sample_app, [js ''later''])"
  by code_simp

lemma declared_can_be_granted_witness:
  "decideGrantRequest (manifest.truncate read_sample_app) (js ''tcp.listen.local'') None =
     \<lparr>allowed = True, to_grant = [js ''8080-8090'']\<rparr> \<and>
   pattern_ranges (VString (js ''8080-8090'')) \<noteq> []"
proof -
  have "origins_begin_with_scheme (full_parse manifest_sample_env)"
    by (auto simp: origins_begin_with_scheme_def manifest_sample_env_def sample_full_parse_def starts_with_def split: if_splits)
  moreover have "patternsFor (patternSetFromCapabilities (app_capabilities read_sample_app)) (js ''tcp.listen.local'') = Some [js ''8080-8090'']"
    by code_simp
  ultimately show ?thesis using declared_can_be_granted [OF sample_parsed, of "js ''tcp.listen.local''" "[js ''8080-8090'']"] by simp
qed




text \<open>Two things the checks on files let through. The entry is not held against the reserved paths, so it can be the
  published hash tree, which then is a leaf of the bundle. The query of a name is part of its key but not of its path,
  so two assets can be one file.\<close>

lemma entry_may_be_reserved:
  "map_option (\<lambda>(m, _). (app_entry m, collisionKey (canon manifest_sample_env) (app_entry m) \<in> set (RESERVED_KEYS manifest_sample_env)))
     (parseManifest manifest_sample_env (sample_input (drop 1 DDOC_PATH) [js ''a.js''])) = Some (drop 1 DDOC_PATH, True)"
  by code_simp

lemma two_assets_of_one_path:
  "map_option (\<lambda>(m, _). map (canonical_of manifest_sample_env) (manifest_files m))
     (parseManifest manifest_sample_env (sample_input (js ''index.html'') [js ''a.js'', js ''a.js?v=2''])) =
   Some [js ''/index.html'', js ''/a.js'', js ''/a.js'']"
  by code_simp

end
