(* ===== verification/Broker.thy ===== *)
theory Broker imports HandleTable Ledger Bind begin

section \<open>The broker: the ledger and the handle table in one\<close>

text \<open>
  \<open>index.ts\<close>, \<open>forget-origin.ts\<close>, \<open>socket-usage.ts\<close> and \<open>io-errors.ts\<close>. The broker holds a grant
  ledger, a handle table and the pinned manifests, and keeps the first two in step: each entry
  point changes the ledger, then has the table close or re-file what the change withdraws, and only
  then reports a failed write. A call returns the new state, the effects in order and an error or a
  value. A revocation that the code awaits in a loop (one per grant that a registration supersedes)
  is a list of grant ids still to revoke, returned by the call and worked off by
  \<open>broker_cascade\<close>, because other calls may run in between.
\<close>

subsection \<open>io-errors.ts\<close>

text \<open>What a dependency may throw: an error of the broker's own, or anything else, of which only
  \<open>errnoOf\<close> is read. A code that names a property of \<open>Object.prototype\<close> is not modelled.\<close>

datatype raw_error = Known broker_error | Foreign "str option"

datatype io_kind = NetIo | FsIo

definition ERRNO_TO_CODE :: "(str \<times> error_code) list" where
  "ERRNO_TO_CODE =
     [(js ''ENOENT'', E_notFound), (js ''EEXIST'', E_exists), (js ''ECONNREFUSED'', E_unreachable),
      (js ''EHOSTUNREACH'', E_unreachable), (js ''ENETUNREACH'', E_unreachable),
      (js ''ENOTFOUND'', E_unreachable), (js ''EAI_AGAIN'', E_unreachable), (js ''ETIMEDOUT'', E_timeout),
      (js ''ECONNRESET'', E_reset), (js ''EPIPE'', E_reset), (js ''EMFILE'', E_limit),
      (js ''ENFILE'', E_limit), (js ''ENOSPC'', E_limit), (js ''EDQUOT'', E_limit),
      (js ''EACCES'', E_denied), (js ''EPERM'', E_denied)]"

definition mapIoError :: "raw_error \<Rightarrow> io_kind \<Rightarrow> broker_error" where
  "mapIoError thrown kind =
     (case thrown of
        Known e \<Rightarrow> e
      | Foreign errno \<Rightarrow>
          fail_with (case Option.bind errno (map_of ERRNO_TO_CODE) of None \<Rightarrow> E_internal | Some c \<Rightarrow> c)
            (case kind of NetIo \<Rightarrow> js ''the network operation failed''
                        | FsIo \<Rightarrow> js ''the filesystem operation failed'') None errno)"

definition mapTlsError :: "raw_error \<Rightarrow> broker_error" where
  "mapTlsError thrown =
     (case thrown of
        Known e \<Rightarrow> e
      | Foreign errno \<Rightarrow>
          let beforeHandshake = (case errno of None \<Rightarrow> False | Some c \<Rightarrow> c \<in> set (map fst ERRNO_TO_CODE)) in
          fail_with E_unreachable
            (if beforeHandshake then js ''the network operation failed'' else js ''the secure connection failed'')
            None errno)"

subsection \<open>index.ts: the state\<close>

record broker =
  b_ledger :: ledger
  b_handles :: handle_table
  pinnedManifests :: "(str \<times> manifest) list"

text \<open>\<open>write_errno\<close>: what \<open>errnoOf\<close> reads off the error of a write that failed.\<close>

record broker_env =
  b_env :: env
  b_draw :: "nat \<Rightarrow> str"
  b_callbacks :: callbacks
  write_errno :: "str option"

definition t_env :: "broker_env \<Rightarrow> table_env" where
  "t_env BE = \<lparr>t_parse = url_parse (b_env BE), t_draw = b_draw BE, t_callbacks = b_callbacks BE\<rparr>"

datatype broker_effect = OnHandles handle_effect | ForgetScript str | GrantsChanged str

type_synonym 'a broker_call = "broker \<times> broker_effect list \<times> (broker_error + 'a)"

definition canonical :: "broker_env \<Rightarrow> str \<Rightarrow> broker_error + str" where
  "canonical BE origin =
     (case isolationKeyFromUrl (url_parse (b_env BE)) origin of
        None \<Rightarrow> Inl (fail_with E_internal (js ''broker method called with a string that is not an origin'') None None)
      | Some key \<Rightarrow> Inr key)"

definition write_failed :: "broker_env \<Rightarrow> str \<Rightarrow> broker_error" where
  "write_failed BE message = fail_with E_internal message None (write_errno BE)"

subsection \<open>What the broker answers from memory\<close>

definition registeredManifest :: "broker \<Rightarrow> str \<Rightarrow> manifest option" where
  "registeredManifest B key =
     (case manifestFor (b_ledger B) key of Some m \<Rightarrow> Some m | None \<Rightarrow> map_of (pinnedManifests B) key)"

definition broker_manifest :: "broker_env \<Rightarrow> broker \<Rightarrow> str \<Rightarrow> broker_error + manifest" where
  "broker_manifest BE B origin =
     (case canonical BE origin of
        Inl e \<Rightarrow> Inl e
      | Inr key \<Rightarrow>
          (case registeredManifest B key of
             None \<Rightarrow> Inl (fail_with E_internal (js ''no manifest registered for this origin'') None None)
           | Some m \<Rightarrow> Inr m))"

definition broker_grants :: "broker_env \<Rightarrow> broker \<Rightarrow> str \<Rightarrow> broker_error + grant list" where
  "broker_grants BE B origin =
     (case canonical BE origin of Inl e \<Rightarrow> Inl e | Inr key \<Rightarrow> Inr (grantsFor (b_ledger B) key))"

definition registeredOriginsSync :: "broker \<Rightarrow> str list" where
  "registeredOriginsSync B =
     fold add_to (registeredOrigins (b_ledger B) @ map fst (pinnedManifests B)) []"

definition isRegisteredSync :: "broker_env \<Rightarrow> broker \<Rightarrow> str \<Rightarrow> bool" where
  "isRegisteredSync BE B origin =
     (case isolationKeyFromUrl (url_parse (b_env BE)) origin of
        None \<Rightarrow> False | Some key \<Rightarrow> registeredManifest B key \<noteq> None)"

definition hasGrantsSync :: "broker_env \<Rightarrow> broker \<Rightarrow> str \<Rightarrow> bool" where
  "hasGrantsSync BE B origin =
     (case isolationKeyFromUrl (url_parse (b_env BE)) origin of
        None \<Rightarrow> False | Some key \<Rightarrow> length (grantsFor (b_ledger B) key) > 0)"

definition grantedPatternsSync :: "broker_env \<Rightarrow> broker \<Rightarrow> str \<Rightarrow> str \<Rightarrow> str list option" where
  "grantedPatternsSync BE B origin kind =
     (case isolationKeyFromUrl (url_parse (b_env BE)) origin of
        None \<Rightarrow> None | Some key \<Rightarrow> map_option patterns (currentGrant (b_ledger B) key kind))"

definition heldSync :: "broker_env \<Rightarrow> broker \<Rightarrow> str \<Rightarrow> str \<Rightarrow> bool" where
  "heldSync BE B origin kind \<longleftrightarrow> grantedPatternsSync BE B origin kind \<noteq> None"

subsection \<open>socket-usage.ts\<close>

definition socketAllowanceOf :: "broker_env \<Rightarrow> broker \<Rightarrow> str \<Rightarrow> int" where
  "socketAllowanceOf BE B origin =
     (let key = (case isolationKeyFromUrl (url_parse (b_env BE)) origin of None \<Rightarrow> origin | Some k \<Rightarrow> k);
          pinned = (if manifestFor (b_ledger B) key = None then map_of (pinnedManifests B) key else None) in
      case pinned of
        None \<Rightarrow> ledger_socketAllowance (b_ledger B) key
      | Some m \<Rightarrow> socketAllowance (Some (fresh_record\<lparr>rec_manifest := Some m\<rparr>)))"

definition open_sockets :: "broker_env \<Rightarrow> broker \<Rightarrow> str \<Rightarrow> nat" where
  "open_sockets BE B key =
     (case counts_of (t_env BE) key (b_handles B) of Inl _ \<Rightarrow> 0 | Inr c \<Rightarrow> n_sockets c)"

definition socketUsageOf :: "broker_env \<Rightarrow> broker \<Rightarrow> str \<Rightarrow> int \<Rightarrow> nat \<times> int \<times> int" where
  "socketUsageOf BE B origin allowance =
     (case (case isolationKeyFromUrl (url_parse (b_env BE)) origin of
              None \<Rightarrow> None
            | Some key \<Rightarrow> (case counts_of (t_env BE) key (b_handles B) of Inl _ \<Rightarrow> None | Inr c \<Rightarrow> Some c)) of
        None \<Rightarrow> (0, 0, allowance)
      | Some c \<Rightarrow> (n_sockets c, n_inFlight c, allowance))"

subsection \<open>Registering and restoring an app\<close>

text \<open>The superseded grants are revoked one after the other once this segment is over; the error, if
  any, is thrown after them.\<close>

definition broker_registerApp ::
  "broker_env \<Rightarrow> (disk_op \<Rightarrow> bool) \<Rightarrow> broker \<Rightarrow> str \<Rightarrow> manifest \<Rightarrow> broker \<times> (str \<times> str) list \<times> (broker_error + unit)" where
  "broker_registerApp BE fails B origin m =
     (case canonical BE origin of
        Inl e \<Rightarrow> (B, [], Inl e)
      | Inr key \<Rightarrow>
          (case hydrateGrantsOnFirstRegistration (b_env BE) (b_ledger B) key m of (L, out) \<Rightarrow>
           case registerApp (b_env BE) fails L key m of (L, res) \<Rightarrow>
             (B\<lparr>b_ledger := L\<rparr>, map (\<lambda>s. (key, sup_id s)) out,
              (case res of
                 Threw \<Rightarrow> Inl (write_failed BE (js ''the version floor could not be persisted''))
               | Returns _ \<Rightarrow> Inr ()))))"

definition broker_hydrateFromPinnedManifest ::
  "broker_env \<Rightarrow> broker \<Rightarrow> str \<Rightarrow> manifest \<Rightarrow> broker \<times> (str \<times> str) list \<times> (broker_error + unit)" where
  "broker_hydrateFromPinnedManifest BE B origin m =
     (case canonical BE origin of
        Inl e \<Rightarrow> (B, [], Inl e)
      | Inr key \<Rightarrow>
          (case hydrateFromPinnedManifest (b_env BE) (b_ledger B) key m of (L, out) \<Rightarrow>
             (B\<lparr>b_ledger := L, pinnedManifests := AList.update key m (pinnedManifests B)\<rparr>,
              map (\<lambda>s. (key, sup_id s)) out, Inr ())))"

definition broker_cascade :: "broker_env \<Rightarrow> broker \<Rightarrow> str \<Rightarrow> str \<Rightarrow> unit broker_call" where
  "broker_cascade BE B key gid =
     (case revoke (t_env BE) key gid (b_handles B) of
        (T, es, res) \<Rightarrow> (B\<lparr>b_handles := T\<rparr>, map OnHandles es, res))"

definition broker_acknowledgeRollback ::
  "broker_env \<Rightarrow> (disk_op \<Rightarrow> bool) \<Rightarrow> broker \<Rightarrow> str \<Rightarrow> str \<Rightarrow> unit broker_call" where
  "broker_acknowledgeRollback BE fails B origin v =
     (case canonical BE origin of
        Inl e \<Rightarrow> (B, [], Inl e)
      | Inr key \<Rightarrow>
          (case acknowledgeRollback (b_env BE) fails (b_ledger B) key v of (L, res) \<Rightarrow>
             (B\<lparr>b_ledger := L\<rparr>, [],
              (case res of
                 Threw \<Rightarrow> Inl (write_failed BE (js ''the rollback acknowledgement could not be persisted''))
               | Returns _ \<Rightarrow> Inr ()))))"

subsection \<open>Granting\<close>

text \<open>What \<open>widensAuthority\<close> is asked when one grant replaces another of the same kind.\<close>

definition covers_all :: "str \<Rightarrow> str list \<Rightarrow> str list \<Rightarrow> bool" where
  "covers_all kind ps replaced \<longleftrightarrow> \<not> widensAuthority [(kind, Some ps)] [(kind, Some replaced)]"

definition broker_grant ::
  "broker_env \<Rightarrow> (disk_op \<Rightarrow> bool) \<Rightarrow> broker \<Rightarrow> str \<Rightarrow> str \<Rightarrow> str list \<Rightarrow> int \<Rightarrow> grant broker_call" where
  "broker_grant BE fails B origin kind ps at_time =
     (case canonical BE origin of
        Inl e \<Rightarrow> (B, [], Inl e)
      | Inr key \<Rightarrow>
          (let replaced = currentGrant (b_ledger B) key kind in
           case grant_capability (b_env BE) fails (b_ledger B) key kind ps at_time of (L, res) \<Rightarrow>
             (let B = B\<lparr>b_ledger := L\<rparr> in
              case currentGrant L key kind of
                None \<Rightarrow> (B, [], Inl (fail_with E_internal (js ''the grant did not take effect'') None None))
              | Some g \<Rightarrow>
                  (case grantIssued (t_env BE) key (grant_id g) (b_handles B) of
                     (T, es, Inl e) \<Rightarrow> (B\<lparr>b_handles := T\<rparr>, map OnHandles es, Inl e)
                   | (T, es, Inr _) \<Rightarrow>
                       (case (case replaced of
                                None \<Rightarrow> (T, [], Inr ())
                              | Some r \<Rightarrow>
                                  replaceGrant (t_env BE) key (grant_id r) (grant_id g) (patterns g)
                                    (covers_all kind (patterns g) (patterns r)) T) of
                          (T, es', Inl e) \<Rightarrow> (B\<lparr>b_handles := T\<rparr>, map OnHandles (es @ es'), Inl e)
                        | (T, es', Inr _) \<Rightarrow>
                            (B\<lparr>b_handles := T\<rparr>, map OnHandles (es @ es') @ [GrantsChanged key],
                             (case res of
                                Threw \<Rightarrow> Inl (write_failed BE (js ''the grant could not be persisted''))
                              | Returns _ \<Rightarrow> Inr g)))))))"

subsection \<open>Revoking\<close>

definition broker_revoke ::
  "broker_env \<Rightarrow> (disk_op \<Rightarrow> bool) \<Rightarrow> broker \<Rightarrow> str \<Rightarrow> str \<Rightarrow> unit broker_call" where
  "broker_revoke BE fails B origin gid =
     (case canonical BE origin of
        Inl e \<Rightarrow> (B, [], Inl e)
      | Inr key \<Rightarrow>
          (let embedGrant = currentGrant (b_ledger B) key (js ''web.embed'') in
           case revoke_grant (b_env BE) fails (b_ledger B) key gid of (L, res) \<Rightarrow>
           case revoke (t_env BE) key gid (b_handles B) of
             (T, es, Inl e) \<Rightarrow> (B\<lparr>b_ledger := L, b_handles := T\<rparr>, map OnHandles es, Inl e)
           | (T, es, Inr _) \<Rightarrow>
               (B\<lparr>b_ledger := L, b_handles := T\<rparr>,
                map OnHandles es @ (if map_option grant_id embedGrant = Some gid then [ForgetScript key] else []) @
                  [GrantsChanged key],
                (case res of
                   Threw \<Rightarrow> Inl (write_failed BE (js ''the revocation could not be persisted''))
                 | Returns _ \<Rightarrow> Inr ()))))"

definition broker_revokePersisted ::
  "broker_env \<Rightarrow> (disk_op \<Rightarrow> bool) \<Rightarrow> broker \<Rightarrow> str \<Rightarrow> str \<Rightarrow> bool broker_call" where
  "broker_revokePersisted BE fails B origin kind =
     (case canonical BE origin of
        Inl e \<Rightarrow> (B, [], Inl e)
      | Inr key \<Rightarrow>
          (let live = currentGrant (b_ledger B) key kind in
           case revokePersisted (b_env BE) fails (b_ledger B) key kind of (L, res) \<Rightarrow>
           case (case live of
                   None \<Rightarrow> (b_handles B, [], Inr ())
                 | Some g \<Rightarrow> revoke (t_env BE) key (grant_id g) (b_handles B)) of
             (T, es, Inl e) \<Rightarrow> (B\<lparr>b_ledger := L, b_handles := T\<rparr>, map OnHandles es, Inl e)
           | (T, es, Inr _) \<Rightarrow>
               (B\<lparr>b_ledger := L, b_handles := T\<rparr>,
                map OnHandles es @
                  (if live \<noteq> None \<and> kind = js ''web.embed'' then [ForgetScript key] else []) @
                  (if res = Returns True then [GrantsChanged key] else []),
                (case res of
                   Threw \<Rightarrow> Inl (write_failed BE (js ''the revocation could not be persisted''))
                 | Returns removed \<Rightarrow> Inr removed))))"

subsection \<open>The end of a session, and forgetting an app\<close>

definition broker_drop_begin :: "broker_env \<Rightarrow> broker \<Rightarrow> str \<Rightarrow> (str \<times> nat) option broker_call" where
  "broker_drop_begin BE B origin =
     (case canonical BE origin of
        Inl e \<Rightarrow> (B, [], Inl e)
      | Inr key \<Rightarrow>
          (case drop_begin (t_env BE) key (b_handles B) of
             (T, es, res) \<Rightarrow> (B\<lparr>b_handles := T\<rparr>, map OnHandles es, res)))"

definition broker_drop_end :: "broker \<Rightarrow> (str \<times> nat) option \<Rightarrow> broker" where
  "broker_drop_end B dropped = B\<lparr>b_handles := drop_end dropped (b_handles B)\<rparr>"

text \<open>\<open>createForgetOrigin\<close>: the capabilities it then revokes with \<open>broker_revokePersisted\<close>, one at a
  time, stopping at the first that fails; and what is left to do once the session is dropped. The picked
  paths in between are not modelled; closing what they authorised is \<open>revokeUserSelected\<close>.\<close>

definition forget_begin :: "broker_env \<Rightarrow> broker \<Rightarrow> str \<Rightarrow> broker_error + (str \<times> str list)" where
  "forget_begin BE B origin =
     (case canonical BE origin of
        Inl e \<Rightarrow> Inl e
      | Inr key \<Rightarrow>
          (case broker_grants BE B key of Inl e \<Rightarrow> Inl e | Inr gs \<Rightarrow> Inr (key, map capability gs)))"

definition forget_end :: "broker_env \<Rightarrow> (disk_op \<Rightarrow> bool) \<Rightarrow> broker \<Rightarrow> str \<Rightarrow> broker \<times> broker_effect list" where
  "forget_end BE fails B key =
     (B\<lparr>b_ledger := forgetOrigin (b_env BE) fails (b_ledger B) key\<rparr>, [GrantsChanged key])"

end
