(* ===== verification/NetCalls.thy ===== *)
theory NetCalls imports Broker begin

section \<open>The entry points of orivon.net (capabilities/net*.ts)\<close>

text \<open>
  \<open>connect\<close>, \<open>connectSecure\<close>, \<open>listen\<close>, \<open>udpBind\<close>, \<open>lookup\<close> and the send of one datagram. An entry
  point reads the grant, begins an operation on it (\<open>net_begin\<close>) and then runs in turns between its
  awaits; a call in flight is a \<open>net_call\<close>, its \<open>phase\<close> says what it waits for. A turn either fails
  or proceeds to the next phase. What the dependencies answer (the proxy question, the resolver, the
  dial, the bind) are the arguments of the turns. That a route is in force (\<open>deps.routeFor\<close>) is read
  once per call, as in the code. The two turns around a check that the code makes without any outside
  answer in between are separate here, so more may happen between them than in the code.
\<close>

subsection \<open>Requests and calls\<close>

record secure_options =
  rejectUnauthorized :: "bool option"
  has_ca :: bool
  servername :: "str option"

datatype net_request =
  Connect str js_number
| ConnectSecure str js_number secure_options
| BindPort bind_family jsv js_number

datatype dial_target =
  Literals "str list"
| RouteTo str
| SecureTo str "jsv list option"
| SecureRoute str
| BindIn "port_range list"

datatype phase = Waits | Starts | AsksProxy str | Decides | Decided dial_target | Dials dial_target | Finished

record net_call =
  call_op :: nat
  call_key :: str
  call_serial :: nat
  call_grant :: grant
  call_request :: net_request
  call_ranges :: "port_range list"
  call_routed :: bool
  call_aborted :: bool
  call_name :: str
  call_phase :: phase

text \<open>What a dial or a bind that succeeded reports.\<close>

record dialed =
  remoteAddress :: str
  localPort :: int

definition granted_to :: "net_call \<Rightarrow> jsv" where
  "granted_to c = VArray (map VString (patterns (call_grant c)))"

definition denied :: "str \<Rightarrow> broker_error" where
  "denied message = fail_with E_denied message None None"

definition withdrawn_during :: "str \<Rightarrow> broker_error" where
  "withdrawn_during what =
     fail_with E_revoked (js ''the grant authorising this '' @ what @ js '' was withdrawn'') None None"

definition what_of :: "net_request \<Rightarrow> str" where
  "what_of req =
     (case req of
        BindPort TcpListen _ _ \<Rightarrow> js ''listen''
      | BindPort UdpBind _ _ \<Rightarrow> js ''bind''
      | _ \<Rightarrow> js ''connection'')"

text \<open>\<open>viaRoute\<close>: a route is in force and the target is not this machine.\<close>

definition via_route :: "net_call \<Rightarrow> bool" where
  "via_route c \<longleftrightarrow> call_routed c \<and>
     (case call_request c of
        Connect host _ \<Rightarrow> \<not> isLoopbackTarget host
      | ConnectSecure host _ _ \<Rightarrow> \<not> isLoopbackTarget host
      | BindPort _ _ _ \<Rightarrow> False)"

subsection \<open>net-bind-grant.ts\<close>

definition requestedScope :: "jsv \<Rightarrow> str \<Rightarrow> broker_error + jsv" where
  "requestedScope scope meth =
     (if scope = VUndefined then Inr (VString (js ''local''))
      else if \<not> isBindScope scope
      then Inl (fail_with E_invalid (meth @ js '': scope must be '' @ 39 # js ''local'' @ 39 # js '' or '' @
             39 # js ''network'' @ [39]) None None)
      else Inr scope)"

definition bindGrantFor ::
  "ledger \<Rightarrow> str \<Rightarrow> bind_family \<Rightarrow> jsv \<Rightarrow> js_number \<Rightarrow> broker_error + (grant \<times> port_range list)" where
  "bindGrantFor L key family scope prt =
     (let held = List.map_filter (currentGrant L key) (bindCapabilitiesFor family scope) in
      if length held = 0
      then Inl (denied (js ''no '' @ family_name family @
             (if scope = VString (js ''network'') then js ''.network'' else js ''.local or network'') @
             js '' grant is held by this origin''))
      else (case chooseBindGrant (\<lambda>g. VArray (map VString (patterns g))) held prt of
              None \<Rightarrow> Inl (denied (js ''the bind was not authorised''))
            | Some chosen \<Rightarrow> Inr chosen))"

subsection \<open>Up to the start of the operation\<close>

text \<open>The grant a request rides, and for a bind the ranges it may use.\<close>

definition grant_for :: "ledger \<Rightarrow> str \<Rightarrow> bool \<Rightarrow> net_request \<Rightarrow> broker_error + (grant \<times> port_range list)" where
  "grant_for L key routed req =
     (case req of
        Connect _ _ \<Rightarrow>
          (case currentGrant L key (js ''tcp.connect'') of
             None \<Rightarrow> Inl (denied (js ''tcp.connect is not granted to this origin''))
           | Some g \<Rightarrow> Inr (g, []))
      | ConnectSecure _ _ _ \<Rightarrow>
          (case currentGrant L key (js ''https.connect'') of
             None \<Rightarrow> Inl (denied (js ''https.connect is not granted to this origin''))
           | Some g \<Rightarrow> Inr (g, []))
      | BindPort family scope prt \<Rightarrow>
          (case requestedScope scope (case family of TcpListen \<Rightarrow> js ''net.listen'' | UdpBind \<Rightarrow> js ''net.udpBind'') of
             Inl e \<Rightarrow> Inl e
           | Inr sc \<Rightarrow>
               if routed \<and> sc = VString (js ''network'')
               then Inl (denied (case family of
                      TcpListen \<Rightarrow> js ''a routed app cannot listen on a network-reachable socket''
                    | UdpBind \<Rightarrow> js ''a routed app cannot bind a network-reachable socket''))
               else bindGrantFor L key family sc prt))"

definition net_begin ::
  "broker_env \<Rightarrow> bool \<Rightarrow> broker \<Rightarrow> str \<Rightarrow> net_request \<Rightarrow> nat \<Rightarrow> bool \<Rightarrow> net_call broker_call" where
  "net_begin BE routed B origin req op abandoned =
     (case canonical BE origin of
        Inl e \<Rightarrow> (B, [], Inl e)
      | Inr key \<Rightarrow>
          (case grant_for (b_ledger B) key routed req of
             Inl e \<Rightarrow> (B, [], Inl e)
           | Inr (g, ranges) \<Rightarrow>
               (case run_begin (t_env BE) key (OnGrant (grant_id g)) op abandoned (b_handles B) of
                  (T, es, Inl e) \<Rightarrow> (B\<lparr>b_handles := T\<rparr>, map OnHandles es, Inl e)
                | (T, es, Inr (k, s, slot)) \<Rightarrow>
                    (B\<lparr>b_handles := T\<rparr>, map OnHandles es,
                     Inr \<lparr>call_op = op, call_key = k, call_serial = s, call_grant = g, call_request = req,
                          call_ranges = ranges, call_routed = routed, call_aborted = False, call_name = [],
                          call_phase = (case slot of Running \<Rightarrow> Starts | Queued \<Rightarrow> Waits)\<rparr>))))"

subsection \<open>The turns\<close>

datatype turn = Fails broker_error | Proceeds str phase

text \<open>One turn serves the bodies of \<open>connect\<close> (net.ts), \<open>connectSecure\<close> (net-connect-secure.ts), \<open>listen\<close>
  (net-listen.ts) and \<open>udpBind\<close> (net-udp.ts), which differ in the cases on the request: from the start to the
  question to the proxy settings, from its answer to the check, from the check to the last look, and that look.\<close>

text \<open>\<open>bindsGrantedName\<close> (net-connect-secure.ts).\<close>

definition bindsGrantedName :: "str \<Rightarrow> secure_options \<Rightarrow> bool" where
  "bindsGrantedName host options =
     (if rejectUnauthorized options = Some False \<or> has_ca options then False
      else (case servername options of
              None \<Rightarrow> True | Some name \<Rightarrow> name = [] \<or> normalizeHost name = host))"

definition isLiteralHost :: "str \<Rightarrow> bool" where
  "isLiteralHost host \<longleftrightarrow> classifyAddress host \<noteq> Unparseable"

text \<open>The question to the proxy settings, asked only when no route is in force.\<close>

definition ask_proxy :: "str \<Rightarrow> str option \<Rightarrow> turn" where
  "ask_proxy name probe =
     (case probe of
        None \<Rightarrow> Fails (denied (js ''the connection was not authorised''))
      | Some url \<Rightarrow> Proceeds name (AsksProxy url))"

definition start_turn :: "(int \<Rightarrow> bool) option \<Rightarrow> net_call \<Rightarrow> turn" where
  "start_turn own c =
     (case call_request c of
        Connect host prt \<Rightarrow>
          if via_route c
          then (case checkRoutedConnect (granted_to c) (VString host) prt of
                  Inl _ \<Rightarrow> Fails (mapIoError (Foreign None) NetIo)
                | Inr (RoutedDenied _) \<Rightarrow> Fails (denied (js ''the connection was not authorised''))
                | Inr (RoutedAllowed h) \<Rightarrow> Proceeds h (Decided (RouteTo h)))
          else if call_routed c then Proceeds [] Decides
          else ask_proxy [] (proxyProbeUrl (VString host) (Some prt))
      | ConnectSecure hostArg prt options \<Rightarrow>
          (case checkConnectSecure (granted_to c) (VString hostArg) prt of
             SecureDenied _ \<Rightarrow> Fails (denied (js ''the secure connection was not authorised''))
           | SecureAllowed host \<Rightarrow>
               if reachesOwnLoopbackPort [host] (port_value prt) own
               then Fails (denied (js ''the secure connection was not authorised''))
               else if via_route c
               then (if \<not> bindsGrantedName host options \<and> isLiteralHost host then Proceeds host Decides
                     else Proceeds host (Decided (SecureRoute host)))
               else if call_routed c then Proceeds host Decides
               else ask_proxy host (proxyProbeUrl (VString host) (Some prt)))
      | BindPort _ _ _ \<Rightarrow>
          if call_routed c then Proceeds [] (Decided (BindIn (call_ranges c)))
          else Proceeds [] (AsksProxy GENERIC_PROXY_PROBE_URL))"

definition map_error :: "net_call \<Rightarrow> raw_error \<Rightarrow> broker_error" where
  "map_error c thrown =
     (case call_request c of ConnectSecure _ _ _ \<Rightarrow> mapTlsError thrown | _ \<Rightarrow> mapIoError thrown NetIo)"

definition refuses_to_bypass :: "net_request \<Rightarrow> str" where
  "refuses_to_bypass req =
     js ''a system proxy is configured; '' @
     (case req of
        Connect _ _ \<Rightarrow> js ''tcp.connect''
      | ConnectSecure _ _ _ \<Rightarrow> js ''connectSecure''
      | BindPort family _ _ \<Rightarrow> family_name family) @ js '' refuses to bypass it''"

definition proxy_turn :: "raw_error + bool \<Rightarrow> net_call \<Rightarrow> turn" where
  "proxy_turn answer c =
     (case answer of
        Inl e \<Rightarrow> Fails (map_error c e)
      | Inr True \<Rightarrow> Fails (denied (refuses_to_bypass (call_request c)))
      | Inr False \<Rightarrow>
          Proceeds (call_name c)
            (case call_request c of BindPort _ _ _ \<Rightarrow> Decided (BindIn (call_ranges c)) | _ \<Rightarrow> Decides))"

definition no_resolver :: "raw_error resolver" where
  "no_resolver host = Inl (Foreign None)"

text \<open>\<open>addressCheckedTarget\<close>: the addresses to dial, or the refusal.\<close>

definition addressChecked ::
  "net_call \<Rightarrow> str \<Rightarrow> js_number \<Rightarrow> raw_error resolver \<Rightarrow> broker_error + str list" where
  "addressChecked c host prt resolveFn =
     (case checkConnect (granted_to c) (VString host) prt resolveFn None of
        Inl e \<Rightarrow> Inl (mapTlsError e)
      | Inr (ConnectDenied _ _) \<Rightarrow> Inl (denied (js ''the secure connection was not authorised''))
      | Inr (ConnectAllowed checked) \<Rightarrow> Inr checked)"

text \<open>\<open>nameBoundTarget\<close>.\<close>

definition nameBound :: "str \<Rightarrow> raw_error resolver \<Rightarrow> broker_error + dial_target" where
  "nameBound host resolveFn =
     (if isLiteralHost host then Inr (SecureTo host None)
      else (case resolveFn host of
              Inl e \<Rightarrow> Inl (mapTlsError e)
            | Inr answers \<Rightarrow>
                if length answers = 0
                then Inl (fail_with E_unreachable (js ''could not resolve '' @ host) None None)
                else Inr (SecureTo host (Some answers))))"

definition decide_turn :: "(int \<Rightarrow> bool) option \<Rightarrow> raw_error resolver \<Rightarrow> net_call \<Rightarrow> turn" where
  "decide_turn own resolve c =
     (let resolveFn = (if call_routed c then no_resolver else resolve) in
      case call_request c of
        Connect host prt \<Rightarrow>
          (case checkConnect (granted_to c) (VString host) prt resolveFn None of
             Inl e \<Rightarrow> Fails (mapIoError e NetIo)
           | Inr (ConnectDenied _ _) \<Rightarrow> Fails (denied (js ''the connection was not authorised''))
           | Inr (ConnectAllowed checked) \<Rightarrow>
               if reachesOwnLoopbackPort checked (port_value prt) own
               then Fails (denied (js ''the connection was not authorised''))
               else Proceeds [] (Decided (Literals checked)))
      | ConnectSecure _ prt options \<Rightarrow>
          (let host = call_name c; bound = bindsGrantedName host options in
           if via_route c
           then (case addressChecked c host prt resolve of
                   Inl e \<Rightarrow> Fails e | Inr _ \<Rightarrow> Proceeds host (Decided (SecureRoute host)))
           else if bound \<and> \<not> call_routed c
           then (case nameBound host resolve of Inl e \<Rightarrow> Fails e | Inr target \<Rightarrow> Proceeds host (Decided target))
           else (case addressChecked c host prt resolveFn of
                   Inl e \<Rightarrow> Fails e
                 | Inr checked \<Rightarrow> Proceeds host (Decided (SecureTo host (Some (map VString checked))))))
      | BindPort _ _ _ \<Rightarrow> Proceeds [] (Decided (BindIn (call_ranges c))))"

text \<open>The last look before the dial: was the grant withdrawn, and (\<open>assertSocketRoom\<close>) does the
  origin have a socket left.\<close>

definition dial_turn :: "nat \<Rightarrow> int \<Rightarrow> dial_target \<Rightarrow> net_call \<Rightarrow> turn" where
  "dial_turn sockets_open allowance target c =
     (if call_aborted c then Fails (withdrawn_during (what_of (call_request c)))
      else if (case call_request c of BindPort _ _ _ \<Rightarrow> False | _ \<Rightarrow> int sockets_open \<ge> allowance)
      then Fails (fail_with E_limit (js ''origin holds '' @ to_string 10 (nat allowance) @ js '' sockets'') None None)
      else Proceeds (call_name c) (Dials target))"

text \<open>The body of the operation, turn by turn; the dial itself is answered by \<open>opened_turn\<close>.\<close>

definition next_turn ::
  "(int \<Rightarrow> bool) option \<Rightarrow> raw_error + bool \<Rightarrow> raw_error resolver \<Rightarrow> nat \<Rightarrow> int \<Rightarrow> net_call \<Rightarrow> turn option" where
  "next_turn own proxied resolve sockets_open allowance c =
     (case call_phase c of
        Starts \<Rightarrow> Some (start_turn own c)
      | AsksProxy _ \<Rightarrow> Some (proxy_turn proxied c)
      | Decides \<Rightarrow> Some (decide_turn own resolve c)
      | Decided target \<Rightarrow> Some (dial_turn sockets_open allowance target c)
      | _ \<Rightarrow> None)"

definition after_turn :: "turn \<Rightarrow> net_call \<Rightarrow> net_call" where
  "after_turn t c =
     (case t of
        Fails _ \<Rightarrow> c\<lparr>call_phase := Finished\<rparr>
      | Proceeds name p \<Rightarrow> c\<lparr>call_name := name, call_phase := p\<rparr>)"

subsection \<open>The socket that was opened\<close>

text \<open>The \<open>stillCovered\<close> each entry point gives \<open>acquire\<close>.\<close>

definition secure_allows :: "str list \<Rightarrow> str \<Rightarrow> js_number \<Rightarrow> bool" where
  "secure_allows ps host prt =
     (case checkConnectSecure (VArray (map VString ps)) (VString host) prt of
        SecureAllowed _ \<Rightarrow> True | SecureDenied _ \<Rightarrow> False)"

definition bind_allows :: "str list \<Rightarrow> int \<Rightarrow> bool" where
  "bind_allows ps p =
     (case checkBind (VArray (map VString ps)) (IntNum p) of BindAllowed _ \<Rightarrow> True | BindDenied _ \<Rightarrow> False)"

definition connect_allows :: "str list \<Rightarrow> str \<Rightarrow> str \<Rightarrow> js_number \<Rightarrow> bool" where
  "connect_allows ps host remote prt =
     connectStillAuthorised (VArray (map VString ps)) (VString host) remote prt"

definition address_unchecked :: "net_call \<Rightarrow> secure_options \<Rightarrow> bool" where
  "address_unchecked c options \<longleftrightarrow>
     (bindsGrantedName (call_name c) options \<and> \<not> call_routed c) \<or>
     (via_route c \<and> (bindsGrantedName (call_name c) options \<or> \<not> isLiteralHost (call_name c)))"

definition covered_by :: "net_call \<Rightarrow> dialed \<Rightarrow> str list \<Rightarrow> bool" where
  "covered_by c d ps =
     (case call_request c of
        Connect host prt \<Rightarrow>
          if via_route c then routedStillAuthorised (VArray (map VString ps)) (call_name c) prt
          else connect_allows ps host (remoteAddress d) prt
      | ConnectSecure _ prt options \<Rightarrow>
          secure_allows ps (call_name c) prt \<and>
          (address_unchecked c options \<or> connect_allows ps (call_name c) (remoteAddress d) prt)
      | BindPort _ _ _ \<Rightarrow> bind_allows ps (localPort d))"

definition kind_of :: "net_request \<Rightarrow> handle_kind" where
  "kind_of req =
     (case req of BindPort TcpListen _ _ \<Rightarrow> TcpServer | BindPort UdpBind _ _ \<Rightarrow> UdpSocket | _ \<Rightarrow> TcpSocket)"

datatype net_outcome = Opened handle_entry | Refused broker_error | DestroyedAs close_reason broker_error

text \<open>The turn after the dial or bind has answered. A socket that was opened for a withdrawn grant is
  destroyed as revoked; otherwise it is registered. \<open>None\<close>: the id loop of \<open>acquire\<close> does not end.\<close>

definition opened_turn ::
  "broker_env \<Rightarrow> int \<Rightarrow> bool \<Rightarrow> raw_error + dialed \<Rightarrow> net_call \<Rightarrow> handle_table \<Rightarrow>
     (handle_table \<times> handle_effect list \<times> net_outcome) option" where
  "opened_turn BE allowance destroy_throws answer c T =
     (case answer of
        Inl e \<Rightarrow> Some (T, [], Refused (map_error c e))
      | Inr d \<Rightarrow>
          if call_aborted c
          then Some (T, [], DestroyedAs Revoked (withdrawn_during (what_of (call_request c))))
          else map_option
                 (\<lambda>(T, es, res). (T, es, (case res of Inl e \<Rightarrow> Refused e | Inr opened \<Rightarrow> Opened opened)))
                 (acquire (t_env BE)
                   \<lparr>req_origin = call_key c, req_kind = kind_of (call_request c),
                    req_auth = ByGrant (grant_id (call_grant c)), req_limit = Some allowance,
                    req_covered = Some (covered_by c d), req_destroy_fails = destroy_throws\<rparr> T))"

text \<open>One accepted connection of a listener.\<close>

definition accept_one ::
  "broker_env \<Rightarrow> int \<Rightarrow> bool \<Rightarrow> str \<Rightarrow> str \<Rightarrow> handle_table \<Rightarrow> handle_entry call option" where
  "accept_one BE allowance destroy_throws key server T =
     acquireDerived (t_env BE)
       \<lparr>der_origin = key, der_kind = TcpSocket, der_parent = server, der_limit = Some allowance,
        der_destroy_fails = destroy_throws\<rparr> T"

subsection \<open>lookup (net.ts)\<close>

definition OUTBOUND_CAPABILITIES :: "str list" where
  "OUTBOUND_CAPABILITIES = [js ''tcp.connect'', js ''udp.send'']"

fun lookup_grant :: "ledger \<Rightarrow> str \<Rightarrow> str \<Rightarrow> str list \<Rightarrow> (grant \<times> str \<times> lookup_address list option) option" where
  "lookup_grant L key hname [] = None"
| "lookup_grant L key hname (kind # kinds) =
     (case currentGrant L key kind of
        None \<Rightarrow> lookup_grant L key hname kinds
      | Some g \<Rightarrow>
          (case checkLookup (VArray (map VString (patterns g))) (VString hname) of
             LookupAllowed name answers \<Rightarrow> Some (g, name, answers)
           | LookupDenied _ \<Rightarrow> lookup_grant L key hname kinds))"

definition lookup_refusal :: broker_error where
  "lookup_refusal = denied (js ''the hostname was not authorised by any held network grant'')"

text \<open>Up to the operation: refused, answered at once, or the grant and the name to look up.\<close>

datatype lookup_begun = LookupRefused broker_error | LookupAnswered "lookup_address list" | LookupRuns grant str

definition lookup_begin :: "broker_env \<Rightarrow> broker \<Rightarrow> str \<Rightarrow> str \<Rightarrow> lookup_begun" where
  "lookup_begin BE B origin hname =
     (case canonical BE origin of
        Inl e \<Rightarrow> LookupRefused e
      | Inr key \<Rightarrow>
          (case lookup_grant (b_ledger B) key hname OUTBOUND_CAPABILITIES of
             None \<Rightarrow> LookupRefused lookup_refusal
           | Some (g, name, Some answers) \<Rightarrow> LookupAnswered answers
           | Some (g, name, None) \<Rightarrow> LookupRuns g name))"

text \<open>\<open>mapRouteError\<close> (route/provider.ts).\<close>

definition mapRouteError :: "raw_error \<Rightarrow> broker_error" where
  "mapRouteError thrown =
     (case thrown of
        Known e \<Rightarrow> e
      | Foreign errno \<Rightarrow> fail_with E_unreachable (js ''the route could not carry the connection'') None errno)"

text \<open>The operation: \<open>route\<close> is absent, or its resolver where it has one; \<open>aborted\<close> is the signal before
  and after the resolution. What the question to the proxy settings throws is passed on as it is.\<close>

type_synonym name_resolver = "str \<Rightarrow> raw_error + lookup_address list"

definition lookup_resolve ::
  "name_resolver option option \<Rightarrow> raw_error + bool \<Rightarrow> name_resolver \<Rightarrow> bool \<Rightarrow> bool \<Rightarrow> str \<Rightarrow>
     raw_error + lookup_address list" where
  "lookup_resolve route proxied resolveLookup aborted_before aborted_after name =
     (if aborted_before then Inl (Known (withdrawn_during (js ''lookup'')))
      else (case route of
              Some None \<Rightarrow> Inl (Known (denied (js ''the route cannot resolve names'')))
            | Some (Some resolve) \<Rightarrow>
                (case resolve name of
                   Inl e \<Rightarrow> Inl (Known (if aborted_after then withdrawn_during (js ''lookup'') else mapRouteError e))
                 | Inr resolved \<Rightarrow> Inr resolved)
            | None \<Rightarrow>
                (case proxyProbeUrl (VString name) None of
                   None \<Rightarrow> Inl (Known lookup_refusal)
                 | Some url \<Rightarrow>
                     (case proxied of
                        Inl e \<Rightarrow> Inl e
                      | Inr True \<Rightarrow>
                          Inl (Known (denied (js ''a system proxy is configured; net.lookup refuses to bypass it'')))
                      | Inr False \<Rightarrow>
                          (case resolveLookup name of
                             Inl e \<Rightarrow> Inl (Known (mapIoError e NetIo)) | Inr resolved \<Rightarrow> Inr resolved)))))"

definition lookup_end :: "raw_error + lookup_address list \<Rightarrow> raw_error + lookup_address list" where
  "lookup_end resolved =
     (case resolved of
        Inl e \<Rightarrow> Inl e
      | Inr answers \<Rightarrow>
          let reachable = filter (\<lambda>a. isPublicUnicast (address a)) answers in
          if length reachable = 0
          then Inl (Known (fail_with E_unreachable
                 (js ''the hostname resolved to no address this app can reach'') None None))
          else Inr reachable)"

subsection \<open>Sending one datagram (net-udp.ts)\<close>

text \<open>\<open>routing\<close>: the socket was bound with a route in force; \<open>live\<close>: one is in force now.\<close>

datatype send_decision =
  SendDirect str
| SendThrough str
| NotSent error_code "str option"

definition authorisedSend ::
  "ledger \<Rightarrow> str \<Rightarrow> bool \<Rightarrow> bool \<Rightarrow> raw_error + bool \<Rightarrow> raw_error resolver \<Rightarrow> str \<Rightarrow> js_number \<Rightarrow> send_decision" where
  "authorisedSend L key routing live proxied resolve host prt =
     (case currentGrant L key (js ''udp.send'') of
        None \<Rightarrow> NotSent E_denied None
      | Some g \<Rightarrow>
          let granted = VArray (map VString (patterns g));
              direct = (\<not> routing \<and> \<not> live) \<or> isLoopbackTarget host;
              failed = (\<lambda>e. let mapped = mapIoError e NetIo in NotSent (err_code mapped) (err_platform mapped)) in
          if \<not> direct then
            (if \<not> routing \<or> \<not> live then NotSent E_denied None
             else (case checkRoutedConnect granted (VString host) prt of
                     Inr (RoutedAllowed h) \<Rightarrow> SendThrough h
                   | _ \<Rightarrow> NotSent E_denied None))
          else (case (if live then Inr (Inr False)
                      else (case proxyProbeUrl (VString host) (Some prt) of
                              None \<Rightarrow> Inl (NotSent E_denied None) | Some url \<Rightarrow> Inr proxied)) of
                  Inl refused \<Rightarrow> refused
                | Inr (Inl e) \<Rightarrow> failed e
                | Inr (Inr True) \<Rightarrow> NotSent E_denied None
                | Inr (Inr False) \<Rightarrow>
                    (case checkConnect granted (VString host) prt (if live then no_resolver else resolve)
                            (Some (parsedPatternsFor g)) of
                       Inl e \<Rightarrow> failed e
                     | Inr (ConnectDenied _ _) \<Rightarrow> NotSent E_denied None
                     | Inr (ConnectAllowed []) \<Rightarrow> NotSent E_denied None
                     | Inr (ConnectAllowed (first # _)) \<Rightarrow> SendDirect first)))"

end
