(* ===== verification/NetCovered.thy ===== *)
theory NetCovered imports NetCalls Update begin

section \<open>What the patterns of a call authorise\<close>

text \<open>
  Two facts about the turns of NetCalls, used by the invariant of NetRuns: a socket that was dialled
  or bound as decided is covered by the patterns it was decided from, and a grant that replaces
  another and covers all of it covers every socket the other covered.
\<close>

subsection \<open>Grants the consent flow gives\<close>

definition net_bind_kinds :: "str set" where
  "net_bind_kinds = {js ''tcp.listen.local'', js ''tcp.listen.network'', js ''udp.bind.local'', js ''udp.bind.network''}"

text \<open>What every pattern list is that a parsed manifest declares and a grant request lets through.\<close>

definition fit :: "str \<Rightarrow> str list \<Rightarrow> bool" where
  "fit kind ps \<longleftrightarrow> length ps \<le> MAX_PATTERNS \<and>
     (\<forall>p\<in>set ps. \<forall>shape. map_of CONNECT_SHAPED_CAPABILITIES kind = Some shape \<longrightarrow>
        isDeclarableConnectPattern (VString p) shape) \<and>
     (kind \<in> net_bind_kinds \<longrightarrow> (\<forall>p\<in>set ps. pattern_ranges (VString p) \<noteq> []))"

text \<open>One replacement that keeps everything, and any number of them.\<close>

definition widened :: "str \<Rightarrow> str list \<Rightarrow> str list \<Rightarrow> bool" where
  "widened kind = (\<lambda>ps ps'. covers_all kind ps' ps \<and> fit kind ps')\<^sup>*\<^sup>*"

lemma widened_refl [simp]: "widened kind ps ps"
  by (simp add: widened_def)

lemma widened_step: "widened kind ps ps' \<Longrightarrow> covers_all kind ps'' ps' \<Longrightarrow> fit kind ps'' \<Longrightarrow> widened kind ps ps''"
  by (auto simp: widened_def intro: rtranclp.rtrancl_into_rtrancl)

lemma covers_all_iff: "covers_all kind ps' ps \<longleftrightarrow> (\<forall>w\<in>set ps. \<exists>g\<in>set ps'. covers g w)"
  by (simp add: covers_all_def widens_single)

subsection \<open>The request and the kind of its grant\<close>

definition kinds_for :: "net_request \<Rightarrow> str set" where
  "kinds_for req =
     (case req of
        Connect _ _ \<Rightarrow> {js ''tcp.connect''}
      | ConnectSecure _ _ _ \<Rightarrow> {js ''https.connect''}
      | BindPort _ _ _ \<Rightarrow> net_bind_kinds)"

lemma shapes:
  "map_of CONNECT_SHAPED_CAPABILITIES (js ''tcp.connect'') = Some TcpConnect"
  "map_of CONNECT_SHAPED_CAPABILITIES (js ''https.connect'') = Some HttpsConnect"
  by code_simp+

lemma fit_declarable:
  "fit (js ''tcp.connect'') ps \<Longrightarrow> \<forall>g\<in>set ps. declarable TcpConnect g"
  "fit (js ''https.connect'') ps \<Longrightarrow> \<forall>g\<in>set ps. declarable HttpsConnect g"
  unfolding fit_def declarable_def using shapes by blast+

subsection \<open>A wider grant covers what the narrower covered\<close>

lemma connect_allows_open: "connect_allows ps host remote (IntNum p) \<longleftrightarrow> still_open (map VString ps) (host, remote, p)"
  by (simp add: connect_allows_def still_open_def)

lemma connect_allows_int: "connect_allows ps host remote pt \<Longrightarrow> \<exists>p. pt = IntNum p"
  by (cases pt) (auto simp: connect_allows_def connectStillAuthorised_def preflightConnect_def isValidPort_def
      split: if_splits)

lemma secure_allows_allowed: "secure_allows ps host (IntNum p) \<longleftrightarrow> secure_allowed (map VString ps) (host, p)"
  by (auto simp: secure_allows_def secure_allowed_def split: secure_decision.split)

lemma secure_allows_int: "secure_allows ps host pt \<Longrightarrow> \<exists>p. pt = IntNum p"
  by (cases pt) (auto simp: secure_allows_def checkConnectSecure_def preflightConnect_def isValidPort_def
      split: if_splits)

lemma wider_connect:
  assumes "covers_all kind ps' ps" and "\<forall>g\<in>set ps'. declarable shape g" and "length ps' \<le> MAX_PATTERNS"
    and "connect_allows ps host remote pt"
  shows "connect_allows ps' host remote pt"
proof -
  obtain p where p: "pt = IntNum p" using connect_allows_int [OF assms(4)] by blast
  from assms(4) have "still_open (map VString ps) (host, remote, p)" by (simp add: p connect_allows_open)
  from covered_connect [OF _ assms(2,3) this] show ?thesis
    using assms(1) by (simp add: p connect_allows_open covers_all_iff)
qed

lemma wider_secure:
  assumes "covers_all kind ps' ps" and "\<forall>g\<in>set ps'. declarable shape g" and "length ps' \<le> MAX_PATTERNS"
    and "secure_allows ps host pt"
  shows "secure_allows ps' host pt"
proof -
  obtain p where p: "pt = IntNum p" using secure_allows_int [OF assms(4)] by blast
  from assms(4) have "secure_allowed (map VString ps) (host, p)" by (simp add: p secure_allows_allowed)
  from covered_secure [OF _ assms(2,3) this] show ?thesis
    using assms(1) by (simp add: p secure_allows_allowed covers_all_iff)
qed

lemma wider_routed:
  assumes "covers_all kind ps' ps" and "\<forall>g\<in>set ps'. declarable shape g" and "length ps' \<le> MAX_PATTERNS"
    and "routedStillAuthorised (VArray (map VString ps)) host pt"
  shows "routedStillAuthorised (VArray (map VString ps')) host pt"
  using wider_secure [OF assms(1-3), of host pt] wider_connect [OF assms(1-3), of host host pt] assms(4)
  by (auto simp: routedStillAuthorised_def secure_allows_def connect_allows_def split: secure_decision.splits)

lemma wider_bind:
  assumes "covers_all kind ps' ps" and "\<forall>g\<in>set ps'. pattern_ranges (VString g) \<noteq> []"
    and "length ps' \<le> MAX_PATTERNS" and "p \<noteq> 0" and "bind_allows ps p"
  shows "bind_allows ps' p"
  using covered_bind [OF _ assms(2,3), of ps p] assms(1,4,5)
  by (simp add: bind_allows_def bind_allowed_def covers_all_iff)

lemma wider_covers:
  assumes kind: "kind \<in> kinds_for (call_request c)" and w: "covers_all kind ps' ps" "fit kind ps'"
    and bound: "\<forall>fam sc pt. call_request c = BindPort fam sc pt \<longrightarrow> localPort d \<noteq> 0"
    and "covered_by c d ps"
  shows "covered_by c d ps'"
proof (cases "call_request c")
  case (Connect host pt)
  then have k: "kind = js ''tcp.connect''" using kind by (simp add: kinds_for_def)
  note f = fit_declarable(1) [OF w(2) [unfolded k]] and l = w(2) [unfolded fit_def, THEN conjunct1]
  show ?thesis
    using assms(5) Connect wider_connect [OF w(1) f l] wider_routed [OF w(1) f l]
    by (auto simp: covered_by_def split: if_splits)
next
  case (ConnectSecure host pt options)
  then have k: "kind = js ''https.connect''" using kind by (simp add: kinds_for_def)
  note f = fit_declarable(2) [OF w(2) [unfolded k]] and l = w(2) [unfolded fit_def, THEN conjunct1]
  show ?thesis
    using assms(5) ConnectSecure wider_connect [OF w(1) f l] wider_secure [OF w(1) f l]
    by (auto simp: covered_by_def)
next
  case (BindPort fam sc pt)
  then have "kind \<in> net_bind_kinds" using kind by (simp add: kinds_for_def)
  then show ?thesis
    using assms(5) BindPort wider_bind [OF w(1)] w(2) bound
    by (auto simp: covered_by_def fit_def)
qed

lemma widened_covers:
  assumes "widened kind ps ps'" and "kind \<in> kinds_for (call_request c)"
    and "\<forall>fam sc pt. call_request c = BindPort fam sc pt \<longrightarrow> localPort d \<noteq> 0" and "covered_by c d ps"
  shows "covered_by c d ps'"
  using assms(1,4) unfolding widened_def
  by (induction rule: rtranclp_induct) (use wider_covers [OF assms(2) _ _ assms(3)] in blast)+

section \<open>What is dialled was authorised\<close>

text \<open>What the dial or the bind may report: an address it was given, the name a route was asked for,
  a port inside the ranges.\<close>

definition dial_ok :: "net_call \<Rightarrow> dial_target \<Rightarrow> dialed \<Rightarrow> bool" where
  "dial_ok c target d =
     (case target of
        Literals checked \<Rightarrow> remoteAddress d \<in> set checked
      | RouteTo h \<Rightarrow> remoteAddress d = h
      | SecureTo h (Some answers) \<Rightarrow>
          (case call_request c of
             ConnectSecure _ _ options \<Rightarrow> address_unchecked c options \<or> VString (remoteAddress d) \<in> set answers
           | _ \<Rightarrow> False)
      | SecureTo h None \<Rightarrow> True
      | SecureRoute h \<Rightarrow> remoteAddress d = h
      | BindIn ranges \<Rightarrow> list_ex (\<lambda>r. range_lo r \<le> localPort d \<and> localPort d \<le> range_hi r) ranges)"

text \<open>A name that reads the same when it is checked again, as every name does that does not end in two dots.\<close>

definition steady :: "net_call \<Rightarrow> bool" where
  "steady c \<longleftrightarrow> normalizeHost (call_name c) = call_name c"

definition sound :: "net_call \<Rightarrow> dial_target \<Rightarrow> bool" where
  "sound c target \<longleftrightarrow>
     (\<forall>d. dial_ok c target d \<longrightarrow> (steady c \<longrightarrow> covered_by c d (patterns (call_grant c))) \<and>
        (\<forall>fam sc pt. call_request c = BindPort fam sc pt \<longrightarrow> localPort d \<noteq> 0))"

definition named :: "net_call \<Rightarrow> bool" where
  "named c =
     (case call_request c of
        Connect _ _ \<Rightarrow> \<not> via_route c
      | ConnectSecure h pt _ \<Rightarrow> checkConnectSecure (granted_to c) (VString h) pt = SecureAllowed (call_name c)
      | BindPort _ _ _ \<Rightarrow> True)"

definition phase_ok :: "net_call \<Rightarrow> bool" where
  "phase_ok c \<longleftrightarrow>
     (\<forall>fam sc pt. call_request c = BindPort fam sc pt \<longrightarrow> checkBind (granted_to c) pt = BindAllowed (call_ranges c)) \<and>
     (case call_phase c of
        AsksProxy _ \<Rightarrow> named c
      | Decides \<Rightarrow> named c
      | Decided target \<Rightarrow> sound c target
      | Dials target \<Rightarrow> sound c target
      | _ \<Rightarrow> True)"

lemma call_updates [simp]:
  "via_route (c\<lparr>call_phase := p\<rparr>) = via_route c" "via_route (c\<lparr>call_name := n\<rparr>) = via_route c"
  "via_route (c\<lparr>call_aborted := a\<rparr>) = via_route c"
  "granted_to (c\<lparr>call_phase := p\<rparr>) = granted_to c" "granted_to (c\<lparr>call_name := n\<rparr>) = granted_to c"
  "granted_to (c\<lparr>call_aborted := a\<rparr>) = granted_to c"
  "address_unchecked (c\<lparr>call_phase := p\<rparr>) o' = address_unchecked c o'"
  "address_unchecked (c\<lparr>call_aborted := a\<rparr>) o' = address_unchecked c o'"
  "steady (c\<lparr>call_phase := p\<rparr>) = steady c" "steady (c\<lparr>call_aborted := a\<rparr>) = steady c"
  by (simp_all add: via_route_def granted_to_def address_unchecked_def steady_def)

lemma covered_updates [simp]:
  "covered_by (c\<lparr>call_phase := p\<rparr>) = covered_by c" "covered_by (c\<lparr>call_aborted := a\<rparr>) = covered_by c"
  "dial_ok (c\<lparr>call_phase := p\<rparr>) = dial_ok c" "dial_ok (c\<lparr>call_aborted := a\<rparr>) = dial_ok c"
  "named (c\<lparr>call_phase := p\<rparr>) = named c" "named (c\<lparr>call_aborted := a\<rparr>) = named c"
  by (auto simp: covered_by_def dial_ok_def named_def fun_eq_iff split: net_request.split dial_target.split option.split)

lemma sound_updates [simp]:
  "sound (c\<lparr>call_phase := p\<rparr>) = sound c" "sound (c\<lparr>call_aborted := a\<rparr>) = sound c"
  by (intro ext; simp add: sound_def)+

lemma canonical_again:
  assumes "canonical_request h = Some host" and "normalizeHost host = host"
  shows "canonical_request host = Some host"
proof (cases "classifyAddress host = Unparseable")
  case True
  then have "host = normalizeHost h" using canonical_request_class(3) [OF assms(1)] by simp
  then show ?thesis
    using assms True by (simp add: canonical_request_def Let_def split: if_splits)
next
  case False
  then show ?thesis using canonical_request_literal canonical_request_class(2) [OF assms(1)] by blast
qed

lemma secure_again:
  assumes "checkConnectSecure (VArray (map VString ps)) (VString h) pt = SecureAllowed host"
    and "normalizeHost host = host"
  shows "secure_allows ps host pt"
proof -
  have "secure_allows ps h pt" using assms(1) by (simp add: secure_allows_def)
  then obtain p where p: "pt = IntNum p" using secure_allows_int by blast
  have r: "canonical_request h = Some host" using assms(1) unfolding p secure_allowed_host by blast
  from canonical_again [OF this assms(2)] have again: "canonical_request host = Some host" .
  then have "valid_request host p = valid_request h p" "secure_one x (host, p) = secure_one x (h, p)" for x
    using r by (simp_all add: valid_request_def secure_one_def)
  then have "checkConnectSecure (VArray (map VString ps)) (VString host) (IntNum p) = SecureAllowed host"
    using assms(1) again unfolding p secure_allowed_host by simp
  then show ?thesis by (simp add: p secure_allows_def)
qed

lemma checked_int:
  assumes "checkConnect (VArray (map VString ps)) (VString h) pt r None = Inr (ConnectAllowed checked)"
  obtains p where "pt = IntNum p"
  using assms by (cases pt) (auto simp: checkConnect_def preflightConnect_def isValidPort_def Let_def split: if_splits)

lemma checked_allows:
  assumes "checkConnect (VArray (map VString ps)) (VString h) pt r None = Inr (ConnectAllowed checked)"
    and "remote \<in> set checked"
  shows "connect_allows ps h remote pt"
proof -
  obtain p where p: "pt = IntNum p" using checked_int [OF assms(1)] .
  show ?thesis using checkConnect_dial(5) [OF assms(1) [unfolded p] assms(2)] by (simp add: p connect_allows_open)
qed

lemma literal_allows:
  assumes "checkConnect (VArray (map VString ps)) (VString host) pt r None = Inr (ConnectAllowed checked)"
    and "canonical_request h = Some host" and "classifyAddress host \<noteq> Unparseable"
  shows "connect_allows ps host host pt"
proof -
  have c: "canonical_request host = Some host"
    using canonical_request_literal canonical_request_class(2) [OF assms(2)] assms(3) by blast
  obtain p where p: "pt = IntNum p" using checked_int [OF assms(1)] .
  have "checked = [host]" using assms(1) unfolding p checkConnect_literal [OF c assms(3)] by blast
  then show ?thesis using checked_allows [OF assms(1)] by simp
qed

lemma bound_allows:
  assumes "checkBind (VArray (map VString ps)) pt = BindAllowed ranges"
    and "list_ex (\<lambda>r. range_lo r \<le> l \<and> l \<le> range_hi r) ranges"
  shows "bind_allows ps l" and "l \<noteq> 0"
proof -
  obtain p where p: "pt = IntNum p" using assms(1) by (rule checkBind_allowed_shape) auto
  have len: "length ps \<le> MAX_PATTERNS" using assms(1) by (auto simp: p checkBind_eq Let_def split: if_splits)
  obtain r where r: "r \<in> set ranges" "range_lo r \<le> l" "l \<le> range_hi r" using assms(2) by (auto simp: list_ex_iff)
  from checkBind_ranges(2) [OF assms(1) [unfolded p] r(1)] r(2,3)
  obtain q g where q: "q \<in> set (map VString ps)" "g \<in> set (pattern_ranges q)"
    "range_lo g \<le> range_lo r" "range_hi r \<le> range_hi g" and v: "bind_valid l"
    by (auto simp: bind_valid_def)
  have "range_lo g \<le> l \<and> l \<le> range_hi g" using q r by linarith
  then have b: "bind_valid l" "\<exists>q\<in>set (map VString ps). bind_one q l"
    using q(1,2) v unfolding bind_one_def list_ex_iff by blast+
  then have "bind_allowed (map VString ps) l" using len unfolding bind_allowed_iff by simp
  then show "bind_allows ps l" "l \<noteq> 0" by (simp_all add: bind_allowed_def bind_allows_def)
qed

subsection \<open>Every turn keeps it so\<close>

lemma sound_name: "call_name c = n \<Longrightarrow> c\<lparr>call_name := n\<rparr> = c"
  by simp

lemma sound_secure:
  assumes "call_request c = ConnectSecure h pt options" and "named c"
    and "\<And>d. dial_ok c target d \<Longrightarrow> address_unchecked c options \<or>
      connect_allows (patterns (call_grant c)) (call_name c) (remoteAddress d) pt"
  shows "sound c target"
  using assms secure_again [of "patterns (call_grant c)" h pt "call_name c"]
  by (auto simp: sound_def covered_by_def named_def granted_to_def steady_def)

lemma start_ok:
  assumes "phase_ok c" and "start_turn own c = Proceeds n p"
  shows "phase_ok (c\<lparr>call_name := n, call_phase := p\<rparr>)"
proof (cases "call_request c")
  case (Connect host pt)
  have v: "via_route (c\<lparr>call_name := n\<rparr>) = via_route c" by simp
  show ?thesis
  proof (cases "via_route c")
    case True
    then obtain h where h: "checkRoutedConnect (granted_to c) (VString host) pt = Inr (RoutedAllowed h)"
      and np: "n = h" "p = Decided (RouteTo h)"
      using assms(2) Connect by (auto simp: start_turn_def split: sum.splits routed_decision.splits)
    have "routedStillAuthorised (granted_to c) h pt" if "normalizeHost h = h"
    proof -
      obtain i where i: "pt = IntNum i"
        using h by (cases pt) (auto simp: checkRoutedConnect_def preflightConnect_def granted_to_def isValidPort_def
            split: if_splits)
      show ?thesis using routed_still_authorised [OF h [unfolded i granted_to_def]] that by (simp add: i granted_to_def)
    qed
    then have "sound (c\<lparr>call_name := n\<rparr>) (RouteTo h)"
      using True v Connect np(1) by (simp add: sound_def covered_by_def steady_def granted_to_def)
    then show ?thesis using Connect np(2) by (simp add: phase_ok_def)
  next
    case False
    then have "\<not> (\<exists>t. p = Decided t \<or> p = Dials t)"
      using assms(2) Connect by (auto simp: start_turn_def ask_proxy_def split: if_splits option.splits)
    moreover have "named (c\<lparr>call_name := n\<rparr>)" using False v Connect by (simp add: named_def)
    ultimately show ?thesis using Connect by (cases p) (auto simp: phase_ok_def)
  qed
next
  case (ConnectSecure h pt options)
  obtain host where h: "checkConnectSecure (granted_to c) (VString h) pt = SecureAllowed host"
    using assms(2) ConnectSecure by (auto simp: start_turn_def split: secure_decision.splits)
  have n: "n = host"
    using assms(2) ConnectSecure h by (auto simp: start_turn_def ask_proxy_def split: if_splits option.splits)
  let ?c = "c\<lparr>call_name := host\<rparr>"
  have named: "named ?c" using h ConnectSecure by (simp add: named_def)
  show ?thesis
  proof (cases "\<exists>t. p = Decided t \<or> p = Dials t")
    case True
    then have p: "p = Decided (SecureRoute host)" "address_unchecked ?c options"
      using assms(2) ConnectSecure h
      by (auto simp: start_turn_def ask_proxy_def address_unchecked_def split: if_splits option.splits)
    have "sound ?c (SecureRoute host)" by (rule sound_secure [of _ h pt options]) (use ConnectSecure named p in simp_all)
    then show ?thesis using ConnectSecure p n by (simp add: phase_ok_def)
  next
    case False
    then show ?thesis using ConnectSecure named n by (cases p) (auto simp: phase_ok_def)
  qed
next
  case (BindPort fam sc pt)
  let ?c = "c\<lparr>call_name := n\<rparr>"
  have b: "checkBind (granted_to c) pt = BindAllowed (call_ranges c)"
    using assms(1) BindPort unfolding phase_ok_def by blast
  have "sound ?c (BindIn (call_ranges c))"
    using BindPort bound_allows [OF b [unfolded granted_to_def]] by (simp add: sound_def covered_by_def dial_ok_def)
  then show ?thesis
    using assms(2) BindPort b by (auto simp: start_turn_def phase_ok_def named_def split: if_splits)
qed

lemma proxy_ok:
  assumes "phase_ok c" and "call_phase c = AsksProxy u" and "proxy_turn answer c = Proceeds n p"
  shows "phase_ok (c\<lparr>call_name := n, call_phase := p\<rparr>)"
proof -
  have n: "n = call_name c" and named: "named c"
    and p: "p = (case call_request c of BindPort _ _ _ \<Rightarrow> Decided (BindIn (call_ranges c)) | _ \<Rightarrow> Decides)"
    using assms by (auto simp: proxy_turn_def phase_ok_def split: sum.splits bool.splits)
  have "sound c (BindIn (call_ranges c))" if "call_request c = BindPort fam sc pt" for fam sc pt
  proof -
    have "checkBind (granted_to c) pt = BindAllowed (call_ranges c)"
      using assms(1) that unfolding phase_ok_def by blast
    then show ?thesis
      using that bound_allows by (simp add: sound_def covered_by_def dial_ok_def granted_to_def)
  qed
  then show ?thesis
    using assms(1) n named p by (auto simp: phase_ok_def split: net_request.splits)
qed

lemma decide_ok:
  assumes "phase_ok c" and "call_phase c = Decides" and "decide_turn own resolve c = Proceeds n p"
  shows "phase_ok (c\<lparr>call_name := n, call_phase := p\<rparr>)"
proof -
  have named: "named c" using assms(1,2) by (simp add: phase_ok_def)
  show ?thesis
  proof (cases "call_request c")
    case (Connect host pt)
    obtain checked where d: "n = []" "p = Decided (Literals checked)"
      and ok: "checkConnect (granted_to c) (VString host) pt (if call_routed c then no_resolver else resolve) None =
        Inr (ConnectAllowed checked)"
      using assms(3) Connect
      by (auto simp: decide_turn_def Let_def split: sum.splits connect_decision.splits if_splits)
    have "sound (c\<lparr>call_name := n\<rparr>) (Literals checked)"
      using named Connect checked_allows [OF ok [unfolded granted_to_def]]
      by (simp add: sound_def covered_by_def named_def dial_ok_def)
    then show ?thesis using Connect d by (simp add: phase_ok_def)
  next
    case (ConnectSecure h pt options)
    let ?ps = "patterns (call_grant c)"
    have h: "checkConnectSecure (VArray (map VString ?ps)) (VString h) pt = SecureAllowed (call_name c)"
      using named ConnectSecure by (simp add: named_def granted_to_def)
    have n: "n = call_name c"
      using assms(3) ConnectSecure by (auto simp: decide_turn_def Let_def split: sum.splits if_splits)
    have "\<exists>target. p = Decided target \<and> (\<forall>d. dial_ok c target d \<longrightarrow>
        address_unchecked c options \<or> connect_allows ?ps (call_name c) (remoteAddress d) pt)"
    proof (cases "via_route c")
      case True
      then obtain checked where p: "p = Decided (SecureRoute (call_name c))"
        and ok: "checkConnect (VArray (map VString ?ps)) (VString (call_name c)) pt resolve None = Inr (ConnectAllowed checked)"
        using assms(3) ConnectSecure
        by (auto simp: decide_turn_def addressChecked_def granted_to_def Let_def
            split: sum.splits connect_decision.splits)
      have "connect_allows ?ps (call_name c) (call_name c) pt" if "\<not> address_unchecked c options"
      proof (rule literal_allows [OF ok])
        obtain i where i: "pt = IntNum i" using checked_int [OF ok] .
        show "canonical_request h = Some (call_name c)" using h unfolding i secure_allowed_host by blast
        show "classifyAddress (call_name c) \<noteq> Unparseable"
          using that True by (auto simp: address_unchecked_def isLiteralHost_def)
      qed
      then show ?thesis using p by (auto simp: dial_ok_def)
    next
      case False
      show ?thesis
      proof (cases "bindsGrantedName (call_name c) options \<and> \<not> call_routed c")
        case True
        then have "\<exists>target. p = Decided target"
          using assms(3) ConnectSecure False by (auto simp: decide_turn_def Let_def split: sum.splits)
        then show ?thesis using True by (auto simp: address_unchecked_def)
      next
        case u: False
        then obtain checked where p: "p = Decided (SecureTo (call_name c) (Some (map VString checked)))"
          and ok: "checkConnect (VArray (map VString ?ps)) (VString (call_name c)) pt
            (if call_routed c then no_resolver else resolve) None = Inr (ConnectAllowed checked)"
          using assms(3) ConnectSecure False
          by (auto simp: decide_turn_def addressChecked_def granted_to_def Let_def
              split: sum.splits connect_decision.splits if_splits)
        then show ?thesis using checked_allows [OF ok] ConnectSecure by (auto simp: dial_ok_def)
      qed
    qed
    then obtain target where p: "p = Decided target" and t: "\<forall>d. dial_ok c target d \<longrightarrow>
        address_unchecked c options \<or> connect_allows ?ps (call_name c) (remoteAddress d) pt" by blast
    have "sound c target" by (rule sound_secure [OF ConnectSecure named]) (use t in blast)
    then show ?thesis using ConnectSecure n p by (simp add: phase_ok_def)
  next
    case (BindPort fam sc pt)
    have b: "checkBind (granted_to c) pt = BindAllowed (call_ranges c)"
      using assms(1) BindPort unfolding phase_ok_def by blast
    have "sound (c\<lparr>call_name := n\<rparr>) (BindIn (call_ranges c))"
      using BindPort bound_allows [OF b [unfolded granted_to_def]] by (simp add: sound_def covered_by_def dial_ok_def)
    then show ?thesis using assms(3) BindPort b by (auto simp: decide_turn_def Let_def phase_ok_def)
  qed
qed

lemma turn_ok:
  assumes "phase_ok c" and "next_turn own proxied resolve n allowance c = Some tn"
  shows "phase_ok (after_turn tn c)"
proof (cases tn)
  case (Fails e)
  then show ?thesis using assms(1) by (simp add: after_turn_def phase_ok_def)
next
  case (Proceeds m p)
  then have a: "after_turn tn c = c\<lparr>call_name := m, call_phase := p\<rparr>" by (simp add: after_turn_def)
  show ?thesis
  proof (cases "call_phase c")
    case Starts
    then show ?thesis using assms start_ok Proceeds unfolding a by (simp add: next_turn_def)
  next
    case (AsksProxy u)
    then show ?thesis using assms proxy_ok Proceeds unfolding a by (simp add: next_turn_def)
  next
    case Decides
    then show ?thesis using assms decide_ok Proceeds unfolding a by (simp add: next_turn_def)
  next
    case (Decided t)
    then have "m = call_name c" "p = Dials t"
      using assms(2) Proceeds by (auto simp: next_turn_def dial_turn_def split: if_splits)
    then show ?thesis using assms(1) Decided unfolding a by (auto simp: phase_ok_def)
  qed (use assms(2) in \<open>simp_all add: next_turn_def\<close>)
qed

end
