(* ===== verification/NetTables.thy ===== *)
theory NetTables imports NetCovered HandleSteps begin

section \<open>What a call of the handle table leaves as it was\<close>

text \<open>
  The invariant of NetRuns reads four things of an origin's table: who authorises each handle and
  which patterns cover it, the operations filed under each grant, the grants it remembers as revoked
  and the aliases of replaced grants. Here each operation of the handle table is classified by what
  it does to them: most keep all four, except that handles may go and a derived one may come.
\<close>

definition carried :: "nat set \<Rightarrow> origin_table \<Rightarrow> origin_table \<Rightarrow> bool" where
  "carried X t t' \<longleftrightarrow>
     (\<forall>i r'. map_of (handles t') i = Some r' \<longrightarrow> stillCovered r' = None \<or>
        (\<exists>r. map_of (handles t) i = Some r \<and> authorisation r' = authorisation r \<and>
             stillCovered r' = stillCovered r \<and> entry r' = entry r)) \<and>
     grantAliases t' = grantAliases t \<and> revokedGrants t' = revokedGrants t \<and>
     (\<forall>g op. op \<in> set (filed (grantOperations t) g) \<longrightarrow> op \<in> X \<or> op \<in> set (filed (grantOperations t') g))"

definition blank :: "origin_table \<Rightarrow> bool" where
  "blank t \<longleftrightarrow> (\<forall>i r. map_of (handles t) i = Some r \<longrightarrow> stillCovered r = None) \<and> grantAliases t = [] \<and>
     revokedGrants t = []"

definition carries :: "nat set \<Rightarrow> handle_table \<Rightarrow> handle_table \<Rightarrow> bool" where
  "carries X T T' \<longleftrightarrow>
     (\<forall>k s t'. map_of (tables T') k = Some (s, t') \<longrightarrow>
        blank t' \<or> (\<exists>t. map_of (tables T) k = Some (s, t) \<and> carried X t t')) \<and>
     (\<forall>k s t g op. map_of (tables T) k = Some (s, t) \<longrightarrow> op \<in> set (filed (grantOperations t) g) \<longrightarrow>
        op \<in> X \<or> (\<exists>t'. map_of (tables T') k = Some (s, t') \<and> carried X t t'))"

lemma carried_refl [simp]: "carried X t t"
  by (auto simp: carried_def)

lemma carried_trans:
  assumes "carried X t t1" and "carried Y t1 t2"
  shows "carried (X \<union> Y) t t2"
  unfolding carried_def
proof (intro conjI allI impI)
  fix i r2 assume r2: "map_of (handles t2) i = Some r2"
  show "stillCovered r2 = None \<or> (\<exists>r. map_of (handles t) i = Some r \<and> authorisation r2 = authorisation r \<and>
      stillCovered r2 = stillCovered r \<and> entry r2 = entry r)"
    using assms r2 unfolding carried_def by metis
next
  show "grantAliases t2 = grantAliases t" "revokedGrants t2 = revokedGrants t" using assms by (simp_all add: carried_def)
  show "op \<in> X \<union> Y \<or> op \<in> set (filed (grantOperations t2) g)" if "op \<in> set (filed (grantOperations t) g)" for g op
    using assms that unfolding carried_def by blast
qed

lemma carried_blank: "blank t \<Longrightarrow> carried X t t' \<Longrightarrow> blank t'"
  unfolding carried_def blank_def by metis

lemma carries_refl [simp]: "carries X T T"
  by (auto simp: carries_def)

lemma carries_table:
  assumes "carries X T T'" and "map_of (tables T) k = Some (s, t)" and "op \<in> set (filed (grantOperations t) g)"
    and "op \<notin> X"
  obtains t' where "map_of (tables T') k = Some (s, t')" and "carried X t t'" and "op \<in> set (filed (grantOperations t') g)"
proof -
  obtain t' where t': "map_of (tables T') k = Some (s, t')" "carried X t t'"
    using assms unfolding carries_def by blast
  then have "op \<in> set (filed (grantOperations t') g)" using assms(3,4) unfolding carried_def by blast
  then show thesis using that t' by blast
qed

lemma carries_trans:
  assumes "carries X T T1" and "carries Y T1 T2"
  shows "carries (X \<union> Y) T T2"
  unfolding carries_def
proof (intro conjI allI impI)
  fix k s t2 assume t2: "map_of (tables T2) k = Some (s, t2)"
  show "blank t2 \<or> (\<exists>t. map_of (tables T) k = Some (s, t) \<and> carried (X \<union> Y) t t2)"
  proof (cases "blank t2")
    case False
    then obtain t1 where t1: "map_of (tables T1) k = Some (s, t1)" "carried Y t1 t2"
      using assms(2) t2 unfolding carries_def by blast
    then have "\<not> blank t1" using False carried_blank by blast
    then obtain t where "map_of (tables T) k = Some (s, t)" "carried X t t1"
      using assms(1) t1(1) unfolding carries_def by blast
    then show ?thesis using t1(2) carried_trans by blast
  qed simp
next
  fix k s t g op
  assume t: "map_of (tables T) k = Some (s, t)" "op \<in> set (filed (grantOperations t) g)"
  show "op \<in> X \<union> Y \<or> (\<exists>t'. map_of (tables T2) k = Some (s, t') \<and> carried (X \<union> Y) t t')"
  proof (cases "op \<in> X \<union> Y")
    case False
    then obtain t1 where t1: "map_of (tables T1) k = Some (s, t1)" "carried X t t1"
      and op: "op \<in> set (filed (grantOperations t1) g)"
      using carries_table [OF assms(1) t] by blast
    then obtain t2 where "map_of (tables T2) k = Some (s, t2)" "carried Y t1 t2"
      using carries_table [OF assms(2) t1(1) op] False by blast
    then show ?thesis using carried_trans t1(2) by blast
  qed simp
qed

lemma carries_mono: "carries X T T' \<Longrightarrow> X \<subseteq> Y \<Longrightarrow> carries Y T T'"
  using carries_trans [of X T T' Y T'] by (simp add: Un_absorb1)

subsection \<open>Writing a table back\<close>

lemma carries_put:
  assumes "map_of (tables T) k = Some (s, t)" and "carried X t t'"
  shows "carries X T (put_table k s t' T)"
  using assms unfolding carries_def
  by (auto simp: put_table_def update_conv' simp del: map_of_eq_Some_iff split: if_splits)

lemma reap_put: "reap k s t' T =
    (if dropping t' \<or> \<not> holds_nothing t' then put_table k s t' T else deleteIfCurrent k s (put_table k s t' T))"
  by (simp add: reap_def put_table_def Let_def)

lemma deleteIfCurrent_put: "tables (deleteIfCurrent k s (put_table k s t' T)) = AList.delete k (AList.update k (s, t') (tables T))"
  by (simp add: deleteIfCurrent_def put_table_def update_conv')

lemma carries_reap:
  assumes k: "map_of (tables T) k = Some (s, t)" and c: "carried X t t'"
  shows "carries X T (reap k s t' T)"
proof (cases "dropping t' \<or> \<not> holds_nothing t'")
  case True
  then show ?thesis using carries_put [OF assms] by (simp add: reap_put)
next
  case False
  then have "filed (grantOperations t') g = []" for g by (simp add: holds_nothing_def filed_def)
  then have none: "op \<in> X" if "op \<in> set (filed (grantOperations t) g)" for g op
    using c that unfolding carried_def by fastforce
  have "map_of (tables (reap k s t' T)) = (map_of (tables T))(k := None)"
    using False by (simp add: reap_put deleteIfCurrent_put delete_conv' update_conv' fun_eq_iff)
  then show ?thesis
    using none k unfolding carries_def by (auto simp del: map_of_eq_Some_iff split: if_splits)
qed

lemma carries_getOrCreate:
  assumes "getOrCreate T k = (T1, s, t)"
  shows "carries {} T T1" and "map_of (tables T1) k = Some (s, t)"
    and "map_of (tables T) k = Some (s, t) \<or> map_of (tables T) k = None \<and> t = new_table"
proof -
  have b: "blank new_table" by (simp add: blank_def new_table_def)
  have "carries {} T T1 \<and> map_of (tables T1) k = Some (s, t) \<and>
      (map_of (tables T) k = Some (s, t) \<or> map_of (tables T) k = None \<and> t = new_table)"
    using assms b by (auto simp: getOrCreate_def carries_def update_conv' simp del: map_of_eq_Some_iff
        split: option.splits prod.splits if_splits)
  then show "carries {} T T1" "map_of (tables T1) k = Some (s, t)"
    "map_of (tables T) k = Some (s, t) \<or> map_of (tables T) k = None \<and> t = new_table" by blast+
qed

lemma carries_drawn [simp]: "carries X T (T'\<lparr>drawn := n\<rparr>) = carries X T T'"
  by (simp add: carries_def)

subsection \<open>The operations that keep all four\<close>

lemma carried_closeTree:
  assumes "table_ok t" and "map_of (handles t) i = Some r" and "closeTree cb r reason f t = (t', es)"
  shows "carried {} t t'"
  using closeTree_handles(1,3) [OF assms] by (auto simp: carried_def split: if_splits)

lemma carried_close_each:
  assumes "close_each cb reason ids t = (t', es)" and "table_ok t"
  shows "carried {} t t'"
  using close_each_effect(2,3) [OF assms] by (auto simp: carried_def closed_all_def split: if_splits)

lemma carried_modify:
  assumes "map_of (handles t) i = Some r" and "authorisation r' = authorisation r" "stillCovered r' = stillCovered r"
    "entry r' = entry r"
  shows "carried {} t (t\<lparr>handles := AList.update i r' (handles t)\<rparr>)"
  using assms by (auto simp: carried_def update_conv' simp del: map_of_eq_Some_iff)

lemma carried_add: "carried {} t (add_operation scope op t)"
proof (cases scope)
  case (OnHandle i)
  then show ?thesis using carried_modify by (auto simp: add_operation_def split: option.split)
next
  case (OnGrant g)
  then show ?thesis by (auto simp: add_operation_def carried_def filed_file_under)
qed

lemma carried_remove: "carried {op} t (remove_operation scope op t)"
proof (cases scope)
  case (OnHandle i)
  then show ?thesis
    using carried_modify carried_trans [of "{}" t _ "{op}", OF _ carried_refl]
    by (auto simp: remove_operation_def split: option.split)
next
  case (OnGrant g)
  then show ?thesis by (auto simp: remove_operation_def carried_def filed_unfile)
qed

lemma carried_slots:
  "tryTakeSlot t = (t', b) \<Longrightarrow> carried {} t t'" "waitForSlot op t = Inr t' \<Longrightarrow> carried {} t t'"
  "releaseSlot t = (t', a) \<Longrightarrow> carried {} t t'" "carried {} t (unqueue op t)"
  by (auto simp: carried_def tryTakeSlot_def waitForSlot_def releaseSlot_def unqueue_def split: if_splits list.splits)

lemma carries_begin:
  assumes "run_begin env origin scope op abandoned T = (T', es, Inr (k, s, st))"
  shows "carries {} T T'" and "scope = OnGrant g \<Longrightarrow> \<exists>t. map_of (tables T') k = Some (s, t) \<and>
      op \<in> set (filed (grantOperations t) g) \<and> g \<notin> set (revokedGrants t)"
    and "registry_key env origin = Inr k" and "es = []"
proof -
  obtain T1 t t1 t2 where k: "registry_key env origin = Inr k" "es = []"
    and w: "(T1 = T \<and> map_of (tables T) k = Some (s, t)) \<or> getOrCreate T k = (T1, s, t)"
    and g: "\<And>g. scope = OnGrant g \<Longrightarrow> \<not> dropping t \<and> g \<notin> set (revokedGrants t)"
    and t1: "t1 = add_operation scope op t" and T': "T' = put_table k s t2 T1"
    and slot: "(st = Running \<and> tryTakeSlot t1 = (t2, True)) \<or>
      (st = Queued \<and> tryTakeSlot t1 = (t1, False) \<and> waitForSlot op t1 = Inr t2)"
    by (rule run_begin_table [OF assms]) blast
  have T1: "carries {} T T1" "map_of (tables T1) k = Some (s, t)"
    using w carries_getOrCreate by auto
  have t2: "carried {} t1 t2" using slot carried_slots(1,2) by blast
  then have "carried {} t t2" using carried_trans [OF carried_add [of t scope op] t2 [unfolded t1]] by simp
  then show "carries {} T T'"
    using carries_trans [OF T1(1) carries_put [OF T1(2)], of "{}" t2] by (simp add: T')
  show "registry_key env origin = Inr k" "es = []" by (rule k)+
  assume sc: "scope = OnGrant g"
  have "op \<in> set (filed (grantOperations t1) g)" by (simp add: t1 sc add_operation_def filed_file_under)
  then have "op \<in> set (filed (grantOperations t2) g)" using t2 by (simp add: carried_def)
  moreover have "revokedGrants t2 = revokedGrants t" using t2 by (simp add: carried_def t1)
  ultimately show "\<exists>t. map_of (tables T') k = Some (s, t) \<and>
      op \<in> set (filed (grantOperations t) g) \<and> g \<notin> set (revokedGrants t)"
    using g [OF sc] by (simp add: T' put_table_def update_conv')
qed

lemma carries_created: "T' = T \<or> (\<exists>k s t. getOrCreate T k = (T', s, t)) \<Longrightarrow> carries {} T T'"
  using carries_getOrCreate(1) by auto

lemmas carries_refused = carries_created [OF run_begin_refused]

lemma carries_end:
  assumes "run_end k s scope op T = (T', a)"
  shows "carries {op} T T'"
proof (cases "\<exists>t. map_of (tables T) k = Some (s, t)")
  case True
  then obtain t where k: "map_of (tables T) k = Some (s, t)" by blast
  obtain t2 where t2: "T' = reap k s (remove_operation scope op t2) T" "carried {} t t2"
  proof (cases "op \<in> set (slotWaiters t)")
    case True
    then show thesis using that [of "unqueue op t"] assms k carried_slots(4) by (simp add: run_end_def)
  next
    case False
    obtain t2 b where r: "releaseSlot t = (t2, b)" by fastforce
    then show thesis using that [of t2] assms k False carried_slots(3) by (simp add: run_end_def)
  qed
  have "carried {op} t (remove_operation scope op t2)"
    using carried_trans [OF t2(2) carried_remove] by simp
  then show ?thesis unfolding t2(1) by (rule carries_reap [OF k])
next
  case False
  then have "T' = T" using assms by (auto simp: run_end_def split: option.splits)
  then show ?thesis by simp
qed

lemma carries_release:
  assumes ok: "registry_ok T ts" and r: "release_handle env origin i T = (T', es, res)"
  shows "carries {} T T'"
proof (cases "\<exists>k s t h. registry_key env origin = Inr k \<and> map_of (tables T) k = Some (s, t) \<and> map_of (handles t) i = Some h")
  case True
  then obtain k s t h where k: "registry_key env origin = Inr k" "map_of (tables T) k = Some (s, t)"
    and h: "map_of (handles t) i = Some h" by blast
  obtain t' e1 where c: "closeTree (t_callbacks env) h Closed None t = (t', e1)" by fastforce
  have "T' = reap k s t' T" using r k h c by (simp add: release_handle_def existing_table_def)
  then show ?thesis
    using carries_reap [OF k(2) carried_closeTree [OF good_ok [OF existing_ok(1) [OF ok k(2)]] h c]] by simp
next
  case False
  then have "T' = T" using r by (auto simp: release_handle_def existing_table_def simp del: map_of_eq_Some_iff
      split: option.splits sum.splits)
  then show ?thesis by simp
qed

lemma carries_closeWithError:
  assumes ok: "registry_ok T ts" and r: "closeWithError env origin i reason e T = (T', es, res)"
  shows "carries {} T T'"
proof (cases "\<exists>k s t h. registry_key env origin = Inr k \<and> map_of (tables T) k = Some (s, t) \<and> map_of (handles t) i = Some h")
  case True
  then obtain k s t h where k: "registry_key env origin = Inr k" "map_of (tables T) k = Some (s, t)"
    and h: "map_of (handles t) i = Some h" by blast
  obtain t' e1 where c: "closeTree (t_callbacks env) h reason (Some e) t = (t', e1)" by fastforce
  have "record_in t i = Inr h" using h by (simp add: record_in_Inr)
  then have "T' = reap k s t' T" using r k c by (simp add: closeWithError_def existing_table_def)
  then show ?thesis
    using carries_reap [OF k(2) carried_closeTree [OF good_ok [OF existing_ok(1) [OF ok k(2)]] h c]] by simp
next
  case False
  then have "T' = T" using r record_in_Inr by (auto simp: closeWithError_def existing_table_def
      simp del: map_of_eq_Some_iff split: option.splits sum.splits)
  then show ?thesis by simp
qed

lemma carries_onUnlink:
  assumes r: "onUnlink env origin i listener T = (T', es, res)"
  shows "carries {} T T'"
proof (cases "\<exists>k s t h. registry_key env origin = Inr k \<and> map_of (tables T) k = Some (s, t) \<and> map_of (handles t) i = Some h")
  case True
  then obtain k s t h where k: "registry_key env origin = Inr k" "map_of (tables T) k = Some (s, t)"
    and h: "map_of (handles t) i = Some h" by blast
  have "T' = put_table k s (t\<lparr>handles := AList.update i (h\<lparr>unlink := Some listener\<rparr>) (handles t)\<rparr>) T"
    using r k h by (simp add: onUnlink_def existing_table_def)
  then show ?thesis using carries_put [OF k(2) carried_modify [OF h]] by simp
next
  case False
  then have "T' = T" using r by (auto simp: onUnlink_def existing_table_def simp del: map_of_eq_Some_iff
      split: option.splits sum.splits)
  then show ?thesis by simp
qed

lemma carries_picked:
  assumes ok: "registry_ok T ts" and r: "revokeUserSelected env origin p T = (T', es, res)"
  shows "carries {} T T'"
proof (cases "\<exists>k s t. registry_key env origin = Inr k \<and> map_of (tables T) k = Some (s, t)")
  case True
  then obtain k s t where k: "registry_key env origin = Inr k" "map_of (tables T) k = Some (s, t)" by blast
  obtain t' e1 where v: "close_each (t_callbacks env) Revoked
      (case map_of (byPickedPath t) p of None \<Rightarrow> [] | Some ids \<Rightarrow> ids) t = (t', e1)" by fastforce
  have "T' = reap k s t' T" using r k v by (simp add: revokeUserSelected_def existing_table_def)
  then show ?thesis
    using carries_reap [OF k(2) carried_close_each [OF v good_ok [OF existing_ok(1) [OF ok k(2)]]]] by simp
next
  case False
  then have "T' = T" using r by (auto simp: revokeUserSelected_def existing_table_def simp del: map_of_eq_Some_iff
      split: option.splits sum.splits)
  then show ?thesis by simp
qed

lemma carries_derived:
  assumes ok: "registry_ok T ts" and "acquireDerived env req T = Some (T', es, res)"
  shows "carries {} T T'"
  using acquireDerived_cases [OF assms(2)]
proof (elim disjE conjE exE)
  fix e assume "derived_in env req T T' e"
  then obtain k s t T1 parent i n t0 t' where g: "getOrCreate T k = (T1, s, t)"
    and p: "record_in t (der_parent req) = Inr parent"
    and f: "fresh_id (t_draw env) (used_ids t) (drawn T1) = Some (i, n)"
    and ins: "insert_handle i k (der_kind req) (authorisation parent) (Some (entry_id (entry parent))) None t = (t0, e)"
    and t': "t' = t0\<lparr>handles := add_child (entry_id (entry parent)) i (handles t0)\<rparr>"
    and T': "T' = (put_table k s t' T1)\<lparr>drawn := n\<rparr>"
    unfolding derived_in_def by blast
  note one = registry_ok_getOrCreate [OF ok g] and c = carries_getOrCreate [OF g]
  note fd = insert_handle_fields [OF ins]
  have "carried {} t t'"
    unfolding carried_def
  proof (intro conjI allI impI)
    fix j r' assume r': "map_of (handles t') j = Some r'"
    have "map_of (handles t) (der_parent req) = Some parent" using p by (simp add: record_in_Inr)
    then have "map_of (handles t) (entry_id (entry parent)) = Some parent"
      using registry_okD(3) [OF one] by (auto simp: good_table_def table_ok_def keyed_def)
    then have new: "i \<noteq> entry_id (entry parent)"
      using fresh_id_Some [OF f] by (force simp: used_ids_def dest: map_of_SomeD)
    consider "j = i" | "j \<noteq> i" "map_of (handles t) j = Some r'"
      | r where "j \<noteq> i" "map_of (handles t) j = Some r" "r' = r\<lparr>children := add_to i (children r)\<rparr>"
    proof (cases "j = i")
      case False
      show thesis
      proof (cases "j = entry_id (entry parent)")
        case True
        obtain r where "map_of (handles t) j = Some r" "r' = r\<lparr>children := add_to i (children r)\<rparr>"
          using r' False True by (auto simp: t' add_child_map fd(5) simp del: map_of_eq_Some_iff)
        then show thesis using that(3) False by blast
      next
        case other: False
        have "map_of (handles t) j = Some r'"
          using r' False other by (simp add: t' add_child_map fd(5) del: map_of_eq_Some_iff)
        then show thesis using that(2) False by blast
      qed
    qed (rule that(1))
    then show "stillCovered r' = None \<or> (\<exists>r. map_of (handles t) j = Some r \<and> authorisation r' = authorisation r \<and>
        stillCovered r' = stillCovered r \<and> entry r' = entry r)"
    proof cases
      case 1
      then show ?thesis using r' new by (auto simp: t' add_child_map fd(5) simp del: map_of_eq_Some_iff)
    qed simp_all
  qed (simp_all add: t' fd)
  then show ?thesis
    using carries_trans [OF c(1) carries_put [OF c(2)], of "{}" t'] by (simp add: T')
qed (use carries_created in blast)+

section \<open>What a revocation does to them\<close>

lemma remember_facts:
  assumes "0 < b"
  shows "set (remember m x b) \<subseteq> insert x (set m)" and "length m \<le> length (remember m x b)"
    and "length (remember m x b) < b \<Longrightarrow> insert x (set m) \<subseteq> set (remember m x b)"
  using assms by (auto simp: remember_def makeRoom_def dest: in_set_dropD split: if_splits)

lemma memory_positive: "0 < REVOKED_GRANT_MEMORY"
  by (simp add: REVOKED_GRANT_MEMORY_def LIMIT_concurrentFileHandles_def)

lemmas tombstone_facts = remember_facts [OF memory_positive]

definition forgets_only :: "str set \<Rightarrow> origin_table \<Rightarrow> origin_table \<Rightarrow> bool" where
  "forgets_only G t t' \<longleftrightarrow>
     (\<forall>a. a \<notin> G \<longrightarrow> map_of (grantAliases t') a = map_of (grantAliases t) a) \<and>
     (\<forall>a. map_of (grantAliases t') a \<noteq> None \<longrightarrow> map_of (grantAliases t) a \<noteq> None) \<and>
     set (revokedGrants t') \<subseteq> set (revokedGrants t) \<union> G \<and>
     length (revokedGrants t) \<le> length (revokedGrants t') \<and>
     (length (revokedGrants t') < REVOKED_GRANT_MEMORY \<longrightarrow> set (revokedGrants t) \<subseteq> set (revokedGrants t'))"

lemma forgets_only_trans: "forgets_only G t t1 \<Longrightarrow> forgets_only G t1 t2 \<Longrightarrow> forgets_only G t t2"
  unfolding forgets_only_def by (intro conjI allI impI) (blast | force | linarith)+

lemma forgets_only_mono: "forgets_only G t t' \<Longrightarrow> G \<subseteq> H \<Longrightarrow> forgets_only H t t'"
  unfolding forgets_only_def by blast

lemma forgets_tombstone: "forgets_only {g} t (tombstone g t)"
  using tombstone_facts [of "revokedGrants t" g] by (auto simp: forgets_only_def tombstone_def)

lemma forgets_alias: "forgets_only {a} t (drop_alias a t)"
  by (auto simp: forgets_only_def drop_alias_def delete_conv')

lemma forgets_finish: "finish_revoke cb g t = (t', es) \<Longrightarrow> table_ok t \<Longrightarrow> forgets_only {} t t'"
  using finish_revoke_effect(3) finish_revoke_aliases by (simp add: forgets_only_def)

lemma withdrawn_head: "g \<in> withdrawn t (Enter g # ts)" "withdrawn t ts \<subseteq> withdrawn t (u # ts)"
  by (cases u; auto simp: withdrawn_def alias_closure_def)+

lemma revoke_tasks_forgets:
  "revoke_tasks cb tasks t = (t', es) \<Longrightarrow> table_ok t \<Longrightarrow> forgets_only (withdrawn t tasks) t t'"
proof (induction cb tasks t arbitrary: t' es rule: revoke_tasks.induct)
  case (1 cb t)
  then show ?case by (simp add: forgets_only_def)
next
  case (2 cb g tasks t)
  let ?G = "withdrawn t (Enter g # tasks)"
  have ok: "table_ok (tombstone g t)" by (rule table_ok_tombstone [OF "2.prems"(2)])
  have g: "g \<in> ?G" by (rule withdrawn_head)
  have first: "forgets_only ?G t (tombstone g t)" using forgets_only_mono [OF forgets_tombstone] g by blast
  show ?case
  proof (cases "aliasesOf t g")
    case Nil
    then have "forgets_only (withdrawn (tombstone g t) (Finish g # tasks)) (tombstone g t) t'"
      using "2.IH"(1) [OF refl _ _ ok] "2.prems"(1) by (simp add: Let_def)
    then show ?thesis using forgets_only_trans [OF first] withdrawn_leaf [OF Nil] by simp
  next
    case (Cons a rest)
    have w: "withdrawn (drop_alias a (tombstone g t)) ts = withdrawn (drop_alias a t) ts" for ts
      by (simp add: withdrawn_def drop_alias_def tombstone_def)
    then have "revoke_tasks cb (Enter a # map Alias rest @ Finish g # tasks) (drop_alias a (tombstone g t)) = (t', es)"
      using "2.prems"(1) Cons
      by (subst (asm) revoke_tasks.simps(2)) (simp add: Let_def del: revoke_tasks.simps(2))
    then have "forgets_only (withdrawn (drop_alias a (tombstone g t)) (Enter a # map Alias rest @ Finish g # tasks))
        (drop_alias a (tombstone g t)) t'"
      using "2.IH"(2) [OF refl _ _ table_ok_drop_alias [OF ok]] Cons
      by (simp add: del: revoke_tasks.simps(2))
    then have rest: "forgets_only ?G (drop_alias a (tombstone g t)) t'"
      using withdrawn_enter [OF Cons] w by simp
    have "a \<in> ?G" using withdrawn_enter [OF Cons] withdrawn_head(1) [of a "drop_alias a t"] by metis
    then have "forgets_only ?G (tombstone g t) (drop_alias a (tombstone g t))"
      using forgets_only_mono [OF forgets_alias] by blast
    then show ?thesis using forgets_only_trans first rest by blast
  qed
next
  case (3 cb a tasks t)
  let ?G = "withdrawn t (Alias a # tasks)"
  have "forgets_only ?G (drop_alias a t) t'"
    using "3.IH" [OF _ table_ok_drop_alias [OF "3.prems"(2)]] "3.prems"(1) withdrawn_alias [of t a tasks] by simp
  moreover have "a \<in> ?G" unfolding withdrawn_alias by (rule withdrawn_head)
  then have "forgets_only ?G t (drop_alias a t)" using forgets_only_mono [OF forgets_alias] by blast
  ultimately show ?case using forgets_only_trans by blast
next
  case (4 cb g tasks t)
  obtain t1 e1 where f: "finish_revoke cb g t = (t1, e1)" by fastforce
  obtain e2 where r: "revoke_tasks cb tasks t1 = (t', e2)" using "4.prems"(1) f by (auto split: prod.splits)
  note e = finish_revoke_effect [OF f "4.prems"(2)]
  have "withdrawn t1 tasks = withdrawn t tasks" by (simp add: withdrawn_def finish_revoke_aliases [OF f])
  then have "forgets_only (withdrawn t tasks) t1 t'" using "4.IH" [OF f [symmetric] r e(1)] by simp
  then show ?case
    using forgets_only_trans forgets_only_mono [OF forgets_finish [OF f "4.prems"(2)]] forgets_only_mono
      withdrawn_head(2) by (metis empty_subsetI)
qed

end
