(* ===== verification/NetKeys.thy ===== *)
theory NetKeys imports NetTables begin

section \<open>One origin: its live grants, its table and its calls\<close>

text \<open>
  The invariant that keeps the two halves of the broker in step, for one origin. Of the ledger it
  reads the ids minted so far (\<open>U\<close>) and the live grant of each kind (\<open>G\<close>), of the cascades still to
  run the ids queued for this origin (\<open>q\<close>), and of the handle table the origin's table \<open>t\<close>.
\<close>

definition live :: "(str \<Rightarrow> grant option) \<Rightarrow> str \<Rightarrow> bool" where
  "live G g \<longleftrightarrow> (\<exists>kind gr. G kind = Some gr \<and> grant_id gr = g)"

definition one_slot :: "str set \<Rightarrow> (str \<Rightarrow> grant option) \<Rightarrow> bool" where
  "one_slot U G \<longleftrightarrow>
     (\<forall>kind gr. G kind = Some gr \<longrightarrow> grant_id gr \<in> U \<and> capability gr = kind) \<and>
     (\<forall>kind kind' gr gr'. G kind = Some gr \<longrightarrow> G kind' = Some gr' \<longrightarrow> grant_id gr = grant_id gr' \<longrightarrow> kind = kind')"

text \<open>The grant a call was made under, or the one it answers to now: queued to be revoked, or live with
  patterns of which \<open>P\<close> holds.\<close>

definition backs :: "(str \<Rightarrow> grant option) \<Rightarrow> str set \<Rightarrow> net_call \<Rightarrow> str \<Rightarrow> (str list \<Rightarrow> bool) \<Rightarrow> bool" where
  "backs G q c g P \<longleftrightarrow>
     g \<in> q \<or> (\<exists>gr. G (capability (call_grant c)) = Some gr \<and> grant_id gr = g \<and> P (patterns gr))"

definition handle_inv :: "str set \<Rightarrow> (str \<Rightarrow> grant option) \<Rightarrow> str set \<Rightarrow> handle_record \<Rightarrow> bool" where
  "handle_inv U G q r \<longleftrightarrow>
     (\<forall>f. stillCovered r = Some f \<longrightarrow> parentId (entry r) = None \<and>
        (\<exists>g c d. authorisation r = ByGrant g \<and> g \<in> U \<and> f = covered_by c d \<and>
           backs G q c g (covered_by c d)))"

definition table_inv :: "str set \<Rightarrow> (str \<Rightarrow> grant option) \<Rightarrow> str set \<Rightarrow> origin_table \<Rightarrow> bool" where
  "table_inv U G q t \<longleftrightarrow>
     (\<forall>i r. map_of (handles t) i = Some r \<longrightarrow> handle_inv U G q r) \<and>
     (\<forall>a. map_of (grantAliases t) a \<noteq> None \<longrightarrow> a \<in> U \<and> \<not> live G a) \<and>
     (\<forall>g\<in>set (revokedGrants t). g \<in> U \<and> \<not> live G g)"

definition call_inv :: "str set \<Rightarrow> (str \<Rightarrow> grant option) \<Rightarrow> str set \<Rightarrow> origin_table \<Rightarrow> net_call \<Rightarrow> bool" where
  "call_inv U G q t c \<longleftrightarrow>
     (let g = currentGrantFor t (grant_id (call_grant c)) in
      g \<in> U \<and> (g \<in> set (revokedGrants t) \<or>
        backs G q c g (\<lambda>ps. widened (capability (call_grant c)) (patterns (call_grant c)) ps)))"

lemma handle_invE:
  assumes "handle_inv U G q r" and "stillCovered r = Some f"
  obtains g c d where "parentId (entry r) = None" "authorisation r = ByGrant g" "g \<in> U" "f = covered_by c d"
    "backs G q c g (covered_by c d)"
proof -
  have "parentId (entry r) = None \<and> (\<exists>g c d. authorisation r = ByGrant g \<and> g \<in> U \<and> f = covered_by c d \<and>
      backs G q c g (covered_by c d))"
    using assms by (simp add: handle_inv_def)
  then show thesis by (elim conjE exE) (rule that)
qed

lemma handle_invI:
  assumes "stillCovered r \<noteq> None \<Longrightarrow> parentId (entry r) = None" "stillCovered r \<noteq> None \<Longrightarrow> authorisation r = ByGrant g"
    "stillCovered r \<noteq> None \<Longrightarrow> g \<in> U" "stillCovered r \<noteq> None \<Longrightarrow> stillCovered r = Some (covered_by c d)"
    "stillCovered r \<noteq> None \<Longrightarrow> backs G q c g (covered_by c d)"
  shows "handle_inv U G q r"
  unfolding handle_inv_def
proof (intro allI impI conjI)
  fix f assume f: "stillCovered r = Some f"
  then show "parentId (entry r) = None" using assms(1) by simp
  have "authorisation r = ByGrant g \<and> g \<in> U \<and> f = covered_by c d \<and>
      backs G q c g (covered_by c d)" using assms f by simp
  then show "\<exists>g c d. authorisation r = ByGrant g \<and> g \<in> U \<and> f = covered_by c d \<and>
      backs G q c g (covered_by c d)" by (intro exI)
qed

lemma handle_inv_move:
  assumes "handle_inv U G q r" and "authorisation r' = authorisation r" "stillCovered r' = stillCovered r"
    "entry r' = entry r" and "U \<subseteq> U'"
    and "\<And>c g P. authorisation r = ByGrant g \<Longrightarrow> backs G q c g P \<Longrightarrow> backs G' q' c g P"
  shows "handle_inv U' G' q' r'"
proof (cases "stillCovered r")
  case None
  then show ?thesis using assms(3) by (simp add: handle_inv_def)
next
  case (Some f)
  obtain g c d where h: "parentId (entry r) = None" "authorisation r = ByGrant g" "g \<in> U" "f = covered_by c d"
    "backs G q c g (covered_by c d)"
    by (rule handle_invE [OF assms(1) Some])
  show ?thesis
    by (rule handle_invI [of _ g _ c d]) (use h assms(2-5) Some assms(6) [OF h(2,5)] in auto)
qed

lemma backs_mono: "backs G q c g P \<Longrightarrow> (\<And>ps. P ps \<Longrightarrow> P' ps) \<Longrightarrow> backs G q c g P'"
  by (auto simp: backs_def)

subsection \<open>Nothing but handles going\<close>

lemma table_inv_blank: "blank t \<Longrightarrow> table_inv U G q t"
  by (auto simp: blank_def table_inv_def handle_inv_def)

lemma carried_handle:
  assumes "carried X t t'" and "map_of (handles t') i = Some r'"
  shows "stillCovered r' = None \<or>
    (\<exists>r. map_of (handles t) i = Some r \<and> authorisation r' = authorisation r \<and>
         stillCovered r' = stillCovered r \<and> entry r' = entry r)"
  by (rule assms(1) [unfolded carried_def, THEN conjunct1, rule_format, OF assms(2)])

lemma table_inv_carried:
  assumes "table_inv U G q t" and "carried X t t'"
  shows "table_inv U G q t'"
proof -
  have "handle_inv U G q r'" if m: "map_of (handles t') i = Some r'" for i r'
  proof (cases "stillCovered r'")
    case None
    then show ?thesis by (simp add: handle_inv_def)
  next
    case (Some f)
    then obtain r where r: "map_of (handles t) i = Some r" "authorisation r' = authorisation r"
      "stillCovered r' = stillCovered r" "entry r' = entry r"
      using carried_handle [OF assms(2) m] by auto
    then have "handle_inv U G q r" using assms(1) by (simp add: table_inv_def)
    then show ?thesis by (rule handle_inv_move) (use r in auto)
  qed
  moreover have "grantAliases t' = grantAliases t" "revokedGrants t' = revokedGrants t"
    using assms(2) by (simp_all add: carried_def)
  ultimately show ?thesis using assms(1) by (simp add: table_inv_def)
qed

lemma call_inv_carried: "carried X t t' \<Longrightarrow> call_inv U G q t' c = call_inv U G q t c"
  by (simp add: carried_def call_inv_def currentGrantFor_def)

subsection \<open>Grants coming, and going into the queue\<close>

definition shifted :: "str set \<Rightarrow> (str \<Rightarrow> grant option) \<Rightarrow> (str \<Rightarrow> grant option) \<Rightarrow> str set \<Rightarrow> bool" where
  "shifted U G G' q' \<longleftrightarrow>
     (\<forall>kind gr. G' kind = Some gr \<longrightarrow> G kind = Some gr \<or> grant_id gr \<notin> U) \<and>
     (\<forall>kind gr. G kind = Some gr \<longrightarrow> G' kind = Some gr \<or> grant_id gr \<in> q')"

lemma shifted_dead: "shifted U G G' q' \<Longrightarrow> g \<in> U \<Longrightarrow> \<not> live G g \<Longrightarrow> \<not> live G' g"
  unfolding shifted_def live_def by blast

lemma backs_shifted: "backs G q c g P \<Longrightarrow> shifted U G G' q' \<Longrightarrow> q \<subseteq> q' \<Longrightarrow> backs G' q' c g P"
  unfolding backs_def shifted_def by blast

lemma table_inv_shifted:
  assumes "table_inv U G q t" and "shifted U G G' q'" and "U \<subseteq> U'" "q \<subseteq> q'"
  shows "table_inv U' G' q' t"
proof -
  have dead: "x \<in> U' \<and> \<not> live G' x" if "x \<in> U \<and> \<not> live G x" for x
    using that shifted_dead [OF assms(2)] assms(3) by blast
  have "handle_inv U' G' q' r" if "handle_inv U G q r" for r
    by (rule handle_inv_move [OF that refl refl refl assms(3)]) (rule backs_shifted [OF _ assms(2,4)])
  then show ?thesis using assms(1) dead unfolding table_inv_def by blast
qed

lemma call_inv_shifted:
  assumes "call_inv U G q t c" and "shifted U G G' q'" and "U \<subseteq> U'" "q \<subseteq> q'"
  shows "call_inv U' G' q' t c"
  using assms backs_shifted [OF _ assms(2,4)] unfolding call_inv_def Let_def by blast

subsection \<open>Revoking\<close>

definition unlive :: "str \<Rightarrow> (str \<Rightarrow> grant option) \<Rightarrow> (str \<Rightarrow> grant option) \<Rightarrow> bool" where
  "unlive g G G' \<longleftrightarrow>
     (\<forall>kind gr. G' kind = Some gr \<longleftrightarrow> G kind = Some gr \<and> grant_id gr \<noteq> g)"

lemma unlive_live: "unlive g G G' \<Longrightarrow> live G' x \<longleftrightarrow> live G x \<and> x \<noteq> g"
  unfolding unlive_def live_def by blast

lemma backs_unlive: "backs G q c x P \<Longrightarrow> unlive g G G' \<Longrightarrow> x \<noteq> g \<Longrightarrow> q - {g} \<subseteq> q' \<Longrightarrow> backs G' q' c x P"
  unfolding backs_def unlive_def by blast

lemma withdrawn_members:
  assumes "x \<in> withdrawn t [Enter g]"
  shows "x = g \<or> map_of (grantAliases t) x \<noteq> None"
proof -
  have "(x, g) \<in> (set (grantAliases t))\<^sup>*" using assms by (simp add: withdrawn_def alias_closure_def)
  then show ?thesis
    by (cases rule: converse_rtranclE) (auto dest: weak_map_of_SomeI)
qed

lemma withdrawn_alias_of:
  assumes "currentGrantFor t x = g"
  shows "x \<in> withdrawn t [Enter g]"
proof (cases "map_of (grantAliases t) x")
  case None
  then show ?thesis using assms by (simp add: currentGrantFor_def withdrawn_def alias_closure_def)
next
  case (Some y)
  then have "(x, g) \<in> set (grantAliases t)" using assms by (auto simp: currentGrantFor_def dest: map_of_SomeD)
  then show ?thesis by (auto simp: withdrawn_def alias_closure_def)
qed

lemma revoked_keeps:
  assumes "revoked_all G0 t t' es" and "map_of (handles t') i = Some r'"
  shows "\<exists>r. map_of (handles t) i = Some r \<and> authorisation r' = authorisation r \<and>
    stillCovered r' = stillCovered r \<and> entry r' = entry r \<and> (\<forall>g. authorisation r = ByGrant g \<longrightarrow> g \<notin> G0)"
proof -
  let ?R = "reach (handles t) (authorised_by t G0)"
  have i: "i \<notin> ?R" "map_option (without ?R) (map_of (handles t) i) = Some r'"
    using assms by (auto simp: revoked_all_def Let_def split: if_splits)
  then obtain r where r: "map_of (handles t) i = Some r" "r' = without ?R r" by auto
  have "g \<notin> G0" if "authorisation r = ByGrant g" for g
  proof
    assume "g \<in> G0"
    then have "i \<in> authorised_by t G0" using r(1) that by (auto simp: authorised_by_def)
    then show False using i(1) reach_root [of "handles t" i "authorised_by t G0"] r(1) by simp
  qed
  then show ?thesis using r by simp
qed

lemma table_inv_revoked:
  assumes inv: "table_inv U G q t" and g: "g \<in> U" and G': "unlive g G G'" "q - {g} \<subseteq> q'"
    and r: "revoked_all (withdrawn t [Enter g]) t t' es" and f: "forgets_only (withdrawn t [Enter g]) t t'"
  shows "table_inv U G' q' t'"
proof -
  let ?W = "withdrawn t [Enter g]"
  have gone: "x \<in> U \<and> \<not> live G' x" if "x \<in> ?W" for x
    using withdrawn_members [OF that] inv g unlive_live [OF G'(1)] unfolding table_inv_def by blast
  have old: "x \<in> U \<and> \<not> live G' x" if "x \<in> set (revokedGrants t) \<or> map_of (grantAliases t) x \<noteq> None" for x
    using inv that unlive_live [OF G'(1)] unfolding table_inv_def by blast
  have "handle_inv U G' q' r'" if r': "map_of (handles t') i = Some r'" for i r'
  proof -
    obtain r0 where r0: "map_of (handles t) i = Some r0" "authorisation r' = authorisation r0"
      "stillCovered r' = stillCovered r0" "entry r' = entry r0" "\<forall>x. authorisation r0 = ByGrant x \<longrightarrow> x \<notin> ?W"
      using revoked_keeps [OF r r'] by blast
    have "g \<in> ?W" by (rule withdrawn_head)
    then have n: "x \<noteq> g" if "authorisation r0 = ByGrant x" for x using r0(5) that by blast
    have "handle_inv U G q r0" using inv r0(1) by (simp add: table_inv_def)
    then show ?thesis
      by (rule handle_inv_move [OF _ r0(2-4) subset_refl]) (use backs_unlive [OF _ G'(1) n G'(2)] in blast)
  qed
  moreover have "x \<in> U \<and> \<not> live G' x" if "map_of (grantAliases t') x \<noteq> None" for x
    using f that old unfolding forgets_only_def by blast
  moreover have "x \<in> U \<and> \<not> live G' x" if "x \<in> set (revokedGrants t')" for x
    using f that old gone unfolding forgets_only_def by blast
  ultimately show ?thesis unfolding table_inv_def by blast
qed

lemma call_inv_revoked:
  assumes inv: "call_inv U G q t c" and G': "unlive g G G'" "q - {g} \<subseteq> q'"
    and f: "forgets_only (withdrawn t [Enter g]) t t'" and room: "length (revokedGrants t') < REVOKED_GRANT_MEMORY"
    and other: "grant_id (call_grant c) \<notin> withdrawn t [Enter g]"
  shows "call_inv U G' q' t' c"
proof -
  let ?g = "currentGrantFor t (grant_id (call_grant c))"
  have same: "currentGrantFor t' (grant_id (call_grant c)) = ?g"
    using f other by (simp add: currentGrantFor_def forgets_only_def)
  have "?g \<noteq> g" using withdrawn_alias_of other by blast
  then show ?thesis
    using inv f room backs_unlive [OF _ G'(1) _ G'(2)]
    unfolding call_inv_def same Let_def forgets_only_def by blast
qed

subsection \<open>Replacing\<close>

lemma map_of_map_snd: "map_of (map (\<lambda>(a, v). (a, h v)) al) x = map_option h (map_of al x)"
  by (induction al) auto

lemma replaced_facts:
  assumes c: "replaceGrantIn cb a b ps ca t = (t', es)" and ok: "table_ok t"
  shows "map_of (handles t') i = Some r' \<Longrightarrow> \<exists>r. map_of (handles t) i = Some r \<and> entry r' = entry r \<and>
      stillCovered r' = stillCovered r \<and>
      (if authorisation r = ByGrant a then authorisation r' = ByGrant b \<and> still_covered t r ps ca
       else authorisation r' = authorisation r)"
    and "ca \<Longrightarrow> map_of (grantAliases t') x =
      (if x = a then Some b else map_option (\<lambda>y. if y = a then b else y) (map_of (grantAliases t) x))"
    and "ca \<Longrightarrow> revokedGrants t' = revokedGrants t \<and> grantOperations t' = grantOperations t"
    and "\<not> ca \<Longrightarrow> grantAliases t' = grantAliases t \<and> revokedGrants t' = remember (revokedGrants t) a REVOKED_GRANT_MEMORY"
    and "\<not> ca \<Longrightarrow> filed (grantOperations t') g = (if g = a then [] else filed (grantOperations t) g)"
    and "\<not> ca \<Longrightarrow> op \<in> set (filed (grantOperations t) a) \<Longrightarrow> \<exists>e. Cancel op e \<in> set es"
proof -
  obtain t1 e1 where r: "replace_each cb b ps ca (filed (byGrant t) a) t = (t1, e1)"
    and one: "replaced_ok b ps ca (authorised_by t {a}) t t1" and h: "handles t' = handles t1"
    and cancels: "\<not> ca \<Longrightarrow> \<forall>op\<in>set (filed (grantOperations t) a). \<exists>e. Cancel op e \<in> set es \<and> err_code e = E_revoked"
    by (rule replaceGrantIn_parts [OF c ok]) blast
  have each: "replace_each cb b ps ca (case map_of (byGrant t) a of None \<Rightarrow> [] | Some ids \<Rightarrow> ids) t = (t1, e1)"
    using r by (simp add: filed_def)
  have t1: "grantOperations t1 = grantOperations t" "revokedGrants t1 = revokedGrants t" "grantAliases t1 = grantAliases t"
    using one by (simp_all add: replaced_ok_def)
  show "\<exists>r. map_of (handles t) i = Some r \<and> entry r' = entry r \<and> stillCovered r' = stillCovered r \<and>
      (if authorisation r = ByGrant a then authorisation r' = ByGrant b \<and> still_covered t r ps ca
       else authorisation r' = authorisation r)" if m: "map_of (handles t') i = Some r'"
  proof -
    have m1: "map_of (handles t1) i = Some r'" using m h by simp
    have same: "same_handles t t1" using one by (simp add: replaced_ok_def)
    obtain r0 where r0: "map_of (handles t) i = Some r0" "entry r' = entry r0" "stillCovered r' = stillCovered r0"
      using same m1 unfolding same_handles_def by blast
    have "if i \<in> authorised_by t {a} then authorisation r' = ByGrant b \<and> still_covered t r0 ps ca
         else authorisation r' = authorisation r0"
      using one r0(1) m1 unfolding replaced_ok_def by blast
    moreover have "i \<in> authorised_by t {a} \<longleftrightarrow> authorisation r0 = ByGrant a"
      using r0(1) by (simp add: authorised_by_def del: map_of_eq_Some_iff)
    ultimately show ?thesis using r0 by auto
  qed
  show "map_of (grantAliases t') x =
      (if x = a then Some b else map_option (\<lambda>y. if y = a then b else y) (map_of (grantAliases t) x))" if ca
    using c each that t1 by (auto simp: replaceGrantIn_def update_conv' map_of_map_snd)
  show "revokedGrants t' = revokedGrants t \<and> grantOperations t' = grantOperations t" if ca
    using c each that t1 by (auto simp: replaceGrantIn_def)
  show "grantAliases t' = grantAliases t \<and> revokedGrants t' = remember (revokedGrants t) a REVOKED_GRANT_MEMORY" if "\<not> ca"
    using c each that t1 by (auto simp: replaceGrantIn_def Let_def)
  show "filed (grantOperations t') g = (if g = a then [] else filed (grantOperations t) g)" if "\<not> ca"
    using c each that t1 by (auto simp: replaceGrantIn_def Let_def filed_def delete_conv')
  show "\<exists>e. Cancel op e \<in> set es" if "\<not> ca" "op \<in> set (filed (grantOperations t) a)"
    using cancels that by blast
qed

text \<open>\<open>G'\<close>: the grant \<open>old\<close> of one kind has given way to \<open>gr\<close>, whose id is new.\<close>

definition regranted :: "str set \<Rightarrow> (str \<Rightarrow> grant option) \<Rightarrow> (str \<Rightarrow> grant option) \<Rightarrow> grant \<Rightarrow> bool" where
  "regranted U G G' gr \<longleftrightarrow> G' = G(capability gr \<mapsto> gr) \<and> grant_id gr \<notin> U"

lemma regranted_live:
  assumes "regranted U G G' gr" and "one_slot U G" and "x \<in> U"
  shows "live G' x \<longleftrightarrow> live G x \<and> (\<forall>old. G (capability gr) = Some old \<longrightarrow> grant_id old \<noteq> x)"
proof
  assume "live G' x"
  then obtain kind g where k: "G' kind = Some g" "grant_id g = x" unfolding live_def by blast
  then have n: "kind \<noteq> capability gr" "G kind = Some g" using assms(1,3) by (auto simp: regranted_def split: if_splits)
  then have "live G x" using k(2) unfolding live_def by blast
  moreover have "grant_id old \<noteq> x" if "G (capability gr) = Some old" for old
    using assms(2) that n k(2) unfolding one_slot_def by blast
  ultimately show "live G x \<and> (\<forall>old. G (capability gr) = Some old \<longrightarrow> grant_id old \<noteq> x)" by blast
next
  assume r: "live G x \<and> (\<forall>old. G (capability gr) = Some old \<longrightarrow> grant_id old \<noteq> x)"
  then obtain kind g where k: "G kind = Some g" "grant_id g = x" unfolding live_def by blast
  then have "kind \<noteq> capability gr" using r by auto
  then have "G' kind = Some g" using k(1) assms(1) by (simp add: regranted_def)
  then show "live G' x" using k(2) unfolding live_def by blast
qed

lemma backs_regranted:
  assumes "backs G q c x P" and "regranted U G G' gr" and "one_slot U G"
    and "\<And>old. G (capability gr) = Some old \<Longrightarrow> grant_id old \<noteq> x"
  shows "backs G' q c x P"
  using assms unfolding backs_def regranted_def by auto

lemma backs_replaced:
  assumes "backs G q c (grant_id old) P" and "regranted U G G' gr" and "one_slot U G"
    and "G (capability gr) = Some old" and "grant_id old \<notin> q"
  shows "capability (call_grant c) = capability gr" and "P (patterns old)"
  using assms unfolding backs_def one_slot_def by fastforce+

lemma table_inv_replaced:
  assumes inv: "table_inv U G q t" and G': "regranted U G G' gr" and slot: "one_slot U G"
    and old: "G (capability gr) = Some old" and q: "\<forall>x\<in>q. x \<in> U \<and> \<not> live G x"
    and U': "U' = insert (grant_id gr) U"
    and c: "replaceGrantIn cb (grant_id old) (grant_id gr) (patterns gr) ca t = (t', es)" and ok: "table_ok t"
  shows "table_inv U' G' q t'"
proof -
  note f = replaced_facts [OF c ok]
  have oldU: "grant_id old \<in> U" "live G (grant_id old)" using slot old unfolding one_slot_def live_def by blast+
  have notq: "grant_id old \<notin> q" using q oldU by blast
  have dead: "x \<in> U' \<and> \<not> live G' x" if "x \<in> U" "\<not> live G x \<or> x = grant_id old" for x
    using that regranted_live [OF G' slot that(1)] old U' by auto
  have "handle_inv U' G' q r'" if m: "map_of (handles t') i = Some r'" for i r'
  proof -
    obtain r0 where r0: "map_of (handles t) i = Some r0" "entry r' = entry r0" "stillCovered r' = stillCovered r0"
      and au: "if authorisation r0 = ByGrant (grant_id old)
        then authorisation r' = ByGrant (grant_id gr) \<and> still_covered t r0 (patterns gr) ca
        else authorisation r' = authorisation r0"
      using f(1) [OF m] by blast
    have h0: "handle_inv U G q r0" using inv r0(1) by (simp add: table_inv_def)
    show ?thesis
    proof (cases "authorisation r0 = ByGrant (grant_id old)")
      case False
      then have n: "grant_id old \<noteq> x" if "authorisation r0 = ByGrant x" for x using that by blast
      have au: "authorisation r' = authorisation r0" using au False by simp
      show ?thesis
        by (rule handle_inv_move [OF h0 au r0(3,2)])
          (use U' backs_regranted [OF _ G' slot] n old in auto)
    next
      case True
      then have au: "authorisation r' = ByGrant (grant_id gr)" "still_covered t r0 (patterns gr) ca"
        using au by simp_all
      show ?thesis
      proof (cases "stillCovered r0")
        case None
        then show ?thesis using r0(3) by (simp add: handle_inv_def)
      next
        case (Some g)
        obtain x c d where h: "parentId (entry r0) = None" "authorisation r0 = ByGrant x" "x \<in> U" "g = covered_by c d"
          "backs G q c x (covered_by c d)"
          by (rule handle_invE [OF h0 Some])
        have x: "x = grant_id old" using h(2) True by simp
        have "covered_by c d (patterns gr)" using au(2) Some h(1,4) by (simp add: still_covered_def)
        moreover have "G' (capability (call_grant c)) = Some gr"
          using backs_replaced(1) [OF h(5) [unfolded x] G' slot old notq] G' by (simp add: regranted_def)
        ultimately have "backs G' q c (grant_id gr) (covered_by c d)"
          by (simp add: backs_def)
        then show ?thesis
          by (intro handle_invI [of _ "grant_id gr" _ c d]) (use h au r0 Some U' in auto)
      qed
    qed
  qed
  moreover have "x \<in> U' \<and> \<not> live G' x" if "map_of (grantAliases t') x \<noteq> None" for x
  proof -
    have "x = grant_id old \<or> map_of (grantAliases t) x \<noteq> None"
      using that f(2) [of x] f(4) by (cases ca) (auto split: if_splits)
    then show ?thesis using dead inv oldU unfolding table_inv_def by blast
  qed
  moreover have "x \<in> U' \<and> \<not> live G' x" if "x \<in> set (revokedGrants t')" for x
  proof -
    have "x = grant_id old \<or> x \<in> set (revokedGrants t)"
      using that f(3,4) tombstone_facts(1) by (cases ca) fastforce+
    then show ?thesis using dead inv oldU unfolding table_inv_def by blast
  qed
  ultimately show ?thesis unfolding table_inv_def by blast
qed

lemma call_inv_replaced:
  assumes inv: "call_inv U G q t c" and tab: "table_inv U G q t" and G': "regranted U G G' gr" and slot: "one_slot U G"
    and old: "G (capability gr) = Some old" and q: "\<forall>x\<in>q. x \<in> U \<and> \<not> live G x"
    and U': "U' = insert (grant_id gr) U" and fits: "fit (capability gr) (patterns gr)"
    and ca: "ca = covers_all (capability gr) (patterns gr) (patterns old)"
    and c: "replaceGrantIn cb (grant_id old) (grant_id gr) (patterns gr) ca t = (t', es)" and ok: "table_ok t"
    and room: "length (revokedGrants t') < REVOKED_GRANT_MEMORY"
    and other: "\<not> ca \<Longrightarrow> grant_id (call_grant c) \<noteq> grant_id old"
  shows "call_inv U' G' q t' c"
proof -
  note f = replaced_facts [OF c ok]
  let ?a = "grant_id old" and ?own = "grant_id (call_grant c)"
  let ?g = "currentGrantFor t ?own"
  let ?P = "\<lambda>ps. widened (capability (call_grant c)) (patterns (call_grant c)) ps"
  have oldU: "?a \<in> U" "live G ?a" using slot old unfolding one_slot_def live_def by blast+
  have notq: "?a \<notin> q" using q oldU by blast
  have noalias: "map_of (grantAliases t) ?a = None" "?a \<notin> set (revokedGrants t)"
    using tab oldU unfolding table_inv_def by blast+
  have g: "?g \<in> U" "?g \<in> set (revokedGrants t) \<or> backs G q c ?g ?P"
    using inv by (simp_all add: call_inv_def Let_def)
  have keep: "backs G' q c ?g ?P" if "backs G q c ?g ?P" "?g \<noteq> ?a"
    using backs_regranted [OF that(1) G' slot] that(2) old by auto
  show ?thesis
  proof (cases ca)
    case True
    have same: "currentGrantFor t' ?own = (if ?g = ?a then grant_id gr else ?g)"
    proof (cases "map_of (grantAliases t) ?own")
      case None
      then have "map_of (grantAliases t') ?own = (if ?own = ?a then Some (grant_id gr) else None)"
        using f(2) [OF True] by simp
      then show ?thesis using None by (simp add: currentGrantFor_def)
    next
      case (Some y)
      then have "?own \<noteq> ?a" using noalias(1) by auto
      then have "map_of (grantAliases t') ?own = Some (if y = ?a then grant_id gr else y)"
        using f(2) [OF True] Some by simp
      then show ?thesis using Some by (simp add: currentGrantFor_def)
    qed
    show ?thesis
    proof (cases "?g = ?a")
      case True
      then have b: "backs G q c ?a ?P" using g(2) noalias(2) by simp
      note r = backs_replaced [OF b G' slot old notq]
      have "widened (capability gr) (patterns (call_grant c)) (patterns gr)"
        using widened_step [OF _ _ fits] r \<open>ca\<close> ca by simp
      then have "backs G' q c (grant_id gr) ?P"
        using r(1) G' by (simp add: backs_def regranted_def)
      then show ?thesis using True U' by (simp add: call_inv_def same)
    next
      case False
      then show ?thesis using g keep f(3) [OF \<open>ca\<close>] U' by (auto simp: call_inv_def same)
    qed
  next
    case False
    then have same: "currentGrantFor t' ?own = ?g" using f(4) by (simp add: currentGrantFor_def)
    have rv: "insert ?a (set (revokedGrants t)) \<subseteq> set (revokedGrants t')"
      using f(4) [OF False] tombstone_facts(3) room by simp
    show ?thesis
    proof (cases "?g = ?a")
      case True
      then show ?thesis using rv g(1) U' by (simp add: call_inv_def same)
    next
      case False
      then show ?thesis using g keep rv U' by (auto simp: call_inv_def same)
    qed
  qed
qed

subsection \<open>A socket that is registered, and a call that begins\<close>

lemma call_inv_begins:
  assumes tab: "table_inv U G q t" and slot: "one_slot U G" and g: "G (capability (call_grant c)) = Some (call_grant c)"
  shows "call_inv U G q t c"
proof -
  let ?g = "grant_id (call_grant c)"
  have "?g \<in> U" "live G ?g" using slot g unfolding one_slot_def live_def by blast+
  then have "map_of (grantAliases t) ?g = None" using tab unfolding table_inv_def by blast
  then have "currentGrantFor t ?g = ?g" by (simp add: currentGrantFor_def)
  then show ?thesis using \<open>?g \<in> U\<close> g by (simp add: call_inv_def backs_def)
qed

lemma table_inv_inserted:
  assumes tab: "table_inv U G q t" and inv: "call_inv U G q t c"
    and open_: "assertAcquirable t (ByGrant (grant_id (call_grant c))) = None"
    and kind: "capability (call_grant c) \<in> kinds_for (call_request c)"
    and snd: "sound c target" and d: "dial_ok c target d" and name: "steady c"
    and ins: "insert_handle i k hk (ByGrant (grant_id (call_grant c))) None (Some (covered_by c d)) t = (t', e)"
  shows "table_inv U G q t'"
proof -
  note f = insert_handle_fields [OF ins]
  let ?g = "currentGrantFor t (grant_id (call_grant c))"
  have "?g \<notin> set (revokedGrants t)" using open_ by (auto simp: assertAcquirable_def split: if_splits)
  then have g: "?g \<in> U"
    "backs G q c ?g (\<lambda>ps. widened (capability (call_grant c)) (patterns (call_grant c)) ps)"
    using inv by (auto simp: call_inv_def Let_def)
  have b: "backs G q c ?g (covered_by c d)"
  proof (rule backs_mono [OF g(2)])
    fix ps assume "widened (capability (call_grant c)) (patterns (call_grant c)) ps"
    then show "covered_by c d ps"
      using widened_covers [OF _ kind] snd d name unfolding sound_def by blast
  qed
  have "handle_inv U G q r" if m: "map_of (handles t') j = Some r" for j r
  proof (cases "j = i")
    case True
    then have "authorisation r = ByGrant ?g" "stillCovered r = Some (covered_by c d)" "parentId (entry r) = None"
      using m f(4,5) by auto
    then show ?thesis by (intro handle_invI [of _ ?g _ c d]) (use g(1) b in auto)
  next
    case False
    then have "map_of (handles t) j = Some r" using m f(5) by simp
    then show ?thesis using tab by (simp add: table_inv_def)
  qed
  then show ?thesis using tab f(12,14) by (simp add: table_inv_def)
qed

end
