(* ===== verification/NetGrants.thy ===== *)
theory NetGrants imports NetKeys LedgerRuns begin

section \<open>What a call of the ledger does to the live grants\<close>

text \<open>
  The ledger's half of NetRuns: each call of the ledger that the broker makes leaves the live grants
  of other origins alone and is, for its own, one of the changes that NetKeys follows in the handle
  table. Grants that a registration supersedes are exactly the ones it hands out to be revoked.
\<close>

lemma evolves_other: "evolves env L o' L' \<Longrightarrow> o2 \<noteq> o' \<Longrightarrow> currentGrant L' o2 = currentGrant L o2"
  unfolding evolves_def by (auto simp: currentGrant_def fun_eq_iff)

lemma evolves_minted: "evolves env L o' L' \<Longrightarrow> minted L \<le> minted L'"
  unfolding evolves_def record_step_def by auto

lemma evolves_fresh:
  assumes inj: "inj (mint env)" and ok: "ledger_ok env L" and ev: "evolves env L o' L'"
    and g: "currentGrant L' o' k = Some g"
  shows "currentGrant L o' k = Some g \<or> grant_id g \<notin> mint env ` {..<minted L}"
proof -
  obtain L1 r r' where r: "record_of env L o' = (L1, r)"
    and m: "map_of (origins L') = (map_of (origins L))(o' \<mapsto> r')"
    and st: "record_step env o' (minted L) r (minted L') r'"
    using ev unfolding evolves_def by (elim exE conjE) (rule that; assumption)
  have g0: "map_of (rec_grants r) k = currentGrant L o' k" for k by (rule currentGrant_record [OF r])
  have "grants_ok env o' (minted L) (rec_grants r)"
  proof (cases "map_of (origins L) o'")
    case None then show ?thesis using record_of_props(5) [OF r] by simp
  next
    case (Some s)
    then have "r = s" using record_of_props(4) [OF r] by blast
    then show ?thesis using ok Some unfolding ledger_ok_def by blast
  qed
  then have "fresh_or_old env (minted L) (rec_grants r) (rec_grants r')"
    using st inj by (simp add: record_step_def)
  moreover have "map_of (rec_grants r') k = Some g" using g by (simp add: currentGrant_def m)
  ultimately have "currentGrant L o' k = Some g \<or> (\<exists>i\<ge>minted L. grant_id g = mint env i)"
    unfolding fresh_or_old_def g0 by blast
  moreover have "mint env i \<notin> mint env ` {..<minted L}" if "minted L \<le> i" for i
    using inj that by (auto dest: injD)
  ultimately show ?thesis by metis
qed

lemma ledger_one_slot:
  assumes "ledger_ok env L"
  shows "one_slot (mint env ` {..<minted L}) (currentGrant L k)"
  unfolding one_slot_def
proof (intro conjI allI impI)
  fix kind gr assume g: "currentGrant L k kind = Some gr"
  then obtain r where r: "map_of (origins L) k = Some r" "map_of (rec_grants r) kind = Some gr"
    by (auto simp: currentGrant_Some)
  then have "grants_ok env k (minted L) (rec_grants r)" using assms unfolding ledger_ok_def by blast
  then show "capability gr = kind" using r(2) unfolding grants_ok_def by blast
  show "grant_id gr \<in> mint env ` {..<minted L}" using ledger_ok_id [OF assms g] by blast
  fix kind' gr' assume "currentGrant L k kind' = Some gr'" "grant_id gr = grant_id gr'"
  then show "kind = kind'"
    using r \<open>grants_ok env k (minted L) (rec_grants r)\<close> unfolding grants_ok_def currentGrant_def by auto
qed

subsection \<open>Registering and restoring\<close>

definition lost :: "ledger \<Rightarrow> ledger \<Rightarrow> str \<Rightarrow> str set" where
  "lost L L' k = {grant_id g | kind g. currentGrant L k kind = Some g \<and> currentGrant L' k kind \<noteq> Some g}"

lemma lost_none: "currentGrant L' k = currentGrant L k \<Longrightarrow> lost L L' k = {}"
  by (simp add: lost_def)

lemma pinned_lost:
  assumes ok: "ledger_ok env L" and inj: "inj (mint env)" and h: "hydrateFromPinnedManifest env L k m = (L', out)"
  shows "sup_id ` set out = lost L L' k"
proof (cases "rec_hydrated (snd (record_of env L k)) \<or> \<not> persists env k")
  case True
  obtain L1 r where r: "record_of env L k = (L1, r)" by fastforce
  have "out = [] \<and> currentGrant L' k = currentGrant L k"
  proof (cases "rec_hydrated r")
    case True
    then have "L' = L1" "out = []" using h r by (simp_all add: hydrateFromPinnedManifest_def)
    then show ?thesis using currentGrant_record_of [OF r] by (simp add: fun_eq_iff)
  next
    case False
    then have "hydrate_record env L1 r k m = (r, [], minted L1)" using True r by (simp add: hydrate_record_def)
    then have "L' = (put_record k r L1)\<lparr>minted := minted L1\<rparr>" "out = []"
      using h r False by (simp_all add: hydrateFromPinnedManifest_def)
    then show ?thesis using currentGrant_record [OF r] by (simp add: fun_eq_iff currentGrant_put)
  qed
  then show ?thesis by (simp add: lost_none)
next
  case False
  obtain restored n where "hydrateGrants env (ledger_disk L) k m (minted L) = (restored, n)" by fastforce
  then have out: "set out = {\<lparr>sup_capability = kind, sup_id = grant_id g\<rparr> | kind g.
      currentGrant L k kind = Some g \<and> currentGrant L' k kind \<noteq> Some g}"
    using False by (intro pinned_restores(2) [OF ok inj h]) simp_all
  show ?thesis unfolding lost_def out
  proof (rule set_eqI)
    fix x
    show "x \<in> sup_id ` {\<lparr>sup_capability = kind, sup_id = grant_id g\<rparr> | kind g.
        currentGrant L k kind = Some g \<and> currentGrant L' k kind \<noteq> Some g} \<longleftrightarrow>
      x \<in> {grant_id g | kind g. currentGrant L k kind = Some g \<and> currentGrant L' k kind \<noteq> Some g}"
      unfolding image_iff Bex_def mem_Collect_eq by (metis superseded.select_convs(2))
  qed
qed

lemma first_as_pinned:
  assumes "hydrateGrantsOnFirstRegistration env L k m = (L', out)"
  obtains L2 where "hydrateFromPinnedManifest env L k m = (L2, out)" and "currentGrant L' = currentGrant L2"
    and "minted L' = minted L2"
proof -
  obtain L1 r where r: "record_of env L k = (L1, r)" by fastforce
  show thesis
  proof (cases "rec_hydrated r")
    case True
    then show thesis
      using that [of L1] assms r by (simp add: hydrateGrantsOnFirstRegistration_def hydrateFromPinnedManifest_def)
  next
    case False
    obtain r' out' n where h: "hydrate_record env L1 r k m = (r', out', n)" using prod_cases3 by blast
    then obtain r'' where "hydrate_record env L1 (r\<lparr>rec_hydrated := True\<rparr>) k m = (r'', out', n)"
      and g: "rec_grants r'' = rec_grants r'"
      by (auto simp: hydrate_record_def split: if_splits prod.splits)
    then have "L' = (put_record k r'' L1)\<lparr>minted := n\<rparr>" "out = out'"
      using assms r False by (simp_all add: hydrateGrantsOnFirstRegistration_def)
    moreover have "hydrateFromPinnedManifest env L k m = ((put_record k r' L1)\<lparr>minted := n\<rparr>, out')"
      using r False h by (simp add: hydrateFromPinnedManifest_def)
    ultimately show thesis
      using that [of "(put_record k r' L1)\<lparr>minted := n\<rparr>"] g by (simp add: fun_eq_iff currentGrant_put)
  qed
qed

lemma first_lost:
  assumes "ledger_ok env L" and "inj (mint env)" and "hydrateGrantsOnFirstRegistration env L k m = (L', out)"
  shows "sup_id ` set out = lost L L' k"
proof -
  obtain L2 where "hydrateFromPinnedManifest env L k m = (L2, out)" "currentGrant L' = currentGrant L2"
    by (rule first_as_pinned [OF assms(3)])
  then show ?thesis using pinned_lost [OF assms(1,2)] by (simp add: lost_def)
qed

lemma first_hydrated:
  assumes "hydrateGrantsOnFirstRegistration env L k m = (L', out)" and "record_of env L' k = (L1, r)"
  shows "rec_hydrated r"
proof -
  obtain L0 r0 where r: "record_of env L k = (L0, r0)" by fastforce
  show ?thesis
  proof (cases "rec_hydrated r0")
    case True
    then have "L' = L0" using assms(1) r by (simp add: hydrateGrantsOnFirstRegistration_def)
    then show ?thesis using True record_of_hydrate_entry [OF r] assms(2) by simp
  next
    case False
    obtain r' out' n where h: "hydrate_record env L0 (r0\<lparr>rec_hydrated := True\<rparr>) k m = (r', out', n)"
      using prod_cases3 by blast
    have "rec_hydrated r'" using h by (auto simp: hydrate_record_def split: if_splits prod.splits)
    moreover have "L' = (put_record k r' L0)\<lparr>minted := n\<rparr>"
      using assms(1) r False h by (simp add: hydrateGrantsOnFirstRegistration_def)
    ultimately show ?thesis using assms(2) by (auto simp: record_of_def put_record_def update_conv')
  qed
qed

lemma registerApp_grants:
  assumes r: "record_of env L k = (L1, r)" and h: "rec_hydrated r" and reg: "registerApp env fails L k m = (L', res)"
  shows "currentGrant L' = currentGrant L"
proof -
  let ?r = "r\<lparr>rec_manifest := Some m\<rparr>"
  obtain s d ok where f: "raiseFloor env fails (ledger_disk L1) k ?r (app_version m) = (s, d, ok)"
    using prod_cases3 by blast
  have "rec_grants s = rec_grants r" using f by (auto simp: raiseFloor_def Let_def split: if_splits)
  moreover have "L' = (put_record k s (put_record k ?r L1))\<lparr>ledger_disk := d\<rparr>"
    using reg r h f by (simp add: registerApp_def hydrateGrantsOnFirstRegistration_def split: prod.splits)
  ultimately show ?thesis
    using currentGrant_record [OF r] currentGrant_record_of [OF r] by (simp add: fun_eq_iff currentGrant_put)
qed

lemma ack_grants:
  assumes "acknowledgeRollback env fails L k v = (L', res)"
  shows "currentGrant L' = currentGrant L"
proof -
  obtain L1 r where r: "record_of env L k = (L1, r)" by fastforce
  obtain r' d ok where a: "acknowledge_record env fails (ledger_disk L1) k r v = (r', d, ok)"
    using prod_cases3 by blast
  have "rec_grants r' = rec_grants r" using a by (auto simp: acknowledge_record_def Let_def split: if_splits)
  moreover have "L' = (put_record k r' L1)\<lparr>ledger_disk := d\<rparr>"
    using assms r a by (simp add: acknowledgeRollback_def)
  ultimately show ?thesis
    using currentGrant_record [OF r] currentGrant_record_of [OF r] by (simp add: fun_eq_iff currentGrant_put)
qed

subsection \<open>Revoking\<close>

lemma revoke_unlive:
  assumes "ledger_ok env L" and "revoke_grant env fails L k gid = (L', res)"
  shows "unlive gid (currentGrant L k) (currentGrant L' k)" and "k' \<noteq> k \<Longrightarrow> currentGrant L' k' = currentGrant L k'"
    and "minted L' = minted L"
proof -
  show "unlive gid (currentGrant L k) (currentGrant L' k)"
    using revoke_effect [OF assms, of k] by (auto simp: unlive_def split: option.splits)
  show "currentGrant L' k' = currentGrant L k'" if "k' \<noteq> k"
    using revoke_effect [OF assms, of k'] that by (auto simp: fun_eq_iff split: option.splits)
  show "minted L' = minted L" using assms(2)
    by (auto simp: revoke_grant_def Let_def split: option.splits prod.splits)
qed

lemma revokePersisted_effect:
  assumes "revokePersisted env fails L k kind = (L', res)"
  shows "currentGrant L' o' kd = (if o' = k \<and> kd = kind then None else currentGrant L o' kd)" and "minted L' = minted L"
proof -
  have o: "map_of (origins L') o' = (if o' = k then map_option (\<lambda>r. r\<lparr>rec_grants := AList.delete kind (rec_grants r)\<rparr>)
      (map_of (origins L) k) else map_of (origins L) o')"
    using assms by (auto simp: revokePersisted_def Let_def origins_put split: if_splits option.splits)
  show "currentGrant L' o' kd = (if o' = k \<and> kd = kind then None else currentGrant L o' kd)"
    unfolding currentGrant_def o by (cases "map_of (origins L) k") (auto simp: delete_conv')
  show "minted L' = minted L"
    using assms by (auto simp: revokePersisted_def Let_def split: if_splits option.splits)
qed

lemma forget_grants:
  shows "k' \<noteq> k \<Longrightarrow> currentGrant (forgetOrigin env fails L k) k' = currentGrant L k'"
    and "currentGrant (forgetOrigin env fails L k) k kind = None \<or>
      currentGrant (forgetOrigin env fails L k) k kind = currentGrant L k kind"
    and "minted (forgetOrigin env fails L k) = minted L"
  by (auto simp: forgetOrigin_def currentGrant_def delete_conv' fun_eq_iff split: prod.split)

end
