(* ===== verification/NetRuns.thy ===== *)
theory NetRuns imports NetGrants begin

section \<open>The broker's runs\<close>

text \<open>
  The broker as a transition system. A state is the broker, the revocations that registrations still
  have to make (\<open>cascades\<close>), the operations in flight and the calls of \<open>orivon.net\<close> in flight. One
  step is what the code does between two awaits: a call of the broker's interface, one turn of a call
  of \<open>orivon.net\<close>, the opening of its socket, or any other call of the handle table. Nothing is said of
  the order of steps; every answer from outside (resolver, proxy settings, dial, writes) is arbitrary,
  except that a dial reports an address it was given and a bind a port inside its ranges. A grant gives
  patterns that a parsed manifest can declare (\<open>fit\<close>) and a revocation names a grant that was made.
\<close>

type_synonym net_state = "broker \<times> (str \<times> str) list \<times> ticket list \<times> net_call list"

text \<open>The abort signals that a list of effects raises.\<close>

definition cancels :: "broker_effect list \<Rightarrow> nat \<Rightarrow> bool" where
  "cancels es op \<longleftrightarrow> list_ex (\<lambda>x. case x of OnHandles (Cancel op' e) \<Rightarrow> op' = op | _ \<Rightarrow> False) es"

definition abort_calls :: "broker_effect list \<Rightarrow> net_call list \<Rightarrow> net_call list" where
  "abort_calls es cs = map (\<lambda>c. if cancels es (call_op c) then c\<lparr>call_aborted := True\<rparr> else c) cs"

definition active :: "net_call \<Rightarrow> bool" where
  "active c \<longleftrightarrow> \<not> call_aborted c \<and> call_phase c \<noteq> Finished"

text \<open>The ids of all grants ever made.\<close>

definition issued :: "broker_env \<Rightarrow> broker \<Rightarrow> str set" where
  "issued BE B = mint (b_env BE) ` {..<minted (b_ledger B)}"

definition queued :: "(str \<times> str) list \<Rightarrow> str \<Rightarrow> str set" where
  "queued Q k = {g. (k, g) \<in> set Q}"

text \<open>Every table remembers every grant it was told to revoke.\<close>

definition roomy :: "handle_table \<Rightarrow> bool" where
  "roomy T \<longleftrightarrow> (\<forall>(k, s, t)\<in>set (tables T). length (revokedGrants t) < REVOKED_GRANT_MEMORY)"

subsection \<open>Steps\<close>

text \<open>The calls of the handle table that the net capabilities make besides, and those of the other
  capabilities; the set holds the operations that end.\<close>

inductive table_step ::
  "table_env \<Rightarrow> handle_table \<times> ticket list \<Rightarrow> handle_effect list \<Rightarrow> nat set \<Rightarrow> handle_table \<times> ticket list \<Rightarrow> bool"
  for env where
  t_acquire: "acquire env req T = Some (T', es, res) \<Longrightarrow> req_covered req = None \<Longrightarrow> limit_ok (req_limit req) \<Longrightarrow>
    table_step env (T, ts) es {} (T', ts)"
| t_begin: "run_begin env origin scope op abandoned T = (T', es, Inr (k, s, st)) \<Longrightarrow> op \<notin> fst ` set ts \<Longrightarrow>
    table_step env (T, ts) es {} (T', ts @ [(op, k, s, scope)])"
| t_refused: "run_begin env origin scope op abandoned T = (T', es, Inl e) \<Longrightarrow> table_step env (T, ts) es {} (T', ts)"
| t_end: "(op, k, s, scope) \<in> set ts \<Longrightarrow> run_end k s scope op T = (T', a) \<Longrightarrow>
    table_step env (T, ts) [] {op} (T', removeAll (op, k, s, scope) ts)"
| t_release: "release_handle env origin i T = (T', es, u) \<Longrightarrow> table_step env (T, ts) es {} (T', ts)"
| t_unlink: "onUnlink env origin i listener T = (T', es, u) \<Longrightarrow> table_step env (T, ts) es {} (T', ts)"
| t_fail: "fail_handle env origin i c platform T = (T', es, u) \<Longrightarrow> table_step env (T, ts) es {} (T', ts)"
| t_abort: "abort_handle env origin i T = (T', es, u) \<Longrightarrow> table_step env (T, ts) es {} (T', ts)"
| t_picked: "revokeUserSelected env origin p T = (T', es, u) \<Longrightarrow> table_step env (T, ts) es {} (T', ts)"

inductive net_step :: "broker_env \<Rightarrow> net_state \<Rightarrow> net_state \<Rightarrow> bool" for BE where
  n_registers: "broker_registerApp BE fails B origin m = (B', out, res) \<Longrightarrow>
    net_step BE (B, Q, ts, cs) (B', Q @ out, ts, cs)"
| n_restores: "broker_hydrateFromPinnedManifest BE B origin m = (B', out, res) \<Longrightarrow>
    net_step BE (B, Q, ts, cs) (B', Q @ out, ts, cs)"
| n_acknowledges: "broker_acknowledgeRollback BE fails B origin v = (B', es, res) \<Longrightarrow>
    net_step BE (B, Q, ts, cs) (B', Q, ts, cs)"
| n_cascades: "(k, g) \<in> set Q \<Longrightarrow> broker_cascade BE B k g = (B', es, res) \<Longrightarrow>
    net_step BE (B, Q, ts, cs) (B', remove1 (k, g) Q, ts, abort_calls es cs)"
| n_grants: "broker_grant BE fails B origin kind ps at_time = (B', es, resg) \<Longrightarrow> fit kind ps \<Longrightarrow>
    net_step BE (B, Q, ts, cs) (B', Q, ts, abort_calls es cs)"
| n_revokes: "broker_revoke BE fails B origin g = (B', es, res) \<Longrightarrow> g \<in> issued BE B \<Longrightarrow>
    net_step BE (B, Q, ts, cs) (B', Q, ts, abort_calls es cs)"
| n_revokes_persisted: "broker_revokePersisted BE fails B origin kind = (B', es, resb) \<Longrightarrow>
    net_step BE (B, Q, ts, cs) (B', Q, ts, abort_calls es cs)"
| n_drops: "broker_drop_begin BE B origin = (B', es, resd) \<Longrightarrow>
    net_step BE (B, Q, ts, cs) (B', Q, ts, abort_calls es cs)"
| n_dropped: "map_of (tables (b_handles B)) k = Some (s, t) \<Longrightarrow> dropping t \<Longrightarrow>
    net_step BE (B, Q, ts, cs) (broker_drop_end B (Some (k, s)), Q, ts, cs)"
| n_forgets: "map_of (tables (b_handles B)) k = None \<Longrightarrow> forget_end BE fails B k = (B', es) \<Longrightarrow>
    net_step BE (B, Q, ts, cs) (B', Q, ts, cs)"
| n_begins: "net_begin BE routed B origin req op abandoned = (B', es, Inr c) \<Longrightarrow>
    op \<notin> fst ` set ts \<Longrightarrow> op \<notin> call_op ` set cs \<Longrightarrow>
    net_step BE (B, Q, ts, cs)
      (B', Q, ts @ [(op, call_key c, call_serial c, OnGrant (grant_id (call_grant c)))], cs @ [c])"
| n_admits: "i < length cs \<Longrightarrow> call_phase (cs ! i) = Waits \<Longrightarrow>
    net_step BE (B, Q, ts, cs) (B, Q, ts, cs[i := (cs ! i)\<lparr>call_phase := Starts\<rparr>])"
| n_stops: "i < length cs \<Longrightarrow> net_step BE (B, Q, ts, cs) (B, Q, ts, cs[i := (cs ! i)\<lparr>call_phase := Finished\<rparr>])"
| n_turns: "i < length cs \<Longrightarrow>
    next_turn own proxied resolve (open_sockets BE B (call_key (cs ! i)))
      (socketAllowanceOf BE B (call_key (cs ! i))) (cs ! i) = Some tn \<Longrightarrow>
    net_step BE (B, Q, ts, cs) (B, Q, ts, cs[i := after_turn tn (cs ! i)])"
| n_opens: "i < length cs \<Longrightarrow> call_phase (cs ! i) = Dials target \<Longrightarrow>
    (\<forall>d. answer = Inr d \<longrightarrow> dial_ok (cs ! i) target d) \<Longrightarrow>
    opened_turn BE (socketAllowanceOf BE B (call_key (cs ! i))) destroy_throws answer (cs ! i) (b_handles B) =
      Some (T', hs, outcome) \<Longrightarrow>
    net_step BE (B, Q, ts, cs) (B\<lparr>b_handles := T'\<rparr>, Q, ts, cs[i := (cs ! i)\<lparr>call_phase := Finished\<rparr>])"
| n_accepts: "accept_one BE (socketAllowanceOf BE B k) destroy_throws k server (b_handles B) = Some (T', hs, rese) \<Longrightarrow>
    net_step BE (B, Q, ts, cs) (B\<lparr>b_handles := T'\<rparr>, Q, ts, cs)"
| n_tables: "table_step (t_env BE) (b_handles B, ts) hs X (T', ts') \<Longrightarrow>
    (\<forall>c\<in>set cs. active c \<longrightarrow> call_op c \<notin> X) \<Longrightarrow>
    net_step BE (B, Q, ts, cs) (B\<lparr>b_handles := T'\<rparr>, Q, ts', abort_calls (map OnHandles hs) cs)"

text \<open>A run starts with nothing in memory, over any files; no origin's memory of revoked grants is ever
  full, and no call is for a name that ends in two dots, which a later check would read as another.\<close>

definition empty_broker :: "disk \<Rightarrow> broker" where
  "empty_broker d = \<lparr>b_ledger = empty_ledger d, b_handles = empty_handle_table, pinnedManifests = []\<rparr>"

inductive net_run :: "broker_env \<Rightarrow> disk \<Rightarrow> net_state \<Rightarrow> bool" for BE d where
  nr_start: "net_run BE d (empty_broker d, [], [], [])"
| nr_step: "net_run BE d x \<Longrightarrow> net_step BE x (B', Q', ts', cs') \<Longrightarrow> roomy (b_handles B') \<Longrightarrow>
    (\<forall>c\<in>set cs'. steady c) \<Longrightarrow> net_run BE d (B', Q', ts', cs')"

text \<open>An isolation key is an origin whose key it is.\<close>

definition keys_stable :: "broker_env \<Rightarrow> bool" where
  "keys_stable BE \<longleftrightarrow> (\<forall>o' k. canonical BE o' = Inr k \<longrightarrow> canonical BE k = Inr k)"

lemma stable_key: "keys_stable BE \<Longrightarrow> canonical BE o' = Inr k \<Longrightarrow> canonical BE k = Inr k"
  unfolding keys_stable_def by blast

section \<open>The invariant\<close>

definition call_ok :: "str set \<Rightarrow> (str \<Rightarrow> grant option) \<Rightarrow> str set \<Rightarrow> handle_table \<Rightarrow> net_call \<Rightarrow> bool" where
  "call_ok U G q T c \<longleftrightarrow> phase_ok c \<and> capability (call_grant c) \<in> kinds_for (call_request c) \<and>
     (active c \<longrightarrow> (\<exists>t. map_of (tables T) (call_key c) = Some (call_serial c, t) \<and>
        call_op c \<in> set (filed (grantOperations t) (grant_id (call_grant c))) \<and> call_inv U G q t c))"

definition net_inv :: "broker_env \<Rightarrow> net_state \<Rightarrow> bool" where
  "net_inv BE x \<longleftrightarrow> (case x of (B, Q, ts, cs) \<Rightarrow>
     ledger_ok (b_env BE) (b_ledger B) \<and> registry_ok (b_handles B) ts \<and>
     (\<forall>k g. g \<in> queued Q k \<longrightarrow> canonical BE k = Inr k \<and> g \<in> issued BE B \<and> \<not> live (currentGrant (b_ledger B) k) g) \<and>
     (\<forall>k s t. map_of (tables (b_handles B)) k = Some (s, t) \<longrightarrow>
        table_inv (issued BE B) (currentGrant (b_ledger B) k) (queued Q k) t) \<and>
     (\<forall>c\<in>set cs. canonical BE (call_key c) = Inr (call_key c) \<and>
        call_ok (issued BE B) (currentGrant (b_ledger B) (call_key c)) (queued Q (call_key c)) (b_handles B) c))"

lemma net_invD:
  assumes "net_inv BE (B, Q, ts, cs)"
  shows "ledger_ok (b_env BE) (b_ledger B)" and "registry_ok (b_handles B) ts"
    and "g \<in> queued Q k \<Longrightarrow> canonical BE k = Inr k \<and> g \<in> issued BE B \<and> \<not> live (currentGrant (b_ledger B) k) g"
    and "map_of (tables (b_handles B)) k = Some (s, t) \<Longrightarrow>
      table_inv (issued BE B) (currentGrant (b_ledger B) k) (queued Q k) t"
    and "c \<in> set cs \<Longrightarrow> canonical BE (call_key c) = Inr (call_key c)"
    and "c \<in> set cs \<Longrightarrow>
      call_ok (issued BE B) (currentGrant (b_ledger B) (call_key c)) (queued Q (call_key c)) (b_handles B) c"
  using assms unfolding net_inv_def prod.case by blast+

lemma net_invI:
  assumes "ledger_ok (b_env BE) (b_ledger B)" and "registry_ok (b_handles B) ts"
    and "\<And>k g. g \<in> queued Q k \<Longrightarrow> canonical BE k = Inr k \<and> g \<in> issued BE B \<and> \<not> live (currentGrant (b_ledger B) k) g"
    and "\<And>k s t. map_of (tables (b_handles B)) k = Some (s, t) \<Longrightarrow>
      table_inv (issued BE B) (currentGrant (b_ledger B) k) (queued Q k) t"
    and "\<And>c. c \<in> set cs \<Longrightarrow> canonical BE (call_key c) = Inr (call_key c) \<and>
      call_ok (issued BE B) (currentGrant (b_ledger B) (call_key c)) (queued Q (call_key c)) (b_handles B) c"
  shows "net_inv BE (B, Q, ts, cs)"
  unfolding net_inv_def prod.case using assms by blast


lemma issued_handles [simp]: "issued BE (B\<lparr>b_handles := T\<rparr>) = issued BE B" "issued BE (B\<lparr>pinnedManifests := x\<rparr>) = issued BE B"
  by (simp_all add: issued_def)

subsection \<open>Calls that are left alone, aborted or ended\<close>

lemma abort_callsE:
  assumes "c' \<in> set (abort_calls es cs)"
  obtains c where "c \<in> set cs" and "c' = c" and "\<not> cancels es (call_op c)"
  | c where "c \<in> set cs" and "c' = c\<lparr>call_aborted := True\<rparr>"
proof -
  obtain c where c: "c \<in> set cs" "c' = (if cancels es (call_op c) then c\<lparr>call_aborted := True\<rparr> else c)"
    using assms unfolding abort_calls_def by auto
  show thesis
  proof (cases "cancels es (call_op c)")
    case True
    then show thesis using that(2) [OF c(1)] c(2) by simp
  next
    case False
    then show thesis using that(1) [OF c(1)] c(2) by simp
  qed
qed

lemma abort_none [simp]: "abort_calls [] cs = cs"
  by (simp add: abort_calls_def cancels_def)

lemma phase_ok_aborted [simp]: "phase_ok (c\<lparr>call_aborted := a\<rparr>) = phase_ok c"
  by (simp add: phase_ok_def split: phase.split)

lemma active_updates [simp]: "\<not> active (c\<lparr>call_aborted := True\<rparr>)" "\<not> active (c\<lparr>call_phase := Finished\<rparr>)"
  by (simp_all add: active_def)

lemma call_ok_aborted: "call_ok U G q T c \<Longrightarrow> call_ok U' G' q' T' (c\<lparr>call_aborted := True\<rparr>)"
  by (simp add: call_ok_def)

lemma call_ok_finished: "call_ok U G q T c \<Longrightarrow> call_ok U' G' q' T' (c\<lparr>call_phase := Finished\<rparr>)"
  by (simp add: call_ok_def) (simp add: phase_ok_def)

lemma call_okE:
  assumes "call_ok U G q T c" and "active c"
  obtains t where "map_of (tables T) (call_key c) = Some (call_serial c, t)"
    and "call_op c \<in> set (filed (grantOperations t) (grant_id (call_grant c)))" and "call_inv U G q t c"
  using assms unfolding call_ok_def by blast

lemma call_okI:
  assumes "call_ok U0 G0 q0 T0 c"
    and "active c \<Longrightarrow> \<exists>t. map_of (tables T) (call_key c) = Some (call_serial c, t) \<and>
      call_op c \<in> set (filed (grantOperations t) (grant_id (call_grant c))) \<and> call_inv U G q t c"
  shows "call_ok U G q T c"
  using assms unfolding call_ok_def by blast

lemma call_ok_moves:
  assumes "call_ok U G q T c" and "phase_ok c'" and "call_grant c' = call_grant c" "call_request c' = call_request c"
    "call_key c' = call_key c" "call_serial c' = call_serial c" "call_op c' = call_op c" and "active c' \<Longrightarrow> active c"
  shows "call_ok U G q T c'"
proof -
  have "call_inv U G q t c' = call_inv U G q t c" for t
    by (simp add: call_inv_def backs_def assms(3))
  then show ?thesis using assms unfolding call_ok_def by (metis (no_types))
qed

subsection \<open>Calls of the handle table alone\<close>

lemma net_inv_tables:
  assumes inv: "net_inv BE (B, Q, ts, cs)" and c: "carries X (b_handles B) T'" and ok: "registry_ok T' ts'"
    and X: "\<forall>c\<in>set cs. active c \<longrightarrow> call_op c \<notin> X"
  shows "net_inv BE (B\<lparr>b_handles := T'\<rparr>, Q, ts', abort_calls es cs)"
proof (rule net_invI)
  let ?U = "issued BE B" and ?G = "currentGrant (b_ledger B)"
  show "table_inv (issued BE (B\<lparr>b_handles := T'\<rparr>)) (currentGrant (b_ledger (B\<lparr>b_handles := T'\<rparr>)) k) (queued Q k) t'"
    if "map_of (tables (b_handles (B\<lparr>b_handles := T'\<rparr>))) k = Some (s, t')" for k s t'
  proof -
    have "map_of (tables T') k = Some (s, t')" using that by simp
    then consider "blank t'" | t where "map_of (tables (b_handles B)) k = Some (s, t)" "carried X t t'"
      using c unfolding carries_def by blast
    then show ?thesis
      by cases (simp_all add: table_inv_blank table_inv_carried [OF net_invD(4) [OF inv]])
  qed
  have keep: "call_ok ?U (?G (call_key x)) (queued Q (call_key x)) T' x" if x: "x \<in> set cs" for x
  proof (rule call_okI [OF net_invD(6) [OF inv x]])
    assume a: "active x"
    obtain t where t: "map_of (tables (b_handles B)) (call_key x) = Some (call_serial x, t)"
      "call_op x \<in> set (filed (grantOperations t) (grant_id (call_grant x)))"
      "call_inv ?U (?G (call_key x)) (queued Q (call_key x)) t x"
      by (rule call_okE [OF net_invD(6) [OF inv x] a])
    obtain t' where "map_of (tables T') (call_key x) = Some (call_serial x, t')" "carried X t t'"
      "call_op x \<in> set (filed (grantOperations t') (grant_id (call_grant x)))"
      using carries_table [OF c t(1,2)] X x a by blast
    then show "\<exists>t. map_of (tables T') (call_key x) = Some (call_serial x, t) \<and>
        call_op x \<in> set (filed (grantOperations t) (grant_id (call_grant x))) \<and>
        call_inv ?U (?G (call_key x)) (queued Q (call_key x)) t x"
      using call_inv_carried t(3) by blast
  qed
  show "canonical BE (call_key c') = Inr (call_key c') \<and>
      call_ok (issued BE (B\<lparr>b_handles := T'\<rparr>)) (currentGrant (b_ledger (B\<lparr>b_handles := T'\<rparr>)) (call_key c'))
        (queued Q (call_key c')) (b_handles (B\<lparr>b_handles := T'\<rparr>)) c'" if "c' \<in> set (abort_calls es cs)" for c'
    using that by (cases rule: abort_callsE) (use keep net_invD(5) [OF inv] call_ok_aborted [OF keep] in auto)
qed (use net_invD(1-3) [OF inv] ok in auto)

lemma carries_acquire:
  assumes "acquire env req T = Some (T', es, res)" and "req_covered req = None"
  shows "carries {} T T'"
  using acquire_cases [OF assms(1)]
proof (elim disjE conjE exE)
  fix e assume "admitted env req T T' e"
  then obtain k s t T1 i n t' where g: "getOrCreate T k = (T1, s, t)"
    and ins: "insert_handle i k (req_kind req) (req_auth req) None (req_covered req) t = (t', e)"
    and T': "T' = (put_table k s t' T1)\<lparr>drawn := n\<rparr>"
    unfolding admitted_def by blast
  note c = carries_getOrCreate [OF g] and fd = insert_handle_fields [OF ins]
  have "carried {} t t'"
    using assms(2) by (auto simp: carried_def fd simp del: map_of_eq_Some_iff split: if_splits)
  then show ?thesis using carries_trans [OF c(1) carries_put [OF c(2)], of "{}" t'] by (simp add: T')
qed (use carries_created in blast)+

lemma table_step_keeps:
  assumes "table_step env (T, ts) es X (T', ts')" and ok: "registry_ok T ts"
  shows "carries X T T'" and "registry_ok T' ts'"
proof -
  have "carries X T T' \<and> registry_ok T' ts'"
    using assms(1)
  proof cases
    case t_acquire then show ?thesis using carries_acquire registry_ok_acquire ok by blast
  next
    case t_begin then show ?thesis using carries_begin(1) registry_ok_begin [OF ok] by (intro conjI) auto
  next
    case t_refused
    then show ?thesis using carries_refused run_begin_refused registry_ok_getOrCreate(1) ok by metis
  next
    case t_end then show ?thesis using carries_end registry_ok_end ok by blast
  next
    case t_release then show ?thesis using carries_release registry_ok_release ok by blast
  next
    case t_unlink then show ?thesis using carries_onUnlink registry_ok_onUnlink ok by blast
  next
    case t_fail
    then show ?thesis unfolding fail_handle_def using carries_closeWithError registry_ok_closeWithError ok by blast
  next
    case t_abort
    then show ?thesis unfolding abort_handle_def using carries_closeWithError registry_ok_closeWithError ok by blast
  next
    case t_picked then show ?thesis using carries_picked registry_ok_revokeUserSelected ok by blast
  qed
  then show "carries X T T'" "registry_ok T' ts'" by blast+
qed

lemma allowance_ok: "limit_ok (Some (socketAllowanceOf BE B k))"
proof -
  have "socketAllowance r \<le> LIMIT_concurrentSockets" for r
    by (simp add: socketAllowance_def LIMIT_defaultConcurrentSockets_def LIMIT_concurrentSockets_def split: option.split)
  then show ?thesis
    by (auto simp: limit_ok_def socketAllowanceOf_def Let_def ledger_socketAllowance_def split: option.split)
qed

lemma accept_keeps:
  assumes "accept_one BE (socketAllowanceOf BE B k) dt k server T = Some (T', es, res)" and "registry_ok T ts"
  shows "carries {} T T'" and "registry_ok T' ts"
  using assms carries_derived registry_ok_acquireDerived allowance_ok [of BE B k]
  unfolding accept_one_def by fastforce+


section \<open>One origin changes\<close>

lemma shifted_refl [simp]: "shifted U G G q"
  by (simp add: shifted_def)

lemma net_inv_one:
  assumes inv: "net_inv BE (B, Q, ts, cs)"
    and L: "ledger_ok (b_env BE) (b_ledger B')" and T: "registry_ok (b_handles B') ts'" and U: "issued BE B \<subseteq> issued BE B'"
    and other: "\<And>k'. k' \<noteq> k \<Longrightarrow> currentGrant (b_ledger B') k' = currentGrant (b_ledger B) k' \<and>
      map_of (tables (b_handles B')) k' = map_of (tables (b_handles B)) k' \<and> queued Q' k' = queued Q k'"
    and Q: "\<And>g. g \<in> queued Q' k \<Longrightarrow>
      canonical BE k = Inr k \<and> g \<in> issued BE B' \<and> \<not> live (currentGrant (b_ledger B') k) g"
    and tab: "\<And>s t. map_of (tables (b_handles B')) k = Some (s, t) \<Longrightarrow>
      table_inv (issued BE B') (currentGrant (b_ledger B') k) (queued Q' k) t"
    and calls: "\<And>c t. c \<in> set cs \<Longrightarrow> active c \<Longrightarrow> \<not> cancels es (call_op c) \<Longrightarrow> call_key c = k \<Longrightarrow>
      map_of (tables (b_handles B)) k = Some (call_serial c, t) \<Longrightarrow>
      call_op c \<in> set (filed (grantOperations t) (grant_id (call_grant c))) \<Longrightarrow>
      call_inv (issued BE B) (currentGrant (b_ledger B) k) (queued Q k) t c \<Longrightarrow>
      \<exists>t'. map_of (tables (b_handles B')) k = Some (call_serial c, t') \<and>
        call_op c \<in> set (filed (grantOperations t') (grant_id (call_grant c))) \<and>
        call_inv (issued BE B') (currentGrant (b_ledger B') k) (queued Q' k) t' c"
  shows "net_inv BE (B', Q', ts', abort_calls es cs)"
proof (rule net_invI [OF L T])
  show "canonical BE k' = Inr k' \<and> g \<in> issued BE B' \<and> \<not> live (currentGrant (b_ledger B') k') g"
    if "g \<in> queued Q' k'" for k' g
  proof (cases "k' = k")
    case False
    then show ?thesis using net_invD(3) [OF inv, of g k'] other [OF False] that U by auto
  qed (use Q that in simp)
  show "table_inv (issued BE B') (currentGrant (b_ledger B') k') (queued Q' k') t"
    if "map_of (tables (b_handles B')) k' = Some (s, t)" for k' s t
  proof (cases "k' = k")
    case False
    then have "table_inv (issued BE B) (currentGrant (b_ledger B) k') (queued Q k') t"
      using that other [OF False] net_invD(4) [OF inv] by simp
    then show ?thesis using table_inv_shifted [OF _ shifted_refl U subset_refl] other [OF False] by simp
  qed (use tab that in simp)
  have keep: "call_ok (issued BE B') (currentGrant (b_ledger B') (call_key c)) (queued Q' (call_key c)) (b_handles B') c"
    if c: "c \<in> set cs" "\<not> cancels es (call_op c)" for c
  proof (rule call_okI [OF net_invD(6) [OF inv c(1)]])
    assume a: "active c"
    obtain t where t: "map_of (tables (b_handles B)) (call_key c) = Some (call_serial c, t)"
      "call_op c \<in> set (filed (grantOperations t) (grant_id (call_grant c)))"
      "call_inv (issued BE B) (currentGrant (b_ledger B) (call_key c)) (queued Q (call_key c)) t c"
      by (rule call_okE [OF net_invD(6) [OF inv c(1)] a])
    show "\<exists>t. map_of (tables (b_handles B')) (call_key c) = Some (call_serial c, t) \<and>
        call_op c \<in> set (filed (grantOperations t) (grant_id (call_grant c))) \<and>
        call_inv (issued BE B') (currentGrant (b_ledger B') (call_key c)) (queued Q' (call_key c)) t c"
    proof (cases "call_key c = k")
      case True
      then show ?thesis using calls [OF c(1) a c(2) True] t by simp
    next
      case False
      then show ?thesis
        using t other [OF False] call_inv_shifted [OF t(3) shifted_refl U subset_refl] by simp
    qed
  qed
  show "canonical BE (call_key c') = Inr (call_key c') \<and>
      call_ok (issued BE B') (currentGrant (b_ledger B') (call_key c')) (queued Q' (call_key c')) (b_handles B') c'"
    if "c' \<in> set (abort_calls es cs)" for c'
    using that by (cases rule: abort_callsE) (use keep net_invD(5) [OF inv] call_ok_aborted [OF net_invD(6) [OF inv]] in auto)
qed

subsection \<open>A step of the ledger\<close>

lemma net_inv_ledger:
  assumes inv: "net_inv BE (B, Q, ts, cs)" and inj: "inj (mint (b_env BE))" and key: "canonical BE k = Inr k"
    and ev: "evolves (b_env BE) (b_ledger B) k L'" and out: "set out = Pair k ` lost (b_ledger B) L' k"
  shows "net_inv BE (B\<lparr>b_ledger := L', pinnedManifests := pm\<rparr>, Q @ out, ts, cs)"
proof -
  let ?L = "b_ledger B" and ?B = "B\<lparr>b_ledger := L', pinnedManifests := pm\<rparr>"
  let ?q = "queued (Q @ out) k"
  have ok: "ledger_ok (b_env BE) ?L" by (rule net_invD(1) [OF inv])
  have U: "issued BE B \<subseteq> issued BE ?B" using evolves_minted [OF ev] by (auto simp: issued_def)
  have q: "?q = queued Q k \<union> lost ?L L' k" using out by (auto simp: queued_def)
  have fresh: "currentGrant ?L k kind = Some gr \<or> grant_id gr \<notin> issued BE B" if "currentGrant L' k kind = Some gr" for kind gr
    using evolves_fresh [OF inj ok ev that] by (simp add: issued_def)
  have sh: "shifted (issued BE B) (currentGrant ?L k) (currentGrant L' k) ?q"
    unfolding shifted_def q using fresh by (auto simp: lost_def)
  have slot: "one_slot (issued BE B) (currentGrant ?L k)" using ledger_one_slot [OF ok] by (simp add: issued_def)
  have gone: "x \<in> issued BE B \<and> \<not> live (currentGrant L' k) x" if x: "x \<in> lost ?L L' k" for x
  proof -
    obtain kind g where g: "x = grant_id g" "currentGrant ?L k kind = Some g" "currentGrant L' k kind \<noteq> Some g"
      using x unfolding lost_def by blast
    then have xU: "x \<in> issued BE B" using slot unfolding one_slot_def by blast
    moreover have "grant_id gr \<noteq> x" if l: "currentGrant L' k kd = Some gr" for kd gr
    proof
      assume e: "grant_id gr = x"
      then have "currentGrant ?L k kd = Some gr" using fresh [OF l] xU by blast
      then have "kd = kind" using slot g e unfolding one_slot_def by blast
      then show False using \<open>currentGrant ?L k kd = Some gr\<close> l g by simp
    qed
    ultimately show ?thesis unfolding live_def by blast
  qed
  have "net_inv BE (?B, Q @ out, ts, abort_calls [] cs)"
  proof (rule net_inv_one [OF inv _ _ U, of _ k])
    show "ledger_ok (b_env BE) (b_ledger ?B)" using ledger_ok_evolves [OF inj ok ev] by simp
    show "registry_ok (b_handles ?B) ts" using net_invD(2) [OF inv] by simp
    show "currentGrant (b_ledger ?B) k' = currentGrant ?L k' \<and>
        map_of (tables (b_handles ?B)) k' = map_of (tables (b_handles B)) k' \<and> queued (Q @ out) k' = queued Q k'"
      if "k' \<noteq> k" for k'
      using that evolves_other [OF ev that] out by (auto simp: queued_def)
    show "canonical BE k = Inr k \<and> g \<in> issued BE ?B \<and> \<not> live (currentGrant (b_ledger ?B) k) g" if "g \<in> ?q" for g
    proof -
      consider "g \<in> queued Q k" | "g \<in> lost ?L L' k" using \<open>g \<in> ?q\<close> q by blast
      then have "g \<in> issued BE B \<and> \<not> live (currentGrant L' k) g"
        using net_invD(3) [OF inv] shifted_dead [OF sh] gone by cases blast+
      then show ?thesis using key U by auto
    qed
    have le: "queued Q k \<subseteq> ?q" using q by blast
    show "table_inv (issued BE ?B) (currentGrant (b_ledger ?B) k) ?q t"
      if "map_of (tables (b_handles ?B)) k = Some (s, t)" for s t
    proof -
      have "table_inv (issued BE B) (currentGrant ?L k) (queued Q k) t" using that net_invD(4) [OF inv] by simp
      from table_inv_shifted [OF this sh U le] show ?thesis by simp
    qed
    fix c t assume t: "map_of (tables (b_handles B)) k = Some (call_serial c, t)"
      "call_op c \<in> set (filed (grantOperations t) (grant_id (call_grant c)))"
      and c: "call_inv (issued BE B) (currentGrant ?L k) (queued Q k) t c"
    show "\<exists>t'. map_of (tables (b_handles ?B)) k = Some (call_serial c, t') \<and>
        call_op c \<in> set (filed (grantOperations t') (grant_id (call_grant c))) \<and>
        call_inv (issued BE ?B) (currentGrant (b_ledger ?B) k) ?q t' c"
      using t call_inv_shifted [OF c sh U le] by simp
  qed
  then show ?thesis by simp
qed


subsection \<open>A table is rewritten\<close>

lemma cancels_iff: "cancels es op \<longleftrightarrow> (\<exists>e. OnHandles (Cancel op e) \<in> set es)"
proof -
  have n: "(case x of OnHandles (Cancel op' e) \<Rightarrow> op' = op | _ \<Rightarrow> False) \<longleftrightarrow> (\<exists>e. x = OnHandles (Cancel op e))" for x
  proof (cases x)
    case (OnHandles y)
    then show ?thesis by (cases y) auto
  qed auto
  show ?thesis unfolding cancels_def list_ex_iff n by blast
qed

lemma reap_at:
  "map_of (tables (reap k s t' T)) k' =
     (if k' = k then (if dropping t' \<or> \<not> holds_nothing t' then Some (s, t') else None) else map_of (tables T) k')"
  by (simp add: reap_def deleteIfCurrent_def update_conv' delete_conv')

lemma reap_holds:
  assumes "op \<in> set (filed (grantOperations t') g)"
  shows "map_of (tables (reap k s t' T)) k = Some (s, t')"
proof -
  have "grantOperations t' \<noteq> []" using assms by (auto simp: filed_def)
  then show ?thesis by (simp add: reap_at holds_nothing_def)
qed

lemma getOrCreate_at:
  assumes "getOrCreate T k = (T1, s, t)"
  shows "k' \<noteq> k \<Longrightarrow> map_of (tables T1) k' = map_of (tables T) k'"
    and "map_of (tables T) k = Some (s', t') \<Longrightarrow> s = s' \<and> t = t'"
    and "map_of (tables T) k = Some (s, t) \<or> blank t"
  using assms carries_getOrCreate(3) [OF assms]
  by (auto simp: getOrCreate_def update_conv' blank_def new_table_def split: option.splits)

lemma roomyD: "roomy T \<Longrightarrow> map_of (tables T) k = Some (s, t) \<Longrightarrow> length (revokedGrants t) < REVOKED_GRANT_MEMORY"
  by (auto simp: roomy_def dest: map_of_SomeD)

lemma canonical_key: "canonical BE o' = Inr k \<longleftrightarrow> registry_key (t_env BE) o' = Inr k"
  by (auto simp: canonical_def registry_key_def t_env_def split: option.splits)

lemma net_inv_reaped:
  assumes inv: "net_inv BE (B, Q, ts, cs)" and key: "canonical BE k = Inr k"
    and g: "getOrCreate (b_handles B) k = (T1, s, t)" and T': "T' = reap k s t' T1" and T: "registry_ok T' ts"
    and room: "roomy T'"
    and B': "b_handles B' = T'" and L: "ledger_ok (b_env BE) (b_ledger B')" and U: "issued BE B \<subseteq> issued BE B'"
    and other: "\<And>k'. k' \<noteq> k \<Longrightarrow> currentGrant (b_ledger B') k' = currentGrant (b_ledger B) k'"
    and Q: "\<And>k'. k' \<noteq> k \<Longrightarrow> queued Q' k' = queued Q k'"
      "\<And>x. x \<in> queued Q' k \<Longrightarrow> x \<in> issued BE B' \<and> \<not> live (currentGrant (b_ledger B') k) x"
    and tab: "table_inv (issued BE B) (currentGrant (b_ledger B) k) (queued Q k) t \<Longrightarrow>
      table_inv (issued BE B') (currentGrant (b_ledger B') k) (queued Q' k) t'"
    and calls: "\<And>c. \<not> cancels es (call_op c) \<Longrightarrow>
      call_op c \<in> set (filed (grantOperations t) (grant_id (call_grant c))) \<Longrightarrow>
      call_inv (issued BE B) (currentGrant (b_ledger B) k) (queued Q k) t c \<Longrightarrow>
      table_inv (issued BE B) (currentGrant (b_ledger B) k) (queued Q k) t \<Longrightarrow>
      call_op c \<in> set (filed (grantOperations t') (grant_id (call_grant c))) \<and>
      (length (revokedGrants t') < REVOKED_GRANT_MEMORY \<longrightarrow>
        call_inv (issued BE B') (currentGrant (b_ledger B') k) (queued Q' k) t' c)"
  shows "net_inv BE (B', Q', ts, abort_calls es cs)"
proof (rule net_inv_one [OF inv L _ U, of _ k])
  note at = getOrCreate_at [OF g]
  have t: "table_inv (issued BE B) (currentGrant (b_ledger B) k) (queued Q k) t"
    using at(3) net_invD(4) [OF inv] table_inv_blank by blast
  show "registry_ok (b_handles B') ts" using T B' by simp
  show "currentGrant (b_ledger B') k' = currentGrant (b_ledger B) k' \<and>
      map_of (tables (b_handles B')) k' = map_of (tables (b_handles B)) k' \<and> queued Q' k' = queued Q k'"
    if "k' \<noteq> k" for k'
    using other [OF that] Q(1) [OF that] at(1) [OF that] that by (simp add: B' T' reap_at)
  show "canonical BE k = Inr k \<and> x \<in> issued BE B' \<and> \<not> live (currentGrant (b_ledger B') k) x"
    if "x \<in> queued Q' k" for x
    using key Q(2) [OF that] by blast
  show "table_inv (issued BE B') (currentGrant (b_ledger B') k) (queued Q' k) t2"
    if "map_of (tables (b_handles B')) k = Some (s2, t2)" for s2 t2
    using that tab [OF t] by (simp add: B' T' reap_at split: if_splits)
  fix c t0 assume a: "\<not> cancels es (call_op c)" and m: "map_of (tables (b_handles B)) k = Some (call_serial c, t0)"
    and op: "call_op c \<in> set (filed (grantOperations t0) (grant_id (call_grant c)))"
    and c: "call_inv (issued BE B) (currentGrant (b_ledger B) k) (queued Q k) t0 c"
  have eq: "t0 = t" "call_serial c = s" using at(2) [OF m] by simp_all
  note new = calls [OF a op [unfolded eq] c [unfolded eq] t]
  have put: "map_of (tables T') k = Some (s, t')" unfolding T' by (rule reap_holds) (use new in blast)
  then show "\<exists>t'. map_of (tables (b_handles B')) k = Some (call_serial c, t') \<and>
      call_op c \<in> set (filed (grantOperations t') (grant_id (call_grant c))) \<and>
      call_inv (issued BE B') (currentGrant (b_ledger B') k) (queued Q' k) t' c"
    using new roomyD [OF room put] B' eq(2) by auto
qed

subsection \<open>Revoking\<close>

lemma revoke_parts:
  assumes "registry_key env k = Inr k" and "revoke env k g T = (T', es, res)"
  obtains T1 s t t' where "getOrCreate T k = (T1, s, t)" and "revoke_tasks (t_callbacks env) [Enter g] t = (t', es)"
    and "T' = reap k s t' T1" and "res = Inr ()"
proof -
  obtain T1 s t where c: "getOrCreate T k = (T1, s, t)" by (cases "getOrCreate T k") auto
  obtain t' e1 where v: "revoke_tasks (t_callbacks env) [Enter g] t = (t', e1)" by fastforce
  show thesis
    by (rule that [OF c, of t']) (use assms c v in \<open>simp_all add: revoke_def del: revoke_tasks.simps\<close>)
qed

lemma net_inv_revoked:
  assumes inv: "net_inv BE (B, Q, ts, cs)" and key: "canonical BE k = Inr k" and g: "g \<in> issued BE B"
    and r: "revoke (t_env BE) k g (b_handles B) = (T', hs, res)" and room: "roomy T'"
    and B': "b_handles B' = T'" and L: "ledger_ok (b_env BE) (b_ledger B')"
    and un: "unlive g (currentGrant (b_ledger B) k) (currentGrant (b_ledger B') k)"
    and other: "\<And>k'. k' \<noteq> k \<Longrightarrow> currentGrant (b_ledger B') k' = currentGrant (b_ledger B) k'"
    and minted: "minted (b_ledger B') = minted (b_ledger B)"
    and Q: "\<And>k'. k' \<noteq> k \<Longrightarrow> queued Q' k' = queued Q k'" "queued Q k - {g} \<subseteq> queued Q' k" "queued Q' k \<subseteq> queued Q k"
    and es: "OnHandles ` set hs \<subseteq> set es"
  shows "net_inv BE (B', Q', ts, abort_calls es cs)"
proof -
  have same: "issued BE B' = issued BE B" by (simp add: issued_def minted)
  obtain T1 s t t' where c: "getOrCreate (b_handles B) k = (T1, s, t)"
    and v: "revoke_tasks (t_callbacks (t_env BE)) [Enter g] t = (t', hs)" and T': "T' = reap k s t' T1"
    by (rule revoke_parts [OF key [unfolded canonical_key] r])
  have ok: "table_ok t"
    using good_ok [OF registry_okD(3) [OF registry_ok_getOrCreate [OF net_invD(2) [OF inv] c]]] .
  have v': "revoked_all (withdrawn t [Enter g]) t t' hs" by (rule revoke_tasks_effect [OF v ok, THEN conjunct2])
  note f = revoke_tasks_forgets [OF v ok]
  show ?thesis
  proof (rule net_inv_reaped [OF inv key c T' _ room B' L _ other Q(1)])
    show "registry_ok T' ts" by (rule registry_ok_revoke [OF net_invD(2) [OF inv] r])
    show "issued BE B \<subseteq> issued BE B'" using same by simp
    show "x \<in> issued BE B' \<and> \<not> live (currentGrant (b_ledger B') k) x" if "x \<in> queued Q' k" for x
      using net_invD(3) [OF inv, of x k] that Q(3) unlive_live [OF un] same by auto
    show "table_inv (issued BE B') (currentGrant (b_ledger B') k) (queued Q' k) t'"
      if "table_inv (issued BE B) (currentGrant (b_ledger B) k) (queued Q k) t"
      unfolding same by (rule table_inv_revoked [OF that g un Q(2) v' f])
    fix c assume n: "\<not> cancels es (call_op c)"
      and op: "call_op c \<in> set (filed (grantOperations t) (grant_id (call_grant c)))"
      and ci: "call_inv (issued BE B) (currentGrant (b_ledger B) k) (queued Q k) t c"
    have out: "grant_id (call_grant c) \<notin> withdrawn t [Enter g]"
    proof
      assume "grant_id (call_grant c) \<in> withdrawn t [Enter g]"
      then have "Cancel (call_op c) withdrawn_error \<in> set hs" using v' op by (simp add: revoked_all_def)
      then have "OnHandles (Cancel (call_op c) withdrawn_error) \<in> set es" using es by blast
      then show False using n unfolding cancels_iff by blast
    qed
    then have "filed (grantOperations t') (grant_id (call_grant c)) = filed (grantOperations t) (grant_id (call_grant c))"
      using v' unfolding revoked_all_def by simp
    then show "call_op c \<in> set (filed (grantOperations t') (grant_id (call_grant c))) \<and>
        (length (revokedGrants t') < REVOKED_GRANT_MEMORY \<longrightarrow>
          call_inv (issued BE B') (currentGrant (b_ledger B') k) (queued Q' k) t' c)"
      using op call_inv_revoked [OF ci un Q(2) f _ out] same by simp
  qed
qed


subsection \<open>Granting\<close>

lemma net_inv_abort:
  assumes "net_inv BE (B, Q, ts, cs)" shows "net_inv BE (B, Q, ts, abort_calls es cs)"
  using net_inv_tables [OF assms carries_refl net_invD(2) [OF assms], of "{}" es] by simp

lemma grantIssued_new:
  assumes "registry_key env k = Inr k" and "grantIssued env k g T = (T', hs, res)"
    and new: "\<And>s t. map_of (tables T) k = Some (s, t) \<Longrightarrow> g \<notin> set (revokedGrants t)"
  shows "carries {} T T'" and "hs = []" and "res = Inr ()"
proof -
  have "carries {} T T' \<and> hs = [] \<and> res = Inr ()"
  proof (cases "map_of (tables T) k")
    case None
    then show ?thesis using assms by (simp add: grantIssued_def existing_table_def)
  next
    case (Some st)
    obtain s t where k: "map_of (tables T) k = Some (s, t)" using Some by (cases st) simp
    have "removeAll g (revokedGrants t) = revokedGrants t" using new [OF k] by simp
    then have "T' = put_table k s t T" "hs = []" "res = Inr ()"
      using assms(1,2) k by (simp_all add: grantIssued_def existing_table_def)
    then show ?thesis using carries_put [OF k carried_refl] by simp
  qed
  then show "carries {} T T'" "hs = []" "res = Inr ()" by blast+
qed

lemma replaceGrant_parts:
  assumes "registry_key env k = Inr k" and "replaceGrant env k a b ps ca T = (T', hs, res)"
  obtains T1 s t t' where "getOrCreate T k = (T1, s, t)" and "replaceGrantIn (t_callbacks env) a b ps ca t = (t', hs)"
    and "T' = reap k s t' T1" and "res = Inr ()"
proof -
  obtain T1 s t where c: "getOrCreate T k = (T1, s, t)" by (cases "getOrCreate T k") auto
  obtain t' e1 where v: "replaceGrantIn (t_callbacks env) a b ps ca t = (t', e1)" by fastforce
  show thesis
    by (rule that [OF c, of t']) (use assms c v in \<open>simp_all add: replaceGrant_def\<close>)
qed

lemma net_inv_regranted:
  assumes inv: "net_inv BE (B, Q, ts, cs)" and key: "canonical BE k = Inr k"
    and ev: "ledger_ok (b_env BE) L'"
    and G': "regranted (issued BE B) (currentGrant (b_ledger B) k) (currentGrant L' k) gr"
    and other: "\<And>k'. k' \<noteq> k \<Longrightarrow> currentGrant L' k' = currentGrant (b_ledger B) k'"
    and old: "currentGrant (b_ledger B) k (capability gr) = Some old" and fits: "fit (capability gr) (patterns gr)"
    and r: "replaceGrant (t_env BE) k (grant_id old) (grant_id gr) (patterns gr)
      (covers_all (capability gr) (patterns gr) (patterns old)) (b_handles B) = (T', hs, res)"
    and room: "roomy T'" and B': "b_handles B' = T'" "b_ledger B' = L'"
    and U': "issued BE B' = insert (grant_id gr) (issued BE B)"
    and es: "OnHandles ` set hs \<subseteq> set es"
  shows "net_inv BE (B', Q, ts, abort_calls es cs)"
proof -
  let ?ca = "covers_all (capability gr) (patterns gr) (patterns old)"
  let ?U = "issued BE B" and ?G = "currentGrant (b_ledger B) k" and ?q = "queued Q k"
  obtain T1 s t t' where c: "getOrCreate (b_handles B) k = (T1, s, t)"
    and v: "replaceGrantIn (t_callbacks (t_env BE)) (grant_id old) (grant_id gr) (patterns gr) ?ca t = (t', hs)"
    and T': "T' = reap k s t' T1"
    by (rule replaceGrant_parts [OF key [unfolded canonical_key] r])
  have ok: "table_ok t"
    using good_ok [OF registry_okD(3) [OF registry_ok_getOrCreate [OF net_invD(2) [OF inv] c]]] .
  have slot: "one_slot ?U ?G" using ledger_one_slot [OF net_invD(1) [OF inv]] by (simp add: issued_def)
  have q: "\<forall>x\<in>?q. x \<in> ?U \<and> \<not> live ?G x" using net_invD(3) [OF inv] by blast
  note f = replaced_facts [OF v ok]
  show ?thesis
  proof (rule net_inv_reaped [OF inv key c T' _ room B'(1)])
    show "registry_ok T' ts" by (rule registry_ok_replaceGrant [OF net_invD(2) [OF inv] r])
    show "ledger_ok (b_env BE) (b_ledger B')" using ev B'(2) by simp
    show "?U \<subseteq> issued BE B'" using U' by blast
    show "currentGrant (b_ledger B') k' = currentGrant (b_ledger B) k'" if "k' \<noteq> k" for k'
      using other [OF that] B'(2) by simp
    show "queued Q k' = queued Q k'" for k' by (rule refl)
    show "x \<in> issued BE B' \<and> \<not> live (currentGrant (b_ledger B') k) x" if "x \<in> ?q" for x
      using q that regranted_live [OF G' slot] U' B'(2) by simp
    show "table_inv (issued BE B') (currentGrant (b_ledger B') k) ?q t'" if "table_inv ?U ?G ?q t"
      using table_inv_replaced [OF that G' slot old q U' v ok] B'(2) by simp
    fix c assume n: "\<not> cancels es (call_op c)" and tab: "table_inv ?U ?G ?q t"
      and op: "call_op c \<in> set (filed (grantOperations t) (grant_id (call_grant c)))"
      and ci: "call_inv ?U ?G ?q t c"
    have out: "grant_id (call_grant c) \<noteq> grant_id old" if m: "\<not> ?ca"
    proof
      assume "grant_id (call_grant c) = grant_id old"
      then obtain e where "Cancel (call_op c) e \<in> set hs" using f(6) [OF m] op by auto
      then have "OnHandles (Cancel (call_op c) e) \<in> set es" using es by blast
      then show False using n unfolding cancels_iff by blast
    qed
    have "call_op c \<in> set (filed (grantOperations t') (grant_id (call_grant c)))"
      using op f(3,5) out by (cases ?ca) auto
    then show "call_op c \<in> set (filed (grantOperations t') (grant_id (call_grant c))) \<and>
        (length (revokedGrants t') < REVOKED_GRANT_MEMORY \<longrightarrow>
          call_inv (issued BE B') (currentGrant (b_ledger B') k) ?q t' c)"
      using call_inv_replaced [OF ci tab G' slot old q U' fits refl v ok] out B'(2) by simp
  qed
qed

lemma grant_minted:
  assumes "grant_capability env fails L k kind ps t = (L', res)" shows "minted L' = Suc (minted L)"
proof -
  obtain L1 r where r: "record_of env (L\<lparr>minted := Suc (minted L)\<rparr>) k = (L1, r)" by fastforce
  then have "minted L1 = Suc (minted L)" using record_of_props(3) [OF r] by simp
  then show ?thesis using assms r
    by (auto simp: grant_capability_def Let_def split: prod.splits outcome.splits)
qed

lemma net_inv_granted:
  assumes inv: "net_inv BE (B, Q, ts, cs)" and inj: "inj (mint (b_env BE))" and key: "canonical BE k = Inr k"
    and o': "canonical BE o' = Inr k" and fits: "fit kind ps"
    and r: "broker_grant BE fails B o' kind ps at_time = (B', es, res)" and room: "roomy (b_handles B')"
  shows "net_inv BE (B', Q, ts, abort_calls es cs)"
proof -
  let ?L = "b_ledger B" and ?U = "issued BE B"
  obtain L' lres where g: "grant_capability (b_env BE) fails ?L k kind ps at_time = (L', lres)" by fastforce
  obtain gr where gr: "gr = \<lparr>grant_id = mint (b_env BE) (minted ?L), grant_origin = k, capability = kind,
                  patterns = ps, grantedAt = at_time\<rparr>" by simp
  have eff: "currentGrant L' o2 kd = (if o2 = k \<and> kd = kind then Some gr else currentGrant ?L o2 kd)" for o2 kd
    using grant_effect(1) [OF g] by (simp add: gr)
  have now: "currentGrant L' k kind = Some gr" by (simp add: eff)
  have new: "grant_id gr \<notin> ?U" using inj by (auto simp: gr issued_def dest: injD)
  have U': "issued BE B2 = insert (grant_id gr) ?U" if "b_ledger B2 = L'" for B2
    using that grant_minted [OF g] by (simp add: issued_def gr lessThan_Suc)
  have ev: "evolves (b_env BE) ?L k L'" by (rule evolves_grant [OF g])
  note ok' = ledger_ok_evolves [OF inj net_invD(1) [OF inv] ev]
  obtain T2 h2 r2 where gi: "grantIssued (t_env BE) k (grant_id gr) (b_handles B) = (T2, h2, r2)"
    using prod_cases3 by blast
  have nr: "grant_id gr \<notin> set (revokedGrants t)" if "map_of (tables (b_handles B)) k = Some (s, t)" for s t
    using net_invD(4) [OF inv that] new unfolding table_inv_def by blast
  have gi': "carries {} (b_handles B) T2" "h2 = []" "r2 = Inr ()"
    using grantIssued_new [OF key [unfolded canonical_key] gi] nr by blast+
  have inv2: "net_inv BE (B\<lparr>b_handles := T2\<rparr>, Q, ts, cs)"
    using net_inv_tables [OF inv gi'(1) registry_ok_grantIssued [OF net_invD(2) [OF inv] gi], where es = "[]"] by simp
  show ?thesis
  proof (cases "currentGrant ?L k kind")
    case None
    have B': "B' = B\<lparr>b_ledger := L', b_handles := T2\<rparr>"
      using r o' g now gi gi'(2,3) None by (auto simp: broker_grant_def Let_def split: outcome.splits)
    have "lost ?L L' k = {}" using None by (auto simp: lost_def eff)
    then have "net_inv BE (B\<lparr>b_handles := T2, b_ledger := L', pinnedManifests := pinnedManifests B\<rparr>, Q @ [], ts, cs)"
      using net_inv_ledger [OF inv2 inj key, where L' = L' and out = "[]" and pm = "pinnedManifests B"] ev by simp
    moreover have "B\<lparr>b_handles := T2, b_ledger := L', pinnedManifests := pinnedManifests B\<rparr> = B'"
      by (cases B) (simp add: B')
    ultimately have "net_inv BE (B', Q, ts, cs)" by (simp only: append_Nil2)
    then show ?thesis using net_inv_abort by simp
  next
    case (Some old)
    obtain T3 h3 r3 where rp: "replaceGrant (t_env BE) k (grant_id old) (grant_id gr) (patterns gr)
        (covers_all kind (patterns gr) (patterns old)) T2 = (T3, h3, r3)" using prod_cases3 by blast
    have r3: "r3 = Inr ()" by (rule replaceGrant_parts [OF key [unfolded canonical_key] rp])
    have B': "B' = B\<lparr>b_ledger := L', b_handles := T3\<rparr>" "OnHandles ` set h3 \<subseteq> set es"
      using r o' g now gi gi'(2,3) Some rp r3 by (auto simp: broker_grant_def Let_def split: outcome.splits)
    have kd: "capability gr = kind" by (simp add: gr)
    show ?thesis
    proof (rule net_inv_regranted [OF inv2 key ok' _ _ _ _ _ _ _ _ _ B'(2), of gr old T3])
      show "regranted (issued BE (B\<lparr>b_handles := T2\<rparr>)) (currentGrant (b_ledger (B\<lparr>b_handles := T2\<rparr>)) k) (currentGrant L' k) gr"
        using new by (simp add: regranted_def kd eff fun_eq_iff)
      show "currentGrant L' k' = currentGrant (b_ledger (B\<lparr>b_handles := T2\<rparr>)) k'" if "k' \<noteq> k" for k'
        using that by (simp add: eff fun_eq_iff)
      show "currentGrant (b_ledger (B\<lparr>b_handles := T2\<rparr>)) k (capability gr) = Some old" using Some by (simp add: kd)
      show "fit (capability gr) (patterns gr)" using fits by (simp add: gr)
      show "replaceGrant (t_env BE) k (grant_id old) (grant_id gr) (patterns gr)
          (covers_all (capability gr) (patterns gr) (patterns old)) (b_handles (B\<lparr>b_handles := T2\<rparr>)) = (T3, h3, r3)"
        using rp by (simp add: kd)
      show "roomy T3" "b_handles B' = T3" "b_ledger B' = L'" using room B'(1) by simp_all
      then show "issued BE B' = insert (grant_id gr) (issued BE (B\<lparr>b_handles := T2\<rparr>))" using U' by simp
    qed
  qed
qed


section \<open>Every step keeps the invariant\<close>

lemma net_inv_same:
  assumes inv: "net_inv BE (B, Q, ts, cs)" and L: "ledger_ok (b_env BE) L'"
    and same: "currentGrant L' = currentGrant (b_ledger B)" "minted L' = minted (b_ledger B)"
  shows "net_inv BE (B\<lparr>b_ledger := L'\<rparr>, Q, ts, cs)"
proof -
  have "issued BE (B\<lparr>b_ledger := L'\<rparr>) = issued BE B" by (simp add: issued_def same(2))
  then show ?thesis using inv L by (simp add: net_inv_def same(1))
qed

lemma queue_pairs: "set (map (\<lambda>s. (k, sup_id s)) ss) = Pair k ` sup_id ` set ss"
  by (simp add: image_image)

lemma net_inv_registers:
  assumes inv: "net_inv BE (B, Q, ts, cs)" and inj: "inj (mint (b_env BE))" and st: "keys_stable BE"
    and r: "broker_registerApp BE fails B o' m = (B', out, res)"
  shows "net_inv BE (B', Q @ out, ts, cs)"
proof (cases "canonical BE o'")
  case (Inl e)
  then show ?thesis using r inv by (simp add: broker_registerApp_def)
next
  case (Inr k)
  obtain L1 ss where h: "hydrateGrantsOnFirstRegistration (b_env BE) (b_ledger B) k m = (L1, ss)" by fastforce
  obtain L2 lres where g: "registerApp (b_env BE) fails L1 k m = (L2, lres)" by fastforce
  have B': "B' = B\<lparr>b_ledger := L2\<rparr>" "out = map (\<lambda>s. (k, sup_id s)) ss"
    using r Inr h g by (simp_all add: broker_registerApp_def)
  obtain L0 r0 where r0: "record_of (b_env BE) L1 k = (L0, r0)" by fastforce
  have "currentGrant L2 = currentGrant L1" by (rule registerApp_grants [OF r0 first_hydrated [OF h r0] g])
  then have "sup_id ` set ss = lost (b_ledger B) L2 k"
    using first_lost [OF net_invD(1) [OF inv] inj h] by (simp add: lost_def)
  then have "set out = Pair k ` lost (b_ledger B) L2 k" unfolding B'(2) queue_pairs by simp
  moreover have "evolves (b_env BE) (b_ledger B) k L2"
    by (rule evolves_trans [OF evolves_first [OF h] evolves_register [OF g]])
  ultimately have "net_inv BE (B\<lparr>b_ledger := L2, pinnedManifests := pinnedManifests B\<rparr>, Q @ out, ts, cs)"
    using net_inv_ledger [OF inv inj stable_key [OF st Inr]] by blast
  moreover have "B\<lparr>b_ledger := L2, pinnedManifests := pinnedManifests B\<rparr> = B'" by (cases B) (simp add: B'(1))
  ultimately show ?thesis by simp
qed

lemma net_inv_restores:
  assumes inv: "net_inv BE (B, Q, ts, cs)" and inj: "inj (mint (b_env BE))" and st: "keys_stable BE"
    and r: "broker_hydrateFromPinnedManifest BE B o' m = (B', out, res)"
  shows "net_inv BE (B', Q @ out, ts, cs)"
proof (cases "canonical BE o'")
  case (Inl e)
  then show ?thesis using r inv by (simp add: broker_hydrateFromPinnedManifest_def)
next
  case (Inr k)
  obtain L1 ss where h: "hydrateFromPinnedManifest (b_env BE) (b_ledger B) k m = (L1, ss)" by fastforce
  have B': "B' = B\<lparr>b_ledger := L1, pinnedManifests := AList.update k m (pinnedManifests B)\<rparr>"
    "out = map (\<lambda>s. (k, sup_id s)) ss"
    using r Inr h by (simp_all add: broker_hydrateFromPinnedManifest_def)
  have "set out = Pair k ` lost (b_ledger B) L1 k"
    unfolding B'(2) queue_pairs pinned_lost [OF net_invD(1) [OF inv] inj h] by (rule refl)
  then show ?thesis
    unfolding B'(1) using net_inv_ledger [OF inv inj stable_key [OF st Inr] evolves_pinned [OF h]] by blast
qed

lemma net_inv_acknowledges:
  assumes inv: "net_inv BE (B, Q, ts, cs)" and inj: "inj (mint (b_env BE))"
    and r: "broker_acknowledgeRollback BE fails B o' v = (B', es, res)"
  shows "net_inv BE (B', Q, ts, cs)"
proof (cases "canonical BE o'")
  case (Inl e)
  then show ?thesis using r inv by (simp add: broker_acknowledgeRollback_def)
next
  case (Inr k)
  obtain L1 lres where a: "acknowledgeRollback (b_env BE) fails (b_ledger B) k v = (L1, lres)" by fastforce
  have B': "B' = B\<lparr>b_ledger := L1\<rparr>" using r Inr a by (simp add: broker_acknowledgeRollback_def)
  have "minted L1 = minted (b_ledger B)"
  proof -
    obtain L0 r0 where r0: "record_of (b_env BE) (b_ledger B) k = (L0, r0)" by fastforce
    then show ?thesis using a record_of_props(3) [OF r0]
      by (auto simp: acknowledgeRollback_def split: prod.splits)
  qed
  then show ?thesis
    unfolding B' using net_inv_same [OF inv ledger_ok_evolves [OF inj net_invD(1) [OF inv] evolves_ack [OF a]] ack_grants [OF a]] by blast
qed

lemma net_inv_cascades:
  assumes inv: "net_inv BE (B, Q, ts, cs)" and q: "(k, g) \<in> set Q"
    and r: "broker_cascade BE B k g = (B', es, res)" and room: "roomy (b_handles B')"
  shows "net_inv BE (B', remove1 (k, g) Q, ts, abort_calls es cs)"
proof -
  obtain T hs ores where rv: "revoke (t_env BE) k g (b_handles B) = (T, hs, ores)" using prod_cases3 by blast
  have B': "B' = B\<lparr>b_handles := T\<rparr>" "es = map OnHandles hs"
    using r rv by (simp_all add: broker_cascade_def)
  have g: "canonical BE k = Inr k" "g \<in> issued BE B" "\<not> live (currentGrant (b_ledger B) k) g"
    using net_invD(3) [OF inv, of g k] q by (simp_all add: queued_def)
  have eq: "(x, y) \<in> set (remove1 z Q) \<longleftrightarrow> (x, y) \<in> set Q" if "(x, y) \<noteq> z" for x y z
    using that in_set_remove1 by metis
  show ?thesis
  proof (rule net_inv_revoked [OF inv g(1,2) rv])
    show "roomy T" "b_handles B' = T" using room B'(1) by simp_all
    show "ledger_ok (b_env BE) (b_ledger B')" "minted (b_ledger B') = minted (b_ledger B)"
      using net_invD(1) [OF inv] B'(1) by simp_all
    show "unlive g (currentGrant (b_ledger B) k) (currentGrant (b_ledger B') k)"
      using g(3) B'(1) by (auto simp: unlive_def live_def)
    show "currentGrant (b_ledger B') k' = currentGrant (b_ledger B) k'" for k' using B'(1) by simp
    show "queued (remove1 (k, g) Q) k' = queued Q k'" if "k' \<noteq> k" for k'
      using eq [of k' _ "(k, g)"] that by (auto simp: queued_def)
    show "queued Q k - {g} \<subseteq> queued (remove1 (k, g) Q) k" using eq [of k _ "(k, g)"] by (auto simp: queued_def)
    show "queued (remove1 (k, g) Q) k \<subseteq> queued Q k" using set_remove1_subset by (fastforce simp: queued_def)
    show "OnHandles ` set hs \<subseteq> set es" by (simp add: B'(2))
  qed
qed

lemma net_inv_revokes:
  assumes inv: "net_inv BE (B, Q, ts, cs)" and inj: "inj (mint (b_env BE))" and st: "keys_stable BE"
    and g: "g \<in> issued BE B" and r: "broker_revoke BE fails B o' g = (B', es, res)" and room: "roomy (b_handles B')"
  shows "net_inv BE (B', Q, ts, abort_calls es cs)"
proof (cases "canonical BE o'")
  case (Inl e)
  then show ?thesis using r inv by (simp add: broker_revoke_def)
next
  case (Inr k)
  note key = stable_key [OF st Inr]
  obtain L' lres where l: "revoke_grant (b_env BE) fails (b_ledger B) k g = (L', lres)" by fastforce
  obtain T hs ores where rv: "revoke (t_env BE) k g (b_handles B) = (T, hs, ores)" using prod_cases3 by blast
  have "ores = Inr ()" by (rule revoke_parts [OF key [unfolded canonical_key] rv])
  then have B': "B' = B\<lparr>b_ledger := L', b_handles := T\<rparr>" "OnHandles ` set hs \<subseteq> set es"
    using r Inr l rv by (auto simp: broker_revoke_def Let_def split: if_splits)
  note un = revoke_unlive [OF net_invD(1) [OF inv] l]
  show ?thesis
  proof (rule net_inv_revoked [OF inv key g rv])
    show "roomy T" "b_handles B' = T" using room B'(1) by simp_all
    show "ledger_ok (b_env BE) (b_ledger B')"
      using ledger_ok_step [OF inj net_invD(1) [OF inv] ledger_step.step_revoke [OF l]] B'(1) by simp
    show "minted (b_ledger B') = minted (b_ledger B)" using un(3) B'(1) by simp
    show "unlive g (currentGrant (b_ledger B) k) (currentGrant (b_ledger B') k)" using un(1) B'(1) by simp
    show "currentGrant (b_ledger B') k' = currentGrant (b_ledger B) k'" if "k' \<noteq> k" for k'
      using un(2) [OF that] B'(1) by simp
  qed (use B'(2) in auto)
qed

lemma net_inv_revokes_persisted:
  assumes inv: "net_inv BE (B, Q, ts, cs)" and inj: "inj (mint (b_env BE))" and st: "keys_stable BE"
    and r: "broker_revokePersisted BE fails B o' kind = (B', es, res)" and room: "roomy (b_handles B')"
  shows "net_inv BE (B', Q, ts, abort_calls es cs)"
proof (cases "canonical BE o'")
  case (Inl e)
  then show ?thesis using r inv by (simp add: broker_revokePersisted_def)
next
  case (Inr k)
  note key = stable_key [OF st Inr]
  obtain L' lres where l: "revokePersisted (b_env BE) fails (b_ledger B) k kind = (L', lres)" by fastforce
  note eff = revokePersisted_effect [OF l]
  note ok = ledger_ok_step [OF inj net_invD(1) [OF inv] step_revokePersisted [OF l]]
  show ?thesis
  proof (cases "currentGrant (b_ledger B) k kind")
    case None
    then have "B' = B\<lparr>b_ledger := L'\<rparr>"
      using r Inr l by (cases B) (auto simp: broker_revokePersisted_def Let_def split: if_splits)
    moreover have "currentGrant L' = currentGrant (b_ledger B)" using eff(1) None by (auto simp: fun_eq_iff)
    ultimately show ?thesis using net_inv_abort [OF net_inv_same [OF inv ok _ eff(2)]] by blast
  next
    case (Some gr)
    obtain T hs ores where rv: "revoke (t_env BE) k (grant_id gr) (b_handles B) = (T, hs, ores)"
      using prod_cases3 by blast
    have "ores = Inr ()" by (rule revoke_parts [OF key [unfolded canonical_key] rv])
    then have B': "B' = B\<lparr>b_ledger := L', b_handles := T\<rparr>" "OnHandles ` set hs \<subseteq> set es"
      using r Inr l rv Some by (auto simp: broker_revokePersisted_def Let_def split: if_splits outcome.splits)
    have slot: "one_slot (issued BE B) (currentGrant (b_ledger B) k)"
      using ledger_one_slot [OF net_invD(1) [OF inv]] by (simp add: issued_def)
    show ?thesis
    proof (rule net_inv_revoked [OF inv key _ rv])
      show "grant_id gr \<in> issued BE B" using slot Some unfolding one_slot_def by blast
      show "roomy T" "b_handles B' = T" using room B'(1) by simp_all
      show "ledger_ok (b_env BE) (b_ledger B')" using ok B'(1) by simp
      show "minted (b_ledger B') = minted (b_ledger B)" using eff(2) B'(1) by simp
      have c: "currentGrant (b_ledger B') k kd = (if kd = kind then None else currentGrant (b_ledger B) k kd)" for kd
        using eff(1) B'(1) by simp
      show "unlive (grant_id gr) (currentGrant (b_ledger B) k) (currentGrant (b_ledger B') k)"
        unfolding unlive_def c using slot Some unfolding one_slot_def by (auto split: if_splits)
      show "currentGrant (b_ledger B') k' = currentGrant (b_ledger B) k'" if "k' \<noteq> k" for k'
        using eff(1) B'(1) that by (simp add: fun_eq_iff)
    qed (use B'(2) in auto)
  qed
qed


subsection \<open>The end of a session, and forgetting\<close>

lemma net_inv_drops:
  assumes inv: "net_inv BE (B, Q, ts, cs)" and st: "keys_stable BE"
    and r: "broker_drop_begin BE B o' = (B', es, res)"
  shows "net_inv BE (B', Q, ts, abort_calls es cs)"
proof (cases "canonical BE o'")
  case (Inl e)
  then show ?thesis using r inv by (simp add: broker_drop_begin_def)
next
  case (Inr k)
  note key = stable_key [OF st Inr]
  have rk: "registry_key (t_env BE) k = Inr k" using key canonical_key by blast
  obtain T' hs dres where d: "drop_begin (t_env BE) k (b_handles B) = (T', hs, dres)" using prod_cases3 by blast
  have B': "B' = B\<lparr>b_handles := T'\<rparr>" "es = map OnHandles hs" using r Inr d by (simp_all add: broker_drop_begin_def)
  show ?thesis
  proof (cases "map_of (tables (b_handles B)) k")
    case None
    then have "T' = b_handles B" using d rk by (simp add: drop_begin_def existing_table_def)
    then show ?thesis using net_inv_abort [OF inv] B'(1) by simp
  next
    case (Some p)
    obtain s t where m: "map_of (tables (b_handles B)) k = Some (s, t)" using Some by (cases p) simp
    obtain u where put: "T' = put_table k s u (b_handles B)"
      and cancel: "\<forall>g. \<forall>op\<in>set (filed (grantOperations t) g). \<exists>e. Cancel op e \<in> set hs \<and> err_code e = E_revoked"
      by (rule drop_begin_parts [OF net_invD(2) [OF inv] rk m d])
    let ?t = "t\<lparr>dropping := True, grantOperations := []\<rparr>"
    obtain t' e1 where c: "close_each (t_callbacks (t_env BE)) SessionEnded (map fst (handles t)) ?t = (t', e1)" by fastforce
    have T': "T' = put_table k s t' (b_handles B)"
      using d rk m c by (simp add: drop_begin_def existing_table_def Let_def)
    have "table_ok ?t"
      using existing_ok(1) [OF net_invD(2) [OF inv] m] by (simp add: good_table_def table_ok_def memory_ok_def)
    then have "carried {} ?t t'" by (rule carried_close_each [OF c])
    moreover have "carried UNIV t ?t" by (auto simp: carried_def)
    ultimately have car: "carried (UNIV \<union> {}) t t'" by (rule carried_trans [rotated])
    show ?thesis
    proof (rule net_inv_one [OF inv, of _ _ k])
      show "ledger_ok (b_env BE) (b_ledger B')" "issued BE B \<subseteq> issued BE B'"
        using net_invD(1) [OF inv] B'(1) by simp_all
      show "registry_ok (b_handles B') ts" using registry_ok_drop_begin [OF net_invD(2) [OF inv] d] B'(1) by simp
      show "currentGrant (b_ledger B') k' = currentGrant (b_ledger B) k' \<and>
          map_of (tables (b_handles B')) k' = map_of (tables (b_handles B)) k' \<and> queued Q k' = queued Q k'"
        if "k' \<noteq> k" for k'
        using that B'(1) T' by (simp add: put_table_def update_conv')
      show "canonical BE k = Inr k \<and> x \<in> issued BE B' \<and> \<not> live (currentGrant (b_ledger B') k) x" if "x \<in> queued Q k" for x
        using net_invD(3) [OF inv that] B'(1) by simp
      show "table_inv (issued BE B') (currentGrant (b_ledger B') k) (queued Q k) t2"
        if "map_of (tables (b_handles B')) k = Some (s2, t2)" for s2 t2
        using that table_inv_carried [OF net_invD(4) [OF inv m] car] B'(1) T' by (simp add: put_table_def update_conv')
      fix c :: net_call and t0 assume n: "\<not> cancels es (call_op c)" and m0: "map_of (tables (b_handles B)) k = Some (call_serial c, t0)"
        and op: "call_op c \<in> set (filed (grantOperations t0) (grant_id (call_grant c)))"
      have "t0 = t" using m m0 by simp
      then obtain e where "Cancel (call_op c) e \<in> set hs" using cancel op by blast
      then have False using n B'(2) by (auto simp: cancels_iff)
      then show "\<exists>t'. map_of (tables (b_handles B')) k = Some (call_serial c, t') \<and>
          call_op c \<in> set (filed (grantOperations t') (grant_id (call_grant c))) \<and>
          call_inv (issued BE B') (currentGrant (b_ledger B') k) (queued Q k) t' c" ..
    qed
  qed
qed

lemma net_inv_gone:
  assumes inv: "net_inv BE (B, Q, ts, cs)" and L: "ledger_ok (b_env BE) (b_ledger B')"
    and T: "registry_ok (b_handles B') ts" and U: "issued BE B' = issued BE B"
    and other: "\<And>k'. k' \<noteq> k \<Longrightarrow> currentGrant (b_ledger B') k' = currentGrant (b_ledger B) k' \<and>
      map_of (tables (b_handles B')) k' = map_of (tables (b_handles B)) k'"
    and less: "\<And>kind gr. currentGrant (b_ledger B') k kind = Some gr \<Longrightarrow> currentGrant (b_ledger B) k kind = Some gr"
    and none: "map_of (tables (b_handles B')) k = None"
    and quiet: "\<And>s t g. map_of (tables (b_handles B)) k = Some (s, t) \<Longrightarrow> filed (grantOperations t) g = []"
  shows "net_inv BE (B', Q, ts, cs)"
proof -
  have "net_inv BE (B', Q, ts, abort_calls [] cs)"
  proof (rule net_inv_one [OF inv L T, of k])
    show "canonical BE k = Inr k \<and> x \<in> issued BE B' \<and> \<not> live (currentGrant (b_ledger B') k) x" if "x \<in> queued Q k" for x
      using net_invD(3) [OF inv that] less U unfolding live_def by blast
    fix c :: net_call and t assume "map_of (tables (b_handles B)) k = Some (call_serial c, t)"
      "call_op c \<in> set (filed (grantOperations t) (grant_id (call_grant c)))"
    then have False using quiet by simp
    then show "\<exists>t'. map_of (tables (b_handles B')) k = Some (call_serial c, t') \<and>
        call_op c \<in> set (filed (grantOperations t') (grant_id (call_grant c))) \<and>
        call_inv (issued BE B') (currentGrant (b_ledger B') k) (queued Q k) t' c" ..
  qed (use U other none in auto)
  then show ?thesis by simp
qed

lemma net_inv_dropped:
  assumes inv: "net_inv BE (B, Q, ts, cs)" and m: "map_of (tables (b_handles B)) k = Some (s, t)" and d: "dropping t"
  shows "net_inv BE (broker_drop_end B (Some (k, s)), Q, ts, cs)"
proof (rule net_inv_gone [OF inv, of _ k])
  have T: "b_handles (broker_drop_end B (Some (k, s))) = deleteIfCurrent k s (b_handles B)"
    by (simp add: broker_drop_end_def drop_end_def)
  have del: "map_of (tables (deleteIfCurrent k s (b_handles B))) k' =
      (if k' = k then None else map_of (tables (b_handles B)) k')" for k'
    using m by (simp add: deleteIfCurrent_def delete_conv')
  show "registry_ok (b_handles (broker_drop_end B (Some (k, s)))) ts"
    unfolding T by (rule registry_ok_deleteIfCurrent [OF net_invD(2) [OF inv]])
  show "map_of (tables (b_handles (broker_drop_end B (Some (k, s))))) k = None" by (simp add: T del)
  show "currentGrant (b_ledger (broker_drop_end B (Some (k, s)))) k' = currentGrant (b_ledger B) k' \<and>
      map_of (tables (b_handles (broker_drop_end B (Some (k, s))))) k' = map_of (tables (b_handles B)) k'"
    if "k' \<noteq> k" for k'
    using that by (simp add: T del) (simp add: broker_drop_end_def)
  show "filed (grantOperations t2) g = []" if "map_of (tables (b_handles B)) k = Some (s2, t2)" for s2 t2 g
    using registry_okD(4) [OF net_invD(2) [OF inv] m] d m that by (simp add: quiet_def)
qed (use net_invD(1) [OF inv] in \<open>simp_all add: broker_drop_end_def\<close>)

lemma net_inv_forgets:
  assumes inv: "net_inv BE (B, Q, ts, cs)" and m: "map_of (tables (b_handles B)) k = None"
    and r: "forget_end BE fails B k = (B', es)"
  shows "net_inv BE (B', Q, ts, cs)"
proof (rule net_inv_gone [OF inv, of _ k])
  have B': "B' = B\<lparr>b_ledger := forgetOrigin (b_env BE) fails (b_ledger B) k\<rparr>" using r by (simp add: forget_end_def)
  show "ledger_ok (b_env BE) (b_ledger B')" using ledger_ok_forget [OF net_invD(1) [OF inv]] B' by simp
  show "issued BE B' = issued BE B" by (simp add: B' issued_def forget_grants(3))
  show "currentGrant (b_ledger B') k' = currentGrant (b_ledger B) k' \<and>
      map_of (tables (b_handles B')) k' = map_of (tables (b_handles B)) k'" if "k' \<noteq> k" for k'
    using that by (simp add: B' forget_grants(1))
  show "currentGrant (b_ledger B) k kind = Some gr" if "currentGrant (b_ledger B') k kind = Some gr" for kind gr
    using that forget_grants(2) [of "b_env BE" fails "b_ledger B" k kind] by (auto simp: B')
qed (use net_invD(2) [OF inv] m r in \<open>auto simp: forget_end_def\<close>)

subsection \<open>A call begins, and its turns\<close>

lemma grant_for_facts:
  assumes ok: "ledger_ok env L" and g: "grant_for L k routed req = Inr (gr, ranges)"
  shows "currentGrant L k (capability gr) = Some gr" and "capability gr \<in> kinds_for req"
    and "req = BindPort fam sc pt \<Longrightarrow> checkBind (VArray (map VString (patterns gr))) pt = BindAllowed ranges"
proof -
  have slot: "currentGrant L k kind = Some gr' \<Longrightarrow> capability gr' = kind" for kind gr'
    using ledger_one_slot [OF ok, of k] unfolding one_slot_def by blast
  have "currentGrant L k (capability gr) = Some gr \<and> capability gr \<in> kinds_for req \<and>
    (\<forall>fam sc pt. req = BindPort fam sc pt \<longrightarrow> checkBind (VArray (map VString (patterns gr))) pt = BindAllowed ranges)"
  proof (cases req)
    case (Connect h pt)
    then have "currentGrant L k (js ''tcp.connect'') = Some gr" using g by (auto simp: grant_for_def split: option.splits)
    then show ?thesis using slot Connect by (simp add: kinds_for_def)
  next
    case (ConnectSecure h pt options)
    then have "currentGrant L k (js ''https.connect'') = Some gr" using g by (auto simp: grant_for_def split: option.splits)
    then show ?thesis using slot ConnectSecure by (simp add: kinds_for_def)
  next
    case (BindPort fam sc pt)
    obtain sc' where "bindGrantFor L k fam sc' pt = Inr (gr, ranges)"
      using g BindPort by (auto simp: grant_for_def split: sum.splits if_splits)
    then have ch: "chooseBindGrant (\<lambda>g. VArray (map VString (patterns g)))
        (List.map_filter (currentGrant L k) (bindCapabilitiesFor fam sc')) pt = Some (gr, ranges)"
      by (auto simp: bindGrantFor_def Let_def split: if_splits option.splits)
    then have in_held: "gr \<in> set (List.map_filter (currentGrant L k) (bindCapabilitiesFor fam sc'))"
      and b: "checkBind (VArray (map VString (patterns gr))) pt = BindAllowed ranges"
      unfolding chooseBindGrant_first by auto
    obtain kind where kind: "kind \<in> set (bindCapabilitiesFor fam sc')" "currentGrant L k kind = Some gr"
      using in_held by (auto simp: List.map_filter_def)
    have "set (bindCapabilitiesFor fam sc') \<subseteq> net_bind_kinds"
      by (cases fam) (auto simp: bindCapabilitiesFor_def family_name_def net_bind_kinds_def)
    then show ?thesis using kind slot [OF kind(2)] b BindPort by (auto simp: kinds_for_def)
  qed
  then show "currentGrant L k (capability gr) = Some gr" "capability gr \<in> kinds_for req"
    "req = BindPort fam sc pt \<Longrightarrow> checkBind (VArray (map VString (patterns gr))) pt = BindAllowed ranges" by blast+
qed

lemma net_inv_begins:
  assumes inv: "net_inv BE (B, Q, ts, cs)" and st: "keys_stable BE"
    and r: "net_begin BE routed B o' req op abandoned = (B', es, Inr c)" and new: "op \<notin> fst ` set ts"
  shows "net_inv BE (B', Q, ts @ [(op, call_key c, call_serial c, OnGrant (grant_id (call_grant c)))], cs @ [c])"
proof -
  obtain k0 where can: "canonical BE o' = Inr k0" using r by (auto simp: net_begin_def split: sum.splits)
  obtain gr ranges where gf: "grant_for (b_ledger B) k0 routed req = Inr (gr, ranges)"
    using r can by (auto simp: net_begin_def split: sum.splits)
  obtain T' hs k s slot where run: "run_begin (t_env BE) k0 (OnGrant (grant_id gr)) op abandoned (b_handles B) = (T', hs, Inr (k, s, slot))"
    and B': "B' = B\<lparr>b_handles := T'\<rparr>"
    and c: "c = \<lparr>call_op = op, call_key = k, call_serial = s, call_grant = gr, call_request = req,
        call_ranges = ranges, call_routed = routed, call_aborted = False, call_name = [],
        call_phase = (case slot of Running \<Rightarrow> Starts | Queued \<Rightarrow> Waits)\<rparr>"
    using r can gf by (auto simp: net_begin_def split: prod.splits sum.splits)
  note cb = carries_begin [OF run]
  have k: "k = k0" using cb(3) stable_key [OF st can] canonical_key by simp
  let ?ts = "ts @ [(op, k, s, OnGrant (grant_id gr))]"
  have inv': "net_inv BE (B', Q, ?ts, cs)"
    unfolding B' using net_inv_tables [OF inv cb(1) registry_ok_begin [OF net_invD(2) [OF inv] run new], where es = "[]"]
    by simp
  obtain t where t: "map_of (tables T') k = Some (s, t)" "op \<in> set (filed (grantOperations t) (grant_id gr))"
    using cb(2) [OF refl] by blast
  note gfs = grant_for_facts [OF net_invD(1) [OF inv] gf]
  have slotted: "one_slot (issued BE B') (currentGrant (b_ledger B') k)"
    using ledger_one_slot [OF net_invD(1) [OF inv']] by (simp add: issued_def)
  have tab: "table_inv (issued BE B') (currentGrant (b_ledger B') k) (queued Q k) t"
    by (rule net_invD(4) [OF inv']) (use t(1) B' in simp)
  have "phase_ok c" using gfs(3) by (auto simp: phase_ok_def c granted_to_def split: slot_state.split)
  moreover have "call_inv (issued BE B') (currentGrant (b_ledger B') k) (queued Q k) t c"
    by (rule call_inv_begins [OF tab slotted]) (use gfs(1) k in \<open>simp add: c B'\<close>)
  ultimately have "call_ok (issued BE B') (currentGrant (b_ledger B') (call_key c)) (queued Q (call_key c)) (b_handles B') c"
    using t gfs(2) by (simp add: call_ok_def c B')
  then have "net_inv BE (B', Q, ?ts, cs @ [c])"
    using net_invD [OF inv'] stable_key [OF st can] k by (intro net_invI) (auto simp: c)
  then show ?thesis by (simp add: c)
qed

lemma net_inv_call:
  assumes inv: "net_inv BE (B, Q, ts, cs)" and i: "i < length cs" and key: "call_key c' = call_key (cs ! i)"
    and c': "call_ok (issued BE B) (currentGrant (b_ledger B) (call_key c')) (queued Q (call_key c')) (b_handles B) (cs ! i) \<Longrightarrow>
      call_ok (issued BE B) (currentGrant (b_ledger B) (call_key c')) (queued Q (call_key c')) (b_handles B) c'"
  shows "net_inv BE (B, Q, ts, cs[i := c'])"
proof (rule net_invI [OF net_invD(1-4) [OF inv]])
  have old: "cs ! i \<in> set cs" using i by simp
  fix c assume "c \<in> set (cs[i := c'])"
  then have "c = c' \<or> c \<in> set cs" using set_update_subset_insert by fastforce
  then show "canonical BE (call_key c) = Inr (call_key c) \<and>
      call_ok (issued BE B) (currentGrant (b_ledger B) (call_key c)) (queued Q (call_key c)) (b_handles B) c"
    using net_invD(5,6) [OF inv] net_invD(5,6) [OF inv old] c' key by auto
qed


lemma net_inv_turns:
  assumes inv: "net_inv BE (B, Q, ts, cs)" and i: "i < length cs"
    and tn: "next_turn own proxied resolve n allowance (cs ! i) = Some tn"
  shows "net_inv BE (B, Q, ts, cs[i := after_turn tn (cs ! i)])"
proof (rule net_inv_call [OF inv i])
  let ?c = "cs ! i"
  have keep: "call_grant (after_turn tn ?c) = call_grant ?c" "call_request (after_turn tn ?c) = call_request ?c"
    "call_key (after_turn tn ?c) = call_key ?c" "call_serial (after_turn tn ?c) = call_serial ?c"
    "call_op (after_turn tn ?c) = call_op ?c" "call_aborted (after_turn tn ?c) = call_aborted ?c"
    by (simp_all add: after_turn_def split: turn.split)
  have "call_phase ?c \<noteq> Finished" using tn by (auto simp: next_turn_def)
  then have act: "active (after_turn tn ?c) \<Longrightarrow> active ?c" by (simp add: active_def keep(6))
  show "call_key (after_turn tn ?c) = call_key ?c" by (rule keep(3))
  assume c: "call_ok (issued BE B) (currentGrant (b_ledger B) (call_key (after_turn tn ?c)))
      (queued Q (call_key (after_turn tn ?c))) (b_handles B) ?c"
  then have "phase_ok ?c" by (simp add: call_ok_def)
  from call_ok_moves [OF c turn_ok [OF this tn] keep(1-5) act]
  show "call_ok (issued BE B) (currentGrant (b_ledger B) (call_key (after_turn tn ?c)))
      (queued Q (call_key (after_turn tn ?c))) (b_handles B) (after_turn tn ?c)" by blast
qed

lemma net_inv_acquired:
  assumes inv: "net_inv BE (B, Q, ts, cs)" and c: "c \<in> set cs" and act: "active c" and p: "call_phase c = Dials target"
    and d: "dial_ok c target d" and name: "steady c"
    and acq: "acquire (t_env BE) req (b_handles B) = Some (T', hs, res)"
    and req: "req_origin req = call_key c" "req_auth req = ByGrant (grant_id (call_grant c))"
      "req_covered req = Some (covered_by c d)" "limit_ok (req_limit req)"
  shows "net_inv BE (B\<lparr>b_handles := T'\<rparr>, Q, ts, cs)"
proof -
  let ?B = "B\<lparr>b_handles := T'\<rparr>" and ?k = "call_key c"
  note reg = registry_ok_acquire [OF net_invD(2) [OF inv] acq req(4)]
  show ?thesis
    using acquire_cases [OF acq]
  proof (elim disjE conjE exE)
    fix e assume "admitted (t_env BE) req (b_handles B) T' e"
    then obtain k s t T1 i n t' where rk: "registry_key (t_env BE) (req_origin req) = Inr k"
      and g: "getOrCreate (b_handles B) k = (T1, s, t)" and open_: "assertAcquirable t (req_auth req) = None"
      and ins: "insert_handle i k (req_kind req) (req_auth req) None (req_covered req) t = (t', e)"
      and T': "T' = (put_table k s t' T1)\<lparr>drawn := n\<rparr>"
      unfolding admitted_def by blast
    have k: "k = ?k" using rk req(1) net_invD(5) [OF inv c] canonical_key by simp
    obtain t0 where t0: "map_of (tables (b_handles B)) ?k = Some (call_serial c, t0)"
      and ci: "call_inv (issued BE B) (currentGrant (b_ledger B) ?k) (queued Q ?k) t0 c"
      by (rule call_okE [OF net_invD(6) [OF inv c] act])
    have eq: "t0 = t" "call_serial c = s" using getOrCreate_at(2) [OF g [unfolded k] t0] by simp_all
    have at: "map_of (tables T') k' = (if k' = ?k then Some (s, t') else map_of (tables (b_handles B)) k')" for k'
      using getOrCreate_at(1) [OF g] by (simp add: T' k put_table_def update_conv')
    note f = insert_handle_fields [OF ins]
    have cok: "phase_ok c" "capability (call_grant c) \<in> kinds_for (call_request c)"
      using net_invD(6) [OF inv c] by (simp_all add: call_ok_def)
    have "net_inv BE (?B, Q, ts, abort_calls [] cs)"
    proof (rule net_inv_one [OF inv, of _ _ ?k])
      show "ledger_ok (b_env BE) (b_ledger ?B)" "registry_ok (b_handles ?B) ts" "issued BE B \<subseteq> issued BE ?B"
        using net_invD(1) [OF inv] reg by simp_all
      show "currentGrant (b_ledger ?B) k' = currentGrant (b_ledger B) k' \<and>
          map_of (tables (b_handles ?B)) k' = map_of (tables (b_handles B)) k' \<and> queued Q k' = queued Q k'"
        if "k' \<noteq> ?k" for k'
        using that by (simp add: at)
      show "canonical BE ?k = Inr ?k \<and> x \<in> issued BE ?B \<and> \<not> live (currentGrant (b_ledger ?B) ?k) x" if "x \<in> queued Q ?k" for x
        using net_invD(3) [OF inv that] by simp
      show "table_inv (issued BE ?B) (currentGrant (b_ledger ?B) ?k) (queued Q ?k) t2"
        if m: "map_of (tables (b_handles ?B)) ?k = Some (s2, t2)" for s2 t2
      proof -
        have t2: "t2 = t'" using m by (simp add: at)
        have snd: "sound c target" using cok(1) p by (simp add: phase_ok_def)
        have "table_inv (issued BE B) (currentGrant (b_ledger B) ?k) (queued Q ?k) t'"
          by (rule table_inv_inserted [OF net_invD(4) [OF inv t0 [unfolded eq]] ci [unfolded eq]
                open_ [unfolded req] cok(2) snd d name ins [unfolded req]])
        then show ?thesis using t2 by simp
      qed
      fix x :: net_call and u assume x: "map_of (tables (b_handles B)) ?k = Some (call_serial x, u)"
        "call_op x \<in> set (filed (grantOperations u) (grant_id (call_grant x)))"
        "call_inv (issued BE B) (currentGrant (b_ledger B) ?k) (queued Q ?k) u x"
      have u: "u = t" "call_serial x = s" using x(1) t0 eq by simp_all
      have "call_inv (issued BE B) (currentGrant (b_ledger B) ?k) (queued Q ?k) t' x"
        using x(3) u(1) f(12,14) by (simp add: call_inv_def currentGrantFor_def)
      then show "\<exists>t'. map_of (tables (b_handles ?B)) ?k = Some (call_serial x, t') \<and>
          call_op x \<in> set (filed (grantOperations t') (grant_id (call_grant x))) \<and>
          call_inv (issued BE ?B) (currentGrant (b_ledger ?B) ?k) (queued Q ?k) t' x"
        using x(2) u f(13) by (simp add: at)
    qed
    then show ?thesis by simp
  qed (use net_inv_tables [OF inv carries_created reg, where es = "[]"] in auto)
qed

lemma net_inv_opens:
  assumes inv: "net_inv BE (B, Q, ts, cs)" and i: "i < length cs" and p: "call_phase (cs ! i) = Dials target"
    and d: "\<forall>d. answer = Inr d \<longrightarrow> dial_ok (cs ! i) target d" and name: "steady (cs ! i)"
    and r: "opened_turn BE (socketAllowanceOf BE B k) dt answer (cs ! i) (b_handles B) = Some (T', hs, outcome)"
  shows "net_inv BE (B\<lparr>b_handles := T'\<rparr>, Q, ts, cs[i := (cs ! i)\<lparr>call_phase := Finished\<rparr>])"
proof -
  let ?c = "cs ! i"
  have c: "?c \<in> set cs" using i by simp
  have "net_inv BE (B\<lparr>b_handles := T'\<rparr>, Q, ts, cs)"
  proof (cases answer)
    case (Inl e)
    then have "T' = b_handles B" using r by (simp add: opened_turn_def)
    then show ?thesis using inv by simp
  next
    case (Inr x)
    show ?thesis
    proof (cases "call_aborted ?c")
      case True
      then have "T' = b_handles B" using r Inr by (simp add: opened_turn_def)
      then show ?thesis using inv by simp
    next
      case False
      let ?req = "\<lparr>req_origin = call_key ?c, req_kind = kind_of (call_request ?c),
          req_auth = ByGrant (grant_id (call_grant ?c)), req_limit = Some (socketAllowanceOf BE B k),
          req_covered = Some (covered_by ?c x), req_destroy_fails = dt\<rparr>"
      obtain res where "acquire (t_env BE) ?req (b_handles B) = Some (T', hs, res)"
        using r Inr False by (auto simp: opened_turn_def)
      moreover have "active ?c" using False p by (simp add: active_def)
      ultimately show ?thesis
        using net_inv_acquired [OF inv c _ p, of x ?req] d Inr name allowance_ok by simp
    qed
  qed
  then show ?thesis by (rule net_inv_call [OF _ i]) (use call_ok_finished in simp_all)
qed

subsection \<open>All steps, and all runs\<close>

lemma net_inv_step:
  assumes step: "net_step BE (B, Q, ts, cs) (B', Q', ts', cs')" and inv: "net_inv BE (B, Q, ts, cs)"
    and inj: "inj (mint (b_env BE))" and stable: "keys_stable BE" and room: "roomy (b_handles B')"
    and names: "\<forall>c\<in>set cs'. steady c"
  shows "net_inv BE (B', Q', ts', cs')"
proof -
  show ?thesis
    using step
  proof cases
    case n_registers then show ?thesis using net_inv_registers [OF inv inj stable] by blast
  next
    case n_restores then show ?thesis using net_inv_restores [OF inv inj stable] by blast
  next
    case n_acknowledges then show ?thesis using net_inv_acknowledges [OF inv inj] by blast
  next
    case n_cascades then show ?thesis using net_inv_cascades [OF inv] room by blast
  next
    case (n_grants fails o' kind ps at_time es resg)
    show ?thesis
    proof (cases "canonical BE o'")
      case (Inl e)
      then have "B' = B" using n_grants by (simp add: broker_grant_def)
      then show ?thesis using n_grants net_inv_abort [OF inv] by simp
    next
      case (Inr k)
      then show ?thesis using n_grants net_inv_granted [OF inv inj stable_key [OF stable Inr] Inr] room by blast
    qed
  next
    case n_revokes then show ?thesis using net_inv_revokes [OF inv inj stable] room by blast
  next
    case n_revokes_persisted then show ?thesis using net_inv_revokes_persisted [OF inv inj stable] room by blast
  next
    case n_drops then show ?thesis using net_inv_drops [OF inv stable] by blast
  next
    case n_dropped then show ?thesis using net_inv_dropped [OF inv] by blast
  next
    case n_forgets then show ?thesis using net_inv_forgets [OF inv] by blast
  next
    case n_begins then show ?thesis using net_inv_begins [OF inv stable] by blast
  next
    case (n_admits i)
    then show ?thesis using net_inv_call [OF inv, of i "(cs ! i)\<lparr>call_phase := Starts\<rparr>"]
        call_ok_moves [of _ _ _ _ "cs ! i" "(cs ! i)\<lparr>call_phase := Starts\<rparr>"]
      by (simp add: active_def call_ok_def phase_ok_def)
  next
    case (n_stops i)
    then show ?thesis using net_inv_call [OF inv, of i "(cs ! i)\<lparr>call_phase := Finished\<rparr>"] call_ok_finished by simp
  next
    case n_turns then show ?thesis using net_inv_turns [OF inv] by blast
  next
    case (n_opens i target answer dt T' hs outcome)
    then have "(cs ! i)\<lparr>call_phase := Finished\<rparr> \<in> set cs'" using set_update_memI by fastforce
    then have "steady (cs ! i)" using names by fastforce
    then show ?thesis using n_opens net_inv_opens [OF inv] by blast
  next
    case (n_accepts k dt server T' hs rese)
    note a = accept_keeps [OF n_accepts(5) net_invD(2) [OF inv]]
    show ?thesis using net_inv_tables [OF inv a, where es = "[]"] n_accepts by simp
  next
    case (n_tables hs X T')
    note a = table_step_keeps [OF n_tables(4) net_invD(2) [OF inv]]
    show ?thesis using net_inv_tables [OF inv a n_tables(5)] n_tables by simp
  qed
qed

lemma net_inv_empty: "net_inv BE (empty_broker d, [], [], [])"
proof (rule net_invI)
  show "registry_ok (b_handles (empty_broker d)) []" by (simp add: empty_broker_def registry_ok_empty)
  show "ledger_ok (b_env BE) (b_ledger (empty_broker d))" by (simp add: empty_broker_def ledger_ok_empty)
qed (simp_all add: empty_broker_def queued_def empty_handle_table_def)

lemma net_inv_run:
  assumes "net_run BE d x" and "inj (mint (b_env BE))" and "keys_stable BE"
  shows "net_inv BE x"
  using assms
proof (induction rule: net_run.induct)
  case nr_start
  show ?case by (rule net_inv_empty)
next
  case (nr_step x B' Q' ts' cs')
  obtain B Q ts cs where x: "x = (B, Q, ts, cs)" by (cases x)
  show ?case using net_inv_step [OF _ _ nr_step.prems nr_step.hyps(3,4)] nr_step by (simp add: x)
qed

end
