(* ===== verification/NetClaims.thy ===== *)
theory NetClaims imports NetRuns begin

section \<open>Properties\<close>

text \<open>
  What holds in every state the broker can reach: no open socket outlives what covers it, nothing is dialled or bound
  that was not granted, a revoked grant leaves nothing open, and a datagram leaves only where its grant allows. The
  run at the start is what the properties are applied to: a grant, a connection under it up to its dial, and the
  socket it opens.
\<close>

subsection \<open>A run\<close>

definition net_env :: broker_env where
  "net_env = \<lparr>b_env = sample_env, b_draw = (\<lambda>n. [n]),
     b_callbacks = \<lparr>destroy_fails = (\<lambda>_. False), unlink_throws = (\<lambda>_. False)\<rparr>, write_errno = None\<rparr>"

definition net_files :: disk where
  "net_files = \<lparr>disk_floor = [], disk_ack = [], disk_grants = [], disk_declined = []\<rparr>"

definition net_granting :: "grant broker_call" where
  "net_granting = broker_grant net_env no_failure (empty_broker net_files) sample_app (js ''tcp.connect'')
     [js ''8.8.8.8:53''] 5"

definition net_beginning :: "net_call broker_call" where
  "net_beginning = net_begin net_env False (fst net_granting) sample_app (Connect (js ''8.8.8.8'') (IntNum 53)) 7 False"

definition net_dialling :: broker where
  "net_dialling = fst net_beginning"

text \<open>The call, phase by phase.\<close>

definition net_call_at :: "phase \<Rightarrow> net_call" where
  "net_call_at ph = \<lparr>call_op = 7, call_key = sample_app, call_serial = 0,
     call_grant = \<lparr>grant_id = [0], grant_origin = sample_app, capability = js ''tcp.connect'', patterns = [js ''8.8.8.8:53''],
       grantedAt = 5\<rparr>,
     call_request = Connect (js ''8.8.8.8'') (IntNum 53), call_ranges = [], call_routed = False, call_aborted = False,
     call_name = [], call_phase = ph\<rparr>"

definition net_ticket :: ticket where
  "net_ticket = (7, sample_app, 0, OnGrant [0])"

definition net_answer :: dialed where
  "net_answer = \<lparr>remoteAddress = js ''8.8.8.8'', localPort = 40000\<rparr>"

definition net_literal :: dial_target where "net_literal = Literals [js ''8.8.8.8'']"

definition net_opening :: "(handle_table \<times> handle_effect list \<times> net_outcome) option" where
  "net_opening = opened_turn net_env (socketAllowanceOf net_env net_dialling sample_app) False (Inr net_answer)
     (net_call_at (Dials net_literal)) (b_handles net_dialling)"

definition net_opened :: broker where
  "net_opened = net_dialling\<lparr>b_handles := fst (the net_opening)\<rparr>"

definition net_socket :: handle_record where
  "net_socket = the (map_of (handles (snd (the (map_of (tables (b_handles net_opened)) sample_app)))) [0])"

lemma net_env_inj: "inj (mint (b_env net_env))"
  by (simp add: net_env_def sample_mint)

lemma net_env_stable: "keys_stable net_env"
proof -
  have "originFromUrl (url_parse sample_env) u = originFromUrl (url_parse sample_env) sample_app" for u
    by (simp add: originFromUrl_def sample_env_def)
  moreover have "originFromUrl (url_parse sample_env) sample_app = Some sample_app" by code_simp
  ultimately have "canonical net_env u = Inr sample_app" for u
    by (simp add: canonical_def net_env_def isolationKeyFromUrl_def)
  then show ?thesis by (simp add: keys_stable_def)
qed

lemma net_run_granted: "net_run net_env net_files (fst net_granting, [], [], [])"
proof -
  have g: "broker_grant net_env no_failure (empty_broker net_files) sample_app (js ''tcp.connect'')
      [js ''8.8.8.8:53''] 5 = (fst net_granting, fst (snd net_granting), snd (snd net_granting))"
    by (simp add: net_granting_def)
  have "length [js ''8.8.8.8:53''] \<le> MAX_PATTERNS" "isDeclarableConnectPattern (VString (js ''8.8.8.8:53'')) TcpConnect"
    "map_of CONNECT_SHAPED_CAPABILITIES (js ''tcp.connect'') = Some TcpConnect" by code_simp+
  moreover have "js ''tcp.connect'' \<notin> net_bind_kinds" by (simp add: net_bind_kinds_def)
  ultimately have "fit (js ''tcp.connect'') [js ''8.8.8.8:53'']" by (simp add: fit_def del: list.map)
  from n_grants [OF g this, of "[]" "[]" "[]"]
  have "net_step net_env (empty_broker net_files, [], [], []) (fst net_granting, [], [], [])" by (simp add: abort_calls_def)
  moreover have "roomy (b_handles (fst net_granting))" by code_simp
  ultimately show ?thesis using nr_step [OF nr_start] by fastforce
qed

lemma net_run_begun: "net_run net_env net_files (net_dialling, [], [net_ticket], [net_call_at Starts])"
proof -
  have "map_sum (\<lambda>_. ()) id (snd (snd net_beginning)) = Inr (net_call_at Starts)" by code_simp
  then have "snd (snd net_beginning) = Inr (net_call_at Starts)" by (cases "snd (snd net_beginning)") simp_all
  then have b: "net_begin net_env False (fst net_granting) sample_app (Connect (js ''8.8.8.8'') (IntNum 53)) 7 False =
      (net_dialling, fst (snd net_beginning), Inr (net_call_at Starts))"
    by (metis net_beginning_def net_dialling_def prod.collapse)
  have "net_step net_env (fst net_granting, [], [], []) (net_dialling, [], [] @ [net_ticket], [] @ [net_call_at Starts])"
    using n_begins [OF b, of "[]" "[]" "[]"] by (simp add: net_ticket_def net_call_at_def)
  moreover have "roomy (b_handles net_dialling)" "steady (net_call_at Starts)" by code_simp+
  ultimately show ?thesis using nr_step [OF net_run_granted] by simp
qed

lemma net_run_turn:
  assumes "net_run net_env net_files (net_dialling, [], [net_ticket], [net_call_at ph])"
    and "next_turn None (Inr False) no_resolver 0 64 (net_call_at ph) = Some tn" and "after_turn tn (net_call_at ph) = net_call_at ph'"
  shows "net_run net_env net_files (net_dialling, [], [net_ticket], [net_call_at ph'])"
proof -
  have "open_sockets net_env net_dialling sample_app = 0" "socketAllowanceOf net_env net_dialling sample_app = 64" by code_simp+
  then have "net_step net_env (net_dialling, [], [net_ticket], [net_call_at ph])
      (net_dialling, [], [net_ticket], [net_call_at ph][0 := after_turn tn ([net_call_at ph] ! 0)])"
    using assms(2) by (intro n_turns [of 0 _ None "Inr False" no_resolver]) (simp_all add: net_call_at_def)
  moreover have "roomy (b_handles net_dialling)" "steady (net_call_at Starts)" by code_simp+
  moreover have "steady (net_call_at ph') = steady (net_call_at Starts)" by (simp add: steady_def net_call_at_def)
  ultimately show ?thesis using nr_step [OF assms(1)] assms(3) by simp
qed

lemma net_turns:
  "next_turn None (Inr False) no_resolver 0 64 (net_call_at Starts) = Some (Proceeds [] (AsksProxy (js ''https://8.8.8.8:53/'')))"
  "next_turn None (Inr False) no_resolver 0 64 (net_call_at (AsksProxy (js ''https://8.8.8.8:53/''))) = Some (Proceeds [] Decides)"
  "next_turn None (Inr False) no_resolver 0 64 (net_call_at Decides) = Some (Proceeds [] (Decided net_literal))"
  "next_turn None (Inr False) no_resolver 0 64 (net_call_at (Decided net_literal)) = Some (Proceeds [] (Dials net_literal))"
  by code_simp+

lemma net_after: "after_turn (Proceeds [] ph') (net_call_at ph) = net_call_at ph'"
  by (simp add: after_turn_def net_call_at_def)

lemma net_run_dialling: "net_run net_env net_files (net_dialling, [], [net_ticket], [net_call_at (Dials net_literal)])"
  by (rule net_run_turn [OF net_run_turn [OF net_run_turn [OF net_run_turn [OF net_run_begun net_turns(1) net_after]
    net_turns(2) net_after] net_turns(3) net_after] net_turns(4) net_after])


subsection \<open>Every reachable state\<close>


text \<open>Whatever is dialled or bound was granted: in every state the broker can reach, where a call is
  about to dial or bind, every address the dial may reach and every port the bind may take is covered
  by the grant the call was made under; and unless the call is aborted already, the grant it answers to
  now, after every replacement since, is live and covers it too, or is being withdrawn.\<close>

theorem what_is_dialled_is_granted:
  assumes run: "net_run BE d (B, Q, ts, cs)" and inj: "inj (mint (b_env BE))" and st: "keys_stable BE"
    and c: "c \<in> set cs" and p: "call_phase c = Dials target" and d: "dial_ok c target x" and name: "steady c"
  shows "covered_by c x (patterns (call_grant c)) \<and>
    (call_aborted c \<or>
      (\<exists>t. map_of (tables (b_handles B)) (call_key c) = Some (call_serial c, t) \<and>
        (let g = currentGrantFor t (grant_id (call_grant c)) in
           g \<in> set (revokedGrants t) \<or> (call_key c, g) \<in> set Q \<or>
           (\<exists>gr. currentGrant (b_ledger B) (call_key c) (capability (call_grant c)) = Some gr \<and>
              grant_id gr = g \<and> covered_by c x (patterns gr)))))"
proof
  have cok: "call_ok (issued BE B) (currentGrant (b_ledger B) (call_key c)) (queued Q (call_key c)) (b_handles B) c"
    by (rule net_invD(6) [OF net_inv_run [OF run inj st] c])
  then have snd: "sound c target" and kind: "capability (call_grant c) \<in> kinds_for (call_request c)"
    using p by (simp_all add: call_ok_def phase_ok_def)
  then show now: "covered_by c x (patterns (call_grant c))" using d name unfolding sound_def by blast
  have wider: "covered_by c x ps" if "widened (capability (call_grant c)) (patterns (call_grant c)) ps" for ps
    using widened_covers [OF that kind] snd d name unfolding sound_def by blast
  show "call_aborted c \<or>
      (\<exists>t. map_of (tables (b_handles B)) (call_key c) = Some (call_serial c, t) \<and>
        (let g = currentGrantFor t (grant_id (call_grant c)) in
           g \<in> set (revokedGrants t) \<or> (call_key c, g) \<in> set Q \<or>
           (\<exists>gr. currentGrant (b_ledger B) (call_key c) (capability (call_grant c)) = Some gr \<and>
              grant_id gr = g \<and> covered_by c x (patterns gr))))"
  proof (cases "call_aborted c")
    case False
    then have "active c" using p by (simp add: active_def)
    then obtain t where t: "map_of (tables (b_handles B)) (call_key c) = Some (call_serial c, t)"
      "call_inv (issued BE B) (currentGrant (b_ledger B) (call_key c)) (queued Q (call_key c)) t c"
      by (rule call_okE [OF cok])
    then show ?thesis using wider unfolding call_inv_def Let_def backs_def queued_def by blast
  qed simp
qed

text \<open>C15. Revoking a live grant, from any reachable state and whether or not the revocation could be
  written to disk, leaves the ledger without it and no handle filed under it, and aborts every call in
  flight whose grant it is, or was replaced by it since the call began. The runs are those of C5.\<close>

theorem revoked_grant_leaves_nothing_open:
  assumes run: "net_run BE d (B, Q, ts, cs)" and inj: "inj (mint (b_env BE))" and st: "keys_stable BE"
    and o': "canonical BE o' = Inr k" and g: "currentGrant (b_ledger B) k kind = Some gr"
    and r: "broker_revoke BE fails B o' (grant_id gr) = (B', es, res)"
  shows "currentGrant (b_ledger B') k kind = None \<and>
    (\<forall>s t i r. map_of (tables (b_handles B')) k = Some (s, t) \<longrightarrow> map_of (handles t) i = Some r \<longrightarrow>
       authorisation r \<noteq> ByGrant (grant_id gr)) \<and>
    (\<forall>c s t. c \<in> set cs \<longrightarrow> active c \<longrightarrow> call_key c = k \<longrightarrow> map_of (tables (b_handles B)) k = Some (s, t) \<longrightarrow>
       currentGrantFor t (grant_id (call_grant c)) = grant_id gr \<longrightarrow> cancels es (call_op c))"
proof -
  note inv = net_inv_run [OF run inj st]
  note key = stable_key [OF st o']
  let ?g = "grant_id gr"
  obtain L' lres where l: "revoke_grant (b_env BE) fails (b_ledger B) k ?g = (L', lres)" by fastforce
  obtain T hs ores where rv: "revoke (t_env BE) k ?g (b_handles B) = (T, hs, ores)" using prod_cases3 by blast
  obtain T1 s t t' where c: "getOrCreate (b_handles B) k = (T1, s, t)"
    and v: "revoke_tasks (t_callbacks (t_env BE)) [Enter ?g] t = (t', hs)" and T: "T = reap k s t' T1" and "ores = Inr ()"
    by (rule revoke_parts [OF key [unfolded canonical_key] rv])
  then have B': "B' = B\<lparr>b_ledger := L', b_handles := T\<rparr>" "OnHandles ` set hs \<subseteq> set es"
    using r o' l rv by (auto simp: broker_revoke_def Let_def split: if_splits)
  have ok: "table_ok t"
    using good_ok [OF registry_okD(3) [OF registry_ok_getOrCreate [OF net_invD(2) [OF inv] c]]] .
  have v': "revoked_all (withdrawn t [Enter ?g]) t t' hs" by (rule revoke_tasks_effect [OF v ok, THEN conjunct2])
  have "currentGrant (b_ledger B') k kind = None"
    using revoke_effect [OF net_invD(1) [OF inv] l] g B'(1) by simp
  moreover have "authorisation x \<noteq> ByGrant ?g"
    if m: "map_of (tables (b_handles B')) k = Some (s2, t2)" "map_of (handles t2) i = Some x" for s2 t2 i x
  proof -
    have "t2 = t'" using m(1) B'(1) by (simp add: T reap_at split: if_splits)
    then show ?thesis using revoked_keeps [OF v'] m(2) withdrawn_head(1) [of ?g t "[]"] by metis
  qed
  moreover have "cancels es (call_op x)"
    if x: "x \<in> set cs" "active x" "call_key x = k" and m: "map_of (tables (b_handles B)) k = Some (s2, t2)"
      and al: "currentGrantFor t2 (grant_id (call_grant x)) = ?g" for x s2 t2
  proof -
    obtain t3 where t3: "map_of (tables (b_handles B)) (call_key x) = Some (call_serial x, t3)"
      "call_op x \<in> set (filed (grantOperations t3) (grant_id (call_grant x)))"
      by (rule call_okE [OF net_invD(6) [OF inv x(1)] x(2)])
    have eq: "t2 = t" "t3 = t" using getOrCreate_at(2) [OF c] m t3(1) x(3) by simp_all
    have "Cancel (call_op x) withdrawn_error \<in> set hs"
      using v' t3(2) withdrawn_alias_of [OF al] unfolding eq revoked_all_def by blast
    then show ?thesis using B'(2) unfolding cancels_iff by blast
  qed
  ultimately show ?thesis by blast
qed

lemma cached_patterns:
  "checkConnect (VArray (map VString (patterns g))) hostArg pt resolve (Some (parsedPatternsFor g)) =
   checkConnect (VArray (map VString (patterns g))) hostArg pt resolve None"
proof -
  have "preflightConnect (VArray (map VString (patterns g))) hostArg pt (Some (parsedPatternsFor g)) =
      preflightConnect (VArray (map VString (patterns g))) hostArg pt None"
  proof -
    have "length (parsedPatternsFor g) = length (map VString (patterns g))"
      "map parsePattern (map VString (patterns g)) = parsedPatternsFor g"
      by (simp_all add: parsedPatternsFor_def o_def)
    then show ?thesis unfolding preflightConnect_def by (simp only: option.case if_cancel jsv.case)
  qed
  then show ?thesis by (simp add: checkConnect_def)
qed

text \<open>A datagram leaves directly only for an address that the live \<open>udp.send\<close> grant of its sender
  covers, never past a route unless for this machine and never past a configured proxy; it enters a
  route only if one was in force when the socket was bound and still is, for a name the grant covers;
  without the grant nothing is sent.\<close>

theorem datagram_goes_only_where_granted:
  "case authorisedSend L k routing via proxied resolve host pt of
     SendDirect a \<Rightarrow> (\<exists>g. currentGrant L k (js ''udp.send'') = Some g \<and> connect_allows (patterns g) host a pt \<and>
       (isLoopbackTarget host \<or> \<not> routing \<and> \<not> via) \<and> (via \<or> proxied = Inr False))
   | SendThrough h \<Rightarrow> routing \<and> via \<and> \<not> isLoopbackTarget host \<and>
       (\<exists>g. currentGrant L k (js ''udp.send'') = Some g \<and>
          (normalizeHost h = h \<longrightarrow> routedStillAuthorised (VArray (map VString (patterns g))) h pt))
   | NotSent code platform \<Rightarrow> currentGrant L k (js ''udp.send'') = None \<longrightarrow> code = E_denied"
proof (cases "currentGrant L k (js ''udp.send'')")
  case None
  then show ?thesis by (simp add: authorisedSend_def)
next
  case (Some g)
  let ?granted = "VArray (map VString (patterns g))"
  show ?thesis
  proof (cases "authorisedSend L k routing via proxied resolve host pt")
    case (SendDirect a)
    have dir: "isLoopbackTarget host \<or> \<not> routing \<and> \<not> via" "via \<or> proxied = Inr False"
      and c: "\<exists>rest. checkConnect ?granted (VString host) pt (if via then no_resolver else resolve)
        (Some (parsedPatternsFor g)) = Inr (ConnectAllowed (a # rest))"
      using SendDirect Some by (auto simp: authorisedSend_def Let_def split: if_splits sum.splits option.splits
          connect_decision.splits list.splits routed_decision.splits bool.splits)
    obtain rest where "checkConnect ?granted (VString host) pt (if via then no_resolver else resolve) None =
        Inr (ConnectAllowed (a # rest))" using c unfolding cached_patterns by blast
    then have "connect_allows (patterns g) host a pt" by (rule checked_allows) simp
    then show ?thesis using SendDirect Some dir by simp
  next
    case (SendThrough h)
    have dir: "routing" "via" "\<not> isLoopbackTarget host"
      and c: "checkRoutedConnect ?granted (VString host) pt = Inr (RoutedAllowed h)"
      using SendThrough Some by (auto simp: authorisedSend_def Let_def split: if_splits sum.splits option.splits
          connect_decision.splits list.splits routed_decision.splits bool.splits)
    obtain p where p: "pt = IntNum p"
      using c by (cases pt) (auto simp: checkRoutedConnect_def preflightConnect_def isValidPort_def split: if_splits)
    show ?thesis using SendThrough Some dir routed_still_authorised [OF c [unfolded p]] p by auto
  qed (use Some in simp)
qed



theorem revoked_grant_leaves_nothing_open_witness:
  "\<exists>B' es res. broker_revoke net_env no_failure net_dialling sample_app [0] = (B', es, res) \<and>
     currentGrant (b_ledger B') sample_app (js ''tcp.connect'') = None \<and> cancels es 7"
proof -
  obtain B' es res where r: "broker_revoke net_env no_failure net_dialling sample_app [0] = (B', es, res)" using prod_cases3 by blast
  have "canonical net_env sample_app = Inr sample_app"
    "map_option grant_id (currentGrant (b_ledger net_dialling) sample_app (js ''tcp.connect'')) = Some [0]" by code_simp+
  then obtain gr where k: "canonical net_env sample_app = Inr sample_app"
    and g: "currentGrant (b_ledger net_dialling) sample_app (js ''tcp.connect'') = Some gr" and "grant_id gr = [0]" by auto
  note left = revoked_grant_leaves_nothing_open [OF net_run_dialling net_env_inj net_env_stable k g, of no_failure B' es res]
  have "(case map_of (tables (b_handles net_dialling)) sample_app of None \<Rightarrow> False | Some (s, t) \<Rightarrow> currentGrantFor t [0] = [0])"
    by code_simp
  then obtain s t where t: "map_of (tables (b_handles net_dialling)) sample_app = Some (s, t)" "currentGrantFor t [0] = [0]"
    by (auto simp del: map_of_eq_Some_iff split: option.splits prod.splits)
  let ?c = "net_call_at (Dials net_literal)"
  have c: "active ?c" "call_key ?c = sample_app" "grant_id (call_grant ?c) = [0]" "call_op ?c = 7"
    by (simp_all add: active_def net_call_at_def)
  have "currentGrant (b_ledger B') sample_app (js ''tcp.connect'') = None"
    using left r \<open>grant_id gr = [0]\<close> by simp
  moreover have "cancels es (call_op ?c)"
    using left r \<open>grant_id gr = [0]\<close> c(1-3) t by (simp del: map_of_eq_Some_iff)
  ultimately show ?thesis using r c(4) by auto
qed

end
