(* ===== verification/Spec2Isabelle.thy ===== *)
theory Spec2Isabelle imports LedgerRuns HandleClaims Paths TokenBucket DatagramRelay ManifestRead NetClaims begin

text \<open>
  Orivon is a browser whose web apps may ask for what a page never gets: sockets, files, devices, identities. One
  process, the broker, decides every such request. This development models the broker's decisions and the state they
  rest on (\<open>src/src/broker\<close>), and the reading of an app's manifest (\<open>src/src/loader/manifest\<close>), from which everything an
  app may be granted comes. Strings, numbers and errors are the code's; what is outside the repository is a parameter.

  \<^bold>\<open>How the parts fit together.\<close> An app is a bundle of files at an origin. The loader fetches its manifest
  (\<open>ManifestRead\<close>), hashes the bundle and pins it (\<open>BundleHash\<close>, \<open>Pin\<close>), and asks the update decision (\<open>Update\<close>, over
  \<open>Version\<close> and \<open>GrantRequest\<close>) whether a new version needs a prompt. What the user grants is a list of patterns per
  capability, kept by the grant ledger (\<open>Ledger\<close>). A call of a page arrives under the isolation key of its frame
  (\<open>Origin\<close>), passes a rate limit (\<open>TokenBucket\<close>), and is checked against the granted patterns: \<open>Connect\<close> for sockets and
  TLS, \<open>Bind\<close> for listening, datagrams and name lookup, \<open>Paths\<close> for files, \<open>SiteOrigin\<close> for embedded sites. What it opens
  is a handle in the table of its origin (\<open>HandleStore\<close>, \<open>HandleTree\<close>, \<open>HandleTable\<close>), which revocation, replacement of
  a grant and the end of the session close. The broker itself (\<open>Broker\<close>) joins ledger and table: what it does to a grant it
  does to both, and the calls of \<open>orivon.net\<close> (\<open>NetCalls\<close>) read the grant, run the checks and register what was opened.
  Bytes and datagrams then flow through a relay (\<open>PortPump\<close>, \<open>PortSink\<close>, \<open>SocketRelay\<close>, \<open>DatagramRelay\<close>) over messages
  that are validated first (\<open>Messages\<close>).

  \<^bold>\<open>The theories, in the order of their imports.\<close>
  \<^item> \<open>Prelude\<close>: a JavaScript string as the list of its UTF-16 units, the operations of \<open>String.prototype\<close> and the digit
    classes the files use, \<open>parseInt\<close>, \<open>toString\<close>, 32-bit words, and their lemmas.
  \<^item> \<open>AddressParse\<close>, \<open>Address\<close>, \<open>AddressFormat\<close> (\<open>policy/address-parse.ts\<close>, \<open>address-ranges.ts\<close>, \<open>address.ts\<close>): IPv4 in every
    form \<open>inet_aton\<close> takes, IPv6 as sixteen bytes, the blocked ranges as intervals, the classes, the canonical spelling.
    Parsing what is printed gives the value back; a canonical address is its own canonical form.
  \<^item> \<open>HostPatterns\<close> (\<open>canonical-host.ts\<close>, \<open>connect-patterns.ts\<close>, \<open>reserved-ports.ts\<close>): the \<open>host:port\<close> grammar, what one
    pattern authorises, what may be declared.
  \<^item> \<open>Decision\<close>: the contract of every check against a list of patterns, as a locale: one pattern alone authorises, a
    malformed request never passes, longer grants allow no less. It is interpreted on the re-check of a connection and the
    TLS check in \<open>Connect\<close>, and on lookup and bind in \<open>Bind\<close>.
  \<^item> \<open>Connect\<close> (\<open>connect-preflight.ts\<close>, \<open>connect.ts\<close>, \<open>connect-secure.ts\<close>, \<open>connect-routed.ts\<close>, \<open>own-loopback.ts\<close>,
    \<open>proxy-guard.ts\<close>) and \<open>Bind\<close> (\<open>lookup.ts\<close>, \<open>bind.ts\<close>, \<open>bind-scope.ts\<close>): the checks themselves on every branch.
  \<^item> \<open>Version\<close> (\<open>version-order.ts\<close>) and \<open>Update\<close> (\<open>update.ts\<close>): the semver order as a total preorder, put together from a
    locale of comparators; coverage of one pattern by another, widening, and the update decision.
  \<^item> \<open>GrantRequest\<close> (\<open>hid-pattern.ts\<close>, \<open>manifest-patterns.ts\<close>, \<open>request-grant.ts\<close>): what a capability set declares, and which
    request is granted inside it.
  \<^item> \<open>Origin\<close> (\<open>origin.ts\<close>): isolation keys of URLs and frames.
  \<^item> \<open>Paths\<close> (\<open>paths.ts\<close>, \<open>windows-device-names.ts\<close>): the confinement of app paths, with a locale for the flavour of
    \<open>node:path\<close>, interpreted on the POSIX one.
  \<^item> \<open>TokenBucket\<close> (\<open>transport/token-bucket.ts\<close>, \<open>control-limiter.ts\<close>): the two limiters of control calls, with a locale
    for a limiter's parameters, interpreted on both production budgets.
  \<^item> \<open>Ledger\<close>, \<open>LedgerRuns\<close> (\<open>grants/\<close>): the ledger as state and operations, with the disk explicit and a failing write an
    input; then all sequences of calls as an inductive relation, and what holds of them.
  \<^item> \<open>HandleStore\<close>, \<open>HandleTree\<close>, \<open>HandleTable\<close> (\<open>handles/\<close>): one origin's table and the registry of tables; the abstract
    view of \<open>closeTree\<close> is reachability through children. \<open>HandleRuns\<close>, \<open>HandleSteps\<close> and \<open>HandleClaims\<close> hold the invariant
    of the registry over any sequence of calls and the properties.
  \<^item> \<open>Messages\<close>, \<open>PortPump\<close>, \<open>PortSink\<close>, \<open>SocketRelay\<close>, \<open>DatagramRelay\<close> (\<open>transport/relay/\<close>): message guards and the relays
    of sockets and datagrams, each half a step function over events; the locale \<open>relay_half\<close> says what both halves of a
    relay promise about stopping and is interpreted on all four. An app's abort unlinks its handle while the sink is still
    at work; what the unlinking does is an input of \<open>SocketRelay\<close> (\<open>abort_unlinks\<close>), and the writer is aborted after it.
  \<^item> \<open>BundlePath\<close>, \<open>BundleHash\<close>, \<open>Pin\<close> (\<open>canonical-path.ts\<close>, \<open>bytes.ts\<close>, \<open>bundle-hash.ts\<close>, \<open>own-property.ts\<close>, \<open>pin.ts\<close>): which
    path a file of a bundle has, the hash of a bundle, and the record that pins it.
  \<^item> \<open>SiteOrigin\<close> (\<open>web-context-origin.ts\<close>, \<open>embed-origin.ts\<close>): the origins a manifest may name and what an embed pattern
    admits. \<open>ManifestRead\<close> (\<open>loader/manifest/\<close>): every field of a manifest.
  \<^item> \<open>Broker\<close> (\<open>index.ts\<close>, \<open>forget-origin.ts\<close>, \<open>socket-usage.ts\<close>, \<open>io-errors.ts\<close>): one state of ledger, table and pinned
    manifests, and the entry points that change it. \<open>NetCalls\<close> (\<open>capabilities/net.ts\<close>, \<open>net-connect-secure.ts\<close>,
    \<open>net-bind-grant.ts\<close>, \<open>net-listen.ts\<close>, \<open>net-udp.ts\<close>, \<open>socket-room.ts\<close>): a call in flight and its turns between awaits.
  \<^item> \<open>NetCovered\<close>, \<open>NetTables\<close>, \<open>NetKeys\<close>, \<open>NetGrants\<close>: what a decision at the dial says about the patterns it was made
    from, what each call of the handle table and of the ledger leaves as it was, and the invariant of one origin.
    \<open>NetRuns\<close>: the broker as a transition system, with any number of calls in flight and any order of steps, and the
    invariant in every reachable state. \<open>NetClaims\<close>: what follows from it.
  \<^item> \<open>Spec2Isabelle\<close>: the properties that join several parts, below.

  \<^bold>\<open>State and errors.\<close> A class or closure is a record of its fields and an operation answers the new record. A \<open>Map\<close> or
  \<open>Set\<close> the code iterates is a list in insertion order. What the code does to the outside, in order, is a list of effects.
  A rejection is a value: a sum with the code of the error where callers tell errors apart, \<open>None\<close> where they do not; the
  text of a message is left out. An \<open>await\<close> ends a step: what follows it is the next event, so any interleaving of the
  calls of a page is a sequence of events. A callback that comes back into the object while it runs is the next event too,
  where nothing after the callback reads what it changes, and is not modelled otherwise (\<open>HandleStore\<close> says where).
  Numbers that cannot leave the range of exact doubles are \<open>int\<close>, \<open>nat\<close> or \<open>rat\<close>; bit operations are on \<open>32 word\<close>.

  \<^bold>\<open>Parameters.\<close> The resolver; the WHATWG URL parser, whole and of one path segment; \<open>JSON.parse\<close>; \<open>toLowerCase\<close>,
  \<open>toUpperCase\<close> and NFC (Unicode tables); SHA-256; \<open>realpath\<close> and the Windows flavour of \<open>node:path\<close>; random ids; the clock;
  which writes to disk fail; what a socket, a destroy callback or a listener answers. A theorem that needs more of one of
  them than that it is a function says so: a parser's hostname has no slash, its origin is printed scheme first, a digest
  has 32 bytes, the digests in play do not collide, the clock does not run backwards. Each is documented behaviour, and
  each such theorem has a witness at a concrete instance.

  \<^bold>\<open>Termination and fuel.\<close> All loops but two are total functions with a measure. Drawing an id that is not in use is a
  \<open>partial_function\<close>, and \<open>acquire_always_answers\<close> shows that it ends for ids that do not repeat. The recursion of
  \<open>embedAdmissionKind\<close> through \<open>blob:\<close> URLs has fuel, one more than the length of the URL, which \<open>embed_fuel\<close> shows to be
  enough.

  \<^bold>\<open>Bounds on the broker's runs.\<close> \<open>net_run\<close> starts with nothing in memory over any files. Its steps give patterns that
  a parsed manifest can declare and revoke grants that were made, no origin's memory of revoked grants (576) is full, and
  no call is for a name that ends in two dots, which a later check reads as another name (a finding). A grant id is never
  drawn twice.

  \<^bold>\<open>Not modelled.\<close> The entry points of files, identities, windows and embedded pages (the rest of \<open>broker/capabilities\<close>)
  and paths a person picked; the socket objects a page gets; datagrams carried by a route; the adapters to sockets, DNS and files; control-message dispatch and the SOCKS5 and onion routes; derivation and
  extension policies; the fetching, caching and serving of bundles by the loader beyond its manifest; the files behind the
  ledger; an \<open>AbortSignal\<close>, whose effect is an event of the operation it ends. The main process, the page-side wrappers,
  the user interface, telemetry and the shims are glue over Electron and the DOM, of which the repository has no code.
\<close>

section \<open>Updates: what installs without a prompt adds no authority\<close>

text \<open>C1. An update decided without a capability prompt opens no new connection: every address
  the new manifest's \<open>tcp.connect\<close>-shaped patterns let \<open>checkConnect\<close> dial is one the patterns
  already granted (or already asked about) authorise, for every host, port and resolver.\<close>

theorem update_adds_no_connection:
  assumes "decideUpdate lower u \<in> {Silent, Reconsent, RollbackNotice}"
    and "patternsFor (newPatterns u) kind = Some wanted"
    and "patternsFor (unionPatterns (grantedPatterns u) (previouslyDeclaredPatterns u)) kind = Some held"
    and "\<forall>g\<in>set held. isDeclarableConnectPattern (VString g) connect" and "length held \<le> MAX_PATTERNS"
    and "checkConnect (VArray (map VString wanted)) (VString h) (IntNum p) r None = Inr (ConnectAllowed dial)"
    and "a \<in> set dial"
  shows "connectStillAuthorised (VArray (map VString held)) (VString h) a (IntNum p)"
proof -
  have "\<forall>w\<in>set wanted. \<exists>g\<in>set held. covers g w"
    using not_widens [OF decideUpdate_no_prompt [OF assms(1)] assms(2)] assms(3) by simp
  moreover have "\<forall>g\<in>set held. declarable connect g"
    using assms(4) by (simp add: declarable_def)
  moreover have "still_open (map VString wanted) (h, a, p)"
    using checkConnect_dial(5) [OF assms(6,7)] .
  ultimately have "still_open (map VString held) (h, a, p)"
    using covered_connect assms(5) by blast
  then show ?thesis by (simp add: still_open_def)
qed

definition example_update :: update_input where
  "example_update =
     \<lparr>pinnedHash = js ''ab'', newHash = js ''AB'',
      grantedPatterns = [(js ''tcp.connect'', Some [js ''*:*'', js ''mail.example:25''])],
      newPatterns = [(js ''tcp.connect'', Some [js ''example.com:443'', js ''mail.example:25''])],
      version = js ''1.2.0'', versionFloor = js ''1.1.9'', rollbackAcknowledged = False,
      previouslyDeclaredPatterns = None\<rparr>"

lemma update_adds_no_connection_witness:
  "connectStillAuthorised (VArray (map VString [js ''*:*'', js ''mail.example:25'']))
     (VString (js ''example.com'')) (js ''93.184.216.34'') (IntNum 443)"
proof (rule update_adds_no_connection)
  show "decideUpdate (map ascii_lower) example_update \<in> {Silent, Reconsent, RollbackNotice}"
    by code_simp
  show "patternsFor (newPatterns example_update) (js ''tcp.connect'') =
      Some [js ''example.com:443'', js ''mail.example:25'']"
    by code_simp
  show "patternsFor (unionPatterns (grantedPatterns example_update)
      (previouslyDeclaredPatterns example_update)) (js ''tcp.connect'') =
      Some [js ''*:*'', js ''mail.example:25'']"
    by code_simp
  show "\<forall>g\<in>set [js ''*:*'', js ''mail.example:25'']. isDeclarableConnectPattern (VString g) TcpConnect"
    by code_simp
  show "length [js ''*:*'', js ''mail.example:25''] \<le> MAX_PATTERNS" by code_simp
  show "checkConnect (VArray (map VString [js ''example.com:443'', js ''mail.example:25'']))
      (VString (js ''example.com'')) (IntNum 443)
      (\<lambda>_. Inr [VString (js ''93.184.216.34'')] :: unit + jsv list) None =
      Inr (ConnectAllowed [js ''93.184.216.34''])"
    by code_simp
qed simp

text \<open>The same for TLS: a host the new \<open>https.connect\<close> patterns allow was allowed before.\<close>

theorem update_adds_no_secure_host:
  assumes "decideUpdate lower u \<in> {Silent, Reconsent, RollbackNotice}"
    and "patternsFor (newPatterns u) kind = Some wanted"
    and "patternsFor (unionPatterns (grantedPatterns u) (previouslyDeclaredPatterns u)) kind = Some held"
    and "\<forall>g\<in>set held. isDeclarableConnectPattern (VString g) connect" and "length held \<le> MAX_PATTERNS"
    and "checkConnectSecure (VArray (map VString wanted)) (VString h) (IntNum p) = SecureAllowed host"
  shows "checkConnectSecure (VArray (map VString held)) (VString h) (IntNum p) = SecureAllowed host"
proof -
  have "\<forall>w\<in>set wanted. \<exists>g\<in>set held. covers g w"
    using not_widens [OF decideUpdate_no_prompt [OF assms(1)] assms(2)] assms(3) by simp
  moreover have "\<forall>g\<in>set held. declarable connect g"
    using assms(4) by (simp add: declarable_def)
  moreover have "secure_allowed (map VString wanted) (h, p)"
    using assms(6) by (auto simp: secure_allowed_def)
  ultimately have "secure_allowed (map VString held) (h, p)"
    using covered_secure assms(5) by blast
  then show ?thesis
    using assms(6) by (auto simp: secure_allowed_def secure_allowed_host)
qed

lemma update_adds_no_secure_host_witness:
  "checkConnectSecure (VArray (map VString [js ''*:*'', js ''mail.example:25'']))
     (VString (js ''Example.com'')) (IntNum 443) = SecureAllowed (js ''example.com'')"
proof (rule update_adds_no_secure_host)
  show "decideUpdate (map ascii_lower) example_update \<in> {Silent, Reconsent, RollbackNotice}"
    by code_simp
  show "patternsFor (newPatterns example_update) (js ''tcp.connect'') =
      Some [js ''example.com:443'', js ''mail.example:25'']"
    by code_simp
  show "patternsFor (unionPatterns (grantedPatterns example_update)
      (previouslyDeclaredPatterns example_update)) (js ''tcp.connect'') =
      Some [js ''*:*'', js ''mail.example:25'']"
    by code_simp
  show "\<forall>g\<in>set [js ''*:*'', js ''mail.example:25'']. isDeclarableConnectPattern (VString g) HttpsConnect"
    by code_simp
  show "length [js ''*:*'', js ''mail.example:25''] \<le> MAX_PATTERNS" by code_simp
  show "checkConnectSecure (VArray (map VString [js ''example.com:443'', js ''mail.example:25'']))
      (VString (js ''Example.com'')) (IntNum 443) = SecureAllowed (js ''example.com'')"
    by code_simp
qed

text \<open>And for listening sockets, where the patterns already held are ones \<open>checkBind\<close> uses: an
  update without a prompt lets the app bind no further port.\<close>

theorem update_adds_no_listen_port:
  assumes "decideUpdate lower u \<in> {Silent, Reconsent, RollbackNotice}"
    and "patternsFor (newPatterns u) kind = Some wanted"
    and "patternsFor (unionPatterns (grantedPatterns u) (previouslyDeclaredPatterns u)) kind = Some held"
    and "\<forall>g\<in>set held. \<exists>ranges. checkBind (VArray [VString g]) (IntNum 0) = BindAllowed ranges"
    and "length held \<le> MAX_PATTERNS"
    and "p \<noteq> 0" and "checkBind (VArray (map VString wanted)) (IntNum p) = BindAllowed ranges"
  shows "checkBind (VArray (map VString held)) (IntNum p) = BindAllowed ranges"
proof -
  have "\<forall>w\<in>set wanted. \<exists>g\<in>set held. covers g w"
    using not_widens [OF decideUpdate_no_prompt [OF assms(1)] assms(2)] assms(3) by simp
  moreover have "\<forall>g\<in>set held. pattern_ranges (VString g) \<noteq> []"
    using assms(4) by (fastforce simp: checkBind_eq Let_def split: if_splits)
  moreover have "bind_allowed (map VString wanted) p"
    using assms(6,7) by (simp add: bind_allowed_def)
  ultimately have "bind_allowed (map VString held) p"
    using covered_bind assms(5) by blast
  then obtain held_ranges where "checkBind (VArray (map VString held)) (IntNum p) = BindAllowed held_ranges"
    by (auto simp: bind_allowed_def split: bind_decision.splits)
  then show ?thesis
    using checkBind_ranges(3) assms(6,7) by metis
qed

lemma update_adds_no_listen_port_witness:
  "checkBind (VArray (map VString [js ''6881-6999''])) (IntNum 6885) =
     BindAllowed [\<lparr>range_lo = 6885, range_hi = 6885\<rparr>]"
proof (rule update_adds_no_listen_port)
  let ?u = "example_update\<lparr>grantedPatterns := [(js ''udp.bind.local'', Some [js ''6881-6999''])],
      newPatterns := [(js ''udp.bind.local'', Some [js ''6881-6889''])]\<rparr>"
  show "decideUpdate (map ascii_lower) ?u \<in> {Silent, Reconsent, RollbackNotice}"
    by code_simp
  show "patternsFor (newPatterns ?u) (js ''udp.bind.local'') = Some [js ''6881-6889'']"
    by code_simp
  show "patternsFor (unionPatterns (grantedPatterns ?u) (previouslyDeclaredPatterns ?u))
      (js ''udp.bind.local'') = Some [js ''6881-6999'']"
    by code_simp
  have "checkBind (VArray [VString (js ''6881-6999'')]) (IntNum 0) =
      BindAllowed [\<lparr>range_lo = 6881, range_hi = 6999\<rparr>]"
    by code_simp
  then show "\<forall>g\<in>set [js ''6881-6999'']. \<exists>ranges. checkBind (VArray [VString g]) (IntNum 0) = BindAllowed ranges"
    by simp
  show "length [js ''6881-6999''] \<le> MAX_PATTERNS" by code_simp
  show "checkBind (VArray (map VString [js ''6881-6889''])) (IntNum 6885) =
      BindAllowed [\<lparr>range_lo = 6885, range_hi = 6885\<rparr>]"
    by code_simp
qed simp

text \<open>C4. One requested pattern that no pattern granted, or asked about before, covers stops the update,
  whatever else is unchanged: the answer is a capability prompt, or the rollback choice below an
  unacknowledged floor, and in particular an acknowledged rollback is no shortcut past the prompt.\<close>

theorem uncovered_pattern_prompts:
  assumes "patternsFor (newPatterns u) kind = Some wanted" and "w \<in> set wanted"
    and "\<forall>g\<in>set (held_patterns u kind). \<not> covers g w"
  shows "decideUpdate lower u =
    (if isAtOrAboveFloor (version u) (versionFloor u) \<or> rollbackAcknowledged u
     then CapabilityPrompt else RollbackChoice)"
  using uncovered_widens [OF assms] by (simp add: decideUpdate_def ordinaryEscalation_def)

lemma uncovered_pattern_prompts_witness:
  "decideUpdate (map ascii_lower)
     (example_update\<lparr>newPatterns := [(js ''tcp.connect'', Some [js ''192.168.1.1:80''])]\<rparr>) = CapabilityPrompt"
proof -
  let ?u = "example_update\<lparr>newPatterns := [(js ''tcp.connect'', Some [js ''192.168.1.1:80''])]\<rparr>"
  have p: "patternsFor (newPatterns ?u) (js ''tcp.connect'') = Some [js ''192.168.1.1:80'']"
    by code_simp
  have u: "\<forall>g\<in>set (held_patterns ?u (js ''tcp.connect'')). \<not> covers g (js ''192.168.1.1:80'')"
    by code_simp
  from uncovered_pattern_prompts [OF p _ u, of "map ascii_lower"]
  have "decideUpdate (map ascii_lower) ?u =
      (if isAtOrAboveFloor (version ?u) (versionFloor ?u) \<or> rollbackAcknowledged ?u
       then CapabilityPrompt else RollbackChoice)" by simp
  moreover have "isAtOrAboveFloor (version ?u) (versionFloor ?u)" by code_simp
  ultimately show ?thesis by simp
qed

text \<open>C23. The version order is a total preorder on the strings the parser reads: exact antisymmetry,
  reflexivity, no value but \<open>-1, 0, 1\<close>, and a chain of steps that never go down never ends below its
  start, strictly below in no step and strictly above as soon as one step is.\<close>

theorem version_order_total_preorder:
  "compareVersions b a = map_option uminus (compareVersions a b) \<and>
   compareVersions a a = (if parseVersion a = None then None else Some 0) \<and>
   (compareVersions a b = None \<longleftrightarrow> parseVersion a = None \<or> parseVersion b = None) \<and>
   (\<forall>d e. compareVersions a b = Some d \<longrightarrow> compareVersions b c = Some e \<longrightarrow> d \<le> 0 \<longrightarrow> e \<le> 0 \<longrightarrow>
      d \<in> {-1, 0} \<and> (\<exists>k. compareVersions a c = Some k \<and> k \<le> 0 \<and> (d < 0 \<or> e < 0 \<longrightarrow> k < 0)))"
  using compareVersions_swap [of b a] compareVersions_refl [of a] compareVersions_None_iff [of a b]
    compareVersions_trans [of a b _ c] compareVersions_values [of a b] by fastforce

lemma version_order_total_preorder_witness:
  "compareVersions (js ''1.2.0-rc.1'') (js ''1.10'') = Some (-1)"
proof -
  have ab: "compareVersions (js ''1.2.0-rc.1'') (js ''1.2'') = Some (-1)" by code_simp
  have bc: "compareVersions (js ''1.2'') (js ''1.10'') = Some (-1)" by code_simp
  obtain k where k: "compareVersions (js ''1.2.0-rc.1'') (js ''1.10'') = Some k" "k < 0"
    using version_order_total_preorder [of "js ''1.2''" "js ''1.2.0-rc.1''" "js ''1.10''"] ab bc by auto
  have "k = -1"
    using compareVersions_values [OF k(1)] k(2) by simp
  then show ?thesis using k(1) by simp
qed

text \<open>A pattern that may be declared covers itself, so an unchanged manifest never widens: with an
  unchanged bundle and a version at the floor the update is silent.\<close>

theorem unchanged_update_is_silent:
  assumes "newPatterns u = grantedPatterns u" and "previouslyDeclaredPatterns u = None"
    and "\<forall>(kind, v)\<in>set (grantedPatterns u). \<exists>ps. v = Some ps \<and>
      (\<forall>g\<in>set ps. isDeclarableConnectPattern (VString g) connect)"
    and "newHash u = pinnedHash u" and "lower (trim (newHash u)) \<noteq> []"
    and "version u = versionFloor u" and "parseVersion (version u) \<noteq> None"
  shows "decideUpdate lower u = Silent"
proof -
  have "\<not> widensAuthority (grantedPatterns u) (grantedPatterns u)"
  proof
    assume "widensAuthority (grantedPatterns u) (grantedPatterns u)"
    then obtain kind ps g where k: "patternsFor (grantedPatterns u) kind = Some ps" "g \<in> set ps"
      and "\<forall>h\<in>set ps. \<not> covers h g"
      by (auto simp: widensAuthority_def list_ex_iff split: option.splits)
    then have "\<not> covers g g" by blast
    moreover have "(kind, Some ps) \<in> set (grantedPatterns u)"
      using k(1) by (auto simp: patternsFor_def dest: map_of_SomeD split: option.splits)
    then have "declarable connect g" using assms(3) k(2) by (force simp: declarable_def)
    ultimately show False using covers_refl by blast
  qed
  moreover have "isAtOrAboveFloor (version u) (versionFloor u)"
    using assms(6,7) by (auto simp: isAtOrAboveFloor_def compareVersions_refl)
  ultimately show ?thesis
    using assms(1,2,4,5) by (simp add: decideUpdate_silent isSameBundle_def Let_def)
qed

lemma unchanged_update_is_silent_witness:
  "decideUpdate (map ascii_lower)
     (example_update\<lparr>newPatterns := grantedPatterns example_update, newHash := js ''ab'',
        version := js ''1.1.9''\<rparr>) = Silent"
proof (rule unchanged_update_is_silent)
  let ?u = "example_update\<lparr>newPatterns := grantedPatterns example_update, newHash := js ''ab'',
        version := js ''1.1.9''\<rparr>"
  show "previouslyDeclaredPatterns ?u = None" "newHash ?u = pinnedHash ?u" "version ?u = versionFloor ?u"
    by (simp_all add: example_update_def)
  have "\<forall>g\<in>set [js ''*:*'', js ''mail.example:25'']. isDeclarableConnectPattern (VString g) TcpConnect"
    by code_simp
  then show "\<forall>(kind, v)\<in>set (grantedPatterns ?u). \<exists>ps. v = Some ps \<and>
      (\<forall>g\<in>set ps. isDeclarableConnectPattern (VString g) TcpConnect)"
    by (simp add: example_update_def)
  show "map ascii_lower (trim (newHash ?u)) \<noteq> []" by code_simp
  show "parseVersion (version ?u) \<noteq> None" by code_simp
qed simp

section \<open>Connections\<close>

text \<open>C7. The complete account of when \<open>checkConnect\<close> allows and what it hands back, for every
  pattern list, host, port and resolver: \<open>localhost\<close> is answered with the granted loopback literals;
  a literal is its own answer; a name is resolved, every one of its 1 to 64 answers must be a
  canonical literal the grant authorises, and the result is their first occurrences in order.\<close>

theorem connect_allows_iff:
  "checkConnect (VArray ps) (VString h) (IntNum p) r None = Inr (ConnectAllowed dial) \<longleftrightarrow>
     (\<exists>req. canonical_request h = Some req \<and>
       (if req = LOCALHOST
        then dial \<noteq> [] \<and>
          dial = filter (\<lambda>a. connectStillAuthorised (VArray ps) (VString h) a (IntNum p)) LOOPBACK_LITERALS
        else \<exists>texts. dial_set r req texts \<and> texts \<noteq> [] \<and> length texts \<le> MAX_ANSWERS \<and>
          list_all (\<lambda>t. canonicalAddress (normalizeHost t) = Some (normalizeHost t) \<and>
             connectStillAuthorised (VArray ps) (VString h) (normalizeHost t) (IntNum p)) texts \<and>
          dial = first_occurrences (map normalizeHost texts)))"
  using checkConnect_allowed_iff [of ps h p r dial] by (simp add: still_open_def list_all_iff)

text \<open>C8. What is handed to the dialer: at least one and at most 64 distinct addresses, each its own
  canonical spelling (so nothing resolves it again), none multicast or broadcast, and each public
  unicast, or spelled out as that literal by a granted pattern, or a loopback literal under a pattern
  naming \<open>localhost\<close>; and one granted pattern by itself authorises it.\<close>

theorem connect_dials_only_authorised_literals:
  assumes "checkConnect (VArray ps) (VString h) (IntNum p) r None = Inr (ConnectAllowed dial)"
  shows "dial \<noteq> [] \<and> distinct dial \<and> length dial \<le> MAX_ANSWERS \<and>
    list_all (\<lambda>a. canonicalAddress a = Some a \<and>
      classifyAddress a \<noteq> Multicast \<and> classifyAddress a \<noteq> Broadcast \<and>
      list_ex (\<lambda>pattern. connectStillAuthorised (VArray [pattern]) (VString h) a (IntNum p) \<and>
        (case parsePattern pattern of
           None \<Rightarrow> False
         | Some pat \<Rightarrow> isPublicUnicast a \<or> normalizeHost (pat_host pat) = a \<or>
             (normalizeHost (pat_host pat) = LOCALHOST \<and> a \<in> set LOOPBACK_LITERALS))) ps) dial"
proof -
  note d = checkConnect_dial [OF assms]
  have "canonicalAddress a = Some a \<and> classifyAddress a \<noteq> Multicast \<and> classifyAddress a \<noteq> Broadcast \<and>
      (\<exists>pattern\<in>set ps. connectStillAuthorised (VArray [pattern]) (VString h) a (IntNum p) \<and>
        (case parsePattern pattern of
           None \<Rightarrow> False
         | Some pat \<Rightarrow> isPublicUnicast a \<or> normalizeHost (pat_host pat) = a \<or>
             (normalizeHost (pat_host pat) = LOCALHOST \<and> a \<in> set LOOPBACK_LITERALS)))"
    if a: "a \<in> set dial" for a
  proof -
    obtain pattern where p: "pattern \<in> set ps" "still_open [pattern] (h, a, p)"
      using reconnect.no_cross_pattern [OF d(5) [OF a]] by blast
    then have "connect_one pattern (h, a, p)"
      by (simp add: still_open_def still_iff)
    from connect_one_reach [OF this d(4) [OF a]] obtain pat req
      where "parsePattern pattern = Some pat" "hostMatches (pat_host pat) req a" by blast
    then show ?thesis
      using p d(4) [OF a] hostMatches_reach [of "pat_host pat" req a] hostMatches_not_group [of "pat_host pat" req a]
      by (fastforce simp: still_open_def)
  qed
  then show ?thesis
    using d(1,2,3) by (simp add: list_all_iff list_ex_iff)
qed

lemma connect_dials_only_authorised_literals_witness:
  "list_all (\<lambda>a. canonicalAddress a = Some a \<and> classifyAddress a \<noteq> Multicast)
     [js ''93.184.216.34'', js ''2606:4700::1111'']"
proof -
  have "checkConnect (VArray [VString (js ''*:22''), VString (js ''*:443'')]) (VString (js ''a.example'')) (IntNum 443)
      (\<lambda>_. Inr [VString (js ''93.184.216.34''), VString (js ''2606:4700::1111''),
         VString (js ''93.184.216.34'')] :: unit + jsv list) None =
      Inr (ConnectAllowed [js ''93.184.216.34'', js ''2606:4700::1111''])"
    by code_simp
  from connect_dials_only_authorised_literals [OF this] show ?thesis
    by (simp only: list_all_iff) blast
qed

text \<open>On a reserved port every dialled address is authorised by a pattern that names that very port
  as a single number and matches the host itself: the naming of one pattern never stands in for the
  host of another.\<close>

theorem reserved_port_needs_its_own_pattern:
  assumes "checkConnect (VArray ps) (VString h) (IntNum p) r None = Inr (ConnectAllowed dial)"
    and "isReservedPort p" and "a \<in> set dial"
  shows "\<exists>pattern\<in>set ps. \<exists>pat req. parsePattern pattern = Some pat \<and> canonical_request h = Some req \<and>
    parsePortSpec (pat_port pat) = Some (PortSpan p p) \<and> hostMatches (pat_host pat) req a"
proof -
  have "still_open ps (h, a, p)" "canonicalAddress a = Some a"
    using checkConnect_dial(4,5) [OF assms(1,3)] by simp_all
  then obtain pattern where "pattern \<in> set ps" "connect_one pattern (h, a, p)"
    by (auto simp: still_open_def still_iff)
  from connect_one_reach [OF this(2)] this(1) show ?thesis
    using \<open>canonicalAddress a = Some a\<close> assms(2) by (auto simp: names_exactly_span)
qed

lemma reserved_port_needs_its_own_pattern_witness:
  "\<exists>pattern\<in>set [VString (js ''*:*''), VString (js ''mail.example:25'')]. \<exists>pat req.
     parsePattern pattern = Some pat \<and> canonical_request (js ''mail.example'') = Some req \<and>
     parsePortSpec (pat_port pat) = Some (PortSpan 25 25) \<and> hostMatches (pat_host pat) req (js ''93.184.216.34'')"
proof (rule reserved_port_needs_its_own_pattern)
  show "checkConnect (VArray [VString (js ''*:*''), VString (js ''mail.example:25'')])
      (VString (js ''mail.example'')) (IntNum 25)
      (\<lambda>_. Inr [VString (js ''93.184.216.34'')] :: unit + jsv list) None =
      Inr (ConnectAllowed [js ''93.184.216.34''])"
    by code_simp
  show "isReservedPort 25" by code_simp
qed simp

text \<open>The resolver is no oracle: two resolvers that agree on the one requested name give the same
  decision, and they need not agree even there when the request is a literal, is \<open>localhost\<close>, or
  is one no granted pattern could match however it resolved.\<close>

theorem connect_consults_resolver_only_for_granted_names:
  assumes "\<And>req. canonical_request h = Some req \<Longrightarrow> classifyAddress req = Unparseable \<Longrightarrow>
      req \<noteq> LOCALHOST \<Longrightarrow>
      couldAnyPatternMatch (map (\<lambda>pattern. narrow p (parsePattern pattern)) ps) req p \<Longrightarrow>
      r req = r' req"
  shows "checkConnect (VArray ps) (VString h) (IntNum p) r None =
    checkConnect (VArray ps) (VString h) (IntNum p) r' None"
  by (rule checkConnect_resolver) (rule assms)

lemma connect_consults_resolver_only_for_granted_names_witness:
  "checkConnect (VArray [VString (js ''api.example:443'')]) (VString (js ''nas.internal'')) (IntNum 443)
     (\<lambda>_. Inl () :: unit + jsv list) None =
   checkConnect (VArray [VString (js ''api.example:443'')]) (VString (js ''nas.internal'')) (IntNum 443)
     (\<lambda>_. Inr [VString (js ''192.168.1.2'')]) None"
proof (rule connect_consults_resolver_only_for_granted_names)
  fix req
  assume r: "canonical_request (js ''nas.internal'') = Some req"
    and c: "couldAnyPatternMatch (map (\<lambda>pattern. narrow 443 (parsePattern pattern))
      [VString (js ''api.example:443'')]) req 443"
  have "canonical_request (js ''nas.internal'') = Some (js ''nas.internal'')" by code_simp
  then have "req = js ''nas.internal''" using r by simp
  moreover have "\<not> couldAnyPatternMatch (map (\<lambda>pattern. narrow 443 (parsePattern pattern))
      [VString (js ''api.example:443'')]) (js ''nas.internal'') 443"
    by code_simp
  ultimately show "Inl () = (Inr [VString (js ''192.168.1.2'')] :: unit + jsv list)"
    using c by simp
qed

text \<open>A host that \<open>checkConnectSecure\<close> allows is allowed by one granted pattern alone, and that pattern
  names it, or is a bare \<open>*\<close> and the host is neither an address literal outside public unicast nor a
  localhost name; on a reserved port it names that port.\<close>

theorem secure_host_is_named_or_public:
  assumes "checkConnectSecure (VArray ps) (VString h) (IntNum p) = SecureAllowed host"
  shows "canonical_request h = Some host \<and>
    (\<exists>pattern\<in>set ps. checkConnectSecure (VArray [pattern]) (VString h) (IntNum p) = SecureAllowed host \<and>
      (\<exists>pat. parsePattern pattern = Some pat \<and> portMatches (pat_port pat) p \<and>
        (if pat_host pat = js ''*''
         then \<not> isNonPublicAddressLiteral host \<and> \<not> isLocalhostName host
         else normalizeHost (pat_host pat) = host) \<and>
        (isReservedPort p \<longrightarrow> parsePortSpec (pat_port pat) = Some (PortSpan p p))))"
proof -
  have c: "canonical_request h = Some host" using assms by (simp add: secure_allowed_host)
  have "secure_allowed ps (h, p)" using assms by (auto simp: secure_allowed_def)
  from secure.no_cross_pattern [OF this]
  obtain pattern where p: "pattern \<in> set ps" "secure_allowed [pattern] (h, p)" by blast
  then have "checkConnectSecure (VArray [pattern]) (VString h) (IntNum p) = SecureAllowed host"
    using c by (auto simp: secure_allowed_def secure_allowed_host)
  moreover have "secure_one pattern (h, p)" using p(2) by (simp add: secure_allowed_iff)
  from secure_one_reach [OF this] have "\<exists>pat. parsePattern pattern = Some pat \<and> portMatches (pat_port pat) p \<and>
        (if pat_host pat = js ''*'' then \<not> isNonPublicAddressLiteral host \<and> \<not> isLocalhostName host
         else normalizeHost (pat_host pat) = host) \<and>
        (isReservedPort p \<longrightarrow> parsePortSpec (pat_port pat) = Some (PortSpan p p))"
    using c by (auto simp: names_exactly_span)
  ultimately show ?thesis using c p(1) by blast
qed

lemma secure_host_is_named_or_public_witness:
  "canonical_request (js ''Example.com.'') = Some (js ''example.com'')"
proof -
  have "checkConnectSecure (VArray [VString (js ''*:443'')]) (VString (js ''Example.com.'')) (IntNum 443) =
      SecureAllowed (js ''example.com'')"
    by code_simp
  from secure_host_is_named_or_public [OF this] show ?thesis by (rule conjunct1)
qed

text \<open>A routed request never raises: for a literal the plain check needs no resolver, so the resolver
  that must never run never does, whatever the three arguments are.\<close>

theorem routed_connect_never_raises:
  "\<exists>decision. checkRoutedConnect patterns_arg hostArg portArg = Inr decision"
  by (rule checkRoutedConnect_no_raise)

text \<open>What a routed request was allowed stays allowed under the same grant: the host handed back,
  re-checked as it is when a grant is replaced, passes. (For a name the hypothesis says that one
  normalisation was enough, see the findings.)\<close>

theorem routed_connect_still_authorised:
  assumes "checkRoutedConnect (VArray ps) (VString h) (IntNum p) = Inr (RoutedAllowed host)"
    and "classifyAddress host = Unparseable \<Longrightarrow> normalizeHost host = host"
  shows "routedStillAuthorised (VArray ps) host (IntNum p)"
  by (rule routed_still_authorised [OF assms])

lemma routed_connect_still_authorised_witness:
  "routedStillAuthorised (VArray [VString (js ''*:443''), VString (js ''8.8.8.8:53'')])
     (js ''8.8.8.8'') (IntNum 53)"
proof (rule routed_connect_still_authorised)
  show "checkRoutedConnect (VArray [VString (js ''*:443''), VString (js ''8.8.8.8:53'')])
      (VString (js ''8.8.8.8.'')) (IntNum 53) = Inr (RoutedAllowed (js ''8.8.8.8''))"
    by code_simp
  have "classifyAddress (js ''8.8.8.8'') = Public" by code_simp
  then show "classifyAddress (js ''8.8.8.8'') = Unparseable \<Longrightarrow>
      normalizeHost (js ''8.8.8.8'') = js ''8.8.8.8''" by (metis address_class.distinct(1))
qed

section \<open>Addresses\<close>

text \<open>Canonical spelling is canonical: re-reading it gives itself, it belongs to the same address
  class, normalising it as a host changes nothing, and it is short enough to be read back.\<close>

theorem canonical_address_is_canonical:
  assumes "canonicalAddress a = Some b"
  shows "canonicalAddress b = Some b \<and> classifyAddress b = classifyAddress a \<and> classifyAddress b \<noteq> Unparseable \<and>
    normalizeHost b = b \<and> 0 < length b \<and> length b \<le> MAX_LENGTH"
  using canonicalAddress_fixed [OF assms] canonical_literal [OF assms] normalizeHost_canonical [OF assms]
    canonical_shape [OF assms] by simp

lemma canonical_address_is_canonical_witness:
  "canonicalAddress (js ''127.0.0.1'') = Some (js ''127.0.0.1'') \<and> classifyAddress (js ''127.0.0.1'') =
     classifyAddress (js ''0x7f.1'')"
proof -
  have "canonicalAddress (js ''0x7f.1'') = Some (js ''127.0.0.1'')" by code_simp
  from canonical_address_is_canonical [OF this] show ?thesis by blast
qed

text \<open>C27. Printing an address and parsing it gives the address back, for all 16-byte and all 32-bit
  values.\<close>

theorem address_print_parse:
  "(length bs = 16 \<longrightarrow> parseIpv6 (formatIpv6 bs) = Some bs) \<and>
   (v \<le> IPV4_MAX \<longrightarrow> parseIpv4 (formatIpv4 v) = Some v \<and> parseDottedQuad (formatIpv4 v) = Some v)"
  using parse_formatIpv6 parse_formatIpv4 quad_formatIpv4 by blast

lemma address_print_parse_witness:
  "parseIpv6 (formatIpv6 (replicate 15 0 @ [1])) = Some (replicate 15 0 @ [1]) \<and>
   parseIpv4 (formatIpv4 2130706433) = Some 2130706433"
  using address_print_parse [of "replicate 15 0 @ [1]" 2130706433] by (simp add: IPV4_MAX_def)

text \<open>The mask test of the IPv4 table is membership in the CIDR interval: an address is public iff it
  lies in none of the 16 blocked intervals, and otherwise its class is that of the first row that
  contains it.\<close>

theorem ipv4_class_is_first_interval:
  assumes "v \<le> IPV4_MAX"
  shows "classifyIpv4 v =
      (case find (\<lambda>row. in_row4 row v) IPV4_BLOCKED of Some row \<Rightarrow> cls4 row | None \<Rightarrow> Public) \<and>
    (classifyIpv4 v = Public \<longleftrightarrow>
      list_all (\<lambda>row. v < base4 row \<or> base4 row + 2 ^ (32 - prefix4 row) \<le> v) IPV4_BLOCKED)"
  using classifyIpv4_intervals [OF assms] classifyIpv4_Public_iff [OF assms]
  by (auto simp: in_row4_def list_all_iff not_le not_less)

lemma ipv4_class_is_first_interval_witness: "classifyIpv4 1572395042 = Public"
proof -
  have le: "1572395042 \<le> IPV4_MAX" by (simp add: IPV4_MAX_def)
  have "list_all (\<lambda>row. (1572395042::nat) < base4 row \<or> base4 row + 2 ^ (32 - prefix4 row) \<le> 1572395042) IPV4_BLOCKED"
    by (simp add: IPV4_BLOCKED_def octets_def)
  then show ?thesis
    using ipv4_class_is_first_interval [OF le] by blast
qed

text \<open>The run of zero groups an IPv6 address prints as \<open>::\<close> is the longest one, and the leftmost of
  those (RFC 5952): the scan returns a run of zeros that no other run beats.\<close>

theorem ipv6_zero_run_is_longest_leftmost:
  assumes "zero_run 0 ws (-1) 0 (-1) 0 = (b, l)"
  shows "(l = 0 \<or> (0 \<le> b \<and> is_zero_run ws (nat b) l)) \<and>
    (\<forall>start n. 0 < n \<longrightarrow> is_zero_run ws start n \<longrightarrow> n < l \<or> (n = l \<and> nat b \<le> start))"
  using zero_run_longest [OF assms] by blast

lemma ipv6_zero_run_is_longest_leftmost_witness:
  "is_zero_run [1, 0, 0, 2, 0, 0, 0, 3] 4 3"
proof -
  have "zero_run 0 [1, 0, 0, 2, 0, 0, 0, 3] (-1) 0 (-1) 0 = (4, 3)" by code_simp
  from ipv6_zero_run_is_longest_leftmost [OF this] show ?thesis by simp
qed

section \<open>Listening sockets\<close>

text \<open>C18. A bind that is allowed is given at least one range; every range is unprivileged, well formed,
  ends at or below 65535 and lies inside one granted pattern's range; for an explicit port it is that
  port alone.\<close>

theorem bind_stays_inside_granted_ranges:
  assumes "checkBind (VArray ps) (IntNum p) = BindAllowed ranges"
  shows "ranges \<noteq> [] \<and> (p \<noteq> 0 \<longrightarrow> ranges = [\<lparr>range_lo = p, range_hi = p\<rparr>]) \<and>
    list_all (\<lambda>r. MIN_UNPRIVILEGED_PORT \<le> range_lo r \<and> range_lo r \<le> range_hi r \<and> range_hi r \<le> MAX_PORT \<and>
      list_ex (\<lambda>pattern. list_ex (\<lambda>g. range_lo g \<le> range_lo r \<and> range_hi r \<le> range_hi g)
        (pattern_ranges pattern)) ps) ranges"
  using checkBind_ranges [OF assms] by (simp add: list_all_iff list_ex_iff)

lemma bind_stays_inside_granted_ranges_witness:
  "MIN_UNPRIVILEGED_PORT \<le> (6881::int)"
proof -
  have "checkBind (VArray [VString (js ''80''), VString (js ''6881-6889'')]) (IntNum 0) =
      BindAllowed [\<lparr>range_lo = 6881, range_hi = 6889\<rparr>]"
    by code_simp
  from bind_stays_inside_granted_ranges [OF this] show ?thesis by simp
qed

text \<open>The grant a bind rides is the first in preference order whose ports cover it, with that grant's
  own ranges; there is none only if every grant refuses.\<close>

theorem bind_grant_is_first_that_covers:
  "(chooseBindGrant patterns_of grants portArg = Some (g, ranges) \<longleftrightarrow>
     (\<exists>before after. grants = before @ g # after \<and> checkBind (patterns_of g) portArg = BindAllowed ranges \<and>
        list_all (\<lambda>b. \<exists>reason. checkBind (patterns_of b) portArg = BindDenied reason) before)) \<and>
   (chooseBindGrant patterns_of grants portArg = None \<longleftrightarrow>
     list_all (\<lambda>b. \<exists>reason. checkBind (patterns_of b) portArg = BindDenied reason) grants)"
  using chooseBindGrant_first [of patterns_of grants portArg g ranges]
    chooseBindGrant_none [of patterns_of grants portArg] by (simp add: list_all_iff)

section \<open>Asking for a grant, and whose grant it is\<close>

text \<open>The stored form of a HID device filter loses nothing: every filter whose fields are 16-bit
  (and that names no usage without a usage page) is read back from its printed form, and whatever
  string is read as a filter is exactly the printed form of that filter.\<close>

theorem hid_filter_print_parse:
  "(valid_hid f \<longrightarrow> parseHidPattern (hidFilterToPattern f) = Some f) \<and>
   (parseHidPattern s = Some f \<longrightarrow> hidFilterToPattern f = s \<and> valid_hid f)"
  using hid_round_trip [of f] hid_canonical [of s f] by blast

lemma hid_filter_print_parse_witness:
  "parseHidPattern (js ''vendor=046d,product=c52b'') =
     Some \<lparr>vendorId = 1133, productId = Some 50475, usagePage = None, usage = None\<rparr>"
proof -
  have "hidFilterToPattern \<lparr>vendorId = 1133, productId = Some 50475, usagePage = None, usage = None\<rparr> =
      js ''vendor=046d,product=c52b''" by code_simp
  moreover have "valid_hid \<lparr>vendorId = 1133, productId = Some 50475, usagePage = None, usage = None\<rparr>"
    by (simp add: valid_hid_def)
  ultimately show ?thesis
    using hid_filter_print_parse [of "\<lparr>vendorId = 1133, productId = Some 50475, usagePage = None, usage = None\<rparr>"]
    by simp
qed

text \<open>C30. A page cannot talk its way past its manifest: whatever patterns a \<open>tcp.connect\<close> request names,
  if it is allowed then \<open>checkConnect\<close> under the grant dials only addresses the manifest's own
  declared patterns authorise, for every host, port and resolver.\<close>

theorem requested_grant_stays_inside_the_manifest:
  assumes "allowed (decideGrantRequest m (js ''tcp.connect'') req)"
    and "patternsFor (patternSetFromCapabilities (app_capabilities m)) (js ''tcp.connect'') = Some declared"
    and "\<forall>g\<in>set declared. isDeclarableConnectPattern (VString g) TcpConnect" and "length declared \<le> MAX_PATTERNS"
    and "checkConnect (VArray (map VString (to_grant (decideGrantRequest m (js ''tcp.connect'') req))))
      (VString h) (IntNum p) r None = Inr (ConnectAllowed dial)"
    and "a \<in> set dial"
  shows "connectStillAuthorised (VArray (map VString declared)) (VString h) a (IntNum p)"
proof -
  have "\<forall>w\<in>set (to_grant (decideGrantRequest m (js ''tcp.connect'') req)). \<exists>g\<in>set declared. covers g w"
    using decideGrantRequest_allowed [OF assms(1)] assms(2) by (metis option.inject)
  moreover have "\<forall>g\<in>set declared. declarable TcpConnect g"
    using assms(3) by (simp add: declarable_def)
  moreover have "still_open (map VString (to_grant (decideGrantRequest m (js ''tcp.connect'') req))) (h, a, p)"
    using checkConnect_dial(5) [OF assms(5,6)] .
  ultimately have "still_open (map VString declared) (h, a, p)"
    using covered_connect assms(4) by blast
  then show ?thesis by (simp add: still_open_def)
qed

definition example_manifest :: manifest where
  "example_manifest = \<lparr>app_name = js ''Mail'', app_version = js ''1.2.0'',
     app_capabilities = \<lparr>net = Some \<lparr>tcp = Some \<lparr>tcp_connect = Some [js ''*:993'', js ''mail.example:25''],
         tcp_listen = None\<rparr>, udp = None, https = None, concurrentSockets = None\<rparr>,
       fs = None, curves = None, web = None, media = None, secrets = False, trust_score = None, hid = None\<rparr>\<rparr>"

lemma requested_grant_stays_inside_the_manifest_witness:
  "connectStillAuthorised (VArray (map VString [js ''*:993'', js ''mail.example:25'']))
     (VString (js ''imap.example'')) (js ''93.184.216.34'') (IntNum 993)"
proof (rule requested_grant_stays_inside_the_manifest
    [where req = "Some [js ''imap.example:993'']" and m = example_manifest
      and r = "\<lambda>_. Inr [VString (js ''93.184.216.34'')] :: unit + jsv list" and dial = "[js ''93.184.216.34'']"])
  show "allowed (decideGrantRequest example_manifest (js ''tcp.connect'') (Some [js ''imap.example:993'']))"
    by code_simp
  show "patternsFor (patternSetFromCapabilities (app_capabilities example_manifest)) (js ''tcp.connect'') =
      Some [js ''*:993'', js ''mail.example:25'']" by code_simp
  show "\<forall>g\<in>set [js ''*:993'', js ''mail.example:25'']. isDeclarableConnectPattern (VString g) TcpConnect"
    by code_simp
  show "length [js ''*:993'', js ''mail.example:25''] \<le> MAX_PATTERNS" by code_simp
  show "checkConnect (VArray (map VString (to_grant (decideGrantRequest example_manifest (js ''tcp.connect'')
      (Some [js ''imap.example:993'']))))) (VString (js ''imap.example'')) (IntNum 993)
      (\<lambda>_. Inr [VString (js ''93.184.216.34'')] :: unit + jsv list) None = Inr (ConnectAllowed [js ''93.184.216.34''])"
    by code_simp
qed simp

text \<open>C31. The isolation key names one app: two URLs with the same key have the same scheme, the same
  canonical host and the same port, and no web origin's key is ever a local file's. (What is assumed
  of the URL parser: a port is digits, and only a bracketed hostname has a colon or a bracket.)\<close>

theorem isolation_key_names_one_app:
  assumes "originFromUrl parse u = Some key" and "parse u = Some a" and "url_form a"
  shows "(originFromUrl parse v = Some key \<and> parse v = Some b \<and> url_form b \<longrightarrow>
      protocol a = protocol b \<and> canonicalHost (hostname a) = canonicalHost (hostname b) \<and>
      url.port a = url.port b) \<and>
    localFileKey parse' w \<noteq> Some key"
  using origin_key_injective [OF assms(1) _ assms(2)] isolation_keys_disjoint [OF assms(1)] assms(3) by blast

definition example_parser :: url_parser where
  "example_parser u =
     (if u = js ''https://app.example./x''
      then Some \<lparr>protocol = js ''https:'', hostname = js ''app.example.'', port = [], pathname = js ''/x''\<rparr>
      else if u = js ''https://app.example:8443''
      then Some \<lparr>protocol = js ''https:'', hostname = js ''app.example'', port = js ''8443'', pathname = js ''/''\<rparr>
      else None)"

lemma isolation_key_names_one_app_witness:
  "localFileKey example_parser (js ''file:///x'') \<noteq> Some (js ''https://app.example'')"
proof -
  have "originFromUrl example_parser (js ''https://app.example./x'') = Some (js ''https://app.example'')"
    by code_simp
  moreover have "example_parser (js ''https://app.example./x'') =
      Some \<lparr>protocol = js ''https:'', hostname = js ''app.example.'', port = [], pathname = js ''/x''\<rparr>"
    by code_simp
  ultimately show ?thesis
    using isolation_key_names_one_app by (fastforce simp: url_form_def)
qed

text \<open>C32. A frame speaks only for itself: the caller's key is either the web origin that the frame's URL
  and the origin Chromium claims for it both give, or, for a frame whose claimed origin is exactly
  the local-file one, the key of that file. A disposed frame, a missing one, or one whose fields are
  not strings has no key at all.\<close>

theorem frame_speaks_only_for_itself:
  "(callerKeyFromSenderFrame parse fr = Some key \<longrightarrow>
     (\<exists>u claimed. fr = Some (Frame (VString u) (VString claimed)) \<and>
       ((originFromUrl parse u = Some key \<and> originFromUrl parse claimed = Some key) \<or>
        (claimed = LOCAL_FILE_FRAME_ORIGIN \<and> localFileKey parse u = Some key)))) \<and>
   callerKeyFromSenderFrame parse None = None \<and> callerKeyFromSenderFrame parse (Some Disposed) = None"
  using caller_key_cases [of parse fr key]
  by (auto simp: callerKeyFromSenderFrame_def originFromSenderFrame_def)

lemma frame_speaks_only_for_itself_witness:
  "originFromUrl example_parser (js ''https://app.example./x'') = Some (js ''https://app.example'')"
proof -
  define u where "u = js ''https://app.example./x''"
  have "callerKeyFromSenderFrame example_parser (Some (Frame (VString u) (VString u))) =
      Some (js ''https://app.example'')"
    unfolding u_def by code_simp
  moreover have "u \<noteq> LOCAL_FILE_FRAME_ORIGIN" unfolding u_def by code_simp
  ultimately show ?thesis
    using frame_speaks_only_for_itself
      [of example_parser "Some (Frame (VString u) (VString u))" "js ''https://app.example''"]
    unfolding u_def [symmetric] by force
qed

text \<open>Only stable origins are written down: an origin that persists is a local file that is its own
  key, or https with a host that is neither a localhost name nor a loopback or unspecified address;
  for every other origin no grant, floor, acknowledgement or decline ever reaches the disk, and the
  calls return normally whichever writes would fail.\<close>

theorem only_stable_origins_are_written:
  "(persists env origin \<and> url_parse env origin = Some u \<longrightarrow>
      protocol u = js ''file:'' \<and> localFileKey (url_parse env) origin = Some origin \<or>
      protocol u = js ''https:'' \<and> (\<exists>host. canonicalHost (hostname u) = Some host \<and>
         \<not> isLocalhostName host \<and> classifyAddress host \<notin> {Loopback, Unspecified})) \<and>
   (\<not> persists env origin \<longrightarrow>
      persistGrants env fails d origin gs nm = (d, Returns ()) \<and>
      snd (raiseFloor env fails d origin r v) \<in> {(d, Returns True), (d, Returns False)} \<and>
      snd (acknowledge_record env fails d origin r v) = (d, Returns ()) \<and>
      snd (record_declined env fails d origin r kinds) = d \<and> snd (clear_declined env fails d origin r) = d)"
  using persistable_never_loopback [of "url_parse env" origin u]
  by (auto simp: persists_def persistGrants_def raiseFloor_def acknowledge_record_def
      record_declined_def clear_declined_def Let_def)

lemma only_stable_origins_are_written_witness:
  "persistGrants (sample_env\<lparr>has_storage := False\<rparr>) (\<lambda>_. True) (ledger_disk sample_ledger) sample_app [] None =
     (ledger_disk sample_ledger, Returns ())"
proof -
  have "\<not> persists (sample_env\<lparr>has_storage := False\<rparr>) sample_app" by (simp add: persists_def)
  then show ?thesis using only_stable_origins_are_written by blast
qed

end
